(* ===== verification/Prelude.thy ===== *)
theory Prelude
  imports Main "HOL-Library.Word" "HOL-Library.List_Lexorder"
begin

text \<open>
  Shared vocabulary of the development: the machine types of the code (\<open>uint8_t\<close> to
  \<open>uint64_t\<close> as words, byte arrays as lists of bytes), exceptions as values of a sum type,
  and the generic lemmas on big-endian numbers, words and lists that the component theories
  use.  Nothing here models a part of the program by itself.
\<close>

unbundle bit_operations_syntax

section \<open>Machine types\<close>

type_synonym u8 = "8 word"
type_synonym u16 = "16 word"
type_synonym u32 = "32 word"
type_synonym u64 = "64 word"

text \<open>\<open>common::BinaryArray\<close>, and \<open>std::string\<close> where it holds binary data.\<close>

type_synonym bytes = "u8 list"

section \<open>Exceptions\<close>

text \<open>
  Every C++ exception the modelled code raises is one of these values; the string is the
  message of the source.  A call that may throw returns \<open>Inl e\<close> for the exception and
  \<open>Inr v\<close> for the value.
\<close>

datatype exn =
    Runtime_error string
  | Logic_error string
  | Stream_error string
  | Out_of_range string
  | Db_error string
  | Bad_cast

type_synonym 'a result = "exn + 'a"

definition res_bind :: "'a result \<Rightarrow> ('a \<Rightarrow> 'b result) \<Rightarrow> 'b result" where
  "res_bind r f = (case r of Inl e \<Rightarrow> Inl e | Inr x \<Rightarrow> f x)"

text \<open>\<open>invariant(expr, msg)\<close> of \<open>common/Invariant.hpp\<close> throws a \<open>std::logic_error\<close>.\<close>

definition invariant :: "bool \<Rightarrow> string \<Rightarrow> unit result" where
  "invariant b msg = (if b then Inr () else Inl (Logic_error msg))"

named_theorems result_simps "equations of the exception monad"

lemma res_bind_Inr [simp, result_simps]: "res_bind (Inr x) f = f x"
  by (simp add: res_bind_def)

lemma res_bind_Inl [simp, result_simps]: "res_bind (Inl e) f = Inl e"
  by (simp add: res_bind_def)

lemma res_bind_eq_Inr [result_simps]:
  "res_bind r f = Inr y \<longleftrightarrow> (\<exists>x. r = Inr x \<and> f x = Inr y)"
  by (cases r) simp_all

lemma res_bind_assoc: "res_bind (res_bind r f) g = res_bind r (\<lambda>x. res_bind (f x) g)"
  by (cases r) simp_all

lemma invariant_Inr [simp, result_simps]: "invariant b msg = Inr u \<longleftrightarrow> b"
  by (cases u) (simp add: invariant_def)

lemma invariant_True [simp]: "invariant True msg = Inr ()"
  by (simp add: invariant_def)

section \<open>Words\<close>

lemma unat_ucast_down [simp]:
  "unat (ucast (x :: 'a::len word) :: 'b::len word) = unat x mod 2 ^ LENGTH('b)"
  by (simp add: unsigned_ucast_eq take_bit_eq_mod)

lemma unat_push_bit: "unat (push_bit n (x :: 'a::len word)) = unat x * 2 ^ n mod 2 ^ LENGTH('a)"
  by (simp only: unsigned_push_bit_eq push_bit_eq_mult[where ?'a = nat] take_bit_eq_mod[where ?'a = nat])

lemma unat_drop_bit: "unat (drop_bit n (x :: 'a::len word)) = unat x div 2 ^ n"
  by (simp only: unat_drop_bit_eq drop_bit_eq_div[where ?'a = nat])

lemma unat_and_mask: "unat (x AND mask n :: 'a::len word) = unat x mod 2 ^ n"
  by (simp only: take_bit_eq_mask[symmetric] unsigned_take_bit_eq take_bit_eq_mod[where ?'a = nat])

lemma byte_less [simp]: "unat (b :: u8) < 256"
  using unsigned_less[of b] by simp

lemma byte_less_eq: "unat (b :: u8) \<le> 255"
  using byte_less[of b] by linarith

lemma u64_less: "unat (x :: u64) < 2 ^ 64"
  using unsigned_less[of x] by simp

lemma nat_bit_bound: "a < 2 ^ n \<Longrightarrow> bit (a :: nat) k \<Longrightarrow> k < n"
  by (metis bit_take_bit_iff take_bit_nat_eq_self)

lemma unat_ucast_up: "LENGTH('a) \<le> LENGTH('b) \<Longrightarrow> unat (ucast (x :: 'a::len word) :: 'b::len word) = unat x"
  by (metis order_less_le_trans mod_less one_le_numeral power_increasing unat_ucast_down unsigned_less)

lemma ucast_up_down:
  "LENGTH('a) \<le> LENGTH('b) \<Longrightarrow> ucast (ucast (x :: 'a::len word) :: 'b::len word) = x"
proof -
  assume "LENGTH('a) \<le> LENGTH('b)"
  then have "unat (ucast x :: 'b word) = unat x" by (rule unat_ucast_up)
  then have "unat (ucast (ucast x :: 'b word) :: 'a word) = unat x mod 2 ^ LENGTH('a)"
    by (simp only: unat_ucast_down)
  also have "\<dots> = unat x" by (rule mod_less) (rule unsigned_less)
  finally show ?thesis by (simp only: word_unat_eq_iff)
qed

lemma ucast_u64_down [simp]:
  "ucast (ucast (a :: u8) :: u64) = a" "ucast (ucast (b :: u16) :: u64) = b" "ucast (ucast (c :: u32) :: u64) = c"
  by (simp_all add: ucast_up_down)

lemma unat_ucast_u32 [simp]: "unat (ucast (x :: u32) :: u64) = unat x"
  by (rule unat_ucast_up) simp

lemma unat_ucast_u16 [simp]: "unat (ucast (x :: u16) :: u64) = unat x"
  by (rule unat_ucast_up) simp

lemma unat_ucast_u8 [simp]: "unat (ucast (x :: u8) :: u64) = unat x"
  by (rule unat_ucast_up) simp

lemma u32_less: "unat (x :: u32) < 2 ^ 32"
  using unsigned_less[of x] by simp

lemma u16_less: "unat (x :: u16) < 2 ^ 16"
  using unsigned_less[of x] by simp

lemma unat_u32_mod [simp]: "unat (x :: u32) mod 18446744073709551616 = unat x"
  using u32_less [of x] by simp

lemma unat_u16_mod [simp]: "unat (x :: u16) mod 18446744073709551616 = unat x"
  using u16_less [of x] by simp

text \<open>Disjoint bits: \<open>OR\<close> is addition.\<close>

lemma or_eq_add_nat: "a < 2 ^ n \<Longrightarrow> a OR (b * 2 ^ n) = a + b * (2 ^ n :: nat)"
proof -
  assume "a < 2 ^ n"
  then have "a AND push_bit n b = 0"
    by (intro bit_eqI) (auto simp: bit_simps dest: nat_bit_bound)
  then show ?thesis
    using disjunctive_add_eq_or [of a "push_bit n b"] by (simp add: push_bit_eq_mult)
qed

lemma unat_or_push_bit:
  assumes "unat a < 2 ^ n" "unat b * 2 ^ n < 2 ^ LENGTH('a)"
  shows "unat (a OR push_bit n b :: 'a::len word) = unat a + unat b * 2 ^ n"
  using assms by (simp add: unsigned_or_eq unat_push_bit or_eq_add_nat)

section \<open>Big-endian numbers\<close>

text \<open>The number a byte string denotes, most significant byte first.\<close>

definition be_nat :: "bytes \<Rightarrow> nat" where
  "be_nat bs = foldl (\<lambda>n b. n * 256 + unat b) 0 bs"

lemma be_nat_Nil [simp]: "be_nat [] = 0"
  by (simp add: be_nat_def)

lemma be_nat_snoc [simp]: "be_nat (bs @ [b]) = be_nat bs * 256 + unat b"
  by (simp add: be_nat_def)

lemma be_nat_append: "be_nat (bs @ cs) = be_nat bs * 256 ^ length cs + be_nat cs"
  by (induction cs rule: rev_induct) (simp_all add: append_assoc[symmetric] algebra_simps del: append_assoc)

lemma be_nat_Cons: "be_nat (b # bs) = unat b * 256 ^ length bs + be_nat bs"
  using be_nat_append [of "[b]" bs] be_nat_snoc [of "[]" b] by simp

lemma be_nat_less: "be_nat bs < 256 ^ length bs"
proof (induction bs rule: rev_induct)
  case Nil
  then show ?case by simp
next
  case (snoc b bs)
  have "be_nat bs + 1 \<le> 256 ^ length bs" using snoc.IH by simp
  then have "(be_nat bs + 1) * 256 \<le> 256 ^ length bs * 256" by (rule mult_le_mono1)
  then show ?case using byte_less [of b] by (simp del: byte_less)
qed

text \<open>On byte strings of one length, numeric order is lexicographic order.\<close>

lemma be_nat_less_iff:
  "length xs = length ys \<Longrightarrow> be_nat xs < be_nat ys \<longleftrightarrow> xs < ys"
proof (induction xs ys rule: list_induct2)
  case Nil
  then show ?case by simp
next
  case (Cons x xs y ys)
  let ?p = "256 ^ length ys :: nat"
  have b: "be_nat xs < ?p" "be_nat ys < ?p"
    using be_nat_less [of xs] be_nat_less [of ys] Cons.hyps by simp_all
  have key: "unat a * ?p + k < unat c * ?p + l" if "a < c" "k < ?p" for a c :: u8 and k l
  proof -
    have "unat a + 1 \<le> unat c" using \<open>a < c\<close> by (simp add: word_less_nat_alt)
    then have "(unat a + 1) * ?p \<le> unat c * ?p" by (rule mult_le_mono1)
    with \<open>k < ?p\<close> show ?thesis by simp
  qed
  consider "x < y" | "x = y" | "y < x" by (rule linorder_cases)
  then show ?case
  proof cases
    case 1
    with key [OF 1 b(1), of "be_nat ys"] Cons.hyps show ?thesis by (simp add: be_nat_Cons)
  next
    case 2
    with Cons show ?thesis by (simp add: be_nat_Cons)
  next
    case 3
    with key [OF 3 b(2), of "be_nat xs"] Cons.hyps show ?thesis by (auto simp: be_nat_Cons)
  qed
qed

lemma be_nat_inj: "length xs = length ys \<Longrightarrow> be_nat xs = be_nat ys \<Longrightarrow> xs = ys"
  using be_nat_less_iff [of xs ys] be_nat_less_iff [of ys xs]
  by (metis less_irrefl linorder_neq_iff)

text \<open>The \<open>n\<close> low bytes of a number.\<close>

fun nat_be :: "nat \<Rightarrow> nat \<Rightarrow> bytes" where
  "nat_be 0 k = []"
| "nat_be (Suc n) k = nat_be n (k div 256) @ [word_of_nat k]"

lemma length_nat_be [simp]: "length (nat_be n k) = n"
  by (induction n arbitrary: k) simp_all

lemma be_nat_nat_be: "be_nat (nat_be n k) = k mod 256 ^ n"
proof (induction n arbitrary: k)
  case 0
  then show ?case by simp
next
  case (Suc n)
  have "k div 256 mod 256 ^ n * 256 + k mod 256 = k mod (256 * 256 ^ n)"
    using mod_mult2_eq [of k 256 "256 ^ n"] by (simp add: mult.commute)
  with Suc show ?case by (simp add: unat_of_nat)
qed

lemma nat_be_be_nat: "nat_be (length bs) (be_nat bs) = bs"
  using be_nat_inj [of "nat_be (length bs) (be_nat bs)" bs] be_nat_less [of bs]
  by (simp add: be_nat_nat_be)

section \<open>Lists\<close>

lemma less_append_same [simp]: "(p @ xs < p @ ys) \<longleftrightarrow> (xs < (ys :: 'a::linorder list))"
  by (induction p) simp_all

lemma append_eq_prefix_len:
  "length a = length b \<Longrightarrow> a @ r = b @ s \<longleftrightarrow> a = b \<and> r = s"
  by (rule append_eq_append_conv) simp

end
