(* ===== verification/Ordered_Map.thy ===== *)
theory Ordered_Map
  imports Prelude
begin

text \<open>
  The ordered containers of the code, \<open>std::map\<close> and \<open>std::set\<close>, as association
  lists in strictly increasing key order, and the key-value database \<open>platform::DB\<close>
  (\<open>platform/DB.hpp\<close>) seen through its interface: a dictionary from byte strings to byte
  strings whose cursors run over the keys with a given prefix in lexicographic order.
\<close>

section \<open>Ordered maps\<close>

type_synonym ('k, 'v) omap = "('k \<times> 'v) list"

definition om_wf :: "('k::linorder, 'v) omap \<Rightarrow> bool" where
  "om_wf m \<longleftrightarrow> sorted_wrt (<) (map fst m)"

text \<open>\<open>find\<close> / \<open>at\<close> / \<open>count\<close>.\<close>

definition om_find :: "'k::linorder \<Rightarrow> ('k, 'v) omap \<Rightarrow> 'v option" where
  "om_find k m = map_of m k"

text \<open>\<open>m[k] = v\<close>.\<close>

fun om_set :: "'k::linorder \<Rightarrow> 'v \<Rightarrow> ('k, 'v) omap \<Rightarrow> ('k, 'v) omap" where
  "om_set k v [] = [(k, v)]"
| "om_set k v ((a, b) # m) =
     (if k < a then (k, v) # (a, b) # m
      else if k = a then (k, v) # m
      else (a, b) # om_set k v m)"

text \<open>\<open>erase(k)\<close>.\<close>

fun om_erase :: "'k::linorder \<Rightarrow> ('k, 'v) omap \<Rightarrow> ('k, 'v) omap" where
  "om_erase k [] = []"
| "om_erase k ((a, b) # m) = (if k = a then m else (a, b) # om_erase k m)"

text \<open>\<open>insert({k, v})\<close>: the map, and whether the element was inserted.\<close>

definition om_insert :: "'k::linorder \<Rightarrow> 'v \<Rightarrow> ('k, 'v) omap \<Rightarrow> ('k, 'v) omap \<times> bool" where
  "om_insert k v m = (case om_find k m of None \<Rightarrow> (om_set k v m, True) | Some _ \<Rightarrow> (m, False))"

text \<open>\<open>m[k]\<close> where the code default-constructs a missing value.\<close>

definition om_get_default :: "'v \<Rightarrow> 'k::linorder \<Rightarrow> ('k, 'v) omap \<Rightarrow> 'v" where
  "om_get_default d k m = (case om_find k m of None \<Rightarrow> d | Some v \<Rightarrow> v)"

text \<open>The elements from \<open>lower_bound(k)\<close> on.\<close>

definition om_from :: "'k::linorder \<Rightarrow> ('k, 'v) omap \<Rightarrow> ('k, 'v) omap" where
  "om_from k m = dropWhile (\<lambda>(a, _). a < k) m"

named_theorems om_simps "lookup after an update of an ordered map"

definition om_keys :: "('k, 'v) omap \<Rightarrow> 'k set" where
  "om_keys m = fst ` set m"

lemma om_keys_simps [simp]:
  "om_keys [] = {}"
  "om_keys (x # m) = insert (fst x) (om_keys m)"
  by (simp_all add: om_keys_def)

lemma om_keysI: "(k, v) \<in> set m \<Longrightarrow> k \<in> om_keys m"
  by (force simp: om_keys_def)

lemma om_wf_Nil [simp]: "om_wf []"
  by (simp add: om_wf_def)

lemma om_wf_Cons: "om_wf ((a, b) # m) \<longleftrightarrow> (\<forall>k \<in> om_keys m. a < k) \<and> om_wf m"
  by (simp add: om_wf_def om_keys_def)

lemma om_find_Nil [simp, om_simps]: "om_find k [] = None"
  by (simp add: om_find_def)

lemma om_find_Cons [om_simps]: "om_find k ((a, b) # m) = (if k = a then Some b else om_find k m)"
  by (simp add: om_find_def)

lemma om_find_None: "om_find k m = None \<longleftrightarrow> k \<notin> om_keys m"
  by (simp add: om_find_def om_keys_def map_of_eq_None_iff)

lemma om_find_SomeD: "om_find k m = Some v \<Longrightarrow> (k, v) \<in> set m"
  by (simp add: om_find_def map_of_SomeD)

lemma om_wf_distinct: "om_wf m \<Longrightarrow> distinct (map fst m)"
  by (simp add: om_wf_def strict_sorted_iff)

lemma om_find_iff: "om_wf m \<Longrightarrow> om_find k m = Some v \<longleftrightarrow> (k, v) \<in> set m"
  by (simp add: om_find_def om_wf_distinct)

text \<open>A well-formed map is determined by its lookups.\<close>

lemma om_ext:
  assumes "om_wf m" "om_wf n" "\<And>k. om_find k m = om_find k n"
  shows "m = n"
proof -
  have s: "set m = set n" using assms om_find_iff by (metis subsetI subset_antisym surj_pair)
  have "inj_on fst (set m \<union> set n)"
    unfolding s Un_absorb using om_wf_distinct [OF assms(2)] by (simp add: distinct_map)
  then show ?thesis
    using assms(1,2) s by (intro map_sorted_distinct_set_unique [where f = fst])
      (simp_all add: om_wf_def strict_sorted_iff)
qed

lemma om_find_set [simp, om_simps]:
  "om_find k' (om_set k v m) = (if k' = k then Some v else om_find k' m)"
  by (induction m) (auto simp: om_find_Cons)

lemma keys_om_set [simp]: "om_keys (om_set k v m) = insert k (om_keys m)"
  by (induction k v m rule: om_set.induct) (simp_all add: insert_commute)

lemma om_wf_set [simp, intro]: "om_wf m \<Longrightarrow> om_wf (om_set k v m)"
  by (induction k v m rule: om_set.induct) (auto simp: om_wf_Cons not_less le_less intro: less_trans)

lemma keys_om_erase_subset: "om_keys (om_erase k m) \<subseteq> om_keys m"
  by (induction k m rule: om_erase.induct) (simp_all add: subset_insertI subset_insertI2 insert_mono)

lemma om_wf_erase [simp, intro]: "om_wf m \<Longrightarrow> om_wf (om_erase k m)"
  by (induction k m rule: om_erase.induct)
    (simp_all add: om_wf_Cons, blast dest: keys_om_erase_subset [THEN subsetD])

lemma om_find_erase [simp, om_simps]:
  "om_wf m \<Longrightarrow> om_find k' (om_erase k m) = (if k' = k then None else om_find k' m)"
  by (induction k m rule: om_erase.induct) (auto simp: om_find_Cons om_wf_Cons om_find_None)

lemma om_erase_set [simp]: "om_wf m \<Longrightarrow> om_find k m = None \<Longrightarrow> om_erase k (om_set k v m) = m"
  by (rule om_ext) auto

lemma om_set_same: "om_wf m \<Longrightarrow> om_find k m = Some v \<Longrightarrow> om_set k v m = m"
  by (rule om_ext) auto

lemma om_set_set: "om_wf m \<Longrightarrow> om_set k v (om_set k w m) = om_set k v m"
  by (rule om_ext) auto

lemma om_set_commute: "om_wf m \<Longrightarrow> k \<noteq> l \<Longrightarrow> om_set k v (om_set l w m) = om_set l w (om_set k v m)"
  by (rule om_ext) auto

lemma om_erase_absent: "om_wf m \<Longrightarrow> om_find k m = None \<Longrightarrow> om_erase k m = m"
  by (rule om_ext) auto

text \<open>The least key is first.\<close>

lemma om_hd_least: "om_wf m \<Longrightarrow> m \<noteq> [] \<Longrightarrow> k \<in> om_keys m \<Longrightarrow> fst (hd m) \<le> k"
  by (cases m) (auto simp: om_wf_Cons le_less)

section \<open>The database interface\<close>

type_synonym db = "(bytes, bytes) omap"

definition db_get :: "db \<Rightarrow> bytes \<Rightarrow> bytes option" where
  "db_get d key = om_find key d"

definition db_put :: "db \<Rightarrow> bytes \<Rightarrow> bytes \<Rightarrow> bool \<Rightarrow> db result" where
  "db_put d key val nooverwrite =
     (if nooverwrite \<and> db_get d key \<noteq> None
      then Inl (Db_error ''DBlmdb::put failed or nooverwrite key already exists '')
      else Inr (om_set key val d))"

definition db_del :: "db \<Rightarrow> bytes \<Rightarrow> bool \<Rightarrow> db result" where
  "db_del d key mustexist =
     (if mustexist \<and> db_get d key = None
      then Inl (Db_error ''DBlmdb::del key does not exist '')
      else Inr (om_erase key d))"

text \<open>
  The suffixes and values a cursor yields: forward from \<open>begin(prefix, middle)\<close> and
  backward from \<open>rbegin(prefix)\<close>.  It ends at the first key without the prefix.
\<close>

definition has_prefix :: "bytes \<Rightarrow> bytes \<Rightarrow> bool" where
  "has_prefix p k \<longleftrightarrow> take (length p) k = p"

definition strip :: "bytes \<Rightarrow> bytes \<times> bytes \<Rightarrow> bytes \<times> bytes" where
  "strip p kv = (drop (length p) (fst kv), snd kv)"

definition db_begin :: "db \<Rightarrow> bytes \<Rightarrow> bytes \<Rightarrow> (bytes \<times> bytes) list" where
  "db_begin d prefix middle =
     map (strip prefix) (takeWhile (\<lambda>kv. has_prefix prefix (fst kv)) (om_from (prefix @ middle) d))"

definition db_rbegin :: "db \<Rightarrow> bytes \<Rightarrow> (bytes \<times> bytes) list" where
  "db_rbegin d prefix = map (strip prefix) (rev (filter (\<lambda>kv. has_prefix prefix (fst kv)) d))"

text \<open>The contract of the database, as its clients use it.\<close>

locale dictionary =
  fixes get :: "'s \<Rightarrow> 'k \<Rightarrow> 'v option"
    and put :: "'s \<Rightarrow> 'k \<Rightarrow> 'v \<Rightarrow> bool \<Rightarrow> 's result"
    and del :: "'s \<Rightarrow> 'k \<Rightarrow> bool \<Rightarrow> 's result"
    and inv :: "'s \<Rightarrow> bool"
  assumes put_get: "inv s \<Longrightarrow> put s k v no = Inr t \<Longrightarrow> inv t \<and> get t = (get s)(k := Some v)"
    and put_ok: "inv s \<Longrightarrow> (\<exists>t. put s k v no = Inr t) \<longleftrightarrow> \<not> (no \<and> get s k \<noteq> None)"
    and del_get: "inv s \<Longrightarrow> del s k must = Inr t \<Longrightarrow> inv t \<and> get t = (get s)(k := None)"
    and del_ok: "inv s \<Longrightarrow> (\<exists>t. del s k must = Inr t) \<longleftrightarrow> \<not> (must \<and> get s k = None)"
begin

text \<open>A fresh key put in and deleted again leaves the dictionary as it was.\<close>

lemma put_del_undo:
  assumes "inv s" "get s k = None" "put s k v True = Inr t"
  shows "\<exists>u. del t k True = Inr u \<and> inv u \<and> get u = get s"
proof -
  from put_get [OF assms(1,3)] have t: "inv t" "get t = (get s)(k := Some v)" by auto
  then have "\<not> (True \<and> get t k = None)" by simp
  with del_ok [OF t(1)] obtain u where u: "del t k True = Inr u" by blast
  with del_get [OF t(1) u] t assms(2) show ?thesis by (auto simp: fun_eq_iff)
qed

end

lemma db_get_put: "db_put d k v no = Inr d' \<Longrightarrow> db_get d' k' = (if k' = k then Some v else db_get d k')"
  by (auto simp: db_put_def db_get_def split: if_splits)

lemma db_get_del:
  "om_wf d \<Longrightarrow> db_del d k must = Inr d' \<Longrightarrow> db_get d' k' = (if k' = k then None else db_get d k')"
  by (auto simp: db_del_def db_get_def split: if_splits)

lemma om_wf_put: "om_wf d \<Longrightarrow> db_put d k v no = Inr d' \<Longrightarrow> om_wf d'"
  by (auto simp: db_put_def split: if_splits)

lemma om_wf_del: "om_wf d \<Longrightarrow> db_del d k must = Inr d' \<Longrightarrow> om_wf d'"
  by (auto simp: db_del_def split: if_splits)

interpretation db: dictionary db_get db_put db_del om_wf
proof unfold_locales
  fix d d' :: db and k v no must
  assume wf: "om_wf d"
  show "om_wf d' \<and> db_get d' = (db_get d)(k := Some v)" if "db_put d k v no = Inr d'"
    using om_wf_put [OF wf that] db_get_put [OF that] by (simp add: fun_eq_iff)
  show "om_wf d' \<and> db_get d' = (db_get d)(k := None)" if "db_del d k must = Inr d'"
    using om_wf_del [OF wf that] db_get_del [OF wf that] by (simp add: fun_eq_iff)
qed (simp_all add: db_put_def db_del_def)

lemma has_prefix_append [simp]: "has_prefix p (p @ r)"
  by (simp add: has_prefix_def)

lemma has_prefixE: "has_prefix p k \<Longrightarrow> (\<And>r. k = p @ r \<Longrightarrow> P) \<Longrightarrow> P"
  by (metis append_take_drop_id has_prefix_def)

lemma strip_append [simp]: "strip p (p @ r, v) = (r, v)"
  by (simp add: strip_def)

lemma set_db_rbegin: "om_wf d \<Longrightarrow> (s, v) \<in> set (db_rbegin d p) \<longleftrightarrow> db_get d (p @ s) = Some v"
proof -
  assume wf: "om_wf d"
  have "(s, v) \<in> set (db_rbegin d p) \<longleftrightarrow> (p @ s, v) \<in> set d"
    by (force simp: db_rbegin_def elim: has_prefixE)
  with wf show ?thesis by (simp add: db_get_def om_find_iff)
qed

text \<open>A backward cursor starts at the greatest key with the prefix.\<close>

lemma sorted_db_rbegin: "om_wf d \<Longrightarrow> sorted_wrt (\<lambda>x y. fst y < fst x) (db_rbegin d p)"
proof -
  assume "om_wf d"
  then have "sorted_wrt (\<lambda>x y. fst x < fst y) (filter (\<lambda>kv. has_prefix p (fst kv)) d)"
    by (simp add: om_wf_def sorted_wrt_map sorted_wrt_filter)
  then have "sorted_wrt (\<lambda>x y. fst (strip p x) < fst (strip p y)) (filter (\<lambda>kv. has_prefix p (fst kv)) d)"
    by (rule sorted_wrt_mono_rel [rotated]) (auto elim!: has_prefixE simp: strip_def)
  then show ?thesis by (simp add: db_rbegin_def sorted_wrt_map sorted_wrt_rev)
qed

lemma db_rbegin_hd_greatest:
  assumes "om_wf d" "db_rbegin d p = (s, v) # rest" "db_get d (p @ t) = Some w"
  shows "t \<le> s"
proof -
  have "(t, w) \<in> set (db_rbegin d p)" using assms(1,3) by (simp add: set_db_rbegin)
  with assms(2) have "(t, w) = (s, v) \<or> (t, w) \<in> set rest" by auto
  then have "t = s \<or> t < s" using sorted_db_rbegin [OF assms(1), of p] assms(2) by fastforce
  then show ?thesis by (auto simp: order.strict_iff_order)
qed

lemma db_rbegin_Nil: "om_wf d \<Longrightarrow> db_rbegin d p = [] \<longleftrightarrow> (\<forall>s. db_get d (p @ s) = None)"
  using set_db_rbegin [of d _ _ p] by (cases "db_rbegin d p") (force, fastforce)

text \<open>A forward cursor yields the keys from its start on, in order.\<close>

lemma takeWhile_filter: "sorted_wrt (\<lambda>x y. P y \<longrightarrow> P x) xs \<Longrightarrow> takeWhile P xs = filter P xs"
  by (induction xs) (auto simp: filter_empty_conv)

lemma dropWhile_filter: "sorted_wrt (\<lambda>x y. P y \<longrightarrow> P x) xs \<Longrightarrow> dropWhile P xs = filter (\<lambda>x. \<not> P x) xs"
  by (induction xs) (auto simp: filter_id_conv intro: sym)

lemma prefix_convex:
  "(p :: bytes) \<le> x \<Longrightarrow> x \<le> p @ r \<Longrightarrow> has_prefix p x"
proof (induction p arbitrary: x)
  case (Cons a p)
  then show ?case by (cases x) (auto simp: has_prefix_def)
qed (simp add: has_prefix_def)

lemma le_append: "(p :: bytes) \<le> p @ r"
  by (induction p) auto

lemma db_begin_filter:
  assumes "om_wf d"
  shows "db_begin d p m = map (strip p) (filter (\<lambda>kv. has_prefix p (fst kv) \<and> \<not> fst kv < p @ m) d)"
proof -
  have s: "sorted_wrt (\<lambda>x y. fst x < fst y) d" using assms by (simp add: om_wf_def sorted_wrt_map)
  have "om_from (p @ m) d = filter (\<lambda>kv. \<not> fst kv < p @ m) d"
    unfolding om_from_def case_prod_beta
    by (rule dropWhile_filter, rule sorted_wrt_mono_rel [OF _ s]) (blast intro: less_trans)
  moreover have "sorted_wrt (\<lambda>x y. has_prefix p (fst y) \<longrightarrow> has_prefix p (fst x)) (filter (\<lambda>kv. \<not> fst kv < p @ m) d)"
  proof (rule sorted_wrt_mono_rel)
    show "sorted_wrt (\<lambda>x y. fst x < fst y) (filter (\<lambda>kv. \<not> fst kv < p @ m) d)" using s by (rule sorted_wrt_filter)
    fix x y
    assume "x \<in> set (filter (\<lambda>kv. \<not> fst kv < p @ m) d)" "fst x < fst y"
    then have "p \<le> fst x" "fst x \<le> fst y" using le_append [of p m] by (auto simp: not_less)
    then show "has_prefix p (fst y) \<longrightarrow> has_prefix p (fst x)" by (auto elim!: has_prefixE intro: prefix_convex)
  qed
  ultimately show ?thesis by (simp add: db_begin_def takeWhile_filter conj_commute)
qed

lemma set_db_begin:
  assumes "om_wf d"
  shows "(t, v) \<in> set (db_begin d p m) \<longleftrightarrow> db_get d (p @ t) = Some v \<and> m \<le> t"
proof -
  have "(t, v) \<in> set (db_begin d p m) \<longleftrightarrow> (p @ t, v) \<in> set d \<and> \<not> p @ t < p @ m"
    by (force simp: db_begin_filter [OF assms] elim!: has_prefixE)
  with assms show ?thesis by (simp add: db_get_def om_find_iff not_less)
qed

lemma sorted_db_begin: "om_wf d \<Longrightarrow> sorted_wrt (\<lambda>x y. fst x < fst y) (db_begin d p m)"
proof -
  assume wf: "om_wf d"
  then have "sorted_wrt (\<lambda>x y. fst x < fst y) (filter (\<lambda>kv. has_prefix p (fst kv) \<and> \<not> fst kv < p @ m) d)"
    by (simp add: om_wf_def sorted_wrt_map sorted_wrt_filter)
  then have "sorted_wrt (\<lambda>x y. fst (strip p x) < fst (strip p y)) (filter (\<lambda>kv. has_prefix p (fst kv) \<and> \<not> fst kv < p @ m) d)"
    by (rule sorted_wrt_mono_rel [rotated]) (auto elim!: has_prefixE simp: strip_def)
  then show ?thesis by (simp add: db_begin_filter [OF wf] sorted_wrt_map)
qed

lemma db_begin_hd_least:
  assumes "om_wf d" "db_begin d p m = (s, v) # rest" "db_get d (p @ t) = Some w" "m \<le> t"
  shows "s \<le> t"
proof -
  have "(t, w) \<in> set (db_begin d p m)" using assms(1,3,4) by (simp add: set_db_begin)
  with assms(2) have "(t, w) = (s, v) \<or> (t, w) \<in> set rest" by auto
  then have "t = s \<or> s < t" using sorted_db_begin [OF assms(1), of p m] assms(2) by fastforce
  then show ?thesis by auto
qed
end
