(* ===== verification/Int_Util.thy ===== *)
theory Int_Util
  imports Prelude
begin

text \<open>
  The wide arithmetic of \<open>crypto/int-util.h\<close>, \<open>common/Int128.hpp\<close> and the proof-of-work
  test of \<open>Core/Difficulty.cpp\<close>, at the width of the code, with the numbers they compute.
\<close>

section \<open>Sums with a carry\<close>

definition carry :: "bool \<Rightarrow> nat" where
  "carry b = (if b then 1 else 0)"

lemma carry_simps [simp]: "carry True = 1" "carry False = 0"
  by (simp_all add: carry_def)

lemma carry_le: "carry b \<le> 1"
  by (simp add: carry_def)

lemma unat_add_u64: "unat (a + b :: u64) = (unat a + unat b) mod 2 ^ 64"
  by (simp add: unat_word_ariths)

lemma less_sum_u64: "a + b < (a :: u64) \<longleftrightarrow> 2 ^ 64 \<le> unat a + unat b"
proof -
  have "unat a < 2 ^ 64" "unat b < 2 ^ 64" by (rule u64_less)+
  then show ?thesis
    unfolding word_less_nat_alt unat_add_u64
    by (cases "unat a + unat b < 2 ^ 64") (auto simp: mod_if)
qed

lemma add_carry: "unat (a + b :: u64) + carry (a + b < a) * 2 ^ 64 = unat a + unat b"
proof -
  have "unat a < 2 ^ 64" "unat b < 2 ^ 64" by (rule u64_less)+
  then show ?thesis
    unfolding less_sum_u64 unat_add_u64
    by (cases "unat a + unat b < 2 ^ 64") (auto simp: mod_if carry_def)
qed

section \<open>Products and quotients of 128 bits\<close>

definition hi_dword :: "u64 \<Rightarrow> u64" where
  "hi_dword val = drop_bit 32 val"

definition lo_dword :: "u64 \<Rightarrow> u64" where
  "lo_dword val = val AND 0xFFFFFFFF"

lemma unat_hi_dword: "unat (hi_dword v) = unat v div 2 ^ 32"
  by (simp only: hi_dword_def unat_drop_bit)

lemma mask_32: "(0xFFFFFFFF :: u64) = mask 32"
  by (simp add: mask_eq_exp_minus_1)

lemma unat_lo_dword: "unat (lo_dword v) = unat v mod 2 ^ 32"
  by (simp only: lo_dword_def mask_32 unat_and_mask)

text \<open>
  \<open>mul128\<close>: the low word of the product, and the high word.  The compiler selects the
  machine's multiplication where it has one, \<open>mul128_portable\<close> otherwise.
\<close>

definition mul128 :: "u64 \<Rightarrow> u64 \<Rightarrow> u64 \<times> u64" where
  "mul128 multiplier multiplicand =
     (let res = (ucast multiplier :: 128 word) * ucast multiplicand
      in (ucast res, ucast (drop_bit 64 res)))"

definition mul128_portable :: "u64 \<Rightarrow> u64 \<Rightarrow> u64 \<times> u64" where
  "mul128_portable multiplier multiplicand =
     (let a = hi_dword multiplier; b = lo_dword multiplier;
          c = hi_dword multiplicand; d = lo_dword multiplicand;
          ac = a * c; ad = a * d; bc = b * c; bd = b * d;
          adbc = ad + bc;
          adbc_carry = (if adbc < ad then 1 else 0 :: u64);
          product_lo = bd + push_bit 32 adbc;
          product_lo_carry = (if product_lo < bd then 1 else 0 :: u64)
      in (product_lo, ac + drop_bit 32 adbc + push_bit 32 adbc_carry + product_lo_carry))"

lemma nat_less_split: "x < a * b \<Longrightarrow> x div a < (b :: nat)"
  by (metis mult.commute less_mult_imp_div_less)

lemma mul_bound: "x < a \<Longrightarrow> y < b \<Longrightarrow> x * y < a * (b :: nat)"
  by (rule mult_strict_mono') simp_all

lemma mul128_prod:
  "mul128 x y = (lo, hi) \<Longrightarrow> unat lo + 2 ^ 64 * unat hi = unat x * unat y"
proof -
  assume m: "mul128 x y = (lo, hi)"
  have b: "unat x * unat y < 2 ^ 64 * 2 ^ 64" by (intro mul_bound u64_less)
  have w: "unat (ucast v :: 128 word) = unat v" for v :: u64 by (rule unat_ucast_up) simp
  have "unat ((ucast x :: 128 word) * ucast y) = unat x * unat y"
    unfolding unat_word_ariths w using b by simp
  with m have lo: "unat lo = unat x * unat y mod 2 ^ 64" and
    hi: "unat hi = unat x * unat y div 2 ^ 64 mod 2 ^ 64"
    by (auto simp: mul128_def Let_def unat_drop_bit)
  have "unat x * unat y div 2 ^ 64 < 2 ^ 64" using b by (rule nat_less_split)
  with lo hi show ?thesis by simp
qed

lemma mul128_lo: "fst (mul128 x y) = x * y"
proof -
  obtain lo hi where m: "mul128 x y = (lo, hi)" by (cases "mul128 x y")
  have "unat lo = (unat lo + 2 ^ 64 * unat hi) mod 2 ^ 64"
    using u64_less [of lo] by simp
  also have "\<dots> = unat (x * y)"
    by (simp only: mul128_prod [OF m] unat_word_ariths) simp
  finally have "unat lo = unat (x * y)" .
  with m show ?thesis by (simp add: word_unat_eq_iff)
qed

lemma word_product_32:
  assumes "unat (a :: u64) < 2 ^ 32" "unat b < 2 ^ 32"
  shows "unat (a * b) = unat a * unat b"
proof -
  have "unat a * unat b < 2 ^ 32 * 2 ^ 32" using assms by (rule mul_bound)
  then show ?thesis by (simp add: unat_word_ariths)
qed

text \<open>The schoolbook identity of the portable branch, in the naturals.\<close>

lemma schoolbook:
  fixes a b c d p q k t l :: nat
  assumes s: "p * 2 ^ 32 + q + k * 2 ^ 64 = a * d + b * c"
    and t: "t + l * 2 ^ 64 = b * d + q * 2 ^ 32"
  shows "t + 2 ^ 64 * (a * c + p + k * 2 ^ 32 + l) = (a * 2 ^ 32 + b) * (c * 2 ^ 32 + d)"
proof -
  have "t + 2 ^ 64 * (a * c + p + k * 2 ^ 32 + l) =
    b * d + a * c * 2 ^ 64 + (p * 2 ^ 32 + q + k * 2 ^ 64) * 2 ^ 32"
    using t by (simp add: algebra_simps)
  also have "\<dots> = b * d + a * c * 2 ^ 64 + (a * d + b * c) * 2 ^ 32" by (simp only: s)
  also have "\<dots> = (a * 2 ^ 32 + b) * (c * 2 ^ 32 + d)" by (simp add: algebra_simps)
  finally show ?thesis .
qed

lemma mul128_portable_prod:
  assumes "mul128_portable x y = (lo, hi)"
  shows "unat lo + 2 ^ 64 * unat hi = unat x * unat y"
proof -
  define a b c d where abcd: "a = hi_dword x" "b = lo_dword x" "c = hi_dword y" "d = lo_dword y"
  define s where "s = a * d + b * c"
  define l where "l = b * d + push_bit 32 s"
  define h where "h = a * c + drop_bit 32 s + push_bit 32 (if s < a * d then 1 else 0) + (if l < b * d then 1 else 0)"
  have lh: "lo = l" "hi = h"
    using assms unfolding mul128_portable_def Let_def abcd s_def l_def h_def by blast+
  have bounds: "unat a < 2 ^ 32" "unat b < 2 ^ 32" "unat c < 2 ^ 32" "unat d < 2 ^ 32"
    using u64_less [of x] u64_less [of y] by (simp_all add: abcd unat_hi_dword unat_lo_dword)
  note prods = word_product_32 [OF bounds(1) bounds(3)] word_product_32 [OF bounds(1) bounds(4)]
    word_product_32 [OF bounds(2) bounds(3)] word_product_32 [OF bounds(2) bounds(4)]
  have s: "unat s + carry (s < a * d) * 2 ^ 64 = unat a * unat d + unat b * unat c"
    using add_carry [of "a * d" "b * c"] by (simp only: s_def prods)
  have push: "unat (push_bit 32 s) = (unat s mod 2 ^ 32) * 2 ^ 32"
    by (simp add: unat_push_bit mod_mult_mult2 [of _ "2 ^ 32" "2 ^ 32", simplified])
  have l: "unat l + carry (l < b * d) * 2 ^ 64 = unat b * unat d + (unat s mod 2 ^ 32) * 2 ^ 32"
    using add_carry [of "b * d" "push_bit 32 s"] by (simp only: l_def prods push)
  let ?h = "unat a * unat c + unat s div 2 ^ 32 + carry (s < a * d) * 2 ^ 32 + carry (l < b * d)"
  have xy: "unat a * 2 ^ 32 + unat b = unat x" "unat c * 2 ^ 32 + unat d = unat y"
    by (simp_all add: abcd unat_hi_dword unat_lo_dword)
  have total: "unat l + 2 ^ 64 * ?h = unat x * unat y"
    using schoolbook [of "unat s div 2 ^ 32" "unat s mod 2 ^ 32", OF _ l] s by (simp only: xy div_mult_mod_eq)
  moreover have "unat x * unat y < 2 ^ 64 * 2 ^ 64" by (intro mul_bound u64_less)
  ultimately have "2 ^ 64 * ?h < 2 ^ 64 * 2 ^ 64" by linarith
  then have small: "?h < 2 ^ 64" by simp
  have "h = word_of_nat ?h"
  proof -
    have "(word_of_nat (unat (drop_bit 32 s)) :: u64) = drop_bit 32 s" by simp
    then have "(word_of_nat (unat s div 2 ^ 32) :: u64) = drop_bit 32 s" by (simp only: unat_drop_bit)
    then show ?thesis
      by (simp add: h_def carry_def push_bit_of_1 prods(1) [symmetric] del: of_nat_mult)
  qed
  then have "unat h = ?h" using small by (simp only: unat_of_nat) simp
  with total lh show ?thesis by simp
qed

text \<open>\<open>div_with_reminder\<close>: the quotient and the new remainder.\<close>

definition div_with_reminder :: "u64 \<Rightarrow> u32 \<Rightarrow> u32 \<Rightarrow> u64 \<times> u32" where
  "div_with_reminder dividend divisor remainder =
     (let dividend = dividend OR push_bit 32 (ucast remainder)
      in (dividend div ucast divisor, ucast (dividend mod ucast divisor)))"

definition div128_32 :: "u64 \<Rightarrow> u64 \<Rightarrow> u32 \<Rightarrow> u64 \<times> u64 \<times> u32" where
  "div128_32 dividend_hi dividend_lo divisor =
     (let (q3, r3) = div_with_reminder (hi_dword dividend_hi) divisor 0;
          (q2, r2) = div_with_reminder (lo_dword dividend_hi) divisor r3;
          (q1, r1) = div_with_reminder (hi_dword dividend_lo) divisor r2;
          (q0, r0) = div_with_reminder (lo_dword dividend_lo) divisor r1
      in (push_bit 32 q3 OR q2, push_bit 32 q1 OR q0, r0))"

text \<open>Long division of one digit: the remainder stays below the divisor.\<close>

lemma div_with_reminder:
  assumes "unat dividend < 2 ^ 32" "unat remainder < unat divisor"
    and r: "div_with_reminder dividend divisor remainder = (q, r)"
  shows "unat q * unat divisor + unat r = unat remainder * 2 ^ 32 + unat dividend"
    and "unat r < unat divisor" and "unat q < 2 ^ 32"
proof -
  define n where "n = dividend OR push_bit 32 (ucast remainder)"
  have bound: "unat remainder * 2 ^ 32 < 2 ^ 32 * 2 ^ 32" using u32_less [of remainder] by simp
  have n: "unat n = unat dividend + unat remainder * 2 ^ 32"
    unfolding n_def using unat_or_push_bit [of dividend 32 "ucast remainder"] assms(1) bound by simp
  have q: "unat q = unat n div unat divisor" and "unat r = unat n mod unat divisor mod 2 ^ 32"
    using r u32_less [of divisor]
    by (auto simp: div_with_reminder_def Let_def n_def [symmetric] unat_div_distrib unat_mod_distrib)
  moreover have "unat n mod unat divisor < unat divisor" using assms(2) by simp
  ultimately have m: "unat r = unat n mod unat divisor" using u32_less [of divisor] by simp
  show "unat q * unat divisor + unat r = unat remainder * 2 ^ 32 + unat dividend"
    using n q m by simp
  show "unat r < unat divisor" using m assms(2) by simp
  have "unat n < unat divisor * 2 ^ 32"
  proof -
    have "(unat remainder + 1) * 2 ^ 32 \<le> unat divisor * 2 ^ 32" using assms(2) by (intro mult_le_mono1) simp
    with n assms(1) show ?thesis by simp
  qed
  then show "unat q < 2 ^ 32" unfolding q by (rule nat_less_split)
qed

lemma unat_join_dwords:
  assumes "unat q < 2 ^ 32" "unat p < 2 ^ 32"
  shows "unat (push_bit 32 p OR q :: u64) = unat p * 2 ^ 32 + unat q"
proof -
  have "unat p * 2 ^ 32 < 2 ^ 32 * 2 ^ 32" using assms(2) by simp
  then show ?thesis using unat_or_push_bit [of q 32 p] assms(1) by (simp add: or.commute)
qed

lemma split_dwords: "unat (v :: u64) = unat (hi_dword v) * 2 ^ 32 + unat (lo_dword v)"
  by (simp add: unat_hi_dword unat_lo_dword)

lemma dword_less: "unat (hi_dword v) < 2 ^ 32" "unat (lo_dword v) < 2 ^ 32"
  using u64_less [of v] by (simp_all add: unat_hi_dword unat_lo_dword)

text \<open>Long division of four digits.\<close>

lemma long_division:
  fixes B d :: nat
  assumes "q3 * d + r3 = h1" "q2 * d + r2 = r3 * B + h0" "q1 * d + r1 = r2 * B + l1" "q0 * d + r0 = r1 * B + l0"
  shows "((q3 * B + q2) * (B * B) + (q1 * B + q0)) * d + r0 = (h1 * B + h0) * (B * B) + (l1 * B + l0)"
proof -
  have "((q3 * B + q2) * (B * B) + (q1 * B + q0)) * d + r0 =
    q3 * d * (B * B * B) + q2 * d * (B * B) + q1 * d * B + (q0 * d + r0)" by (simp add: algebra_simps)
  also have "\<dots> = q3 * d * (B * B * B) + q2 * d * (B * B) + (q1 * d + r1) * B + l0"
    by (simp only: assms(4)) (simp add: algebra_simps)
  also have "\<dots> = q3 * d * (B * B * B) + (q2 * d + r2) * (B * B) + l1 * B + l0"
    by (simp only: assms(3)) (simp add: algebra_simps)
  also have "\<dots> = (q3 * d + r3) * (B * B * B) + h0 * (B * B) + l1 * B + l0"
    by (simp only: assms(2)) (simp add: algebra_simps)
  also have "\<dots> = (h1 * B + h0) * (B * B) + (l1 * B + l0)"
    by (simp only: assms(1)) (simp add: algebra_simps)
  finally show ?thesis .
qed

lemma div128_32_correct:
  assumes d: "0 < unat divisor" and r: "div128_32 hi lo divisor = (qh, ql, r)"
  shows "(unat qh * 2 ^ 64 + unat ql) * unat divisor + unat r = unat hi * 2 ^ 64 + unat lo"
    and "unat r < unat divisor"
proof -
  obtain q3 r3 where s3: "div_with_reminder (hi_dword hi) divisor 0 = (q3, r3)" by fastforce
  obtain q2 r2 where s2: "div_with_reminder (lo_dword hi) divisor r3 = (q2, r2)" by fastforce
  obtain q1 r1 where s1: "div_with_reminder (hi_dword lo) divisor r2 = (q1, r1)" by fastforce
  obtain q0 r0 where s0: "div_with_reminder (lo_dword lo) divisor r1 = (q0, r0)" by fastforce
  have res: "qh = push_bit 32 q3 OR q2" "ql = push_bit 32 q1 OR q0" "r = r0"
    using r s3 s2 s1 s0 by (simp_all add: div128_32_def Let_def)
  have z: "unat (0 :: u32) < unat divisor" using d by simp
  note d3 = div_with_reminder [OF dword_less(1) z s3]
  note d2 = div_with_reminder [OF dword_less(2) d3(2) s2]
  note d1 = div_with_reminder [OF dword_less(1) d2(2) s1]
  note d0 = div_with_reminder [OF dword_less(2) d1(2) s0]
  have q: "unat qh = unat q3 * 2 ^ 32 + unat q2" "unat ql = unat q1 * 2 ^ 32 + unat q0"
    using res d3(3) d2(3) d1(3) d0(3) by (simp_all only: unat_join_dwords)
  show "(unat qh * 2 ^ 64 + unat ql) * unat divisor + unat r = unat hi * 2 ^ 64 + unat lo"
    using long_division [OF _ d2(1) d1(1) d0(1), of "unat q3" "unat (hi_dword hi)"] d3(1)
    by (simp add: q res(3) split_dwords [of hi] split_dwords [of lo])
  show "unat r < unat divisor" using d0(2) res(3) by simp
qed

section \<open>Numbers of 128 bits\<close>

text \<open>\<open>common::Uint128\<close>.\<close>

record uint128 =
  u_lo :: u64
  u_hi :: u64

definition uint128_nat :: "uint128 \<Rightarrow> nat" where
  "uint128_nat a = unat (u_hi a) * 2 ^ 64 + unat (u_lo a)"

definition uint128_of :: "u64 \<Rightarrow> uint128" where
  "uint128_of d = \<lparr>u_lo = d, u_hi = 0\<rparr>"

definition uint128_add :: "uint128 \<Rightarrow> uint128 \<Rightarrow> uint128" where
  "uint128_add a b =
     (let hi = u_hi a + u_hi b; lo = u_lo a + u_lo b
      in \<lparr>u_lo = lo, u_hi = (if lo < u_lo a then hi + 1 else hi)\<rparr>)"

definition uint128_sub :: "uint128 \<Rightarrow> uint128 \<Rightarrow> uint128" where
  "uint128_sub a b =
     (let hi = u_hi a - u_hi b
      in \<lparr>u_lo = u_lo a - u_lo b, u_hi = (if u_lo a < u_lo b then hi - 1 else hi)\<rparr>)"

definition uint128_less :: "uint128 \<Rightarrow> uint128 \<Rightarrow> bool" where
  "uint128_less a b \<longleftrightarrow> u_hi a < u_hi b \<or> (u_hi a = u_hi b \<and> u_lo a < u_lo b)"

lemma uint128_nat_less: "uint128_nat a < 2 ^ 128"
  using u64_less [of "u_lo a"] u64_less [of "u_hi a"] by (simp add: uint128_nat_def)

lemma add_mult_mod: "l < B \<Longrightarrow> (l + n * B) mod (B * B) = l + n mod B * (B :: nat)"
  by (cases "B = 0") (simp_all add: mod_mult2_eq)

lemma uint128_add_correct: "uint128_nat (uint128_add a b) = (uint128_nat a + uint128_nat b) mod 2 ^ 128"
proof -
  define l where "l = u_lo a + u_lo b"
  define h where "h = u_hi a + u_hi b + (if l < u_lo a then 1 else 0)"
  have r: "u_lo (uint128_add a b) = l" "u_hi (uint128_add a b) = h"
    by (simp_all add: uint128_add_def Let_def l_def h_def)
  have l: "unat l + carry (l < u_lo a) * 2 ^ 64 = unat (u_lo a) + unat (u_lo b)"
    unfolding l_def by (rule add_carry)
  have h: "unat h = (unat (u_hi a) + unat (u_hi b) + carry (l < u_lo a)) mod 2 ^ 64"
    by (simp add: h_def carry_def unat_word_ariths mod_simps)
  have "uint128_nat a + uint128_nat b =
      unat l + (unat (u_hi a) + unat (u_hi b) + carry (l < u_lo a)) * 2 ^ 64"
    using l by (simp add: uint128_nat_def algebra_simps)
  then have "(uint128_nat a + uint128_nat b) mod 2 ^ 128 =
      (unat l + (unat (u_hi a) + unat (u_hi b) + carry (l < u_lo a)) * 2 ^ 64) mod (2 ^ 64 * 2 ^ 64)"
    by simp
  also have "\<dots> = unat l + unat h * 2 ^ 64"
    unfolding h by (rule add_mult_mod) (rule u64_less)
  finally show ?thesis by (simp add: uint128_nat_def r)
qed

lemma uint128_sub_add: "uint128_add (uint128_sub a b) b = a"
proof -
  have "u_lo a - u_lo b + u_lo b < u_lo a - u_lo b \<longleftrightarrow> u_lo a < u_lo b"
    using u64_less [of "u_lo a"] u64_less [of "u_lo b"]
    by (auto simp: word_less_nat_alt unat_sub_if')
  then show ?thesis by (cases a) (simp add: uint128_add_def uint128_sub_def Let_def)
qed

lemma uint128_less_iff: "uint128_less a b \<longleftrightarrow> uint128_nat a < uint128_nat b"
proof -
  have b: "unat (u_lo a) < 2 ^ 64" "unat (u_lo b) < 2 ^ 64" by (rule u64_less)+
  consider "unat (u_hi a) + 1 \<le> unat (u_hi b)" | "u_hi a = u_hi b" | "unat (u_hi b) + 1 \<le> unat (u_hi a)"
    by (metis Suc_eq_plus1 Suc_leI linorder_neqE_nat word_unat_eq_iff)
  then show ?thesis
  proof cases
    case 1
    then show ?thesis using b by (auto simp: uint128_less_def uint128_nat_def word_less_nat_alt)
  next
    case 2
    then show ?thesis using b by (simp add: uint128_less_def uint128_nat_def word_less_nat_alt)
  next
    case 3
    then show ?thesis using b by (auto simp: uint128_less_def uint128_nat_def word_less_nat_alt)
  qed
qed

section \<open>The proof-of-work test\<close>

text \<open>\<open>swap64le(((const uint64_t *)&hash)[i])\<close>: the words of a hash, least significant byte first.\<close>

definition le_nat :: "bytes \<Rightarrow> nat" where
  "le_nat bs = be_nat (rev bs)"

definition hash_word :: "nat \<Rightarrow> bytes \<Rightarrow> u64" where
  "hash_word i h = word_of_nat (le_nat (take 8 (drop (8 * i) h)))"

definition cadd :: "u64 \<Rightarrow> u64 \<Rightarrow> bool" where
  "cadd a b \<longleftrightarrow> a + b < a"

definition cadc :: "u64 \<Rightarrow> u64 \<Rightarrow> bool \<Rightarrow> bool" where
  "cadc a b c \<longleftrightarrow> a + b < a \<or> (c \<and> a + b = - 1)"

definition check_hash :: "bytes \<Rightarrow> u64 \<Rightarrow> bool" where
  "check_hash hash difficulty =
     (let (top, high) = mul128 (hash_word 3 hash) difficulty in
      if high \<noteq> 0 then False
      else
        let (low, cur) = mul128 (hash_word 0 hash) difficulty;
            (low, high) = mul128 (hash_word 1 hash) difficulty;
            carry = cadd cur low;
            cur = high;
            (low, high) = mul128 (hash_word 2 hash) difficulty;
            carry = cadc cur low carry;
            carry = cadc high top carry
        in \<not> carry)"

lemma le_nat_append: "le_nat (xs @ ys) = le_nat xs + 256 ^ length xs * le_nat ys"
  by (simp add: le_nat_def be_nat_append)

lemma le_nat_less: "le_nat bs < 256 ^ length bs"
  using be_nat_less [of "rev bs"] by (simp add: le_nat_def)

lemma unat_hash_word: "length h = 32 \<Longrightarrow> i < 4 \<Longrightarrow> unat (hash_word i h) = le_nat (take 8 (drop (8 * i) h))"
  using le_nat_less [of "take 8 (drop (8 * i) h)"] by (simp add: hash_word_def unat_of_nat)

lemma hash_words:
  assumes "length h = 32"
  shows "le_nat h = unat (hash_word 0 h) + 2 ^ 64 * (unat (hash_word 1 h) + 2 ^ 64 *
    (unat (hash_word 2 h) + 2 ^ 64 * unat (hash_word 3 h)))"
proof -
  have "h = take 8 h @ take 8 (drop 8 h) @ take 8 (drop 16 h) @ take 8 (drop 24 h)"
    by (rule nth_equalityI) (auto simp: assms nth_append)
  then have "le_nat h = le_nat (take 8 h @ take 8 (drop 8 h) @ take 8 (drop 16 h) @ take 8 (drop 24 h))"
    by (rule arg_cong)
  also have "\<dots> = le_nat (take 8 h) + 256 ^ 8 * (le_nat (take 8 (drop 8 h)) + 256 ^ 8 *
      (le_nat (take 8 (drop 16 h)) + 256 ^ 8 * le_nat (take 8 (drop 24 h))))"
    by (simp only: le_nat_append) (simp add: assms)
  finally show ?thesis using assms by (simp add: unat_hash_word)
qed

lemma cadd_iff: "cadd a b \<longleftrightarrow> 2 ^ 64 \<le> unat a + unat b"
  by (simp only: cadd_def less_sum_u64)

lemma cadc_iff: "cadc a b c \<longleftrightarrow> 2 ^ 64 \<le> unat a + unat b + carry c"
proof -
  have m: "a + b = - 1 \<longleftrightarrow> (unat a + unat b) mod 2 ^ 64 = 2 ^ 64 - 1"
    by (simp add: word_unat_eq_iff unat_word_ariths unsigned_minus_1_eq_mask mask_eq_exp_minus_1)
  have "unat a < 2 ^ 64" "unat b < 2 ^ 64" by (rule u64_less)+
  then show ?thesis
    unfolding cadc_def less_sum_u64 m
    by (cases "unat a + unat b < 2 ^ 64") (auto simp: mod_if carry_def)
qed

lemma digit_less: "x < B \<Longrightarrow> y < C \<Longrightarrow> x + B * y < B * (C :: nat)"
proof -
  assume "x < B" "y < C"
  then have "B * (y + 1) \<le> B * C" by (intro mult_le_mono2) simp
  with \<open>x < B\<close> show ?thesis by simp
qed

lemma digit_le: "x < D \<Longrightarrow> D * B \<le> x + D * y \<longleftrightarrow> B \<le> (y :: nat)"
proof
  assume x: "x < D" and "D * B \<le> x + D * y"
  then have "D * B < D * (y + 1)" by simp
  then have "B < y + 1" by (simp only: mult_less_cancel1)
  then show "B \<le> y" by simp
next
  assume "B \<le> y"
  then have "D * B \<le> D * y" by (rule mult_le_mono2)
  then show "D * B \<le> x + D * y" by linarith
qed

text \<open>The carries of a sum of four digits.\<close>

lemma digits_carry:
  fixes B :: nat
  assumes "l0 < B" "l1 < B" "l2 < B" "h0 < B" "h1 < B" "h2 < B" "l3 < B"
    and "c1 = carry (B \<le> h0 + l1)"
    and "c2 = carry (B \<le> h1 + l2 + c1)"
  shows "B \<le> h2 + l3 + c2 \<longleftrightarrow>
    B ^ 4 \<le> l0 + B * h0 + B * (l1 + B * h1) + B ^ 2 * (l2 + B * h2) + B ^ 3 * l3"
proof -
  define s1 where "s1 = h0 + l1 - c1 * B"
  define s2 where "s2 = h1 + l2 + c1 - c2 * B"
  have c1: "h0 + l1 = s1 + c1 * B" "s1 < B"
    using assms by (auto simp: s1_def carry_def split: if_splits)
  have "h1 + l2 + c1 < 2 * B" using assms by (auto simp: carry_def split: if_splits)
  then have c2: "h1 + l2 + c1 = s2 + c2 * B" "s2 < B"
    using assms by (auto simp: s2_def carry_def split: if_splits)
  have "l0 + B * h0 + B * (l1 + B * h1) + B ^ 2 * (l2 + B * h2) + B ^ 3 * l3 =
      l0 + B * (h0 + l1) + B ^ 2 * (h1 + l2) + B ^ 3 * (h2 + l3)"
    by (simp add: algebra_simps power2_eq_square power3_eq_cube)
  also have "\<dots> = l0 + B * s1 + B ^ 2 * (h1 + l2 + c1) + B ^ 3 * (h2 + l3)"
    by (simp add: c1(1) algebra_simps power2_eq_square)
  also have "\<dots> = l0 + B * s1 + B ^ 2 * (s2 + c2 * B) + B ^ 3 * (h2 + l3)" by (simp only: c2(1))
  also have "\<dots> = l0 + B * s1 + B ^ 2 * s2 + B ^ 3 * (h2 + l3 + c2)"
    by (simp add: algebra_simps power2_eq_square power3_eq_cube)
  finally have e: "l0 + B * h0 + B * (l1 + B * h1) + B ^ 2 * (l2 + B * h2) + B ^ 3 * l3 =
    l0 + B * s1 + B ^ 2 * s2 + B ^ 3 * (h2 + l3 + c2)" .
  have "l0 + B * s1 + B ^ 2 * s2 < B ^ 3"
  proof -
    have "l0 + B * (s1 + B * s2) < B * (B * B)"
    proof -
      have "s1 + B * s2 < B * B" using c1(2) c2(2) by (rule digit_less)
      with assms(1) show ?thesis by (rule digit_less)
    qed
    then show ?thesis by (simp add: algebra_simps power2_eq_square power3_eq_cube)
  qed
  then have "B ^ 3 * B \<le> l0 + B * s1 + B ^ 2 * s2 + B ^ 3 * (h2 + l3 + c2) \<longleftrightarrow> B \<le> h2 + l3 + c2"
    by (rule digit_le)
  moreover have "B ^ 4 = B ^ 3 * B" by (simp add: power4_eq_xxxx power3_eq_cube)
  ultimately show ?thesis by (simp only: e)
qed

lemma check_hash_iff:
  assumes "length h = 32"
  shows "check_hash h d \<longleftrightarrow> le_nat h * unat d < 2 ^ 256"
proof -
  obtain l0 h0 l1 h1 l2 h2 l3 h3 where m: "mul128 (hash_word 0 h) d = (l0, h0)"
    "mul128 (hash_word 1 h) d = (l1, h1)" "mul128 (hash_word 2 h) d = (l2, h2)"
    "mul128 (hash_word 3 h) d = (l3, h3)" by (metis surj_pair)
  let ?B = "2 ^ 64 :: nat"
  have e: "le_nat h * unat d = unat l0 + ?B * unat h0 + ?B * (unat l1 + ?B * unat h1)
      + ?B ^ 2 * (unat l2 + ?B * unat h2) + ?B ^ 3 * (unat l3 + ?B * unat h3)"
    unfolding hash_words [OF assms] mul128_prod [OF m(1)] mul128_prod [OF m(2)] mul128_prod [OF m(3)]
      mul128_prod [OF m(4)] by (simp add: algebra_simps)
  show ?thesis
  proof (cases "h3 = 0")
    case True
    define c1 where "c1 = carry (?B \<le> unat h0 + unat l1)"
    define c2 where "c2 = carry (?B \<le> unat h1 + unat l2 + c1)"
    have "check_hash h d \<longleftrightarrow> \<not> cadc h2 l3 (cadc h1 l2 (cadd h0 l1))"
      using True by (simp add: check_hash_def m [simplified])
    also have "\<dots> \<longleftrightarrow> \<not> ?B \<le> unat h2 + unat l3 + c2"
      unfolding cadc_iff cadd_iff c1_def [symmetric] c2_def [symmetric] by (rule refl)
    also have "\<dots> \<longleftrightarrow> \<not> ?B ^ 4 \<le> le_nat h * unat d"
      unfolding e using digits_carry [OF u64_less u64_less u64_less u64_less u64_less u64_less u64_less c1_def c2_def]
      by (simp add: True)
    also have "\<dots> \<longleftrightarrow> le_nat h * unat d < 2 ^ 256" by (simp add: not_le flip: power_mult)
    finally show ?thesis .
  next
    case False
    then have "unat h3 \<noteq> 0" by (simp add: unat_eq_0)
    then have "?B ^ 4 \<le> ?B ^ 3 * (unat l3 + ?B * unat h3)" by (cases "unat h3") (simp_all)
    also have "\<dots> \<le> le_nat h * unat d" unfolding e by simp
    finally have "2 ^ 256 \<le> le_nat h * unat d" by (simp flip: power_mult)
    with False show ?thesis by (simp add: check_hash_def m [simplified])
  qed
qed

section \<open>Medians\<close>

text \<open>\<open>median_value\<close> of \<open>common/Math.hpp\<close> on unsigned numbers of 32 bits.\<close>

definition median_value :: "u32 list \<Rightarrow> u32" where
  "median_value v =
     (if v = [] then 0
      else let n = length v div 2; s = sort v
        in if length v mod 2 \<noteq> 0 then s ! n else (s ! (n - 1) + s ! n) div 2)"

text \<open>The median lies between two middle elements, as long as their sum stays below \<open>2 ^ 32\<close>.\<close>

lemma median_value_between:
  assumes "v \<noteq> []" "\<forall>x \<in> set v. unat x < 2 ^ 31"
  shows "sort v ! ((length v - 1) div 2) \<le> median_value v \<and> median_value v \<le> sort v ! (length v div 2)"
proof (cases "even (length v)")
  case False
  then show ?thesis using assms(1) by (auto simp: median_value_def Let_def elim!: oddE)
next
  case True
  define n where "n = length v div 2"
  have n: "length v = 2 * n" "0 < n" "(length v - 1) div 2 = n - 1"
    using True assms(1) by (cases v; auto simp: n_def elim!: evenE)+
  define a b where "a = sort v ! (n - 1)" and "b = sort v ! n"
  have "a \<in> set v" "b \<in> set v" using n nth_mem [of _ "sort v"] by (simp_all add: a_def b_def)
  with assms(2) have s: "unat a < 2 ^ 31" "unat b < 2 ^ 31" by blast+
  have ab: "unat a \<le> unat b"
    using n sorted_sort [of v] by (simp add: a_def b_def word_le_nat_alt [symmetric] sorted_nth_mono)
  have "unat (a + b) = unat a + unat b" using s by (simp add: unat_word_ariths)
  then have "unat ((a + b) div 2) = (unat a + unat b) div 2" by (simp add: unat_div_distrib)
  with ab have "a \<le> (a + b) div 2" "(a + b) div 2 \<le> b" by (simp_all add: word_le_nat_alt)
  moreover have "median_value v = (a + b) div 2"
    using True assms(1) by (simp add: median_value_def Let_def a_def b_def n_def)
  ultimately show ?thesis by (simp only: n(3) a_def b_def n_def)
qed

text \<open>
  C15: the proof-of-work comparison accepts a hash exactly when the hash, as a little-endian
  256-bit number, times the difficulty is less than \<open>2 ^ 256\<close>.
\<close>

theorem check_hash_threshold:
  assumes "length h = 32"
  shows "check_hash h d \<longleftrightarrow> le_nat h * unat d < 2 ^ 256"
  using assms by (rule check_hash_iff)

lemma le_nat_zeros: "le_nat (replicate n 0) = 0"
  by (induction n) (simp_all add: le_nat_def)

theorem check_hash_threshold_witness:
  "check_hash (replicate 31 0 @ [1]) 255 \<and> \<not> check_hash (replicate 31 0 @ [1]) 256"
proof -
  have h: "le_nat (replicate 31 0 @ [1]) = 256 ^ 31" "length (replicate 31 0 @ [1 :: u8]) = 32"
    by (simp_all add: le_nat_append le_nat_zeros) (simp add: le_nat_def be_nat_def)
  show ?thesis
    using check_hash_threshold [OF h(2), of 255] check_hash_threshold [OF h(2), of 256] unfolding h(1) by simp
qed

end
