(* ===== verification/String_Tools.thy ===== *)
theory String_Tools
  imports Prelude
begin

text \<open>
  \<open>common/StringTools\<close>: hexadecimal text and splitting at a delimiter.  Text is a
  \<open>string\<close>, binary data is \<open>bytes\<close>.
\<close>

section \<open>Hexadecimal text\<close>

definition character_values :: "u8 list" where
  "character_values = replicate 48 0xff @ [0, 1, 2, 3, 4, 5, 6, 7, 8, 9] @ replicate 7 0xff @
     [10, 11, 12, 13, 14, 15] @ replicate 26 0xff @ [10, 11, 12, 13, 14, 15] @ replicate 153 0xff"

definition hex_digits :: string where
  "hex_digits = ''0123456789abcdef''"

definition character_value :: "char \<Rightarrow> u8" where
  "character_value c = character_values ! of_char c"

text \<open>\<open>from_hex(char)\<close>, which raises, and the form that returns a flag.\<close>

definition from_hex_char :: "char \<Rightarrow> u8 result" where
  "from_hex_char c = (let v = character_value c in
     if v > 0x0f then Inl (Runtime_error ''from_hex: invalid character'') else Inr v)"

definition from_hex_char_opt :: "char \<Rightarrow> u8 option" where
  "from_hex_char_opt c = (if character_value c > 0x0f then None else Some (character_value c))"

text \<open>\<open>BinaryArray from_hex(text)\<close>.\<close>

fun from_hex_pairs :: "string \<Rightarrow> bytes result" where
  "from_hex_pairs (a # b # text) =
     res_bind (from_hex_char a) (\<lambda>hi. res_bind (from_hex_char b) (\<lambda>lo.
     res_bind (from_hex_pairs text) (\<lambda>rest. Inr ((push_bit 4 hi OR lo) # rest))))"
| "from_hex_pairs _ = Inr []"

definition from_hex :: "string \<Rightarrow> bytes result" where
  "from_hex text =
     (if odd (length text) then Inl (Runtime_error ''from_hex: invalid string size'')
      else from_hex_pairs text)"

text \<open>\<open>bool from_hex(text, data)\<close> appends to \<open>data\<close>, also when it then fails.\<close>

fun from_hex_append_pairs :: "string \<Rightarrow> bytes \<Rightarrow> bool \<times> bytes" where
  "from_hex_append_pairs (a # b # text) data =
     (case from_hex_char_opt a of None \<Rightarrow> (False, data)
      | Some v1 \<Rightarrow> (case from_hex_char_opt b of None \<Rightarrow> (False, data)
         | Some v2 \<Rightarrow> from_hex_append_pairs text (data @ [push_bit 4 v1 OR v2])))"
| "from_hex_append_pairs _ data = (True, data)"

definition from_hex_append :: "string \<Rightarrow> bytes \<Rightarrow> bool \<times> bytes" where
  "from_hex_append text data =
     (if odd (length text) then (False, data) else from_hex_append_pairs text data)"

text \<open>\<open>pod_from_hex\<close> for a value of \<open>n\<close> bytes: all of it or nothing.\<close>

definition pod_from_hex :: "nat \<Rightarrow> string \<Rightarrow> bytes option" where
  "pod_from_hex n text =
     (if odd (length text) \<or> length text div 2 > n then None
      else case from_hex_append_pairs text [] of
        (ok, data) \<Rightarrow> if ok \<and> length text div 2 = n then Some data else None)"

definition to_hex :: "bytes \<Rightarrow> string" where
  "to_hex data = concat (map (\<lambda>b. [hex_digits ! unat (drop_bit 4 b), hex_digits ! unat (b AND 15)]) data)"

lemma to_hex_simps [simp]:
  "to_hex [] = []"
  "to_hex (b # data) = hex_digits ! unat (drop_bit 4 b) # hex_digits ! unat (b AND 15) # to_hex data"
  by (simp_all add: to_hex_def)

lemma length_to_hex [simp]: "length (to_hex data) = 2 * length data"
  by (induction data) simp_all

lemma hex_digit_values: "list_all (\<lambda>d. from_hex_char (hex_digits ! d) = Inr (word_of_nat d)) [0..<16]"
  by code_simp

lemma from_hex_digit: "d < 16 \<Longrightarrow> from_hex_char (hex_digits ! d) = Inr (word_of_nat d)"
  using hex_digit_values by (simp add: list_all_iff)

lemma mask_15: "(15 :: u8) = mask 4"
  by (simp add: mask_eq_exp_minus_1)

lemma nibbles: "push_bit 4 (drop_bit 4 (b :: u8)) OR (b AND 15) = b"
  unfolding mask_15 by (rule bit_word_eqI) (auto simp: bit_simps)

lemma unat_nibbles: "unat (drop_bit 4 (b :: u8)) < 16" "unat (b AND 15) < 16"
  using unat_drop_bit [of 4 b] unat_and_mask [of b 4] byte_less [of b]
  by (simp_all add: mask_eq_exp_minus_1 del: byte_less)

lemma from_hex_pairs_to_hex: "from_hex_pairs (to_hex data) = Inr data"
  by (induction data) (simp_all add: from_hex_digit unat_nibbles nibbles)

lemma from_hex_to_hex: "from_hex (to_hex data) = Inr data"
  by (simp add: from_hex_def from_hex_pairs_to_hex)

lemma from_hex_char_opt_eq: "from_hex_char_opt c = (case from_hex_char c of Inl _ \<Rightarrow> None | Inr v \<Rightarrow> Some v)"
  by (simp add: from_hex_char_opt_def from_hex_char_def Let_def)

lemma from_hex_append_pairs_ok:
  "from_hex_pairs str = Inr d \<Longrightarrow> from_hex_append_pairs str data = (True, data @ d)"
  by (induction str arbitrary: data d rule: from_hex_pairs.induct)
    (auto simp: res_bind_eq_Inr from_hex_char_opt_eq)

lemma from_hex_append_pairs_fails:
  "from_hex_pairs str = Inl e \<Longrightarrow> \<not> fst (from_hex_append_pairs str data)"
  by (induction str arbitrary: data rule: from_hex_pairs.induct)
    (auto simp: res_bind_def from_hex_char_opt_eq split: sum.splits)

lemma from_hex_pairs_length: "from_hex_pairs str = Inr d \<Longrightarrow> length d = length str div 2"
  by (induction str arbitrary: d rule: from_hex_pairs.induct) (auto simp: res_bind_eq_Inr)

text \<open>\<open>pod_from_hex\<close> accepts what \<open>from_hex\<close> reads as a value of the right size.\<close>

lemma pod_from_hex_iff: "pod_from_hex n str = Some d \<longleftrightarrow> from_hex str = Inr d \<and> length d = n"
proof (cases "from_hex_pairs str")
  case (Inl e)
  then show ?thesis
    using from_hex_append_pairs_fails [OF Inl, of "[]"]
    by (auto simp: pod_from_hex_def from_hex_def split: prod.splits)
next
  case (Inr x)
  then show ?thesis
    using from_hex_append_pairs_ok [OF Inr, of "[]"] from_hex_pairs_length [OF Inr]
    by (auto simp: pod_from_hex_def from_hex_def)
qed

lemma pod_from_hex_to_hex: "pod_from_hex (length d) (to_hex d) = Some d"
  by (simp add: pod_from_hex_iff from_hex_to_hex)

text \<open>Upper case digits read like lower case ones; that is the only freedom of the reader.\<close>

definition lower :: "char \<Rightarrow> char" where
  "lower c = (let n = of_char c :: nat in if 65 \<le> n \<and> n \<le> 70 then char_of (n + 32) else c)"

lemma hex_table:
  "list_all (\<lambda>(n, v). v > 0x0f \<or> unat v < 16 \<and>
     of_char (hex_digits ! unat v) = (if 65 \<le> n \<and> n \<le> 70 then n + 32 else n)) (enumerate 0 character_values)"
  by code_simp

lemma length_character_values: "length character_values = 256"
  by (simp add: character_values_def)

lemma from_hex_char_canonical:
  assumes "from_hex_char c = Inr v"
  shows "unat v < 16 \<and> hex_digits ! unat v = lower c"
proof -
  have c: "of_char c < (256 :: nat)" by (rule nat_of_char_less_256)
  have v: "v = character_values ! of_char c" "\<not> character_values ! of_char c > 0x0f"
    using assms by (auto simp: from_hex_char_def Let_def character_value_def split: if_splits)
  have "(of_char c, character_values ! of_char c) \<in> set (enumerate 0 character_values)"
    using c by (simp add: in_set_enumerate_eq length_character_values)
  from bspec [OF hex_table [unfolded list_all_iff] this]
  have "character_values ! of_char c > 0x0f \<or> unat (character_values ! of_char c) < 16 \<and>
      of_char (hex_digits ! unat (character_values ! of_char c)) =
        (let n = of_char c :: nat in if 65 \<le> n \<and> n \<le> 70 then n + 32 else n)"
    by (simp only: prod.case Let_def)
  with v have "unat v < 16" and d: "of_char (hex_digits ! unat v) =
      (let n = of_char c :: nat in if 65 \<le> n \<and> n \<le> 70 then n + 32 else n)" by auto
  moreover have "hex_digits ! unat v = lower c"
    using arg_cong [OF d, of char_of] by (simp add: lower_def Let_def)
  ultimately show ?thesis by simp
qed

lemma join_nibbles:
  assumes "unat (hi :: u8) < 16" "unat lo < 16"
  shows "drop_bit 4 (push_bit 4 hi OR lo) = hi" "(push_bit 4 hi OR lo) AND 15 = lo"
proof -
  have u: "unat (push_bit 4 hi OR lo) = unat hi * 16 + unat lo"
    using unat_or_push_bit [of lo 4 hi] assms by (simp add: or.commute)
  show "drop_bit 4 (push_bit 4 hi OR lo) = hi"
    unfolding word_unat_eq_iff unat_drop_bit u using assms by simp
  show "(push_bit 4 hi OR lo) AND 15 = lo"
    unfolding mask_15 word_unat_eq_iff unat_and_mask u using assms(2) by simp
qed

lemma from_hex_pairs_canonical: "from_hex_pairs str = Inr d \<Longrightarrow> even (length str) \<Longrightarrow> to_hex d = map lower str"
proof (induction str arbitrary: d rule: from_hex_pairs.induct)
  case (1 a b str)
  then obtain hi lo rest where h: "from_hex_char a = Inr hi" "from_hex_char b = Inr lo"
    "from_hex_pairs str = Inr rest" "d = (push_bit 4 hi OR lo) # rest"
    by (auto simp: res_bind_eq_Inr)
  then show ?case
    using "1.IH" [OF h(3)] "1.prems" from_hex_char_canonical [OF h(1)] from_hex_char_canonical [OF h(2)]
    by (simp add: join_nibbles del: drop_bit_or)
qed simp_all

section \<open>Splitting at a delimiter\<close>

text \<open>\<open>extract(text, delimiter)\<close>: the part before the delimiter, and the text that is left.\<close>

definition extract_part :: "string \<Rightarrow> char \<Rightarrow> string \<times> string" where
  "extract_part str delimiter =
     (if delimiter \<in> set str
      then (takeWhile (\<lambda>c. c \<noteq> delimiter) str, tl (dropWhile (\<lambda>c. c \<noteq> delimiter) str))
      else (str, []))"

text \<open>The form with an offset, which moves the offset before it takes the part.\<close>

definition extract_offset :: "string \<Rightarrow> char \<Rightarrow> nat \<Rightarrow> (string \<times> nat) result" where
  "extract_offset str delimiter off =
     (if delimiter \<in> set (drop off str)
      then let pos = off + length (takeWhile (\<lambda>c. c \<noteq> delimiter) (drop off str)) in
        (if pos + 1 > length str then Inl (Out_of_range ''substr'')
         else Inr (take pos (drop (pos + 1) str), pos + 1))
      else Inr ([], length str))"

lemma extract_join:
  "extract_part str d = (part, rest) \<Longrightarrow>
     d \<notin> set part \<and> str = (if d \<in> set str then part @ d # rest else part)"
  by (auto simp: extract_part_def split: if_splits dest: set_takeWhileD)
    (metis (mono_tags, lifting) dropWhile_eq_Nil_conv hd_dropWhile list.collapse takeWhile_dropWhile_id)

text \<open>
  Fixed-size values print and parse back, and a text that parses as one is its print up to
  the case of the letters.
\<close>

lemma pod_from_hex_canonical:
  "pod_from_hex (length d) (to_hex d) = Some d \<and>
     (pod_from_hex n str = Some e \<longrightarrow> length e = n \<and> map lower str = to_hex e)"
proof (intro conjI impI)
  show "pod_from_hex (length d) (to_hex d) = Some d" by (rule pod_from_hex_to_hex)
  assume "pod_from_hex n str = Some e"
  then have e: "from_hex str = Inr e" "length e = n" by (simp_all add: pod_from_hex_iff)
  then have "even (length str)" "from_hex_pairs str = Inr e" by (auto simp: from_hex_def split: if_splits)
  with from_hex_pairs_canonical e show "length e = n" "map lower str = to_hex e" by auto
qed

theorem pod_from_hex_canonical_witness:
  "pod_from_hex 2 ''aB0f'' = Some [171, 15] \<and> map lower ''aB0f'' = to_hex [171, 15]"
proof -
  have "pod_from_hex 2 ''aB0f'' = Some [171, 15]" by code_simp
  with pod_from_hex_canonical [of "[]" 2 "''aB0f''" "[171, 15]"] show ?thesis by simp
qed

end
