(* ===== verification/Codec.thy ===== *)
theory Codec
  imports Prelude
begin

text \<open>
  The contracts of the byte encoders: an encoder with a decoder that reads its output back and
  leaves the rest of the input (\<open>codec\<close>), one that accepts nothing else
  (\<open>canonical_codec\<close>), and one whose output sorts like the values (\<open>ordered_codec\<close>),
  which database keys need.  The varints, the binary serialization and the database keys are
  interpretations.
\<close>

named_theorems codec_iff "decoders that accept exactly what the encoder writes"
named_theorems codec_enc "decoders that read back what the encoder writes"

section \<open>Encoders with a decoder\<close>

locale codec =
  fixes enc :: "'a \<Rightarrow> bytes"
    and dec :: "bytes \<Rightarrow> ('a \<times> bytes) result"
    and valid :: "'a \<Rightarrow> bool"
  assumes dec_enc: "valid x \<Longrightarrow> dec (enc x @ r) = Inr (x, r)"
begin

lemma dec_enc_Nil: "valid x \<Longrightarrow> dec (enc x) = Inr (x, [])"
  using dec_enc [of x "[]"] by simp

lemma enc_prefix_free:
  assumes "valid x" "valid y" "enc x @ r = enc y @ s"
  shows "x = y \<and> r = s"
proof -
  have "(Inr (x, r) :: ('a \<times> bytes) result) = dec (enc x @ r)" using assms(1) by (simp add: dec_enc)
  also have "\<dots> = dec (enc y @ s)" by (simp only: assms(3))
  also have "\<dots> = Inr (y, s)" using assms(2) by (rule dec_enc)
  finally show ?thesis by simp
qed

lemma enc_inj: "valid x \<Longrightarrow> valid y \<Longrightarrow> enc x = enc y \<longleftrightarrow> x = y"
  by (metis enc_prefix_free)

end

text \<open>
  \<open>seria_container\<close> of \<open>seria/ISeria.hpp\<close>: the items of a vector one after the
  other, reading as many as the size says.
\<close>

fun dec_items :: "(bytes \<Rightarrow> ('a \<times> bytes) result) \<Rightarrow> nat \<Rightarrow> bytes \<Rightarrow> ('a list \<times> bytes) result" where
  "dec_items dec 0 s = Inr ([], s)"
| "dec_items dec (Suc n) s =
     res_bind (dec s) (\<lambda>(x, s1). res_bind (dec_items dec n s1) (\<lambda>(xs, s2). Inr (x # xs, s2)))"

definition enc_items :: "('a \<Rightarrow> bytes) \<Rightarrow> 'a list \<Rightarrow> bytes" where
  "enc_items enc xs = concat (map enc xs)"

lemma enc_items_simps [simp]:
  "enc_items enc [] = []"
  "enc_items enc (x # xs) = enc x @ enc_items enc xs"
  by (simp_all add: enc_items_def)

lemma dec_items_length: "dec_items dec n s = Inr (xs, r) \<Longrightarrow> length xs = n"
  by (induction n arbitrary: s xs) (auto simp: res_bind_eq_Inr)

context codec
begin

lemma dec_enc_items:
  "list_all valid xs \<Longrightarrow> dec_items dec (length xs) (enc_items enc xs @ r) = Inr (xs, r)"
  by (induction xs) (simp_all add: dec_enc)

end

section \<open>Canonical encoders\<close>

locale canonical_codec = codec +
  assumes dec_canonical: "dec s = Inr (x, r) \<Longrightarrow> valid x \<and> s = enc x @ r"
begin

lemma dec_iff: "dec s = Inr (x, r) \<longleftrightarrow> valid x \<and> s = enc x @ r"
  using dec_canonical dec_enc by blast

lemma dec_items_canonical:
  "dec_items dec n s = Inr (xs, r) \<Longrightarrow> list_all valid xs \<and> length xs = n \<and> s = enc_items enc xs @ r"
proof (induction n arbitrary: s xs)
  case 0
  then show ?case by simp
next
  case (Suc n)
  then show ?case by (auto simp: res_bind_eq_Inr dec_iff)
qed

end

section \<open>Order-preserving encoders\<close>

lemma less_append_cong:
  assumes "a < (b :: 'a::linorder list)" "\<And>r. b \<noteq> a @ r"
  shows "a @ x < b @ y"
  using assms
proof (induction a arbitrary: b)
  case Nil
  then show ?case by (metis append_Nil)
next
  case (Cons u a)
  show ?case
  proof (cases b)
    case Nil
    with Cons.prems show ?thesis by simp
  next
    case (Cons v b')
    with Cons.prems have "u < v \<or> (u = v \<and> a < b' \<and> (\<forall>r. b' \<noteq> a @ r))" by auto
    with Cons.IH [of b'] Cons show ?thesis by auto
  qed
qed

locale ordered_codec = codec enc dec valid
  for enc :: "'a::linorder \<Rightarrow> bytes" and dec and valid +
  assumes enc_mono: "valid x \<Longrightarrow> valid y \<Longrightarrow> x < y \<Longrightarrow> enc x < enc y"
begin

lemma enc_less_iff: "valid x \<Longrightarrow> valid y \<Longrightarrow> enc x < enc y \<longleftrightarrow> x < y"
  using enc_mono [of x y] enc_mono [of y x] by (metis less_asym less_irrefl linorder_neqE)

lemma enc_append_mono:
  assumes "valid x" "valid y" "x < y"
  shows "enc x @ r < enc y @ s"
proof (rule less_append_cong)
  show "enc x < enc y" using assms by (rule enc_mono)
  fix t
  show "enc y \<noteq> enc x @ t" using enc_prefix_free [of y x "[]" t] assms by auto
qed

text \<open>Keys made of several fields sort by the first field, then by the rest.\<close>

lemma enc_append_less_iff:
  assumes "valid x" "valid y"
  shows "enc x @ r < enc y @ s \<longleftrightarrow> x < y \<or> (x = y \<and> r < s)"
  using enc_append_mono [OF assms] enc_append_mono [OF assms(2,1)]
  by (metis less_append_same less_asym linorder_neqE)

end

end
