(* ===== verification/Varint.thy ===== *)
theory Varint
  imports Codec
begin

text \<open>
  Variable-length integers: the seven-bits-per-byte encoding of \<open>common/Varint.hpp\<close>
  (writer and iterator reader) and \<open>common/Streams.cpp\<close> (stream reader), and the
  order-preserving sqlite4 encoding of \<open>common/Varint.cpp\<close> that database keys use.
\<close>

section \<open>Seven bits per byte\<close>

function write_varint :: "u64 \<Rightarrow> bytes" where
  "write_varint i =
     (if 0x80 \<le> i then ((ucast i AND 0x7f) OR 0x80) # write_varint (drop_bit 7 i)
      else [ucast i])"
  by pat_completeness auto
termination
proof (relation "measure unat")
  fix i :: u64
  assume "0x80 \<le> i"
  then have "unat i div 2 ^ 7 < unat i" by (simp add: word_le_nat_alt)
  then show "(drop_bit 7 i, i) \<in> measure unat"
    by (simp only: in_measure unat_drop_bit)
qed simp

declare write_varint.simps [simp del]

text \<open>
  \<open>read_varint_helper<T>\<close> on an input stream, with \<open>T\<close> the word type of the result: one
  byte per round, the overflow check, the accumulation, and on the last byte the check that the
  representation is canonical.  Reading from an empty stream raises.
\<close>

fun read_varint_loop :: "nat \<Rightarrow> 'a::len word \<Rightarrow> bytes \<Rightarrow> ('a word \<times> bytes) result" where
  "read_varint_loop shift temp [] = Inl (Stream_error ''IInputStream reading from empty stream'')"
| "read_varint_loop shift temp (piece # rest) =
     (if LENGTH('a) - 7 \<le> shift \<and> 2 ^ (LENGTH('a) - shift) \<le> unat piece
      then Inl (Runtime_error ''read_varint, value overflow'')
      else let temp' = temp OR push_bit shift (ucast (piece AND 0x7f)) in
        if piece AND 0x80 = 0
        then (if piece = 0 \<and> shift \<noteq> 0
              then Inl (Runtime_error ''read_varint, invalid value representation'')
              else Inr (temp', rest))
        else read_varint_loop (shift + 7) temp' rest)"

definition read_varint_helper :: "bytes \<Rightarrow> ('a::len word \<times> bytes) result" where
  "read_varint_helper s = read_varint_loop 0 0 s"

text \<open>
  \<open>read_varint<bits>(first, last, i)\<close> on iterators (\<open>T = uint64_t\<close>, the only instance in
  the program): the number of bytes read, or -1 on overflow and -2 on a non-canonical
  encoding, with the value in \<open>i\<close>.  Running into the end of the range returns the count of
  bytes read so far.
\<close>

fun read_varint_it_loop :: "nat \<Rightarrow> nat \<Rightarrow> int \<Rightarrow> u64 \<Rightarrow> bytes \<Rightarrow> int \<times> u64" where
  "read_varint_it_loop bits shift rd i [] = (rd, i)"
| "read_varint_it_loop bits shift rd i (byte # rest) =
     (if bits \<le> shift + 7 \<and> 2 ^ (bits - shift) \<le> unat byte then (-1, i)
      else if byte = 0 \<and> shift \<noteq> 0 then (-2, i)
      else let i' = i OR push_bit shift (ucast (byte AND 0x7f)) in
        if byte AND 0x80 = 0 then (rd + 1, i')
        else read_varint_it_loop bits (shift + 7) (rd + 1) i' rest)"

definition read_varint_it :: "bytes \<Rightarrow> int \<times> u64" where
  "read_varint_it s = read_varint_it_loop 64 0 0 0 s"

section \<open>Numeric reading of one byte\<close>

lemma and_7f: "unat (b AND 0x7f :: u8) = unat b mod 128"
  using unat_and_mask [of b 7] by (simp add: mask_eq_exp_minus_1)

lemma and_80: "(b AND 0x80 :: u8) = 0 \<longleftrightarrow> unat b < 128"
proof -
  have "(b AND 0x80 :: u8) = 0 \<longleftrightarrow> \<not> bit b 7"
    using and_exp_eq_0_iff_not_bit [of b 7] by simp
  also have "bit b 7 \<longleftrightarrow> bit (unat b) 7"
    by (simp add: bit_unsigned_iff)
  also have "bit (unat b) 7 \<longleftrightarrow> odd (unat b div 128)"
    by (simp add: bit_iff_odd)
  also have "\<not> odd (unat b div 128) \<longleftrightarrow> unat b < 128"
  proof (cases "unat b < 128")
    case False
    then have "unat b div 128 = 1" using byte_less [of b] by (intro div_nat_eqI) simp_all
    with False show ?thesis by simp
  qed simp
  finally show ?thesis .
qed

lemma cont_byte: "unat ((ucast (i :: u64) AND 0x7f) OR 0x80 :: u8) = unat i mod 128 + 128"
proof -
  have "(ucast i AND 0x7f) OR push_bit 7 1 = ((ucast i AND 0x7f) OR 0x80 :: u8)" by simp
  moreover have "unat ((ucast i AND 0x7f) OR push_bit 7 1 :: u8) = unat i mod 128 + 128"
    by (subst unat_or_push_bit) (simp_all add: and_7f mod_mod_cancel)
  ultimately show ?thesis by metis
qed

section \<open>The encoding as a list of numbers\<close>

text \<open>Reference definition of the encoding over natural numbers.\<close>

fun leb128 :: "nat \<Rightarrow> nat list" where
  "leb128 n = (if n < 128 then [n] else (n mod 128 + 128) # leb128 (n div 128))"

declare leb128.simps [simp del]

lemma write_varint_leb128: "map unat (write_varint i) = leb128 (unat i)"
proof (induction i rule: write_varint.induct)
  case (1 i)
  show ?case
  proof (cases "0x80 \<le> i")
    case True
    with 1 have "map unat (write_varint (drop_bit 7 i)) = leb128 (unat i div 128)"
      by (simp add: unat_drop_bit)
    with True show ?thesis
      by (simp add: write_varint.simps [of i] leb128.simps [of "unat i"] cont_byte word_le_nat_alt)
  next
    case False
    then have "unat i < 128" by (simp add: word_le_nat_alt)
    with False show ?thesis
      by (simp add: write_varint.simps [of i] leb128.simps [of "unat i"])
  qed
qed

lemma leb128_nonempty: "leb128 n \<noteq> []"
  by (simp add: leb128.simps [of n])

section \<open>Reading back\<close>

text \<open>
  One round of the reader in numbers: what it adds to the accumulated value, whether it stops.
\<close>

lemma accumulate:
  assumes "unat (temp :: 'a::len word) < 2 ^ shift" "unat b mod 128 * 2 ^ shift < 2 ^ LENGTH('a)"
    "7 \<le> LENGTH('a)"
  shows "unat (temp OR push_bit shift (ucast (b AND 0x7f :: u8))) =
    unat temp + unat b mod 128 * 2 ^ shift"
proof -
  have "unat b mod 128 < (2::nat) ^ LENGTH('a)"
  proof -
    have "unat b mod 128 < (2::nat) ^ 7" by simp
    also have "\<dots> \<le> 2 ^ LENGTH('a)" using assms(3) by (rule power_increasing) simp
    finally show ?thesis .
  qed
  then have "unat (ucast (b AND 0x7f) :: 'a word) = unat b mod 128"
    by (simp add: and_7f)
  with assms show ?thesis by (subst unat_or_push_bit) simp_all
qed

lemma width_bound:
  assumes "n < 2 ^ (w - shift)" "shift < w"
  shows "n * 2 ^ shift < (2 :: nat) ^ w"
proof -
  have "n * 2 ^ shift < 2 ^ (w - shift) * 2 ^ shift" using assms(1) by simp
  also have "\<dots> = 2 ^ w" using assms(2) by (simp flip: power_add)
  finally show ?thesis .
qed

lemma read_leb128:
  assumes "map unat bs = leb128 n" "n < 2 ^ (LENGTH('a) - shift)" "shift < LENGTH('a)"
    "unat (temp :: 'a::len word) < 2 ^ shift" "8 \<le> LENGTH('a)" "n = 0 \<longrightarrow> shift = 0"
  shows "\<exists>v. read_varint_loop shift temp (bs @ r) = Inr (v, r) \<and> unat v = unat temp + n * 2 ^ shift"
  using assms
proof (induction n arbitrary: bs shift temp rule: leb128.induct)
  case (1 n)
  let ?w = "LENGTH('a)"
  from "1.prems"(1) leb128_nonempty [of n] obtain b bs' where bs: "bs = b # bs'"
    by (cases bs) auto
  show ?case
  proof (cases "n < 128")
    case True
    with "1.prems"(1) bs have b: "unat b = n" "bs' = []" by (simp_all add: leb128.simps [of n])
    have z: "b = 0 \<longleftrightarrow> n = 0" using b(1) by (metis unat_eq_zero)
    from b True accumulate [of temp shift b] "1.prems" width_bound [of n ?w shift]
    have "unat (temp OR push_bit shift (ucast (b AND 0x7f))) = unat temp + n * 2 ^ shift" by simp
    with bs b True z "1.prems"(2,6) show ?thesis by (auto simp add: Let_def and_80)
  next
    case False
    from False "1.prems"(1) bs have b: "unat b = n mod 128 + 128" and r: "map unat bs' = leb128 (n div 128)"
      by (simp_all add: leb128.simps [of n])
    have "\<not> n < 2 ^ 7" using False by simp
    with "1.prems"(2) have "(2::nat) ^ 7 < 2 ^ (?w - shift)" by linarith
    then have s: "shift + 7 < ?w" by (simp add: power_strict_increasing_iff del: power_numeral)
    let ?t = "temp OR push_bit shift (ucast (b AND 0x7f))"
    have mb: "unat b mod 128 = n mod 128" using b by simp
    have "n mod 128 * 2 ^ shift < 2 ^ 7 * 2 ^ shift" by simp
    also have "\<dots> = 2 ^ (shift + 7)" by (simp add: power_add)
    finally have u: "n mod 128 * 2 ^ shift < 2 ^ (shift + 7)" .
    moreover have "(2::nat) ^ (shift + 7) < 2 ^ ?w"
      using s by (rule power_strict_increasing) simp
    ultimately have "unat b mod 128 * 2 ^ shift < 2 ^ ?w"
      unfolding mb by (rule less_trans)
    with accumulate [of temp shift b] "1.prems"(4,5) mb
    have t: "unat ?t = unat temp + n mod 128 * 2 ^ shift" by simp
    have "(n mod 128 + 1) * 2 ^ shift \<le> 128 * 2 ^ shift"
      by (rule mult_le_mono1) (simp add: Suc_le_eq)
    then have "n mod 128 * 2 ^ shift + 2 ^ shift \<le> 128 * 2 ^ shift"
      by (simp only: add_mult_distrib mult_1)
    with t "1.prems"(4) have "unat ?t < 128 * 2 ^ shift" by linarith
    then have t2: "unat ?t < 2 ^ (shift + 7)" by (simp add: power_add mult.commute)
    have n2: "n div 128 < 2 ^ (?w - (shift + 7))"
    proof -
      have "?w - shift = ?w - (shift + 7) + 7" using s by simp
      then have "(2::nat) ^ (?w - shift) = 2 ^ (?w - (shift + 7)) * 2 ^ 7" by (metis power_add)
      with "1.prems"(2) show ?thesis by (simp add: less_mult_imp_div_less)
    qed
    have "0 < n div 128" using False by (simp add: div_greater_zero_iff)
    with "1.IH" [OF False r n2 s t2 "1.prems"(5)] obtain v where
      v: "read_varint_loop (shift + 7) ?t (bs' @ r) = Inr (v, r)"
         "unat v = unat ?t + n div 128 * 2 ^ (shift + 7)" by auto
    have "n * 2 ^ shift = (n div 128 * 128 + n mod 128) * 2 ^ shift" by simp
    also have "\<dots> = n div 128 * 2 ^ (shift + 7) + n mod 128 * 2 ^ shift"
      by (simp only: add_mult_distrib power_add mult.assoc mult.commute [of 128]) simp
    finally have sum: "unat v = unat temp + n * 2 ^ shift" using v(2) t by simp
    have "\<not> ?w - 7 \<le> shift" using s by arith
    then have "\<not> (?w - 7 \<le> shift \<and> 2 ^ (?w - shift) \<le> unat b)" by simp
    moreover have "b AND 0x80 \<noteq> 0" using b and_80 [of b] by simp
    ultimately show ?thesis using v(1) sum bs by (auto simp: Let_def)
  qed
qed

text \<open>
  Conversely a successful read consumed exactly the encoding of the value it returned: the
  reader accepts one byte string per value.
\<close>

lemma read_varint_loop_canonical:
  assumes "read_varint_loop shift temp bs = Inr (v, r)" "unat (temp :: 'a::len word) < 2 ^ shift"
    "shift < LENGTH('a)" "8 \<le> LENGTH('a)"
  shows "\<exists>ws n. bs = ws @ r \<and> map unat ws = leb128 n \<and> unat v = unat temp + n * 2 ^ shift
    \<and> (n = 0 \<longrightarrow> shift = 0)"
  using assms
proof (induction shift temp bs rule: read_varint_loop.induct)
  case (1 shift temp)
  then show ?case by simp
next
  case (2 shift temp b bs)
  let ?w = "LENGTH('a)"
  let ?t = "temp OR push_bit shift (ucast (b AND 0x7f))"
  from "2.prems"(1) have ov: "\<not> (?w - 7 \<le> shift \<and> 2 ^ (?w - shift) \<le> unat b)"
    by (auto split: if_splits)
  show ?case
  proof (cases "b AND 0x80 = 0")
    case True
    then have b: "unat b < 128" by (simp add: and_80)
    from ov True "2.prems"(1) have r: "v = ?t" "r = bs" "b = 0 \<longrightarrow> shift = 0"
      by (auto simp: Let_def split: if_splits)
    have "unat b < 2 ^ (?w - shift)"
    proof (cases "?w - 7 \<le> shift")
      case True
      with ov show ?thesis by simp
    next
      case False
      then have "(2::nat) ^ 7 \<le> 2 ^ (?w - shift)" by (intro power_increasing) simp_all
      with b show ?thesis by simp
    qed
    with width_bound [of "unat b" ?w shift] b "2.prems"(2-) accumulate [of temp shift b]
    have "unat ?t = unat temp + unat b * 2 ^ shift" by simp
    moreover have "map unat [b] = leb128 (unat b)" using b by (simp add: leb128.simps)
    ultimately show ?thesis using r
      by (intro exI [of _ "[b]"] exI [of _ "unat b"]) (simp add: unat_eq_zero)
  next
    case False
    then have b: "128 \<le> unat b" by (simp add: and_80 not_less)
    have ss: "shift + 7 < ?w"
    proof (rule ccontr)
      assume "\<not> shift + 7 < ?w"
      then have "(2::nat) ^ (?w - shift) \<le> 2 ^ 7" by (intro power_increasing) simp_all
      with b ov \<open>\<not> shift + 7 < ?w\<close> show False by simp
    qed
    have "unat b mod 128 * 2 ^ shift < 2 ^ 7 * 2 ^ shift" by simp
    also have "\<dots> = 2 ^ (shift + 7)" by (simp add: power_add)
    finally have u: "unat b mod 128 * 2 ^ shift < 2 ^ (shift + 7)" .
    moreover have "(2::nat) ^ (shift + 7) < 2 ^ ?w" using ss by (rule power_strict_increasing) simp
    ultimately have "unat b mod 128 * 2 ^ shift < 2 ^ ?w" by (rule less_trans)
    with accumulate [of temp shift b] "2.prems"(2,4)
    have t: "unat ?t = unat temp + unat b mod 128 * 2 ^ shift" by simp
    have "(unat b mod 128 + 1) * 2 ^ shift \<le> 128 * 2 ^ shift"
      by (rule mult_le_mono1) (simp add: Suc_le_eq)
    then have "unat b mod 128 * 2 ^ shift + 2 ^ shift \<le> 128 * 2 ^ shift"
      by (simp only: add_mult_distrib mult_1)
    with t "2.prems"(2) have "unat ?t < 128 * 2 ^ shift" by linarith
    then have t2: "unat ?t < 2 ^ (shift + 7)" by (simp add: power_add mult.commute)
    from ov False "2.prems"(1) have "read_varint_loop (shift + 7) ?t bs = Inr (v, r)"
      by (auto simp: Let_def split: if_splits)
    with "2.IH" [OF ov refl False _ t2 ss "2.prems"(4)] obtain ws m where
      m: "bs = ws @ r" "map unat ws = leb128 m" "unat v = unat ?t + m * 2 ^ (shift + 7)" "m \<noteq> 0"
      by auto
    let ?n = "unat b mod 128 + 128 * m"
    have "\<not> ?n < 128" using m(4) by simp
    moreover have "?n div 128 = m" "?n mod 128 = unat b mod 128" by simp_all
    moreover have "unat b mod 128 + 128 = unat b"
    proof -
      have "unat b div 128 = 1" using b byte_less [of b] by (intro div_nat_eqI) simp_all
      then show ?thesis using div_mult_mod_eq [of "unat b" 128] by simp
    qed
    ultimately have "map unat (b # ws) = leb128 ?n"
      using m(2) by (simp add: leb128.simps [of ?n])
    moreover have "unat v = unat temp + ?n * 2 ^ shift"
      using m(3) t by (simp add: power_add algebra_simps)
    ultimately show ?thesis using m(1,4)
      by (intro exI [of _ "b # ws"] exI [of _ ?n]) simp
  qed
qed

lemma map_unat_inj: "map unat xs = map unat ys \<Longrightarrow> xs = (ys :: bytes)"
  by (rule map_injective) (auto simp: inj_on_def word_unat_eq_iff)

text \<open>The stream reader for a result of \<open>w\<close> bits, and the writer, which takes 64-bit values.\<close>

lemma read_write_varint:
  assumes "8 \<le> LENGTH('a)" "unat i < 2 ^ LENGTH('a::len)"
  shows "read_varint_helper (write_varint i @ r) = Inr (ucast i :: 'a word, r)"
proof -
  obtain v :: "'a word" where v: "read_varint_loop 0 (0 :: 'a word) (write_varint i @ r) = Inr (v, r)"
    "unat v = unat (0 :: 'a word) + unat i * 2 ^ 0"
    using read_leb128 [where 'a = 'a and shift = 0 and temp = 0 and r = r, OF write_varint_leb128 [of i]] assms
    by auto
  have "v = ucast i" using v(2) assms(2) by (intro word_unat_eq_iff [THEN iffD2]) simp
  with v(1) show ?thesis by (simp add: read_varint_helper_def)
qed

lemma read_varint_canonical:
  assumes "read_varint_helper bs = Inr (v :: 'a::len word, r)" "8 \<le> LENGTH('a)" "LENGTH('a) \<le> 64"
  shows "bs = write_varint (ucast v) @ r"
proof -
  obtain ws n where ws: "bs = ws @ r" "map unat ws = leb128 n" "unat v = n"
    using read_varint_loop_canonical [OF assms(1) [unfolded read_varint_helper_def]] assms(2) by auto
  have "(2::nat) ^ LENGTH('a) \<le> 2 ^ 64" using assms(3) by (rule power_increasing) simp
  moreover have "unat v < 2 ^ LENGTH('a)" by (rule unsigned_less)
  ultimately have "unat v < 2 ^ 64" by linarith
  then have "unat (ucast v :: u64) = n" using ws(3) by simp
  then have "map unat ws = map unat (write_varint (ucast v))" using ws(2) by (simp add: write_varint_leb128)
  with ws(1) show ?thesis by (auto dest: map_unat_inj)
qed

lemma read_varint_it_of_stream:
  "read_varint_loop shift temp bs = Inr (v, r) \<Longrightarrow>
   read_varint_it_loop 64 shift rd temp bs = (rd + int (length bs) - int (length r), v)"
proof (induction shift temp bs arbitrary: rd rule: read_varint_loop.induct)
  case (1 shift temp)
  then show ?case by simp
next
  case (2 shift temp b bs)
  from "2.prems" have ov: "\<not> (LENGTH(64) - 7 \<le> shift \<and> 2 ^ (LENGTH(64) - shift) \<le> unat b)"
    by (auto split: if_splits)
  have z: "\<not> (b = 0 \<and> shift \<noteq> 0)" using "2.prems" by (auto split: if_splits)
  let ?t = "temp OR push_bit shift (ucast (b AND 0x7f))"
  show ?case
  proof (cases "b AND 0x80 = 0")
    case True
    with ov z "2.prems" have "v = ?t" "r = bs" by (auto simp: Let_def split: if_splits)
    with ov z True show ?thesis by auto
  next
    case False
    with ov "2.prems" have "read_varint_loop (shift + 7) ?t bs = Inr (v, r)"
      by (auto simp: Let_def split: if_splits)
    from "2.IH" [OF ov refl False this] ov z False show ?thesis by auto
  qed
qed

lemma read_varint_it_write:
  "read_varint_it (write_varint i @ r) = (int (length (write_varint i)), i)"
proof -
  have "read_varint_helper (write_varint i @ r) = Inr (ucast i :: u64, r)"
    using u64_less [of i] by (intro read_write_varint) simp_all
  then show ?thesis
    using read_varint_it_of_stream [of 0 0 "write_varint i @ r" i r 0]
    by (simp add: read_varint_it_def read_varint_helper_def)
qed

section \<open>The sqlite4 encoding of database keys\<close>

fun uint_be_from_bytes :: "bytes \<Rightarrow> u64" where
  "uint_be_from_bytes buf = foldl (\<lambda>result b. push_bit 8 result OR ucast b) 0 buf"

fun uint_be_to_bytes :: "nat \<Rightarrow> u64 \<Rightarrow> bytes" where
  "uint_be_to_bytes 0 val = []"
| "uint_be_to_bytes (Suc n) val = uint_be_to_bytes n (drop_bit 8 val) @ [ucast val]"

definition get_varint_sqlite4_size :: "u64 \<Rightarrow> nat" where
  "get_varint_sqlite4_size val =
     (if val \<le> 240 then 1 else if val \<le> 2287 then 2 else if val \<le> 67823 then 3
      else if val \<le> 16777215 then 4 else if val \<le> 4294967295 then 5
      else if val \<le> 1099511627775 then 6 else if val \<le> 281474976710655 then 7
      else if val \<le> 72057594037927935 then 8 else 9)"

definition write_varint_sqlite4 :: "u64 \<Rightarrow> bytes" where
  "write_varint_sqlite4 val =
     (if val \<le> 240 then [ucast val]
      else if val \<le> 2287 then [ucast ((val - 240) div 256 + 241), ucast (val - 240)]
      else if val \<le> 67823 then [249, ucast ((val - 2288) div 256), ucast (val - 2288)]
      else if val \<le> 16777215 then 250 # uint_be_to_bytes 3 val
      else if val \<le> 4294967295 then 251 # uint_be_to_bytes 4 val
      else if val \<le> 1099511627775 then 252 # uint_be_to_bytes 5 val
      else if val \<le> 281474976710655 then 253 # uint_be_to_bytes 6 val
      else if val \<le> 72057594037927935 then 254 # uint_be_to_bytes 7 val
      else 255 # uint_be_to_bytes 8 val)"

text \<open>\<open>read(begin, end, to, len)\<close>: the next \<open>len\<close> bytes, or an exception.\<close>

definition read_bytes :: "nat \<Rightarrow> bytes \<Rightarrow> (bytes \<times> bytes) result" where
  "read_bytes len s =
     (if length s < len then Inl (Runtime_error ''end of read'') else Inr (take len s, drop len s))"

definition read_varint_sqlite4 :: "bytes \<Rightarrow> (u64 \<times> bytes) result" where
  "read_varint_sqlite4 s =
     res_bind (read_bytes 1 s) (\<lambda>(buf, s1). let a0 = hd buf in
       if a0 \<le> 240 then Inr (ucast a0, s1)
       else if a0 \<le> 248 then
         res_bind (read_bytes 1 s1) (\<lambda>(b1, s2).
           Inr (240 + 256 * (ucast a0 - 241) + ucast (hd b1), s2))
       else if a0 = 249 then
         res_bind (read_bytes 2 s1) (\<lambda>(b, s2).
           Inr (2288 + 256 * ucast (b ! 0) + ucast (b ! 1), s2))
       else
         res_bind (read_bytes (3 + unat a0 - 250) s1) (\<lambda>(b, s2).
           Inr (uint_be_from_bytes b, s2)))"

text \<open>\<open>read_varint_sqlite4(const std::string &)\<close>: the whole string must be one number.\<close>

definition read_varint_sqlite4_str :: "bytes \<Rightarrow> u64 result" where
  "read_varint_sqlite4_str str =
     res_bind (read_varint_sqlite4 str) (\<lambda>(val, rest).
       if rest \<noteq> [] then Inl (Runtime_error ''read_varint_sqlite4 excess symbols in string'')
       else Inr val)"

lemma uint_be_to_bytes_nat_be: "uint_be_to_bytes n val = nat_be n (unat val)"
  by (induction n val rule: uint_be_to_bytes.induct)
     (simp_all add: unat_drop_bit word_unat_eq_iff unat_of_nat)

lemma uint_be_from_bytes_be_nat:
  "length bs \<le> 8 \<Longrightarrow> unat (uint_be_from_bytes bs) = be_nat bs"
proof (induction bs rule: rev_induct)
  case Nil
  then show ?case by simp
next
  case (snoc b bs)
  then have IH: "unat (uint_be_from_bytes bs) = be_nat bs" by simp
  have "be_nat bs < 256 ^ length bs" by (rule be_nat_less)
  also have "\<dots> \<le> 256 ^ 7" using snoc.prems by (intro power_increasing) simp_all
  finally have "be_nat bs * 2 ^ 8 < 2 ^ LENGTH(64)" by simp
  moreover have "unat (ucast b :: u64) < 2 ^ 8" using byte_less [of b] by (simp del: byte_less)
  ultimately have "unat (ucast b OR push_bit 8 (uint_be_from_bytes bs)) = unat b + be_nat bs * 256"
    using IH unat_or_push_bit [of "ucast b :: u64" 8 "uint_be_from_bytes bs"] byte_less [of b]
    by (simp del: byte_less)
  then show ?case by (simp add: or.commute)
qed

text \<open>
  The encoding as a tag byte followed by a big-endian payload; the tag alone decides the length.
\<close>

definition sq4_tag :: "nat \<Rightarrow> nat" where
  "sq4_tag n = (if n \<le> 240 then n else if n \<le> 2287 then (n - 240) div 256 + 241
     else if n \<le> 67823 then 249 else if n \<le> 16777215 then 250 else if n \<le> 4294967295 then 251
     else if n \<le> 1099511627775 then 252 else if n \<le> 281474976710655 then 253
     else if n \<le> 72057594037927935 then 254 else 255)"

definition sq4_len :: "nat \<Rightarrow> nat" where
  "sq4_len n = (if n \<le> 240 then 0 else if n \<le> 2287 then 1
     else if n \<le> 67823 then 2 else if n \<le> 16777215 then 3 else if n \<le> 4294967295 then 4
     else if n \<le> 1099511627775 then 5 else if n \<le> 281474976710655 then 6
     else if n \<le> 72057594037927935 then 7 else 8)"

definition sq4_payload :: "nat \<Rightarrow> nat" where
  "sq4_payload n = (if n \<le> 240 then 0 else if n \<le> 2287 then (n - 240) mod 256
     else if n \<le> 67823 then n - 2288 else n)"

lemmas sq4_defs = sq4_tag_def sq4_len_def sq4_payload_def

lemma sq4_payload_less: "n < 2 ^ 64 \<Longrightarrow> sq4_payload n < 256 ^ sq4_len n"
  by (auto simp: sq4_payload_def sq4_len_def)

lemma sq4_tag_less: "sq4_tag n < 256"
  by (auto simp: sq4_tag_def)

lemma nat_be_2: "nat_be 2 k = [word_of_nat (k div 256), word_of_nat k]"
  by (simp add: numeral_2_eq_2)

lemma write_varint_sqlite4_eq:
  "write_varint_sqlite4 v =
     word_of_nat (sq4_tag (unat v)) # nat_be (sq4_len (unat v)) (sq4_payload (unat v))"
proof -
  consider "unat v \<le> 240" | "240 < unat v" "unat v \<le> 2287" | "2287 < unat v" "unat v \<le> 67823"
    | "67823 < unat v" by linarith
  then show ?thesis
  proof cases
    case 1
    then show ?thesis
      by (simp add: write_varint_sqlite4_def sq4_defs word_le_nat_alt word_unat_eq_iff unat_of_nat)
  next
    case 2
    then have "unat (v - 240) = unat v - 240" by (simp add: unat_sub word_le_nat_alt)
    with 2 show ?thesis
      by (simp add: write_varint_sqlite4_def sq4_defs word_le_nat_alt)
         (simp add: unat_div unat_word_ariths word_unat_eq_iff unat_of_nat)
  next
    case 3
    then have "unat (v - 2288) = unat v - 2288" by (simp add: unat_sub word_le_nat_alt)
    then have "(ucast (v - 2288) :: u8) = word_of_nat (unat v - 2288)"
      "(ucast ((v - 2288) div 256) :: u8) = word_of_nat ((unat v - 2288) div 256)"
      by (simp_all only: word_unat_eq_iff unat_ucast_down unat_of_nat unat_div) simp_all
    with 3 show ?thesis
      by (simp only: write_varint_sqlite4_def sq4_defs word_le_nat_alt) (simp add: nat_be_2)
  next
    case 4
    then show ?thesis
      by (simp add: write_varint_sqlite4_def sq4_defs word_le_nat_alt uint_be_to_bytes_nat_be)
  qed
qed

lemma sq4_mono:
  assumes "n < m" "m < 2 ^ 64"
  shows "sq4_tag n < sq4_tag m
    \<or> (sq4_tag n = sq4_tag m \<and> sq4_len n = sq4_len m \<and> sq4_payload n < sq4_payload m)"
proof (cases "240 < n \<and> m \<le> 2287")
  case True
  let ?a = "n - 240" and ?b = "m - 240"
  have "?a < ?b" using True assms(1) by linarith
  then have "?a div 256 < ?b div 256 \<or> (?a div 256 = ?b div 256 \<and> ?a mod 256 < ?b mod 256)"
    by (metis div_le_mono div_mult_mod_eq le_eq_less_or_eq less_imp_le_nat nat_add_left_cancel_less)
  with True assms(1) show ?thesis by (auto simp: sq4_defs)
next
  case False
  have "(n - 240) div 256 \<le> 7" if "n \<le> 2287" using that by (simp add: div_le_mono [of _ 2047 256, simplified])
  with False assms show ?thesis by (auto simp: sq4_defs)
qed

lemma write_varint_sqlite4_mono: "v < w \<Longrightarrow> write_varint_sqlite4 v < write_varint_sqlite4 w"
proof -
  assume "v < w"
  then have nm: "unat v < unat w" by (simp add: word_less_nat_alt)
  let ?b = "\<lambda>k. word_of_nat k :: u8"
  have h: "?b (sq4_tag n) < ?b (sq4_tag m) \<longleftrightarrow> sq4_tag n < sq4_tag m" for n m
    using sq4_tag_less [of n] sq4_tag_less [of m] by (simp add: word_less_nat_alt unat_of_nat)
  have p: "nat_be l n < nat_be l m" if "n < m" "m < 256 ^ l" for l n m
    using that be_nat_less_iff [of "nat_be l n" "nat_be l m"] by (simp add: be_nat_nat_be)
  from sq4_mono [OF nm u64_less [of w]] sq4_payload_less [OF u64_less [of w]] p
  show ?thesis by (auto simp: write_varint_sqlite4_eq h)
qed

lemma get_varint_sqlite4_size_eq: "get_varint_sqlite4_size v = Suc (sq4_len (unat v))"
  by (simp add: get_varint_sqlite4_size_def sq4_len_def word_le_nat_alt)

lemma read_bytes_append [simp]: "length a = n \<Longrightarrow> read_bytes n (a @ r) = Inr (a, r)"
  by (simp add: read_bytes_def)

lemma read_bytes_1 [simp]: "read_bytes 1 (a # r) = Inr ([a], r)"
  by (simp add: read_bytes_def)

lemma read_bytes_Suc_0 [simp]: "read_bytes (Suc 0) (a # r) = Inr ([a], r)"
  by (simp add: read_bytes_def)

lemma ucast_byte: "k < 256 \<Longrightarrow> (ucast (word_of_nat k :: u8) :: u64) = word_of_nat k"
  by (simp add: word_unat_eq_iff unat_of_nat)

lemma read_write_varint_sqlite4: "read_varint_sqlite4 (write_varint_sqlite4 v @ r) = Inr (v, r)"
proof -
  let ?n = "unat v"
  have tag: "unat (word_of_nat (sq4_tag ?n) :: u8) = sq4_tag ?n"
    using sq4_tag_less [of ?n] by (simp add: unat_of_nat)
  consider "?n \<le> 240" | "240 < ?n" "?n \<le> 2287" | "2287 < ?n" "?n \<le> 67823"
    | "67823 < ?n" by linarith
  then show ?thesis
  proof cases
    case 1
    with tag show ?thesis
      by (simp add: write_varint_sqlite4_eq read_varint_sqlite4_def word_le_nat_alt sq4_defs
          word_unat_eq_iff Let_def)
  next
    case 2
    let ?k = "(?n - 240) div 256" and ?p = "(?n - 240) mod 256"
    have "?k \<le> 2047 div 256" using 2 by (intro div_le_mono) simp
    then have k: "?k \<le> 7" by simp
    have "(word_of_nat (?k + 241) - 241 :: u64) = word_of_nat ?k" by simp
    then have "240 + 256 * (word_of_nat (?k + 241) - 241) + word_of_nat ?p
      = (word_of_nat (240 + 256 * ?k + ?p) :: u64)" by (simp only: of_nat_add of_nat_mult of_nat_numeral)
    also have "240 + 256 * ?k + ?p = ?n" using 2(1) mult_div_mod_eq [of 256 "?n - 240"] by simp
    finally have val: "240 + 256 * (word_of_nat (?k + 241) - 241) + word_of_nat ?p = v" by simp
    have parts: "sq4_tag ?n = ?k + 241" "sq4_len ?n = 1" "sq4_payload ?n = ?p"
      using 2 by (simp_all add: sq4_defs)
    have a0: "\<not> (word_of_nat (?k + 241) :: u8) \<le> 240" "(word_of_nat (?k + 241) :: u8) \<le> 248"
      using tag k parts(1) by (simp_all only: word_le_nat_alt) simp_all
    have "read_varint_sqlite4 (word_of_nat (?k + 241) # word_of_nat ?p # r)
      = Inr (240 + 256 * (word_of_nat (?k + 241) - 241) + word_of_nat ?p, r)"
      using a0 k ucast_byte [of "?k + 241"] ucast_byte [of ?p]
      by (simp only: read_varint_sqlite4_def read_bytes_1 res_bind_Inr prod.case Let_def list.sel
          if_False if_True)
    then show ?thesis by (simp only: write_varint_sqlite4_eq parts val) simp
  next
    case 3
    let ?q = "?n - 2288"
    have q: "?q div 256 < 256" using 3 by (simp add: less_mult_imp_div_less)
    have parts: "sq4_tag ?n = 249" "sq4_len ?n = 2" "sq4_payload ?n = ?q"
      using 3 by (simp_all add: sq4_defs)
    have low: "(ucast (word_of_nat ?q :: u8) :: u64) = word_of_nat (?q mod 256)"
      by (simp only: word_unat_eq_iff unat_ucast_down unat_of_nat) simp
    have "2288 + 256 * word_of_nat (?q div 256) + word_of_nat (?q mod 256)
      = (word_of_nat (2288 + 256 * (?q div 256) + ?q mod 256) :: u64)"
      by (simp only: of_nat_add of_nat_mult of_nat_numeral)
    also have "2288 + 256 * (?q div 256) + ?q mod 256 = ?n"
      using 3(1) mult_div_mod_eq [of 256 ?q] by simp
    finally have val: "2288 + 256 * word_of_nat (?q div 256) + word_of_nat (?q mod 256) = v" by simp
    have "read_varint_sqlite4 (249 # [word_of_nat (?q div 256), word_of_nat ?q] @ r)
      = Inr (2288 + 256 * word_of_nat (?q div 256) + word_of_nat (?q mod 256), r)"
      by (simp add: read_varint_sqlite4_def read_bytes_def low ucast_byte [OF q] del: of_nat_mod)
    then show ?thesis by (simp only: write_varint_sqlite4_eq parts val nat_be_2) simp
  next
    case 4
    let ?l = "sq4_len ?n"
    have l: "sq4_tag ?n = 247 + ?l" "3 \<le> ?l" "?l \<le> 8" using 4 by (auto simp: sq4_defs)
    have p: "sq4_payload ?n = ?n" using 4 by (simp add: sq4_payload_def)
    have "unat (uint_be_from_bytes (nat_be ?l ?n)) = ?n"
      using l(3) sq4_payload_less [OF u64_less [of v]] p
      by (simp only: uint_be_from_bytes_be_nat length_nat_be be_nat_nat_be mod_less)
    then have "uint_be_from_bytes (nat_be ?l ?n) = v" by (simp only: word_unat_eq_iff)
    with l p tag show ?thesis
      by (simp add: write_varint_sqlite4_eq read_varint_sqlite4_def word_le_nat_alt
          word_unat_eq_iff [of _ 249] Let_def del: uint_be_from_bytes.simps)
  qed
qed

section \<open>The contracts met\<close>

interpretation varint64: canonical_codec write_varint "read_varint_helper :: bytes \<Rightarrow> (u64 \<times> bytes) result"
  "\<lambda>_. True"
proof unfold_locales
  show "read_varint_helper (write_varint x @ r) = Inr (x, r)" for x r
    using read_write_varint [where 'a = 64, of x r] u64_less [of x] by simp
  show "True \<and> s = write_varint x @ r" if "read_varint_helper s = Inr (x, r)" for s and x :: u64 and r
    using read_varint_canonical [OF that] by simp
qed

interpretation varint32: canonical_codec "\<lambda>x. write_varint (ucast x)"
  "read_varint_helper :: bytes \<Rightarrow> (u32 \<times> bytes) result" "\<lambda>_. True"
proof unfold_locales
  show "read_varint_helper (write_varint (ucast x) @ r) = Inr (x, r)" for x :: u32 and r
    using read_write_varint [where 'a = 32, of "ucast x" r] u32_less [of x]
    by (simp add: del: byte_less)
  show "True \<and> s = write_varint (ucast x) @ r" if "read_varint_helper s = Inr (x, r)" for s and x :: u32 and r
    using read_varint_canonical [OF that] by simp
qed

interpretation varint8: canonical_codec "\<lambda>x. write_varint (ucast x)"
  "read_varint_helper :: bytes \<Rightarrow> (u8 \<times> bytes) result" "\<lambda>_. True"
proof unfold_locales
  show "read_varint_helper (write_varint (ucast x) @ r) = Inr (x, r)" for x :: u8 and r
    using read_write_varint [where 'a = 8, of "ucast x" r] byte_less [of x]
    by (simp add: del: byte_less)
  show "True \<and> s = write_varint (ucast x) @ r" if "read_varint_helper s = Inr (x, r)" for s and x :: u8 and r
    using read_varint_canonical [OF that] by simp
qed

interpretation sqlite4: ordered_codec write_varint_sqlite4 read_varint_sqlite4 "\<lambda>_. True"
  by unfold_locales (simp_all add: read_write_varint_sqlite4 write_varint_sqlite4_mono)

section \<open>The two formats\<close>

text \<open>
  C16: a stream reads as a 64-bit varint exactly when it starts with what the writer produces
  for that number, so every number has one encoding and no other bytes are accepted.
\<close>

theorem varint_canonical:
  "read_varint_helper s = Inr (x :: u64, r) \<longleftrightarrow> s = write_varint x @ r"
  by (simp add: varint64.dec_iff)

text \<open>
  C17: the database varints read back, and their byte order is the order of the numbers, also
  when more key bytes follow.
\<close>

theorem sqlite4_varint_order:
  "read_varint_sqlite4 (write_varint_sqlite4 x @ r) = Inr (x, r) \<and>
     (write_varint_sqlite4 x @ r < write_varint_sqlite4 y @ s \<longleftrightarrow> x < y \<or> (x = y \<and> r < s))"
  using sqlite4.enc_append_less_iff [OF TrueI TrueI] by (simp add: sqlite4.dec_enc)

end
