(* ===== verification/Crypto_Note.thy ===== *)
theory Crypto_Note
  imports Prelude
begin

text \<open>
  The data of the chain as \<open>CryptoNote.hpp\<close>, \<open>crypto/types.hpp\<close> and
  \<open>rpc_api.hpp\<close> declare it.  Hashes, keys, key images and signatures are plain
  byte arrays of fixed size (32 bytes, 64 for a signature) and are compared with
  \<open>memcmp\<close>, which on arrays of one size is the lexicographic order of byte lists.
\<close>

type_synonym hash = bytes
type_synonym public_key = bytes
type_synonym key_image = bytes
type_synonym signature = bytes

type_synonym height = u32
type_synonym difficulty = u64
type_synonym amount = u64
type_synonym timestamp = u32
type_synonym unlock_moment = u64

definition pod32 :: "bytes \<Rightarrow> bool" where
  "pod32 b \<longleftrightarrow> length b = 32"

definition pod64 :: "bytes \<Rightarrow> bool" where
  "pod64 b \<longleftrightarrow> length b = 64"

text \<open>The default value \<open>Hash{}\<close>.\<close>

definition null_hash :: hash where
  "null_hash = replicate 32 0"

section \<open>Transactions\<close>

record key_input =
  ki_amount :: amount
  ki_output_indexes :: "u32 list"
  ki_key_image :: key_image

datatype transaction_input = CoinbaseInput height | KeyInput key_input

datatype output_target = KeyOutput public_key

record transaction_output =
  to_amount :: amount
  to_target :: output_target

record transaction_prefix =
  tx_version :: u8
  tx_unlock_time :: unlock_moment
  tx_inputs :: "transaction_input list"
  tx_outputs :: "transaction_output list"
  tx_extra :: bytes

record transaction = transaction_prefix +
  tx_signatures :: "signature list list"

section \<open>Blocks\<close>

record block_header =
  bh_major_version :: u8
  bh_minor_version :: u8
  bh_nonce :: u32
  bh_timestamp :: timestamp
  bh_previous_block_hash :: hash

record parent_block =
  pb_major_version :: u8
  pb_minor_version :: u8
  pb_previous_block_hash :: hash
  pb_transaction_count :: u16
  pb_base_transaction_branch :: "hash list"
  pb_base_transaction :: transaction_prefix
  pb_blockchain_branch :: "hash list"

record block_template = block_header +
  bt_parent_block :: parent_block
  bt_base_transaction :: transaction
  bt_transaction_hashes :: "hash list"

record raw_block =
  rb_block :: bytes
  rb_transactions :: "bytes list"

record block =
  blk_header :: block_template
  blk_transactions :: "transaction list"

text \<open>\<open>api::BlockHeader\<close>: what the node keeps of every block it has seen.\<close>

record header_info =
  hi_major_version :: u8
  hi_minor_version :: u8
  hi_timestamp :: timestamp
  hi_previous_block_hash :: hash
  hi_nonce :: u32
  hi_height :: height
  hi_hash :: hash
  hi_reward :: amount
  hi_cumulative_difficulty :: difficulty
  hi_difficulty :: difficulty
  hi_base_reward :: amount
  hi_block_size :: u32
  hi_transactions_cumulative_size :: u32
  hi_already_generated_coins :: amount
  hi_already_generated_transactions :: u64
  hi_size_median :: u32
  hi_effective_size_median :: u32
  hi_timestamp_median :: timestamp
  hi_total_fee_amount :: amount

definition empty_header_info :: header_info where
  "empty_header_info = \<lparr>hi_major_version = 0, hi_minor_version = 0, hi_timestamp = 0,
     hi_previous_block_hash = null_hash, hi_nonce = 0, hi_height = 0, hi_hash = null_hash,
     hi_reward = 0, hi_cumulative_difficulty = 0, hi_difficulty = 0, hi_base_reward = 0,
     hi_block_size = 0, hi_transactions_cumulative_size = 0, hi_already_generated_coins = 0,
     hi_already_generated_transactions = 0, hi_size_median = 0, hi_effective_size_median = 0,
     hi_timestamp_median = 0, hi_total_fee_amount = 0\<rparr>"

text \<open>\<open>IBlockChainState::UnlockTimePublickKeyHeightSpent\<close>: an output of the ledger.\<close>

record unp =
  unp_unlock_time :: unlock_moment
  unp_public_key :: public_key
  unp_height :: height
  unp_spent :: bool

text \<open>The key inputs of a transaction, in order.\<close>

fun key_inputs :: "transaction_input list \<Rightarrow> key_input list" where
  "key_inputs [] = []"
| "key_inputs (CoinbaseInput _ # ins) = key_inputs ins"
| "key_inputs (KeyInput k # ins) = k # key_inputs ins"

lemma key_inputs_append [simp]: "key_inputs (xs @ ys) = key_inputs xs @ key_inputs ys"
  by (induction xs rule: key_inputs.induct) simp_all

lemma set_key_inputs: "k \<in> set (key_inputs ins) \<longleftrightarrow> KeyInput k \<in> set ins"
  by (induction ins rule: key_inputs.induct) auto

end
