(* ===== verification/Binary_Seria.thy ===== *)
theory Binary_Seria
  imports Varint Crypto_Note
begin

text \<open>
  The binary serialization: \<open>seria/BinaryInputStream\<close> and \<open>seria/BinaryOutputStream\<close>
  over memory streams, and the members of transactions, outputs and headers as
  \<open>Core/rpc_api_serialization.cpp\<close> lists them.  The code has one function for both
  directions; here it is a writer \<open>enc_\<dots>\<close> and a reader \<open>dec_\<dots>\<close> per type.
\<close>

section \<open>Streams\<close>

text \<open>\<open>MemoryInputStream::read_some\<close>: at most what is left of the buffer.\<close>

definition read_some :: "nat \<Rightarrow> bytes \<Rightarrow> bytes \<times> bytes" where
  "read_some sz s = (take sz s, drop sz s)"

text \<open>\<open>IInputStream::read\<close>: repeats \<open>read_some\<close> until all is read, raises when it reads nothing.\<close>

function stream_read :: "nat \<Rightarrow> bytes \<Rightarrow> (bytes \<times> bytes) result" where
  "stream_read count s =
     (if count = 0 then Inr ([], s)
      else let (data, s1) = read_some count s; rc = length data in
        if rc = 0 then Inl (Stream_error ''IInputStream reading from empty stream'')
        else res_bind (stream_read (count - rc) s1) (\<lambda>(rest, s2). Inr (data @ rest, s2)))"
  by pat_completeness auto
termination
  by (relation "measure fst") (auto simp: read_some_def)

declare stream_read.simps [simp del]

lemma stream_read_0 [simp]: "stream_read 0 s = Inr ([], s)"
  by (simp add: stream_read.simps)

text \<open>On a memory stream this is: all bytes if there are enough, an exception otherwise.\<close>

lemma stream_read_eq:
  "stream_read n s = (if n \<le> length s then Inr (take n s, drop n s)
     else Inl (Stream_error ''IInputStream reading from empty stream''))"
proof (cases "n \<le> length s")
  case True
  then show ?thesis by (cases "n = 0") (auto simp: stream_read.simps [of n s] read_some_def min_def Let_def)
next
  case False
  then have n: "0 < n" "length s < n" by auto
  have empty: "stream_read m [] = Inl (Stream_error ''IInputStream reading from empty stream'')" if "0 < m" for m
    using that by (simp add: stream_read.simps [of m] read_some_def)
  show ?thesis
  proof (cases "s = []")
    case True
    with n empty show ?thesis by simp
  next
    case False
    with n empty [of "n - length s"] show ?thesis
      by (simp add: stream_read.simps [of n s] read_some_def min_def Let_def)
  qed
qed

lemma stream_read_append [simp]: "length a = n \<Longrightarrow> stream_read n (a @ r) = Inr (a, r)"
  by (simp add: stream_read_eq)

lemma stream_read_Inr: "stream_read n s = Inr (a, r) \<longleftrightarrow> length a = n \<and> s = a @ r"
  by (auto simp: stream_read_eq split: if_splits)

text \<open>\<open>common::read(in, data, size)\<close> grows the array by chunks of a mebibyte.\<close>

definition CHUNK :: nat where
  "CHUNK = 1024 * 1024"

function read_array_from :: "nat \<Rightarrow> bytes \<Rightarrow> bytes \<Rightarrow> (bytes \<times> bytes) result" where
  "read_array_from sz data s =
     (if length data < sz
      then (case stream_read (min CHUNK (sz - length data)) s of
          Inl e \<Rightarrow> Inl e
        | Inr (chunk, s1) \<Rightarrow> read_array_from sz (data @ chunk) s1)
      else Inr (data, s))"
  by pat_completeness auto
termination
  by (relation "measure (\<lambda>(sz, data, _). sz - length data)") (auto simp: stream_read_Inr CHUNK_def)

declare read_array_from.simps [simp del]

definition read_array :: "nat \<Rightarrow> bytes \<Rightarrow> (bytes \<times> bytes) result" where
  "read_array sz s =
     res_bind (stream_read (min CHUNK sz) s) (\<lambda>(data, s1). read_array_from sz data s1)"

lemma stream_read_split:
  assumes "c \<le> n"
  shows "stream_read n s = res_bind (stream_read c s) (\<lambda>(a, s1).
     res_bind (stream_read (n - c) s1) (\<lambda>(b, s2). Inr (a @ b, s2)))"
proof -
  have "take n s = take c s @ take (n - c) (drop c s)"
    using assms by (metis le_add_diff_inverse take_add)
  moreover have "drop n s = drop (n - c) (drop c s)" using assms by simp
  moreover have "n \<le> length s \<longleftrightarrow> c \<le> length s \<and> n - c \<le> length s - c" using assms by linarith
  ultimately show ?thesis by (simp add: stream_read_eq)
qed

lemma read_array_from_eq:
  "length data \<le> sz \<Longrightarrow> read_array_from sz data s =
     res_bind (stream_read (sz - length data) s) (\<lambda>(a, r). Inr (data @ a, r))"
proof (induction sz data s rule: read_array_from.induct)
  case (1 sz data s)
  show ?case
  proof (cases "length data < sz")
    case True
    define c where "c = min CHUNK (sz - length data)"
    have c: "c \<le> sz - length data" by (simp add: c_def)
    show ?thesis
    proof (cases "stream_read c s")
      case (Inl e)
      with True show ?thesis
        by (simp add: read_array_from.simps [of sz data s] stream_read_split [OF c] flip: c_def)
    next
      case (Inr p)
      then obtain a s1 where a: "stream_read c s = Inr (a, s1)" by (cases p) auto
      then have "length a = c" by (simp add: stream_read_Inr)
      with "1.IH" [OF True a [unfolded c_def] refl] c True
      have "read_array_from sz (data @ a) s1 =
        res_bind (stream_read (sz - length data - c) s1) (\<lambda>(b, r). Inr ((data @ a) @ b, r))" by simp
      with True a show ?thesis
        by (cases "stream_read (sz - length data - c) s1")
          (auto simp add: read_array_from.simps [of sz data s] stream_read_split [OF c] simp flip: c_def)
    qed
  next
    case False
    with 1 show ?thesis by (simp add: read_array_from.simps [of sz data s])
  qed
qed

lemma read_array_eq: "read_array sz s = stream_read sz s"
proof -
  define c where "c = min CHUNK sz"
  have c: "c \<le> sz" by (simp add: c_def)
  have "read_array sz s = res_bind (stream_read c s) (\<lambda>(data, s1). read_array_from sz data s1)"
    by (simp add: read_array_def c_def)
  also have "\<dots> = res_bind (stream_read c s) (\<lambda>(a, s1).
     res_bind (stream_read (sz - c) s1) (\<lambda>(b, s2). Inr (a @ b, s2)))"
    using c by (cases "stream_read c s") (auto simp: stream_read_Inr read_array_from_eq)
  also have "\<dots> = stream_read sz s" by (rule stream_read_split [OF c, symmetric])
  finally show ?thesis .
qed


lemma list_all_True [simp]: "list_all (\<lambda>_. True) xs"
  by (induction xs) simp_all

section \<open>Basic types\<close>

definition enc_u64 :: "u64 \<Rightarrow> bytes" where
  "enc_u64 v = write_varint v"

definition dec_u64 :: "bytes \<Rightarrow> (u64 \<times> bytes) result" where
  "dec_u64 s = read_varint_helper s"

definition enc_u32 :: "u32 \<Rightarrow> bytes" where
  "enc_u32 v = write_varint (ucast v)"

definition dec_u32 :: "bytes \<Rightarrow> (u32 \<times> bytes) result" where
  "dec_u32 s = read_varint_helper s"

definition enc_u8 :: "u8 \<Rightarrow> bytes" where
  "enc_u8 v = write_varint (ucast v)"

definition dec_u8 :: "bytes \<Rightarrow> (u8 \<times> bytes) result" where
  "dec_u8 s = read_varint_helper s"

interpretation u64: canonical_codec enc_u64 dec_u64 "\<lambda>_. True"
  by unfold_locales (simp_all add: enc_u64_def dec_u64_def varint64.dec_iff)

interpretation u32: canonical_codec enc_u32 dec_u32 "\<lambda>_. True"
  by unfold_locales (simp_all add: enc_u32_def dec_u32_def varint32.dec_iff)

interpretation u8: canonical_codec enc_u8 dec_u8 "\<lambda>_. True"
  by unfold_locales (simp_all add: enc_u8_def dec_u8_def varint8.dec_iff)

text \<open>A flag is one byte; every value but 0 reads as true.\<close>

definition enc_bool :: "bool \<Rightarrow> bytes" where
  "enc_bool b = [if b then 1 else 0]"

definition dec_bool :: "bytes \<Rightarrow> (bool \<times> bytes) result" where
  "dec_bool s = res_bind (stream_read 1 s) (\<lambda>(d, s1). Inr (d ! 0 \<noteq> 0, s1))"

interpretation boolean: codec enc_bool dec_bool "\<lambda>_. True"
  by unfold_locales (simp add: enc_bool_def dec_bool_def stream_read_eq)

text \<open>\<open>binary\<close>: a block of fixed size, without its size.\<close>

definition dec_binary :: "nat \<Rightarrow> bytes \<Rightarrow> (bytes \<times> bytes) result" where
  "dec_binary n s = stream_read n s"

interpretation hash32: canonical_codec "\<lambda>b. b" "dec_binary 32" pod32
  by unfold_locales (auto simp: dec_binary_def pod32_def stream_read_Inr)

interpretation hash64: canonical_codec "\<lambda>b. b" "dec_binary 64" pod64
  by unfold_locales (auto simp: dec_binary_def pod64_def stream_read_Inr)

text \<open>Containers have less than \<open>2 ^ 64\<close> elements: their size is a \<open>size_t\<close>.\<close>

definition fits64 :: "'a list \<Rightarrow> bool" where
  "fits64 xs \<longleftrightarrow> length xs < 2 ^ 64"

lemma fits64_unat [simp]: "fits64 xs \<Longrightarrow> unat (word_of_nat (length xs) :: u64) = length xs"
  by (simp add: fits64_def unat_of_nat)

lemma fits64_of_unat: "length xs = unat (n :: u64) \<Longrightarrow> fits64 xs \<and> n = word_of_nat (length xs)"
  using u64_less [of n] by (simp add: fits64_def)

text \<open>\<open>seria_v(BinaryArray &)\<close> and \<open>seria_v(std::string &)\<close>: the size, then the bytes.\<close>

definition enc_bytes :: "bytes \<Rightarrow> bytes" where
  "enc_bytes b = write_varint (word_of_nat (length b)) @ b"

definition dec_bytes :: "bytes \<Rightarrow> (bytes \<times> bytes) result" where
  "dec_bytes s = res_bind (read_varint_helper s) (\<lambda>(size :: u64, s1). read_array (unat size) s1)"

lemma dec_bytes_iff: "dec_bytes s = Inr (b, r) \<longleftrightarrow> fits64 b \<and> s = enc_bytes b @ r"
  using fits64_of_unat [of b]
  by (auto simp: dec_bytes_def enc_bytes_def read_array_eq res_bind_eq_Inr stream_read_Inr varint64.dec_iff)

interpretation byte_array: canonical_codec enc_bytes dec_bytes fits64
  by unfold_locales (simp_all add: dec_bytes_iff)

text \<open>\<open>seria_container\<close>: the size, then the items.\<close>

definition enc_vector :: "('a \<Rightarrow> bytes) \<Rightarrow> 'a list \<Rightarrow> bytes" where
  "enc_vector enc xs = write_varint (word_of_nat (length xs)) @ enc_items enc xs"

definition dec_vector :: "(bytes \<Rightarrow> ('a \<times> bytes) result) \<Rightarrow> bytes \<Rightarrow> ('a list \<times> bytes) result" where
  "dec_vector dec s = res_bind (read_varint_helper s) (\<lambda>(size :: u64, s1). dec_items dec (unat size) s1)"

definition valid_vector :: "('a \<Rightarrow> bool) \<Rightarrow> 'a list \<Rightarrow> bool" where
  "valid_vector valid xs \<longleftrightarrow> fits64 xs \<and> list_all valid xs"

context codec
begin

lemma vector: "codec (enc_vector enc) (dec_vector dec) (valid_vector valid)"
  by unfold_locales
    (simp add: enc_vector_def dec_vector_def valid_vector_def varint64.dec_enc dec_enc_items)

end

context canonical_codec
begin

lemma canonical_vector: "canonical_codec (enc_vector enc) (dec_vector dec) (valid_vector valid)"
proof (intro canonical_codec.intro canonical_codec_axioms.intro vector)
  fix s xs r
  assume "dec_vector dec s = Inr (xs, r)"
  then obtain n :: u64 and s1 where n: "s = write_varint n @ s1" "dec_items dec (unat n) s1 = Inr (xs, r)"
    by (auto simp: dec_vector_def res_bind_eq_Inr varint64.dec_iff)
  have x: "list_all valid xs \<and> length xs = unat n \<and> s1 = enc_items enc xs @ r"
    by (rule dec_items_canonical [OF n(2)])
  then show "valid_vector valid xs \<and> s = enc_vector enc xs @ r"
    using n(1) fits64_of_unat [of xs n] by (simp add: valid_vector_def enc_vector_def)
qed

end


section \<open>Transactions\<close>

text \<open>
  One writer, reader and validity predicate per \<open>ser_members\<close>; valid are the values whose
  arrays have the size their C++ type says.
\<close>

definition enc_coinbase_input :: "height \<Rightarrow> bytes" where
  "enc_coinbase_input h = enc_u32 h"

definition enc_key_input :: "key_input \<Rightarrow> bytes" where
  "enc_key_input k =
     enc_u64 (ki_amount k) @ enc_vector enc_u32 (ki_output_indexes k) @ ki_key_image k"

definition dec_key_input :: "bytes \<Rightarrow> (key_input \<times> bytes) result" where
  "dec_key_input s =
     res_bind (dec_u64 s) (\<lambda>(amount, s1).
     res_bind (dec_vector dec_u32 s1) (\<lambda>(indexes, s2).
     res_bind (dec_binary 32 s2) (\<lambda>(image, s3).
     Inr (\<lparr>ki_amount = amount, ki_output_indexes = indexes, ki_key_image = image\<rparr>, s3))))"

definition valid_key_input :: "key_input \<Rightarrow> bool" where
  "valid_key_input k \<longleftrightarrow> fits64 (ki_output_indexes k) \<and> pod32 (ki_key_image k)"

text \<open>\<open>SerializationTag2\<close> is \<open>Base = 0xff\<close>, \<open>Key = 0x2\<close>.\<close>

fun enc_input :: "transaction_input \<Rightarrow> bytes" where
  "enc_input (CoinbaseInput h) = 0xff # enc_coinbase_input h"
| "enc_input (KeyInput k) = 0x2 # enc_key_input k"

definition dec_input :: "bytes \<Rightarrow> (transaction_input \<times> bytes) result" where
  "dec_input s =
     res_bind (dec_binary 1 s) (\<lambda>(tag, s1).
       if tag = [0xff] then res_bind (dec_u32 s1) (\<lambda>(h, s2). Inr (CoinbaseInput h, s2))
       else if tag = [0x2] then res_bind (dec_key_input s1) (\<lambda>(k, s2). Inr (KeyInput k, s2))
       else Inl (Runtime_error ''Deserialization error - unknown input tag''))"

fun valid_input :: "transaction_input \<Rightarrow> bool" where
  "valid_input (CoinbaseInput h) \<longleftrightarrow> True"
| "valid_input (KeyInput k) \<longleftrightarrow> valid_key_input k"

fun enc_target :: "output_target \<Rightarrow> bytes" where
  "enc_target (KeyOutput key) = 0x2 # key"

definition dec_target :: "bytes \<Rightarrow> (output_target \<times> bytes) result" where
  "dec_target s =
     res_bind (dec_binary 1 s) (\<lambda>(tag, s1).
       if tag = [0x2] then res_bind (dec_binary 32 s1) (\<lambda>(key, s2). Inr (KeyOutput key, s2))
       else Inl (Runtime_error ''Deserialization error - unknown output tag''))"

definition enc_output :: "transaction_output \<Rightarrow> bytes" where
  "enc_output out = enc_u64 (to_amount out) @ enc_target (to_target out)"

definition dec_output :: "bytes \<Rightarrow> (transaction_output \<times> bytes) result" where
  "dec_output s =
     res_bind (dec_u64 s) (\<lambda>(amount, s1).
     res_bind (dec_target s1) (\<lambda>(target, s2).
     Inr (\<lparr>to_amount = amount, to_target = target\<rparr>, s2)))"

fun valid_target :: "output_target \<Rightarrow> bool" where
  "valid_target (KeyOutput key) \<longleftrightarrow> pod32 key"

definition valid_output :: "transaction_output \<Rightarrow> bool" where
  "valid_output out \<longleftrightarrow> valid_target (to_target out)"

definition enc_prefix :: "'a transaction_prefix_scheme \<Rightarrow> bytes" where
  "enc_prefix tx =
     enc_u8 (tx_version tx) @ enc_u64 (tx_unlock_time tx) @ enc_vector enc_input (tx_inputs tx) @
     enc_vector enc_output (tx_outputs tx) @ enc_bytes (tx_extra tx)"

definition dec_prefix :: "bytes \<Rightarrow> (transaction_prefix \<times> bytes) result" where
  "dec_prefix s =
     res_bind (dec_u8 s) (\<lambda>(version, s1).
     res_bind (dec_u64 s1) (\<lambda>(unlock_time, s2).
     res_bind (dec_vector dec_input s2) (\<lambda>(inputs, s3).
     res_bind (dec_vector dec_output s3) (\<lambda>(outputs, s4).
     res_bind (dec_bytes s4) (\<lambda>(extra, s5).
     Inr (\<lparr>tx_version = version, tx_unlock_time = unlock_time, tx_inputs = inputs,
           tx_outputs = outputs, tx_extra = extra\<rparr>, s5))))))"

definition valid_prefix :: "'a transaction_prefix_scheme \<Rightarrow> bool" where
  "valid_prefix tx \<longleftrightarrow> valid_vector valid_input (tx_inputs tx) \<and>
     valid_vector valid_output (tx_outputs tx) \<and> fits64 (tx_extra tx)"


text \<open>Every one of these decoders accepts exactly what its encoder writes.\<close>

lemmas [codec_iff] = u8.dec_iff u32.dec_iff u64.dec_iff hash32.dec_iff hash64.dec_iff byte_array.dec_iff
lemmas [codec_enc] = u8.dec_enc u32.dec_enc u64.dec_enc hash32.dec_enc hash64.dec_enc byte_array.dec_enc
  boolean.dec_enc

interpretation indexes: canonical_codec "enc_vector enc_u32" "dec_vector dec_u32" "valid_vector (\<lambda>_. True)"
  by (rule u32.canonical_vector)

interpretation key_input: canonical_codec enc_key_input dec_key_input valid_key_input
  by (unfold_locales,
    simp add: enc_key_input_def dec_key_input_def valid_key_input_def valid_vector_def codec_enc indexes.dec_enc,
    auto simp: enc_key_input_def dec_key_input_def valid_key_input_def valid_vector_def
      res_bind_eq_Inr indexes.dec_iff codec_iff)

lemma dec_binary_1: "dec_binary (Suc 0) s = Inr (d, r) \<longleftrightarrow> (\<exists>b. d = [b] \<and> s = b # r)"
  by (auto simp: dec_binary_def stream_read_Inr length_Suc_conv)

interpretation input: canonical_codec enc_input dec_input valid_input
proof unfold_locales
  fix x r
  assume "valid_input x"
  then show "dec_input (enc_input x @ r) = Inr (x, r)"
    by (cases x) (simp_all add: dec_input_def enc_coinbase_input_def dec_binary_def stream_read_eq
      u32.dec_enc key_input.dec_enc)
next
  fix s x r
  assume "dec_input s = Inr (x, r)"
  then show "valid_input x \<and> s = enc_input x @ r"
    by (auto simp: dec_input_def enc_coinbase_input_def res_bind_eq_Inr dec_binary_1
      u32.dec_iff key_input.dec_iff split: if_splits)
qed

interpretation target: canonical_codec enc_target dec_target valid_target
proof unfold_locales
  fix x r
  assume "valid_target x"
  then show "dec_target (enc_target x @ r) = Inr (x, r)"
    by (cases x) (simp add: dec_target_def dec_binary_def pod32_def stream_read_eq)
next
  fix s x r
  assume "dec_target s = Inr (x, r)"
  then show "valid_target x \<and> s = enc_target x @ r"
    by (auto simp: dec_target_def res_bind_eq_Inr dec_binary_1 hash32.dec_iff split: if_splits)
qed

interpretation out: canonical_codec enc_output dec_output valid_output
  by (unfold_locales, simp add: enc_output_def dec_output_def valid_output_def codec_enc target.dec_enc,
    auto simp: enc_output_def dec_output_def valid_output_def res_bind_eq_Inr u64.dec_iff target.dec_iff)

interpretation inputs: canonical_codec "enc_vector enc_input" "dec_vector dec_input" "valid_vector valid_input"
  by (rule input.canonical_vector)

interpretation outputs: canonical_codec "enc_vector enc_output" "dec_vector dec_output" "valid_vector valid_output"
  by (rule out.canonical_vector)

lemmas [codec_iff] = inputs.dec_iff outputs.dec_iff
lemmas [codec_enc] = inputs.dec_enc outputs.dec_enc

interpretation prefix: canonical_codec enc_prefix dec_prefix valid_prefix
  by (unfold_locales, simp add: enc_prefix_def dec_prefix_def valid_prefix_def codec_enc,
    auto simp: enc_prefix_def dec_prefix_def valid_prefix_def res_bind_eq_Inr codec_iff)

section \<open>Signatures\<close>

fun get_signatures_count :: "transaction_input \<Rightarrow> nat" where
  "get_signatures_count (CoinbaseInput _) = 0"
| "get_signatures_count (KeyInput k) = length (ki_output_indexes k)"

definition is_base :: "transaction_input list \<Rightarrow> bool" where
  "is_base ins \<longleftrightarrow> length ins = 1 \<and> (case ins ! 0 of CoinbaseInput _ \<Rightarrow> True | KeyInput _ \<Rightarrow> False)"

definition sig_size :: "transaction_input list \<Rightarrow> nat" where
  "sig_size ins = (if is_base ins then 0 else length ins)"

text \<open>The loop over the inputs when writing, and when reading.\<close>

fun enc_signatures :: "transaction_input list \<Rightarrow> signature list list \<Rightarrow> bytes result" where
  "enc_signatures (i # ins) (sig # sigs) =
     (if get_signatures_count i \<noteq> length sig
      then Inl (Runtime_error ''Serialization error: unexpected signatures size'')
      else res_bind (enc_signatures ins sigs) (\<lambda>rest. Inr (enc_items (\<lambda>b. b) sig @ rest)))"
| "enc_signatures _ _ = Inr []"

fun dec_signatures :: "transaction_input list \<Rightarrow> bytes \<Rightarrow> (signature list list \<times> bytes) result" where
  "dec_signatures [] s = Inr ([], s)"
| "dec_signatures (i # ins) s =
     res_bind (dec_items (dec_binary 64) (get_signatures_count i) s) (\<lambda>(sig, s1).
     res_bind (dec_signatures ins s1) (\<lambda>(sigs, s2). Inr (sig # sigs, s2)))"

definition enc_transaction :: "transaction \<Rightarrow> bytes result" where
  "enc_transaction tx = (let n = sig_size (tx_inputs tx) in
     if n \<noteq> 0 \<and> length (tx_inputs tx) \<noteq> length (tx_signatures tx)
     then Inl (Runtime_error ''Serialization error: unexpected signatures size'')
     else res_bind (enc_signatures (take n (tx_inputs tx)) (tx_signatures tx)) (\<lambda>sigs.
       Inr (enc_prefix tx @ sigs)))"

definition with_signatures :: "transaction_prefix \<Rightarrow> signature list list \<Rightarrow> transaction" where
  "with_signatures p sigs = transaction_prefix.extend p (transaction.fields sigs)"

definition dec_transaction :: "bytes \<Rightarrow> (transaction \<times> bytes) result" where
  "dec_transaction s =
     res_bind (dec_prefix s) (\<lambda>(p, s1).
     res_bind (dec_signatures (take (sig_size (tx_inputs p)) (tx_inputs p)) s1) (\<lambda>(sigs, s2).
     Inr (with_signatures p sigs, s2)))"

definition valid_transaction :: "transaction \<Rightarrow> bool" where
  "valid_transaction tx \<longleftrightarrow> valid_prefix tx \<and>
     map length (tx_signatures tx) = map get_signatures_count (take (sig_size (tx_inputs tx)) (tx_inputs tx)) \<and>
     list_all (list_all pod64) (tx_signatures tx)"

text \<open>The total writer behind \<open>enc_transaction\<close>: what it writes when it does not raise.\<close>

definition signature_bytes :: "signature list list \<Rightarrow> bytes" where
  "signature_bytes sigs = enc_items (enc_items (\<lambda>b. b)) sigs"

lemma enc_signatures_Inr:
  assumes "length sigs = length ins"
  shows "enc_signatures ins sigs = Inr b \<longleftrightarrow>
    map length sigs = map get_signatures_count ins \<and> b = signature_bytes sigs"
  using assms
proof (induction ins sigs arbitrary: b rule: enc_signatures.induct)
  case (1 i ins sig sigs)
  then show ?case by (auto simp: res_bind_eq_Inr signature_bytes_def)
qed (auto simp: signature_bytes_def)

lemma dec_signatures_iff:
  "dec_signatures ins s = Inr (sigs, r) \<longleftrightarrow>
     map length sigs = map get_signatures_count ins \<and> list_all (list_all pod64) sigs \<and>
     s = signature_bytes sigs @ r"
proof (induction ins arbitrary: s sigs)
  case Nil
  then show ?case by (auto simp: signature_bytes_def)
next
  case (Cons i ins)
  have "dec_items (dec_binary 64) n s = Inr (xs, t) \<longleftrightarrow>
      length xs = n \<and> list_all pod64 xs \<and> s = enc_items (\<lambda>b. b) xs @ t" for n xs t
    using hash64.dec_items_canonical [of n s xs t] hash64.dec_enc_items [of xs t] by auto
  with Cons.IH show ?case
    by (cases sigs) (auto simp: res_bind_eq_Inr signature_bytes_def)
qed

lemma sig_size_le: "sig_size ins \<le> length ins"
  by (simp add: sig_size_def)

lemma with_signatures_sel [simp]:
  "tx_version (with_signatures p sigs) = tx_version p"
  "tx_unlock_time (with_signatures p sigs) = tx_unlock_time p"
  "tx_inputs (with_signatures p sigs) = tx_inputs p"
  "tx_outputs (with_signatures p sigs) = tx_outputs p"
  "tx_extra (with_signatures p sigs) = tx_extra p"
  "tx_signatures (with_signatures p sigs) = sigs"
  by (simp_all add: with_signatures_def transaction_prefix.defs transaction.defs)

lemma prefix_congs:
  "enc_prefix (with_signatures p sigs) = enc_prefix p"
  "valid_prefix (with_signatures p sigs) = valid_prefix p"
  by (simp_all add: enc_prefix_def valid_prefix_def)

lemma with_signatures_split:
  obtains p where "tx = with_signatures p (tx_signatures tx)"
proof
  show "tx = with_signatures (transaction_prefix.truncate tx) (tx_signatures tx)"
    by (cases tx) (simp add: with_signatures_def transaction_prefix.defs transaction.defs)
qed

lemma with_signatures_inj:
  "with_signatures p sigs = with_signatures q sigs' \<longleftrightarrow> p = q \<and> sigs = sigs'"
  by (cases p; cases q) (auto simp: with_signatures_def transaction_prefix.defs transaction.defs)

lemma enc_transaction_valid:
  assumes "valid_transaction tx"
  shows "enc_transaction tx = Inr (enc_prefix tx @ signature_bytes (tx_signatures tx))"
proof -
  define n where "n = sig_size (tx_inputs tx)"
  have m: "map length (tx_signatures tx) = map get_signatures_count (take n (tx_inputs tx))"
    using assms by (simp add: valid_transaction_def n_def)
  then have l: "length (tx_signatures tx) = length (take n (tx_inputs tx))" by (metis length_map)
  have e: "enc_signatures (take n (tx_inputs tx)) (tx_signatures tx) = Inr (signature_bytes (tx_signatures tx))"
    using enc_signatures_Inr [OF l] m by blast
  have "take n (tx_inputs tx) = tx_inputs tx" if "n \<noteq> 0"
    using that by (simp add: n_def sig_size_def split: if_splits)
  with l have "\<not> (n \<noteq> 0 \<and> length (tx_inputs tx) \<noteq> length (tx_signatures tx))"
    by metis
  then show ?thesis
    unfolding enc_transaction_def Let_def n_def [symmetric] e by (simp only: if_False res_bind_Inr)
qed

lemma dec_transaction_iff:
  "dec_transaction s = Inr (tx, r) \<longleftrightarrow>
     valid_transaction tx \<and> s = enc_prefix tx @ signature_bytes (tx_signatures tx) @ r"
proof -
  obtain p where tx: "tx = with_signatures p (tx_signatures tx)" by (rule with_signatures_split)
  have "dec_transaction s = Inr (tx, r) \<longleftrightarrow>
    (\<exists>q s1 sigs. dec_prefix s = Inr (q, s1) \<and>
       dec_signatures (take (sig_size (tx_inputs q)) (tx_inputs q)) s1 = Inr (sigs, r) \<and>
       tx = with_signatures q sigs)"
    by (auto simp: dec_transaction_def res_bind_eq_Inr)
  also have "\<dots> \<longleftrightarrow> (\<exists>s1. dec_prefix s = Inr (p, s1) \<and>
       dec_signatures (take (sig_size (tx_inputs p)) (tx_inputs p)) s1 = Inr (tx_signatures tx, r))"
    by (metis tx with_signatures_inj)
  also have "\<dots> \<longleftrightarrow> valid_transaction tx \<and> s = enc_prefix tx @ signature_bytes (tx_signatures tx) @ r"
    using prefix_congs [of p "tx_signatures tx"] with_signatures_sel(3) [of p "tx_signatures tx"]
    by (auto simp: prefix.dec_iff dec_signatures_iff valid_transaction_def simp flip: tx)
  finally show ?thesis .
qed

interpretation transaction: canonical_codec
  "\<lambda>tx. enc_prefix tx @ signature_bytes (tx_signatures tx)" dec_transaction valid_transaction
  by unfold_locales (simp_all add: dec_transaction_iff)

section \<open>Other members\<close>

text \<open>
  \<open>BaseTransaction\<close>, the coinbase of the other chain in a merge-mined block: its signatures
  are one ignored number.
\<close>

definition enc_base_transaction :: "transaction_prefix \<Rightarrow> bytes" where
  "enc_base_transaction tx = enc_prefix tx @ (if tx_version tx \<ge> 2 then enc_u64 0 else [])"

definition dec_base_transaction :: "bytes \<Rightarrow> (transaction_prefix \<times> bytes) result" where
  "dec_base_transaction s =
     res_bind (dec_prefix s) (\<lambda>(tx, s1).
       if tx_version tx \<ge> 2 then res_bind (dec_u64 s1) (\<lambda>(ignored, s2). Inr (tx, s2))
       else Inr (tx, s1))"

interpretation base_transaction: codec enc_base_transaction dec_base_transaction valid_prefix
  by unfold_locales (simp add: enc_base_transaction_def dec_base_transaction_def prefix.dec_enc codec_enc)

definition enc_unp :: "unp \<Rightarrow> bytes" where
  "enc_unp v = enc_u64 (unp_unlock_time v) @ unp_public_key v @ enc_u32 (unp_height v) @ enc_bool (unp_spent v)"

definition dec_unp :: "bytes \<Rightarrow> (unp \<times> bytes) result" where
  "dec_unp s =
     res_bind (dec_u64 s) (\<lambda>(unlock_time, s1).
     res_bind (dec_binary 32 s1) (\<lambda>(pk, s2).
     res_bind (dec_u32 s2) (\<lambda>(h, s3).
     res_bind (dec_bool s3) (\<lambda>(spent, s4).
     Inr (\<lparr>unp_unlock_time = unlock_time, unp_public_key = pk, unp_height = h, unp_spent = spent\<rparr>, s4)))))"

definition valid_unp :: "unp \<Rightarrow> bool" where
  "valid_unp v \<longleftrightarrow> pod32 (unp_public_key v)"

interpretation unp: codec enc_unp dec_unp valid_unp
  by unfold_locales (simp add: enc_unp_def dec_unp_def valid_unp_def codec_enc)

interpretation txs: canonical_codec "enc_vector enc_bytes" "dec_vector dec_bytes" "valid_vector fits64"
  by (rule byte_array.canonical_vector)

definition enc_raw_block :: "raw_block \<Rightarrow> bytes" where
  "enc_raw_block rb = enc_bytes (rb_block rb) @ enc_vector enc_bytes (rb_transactions rb)"

definition dec_raw_block :: "bytes \<Rightarrow> (raw_block \<times> bytes) result" where
  "dec_raw_block s =
     res_bind (dec_bytes s) (\<lambda>(b, s1).
     res_bind (dec_vector dec_bytes s1) (\<lambda>(ts, s2).
     Inr (\<lparr>rb_block = b, rb_transactions = ts\<rparr>, s2)))"

definition valid_raw_block :: "raw_block \<Rightarrow> bool" where
  "valid_raw_block rb \<longleftrightarrow> fits64 (rb_block rb) \<and> valid_vector fits64 (rb_transactions rb)"

interpretation raw_block: canonical_codec enc_raw_block dec_raw_block valid_raw_block
  by (unfold_locales, simp add: enc_raw_block_def dec_raw_block_def valid_raw_block_def codec_enc txs.dec_enc,
    auto simp: enc_raw_block_def dec_raw_block_def valid_raw_block_def res_bind_eq_Inr codec_iff txs.dec_iff)

text \<open>\<open>api::BlockHeader\<close>, as kept in the database.\<close>

definition enc_header_info :: "header_info \<Rightarrow> bytes" where
  "enc_header_info h =
     enc_u8 (hi_major_version h) @ enc_u8 (hi_minor_version h) @ enc_u32 (hi_timestamp h) @
     hi_previous_block_hash h @ enc_u32 (hi_nonce h) @ enc_u32 (hi_height h) @
     hi_hash h @ enc_u64 (hi_reward h) @ enc_u64 (hi_cumulative_difficulty h) @
     enc_u64 (hi_difficulty h) @ enc_u64 (hi_base_reward h) @ enc_u32 (hi_block_size h) @
     enc_u32 (hi_transactions_cumulative_size h) @ enc_u64 (hi_already_generated_coins h) @ enc_u64 (hi_already_generated_transactions h) @
     enc_u32 (hi_size_median h) @ enc_u32 (hi_effective_size_median h) @ enc_u32 (hi_timestamp_median h) @
     enc_u64 (hi_total_fee_amount h)"

definition dec_header_info :: "bytes \<Rightarrow> (header_info \<times> bytes) result" where
  "dec_header_info s =
     res_bind (dec_u8 s) (\<lambda>(major_version, s1).
     res_bind (dec_u8 s1) (\<lambda>(minor_version, s2).
     res_bind (dec_u32 s2) (\<lambda>(timestamp, s3).
     res_bind (dec_binary 32 s3) (\<lambda>(previous_block_hash, s4).
     res_bind (dec_u32 s4) (\<lambda>(nonce, s5).
     res_bind (dec_u32 s5) (\<lambda>(height, s6).
     res_bind (dec_binary 32 s6) (\<lambda>(hash, s7).
     res_bind (dec_u64 s7) (\<lambda>(reward, s8).
     res_bind (dec_u64 s8) (\<lambda>(cumulative_difficulty, s9).
     res_bind (dec_u64 s9) (\<lambda>(difficulty, s10).
     res_bind (dec_u64 s10) (\<lambda>(base_reward, s11).
     res_bind (dec_u32 s11) (\<lambda>(block_size, s12).
     res_bind (dec_u32 s12) (\<lambda>(transactions_cumulative_size, s13).
     res_bind (dec_u64 s13) (\<lambda>(already_generated_coins, s14).
     res_bind (dec_u64 s14) (\<lambda>(already_generated_transactions, s15).
     res_bind (dec_u32 s15) (\<lambda>(size_median, s16).
     res_bind (dec_u32 s16) (\<lambda>(effective_size_median, s17).
     res_bind (dec_u32 s17) (\<lambda>(timestamp_median, s18).
     res_bind (dec_u64 s18) (\<lambda>(total_fee_amount, s19).
     Inr (\<lparr>hi_major_version = major_version, hi_minor_version = minor_version, hi_timestamp =
           timestamp, hi_previous_block_hash = previous_block_hash, hi_nonce = nonce, hi_height
           = height, hi_hash = hash, hi_reward = reward, hi_cumulative_difficulty =
           cumulative_difficulty, hi_difficulty = difficulty, hi_base_reward = base_reward,
           hi_block_size = block_size, hi_transactions_cumulative_size =
           transactions_cumulative_size, hi_already_generated_coins = already_generated_coins,
           hi_already_generated_transactions = already_generated_transactions, hi_size_median =
           size_median, hi_effective_size_median = effective_size_median, hi_timestamp_median =
           timestamp_median, hi_total_fee_amount = total_fee_amount\<rparr>, s19))))))))))))))))))))"

definition valid_header_info :: "header_info \<Rightarrow> bool" where
  "valid_header_info h \<longleftrightarrow> pod32 (hi_previous_block_hash h) \<and> pod32 (hi_hash h)"

lemma dec_enc_header_info:
  "valid_header_info h \<Longrightarrow> dec_header_info (enc_header_info h @ r) = Inr (h, r)"
  by (simp add: enc_header_info_def dec_header_info_def valid_header_info_def codec_enc)

lemma dec_header_info_canonical:
  "dec_header_info s = Inr (h, r) \<Longrightarrow> valid_header_info h \<and> s = enc_header_info h @ r"
  unfolding dec_header_info_def
  by (clarsimp simp: res_bind_eq_Inr codec_iff enc_header_info_def valid_header_info_def)

interpretation header_info: canonical_codec enc_header_info dec_header_info valid_header_info
  by unfold_locales (simp_all add: dec_enc_header_info dec_header_info_canonical)

text \<open>\<open>APITransactionPos\<close> of \<open>Core/BlockChain.cpp\<close>: where a transaction is in its block.\<close>

record transaction_pos =
  tp_height :: height
  tp_offset :: u32
  tp_size :: u32
  tp_index :: u32

definition enc_transaction_pos :: "transaction_pos \<Rightarrow> bytes" where
  "enc_transaction_pos v =
     enc_u32 (tp_height v) @ enc_u32 (tp_offset v) @ enc_u32 (tp_size v) @ enc_u32 (tp_index v)"

definition dec_transaction_pos :: "bytes \<Rightarrow> (transaction_pos \<times> bytes) result" where
  "dec_transaction_pos s =
     res_bind (dec_u32 s) (\<lambda>(h, s1).
     res_bind (dec_u32 s1) (\<lambda>(off, s2).
     res_bind (dec_u32 s2) (\<lambda>(sz, s3).
     res_bind (dec_u32 s3) (\<lambda>(i, s4).
     Inr (\<lparr>tp_height = h, tp_offset = off, tp_size = sz, tp_index = i\<rparr>, s4)))))"

interpretation transaction_pos: canonical_codec enc_transaction_pos dec_transaction_pos "\<lambda>_. True"
  by (unfold_locales, simp add: enc_transaction_pos_def dec_transaction_pos_def codec_enc,
    auto simp: enc_transaction_pos_def dec_transaction_pos_def res_bind_eq_Inr codec_iff)

section \<open>Whole values\<close>

text \<open>\<open>from_binary\<close> and \<open>to_binary\<close>: a value and nothing after it.\<close>

definition from_binary :: "(bytes \<Rightarrow> ('a \<times> bytes) result) \<Rightarrow> bytes \<Rightarrow> 'a result" where
  "from_binary dec blob = res_bind (dec blob) (\<lambda>(x, rest).
     if rest \<noteq> [] then Inl (Runtime_error ''Excess data in from_binary'') else Inr x)"

definition to_binary :: "('a \<Rightarrow> bytes) \<Rightarrow> 'a \<Rightarrow> bytes" where
  "to_binary enc x = enc x"

context codec
begin

lemma from_to_binary: "valid x \<Longrightarrow> from_binary dec (to_binary enc x) = Inr x"
  by (simp add: from_binary_def to_binary_def dec_enc_Nil)

end

context canonical_codec
begin

lemma from_binary_iff: "from_binary dec s = Inr x \<longleftrightarrow> valid x \<and> s = to_binary enc x"
  by (auto simp: from_binary_def to_binary_def res_bind_eq_Inr dec_iff split: if_splits)

end

section \<open>Properties\<close>

text \<open>
  C1: a byte array parses as a transaction exactly when it is what the writer produces for
  that transaction, so a transaction has one binary form and its hash is well defined.
\<close>

theorem transaction_binary_canonical:
  "from_binary dec_transaction s = Inr tx \<longleftrightarrow> valid_transaction tx \<and> enc_transaction tx = Inr s"
  using enc_transaction_valid [of tx]
  by (auto simp: transaction.from_binary_iff to_binary_def)

text \<open>
  A block header that was stored reads back as the same header, and the stored bytes
  are the only ones that do.
\<close>

theorem header_binary_canonical:
  "from_binary dec_header_info s = Inr h \<longleftrightarrow> valid_header_info h \<and> s = to_binary enc_header_info h"
  by (rule header_info.from_binary_iff)

end
