(* ===== verification/Currency.thy ===== *)
theory Currency
  imports Int_Util String_Tools Binary_Seria "HOL-Library.Signed_Division"
begin

text \<open>
  \<open>Core/Currency\<close>: the parameters of the coin (\<open>CryptoNoteConfig.hpp\<close>), the block
  versions and checkpoints, the emission and the block reward, the two difficulty algorithms
  and the unlock rules.  The hash of the genesis block is an argument: it needs the hash
  function, which is a parameter of the development.
\<close>

section \<open>Parameters\<close>

record currency =
  cy_is_testnet :: bool
  cy_genesis_block_template :: block_template
  cy_genesis_block_hash :: hash
  cy_max_block_height :: height
  cy_max_block_blob_size :: u32
  cy_max_tx_size :: u32
  cy_public_address_base58_prefix :: u64
  cy_mined_money_unlock_window :: height
  cy_timestamp_check_window :: height
  cy_block_future_time_limit :: timestamp
  cy_money_supply :: amount
  cy_emission_speed_factor :: nat
  cy_reward_blocks_window :: height
  cy_block_granted_full_reward_zone :: u32
  cy_miner_tx_blob_reserved_size :: u32
  cy_number_of_decimal_places :: nat
  cy_minimum_fee :: amount
  cy_default_dust_threshold :: amount
  cy_difficulty_target :: timestamp
  cy_difficulty_window :: height
  cy_difficulty_lag :: height
  cy_difficulty_cut :: nat
  cy_max_block_size_initial :: u64
  cy_max_block_size_growth_speed_numerator :: u64
  cy_max_block_size_growth_speed_denominator :: u64
  cy_locked_tx_allowed_delta_seconds :: timestamp
  cy_locked_tx_allowed_delta_blocks :: height
  cy_upgrade_height_v2 :: height
  cy_upgrade_height_v3 :: height
  cy_upgrade_height_v4 :: height
  cy_current_transaction_version :: u8
  cy_hardfork_v1_height :: height
  cy_hardfork_v2_height :: height
  cy_hardfork_v3_height :: height
  cy_timestamp_check_window_v2 :: height
  cy_block_future_time_limit_v2 :: timestamp
  cy_difficulty_window_v2 :: height
  cy_difficulty_blocks_count_v2 :: height

definition DIFFICULTY_TARGET :: u32 where
  "DIFFICULTY_TARGET = 60"

definition DIFFICULTY_SCATTER_V2 :: u64 where
  "DIFFICULTY_SCATTER_V2 = 32"

definition HARDFORK_V2_HEIGHT :: u32 where
  "HARDFORK_V2_HEIGHT = 7080"

text \<open>The constructor; the genesis block is built by \<open>make_genesis\<close> below.\<close>

definition make_currency :: "bool \<Rightarrow> block_template \<Rightarrow> hash \<Rightarrow> currency" where
  "make_currency is_testnet genesis genesis_hash = (let target = if is_testnet then 1 else DIFFICULTY_TARGET in
   \<lparr>cy_is_testnet = is_testnet,
    cy_genesis_block_template = genesis,
    cy_genesis_block_hash = genesis_hash,
    cy_max_block_height = 500000000,
    cy_max_block_blob_size = 500000000,
    cy_max_tx_size = 1000000000,
    cy_public_address_base58_prefix = 126,
    cy_mined_money_unlock_window = 10,
    cy_timestamp_check_window = 60,
    cy_block_future_time_limit = 60 * 60 * 2,
    cy_money_supply = - 1,
    cy_emission_speed_factor = 16,
    cy_reward_blocks_window = 100,
    cy_block_granted_full_reward_zone = 100000,
    cy_miner_tx_blob_reserved_size = 600,
    cy_number_of_decimal_places = 10,
    cy_minimum_fee = 1000000,
    cy_default_dust_threshold = 1000000,
    cy_difficulty_target = target,
    cy_difficulty_window = 24 * 60 * 60 div target,
    cy_difficulty_lag = 15,
    cy_difficulty_cut = 60,
    cy_max_block_size_initial = 20 * 1024,
    cy_max_block_size_growth_speed_numerator = 100 * 1024,
    cy_max_block_size_growth_speed_denominator = ucast (365 * 24 * 60 * 60 div target),
    cy_locked_tx_allowed_delta_seconds = target * 1,
    cy_locked_tx_allowed_delta_blocks = 1,
    cy_upgrade_height_v2 = (if is_testnet then 0 else 1),
    cy_upgrade_height_v3 = (if is_testnet then - 1 else 2),
    cy_upgrade_height_v4 = HARDFORK_V2_HEIGHT,
    cy_current_transaction_version = 1,
    cy_hardfork_v1_height = 7070,
    cy_hardfork_v2_height = HARDFORK_V2_HEIGHT,
    cy_hardfork_v3_height = 4294967294,
    cy_timestamp_check_window_v2 = 11,
    cy_block_future_time_limit_v2 = DIFFICULTY_TARGET * 3,
    cy_difficulty_window_v2 = 60,
    cy_difficulty_blocks_count_v2 = 60 + 1\<rparr>)"

definition genesis_coinbase_tx_hex :: string where
  "genesis_coinbase_tx_hex = ''010a01ff0001ffffffffffff3f029b2e4c0281c0b02e7c53291a94d1d0cbff8883f8024f5142ee494ffbbd088071210152bfaef5e5681a5d7eaeaca878d53ed2a80445e4f6adc5550fc4b4b0e69b765a''"

definition empty_prefix :: transaction_prefix where
  "empty_prefix = \<lparr>tx_version = 0, tx_unlock_time = 0, tx_inputs = [], tx_outputs = [], tx_extra = []\<rparr>"

definition empty_parent_block :: parent_block where
  "empty_parent_block = \<lparr>pb_major_version = 0, pb_minor_version = 0, pb_previous_block_hash = null_hash,
     pb_transaction_count = 0, pb_base_transaction_branch = [], pb_base_transaction = empty_prefix,
     pb_blockchain_branch = []\<rparr>"

definition empty_block_template :: block_template where
  "empty_block_template = \<lparr>bh_major_version = 0, bh_minor_version = 0, bh_nonce = 0, bh_timestamp = 0,
     bh_previous_block_hash = null_hash, bt_parent_block = empty_parent_block,
     bt_base_transaction = with_signatures empty_prefix [], bt_transaction_hashes = []\<rparr>"

definition make_genesis :: "bool \<Rightarrow> block_template result" where
  "make_genesis is_testnet =
     (let (r, miner_tx_blob) = from_hex_append genesis_coinbase_tx_hex [] in
      res_bind (from_binary dec_transaction miner_tx_blob) (\<lambda>tx.
        if \<not> r then Inl (Runtime_error ''Currency failed to parse coinbase tx from hard coded blob'')
        else Inr \<lparr>bh_major_version = 1, bh_minor_version = 0,
          bh_nonce = (if is_testnet then 70 + 1 else 70), bh_timestamp = 0,
          bh_previous_block_hash = null_hash, bt_parent_block = empty_parent_block,
          bt_base_transaction = tx, bt_transaction_hashes = []\<rparr>))"

section \<open>Versions and checkpoints\<close>

definition get_block_major_version_for_height :: "currency \<Rightarrow> height \<Rightarrow> u8" where
  "get_block_major_version_for_height c height =
     (if height \<le> cy_upgrade_height_v2 c then 1
      else if height > cy_upgrade_height_v2 c \<and> height \<le> cy_upgrade_height_v3 c then 2
      else if height > cy_upgrade_height_v3 c \<and> height \<le> cy_upgrade_height_v4 c then 3
      else 4)"

definition block_granted_full_reward_zone_by_block_version :: "currency \<Rightarrow> u8 \<Rightarrow> u32" where
  "block_granted_full_reward_zone_by_block_version c block_major_version =
     (if block_major_version \<ge> 3 then cy_block_granted_full_reward_zone c
      else if block_major_version = 2 then 20000
      else 10000)"

definition CHECKPOINTS :: "(u32 \<times> string) list" where
  "CHECKPOINTS =
    [(7100, ''57319d5fda1e7c573abaa9b75bffbb02ead36b6f9a84fd9557cdfa22de071f16''),
     (15000, ''76f1ac86b83c4faedd9fd6b16789e59a477ceb7faa0188aa7a48cd1b7032f905''),
     (20000, ''750b7d1699fc8b770133863205bf5460e3278d47e306430596935dd98c793a0e''),
     (30000, ''9eeacb09ea68f9d40570dffefba8fe385bccd605e9e1fda45dff937027b3c336''),
     (80000, ''10274d477f19178dde88d4f199240f090273b4aadcb5f6f24fbfde3ec4cdc28d'')]"

definition is_in_sw_checkpoint_zone :: "currency \<Rightarrow> height \<Rightarrow> bool" where
  "is_in_sw_checkpoint_zone c index =
     (if cy_is_testnet c then index = 0 else index \<le> fst (CHECKPOINTS ! (length CHECKPOINTS - 1)))"

text \<open>\<open>check_sw_checkpoint\<close>: the result, and \<open>is_sw_checkpoint\<close>.\<close>

definition check_sw_checkpoint :: "currency \<Rightarrow> height \<Rightarrow> hash \<Rightarrow> bool \<times> bool" where
  "check_sw_checkpoint c index h =
     (if cy_is_testnet c \<or> index = 0
      then ((if index = 0 then h = cy_genesis_block_hash c else True), index = 0)
      else (case dropWhile (\<lambda>da. fst da < index) CHECKPOINTS of
          [] \<Rightarrow> (True, False)
        | it # _ \<Rightarrow> if fst it \<noteq> index then (True, False) else (to_hex h = snd it, True)))"

section \<open>Emission\<close>

definition calc_base_reward :: "currency \<Rightarrow> u8 \<Rightarrow> amount \<Rightarrow> amount" where
  "calc_base_reward c block_major_version already_generated_coins =
     (let base_reward = drop_bit (cy_emission_speed_factor c) (cy_money_supply c - already_generated_coins) in
      if block_major_version \<ge> 4 \<and> base_reward \<ge> DIFFICULTY_SCATTER_V2
      then base_reward div DIFFICULTY_SCATTER_V2 else base_reward)"

definition get_penalized_amount :: "amount \<Rightarrow> u64 \<Rightarrow> u64 \<Rightarrow> amount" where
  "get_penalized_amount amount median_size current_block_size =
     (if amount = 0 then 0
      else if current_block_size \<le> median_size then amount
      else
        let (product_lo, product_hi) =
              mul128 amount (current_block_size * (2 * median_size - current_block_size));
            (hi, lo, _) = div128_32 product_hi product_lo (ucast median_size);
            (hi, lo, _) = div128_32 hi lo (ucast median_size)
        in lo)"

text \<open>\<open>get_block_reward\<close>: the reward and the change of the emission.\<close>

definition get_block_reward :: "currency \<Rightarrow> u8 \<Rightarrow> u64 \<Rightarrow> u64 \<Rightarrow> amount \<Rightarrow> amount \<Rightarrow> amount \<times> u64" where
  "get_block_reward c block_major_version effective_median_size current_block_size already_generated_coins fee =
     (let base_reward = calc_base_reward c block_major_version already_generated_coins;
          penalized_base_reward = get_penalized_amount base_reward effective_median_size current_block_size;
          penalized_fee = (if block_major_version \<ge> 2
            then get_penalized_amount fee effective_median_size current_block_size else fee)
      in (penalized_base_reward + penalized_fee, penalized_base_reward - (fee - penalized_fee)))"

definition max_block_cumulative_size :: "currency \<Rightarrow> height \<Rightarrow> u32" where
  "max_block_cumulative_size c height =
     ucast (cy_max_block_size_initial c +
       (ucast height * cy_max_block_size_growth_speed_numerator c) div
         cy_max_block_size_growth_speed_denominator c)"

definition max_transaction_allowed_size :: "currency \<Rightarrow> u32 \<Rightarrow> u32" where
  "max_transaction_allowed_size c effective_block_size_median =
     min (cy_max_tx_size c) (effective_block_size_median * 2 - cy_miner_tx_blob_reserved_size c)"

section \<open>Unlocking\<close>

definition is_transaction_spend_time_unlocked ::
  "currency \<Rightarrow> unlock_moment \<Rightarrow> height \<Rightarrow> timestamp \<Rightarrow> bool" where
  "is_transaction_spend_time_unlocked c unlock_time block_index block_time =
     (if unlock_time < ucast (cy_max_block_height c)
      then ucast (block_index + cy_locked_tx_allowed_delta_blocks c) \<ge> unlock_time
      else ucast (block_time + cy_locked_tx_allowed_delta_seconds c) \<ge> unlock_time)"

definition get_timestamp_check_window :: "currency \<Rightarrow> height \<Rightarrow> height" where
  "get_timestamp_check_window c height =
     (if height \<ge> cy_hardfork_v2_height c then cy_timestamp_check_window_v2 c else cy_timestamp_check_window c)"

definition get_block_future_time_limit :: "currency \<Rightarrow> height \<Rightarrow> timestamp" where
  "get_block_future_time_limit c height =
     (if height \<ge> cy_hardfork_v2_height c then cy_block_future_time_limit_v2 c else cy_block_future_time_limit c)"

definition get_difficulty_blocks_count :: "currency \<Rightarrow> height \<Rightarrow> height" where
  "get_difficulty_blocks_count c height =
     (if height \<le> cy_hardfork_v2_height c then cy_difficulty_window c + cy_difficulty_lag c
      else cy_difficulty_blocks_count_v2 c)"

section \<open>Difficulty\<close>

text \<open>
  The part of a sorted window that is used: \<open>cutBegin\<close> and \<open>cutEnd\<close>.
\<close>

definition difficulty_cut_range :: "nat \<Rightarrow> nat \<Rightarrow> nat \<Rightarrow> nat \<times> nat" where
  "difficulty_cut_range window dcut len =
     (if len \<le> window - 2 * dcut then (0, len)
      else let b = (len - (window - 2 * dcut) + 1) div 2 in (b, b + (window - 2 * dcut)))"

text \<open>
  \<open>timeSpan\<close> and \<open>low\<close>, the work of the window times the target; \<open>None\<close> where the code
  returns 0 because the product is too big.
\<close>

definition window_work :: "currency \<Rightarrow> timestamp list \<Rightarrow> difficulty list \<Rightarrow> nat \<times> nat \<Rightarrow> (u64 \<times> u32) option" where
  "window_work c ts cds cutr =
     (let s = sort ts;
          span = s ! (snd cutr - 1) - s ! fst cutr;
          time_span = (if span = 0 then 1 else span);
          total_work = cds ! (snd cutr - 1) - cds ! fst cutr;
          (low, high) = mul128 total_work (ucast (cy_difficulty_target c))
      in if high \<noteq> 0 \<or> - 1 - low < ucast (time_span - 1) then None else Some (low, time_span))"

definition at_least_100 :: "difficulty \<Rightarrow> difficulty" where
  "at_least_100 next_diff = (if next_diff \<le> 100 then 100 else next_diff)"

definition next_difficulty_v1 :: "currency \<Rightarrow> height \<Rightarrow> timestamp list \<Rightarrow> difficulty list \<Rightarrow> difficulty" where
  "next_difficulty_v1 c block_index timestamps_o cds_o =
     (let w = unat (cy_difficulty_window c);
          dcut = cy_difficulty_cut c;
          timestamps = (if length timestamps_o > w then take w timestamps_o else timestamps_o);
          cds = (if length timestamps_o > w then take w cds_o else cds_o)
      in
      if length timestamps \<le> 1 then 1
      else case window_work c timestamps cds (difficulty_cut_range w dcut (length timestamps)) of
        None \<Rightarrow> 0
      | Some (low, time_span) \<Rightarrow>
          if block_index \<ge> cy_hardfork_v1_height c then
            (let t = (if 17 > length timestamps then length timestamps else 17);
                 timestamps_tmp = drop (length timestamps_o - t) timestamps_o;
                 cds_tmp = drop (length cds_o - t) cds_o
             in if length timestamps_tmp \<le> 1 then 1
                else case window_work c timestamps_tmp cds_tmp (difficulty_cut_range 17 0 (length timestamps_tmp)) of
                  None \<Rightarrow> 0
                | Some (low, time_span) \<Rightarrow> at_least_100 (low div ucast time_span))
          else (low + ucast time_span - 1) div ucast time_span)"

text \<open>
  The second algorithm weighs the solve times of the last blocks.  Its sums are signed and
  small; the quotient is computed in unsigned arithmetic, and dividing by a weighted sum of 0
  is a trap, written here as an error.
\<close>

definition solve_time :: "currency \<Rightarrow> timestamp list \<Rightarrow> nat \<Rightarrow> int" where
  "solve_time c timestamps i =
     max (- uint (cy_block_future_time_limit_v2 c))
       (min (uint (timestamps ! i) - uint (timestamps ! (i - 1))) (6 * uint (cy_difficulty_target c)))"

text \<open>The loop: \<open>L\<close> and \<open>sum_3_ST\<close> after the steps \<open>1 \<dots> i\<close>.\<close>

fun solve_time_sums :: "currency \<Rightarrow> timestamp list \<Rightarrow> nat \<Rightarrow> int \<times> int" where
  "solve_time_sums c timestamps 0 = (0, 0)"
| "solve_time_sums c timestamps (Suc i) =
     (let (L, sum3) = solve_time_sums c timestamps i;
          st = solve_time c timestamps (Suc i)
      in (L + st * int (Suc i),
          if int (Suc i) > uint (cy_difficulty_window_v2 c) - 3 then sum3 + st else sum3))"

definition next_difficulty_v2 :: "currency \<Rightarrow> timestamp list \<Rightarrow> difficulty list \<Rightarrow> difficulty result" where
  "next_difficulty_v2 c timestamps cds =
     (let T = uint (cy_difficulty_target c);
          N = unat (cy_difficulty_window_v2 c)
      in
      if length timestamps \<le> N then Inr 1000
      else
        let (L, sum3) = solve_time_sums c timestamps N;
            divisor = word_of_int (100 * 2 * L) :: u64
        in
        if divisor = 0 then Inl (Runtime_error ''division by zero'')
        else
          let next_D = (cds ! N - cds ! 0) * word_of_int T * word_of_int (int N + 1) * 99 div divisor;
              prev_D = cds ! N - cds ! (N - 1)
          in if sum3 < (8 * T) div 10 then Inr (word_of_int ((sint prev_D * 110) sdiv 100))
             else Inr next_D)"

definition next_difficulty :: "currency \<Rightarrow> height \<Rightarrow> timestamp list \<Rightarrow> difficulty list \<Rightarrow> difficulty result" where
  "next_difficulty c block_index timestamps cds =
     (if block_index \<le> cy_hardfork_v2_height c then Inr (next_difficulty_v1 c block_index timestamps cds)
      else next_difficulty_v2 c timestamps cds)"

section \<open>Penalty and emission\<close>

lemma square_bound: "(m :: nat) < s \<Longrightarrow> s \<le> 2 * m \<Longrightarrow> s * (2 * m - s) < m * m"
proof -
  assume "m < s" "s \<le> 2 * m"
  then obtain d where d: "s = m + d" "0 < d" "d \<le> m"
    by (metis add_le_cancel_left less_imp_add_positive mult_2)
  then obtain e where e: "m = d + e" using le_Suc_ex by blast
  have "s * (2 * m - s) = (2 * d + e) * e" by (simp add: d e)
  also have "\<dots> < (d + e) * (d + e)" using d(2) by (simp add: algebra_simps)
  finally show ?thesis by (simp only: e)
qed

lemma div_unique: "q * m + r = x \<Longrightarrow> r < m \<Longrightarrow> x div m = (q :: nat)"
  by auto

text \<open>The two long divisions divide the 128-bit product by the square of the median.\<close>

lemma get_penalized_amount_eq:
  assumes m: "unat m < 2 ^ 32" and s: "unat s < 2 ^ 32" "unat s \<le> 2 * unat m" and ms: "m < s"
  shows "unat (get_penalized_amount a m s) =
    unat a * (unat s * (2 * unat m - unat s)) div (unat m * unat m)"
proof (cases "a = 0")
  case True
  then show ?thesis by (simp add: get_penalized_amount_def)
next
  case False
  define f where "f = s * (2 * m - s)"
  have lt: "unat m < unat s" using ms by (simp add: word_less_nat_alt)
  then have m0: "0 < unat m" using s by linarith
  have d: "unat (2 * m - s) = 2 * unat m - unat s"
  proof -
    have "unat (2 * m) = 2 * unat m" using m by (simp add: unat_word_ariths)
    with s(2) show ?thesis by (simp add: unat_sub word_le_nat_alt)
  qed
  have f: "unat f = unat s * (2 * unat m - unat s)"
    unfolding f_def using s lt m by (simp add: word_product_32 d)
  obtain lo hi where mul: "mul128 a f = (lo, hi)" by fastforce
  obtain h1 l1 r1 where d1: "div128_32 hi lo (ucast m) = (h1, l1, r1)" by (metis prod_cases3)
  obtain h2 l2 r2 where d2: "div128_32 h1 l1 (ucast m) = (h2, l2, r2)" by (metis prod_cases3)
  have um: "unat (ucast m :: u32) = unat m" using m by simp
  have e1: "(unat h1 * 2 ^ 64 + unat l1) * unat m + unat r1 = unat a * unat f" "unat r1 < unat m"
    using div128_32_correct [OF _ d1, unfolded um, OF m0] mul128_prod [OF mul] by simp_all
  have e2: "(unat h2 * 2 ^ 64 + unat l2) * unat m + unat r2 = unat h1 * 2 ^ 64 + unat l1" "unat r2 < unat m"
    using div128_32_correct [OF _ d2, unfolded um, OF m0] by simp_all
  have q: "unat h2 * 2 ^ 64 + unat l2 = unat a * unat f div (unat m * unat m)"
    by (simp only: div_mult2_eq div_unique [OF e1] div_unique [OF e2])
  have "unat a * unat f < unat a * (unat m * unat m)"
    using square_bound [OF lt s(2)] False by (simp add: f unat_gt_0)
  then have "unat a * unat f div (unat m * unat m) < unat a"
    by (metis less_mult_imp_div_less)
  then have "unat h2 * 2 ^ 64 < 2 ^ 64" using q u64_less [of a] by linarith
  then have "unat h2 = 0" by simp
  with q have "unat l2 = unat a * unat f div (unat m * unat m)" by simp
  moreover have "get_penalized_amount a m s = l2"
    using False ms mul d1 d2 by (simp add: get_penalized_amount_def f_def not_le [symmetric])
  ultimately show ?thesis by (simp only: f)
qed

lemma get_penalized_amount_le:
  assumes "unat m < 2 ^ 32" "unat s < 2 ^ 32" "unat s \<le> 2 * unat m"
  shows "get_penalized_amount a m s \<le> a"
proof (cases "s \<le> m")
  case True
  then show ?thesis by (simp add: get_penalized_amount_def)
next
  case False
  then have lt: "m < s" by simp
  then have lt': "unat m < unat s" by (simp add: word_less_nat_alt)
  have "unat a * (unat s * (2 * unat m - unat s)) \<le> unat a * (unat m * unat m)"
    using square_bound [OF lt' assms(3)] by simp
  then have "unat a * (unat s * (2 * unat m - unat s)) div (unat m * unat m) \<le> unat a"
    by (metis div_le_mono div_mult_self_is_m div_by_0 le0 neq0_conv)
  with get_penalized_amount_eq [OF assms lt, of a] show ?thesis by (simp add: word_le_nat_alt)
qed


lemma calc_base_reward_le: "unat (calc_base_reward c v already) \<le> unat (cy_money_supply c - already)"
proof -
  define r where "r = drop_bit (cy_emission_speed_factor c) (cy_money_supply c - already)"
  have "unat r \<le> unat (cy_money_supply c - already)" by (simp only: r_def unat_drop_bit div_le_dividend)
  moreover have "unat (r div DIFFICULTY_SCATTER_V2) \<le> unat r" by (simp only: unat_div_distrib div_le_dividend)
  ultimately show ?thesis unfolding calc_base_reward_def Let_def r_def [symmetric] by simp
qed

text \<open>
  The emission of a block: what the miner receives less the fees of the block.  It never takes
  the coins in circulation above the supply.
\<close>

lemma get_block_reward_emission:
  "get_block_reward c v m s already fee = (reward, emission) \<Longrightarrow> reward = emission + fee"
  by (auto simp: get_block_reward_def Let_def)

lemma get_block_reward_bounds:
  assumes "unat m < 2 ^ 32" "unat s < 2 ^ 32" "unat s \<le> 2 * unat m"
    and sup: "already \<le> cy_money_supply c"
    and r: "get_block_reward c v m s already fee = (reward, emission)"
  shows "\<exists>base paid. emission = base - (fee - paid) \<and> paid \<le> fee \<and>
    unat already + unat base \<le> unat (cy_money_supply c)"
proof -
  define base where "base = get_penalized_amount (calc_base_reward c v already) m s"
  define paid where "paid = (if v \<ge> 2 then get_penalized_amount fee m s else fee)"
  have "emission = base - (fee - paid)"
    using r by (auto simp: get_block_reward_def Let_def base_def paid_def)
  moreover have "paid \<le> fee"
    using get_penalized_amount_le [OF assms(1-3)] by (simp add: paid_def)
  moreover have "unat base \<le> unat (cy_money_supply c - already)"
    using get_penalized_amount_le [OF assms(1-3), of "calc_base_reward c v already"]
      calc_base_reward_le [of c v already]
    by (simp add: base_def word_le_nat_alt)
  moreover have "unat (cy_money_supply c - already) = unat (cy_money_supply c) - unat already"
    using sup by (simp add: unat_sub)
  ultimately show ?thesis using sup by (force simp: word_le_nat_alt)
qed

section \<open>Versions\<close>

text \<open>The block version never decreases along the chain, when the upgrade heights are ordered.\<close>

lemma block_version_mono:
  assumes "cy_upgrade_height_v2 c \<le> cy_upgrade_height_v3 c" "cy_upgrade_height_v3 c \<le> cy_upgrade_height_v4 c"
    and "h \<le> k"
  shows "get_block_major_version_for_height c h \<le> get_block_major_version_for_height c k"
  using assms by (auto simp: get_block_major_version_for_height_def)

lemma upgrade_heights_ordered:
  "c = make_currency False g h \<Longrightarrow>
     cy_upgrade_height_v2 c \<le> cy_upgrade_height_v3 c \<and> cy_upgrade_height_v3 c \<le> cy_upgrade_height_v4 c"
  by (simp add: make_currency_def HARDFORK_V2_HEIGHT_def)

section \<open>Difficulty\<close>

lemma window_work_Some:
  assumes "window_work c ts cds r = Some (low, span)"
  shows "unat low = unat (cds ! (snd r - 1) - cds ! fst r) * unat (cy_difficulty_target c)"
    and "0 < span" and "unat low + unat span - 1 < 2 ^ 64"
proof -
  let ?w = "cds ! (snd r - 1) - cds ! fst r"
  obtain l h where m: "mul128 ?w (ucast (cy_difficulty_target c)) = (l, h)" by fastforce
  from assms have h: "h = 0" "low = l" "\<not> - 1 - l < ucast (span - 1)"
    and span: "span \<noteq> 0"
    by (auto simp: window_work_def Let_def m [simplified] split: if_splits)
  show "unat low = unat ?w * unat (cy_difficulty_target c)"
    using mul128_prod [OF m] h by simp
  show "0 < span" using span by (simp add: word_gt_0)
  have "unat (span - 1) = unat span - 1" using span by (simp add: unat_minus_one)
  moreover have "unat (- 1 - l) = 2 ^ 64 - 1 - unat l"
  proof -
    have m1: "unat (- 1 :: u64) = 2 ^ 64 - 1" by (simp add: unsigned_minus_1_eq_mask mask_eq_exp_minus_1)
    then have "l \<le> - 1" using u64_less [of l] unfolding word_le_nat_alt by simp
    then show ?thesis by (simp only: unat_sub m1)
  qed
  ultimately have "unat span - 1 \<le> 2 ^ 64 - 1 - unat l"
    using h(3) u32_less [of span] by (simp add: word_le_nat_alt not_less)
  then show "unat low + unat span - 1 < 2 ^ 64"
    using h(2) u64_less [of l] span by (simp add: unat_eq_0)
qed

text \<open>
  Before the first fork the next difficulty is the work of the window per time span, rounded
  up; 0 stands for a product that does not fit.
\<close>

lemma next_difficulty_v1_exact:
  assumes "1 < length ts" "length ts \<le> unat (cy_difficulty_window c)"
    and "block_index < cy_hardfork_v1_height c"
    and r: "difficulty_cut_range (unat (cy_difficulty_window c)) (cy_difficulty_cut c) (length ts) = r"
    and w: "window_work c ts cds r = Some (low, span)"
  shows "unat (next_difficulty_v1 c block_index ts cds) =
    (unat (cds ! (snd r - 1) - cds ! fst r) * unat (cy_difficulty_target c) + unat span - 1) div unat span"
proof -
  note w' = window_work_Some [OF w]
  have s: "1 \<le> unat span" using w'(2) by (simp add: word_less_nat_alt)
  have "unat (low + ucast span - 1) = unat low + unat span - 1"
  proof -
    have "unat (ucast (span - 1) + 1 :: u64) = unat span"
      using s u32_less [of span] w'(2) by (simp add: unat_word_ariths unat_minus_one word_gt_0)
    then have "ucast span = (ucast (span - 1) :: u64) + 1" by (simp add: word_unat_eq_iff)
    then have "low + ucast span - 1 = low + ucast (span - 1)" by simp
    moreover have "unat (span - 1) = unat span - 1" using w'(2) by (simp add: unat_minus_one word_gt_0)
    ultimately have "unat (low + ucast span - 1) = (unat low + (unat span - 1)) mod 2 ^ 64"
      by (simp only: unat_add_u64 unat_ucast_u32)
    then show ?thesis using w'(3) s by simp
  qed
  moreover have "\<not> cy_hardfork_v1_height c \<le> block_index" using assms(3) by simp
  ultimately show ?thesis
    using assms w'(1) by (simp add: next_difficulty_v1_def Let_def unat_div_distrib)
qed

lemma next_difficulty_v1_fork:
  assumes "cy_hardfork_v1_height c \<le> block_index" "1 < length ts" "2 \<le> unat (cy_difficulty_window c)"
  shows "next_difficulty_v1 c block_index ts cds = 0 \<or> 100 \<le> next_difficulty_v1 c block_index ts cds"
proof -
  have ge: "100 \<le> at_least_100 d" for d by (auto simp: at_least_100_def)
  let ?w = "unat (cy_difficulty_window c)"
  have l: "\<not> length (if length ts > ?w then take ?w ts else ts) \<le> 1" using assms by auto
  have t: "\<not> length (drop (length ts - (if 17 > n then n else 17)) ts) \<le> 1"
    if "1 < n" "n \<le> length ts" for n using that by auto
  show ?thesis
    unfolding next_difficulty_v1_def Let_def if_not_P [OF l]
    using assms(1) ge l by (simp only: if_True split: option.split prod.split) (auto simp: t)
qed

text \<open>Blocks that are exactly one target apart: the weighted sum of the second algorithm.\<close>

lemma solve_time_sums_uniform:
  assumes "\<And>k. k \<le> n \<Longrightarrow> solve_time c ts (Suc k) = T" and "0 \<le> T"
  shows "2 * fst (solve_time_sums c ts (Suc n)) = T * int (Suc n) * int (Suc (Suc n))"
  using assms
proof (induction n)
  case 0
  then show ?case by (simp add: Let_def)
next
  case (Suc n)
  then show ?case by (simp add: Let_def algebra_simps split: prod.splits)
qed

lemma solve_time_sums_zero:
  assumes "\<And>k. k < n \<Longrightarrow> solve_time c ts (Suc k) = 0"
  shows "solve_time_sums c ts n = (0, 0)"
  using assms by (induction n) (simp_all add: Let_def)

lemma genesis_blob:
  "from_hex_append genesis_coinbase_tx_hex [] = (True,
    [1, 10, 1, 255, 0, 1, 255, 255, 255, 255, 255, 255, 63, 2, 155, 46, 76, 2, 129, 192, 176,
     46, 124, 83, 41, 26, 148, 209, 208, 203, 255, 136, 131, 248, 2, 79, 81, 66, 238, 73, 79,
     251, 189, 8, 128, 113, 33, 1, 82, 191, 174, 245, 229, 104, 26, 93, 126, 174, 172, 168,
     120, 213, 62, 210, 168, 4, 69, 228, 246, 173, 197, 85, 15, 196, 180, 176, 230, 155, 118,
     90])"
  by code_simp

definition genesis_coinbase :: transaction where
  "genesis_coinbase = with_signatures
     \<lparr>tx_version = 1, tx_unlock_time = 10, tx_inputs = [CoinbaseInput 0],
      tx_outputs = [\<lparr>to_amount = 281474976710655, to_target = KeyOutput
       [155, 46, 76, 2, 129, 192, 176, 46, 124, 83, 41, 26, 148, 209, 208, 203, 255,
       136, 131, 248, 2, 79, 81, 66, 238, 73, 79, 251, 189, 8, 128, 113]\<rparr>],
      tx_extra = [1, 82, 191, 174, 245, 229, 104, 26, 93, 126, 174, 172, 168, 120, 213, 62, 210,
       168, 4, 69, 228, 246, 173, 197, 85, 15, 196, 180, 176, 230, 155, 118, 90]\<rparr> []"

lemma genesis_coinbase_valid: "valid_transaction genesis_coinbase"
  by (simp add: genesis_coinbase_def valid_transaction_def valid_prefix_def valid_vector_def fits64_def
    valid_output_def pod32_def sig_size_def is_base_def)

lemma genesis_coinbase_bytes:
  "snd (from_hex_append genesis_coinbase_tx_hex []) =
     enc_prefix genesis_coinbase @ signature_bytes (tx_signatures genesis_coinbase)"
  unfolding genesis_blob by code_simp

lemma genesis_tx: "from_binary dec_transaction (snd (from_hex_append genesis_coinbase_tx_hex [])) = Inr genesis_coinbase"
  by (simp only: transaction.from_binary_iff to_binary_def genesis_coinbase_valid genesis_coinbase_bytes)

section \<open>Properties\<close>

text \<open>
  The genesis block can be built: the hard-coded coinbase transaction parses, as a coinbase of
  height 0 that pays one output the first block's whole reward.
\<close>

theorem genesis_block_builds:
  "\<exists>b. make_genesis testnet = Inr b \<and> bt_base_transaction b = genesis_coinbase \<and>
     bh_nonce b = (if testnet then 71 else 70) \<and>
     tx_inputs (bt_base_transaction b) = [CoinbaseInput 0] \<and>
     map to_amount (tx_outputs (bt_base_transaction b)) = [calc_base_reward (make_currency testnet b null_hash) 1 0]"
proof -
  have r: "calc_base_reward (make_currency testnet b null_hash) 1 0 = 281474976710655" for b
    by (simp add: calc_base_reward_def make_currency_def Let_def) (code_simp)
  obtain blob where "from_hex_append genesis_coinbase_tx_hex [] = (True, blob)" using genesis_blob by blast
  with genesis_tx show ?thesis
    unfolding make_genesis_def r by (simp add: genesis_coinbase_def)
qed

text \<open>
  C10: the penalty of a block above the median is exactly \<open>amount * size * (2 * median - size)
  / median^2\<close>, although the code divides a 128-bit product twice by the median.
\<close>

theorem penalized_amount_exact:
  assumes "unat median < 2 ^ 32" "unat sz < 2 ^ 32" "unat sz \<le> 2 * unat median"
  shows "unat (get_penalized_amount amount median sz) =
    (if sz \<le> median then unat amount
     else unat amount * (unat sz * (2 * unat median - unat sz)) div (unat median * unat median))"
  using get_penalized_amount_eq [OF assms] by (auto simp: get_penalized_amount_def)

theorem penalized_amount_exact_witness:
  "unat (get_penalized_amount 1000000 100 150) = (if (150 :: u64) \<le> 100 then 1000000 else
     1000000 * (150 * (2 * 100 - 150)) div (100 * 100))"
  using penalized_amount_exact [of 100 150 1000000] by simp

text \<open>
  C9: the reward of a block is its emission plus its fees, and the emission never brings the
  coins in circulation above the money supply, whatever the sizes in the allowed range.
\<close>

theorem block_reward_supply:
  assumes "unat median < 2 ^ 32" "unat sz < 2 ^ 32" "unat sz \<le> 2 * unat median"
    and "already \<le> cy_money_supply c"
  shows "let (reward, emission) = get_block_reward c v median sz already fee in
    reward = emission + fee \<and>
    (\<exists>base paid. emission = base - (fee - paid) \<and> paid \<le> fee \<and>
       unat already + unat base \<le> unat (cy_money_supply c))"
  using get_block_reward_bounds [OF assms] get_block_reward_emission [of c v median sz already fee]
  by (simp add: Let_def split: prod.split)

theorem block_reward_supply_witness:
  "let c = make_currency False empty_block_template null_hash; (reward, emission) = get_block_reward c 4 100000 150000 1000 77 in
    reward = emission + 77 \<and>
    (\<exists>base paid. emission = base - (77 - paid) \<and> paid \<le> (77 :: u64) \<and>
       unat (1000 :: u64) + unat base \<le> unat (cy_money_supply c))"
  using block_reward_supply [of 100000 150000 1000 "make_currency False empty_block_template null_hash" 4 77]
  by (simp add: make_currency_def Let_def)

text \<open>
  Before the first fork the next difficulty is the work of the cut window times the target,
  divided by its time span and rounded up, with no overflow on the way.
\<close>

lemma next_difficulty_v1_formula:
  assumes "1 < length ts" "length ts \<le> unat (cy_difficulty_window c)"
    and "block_index < cy_hardfork_v1_height c"
    and "difficulty_cut_range (unat (cy_difficulty_window c)) (cy_difficulty_cut c) (length ts) = r"
    and "window_work c ts cds r = Some (low, span)"
  shows "0 < unat span \<and> unat (next_difficulty_v1 c block_index ts cds) =
    (unat (cds ! (snd r - 1) - cds ! fst r) * unat (cy_difficulty_target c) + unat span - 1) div unat span"
  using next_difficulty_v1_exact [OF assms] window_work_Some(2) [OF assms(5)]
  by (simp add: word_less_nat_alt)

theorem next_difficulty_v1_formula_witness:
  "let c = make_currency False empty_block_template null_hash in
     (0 :: nat) < 60 \<and> unat (next_difficulty_v1 c 5 [100, 160] [1000, 1010]) = (10 * 60 + 60 - 1) div 60"
proof -
  define c where "c = make_currency False empty_block_template null_hash"
  have r: "difficulty_cut_range (unat (cy_difficulty_window c)) (cy_difficulty_cut c) (length [100, 160 :: u32]) = (0, 2)"
    unfolding c_def by code_simp
  have w: "window_work c [100, 160] [1000, 1010] (0, 2) = Some (600, 60)"
    unfolding c_def by code_simp
  show ?thesis
    using next_difficulty_v1_formula [OF _ _ _ r w, of 5]
    by (simp add: c_def make_currency_def DIFFICULTY_TARGET_def)
qed

text \<open>
  C11: the second difficulty algorithm has no result when the blocks of its window carry the
  same timestamp: the weighted sum of the solve times is 0 and the code divides by it.
\<close>

theorem next_difficulty_v2_equal_timestamps:
  assumes "unat (cy_difficulty_window_v2 c) < n"
  shows "next_difficulty_v2 c (replicate n t) cds = Inl (Runtime_error ''division by zero'')"
proof -
  have "solve_time c (replicate n t) (Suc k) = 0" if "k < unat (cy_difficulty_window_v2 c)" for k
    using that assms by (simp add: solve_time_def min_def max_def)
  then have "solve_time_sums c (replicate n t) (unat (cy_difficulty_window_v2 c)) = (0, 0)"
    by (rule solve_time_sums_zero)
  then show ?thesis using assms by (simp add: next_difficulty_v2_def Let_def)
qed

theorem next_difficulty_v2_equal_timestamps_witness:
  "next_difficulty_v2 (make_currency False empty_block_template null_hash) (replicate 61 1560000000) [] =
     Inl (Runtime_error ''division by zero'')"
  using next_difficulty_v2_equal_timestamps [of "make_currency False empty_block_template null_hash" 61]
  by (simp add: make_currency_def)

end
