(* ===== verification/Chain_Base.thy ===== *)
theory Chain_Base
  imports Ordered_Map Currency
begin

text \<open>
  The state of the node's chain: the members of \<open>BlockChain\<close> (\<open>Core/BlockChain.hpp\<close>)
  and of \<open>BlockChainState\<close> (\<open>Core/BlockChainState.hpp\<close>), which extends it, and the
  cryptographic functions both call, which stay parameters of the development.
\<close>

section \<open>Cryptography\<close>

text \<open>
  The functions of \<open>src/crypto\<close> the node core calls.  \<open>check_ring_signature\<close> returns its
  result and \<open>key_corrupted\<close>.
\<close>

record crypto_env =
  cn_fast_hash :: "bytes \<Rightarrow> hash"
  cn_slow_hash :: "bytes \<Rightarrow> hash"
  cn_lite_slow_hash_v1 :: "bytes \<Rightarrow> hash"
  key_isvalid :: "public_key \<Rightarrow> bool"
  check_ring_signature :: "hash \<Rightarrow> key_image \<Rightarrow> public_key list \<Rightarrow> signature list \<Rightarrow> bool \<times> bool"

text \<open>Functions that satisfy nothing but their types, for the examples.\<close>

definition sample_env :: crypto_env where
  "sample_env = \<lparr>cn_fast_hash = (\<lambda>b. take 32 (b @ replicate 32 0)), cn_slow_hash = (\<lambda>b. take 32 (b @ replicate 32 0)),
     cn_lite_slow_hash_v1 = (\<lambda>b. take 32 (b @ replicate 32 0)), key_isvalid = (\<lambda>k. True),
     check_ring_signature = (\<lambda>h k ks sigs. (True, False))\<rparr>"

definition sample_currency :: currency where
  "sample_currency = make_currency True empty_block_template null_hash"

section \<open>State\<close>

record block_chain =
  bc_db :: db
  bc_genesis_bid :: hash
  bc_tip_bid :: hash
  bc_tip_cumulative_difficulty :: difficulty
  bc_tip_height :: height
  bc_header_cache :: "(hash, header_info) omap"
  bc_header_tip_window :: "header_info list"

text \<open>\<open>BlockChainState::PoolTransaction\<close>.\<close>

record pool_transaction =
  pt_tx :: transaction
  pt_binary_tx :: bytes
  pt_fee :: amount
  pt_timestamp :: timestamp

definition fee_per_byte :: "pool_transaction \<Rightarrow> amount" where
  "fee_per_byte t = pt_fee t div word_of_nat (length (pt_binary_tx t))"

record chain_state = block_chain +
  cs_next_gi_for_amount :: "(amount, u32) omap"
  cs_tx_pool_version :: u32
  cs_memory_state_tx :: "(hash, pool_transaction) omap"
  cs_memory_state_ki_tx :: "(key_image, hash) omap"
  cs_memory_state_fee_tx :: "(amount, (hash, unit) omap) omap"
  cs_memory_state_total_size :: u64
  cs_mining_transactions :: "(hash, bytes \<times> height) omap"
  cs_next_median_timestamp :: timestamp
  cs_next_median_size :: u32

section \<open>The interface of a ledger\<close>

text \<open>
  \<open>IBlockChainState\<close>: the virtual functions that the chain itself and the \<open>DeltaState\<close>s
  above it implement.  An operation that may raise returns a result; \<open>None\<close> is a look-up that
  returns false.
\<close>

record 's ichain =
  i_store_keyimage :: "key_image \<Rightarrow> height \<Rightarrow> 's \<Rightarrow> 's result"
  i_delete_keyimage :: "key_image \<Rightarrow> 's \<Rightarrow> 's result"
  i_read_keyimage :: "key_image \<Rightarrow> 's \<Rightarrow> height option result"
  i_push_amount_output :: "amount \<Rightarrow> unlock_moment \<Rightarrow> height \<Rightarrow> public_key \<Rightarrow> 's \<Rightarrow> (u32 \<times> 's) result"
  i_pop_amount_output :: "amount \<Rightarrow> unlock_moment \<Rightarrow> public_key \<Rightarrow> 's \<Rightarrow> 's result"
  i_next_global_index_for_amount :: "amount \<Rightarrow> 's \<Rightarrow> u32 result"
  i_read_amount_output :: "amount \<Rightarrow> u32 \<Rightarrow> 's \<Rightarrow> unp option result"
  i_spend_output :: "amount \<Rightarrow> u32 \<Rightarrow> 's \<Rightarrow> 's result"

text \<open>The constant functions of a parent state, as a \<open>DeltaState\<close> uses them.\<close>

record parent_view =
  v_read_keyimage :: "key_image \<Rightarrow> height option result"
  v_next_global_index_for_amount :: "amount \<Rightarrow> u32 result"
  v_read_amount_output :: "amount \<Rightarrow> u32 \<Rightarrow> unp option result"

definition view_of :: "'s ichain \<Rightarrow> 's \<Rightarrow> parent_view" where
  "view_of ops s = \<lparr>v_read_keyimage = (\<lambda>k. i_read_keyimage ops k s),
     v_next_global_index_for_amount = (\<lambda>a. i_next_global_index_for_amount ops a s),
     v_read_amount_output = (\<lambda>a g. i_read_amount_output ops a g s)\<rparr>"

section \<open>Loops that may raise\<close>

fun res_fold :: "('a \<Rightarrow> 's \<Rightarrow> 's result) \<Rightarrow> 'a list \<Rightarrow> 's \<Rightarrow> 's result" where
  "res_fold f [] s = Inr s"
| "res_fold f (x # xs) s = res_bind (f x s) (res_fold f xs)"

lemma res_fold_append: "res_fold f (xs @ ys) s = res_bind (res_fold f xs s) (res_fold f ys)"
  by (induction xs arbitrary: s) (simp_all add: res_bind_def split: sum.split)

section \<open>The abstract ledger\<close>

text \<open>
  What every implementation of the interface promises: a set of spent key images with the
  height that spent them, and for every amount the list of its outputs, whose positions are
  the global indices.
\<close>

record ledger =
  lg_keyimages :: "key_image \<Rightarrow> height option"
  lg_outputs :: "amount \<Rightarrow> unp list"

definition lg_store_keyimage :: "key_image \<Rightarrow> height \<Rightarrow> ledger \<Rightarrow> ledger" where
  "lg_store_keyimage k h L = L\<lparr>lg_keyimages := (lg_keyimages L)(k := Some h)\<rparr>"

definition lg_delete_keyimage :: "key_image \<Rightarrow> ledger \<Rightarrow> ledger" where
  "lg_delete_keyimage k L = L\<lparr>lg_keyimages := (lg_keyimages L)(k := None)\<rparr>"

definition lg_push :: "amount \<Rightarrow> unp \<Rightarrow> ledger \<Rightarrow> ledger" where
  "lg_push a u L = L\<lparr>lg_outputs := (lg_outputs L)(a := lg_outputs L a @ [u])\<rparr>"

definition lg_pop :: "amount \<Rightarrow> ledger \<Rightarrow> ledger" where
  "lg_pop a L = L\<lparr>lg_outputs := (lg_outputs L)(a := butlast (lg_outputs L a))\<rparr>"

definition lg_spend :: "amount \<Rightarrow> u32 \<Rightarrow> bool \<Rightarrow> ledger \<Rightarrow> ledger" where
  "lg_spend a g spent L =
     (if unat g < length (lg_outputs L a)
      then L\<lparr>lg_outputs := (lg_outputs L)(a :=
        (lg_outputs L a)[unat g := (lg_outputs L a ! unat g)\<lparr>unp_spent := spent\<rparr>])\<rparr>
      else L)"

definition lg_read :: "amount \<Rightarrow> u32 \<Rightarrow> ledger \<Rightarrow> unp option" where
  "lg_read a g L = (if unat g < length (lg_outputs L a) then Some (lg_outputs L a ! unat g) else None)"

definition lg_count :: "amount \<Rightarrow> ledger \<Rightarrow> nat" where
  "lg_count a L = length (lg_outputs L a)"

lemmas lg_defs = lg_store_keyimage_def lg_delete_keyimage_def lg_push_def lg_pop_def lg_spend_def
  lg_read_def lg_count_def

lemma lg_pop_push [simp]: "lg_pop a (lg_push a u L) = L"
  by (simp add: lg_defs)

lemma lg_delete_store: "lg_keyimages L k = None \<Longrightarrow> lg_delete_keyimage k (lg_store_keyimage k h L) = L"
  by (cases L) (simp add: lg_defs fun_upd_idem)

lemma unspent_same: "\<not> unp_spent u \<Longrightarrow> u\<lparr>unp_spent := False\<rparr> = u"
  by (cases u) simp

lemma lg_unspend_spend:
  "lg_read a g L = Some u \<Longrightarrow> \<not> unp_spent u \<Longrightarrow> lg_spend a g False (lg_spend a g True L) = L"
  by (cases L) (auto simp: lg_defs fun_eq_iff nth_list_update unspent_same split: if_splits)

end
