(* ===== verification/Chain_Ledger.thy ===== *)
theory Chain_Ledger
  imports Chain_Base
begin

text \<open>
  The ledger operations of \<open>BlockChainState\<close> on the database (the end of
  \<open>Core/BlockChainState.cpp\<close>): spent key images under the prefix \<open>i\<close>, the outputs of an
  amount under the prefix \<open>a\<close>, numbered by their global index, with the next index of every
  amount cached.  Storing a key image also drops the pool transaction that uses it.
\<close>

section \<open>Keys\<close>

definition KEYIMAGE_PREFIX :: bytes where
  "KEYIMAGE_PREFIX = [0x69]"

definition AMOUNT_OUTPUT_PREFIX :: bytes where
  "AMOUNT_OUTPUT_PREFIX = [0x61]"

definition BLOCK_GLOBAL_INDICES_PREFIX :: bytes where
  "BLOCK_GLOBAL_INDICES_PREFIX = [0x62]"

definition BLOCK_GLOBAL_INDICES_SUFFIX :: bytes where
  "BLOCK_GLOBAL_INDICES_SUFFIX = [0x67]"

definition keyimage_key :: "key_image \<Rightarrow> bytes" where
  "keyimage_key key_image = KEYIMAGE_PREFIX @ key_image"

definition amount_output_prefix :: "amount \<Rightarrow> bytes" where
  "amount_output_prefix amount = AMOUNT_OUTPUT_PREFIX @ write_varint_sqlite4 amount"

definition amount_output_key :: "amount \<Rightarrow> u32 \<Rightarrow> bytes" where
  "amount_output_key amount global_index =
     amount_output_prefix amount @ write_varint_sqlite4 (ucast global_index)"

definition block_global_indices_key :: "hash \<Rightarrow> bytes" where
  "block_global_indices_key bid = BLOCK_GLOBAL_INDICES_PREFIX @ bid @ BLOCK_GLOBAL_INDICES_SUFFIX"

section \<open>The transaction pool, as far as the ledger touches it\<close>

text \<open>The loop of \<open>remove_from_pool\<close> over the inputs, and whether every key image was there.\<close>

fun erase_key_images :: "key_input list \<Rightarrow> (key_image, hash) omap \<Rightarrow> (key_image, hash) omap \<times> bool" where
  "erase_key_images [] m = (m, True)"
| "erase_key_images (i # ins) m =
     (let (m', all_erased) = erase_key_images ins (om_erase (ki_key_image i) m)
      in (m', om_find (ki_key_image i) m \<noteq> None \<and> all_erased))"

definition remove_from_pool :: "hash \<Rightarrow> chain_state \<Rightarrow> chain_state result" where
  "remove_from_pool tid s =
     (case om_find tid (cs_memory_state_tx s) of
        None \<Rightarrow> Inr s
      | Some t \<Rightarrow>
         (let (ki_tx, all_erased) = erase_key_images (key_inputs (tx_inputs (pt_tx t))) (cs_memory_state_ki_tx s);
              my_size = word_of_nat (length (pt_binary_tx t));
              my_fee_per_byte = fee_per_byte t;
              txs = om_get_default [] my_fee_per_byte (cs_memory_state_fee_tx s);
              all_erased = (all_erased \<and> om_find tid txs \<noteq> None);
              txs' = om_erase tid txs;
              fee_tx = (if txs' = [] then om_erase my_fee_per_byte (om_set my_fee_per_byte txs' (cs_memory_state_fee_tx s))
                        else om_set my_fee_per_byte txs' (cs_memory_state_fee_tx s))
          in res_bind (invariant all_erased ''remove_memory_pool failed to erase everything'') (\<lambda>_.
            Inr (s\<lparr>cs_memory_state_ki_tx := ki_tx, cs_memory_state_fee_tx := fee_tx,
                   cs_memory_state_total_size := cs_memory_state_total_size s - my_size,
                   cs_memory_state_tx := om_erase tid (cs_memory_state_tx s)\<rparr>))))"

lemma remove_from_pool_db:
  "remove_from_pool tid s = Inr s' \<Longrightarrow>
     bc_db s' = bc_db s \<and> cs_next_gi_for_amount s' = cs_next_gi_for_amount s"
  by (auto simp: remove_from_pool_def Let_def res_bind_eq_Inr split: option.splits prod.splits)

section \<open>Ledger operations\<close>

definition store_keyimage :: "key_image \<Rightarrow> height \<Rightarrow> chain_state \<Rightarrow> chain_state result" where
  "store_keyimage key_image height s =
     res_bind (db_put (bc_db s) (keyimage_key key_image) (to_binary enc_u32 height) True) (\<lambda>db.
       let s = s\<lparr>bc_db := db\<rparr> in
       case om_find key_image (cs_memory_state_ki_tx s) of
         None \<Rightarrow> Inr s
       | Some tid \<Rightarrow> remove_from_pool tid s)"

definition delete_keyimage :: "key_image \<Rightarrow> chain_state \<Rightarrow> chain_state result" where
  "delete_keyimage key_image s =
     res_bind (db_del (bc_db s) (keyimage_key key_image) True) (\<lambda>db. Inr (s\<lparr>bc_db := db\<rparr>))"

definition read_keyimage :: "key_image \<Rightarrow> chain_state \<Rightarrow> height option result" where
  "read_keyimage key_image s =
     (case db_get (bc_db s) (keyimage_key key_image) of
        None \<Rightarrow> Inr None
      | Some rb \<Rightarrow> res_bind (from_binary dec_u32 rb) (\<lambda>h. Inr (Some h)))"

text \<open>
  \<open>next_global_index_for_amount\<close>: from the cache, or one more than the last index in the
  database, which is then cached.  \<open>boost::lexical_cast\<close> raises when the index does not fit.
\<close>

definition next_global_index_for_amount :: "amount \<Rightarrow> chain_state \<Rightarrow> (u32 \<times> chain_state) result" where
  "next_global_index_for_amount amount s =
     (case om_find amount (cs_next_gi_for_amount s) of
        Some n \<Rightarrow> Inr (n, s)
      | None \<Rightarrow>
          res_bind (case db_rbegin (bc_db s) (amount_output_prefix amount) of
              [] \<Rightarrow> Inr 0
            | (suffix, _) # _ \<Rightarrow>
                res_bind (read_varint_sqlite4_str suffix) (\<lambda>v.
                  if unat v < 2 ^ 32 then Inr (ucast v + 1) else Inl Bad_cast))
            (\<lambda>alt_in. Inr (alt_in, s\<lparr>cs_next_gi_for_amount := om_set amount alt_in (cs_next_gi_for_amount s)\<rparr>)))"

definition read_amount_output :: "amount \<Rightarrow> u32 \<Rightarrow> chain_state \<Rightarrow> unp option result" where
  "read_amount_output amount global_index s =
     (case db_get (bc_db s) (amount_output_key amount global_index) of
        None \<Rightarrow> Inr None
      | Some rb \<Rightarrow> res_bind (from_binary dec_unp rb) (\<lambda>u. Inr (Some u)))"

definition push_amount_output ::
  "amount \<Rightarrow> unlock_moment \<Rightarrow> height \<Rightarrow> public_key \<Rightarrow> chain_state \<Rightarrow> (u32 \<times> chain_state) result" where
  "push_amount_output amount unlock_time block_height pk s =
     res_bind (next_global_index_for_amount amount s) (\<lambda>(my_gi, s).
     res_bind (db_put (bc_db s) (amount_output_key amount my_gi)
         (to_binary enc_unp \<lparr>unp_unlock_time = unlock_time, unp_public_key = pk,
            unp_height = block_height, unp_spent = False\<rparr>) True) (\<lambda>db.
     let next_gi = om_get_default 0 amount (cs_next_gi_for_amount s) in
     Inr (my_gi, s\<lparr>bc_db := db, cs_next_gi_for_amount := om_set amount (next_gi + 1) (cs_next_gi_for_amount s)\<rparr>)))"

definition pop_amount_output :: "amount \<Rightarrow> unlock_moment \<Rightarrow> public_key \<Rightarrow> chain_state \<Rightarrow> chain_state result" where
  "pop_amount_output amount unlock_time pk s =
     res_bind (next_global_index_for_amount amount s) (\<lambda>(next_gi, s).
     res_bind (invariant (next_gi \<noteq> 0) ''BlockChainState::pop_amount_output underflow'') (\<lambda>_.
     let next_gi = next_gi - 1;
         cached = om_get_default 0 amount (cs_next_gi_for_amount s);
         s = s\<lparr>cs_next_gi_for_amount := om_set amount (cached - 1) (cs_next_gi_for_amount s)\<rparr>
     in
     res_bind (read_amount_output amount next_gi s) (\<lambda>r.
       case r of
         None \<Rightarrow> Inl (Logic_error ''BlockChainState::pop_amount_output element does not exist'')
       | Some u \<Rightarrow>
           res_bind (invariant (\<not> unp_spent u \<and> unp_unlock_time u = unlock_time \<and> unp_public_key u = pk)
             ''BlockChainState::pop_amount_output popping wrong element'') (\<lambda>_.
           res_bind (db_del (bc_db s) (amount_output_key amount next_gi) True) (\<lambda>db.
           Inr (s\<lparr>bc_db := db\<rparr>))))))"

text \<open>\<open>spend_output(amount, global_index, spent)\<close> does nothing for an output that is not there.\<close>

definition spend_output :: "amount \<Rightarrow> u32 \<Rightarrow> bool \<Rightarrow> chain_state \<Rightarrow> chain_state result" where
  "spend_output amount global_index spent s =
     (case db_get (bc_db s) (amount_output_key amount global_index) of
        None \<Rightarrow> Inr s
      | Some rb \<Rightarrow>
          res_bind (from_binary dec_unp rb) (\<lambda>was.
          res_bind (db_put (bc_db s) (amount_output_key amount global_index)
              (to_binary enc_unp (was\<lparr>unp_spent := spent\<rparr>)) False) (\<lambda>db.
          Inr (s\<lparr>bc_db := db\<rparr>))))"

text \<open>
  The virtual functions of the chain.  A \<open>DeltaState\<close> that reads the next index through its
  parent pointer may fill the parent's cache; the view leaves the cache alone, which changes
  no later answer while the cache is right.
\<close>

definition chain_ops :: "chain_state ichain" where
  "chain_ops = \<lparr>
     i_store_keyimage = store_keyimage,
     i_delete_keyimage = delete_keyimage,
     i_read_keyimage = read_keyimage,
     i_push_amount_output = push_amount_output,
     i_pop_amount_output = pop_amount_output,
     i_next_global_index_for_amount = (\<lambda>a s. res_bind (next_global_index_for_amount a s) (\<lambda>(n, _). Inr n)),
     i_read_amount_output = read_amount_output,
     i_spend_output = (\<lambda>a g. spend_output a g True)\<rparr>"

section \<open>The keys are disjoint\<close>

lemma amount_output_prefix_inj [simp]:
  "amount_output_prefix a @ r = amount_output_prefix b @ s \<longleftrightarrow> a = b \<and> r = s"
  by (auto simp: amount_output_prefix_def dest: sqlite4.enc_prefix_free [OF TrueI TrueI])

lemma amount_output_key_inj [simp]: "amount_output_key a g = amount_output_key b h \<longleftrightarrow> a = b \<and> g = h"
proof -
  have "(ucast g :: u64) = ucast h \<longleftrightarrow> g = h" by (metis ucast_u64_down(3))
  then show ?thesis using sqlite4.enc_inj [of "ucast g" "ucast h"] by (simp add: amount_output_key_def)
qed

lemma keyimage_key_inj [simp]: "keyimage_key k = keyimage_key l \<longleftrightarrow> k = l"
  by (simp add: keyimage_key_def)

lemma keys_differ [simp]:
  "amount_output_key a g \<noteq> keyimage_key k" "keyimage_key k \<noteq> amount_output_key a g"
  "block_global_indices_key b \<noteq> keyimage_key k" "block_global_indices_key b \<noteq> amount_output_key a g"
  "keyimage_key k \<noteq> block_global_indices_key b" "amount_output_key a g \<noteq> block_global_indices_key b"
  by (simp_all add: amount_output_key_def amount_output_prefix_def AMOUNT_OUTPUT_PREFIX_def keyimage_key_def
    KEYIMAGE_PREFIX_def block_global_indices_key_def BLOCK_GLOBAL_INDICES_PREFIX_def)

text \<open>The keys the ledger owns, and the rest of the database.\<close>

definition ledger_key :: "bytes \<Rightarrow> bool" where
  "ledger_key key \<longleftrightarrow> (\<exists>r. key = KEYIMAGE_PREFIX @ r \<or> key = AMOUNT_OUTPUT_PREFIX @ r)"

lemma ledger_key_simps [simp]:
  "ledger_key (keyimage_key k)" "ledger_key (amount_output_key a g)" "\<not> ledger_key (block_global_indices_key b)"
  by (auto simp: ledger_key_def keyimage_key_def amount_output_key_def amount_output_prefix_def
    block_global_indices_key_def KEYIMAGE_PREFIX_def AMOUNT_OUTPUT_PREFIX_def BLOCK_GLOBAL_INDICES_PREFIX_def)

definition same_rest :: "chain_state \<Rightarrow> chain_state \<Rightarrow> bool" where
  "same_rest s s' \<longleftrightarrow> (\<forall>key. \<not> ledger_key key \<longrightarrow> db_get (bc_db s') key = db_get (bc_db s) key)"

lemma same_rest_refl [simp]: "same_rest s s"
  by (simp add: same_rest_def)

lemma same_rest_trans: "same_rest s t \<Longrightarrow> same_rest t u \<Longrightarrow> same_rest s u"
  by (simp add: same_rest_def)

section \<open>Refinement of the abstract ledger\<close>

text \<open>
  The database holds exactly the key images and outputs of a ledger, and what is cached of the
  next indices is right.
\<close>

definition ledger_ok :: "chain_state \<Rightarrow> ledger \<Rightarrow> bool" where
  "ledger_ok s L \<longleftrightarrow>
     om_wf (bc_db s) \<and> om_wf (cs_next_gi_for_amount s) \<and>
     (\<forall>k. db_get (bc_db s) (keyimage_key k) = map_option (to_binary enc_u32) (lg_keyimages L k)) \<and>
     (\<forall>a g. db_get (bc_db s) (amount_output_key a g) = map_option (to_binary enc_unp) (lg_read a g L)) \<and>
     (\<forall>r v. db_get (bc_db s) (AMOUNT_OUTPUT_PREFIX @ r) = Some v \<longrightarrow>
        (\<exists>a g. AMOUNT_OUTPUT_PREFIX @ r = amount_output_key a g)) \<and>
     (\<forall>a n. om_find a (cs_next_gi_for_amount s) = Some n \<longrightarrow> unat n = lg_count a L) \<and>
     (\<forall>a. lg_count a L < 2 ^ 32 \<and> list_all valid_unp (lg_outputs L a))"

lemma ledger_okD:
  assumes "ledger_ok s L"
  shows "om_wf (bc_db s)" "om_wf (cs_next_gi_for_amount s)"
    "db_get (bc_db s) (keyimage_key k) = map_option (to_binary enc_u32) (lg_keyimages L k)"
    "db_get (bc_db s) (amount_output_key a g) = map_option (to_binary enc_unp) (lg_read a g L)"
    "om_find a (cs_next_gi_for_amount s) = Some n \<Longrightarrow> unat n = lg_count a L"
    "lg_count a L < 2 ^ 32" "lg_read a g L = Some u \<Longrightarrow> valid_unp u"
  using assms by (simp_all add: ledger_ok_def list_all_length) (auto simp: lg_read_def split: if_splits)

lemma from_to_u32 [simp]: "from_binary dec_u32 (to_binary enc_u32 h) = Inr h"
  by (simp add: u32.from_to_binary)

text \<open>The stored state is determined by the ledger and the rest of the database.\<close>

lemma ledger_ok_unique:
  assumes "ledger_ok s L" "ledger_ok s' L" "same_rest s s'"
  shows "bc_db s' = bc_db s"
proof (rule om_ext)
  fix key
  show "om_find key (bc_db s') = om_find key (bc_db s)"
  proof (cases "ledger_key key")
    case False
    with assms(3) show ?thesis by (simp add: same_rest_def db_get_def)
  next
    case True
    then consider k where "key = keyimage_key k" | r where "key = AMOUNT_OUTPUT_PREFIX @ r"
      by (auto simp: ledger_key_def keyimage_key_def)
    then show ?thesis
    proof cases
      case 1
      with ledger_okD(3) [OF assms(1)] ledger_okD(3) [OF assms(2)] show ?thesis by (simp add: db_get_def)
    next
      case 2
      show ?thesis
      proof (cases "\<exists>a g. key = amount_output_key a g")
        case True
        with ledger_okD(4) [OF assms(1)] ledger_okD(4) [OF assms(2)] show ?thesis by (auto simp: db_get_def)
      next
        case False
        with assms(1,2) 2 have "db_get (bc_db s) key = None" "db_get (bc_db s') key = None"
          by (auto simp: ledger_ok_def)
        then show ?thesis by (simp add: db_get_def)
      qed
    qed
  qed
qed (use assms in \<open>simp_all add: ledger_ok_def\<close>)

text \<open>Reading.\<close>

lemma read_keyimage_ok: "ledger_ok s L \<Longrightarrow> read_keyimage k s = Inr (lg_keyimages L k)"
  by (cases "lg_keyimages L k") (simp_all add: read_keyimage_def ledger_okD)

lemma read_amount_output_ok:
  assumes "ledger_ok s L"
  shows "read_amount_output a g s = Inr (lg_read a g L)"
proof (cases "lg_read a g L")
  case None
  with ledger_okD(4) [OF assms, of a g] show ?thesis by (simp add: read_amount_output_def)
next
  case (Some u)
  then have "from_binary dec_unp (to_binary enc_unp u) = Inr u"
    by (rule unp.from_to_binary [OF ledger_okD(7) [OF assms]])
  with Some ledger_okD(4) [OF assms, of a g] show ?thesis by (simp add: read_amount_output_def)
qed

text \<open>The last key of an amount carries the last index.\<close>

lemma last_index:
  assumes ok: "ledger_ok s L"
  shows "case db_rbegin (bc_db s) (amount_output_prefix a) of
      [] \<Rightarrow> lg_count a L = 0
    | (suffix, _) # _ \<Rightarrow> \<exists>g :: u32. suffix = write_varint_sqlite4 (ucast g) \<and> lg_count a L = unat g + 1"
proof (cases "db_rbegin (bc_db s) (amount_output_prefix a)")
  case Nil
  have "lg_count a L = 0"
  proof (rule ccontr)
    assume "lg_count a L \<noteq> 0"
    then have "lg_read a 0 L \<noteq> None" by (simp add: lg_defs)
    with ledger_okD(4) [OF ok, of a 0] have "db_get (bc_db s) (amount_output_key a 0) \<noteq> None" by auto
    with Nil db_rbegin_Nil [OF ledger_okD(1) [OF ok]] show False by (simp add: amount_output_key_def)
  qed
  with Nil show ?thesis by simp
next
  case (Cons p rest)
  obtain suffix v where p: "p = (suffix, v)" by fastforce
  with Cons have r: "db_rbegin (bc_db s) (amount_output_prefix a) = (suffix, v) # rest" by simp
  then have g: "db_get (bc_db s) (amount_output_prefix a @ suffix) = Some v"
    using set_db_rbegin [OF ledger_okD(1) [OF ok], of suffix v] by fastforce
  then obtain b g where "amount_output_prefix a @ suffix = amount_output_key b g"
    using ok by (fastforce simp: ledger_ok_def amount_output_prefix_def)
  then have s: "suffix = write_varint_sqlite4 (ucast g)" "b = a" by (auto simp: amount_output_key_def)
  from g have "lg_read a g L \<noteq> None"
    using ledger_okD(4) [OF ok, of a g] by (cases "lg_read a g L") (auto simp: s amount_output_key_def)
  then have lt: "unat g < lg_count a L" by (auto simp: lg_defs split: if_splits)
  define n where "n = lg_count a L - 1"
  have n: "n < 2 ^ 32" "unat (word_of_nat n :: u32) = n"
    using ledger_okD(6) [OF ok, of a] by (simp_all add: n_def unat_of_nat)
  have "lg_read a (word_of_nat n) L \<noteq> None"
    using lt n by (simp add: lg_defs n_def)
  then obtain w where "db_get (bc_db s) (amount_output_prefix a @ write_varint_sqlite4 (ucast (word_of_nat n :: u32))) = Some w"
    using ledger_okD(4) [OF ok, of a "word_of_nat n"] by (auto simp: amount_output_key_def)
  from db_rbegin_hd_greatest [OF ledger_okD(1) [OF ok] r this]
  have "\<not> (ucast g :: u64) < ucast (word_of_nat n :: u32)"
    using sqlite4.enc_mono [OF TrueI TrueI] s(1) by (metis leD)
  then have "n \<le> unat g" using n by (simp add: word_less_nat_alt)
  then have "lg_count a L = unat g + 1" using lt by (simp add: n_def)
  with s r show ?thesis by auto
qed

text \<open>The next index is the number of outputs, cached or not.\<close>

lemma next_global_index_ok:
  assumes ok: "ledger_ok s L"
  shows "\<exists>s'. next_global_index_for_amount a s = Inr (word_of_nat (lg_count a L), s') \<and>
    ledger_ok s' L \<and> bc_db s' = bc_db s \<and>
    om_find a (cs_next_gi_for_amount s') = Some (word_of_nat (lg_count a L)) \<and>
    s' = s\<lparr>cs_next_gi_for_amount := cs_next_gi_for_amount s'\<rparr>"
proof (cases "om_find a (cs_next_gi_for_amount s)")
  case (Some n)
  have "word_of_nat (unat n) = n" by simp
  with Some ledger_okD(5) [OF ok] have "n = word_of_nat (lg_count a L)" by metis
  with Some ok show ?thesis by (intro exI [of _ s]) (simp add: next_global_index_for_amount_def)
next
  case None
  define n where "n = (word_of_nat (lg_count a L) :: u32)"
  define s' where "s' = s\<lparr>cs_next_gi_for_amount := om_set a n (cs_next_gi_for_amount s)\<rparr>"
  have n: "unat n = lg_count a L" using ledger_okD(6) [OF ok, of a] by (simp add: n_def unat_of_nat)
  have "next_global_index_for_amount a s = Inr (n, s')"
  proof (cases "db_rbegin (bc_db s) (amount_output_prefix a)")
    case Nil
    with last_index [OF ok, of a] have "n = 0" by (simp add: n_def)
    with None Nil show ?thesis by (simp add: next_global_index_for_amount_def s'_def)
  next
    case (Cons p rest)
    with last_index [OF ok, of a] obtain g :: u32 and v where
      g: "p = (write_varint_sqlite4 (ucast g), v)" "lg_count a L = unat g + 1" by (cases p) auto
    have "read_varint_sqlite4_str (write_varint_sqlite4 (ucast g)) = Inr (ucast g)"
      by (simp add: read_varint_sqlite4_str_def sqlite4.dec_enc_Nil)
    moreover have "unat g < 2 ^ 32" by (rule u32_less)
    moreover have "n = ucast (ucast g :: u64) + 1" by (simp add: n_def g(2))
    ultimately show ?thesis
      using None Cons g(1) by (simp add: next_global_index_for_amount_def s'_def)
  qed
  moreover have "ledger_ok s' L"
    using ok n by (simp add: ledger_ok_def s'_def om_wf_set)
  ultimately show ?thesis by (intro exI [of _ s']) (simp add: n_def s'_def)
qed

text \<open>Every operation that succeeds does to the ledger what its name says.\<close>

lemma ledger_ok_pool:
  "bc_db s' = bc_db s \<Longrightarrow> cs_next_gi_for_amount s' = cs_next_gi_for_amount s \<Longrightarrow> ledger_ok s' L = ledger_ok s L"
  by (simp add: ledger_ok_def)

lemma ledger_ok_store:
  assumes ok: "ledger_ok s L" and st: "store_keyimage k h s = Inr s'"
  shows "lg_keyimages L k = None \<and> ledger_ok s' (lg_store_keyimage k h L) \<and> same_rest s s'"
proof -
  from st obtain db where put: "db_put (bc_db s) (keyimage_key k) (to_binary enc_u32 h) True = Inr db"
    and db: "bc_db s' = db" "cs_next_gi_for_amount s' = cs_next_gi_for_amount s"
    by (auto simp: store_keyimage_def Let_def res_bind_eq_Inr split: option.splits dest!: remove_from_pool_db)
  note get = db_get_put [OF put]
  have "db_get (bc_db s) (keyimage_key k) = None" using put by (auto simp: db_put_def split: if_splits)
  then have "lg_keyimages L k = None" using ledger_okD(3) [OF ok, of k] by simp
  moreover have "ledger_ok s' (lg_store_keyimage k h L)"
    using ok om_wf_put [OF ledger_okD(1) [OF ok] put]
    by (auto simp: ledger_ok_def db get lg_defs keyimage_key_def KEYIMAGE_PREFIX_def AMOUNT_OUTPUT_PREFIX_def
      amount_output_key_def amount_output_prefix_def)
  moreover have "same_rest s s'" by (auto simp: same_rest_def db get)
  ultimately show ?thesis by simp
qed

lemma ledger_ok_delete:
  assumes ok: "ledger_ok s L" and k: "lg_keyimages L k \<noteq> None"
  shows "\<exists>s'. delete_keyimage k s = Inr s' \<and> ledger_ok s' (lg_delete_keyimage k L) \<and> same_rest s s'"
proof -
  from ledger_okD(3) [OF ok, of k] k have "db_get (bc_db s) (keyimage_key k) \<noteq> None" by auto
  then obtain db where del: "db_del (bc_db s) (keyimage_key k) True = Inr db" by (auto simp: db_del_def)
  note get = db_get_del [OF ledger_okD(1) [OF ok] del]
  have "ledger_ok (s\<lparr>bc_db := db\<rparr>) (lg_delete_keyimage k L)"
    using ok om_wf_del [OF ledger_okD(1) [OF ok] del]
    by (auto simp: ledger_ok_def get lg_defs split: if_splits)
  moreover have "same_rest s (s\<lparr>bc_db := db\<rparr>)" by (auto simp: same_rest_def get)
  ultimately show ?thesis by (simp add: delete_keyimage_def del)
qed

lemma lg_read_push:
  "lg_count a L < 2 ^ 32 - 1 \<Longrightarrow> lg_read b g (lg_push a u L) =
     (if b = a \<and> unat g = lg_count a L then Some u else lg_read b g L)"
  by (auto simp: lg_defs nth_append)

lemma ledger_ok_push:
  assumes ok: "ledger_ok s L" and room: "lg_count a L < 2 ^ 32 - 1" and pk: "pod32 pk"
  shows "\<exists>s'. push_amount_output a unlock h pk s = Inr (word_of_nat (lg_count a L), s') \<and>
    ledger_ok s' (lg_push a \<lparr>unp_unlock_time = unlock, unp_public_key = pk, unp_height = h, unp_spent = False\<rparr> L) \<and>
    same_rest s s'"
proof -
  define u where "u = \<lparr>unp_unlock_time = unlock, unp_public_key = pk, unp_height = h, unp_spent = False\<rparr>"
  define n where "n = (word_of_nat (lg_count a L) :: u32)"
  have n: "unat n = lg_count a L" using room by (simp add: n_def unat_of_nat)
  obtain t where t: "next_global_index_for_amount a s = Inr (n, t)" "ledger_ok t L" "bc_db t = bc_db s"
    "om_find a (cs_next_gi_for_amount t) = Some n"
    using next_global_index_ok [OF ok, of a] by (auto simp: n_def)
  have "lg_read a n L = None" by (simp add: lg_defs n [unfolded lg_count_def])
  with ledger_okD(4) [OF t(2), of a n] obtain db where
    put: "db_put (bc_db t) (amount_output_key a n) (to_binary enc_unp u) True = Inr db"
    by (auto simp: db_put_def)
  note get = db_get_put [OF put]
  define s' where "s' = t\<lparr>bc_db := db, cs_next_gi_for_amount := om_set a (n + 1) (cs_next_gi_for_amount t)\<rparr>"
  have "push_amount_output a unlock h pk s = Inr (n, s')"
    using put t by (simp add: push_amount_output_def u_def s'_def om_get_default_def Let_def)
  moreover have "same_rest s s'" by (auto simp: same_rest_def s'_def get t(3))
  moreover have "ledger_ok s' (lg_push a u L)"
  proof -
    have c: "lg_count b (lg_push a u L) = (if b = a then lg_count a L + 1 else lg_count b L)" for b
      by (simp add: lg_defs)
    have n1: "unat (n + 1) = lg_count a L + 1" using room n by (simp add: unat_word_ariths)
    have k: "lg_keyimages (lg_push a u L) = lg_keyimages L" by (simp add: lg_defs)
    have o: "list_all valid_unp (lg_outputs (lg_push a u L) b)" for b
      using t(2) pk by (auto simp: ledger_ok_def lg_defs u_def valid_unp_def)
    have g: "b = a \<and> unat g = lg_count a L \<longleftrightarrow> b = a \<and> g = n" for b g
      by (auto simp: n word_unat_eq_iff)
    show ?thesis
      using t(2) om_wf_put [OF ledger_okD(1) [OF t(2)] put] room o
      unfolding ledger_ok_def lg_read_push [OF room] k c g
      by (auto simp: s'_def get om_wf_set n1 split: if_splits)
  qed
  ultimately show ?thesis by (auto simp: n_def u_def)
qed

lemma lg_read_pop:
  "lg_outputs L a = xs @ [u] \<Longrightarrow> length xs < 2 ^ 32 \<Longrightarrow> lg_read b g (lg_pop a L) =
     (if b = a \<and> unat g = length xs then None else lg_read b g L)"
  by (auto simp: lg_defs nth_append)

lemma ledger_ok_pop:
  assumes ok: "ledger_ok s L" and L: "lg_outputs L a = xs @ [u]"
    and u: "\<not> unp_spent u" "unp_unlock_time u = unlock" "unp_public_key u = pk"
  shows "\<exists>s'. pop_amount_output a unlock pk s = Inr s' \<and> ledger_ok s' (lg_pop a L) \<and> same_rest s s'"
proof -
  have c: "lg_count a L = Suc (length xs)" by (simp add: lg_defs L)
  then have len: "length xs < 2 ^ 32" "Suc (length xs) < 2 ^ 32" using ledger_okD(6) [OF ok, of a] by simp_all
  define n where "n = (word_of_nat (length xs) :: u32)"
  have n: "unat n = length xs" using len by (simp add: n_def unat_of_nat)
  have n1: "(word_of_nat (lg_count a L) :: u32) = n + 1" by (simp add: c n_def)
  obtain t where t: "next_global_index_for_amount a s = Inr (n + 1, t)" "ledger_ok t L" "bc_db t = bc_db s"
    "om_find a (cs_next_gi_for_amount t) = Some (n + 1)"
    using next_global_index_ok [OF ok, of a] by (auto simp: n1)
  define t' where "t' = t\<lparr>cs_next_gi_for_amount := om_set a n (cs_next_gi_for_amount t)\<rparr>"
  have nz: "n + 1 \<noteq> 0"
  proof -
    have "unat (n + 1) = length xs + 1" using len n by (simp add: unat_word_ariths)
    then show ?thesis by (metis Suc_eq_plus1 nat.distinct(1) unat_0)
  qed
  have r: "lg_read a n L = Some u" by (simp add: lg_defs n L)
  have rd: "read_amount_output a n t' = Inr (Some u)"
    using read_amount_output_ok [OF t(2), of a n] by (simp add: r read_amount_output_def t'_def)
  from r ledger_okD(4) [OF t(2), of a n] obtain db where
    del: "db_del (bc_db t) (amount_output_key a n) True = Inr db" by (auto simp: db_del_def)
  note get = db_get_del [OF ledger_okD(1) [OF t(2)] del]
  have "pop_amount_output a unlock pk s = Inr (t'\<lparr>bc_db := db\<rparr>)"
    using t nz rd del u by (simp add: pop_amount_output_def Let_def om_get_default_def invariant_def t'_def)
  moreover have "same_rest s (t'\<lparr>bc_db := db\<rparr>)" by (auto simp: same_rest_def get t(3))
  moreover have "ledger_ok (t'\<lparr>bc_db := db\<rparr>) (lg_pop a L)"
  proof -
    have cp: "lg_count b (lg_pop a L) = (if b = a then length xs else lg_count b L)" for b
      by (simp add: lg_defs L)
    have k: "lg_keyimages (lg_pop a L) = lg_keyimages L" by (simp add: lg_defs)
    have "list_all valid_unp (lg_outputs L b)" for b using t(2) by (simp add: ledger_ok_def)
    from this this [of a] have o: "list_all valid_unp (lg_outputs (lg_pop a L) b)" for b
      by (simp add: lg_defs L)
    have g: "b = a \<and> unat g = length xs \<longleftrightarrow> b = a \<and> g = n" for b g
      by (auto simp: n [symmetric] word_unat_eq_iff)
    show ?thesis
      using t(2) om_wf_del [OF ledger_okD(1) [OF t(2)] del] len o
      unfolding ledger_ok_def lg_read_pop [OF L len(1)] k cp g
      by (auto simp: t'_def get om_wf_set n split: if_splits)
  qed
  ultimately show ?thesis by blast
qed

lemma ledger_ok_spend:
  assumes ok: "ledger_ok s L"
  shows "\<exists>s'. spend_output a g b s = Inr s' \<and> ledger_ok s' (lg_spend a g b L) \<and> same_rest s s'"
proof (cases "lg_read a g L")
  case None
  with ledger_okD(4) [OF ok, of a g] have "spend_output a g b s = Inr s" by (simp add: spend_output_def)
  moreover have "lg_spend a g b L = L" using None by (auto simp: lg_defs split: if_splits)
  ultimately show ?thesis using ok by simp
next
  case (Some u)
  then have lt: "unat g < lg_count a L" "lg_outputs L a ! unat g = u" by (auto simp: lg_defs split: if_splits)
  define u' where "u' = u\<lparr>unp_spent := b\<rparr>"
  have dec: "from_binary dec_unp (to_binary enc_unp u) = Inr u"
    by (rule unp.from_to_binary [OF ledger_okD(7) [OF ok Some]])
  obtain db where put: "db_put (bc_db s) (amount_output_key a g) (to_binary enc_unp u') False = Inr db"
    by (simp add: db_put_def)
  note get = db_get_put [OF put]
  have "spend_output a g b s = Inr (s\<lparr>bc_db := db\<rparr>)"
    using ledger_okD(4) [OF ok, of a g] Some dec put by (simp add: spend_output_def u'_def)
  moreover have "same_rest s (s\<lparr>bc_db := db\<rparr>)" by (auto simp: same_rest_def get)
  moreover have "ledger_ok (s\<lparr>bc_db := db\<rparr>) (lg_spend a g b L)"
  proof -
    have c: "lg_count x (lg_spend a g b L) = lg_count x L" for x by (simp add: lg_defs)
    have k: "lg_keyimages (lg_spend a g b L) = lg_keyimages L" by (simp add: lg_defs)
    have rd: "lg_read x y (lg_spend a g b L) = (if x = a \<and> y = g then Some u' else lg_read x y L)" for x y
      using lt by (auto simp: lg_defs u'_def nth_list_update word_unat_eq_iff [of y g])
    have "valid_unp u'" using ledger_okD(7) [OF ok Some] by (simp add: valid_unp_def u'_def)
    then have o: "list_all valid_unp (lg_outputs (lg_spend a g b L) x)" for x
      using ok lt by (auto simp: ledger_ok_def lg_defs list_all_iff u'_def dest: set_update_subset_insert [THEN subsetD])
    show ?thesis
      using ok om_wf_put [OF ledger_okD(1) [OF ok] put] o
      unfolding ledger_ok_def c k rd
      by (auto simp: get split: if_splits)
  qed
  ultimately show ?thesis by blast
qed

end
