(* ===== verification/Delta_State.thy ===== *)
theory Delta_State
  imports Chain_Ledger
begin

text \<open>
  \<open>BlockChainState::DeltaState\<close>: changes to a ledger that are collected first and applied
  to the parent at once, and the contract (\<open>ledger_state\<close>) that the chain and the deltas
  both meet, from which the effect of applying a delta follows once for both.
\<close>

section \<open>The state and its operations\<close>

record delta_state =
  ds_keyimages :: "(key_image, height) omap"
  ds_global_amounts :: "(amount, (u64 \<times> public_key) list) omap"
  ds_spent_outputs :: "(amount \<times> u32) list"
  ds_block_height :: height
  ds_unlock_timestamp :: timestamp

definition new_delta :: "height \<Rightarrow> timestamp \<Rightarrow> delta_state" where
  "new_delta block_height unlock_timestamp = \<lparr>ds_keyimages = [], ds_global_amounts = [],
     ds_spent_outputs = [], ds_block_height = block_height, ds_unlock_timestamp = unlock_timestamp\<rparr>"

definition delta_store_keyimage :: "key_image \<Rightarrow> height \<Rightarrow> delta_state \<Rightarrow> delta_state result" where
  "delta_store_keyimage key_image height d =
     (let (m, inserted) = om_insert key_image height (ds_keyimages d) in
      res_bind (invariant inserted (to_hex key_image)) (\<lambda>_. Inr (d\<lparr>ds_keyimages := m\<rparr>)))"

definition delta_delete_keyimage :: "key_image \<Rightarrow> delta_state \<Rightarrow> delta_state result" where
  "delta_delete_keyimage key_image d =
     res_bind (invariant (om_find key_image (ds_keyimages d) \<noteq> None) (to_hex key_image)) (\<lambda>_.
       Inr (d\<lparr>ds_keyimages := om_erase key_image (ds_keyimages d)\<rparr>))"

text \<open>The operations that look at the parent take its view as an argument.\<close>

definition delta_read_keyimage :: "parent_view \<Rightarrow> key_image \<Rightarrow> delta_state \<Rightarrow> height option result" where
  "delta_read_keyimage parent key_image d =
     (case om_find key_image (ds_keyimages d) of
        None \<Rightarrow> v_read_keyimage parent key_image
      | Some _ \<Rightarrow> Inr (Some (ds_block_height d)))"

definition delta_push_amount_output ::
  "parent_view \<Rightarrow> amount \<Rightarrow> unlock_moment \<Rightarrow> height \<Rightarrow> public_key \<Rightarrow> delta_state \<Rightarrow> (u32 \<times> delta_state) result" where
  "delta_push_amount_output parent amount unlock_time block_height pk d =
     res_bind (v_next_global_index_for_amount parent amount) (\<lambda>pg.
       let ga = om_get_default [] amount (ds_global_amounts d) @ [(unlock_time, pk)]
       in Inr (pg + word_of_nat (length ga) - 1,
               d\<lparr>ds_global_amounts := om_set amount ga (ds_global_amounts d)\<rparr>))"

definition delta_pop_amount_output :: "amount \<Rightarrow> unlock_moment \<Rightarrow> public_key \<Rightarrow> delta_state \<Rightarrow> delta_state result" where
  "delta_pop_amount_output amount unlock_time pk d =
     (let el = om_get_default [] amount (ds_global_amounts d) in
      res_bind (invariant (el \<noteq> []) ''DeltaState::pop_amount_output underflow'') (\<lambda>_.
      res_bind (invariant (fst (last el) = unlock_time \<and> snd (last el) = pk)
        ''DeltaState::pop_amount_output wrong element'') (\<lambda>_.
      Inr (d\<lparr>ds_global_amounts := om_set amount (butlast el) (ds_global_amounts d)\<rparr>))))"

definition delta_next_global_index_for_amount :: "parent_view \<Rightarrow> amount \<Rightarrow> delta_state \<Rightarrow> u32 result" where
  "delta_next_global_index_for_amount parent amount d =
     res_bind (v_next_global_index_for_amount parent amount) (\<lambda>pg.
       case om_find amount (ds_global_amounts d) of
         None \<Rightarrow> Inr pg
       | Some git \<Rightarrow> Inr (word_of_nat (length git) + pg))"

definition delta_read_amount_output :: "parent_view \<Rightarrow> amount \<Rightarrow> u32 \<Rightarrow> delta_state \<Rightarrow> unp option result" where
  "delta_read_amount_output parent amount global_index d =
     res_bind (v_next_global_index_for_amount parent amount) (\<lambda>pg.
       if global_index < pg then v_read_amount_output parent amount global_index
       else
         let global_index = global_index - pg in
         case om_find amount (ds_global_amounts d) of
           None \<Rightarrow> Inr None
         | Some git \<Rightarrow>
             if unat global_index \<ge> length git then Inr None
             else Inr (Some \<lparr>unp_unlock_time = fst (git ! unat global_index),
               unp_public_key = snd (git ! unat global_index),
               unp_height = ds_block_height d, unp_spent = False\<rparr>))"

definition delta_spend_output :: "amount \<Rightarrow> u32 \<Rightarrow> delta_state \<Rightarrow> delta_state result" where
  "delta_spend_output amount global_index d =
     Inr (d\<lparr>ds_spent_outputs := ds_spent_outputs d @ [(amount, global_index)]\<rparr>)"

definition delta_ops :: "parent_view \<Rightarrow> delta_state ichain" where
  "delta_ops parent = \<lparr>
     i_store_keyimage = delta_store_keyimage,
     i_delete_keyimage = delta_delete_keyimage,
     i_read_keyimage = delta_read_keyimage parent,
     i_push_amount_output = delta_push_amount_output parent,
     i_pop_amount_output = delta_pop_amount_output,
     i_next_global_index_for_amount = delta_next_global_index_for_amount parent,
     i_read_amount_output = delta_read_amount_output parent,
     i_spend_output = delta_spend_output\<rparr>"

text \<open>\<open>DeltaState::apply\<close>: the key images, then the outputs, then the spends.\<close>

definition apply_delta :: "'s ichain \<Rightarrow> delta_state \<Rightarrow> 's \<Rightarrow> 's result" where
  "apply_delta ops d s =
     res_bind (res_fold (\<lambda>(k, h). i_store_keyimage ops k h) (ds_keyimages d) s) (\<lambda>s.
     res_bind (res_fold (\<lambda>(amount, els). res_fold (\<lambda>(unlock_time, pk) s.
         res_bind (i_push_amount_output ops amount unlock_time (ds_block_height d) pk s) (\<lambda>(_, s). Inr s)) els)
       (ds_global_amounts d) s) (\<lambda>s.
     res_fold (\<lambda>(amount, g). i_spend_output ops amount g) (ds_spent_outputs d) s))"

definition clear_delta :: "height \<Rightarrow> delta_state \<Rightarrow> delta_state" where
  "clear_delta new_block_height d = d\<lparr>ds_block_height := new_block_height, ds_keyimages := [],
     ds_global_amounts := [], ds_spent_outputs := []\<rparr>"

section \<open>The contract of a ledger\<close>

text \<open>
  What an output looks like apart from its spent flag: reading through a delta does not show
  the spends that wait in it, and nothing that reads through one asks.
\<close>

definition unspent :: "unp \<Rightarrow> unp" where
  "unspent u = u\<lparr>unp_spent := False\<rparr>"

text \<open>
  \<open>R s L\<close>: the state \<open>s\<close> stands for the ledger \<open>L\<close>.  Writes happen at the height
  \<open>H\<close>, and outputs are spent after they exist.
\<close>

locale ledger_state =
  fixes ops :: "'s ichain"
    and R :: "'s \<Rightarrow> ledger \<Rightarrow> bool"
    and H :: height
  assumes store: "R s L \<Longrightarrow> i_store_keyimage ops k H s = Inr s' \<Longrightarrow> R s' (lg_store_keyimage k H L)"
    and push: "R s L \<Longrightarrow> lg_count a L < 2 ^ 32 - 1 \<Longrightarrow> pod32 pk \<Longrightarrow>
      \<exists>s'. i_push_amount_output ops a unlock H pk s = Inr (word_of_nat (lg_count a L), s') \<and>
        R s' (lg_push a \<lparr>unp_unlock_time = unlock, unp_public_key = pk, unp_height = H, unp_spent = False\<rparr> L)"
    and spend: "R s L \<Longrightarrow> unat g < lg_count a L \<Longrightarrow>
      \<exists>s'. i_spend_output ops a g s = Inr s' \<and> R s' (lg_spend a g True L)"
    and read_ki: "R s L \<Longrightarrow> i_read_keyimage ops k s = Inr (lg_keyimages L k)"
    and next_gi: "R s L \<Longrightarrow> i_next_global_index_for_amount ops a s = Inr (word_of_nat (lg_count a L))"
    and read_out: "R s L \<Longrightarrow> \<exists>r. i_read_amount_output ops a g s = Inr r \<and>
      map_option unspent r = map_option unspent (lg_read a g L)"
    and small: "R s L \<Longrightarrow> lg_count a L < 2 ^ 32"

text \<open>What a delta makes of the ledger of its parent.\<close>

definition new_output :: "height \<Rightarrow> u64 \<times> public_key \<Rightarrow> unp" where
  "new_output h x = \<lparr>unp_unlock_time = fst x, unp_public_key = snd x, unp_height = h, unp_spent = False\<rparr>"

definition delta_outputs :: "delta_state \<Rightarrow> amount \<Rightarrow> unp list" where
  "delta_outputs d a = map (new_output (ds_block_height d)) (om_get_default [] a (ds_global_amounts d))"

definition lg_spends :: "(amount \<times> u32) list \<Rightarrow> ledger \<Rightarrow> ledger" where
  "lg_spends spends L = fold (\<lambda>(a, g). lg_spend a g True) spends L"

definition delta_base :: "ledger \<Rightarrow> delta_state \<Rightarrow> ledger" where
  "delta_base P d = \<lparr>
     lg_keyimages = (\<lambda>k. case om_find k (ds_keyimages d) of
        None \<Rightarrow> lg_keyimages P k | Some _ \<Rightarrow> Some (ds_block_height d)),
     lg_outputs = (\<lambda>a. lg_outputs P a @ delta_outputs d a)\<rparr>"

definition delta_ledger :: "ledger \<Rightarrow> delta_state \<Rightarrow> ledger" where
  "delta_ledger P d = lg_spends (ds_spent_outputs d) (delta_base P d)"

definition spends_in_range :: "(amount \<times> u32) list \<Rightarrow> ledger \<Rightarrow> bool" where
  "spends_in_range spends L \<longleftrightarrow> (\<forall>(a, g) \<in> set spends. unat g < lg_count a L)"

definition delta_ok :: "ledger \<Rightarrow> height \<Rightarrow> delta_state \<Rightarrow> ledger \<Rightarrow> bool" where
  "delta_ok P h d L \<longleftrightarrow> L = delta_ledger P d \<and> ds_block_height d = h \<and>
     om_wf (ds_keyimages d) \<and> om_wf (ds_global_amounts d) \<and>
     (\<forall>x \<in> set (ds_keyimages d). snd x = h) \<and>
     (\<forall>x \<in> set (ds_global_amounts d). \<forall>y \<in> set (snd x). pod32 (snd y)) \<and>
     spends_in_range (ds_spent_outputs d) (delta_base P d) \<and>
     (\<forall>a. lg_count a (delta_base P d) < 2 ^ 32)"

lemma lg_count_spend [simp]: "lg_count a (lg_spend b g t L) = lg_count a L"
  by (simp add: lg_defs)

lemma lg_spends_simps [simp]:
  "lg_spends [] L = L"
  "lg_spends ((a, g) # sp) L = lg_spends sp (lg_spend a g True L)"
  "lg_spends (sp @ sq) L = lg_spends sq (lg_spends sp L)"
  by (simp_all add: lg_spends_def)

lemma lg_count_spends [simp]: "lg_count a (lg_spends sp L) = lg_count a L"
  by (induction sp arbitrary: L) (auto simp: case_prod_beta split: prod.splits) 

lemma lg_keyimages_spends [simp]: "lg_keyimages (lg_spends sp L) = lg_keyimages L"
  by (induction sp arbitrary: L) (auto simp: lg_spend_def)

lemma lg_count_simps [simp]:
  "lg_count a (lg_store_keyimage k h L) = lg_count a L"
  "lg_count a (lg_push b u L) = (if a = b then lg_count a L + 1 else lg_count a L)"
  by (simp_all add: lg_defs)

lemma lg_spends_store: "lg_spends sp (lg_store_keyimage k h L) = lg_store_keyimage k h (lg_spends sp L)"
proof (induction sp arbitrary: L)
  case (Cons x sp)
  have "lg_spend a g True (lg_store_keyimage k h L) = lg_store_keyimage k h (lg_spend a g True L)" for a g
    by (simp add: lg_defs)
  with Cons show ?case by (cases x) simp
qed simp

lemma lg_spends_push:
  "spends_in_range sp L \<Longrightarrow> lg_spends sp (lg_push a u L) = lg_push a u (lg_spends sp L)"
proof (induction sp arbitrary: L)
  case (Cons x sp)
  obtain b g where x: "x = (b, g)" by fastforce
  with Cons.prems have "unat g < lg_count b L" by (simp add: spends_in_range_def)
  then have "lg_spend b g True (lg_push a u L) = lg_push a u (lg_spend b g True L)"
    by (auto simp: lg_defs nth_append list_update_append fun_upd_twist)
  moreover have "spends_in_range sp (lg_spend b g True L)" using Cons.prems by (simp add: spends_in_range_def)
  ultimately show ?case using Cons.IH by (simp add: x)
qed simp

lemma spends_in_range_mono:
  "spends_in_range sp L \<Longrightarrow> (\<And>a. lg_count a L \<le> lg_count a L') \<Longrightarrow> spends_in_range sp L'"
  unfolding spends_in_range_def by (fastforce elim: less_le_trans)

lemma lg_read_spends: "map_option unspent (lg_read a g (lg_spends sp L)) = map_option unspent (lg_read a g L)"
proof (induction sp arbitrary: L)
  case (Cons x sp)
  obtain b h where x: "x = (b, h)" by fastforce
  have "map_option unspent (lg_read a g (lg_spend b h True L)) = map_option unspent (lg_read a g L)"
    by (auto simp: lg_defs nth_list_update unspent_def)
  with Cons show ?case by (simp add: x)
qed simp

section \<open>Applying a delta\<close>

lemma set_om_set: "x \<in> set (om_set k v m) \<Longrightarrow> x = (k, v) \<or> x \<in> set m"
  by (induction k v m rule: om_set.induct) (auto split: if_splits)

lemma om_case_keys: "(case om_find k m of None \<Rightarrow> a | Some _ \<Rightarrow> b) = (if k \<in> om_keys m then b else a)"
  using om_find_None [of k m] by (cases "om_find k m") auto

definition view_ok :: "parent_view \<Rightarrow> ledger \<Rightarrow> bool" where
  "view_ok v P \<longleftrightarrow>
     (\<forall>k. v_read_keyimage v k = Inr (lg_keyimages P k)) \<and>
     (\<forall>a. v_next_global_index_for_amount v a = Inr (word_of_nat (lg_count a P))) \<and>
     (\<forall>a g. \<exists>r. v_read_amount_output v a g = Inr r \<and>
        map_option unspent r = map_option unspent (lg_read a g P)) \<and>
     (\<forall>a. lg_count a P < 2 ^ 32)"

lemma fold_store_keyimages:
  "fold (\<lambda>x. lg_store_keyimage (fst x) h) m L =
     L\<lparr>lg_keyimages := (\<lambda>k. if k \<in> om_keys m then Some h else lg_keyimages L k)\<rparr>"
proof (induction m arbitrary: L)
  case Nil
  then show ?case by simp
next
  case (Cons x m)
  show ?case unfolding fold.simps comp_def Cons by (simp add: lg_defs fun_eq_iff)
qed

definition lg_append :: "amount \<Rightarrow> unp list \<Rightarrow> ledger \<Rightarrow> ledger" where
  "lg_append a us L = L\<lparr>lg_outputs := (lg_outputs L)(a := lg_outputs L a @ us)\<rparr>"

lemma lg_append_simps [simp]:
  "lg_append a [] L = L" "lg_append a (u # us) L = lg_append a us (lg_push a u L)"
  by (cases L) (simp_all add: lg_append_def lg_push_def)

context ledger_state
begin

lemma view: "R s L \<Longrightarrow> view_ok (view_of ops s) L"
  using read_ki [of s L] next_gi [of s L] read_out [of s L] small [of s L]
  by (simp add: view_ok_def view_of_def)

lemma apply_keyimages:
  assumes "R s L" "\<forall>x \<in> set m. snd x = H"
    and "res_fold (\<lambda>(k, h). i_store_keyimage ops k h) m s = Inr s'"
  shows "R s' (fold (\<lambda>x. lg_store_keyimage (fst x) H) m L)"
  using assms
proof (induction m arbitrary: s L)
  case Nil
  then show ?case by simp
next
  case (Cons x m)
  then have x: "x = (fst x, H)" by (cases x) simp
  then have "res_fold (\<lambda>(k, h). i_store_keyimage ops k h) (x # m) s =
      res_bind (i_store_keyimage ops (fst x) H s) (res_fold (\<lambda>(k, h). i_store_keyimage ops k h) m)"
    by (metis (no_types, lifting) case_prod_conv res_fold.simps(2))
  with Cons.prems obtain t where t: "i_store_keyimage ops (fst x) H s = Inr t"
    "res_fold (\<lambda>(k, h). i_store_keyimage ops k h) m t = Inr s'"
    by (auto simp only: res_bind_eq_Inr)
  have "\<forall>x \<in> set m. snd x = H" using Cons.prems(2) by simp
  from Cons.IH [OF store [OF Cons.prems(1) t(1)] this t(2)] show ?case by simp
qed

lemma apply_outputs:
  assumes "R s L" "lg_count a L + length els < 2 ^ 32" "\<forall>y \<in> set els. pod32 (snd y)"
  shows "\<exists>s'. res_fold (\<lambda>(unlock, pk) s.
      res_bind (i_push_amount_output ops a unlock H pk s) (\<lambda>(_, s). Inr s)) els s = Inr s' \<and>
    R s' (lg_append a (map (new_output H) els) L)"
  using assms
proof (induction els arbitrary: s L)
  case Nil
  then show ?case by simp
next
  case (Cons y els)
  obtain unlock pk where y: "y = (unlock, pk)" by fastforce
  from push [of s L a pk unlock] Cons.prems y obtain t where
    t: "i_push_amount_output ops a unlock H pk s = Inr (word_of_nat (lg_count a L), t)"
      "R t (lg_push a (new_output H (unlock, pk)) L)" by (auto simp: new_output_def)
  with Cons.IH [OF t(2)] Cons.prems y show ?case by simp
qed

lemma apply_amounts:
  assumes "R s L" "distinct (map fst m)"
    and "\<forall>x \<in> set m. lg_count (fst x) L + length (snd x) < 2 ^ 32"
    and "\<forall>x \<in> set m. \<forall>y \<in> set (snd x). pod32 (snd y)"
  shows "\<exists>s'. res_fold (\<lambda>(amount, els). res_fold (\<lambda>(unlock, pk) s.
      res_bind (i_push_amount_output ops amount unlock H pk s) (\<lambda>(_, s). Inr s)) els) m s = Inr s' \<and>
    R s' (L\<lparr>lg_outputs := (\<lambda>a. lg_outputs L a @ map (new_output H) (om_get_default [] a m))\<rparr>)"
  using assms
proof (induction m arbitrary: s L)
  case Nil
  then show ?case by (simp add: om_get_default_def)
next
  case (Cons x m)
  obtain a els where x: "x = (a, els)" by fastforce
  from apply_outputs [of s L a els] Cons.prems x obtain t where
    t: "res_fold (\<lambda>(unlock, pk) s.
        res_bind (i_push_amount_output ops a unlock H pk s) (\<lambda>(_, s). Inr s)) els s = Inr t"
      "R t (lg_append a (map (new_output H) els) L)" by auto
  let ?L = "lg_append a (map (new_output H) els) L"
  have fresh: "om_find a m = None" using Cons.prems(2) x by (simp add: om_find_None om_keys_def)
  have "\<forall>y \<in> set m. lg_count (fst y) ?L + length (snd y) < 2 ^ 32"
    using Cons.prems(2,3) x by (auto simp: lg_append_def lg_count_def)
  with Cons.IH [OF t(2)] Cons.prems x obtain s' where
    s': "res_fold (\<lambda>(amount, els). res_fold (\<lambda>(unlock, pk) s.
        res_bind (i_push_amount_output ops amount unlock H pk s) (\<lambda>(_, s). Inr s)) els) m t = Inr s'"
      "R s' (?L\<lparr>lg_outputs := (\<lambda>a. lg_outputs ?L a @ map (new_output H) (om_get_default [] a m))\<rparr>)" by auto
  have "?L\<lparr>lg_outputs := (\<lambda>b. lg_outputs ?L b @ map (new_output H) (om_get_default [] b m))\<rparr> =
      L\<lparr>lg_outputs := (\<lambda>b. lg_outputs L b @ map (new_output H) (om_get_default [] b (x # m)))\<rparr>"
    using fresh by (auto simp: lg_append_def x om_get_default_def om_find_Cons fun_eq_iff)
  with s' t(1) x show ?case by auto
qed

lemma apply_spends:
  assumes "R s L" "spends_in_range sp L"
  shows "\<exists>s'. res_fold (\<lambda>(amount, g). i_spend_output ops amount g) sp s = Inr s' \<and> R s' (lg_spends sp L)"
  using assms
proof (induction sp arbitrary: s L)
  case Nil
  then show ?case by simp
next
  case (Cons x sp)
  obtain a g where x: "x = (a, g)" by fastforce
  with spend [of s L g a] Cons.prems obtain t where
    "i_spend_output ops a g s = Inr t" "R t (lg_spend a g True L)" by (auto simp: spends_in_range_def)
  with Cons.IH [of t] Cons.prems x show ?case by (simp add: spends_in_range_def)
qed

text \<open>Whatever implements the contract ends up with the ledger of the delta.\<close>

lemma apply_ok:
  assumes R: "R s P" and d: "delta_ok P H d L" and ap: "apply_delta ops d s = Inr s'"
  shows "R s' L"
proof -
  from ap obtain s1 where s1: "res_fold (\<lambda>(k, h). i_store_keyimage ops k h) (ds_keyimages d) s = Inr s1"
    by (auto simp: apply_delta_def res_bind_eq_Inr)
  have h: "ds_block_height d = H" using d by (simp add: delta_ok_def)
  define P1 where "P1 = fold (\<lambda>x. lg_store_keyimage (fst x) H) (ds_keyimages d) P"
  have R1: "R s1 P1" using apply_keyimages [OF R _ s1] d by (simp add: delta_ok_def P1_def)
  have base: "P1\<lparr>lg_outputs := (\<lambda>a. lg_outputs P1 a @ map (new_output H) (om_get_default [] a (ds_global_amounts d)))\<rparr>
      = delta_base P d"
    by (rule ledger.equality) (auto simp: P1_def fold_store_keyimages delta_base_def delta_outputs_def h om_case_keys)
  have count: "lg_count a P1 + length (om_get_default [] a (ds_global_amounts d)) < 2 ^ 32" for a
    using d by (auto simp: delta_ok_def P1_def fold_store_keyimages delta_base_def delta_outputs_def lg_count_def)
  have wf: "om_wf (ds_global_amounts d)" using d by (simp add: delta_ok_def)
  have "\<forall>x \<in> set (ds_global_amounts d). lg_count (fst x) P1 + length (snd x) < 2 ^ 32"
  proof
    fix x
    assume "x \<in> set (ds_global_amounts d)"
    then have "om_find (fst x) (ds_global_amounts d) = Some (snd x)" using om_find_iff [OF wf] by simp
    with count [of "fst x"] show "lg_count (fst x) P1 + length (snd x) < 2 ^ 32" by (simp add: om_get_default_def)
  qed
  with apply_amounts [OF R1 om_wf_distinct [OF wf]] d obtain s2 where
    s2: "res_fold (\<lambda>(amount, els). res_fold (\<lambda>(unlock, pk) s.
        res_bind (i_push_amount_output ops amount unlock H pk s) (\<lambda>(_, s). Inr s)) els) (ds_global_amounts d) s1 = Inr s2"
      "R s2 (delta_base P d)" by (auto simp: delta_ok_def base)
  have "spends_in_range (ds_spent_outputs d) (delta_base P d)" "L = lg_spends (ds_spent_outputs d) (delta_base P d)"
    using d by (simp_all add: delta_ok_def delta_ledger_def)
  with apply_spends [OF s2(2)] obtain s3 where
    "res_fold (\<lambda>(amount, g). i_spend_output ops amount g) (ds_spent_outputs d) s2 = Inr s3" "R s3 L"
    by blast
  with ap s1 s2 show ?thesis by (simp add: apply_delta_def h)
qed

end


section \<open>The contract is met\<close>

text \<open>By the chain, at every height.\<close>

interpretation chain: ledger_state chain_ops ledger_ok H for H
proof unfold_locales
  fix s s' :: chain_state and L k a pk unlock g
  assume ok: "ledger_ok s L"
  show "ledger_ok s' (lg_store_keyimage k H L)" if "i_store_keyimage chain_ops k H s = Inr s'"
    using ledger_ok_store [OF ok, of k H s'] that by (simp add: chain_ops_def)
  show "\<exists>s'. i_push_amount_output chain_ops a unlock H pk s = Inr (word_of_nat (lg_count a L), s') \<and>
      ledger_ok s' (lg_push a \<lparr>unp_unlock_time = unlock, unp_public_key = pk, unp_height = H, unp_spent = False\<rparr> L)"
    if "lg_count a L < 2 ^ 32 - 1" "pod32 pk"
    using ledger_ok_push [OF ok that] by (auto simp: chain_ops_def)
  show "\<exists>s'. i_spend_output chain_ops a g s = Inr s' \<and> ledger_ok s' (lg_spend a g True L)"
    using ledger_ok_spend [OF ok, of a g True] by (auto simp: chain_ops_def)
  show "i_read_keyimage chain_ops k s = Inr (lg_keyimages L k)"
    using read_keyimage_ok [OF ok] by (simp add: chain_ops_def)
  show "i_next_global_index_for_amount chain_ops a s = Inr (word_of_nat (lg_count a L))"
    using next_global_index_ok [OF ok, of a] by (auto simp: chain_ops_def)
  show "\<exists>r. i_read_amount_output chain_ops a g s = Inr r \<and>
      map_option unspent r = map_option unspent (lg_read a g L)"
    using read_amount_output_ok [OF ok, of a g] by (simp add: chain_ops_def)
  show "lg_count a L < 2 ^ 32" by (rule ledger_okD(6) [OF ok])
qed

text \<open>And by a delta over any view that shows its parent's ledger.\<close>

lemma delta_ok_new: "view_ok v P \<Longrightarrow> delta_ok P h (new_delta h t) P"
  by (cases P) (simp add: delta_ok_def new_delta_def delta_ledger_def delta_base_def delta_outputs_def
    om_get_default_def spends_in_range_def lg_count_def view_ok_def)

lemma delta_base_store:
  "delta_base P (d\<lparr>ds_keyimages := om_set k h (ds_keyimages d)\<rparr>) = lg_store_keyimage k (ds_block_height d) (delta_base P d)"
  by (auto simp: delta_base_def lg_defs delta_outputs_def fun_eq_iff om_case_keys)

lemma delta_base_push:
  "delta_base P (d\<lparr>ds_global_amounts := om_set a (om_get_default [] a (ds_global_amounts d) @ [x]) (ds_global_amounts d)\<rparr>) =
     lg_push a (new_output (ds_block_height d) x) (delta_base P d)"
  by (auto simp: delta_base_def lg_defs delta_outputs_def om_get_default_def fun_eq_iff om_case_keys)

lemma delta_base_spent [simp]: "delta_base P (d\<lparr>ds_spent_outputs := sp\<rparr>) = delta_base P d"
  by (auto simp: delta_base_def delta_outputs_def om_case_keys fun_eq_iff)

lemma delta_ok_store:
  assumes d: "delta_ok P h d L" and st: "delta_store_keyimage k h d = Inr d'"
  shows "delta_ok P h d' (lg_store_keyimage k h L)"
proof -
  from st have d': "d' = d\<lparr>ds_keyimages := om_set k h (ds_keyimages d)\<rparr>"
    by (auto simp: delta_store_keyimage_def om_insert_def res_bind_eq_Inr split: option.splits)
  have h: "ds_block_height d = h" using d by (simp add: delta_ok_def)
  have "\<forall>x \<in> set (om_set k h (ds_keyimages d)). snd x = h"
    using d by (auto simp: delta_ok_def om_find_iff [symmetric] simp flip: h split: if_splits)
  then show ?thesis
    using d unfolding delta_ok_def d'
    by (simp add: delta_ledger_def delta_base_store h lg_spends_store spends_in_range_def)
qed

lemma word_sum_less: "a + b < 2 ^ 32 \<Longrightarrow> unat (word_of_nat a + word_of_nat b :: u32) = a + b"
  by (simp add: unat_of_nat flip: of_nat_add)

lemma lg_count_delta: "delta_ok P h d L \<Longrightarrow> lg_count a L = lg_count a P + length (om_get_default [] a (ds_global_amounts d))"
  by (simp add: delta_ok_def delta_ledger_def delta_base_def delta_outputs_def)
    (simp add: lg_count_def)

lemma delta_ok_push:
  assumes v: "view_ok v P" and d: "delta_ok P h d L" and room: "lg_count a L < 2 ^ 32 - 1" and pk: "pod32 pk"
  shows "\<exists>d'. delta_push_amount_output v a unlock h' pk d = Inr (word_of_nat (lg_count a L), d') \<and>
    delta_ok P h d' (lg_push a (new_output h (unlock, pk)) L) \<and>
    ds_block_height d' = ds_block_height d \<and> ds_unlock_timestamp d' = ds_unlock_timestamp d"
proof -
  define els where "els = om_get_default [] a (ds_global_amounts d)"
  define d' where "d' = d\<lparr>ds_global_amounts := om_set a (els @ [(unlock, pk)]) (ds_global_amounts d)\<rparr>"
  have h: "ds_block_height d = h" and L: "L = delta_ledger P d" using d by (simp_all add: delta_ok_def)
  have c: "lg_count a L = lg_count a P + length els"
    by (simp add: lg_count_delta [OF d] els_def)
  have "delta_push_amount_output v a unlock h' pk d = Inr (word_of_nat (lg_count a L), d')"
    using v by (simp add: delta_push_amount_output_def view_ok_def Let_def d'_def els_def [symmetric] c)
  moreover have "delta_ok P h d' (lg_push a (new_output h (unlock, pk)) L)"
  proof -
    have base: "delta_base P d' = lg_push a (new_output h (unlock, pk)) (delta_base P d)"
      using delta_base_push [where P = P and d = d and a = a and x = "(unlock, pk)"] by (simp add: d'_def els_def h)
    have range: "spends_in_range (ds_spent_outputs d) (delta_base P d)" using d by (simp add: delta_ok_def)
    have pods: "\<forall>x \<in> set (ds_global_amounts d'). \<forall>y \<in> set (snd x). pod32 (snd y)"
    proof
      fix x
      assume "x \<in> set (ds_global_amounts d')"
      then have "snd x = els @ [(unlock, pk)] \<or> x \<in> set (ds_global_amounts d)"
        by (auto simp: d'_def dest: set_om_set)
      moreover have "\<forall>y \<in> set els. pod32 (snd y)"
      proof (cases "om_find a (ds_global_amounts d)")
        case (Some e)
        with d om_find_SomeD [OF Some] show ?thesis by (auto simp: els_def om_get_default_def delta_ok_def)
      qed (simp add: els_def om_get_default_def)
      ultimately show "\<forall>y \<in> set (snd x). pod32 (snd y)"
        using d pk by (auto simp: delta_ok_def)
    qed
    have range': "spends_in_range (ds_spent_outputs d') (delta_base P d')"
      unfolding base by (rule spends_in_range_mono [of _ "delta_base P d"]) (simp_all add: d'_def range)
    have "lg_count b (delta_base P d') < 2 ^ 32" for b
      using d room unfolding base by (auto simp: delta_ok_def L delta_ledger_def)
    then show ?thesis
      using d pods range range'
      unfolding delta_ok_def delta_ledger_def base
      by (auto simp: d'_def lg_spends_push L delta_ledger_def)
  qed
  ultimately show ?thesis by (intro exI [of _ d']) (simp add: d'_def)
qed

lemma delta_ok_spend:
  assumes d: "delta_ok P h d L" and g: "unat g < lg_count a L"
  shows "\<exists>d'. delta_spend_output a g d = Inr d' \<and> delta_ok P h d' (lg_spend a g True L)"
  using assms by (auto simp: delta_spend_output_def delta_ok_def delta_ledger_def spends_in_range_def)

lemma delta_read_keyimage_ok:
  "view_ok v P \<Longrightarrow> delta_ok P h d L \<Longrightarrow> delta_read_keyimage v k d = Inr (lg_keyimages L k)"
  by (auto simp: delta_read_keyimage_def delta_ok_def delta_ledger_def delta_base_def view_ok_def split: option.split)

lemma delta_next_ok:
  "view_ok v P \<Longrightarrow> delta_ok P h d L \<Longrightarrow> delta_next_global_index_for_amount v a d = Inr (word_of_nat (lg_count a L))"
  by (auto simp: delta_next_global_index_for_amount_def lg_count_delta view_ok_def om_get_default_def add.commute
    split: option.split)

lemma delta_read_amount_output_ok:
  assumes v: "view_ok v P" and d: "delta_ok P h d L"
  shows "\<exists>r. delta_read_amount_output v a g d = Inr r \<and> map_option unspent r = map_option unspent (lg_read a g L)"
proof -
  have small: "lg_count a P < 2 ^ 32" and nx: "v_next_global_index_for_amount v a = Inr (word_of_nat (lg_count a P))"
    using v by (auto simp: view_ok_def)
  have pg: "unat (word_of_nat (lg_count a P) :: u32) = lg_count a P" using small by (simp add: unat_of_nat)
  have rd: "map_option unspent (lg_read a g L) = map_option unspent (lg_read a g (delta_base P d))"
    using d by (simp add: delta_ok_def delta_ledger_def lg_read_spends)
  have h: "ds_block_height d = h" using d by (simp add: delta_ok_def)
  show ?thesis
  proof (cases "unat g < lg_count a P")
    case True
    then have "g < word_of_nat (lg_count a P)" by (simp add: word_less_nat_alt pg)
    moreover have "lg_read a g (delta_base P d) = lg_read a g P"
      using True by (simp add: lg_read_def delta_base_def lg_count_def nth_append)
    ultimately show ?thesis
      using v nx rd by (auto simp: delta_read_amount_output_def view_ok_def)
  next
    case False
    then have ng: "\<not> g < word_of_nat (lg_count a P)" by (simp add: word_less_nat_alt pg)
    have sub: "unat (g - word_of_nat (lg_count a P)) = unat g - lg_count a P"
      using False by (simp add: unat_sub word_le_nat_alt pg)
    show ?thesis
      using ng nx False sub
      unfolding rd
      by (auto simp: delta_read_amount_output_def Let_def lg_read_def delta_base_def lg_count_def nth_append
        delta_outputs_def om_get_default_def new_output_def unspent_def h split: option.split)
  qed
qed

text \<open>A delta over a right view meets the contract, at its own height.\<close>

lemma delta_ledger_state:
  assumes v: "view_ok v P"
  shows "ledger_state (delta_ops v) (delta_ok P h) h"
proof unfold_locales
  fix d d' L k a pk unlock g
  assume d: "delta_ok P h d L"
  show "delta_ok P h d' (lg_store_keyimage k h L)" if "i_store_keyimage (delta_ops v) k h d = Inr d'"
    using delta_ok_store [OF d] that by (simp add: delta_ops_def)
  show "\<exists>d'. i_push_amount_output (delta_ops v) a unlock h pk d = Inr (word_of_nat (lg_count a L), d') \<and>
      delta_ok P h d' (lg_push a \<lparr>unp_unlock_time = unlock, unp_public_key = pk, unp_height = h, unp_spent = False\<rparr> L)"
    if "lg_count a L < 2 ^ 32 - 1" "pod32 pk"
    using delta_ok_push [OF v d that] by (auto simp: delta_ops_def new_output_def)
  show "\<exists>d'. i_spend_output (delta_ops v) a g d = Inr d' \<and> delta_ok P h d' (lg_spend a g True L)"
    if "unat g < lg_count a L" using delta_ok_spend [OF d that] by (simp add: delta_ops_def)
  show "i_read_keyimage (delta_ops v) k d = Inr (lg_keyimages L k)"
    using delta_read_keyimage_ok [OF v d] by (simp add: delta_ops_def)
  show "i_next_global_index_for_amount (delta_ops v) a d = Inr (word_of_nat (lg_count a L))"
    using delta_next_ok [OF v d] by (simp add: delta_ops_def)
  show "\<exists>r. i_read_amount_output (delta_ops v) a g d = Inr r \<and> map_option unspent r = map_option unspent (lg_read a g L)"
    using delta_read_amount_output_ok [OF v d] by (simp add: delta_ops_def)
  show "lg_count a L < 2 ^ 32" using d by (auto simp: delta_ok_def delta_ledger_def)
qed

end
