(* ===== verification/Ring_Checker.thy ===== *)
theory Ring_Checker
  imports Delta_State "HOL-Library.Multiset"
begin

text \<open>
  \<open>Core/RingCheckerMulticore\<close>: the ring signatures of a block are collected by one thread
  (\<open>start_work_get_error\<close>) and checked by a pool of worker threads.  The workers are a step
  relation; the answer of \<open>signatures_valid\<close> does not depend on how they are scheduled.
\<close>

section \<open>Collecting the work\<close>

record ring_signature_arg =
  ra_tx_prefix_hash :: hash
  ra_key_image :: key_image
  ra_output_keys :: "public_key list"
  ra_signatures :: "signature list"

definition get_transaction_prefix_hash :: "crypto_env \<Rightarrow> 'a transaction_prefix_scheme \<Rightarrow> hash" where
  "get_transaction_prefix_hash env tx = cn_fast_hash env (to_binary enc_prefix tx)"

text \<open>The relative output indexes of an input as absolute ones.\<close>

fun running_sums :: "u32 \<Rightarrow> u32 list \<Rightarrow> u32 list" where
  "running_sums prev [] = []"
| "running_sums prev (x # xs) = (prev + x) # running_sums (prev + x) xs"

definition global_indexes :: "u32 list \<Rightarrow> u32 list" where
  "global_indexes output_indexes = (case output_indexes of [] \<Rightarrow> [] | x # xs \<Rightarrow> x # running_sums x xs)"

text \<open>The loop over the outputs of a ring: an error, or their keys.\<close>

fun ring_output_keys ::
  "currency \<Rightarrow> (u32 \<Rightarrow> unp option result) \<Rightarrow> height \<Rightarrow> timestamp \<Rightarrow> u32 list \<Rightarrow> (string + public_key list) result" where
  "ring_output_keys c read unlock_height unlock_timestamp [] = Inr (Inr [])"
| "ring_output_keys c read unlock_height unlock_timestamp (g # gs) =
     res_bind (read g) (\<lambda>r. case r of
         None \<Rightarrow> Inr (Inl ''INPUT_INVALID_GLOBAL_INDEX'')
       | Some u \<Rightarrow>
           if \<not> is_transaction_spend_time_unlocked c (unp_unlock_time u) unlock_height unlock_timestamp
           then Inr (Inl ''INPUT_SPEND_LOCKED_OUT'')
           else res_bind (ring_output_keys c read unlock_height unlock_timestamp gs) (\<lambda>rest.
             case rest of Inl e \<Rightarrow> Inr (Inl e) | Inr keys \<Rightarrow> Inr (Inr (unp_public_key u # keys))))"

text \<open>One key input: an error, or the work item.\<close>

definition ring_arg ::
  "currency \<Rightarrow> parent_view \<Rightarrow> height \<Rightarrow> timestamp \<Rightarrow> hash \<Rightarrow> signature list \<Rightarrow> key_input \<Rightarrow>
     (string + ring_signature_arg) result" where
  "ring_arg c state unlock_height unlock_timestamp tx_prefix_hash sigs inp =
     res_bind (v_read_keyimage state (ki_key_image inp)) (\<lambda>spent.
       if spent \<noteq> None then Inr (Inl ''INPUT_KEYIMAGE_ALREADY_SPENT'')
       else if ki_output_indexes inp = [] then Inr (Inl ''INPUT_UNKNOWN_TYPE'')
       else
         res_bind (ring_output_keys c (v_read_amount_output state (ki_amount inp)) unlock_height unlock_timestamp
             (global_indexes (ki_output_indexes inp))) (\<lambda>r.
           case r of
             Inl e \<Rightarrow> Inr (Inl e)
           | Inr keys \<Rightarrow> Inr (Inr \<lparr>ra_tx_prefix_hash = tx_prefix_hash, ra_key_image = ki_key_image inp,
               ra_output_keys = keys, ra_signatures = sigs\<rparr>)))"

text \<open>The inputs of a transaction with the index \<open>input_index\<close>; the loop stops at the first error.\<close>

fun ring_args_inputs ::
  "currency \<Rightarrow> parent_view \<Rightarrow> height \<Rightarrow> timestamp \<Rightarrow> hash \<Rightarrow> signature list list \<Rightarrow> nat \<Rightarrow>
     transaction_input list \<Rightarrow> (string \<times> ring_signature_arg list) result" where
  "ring_args_inputs c state h t ph sigs i [] = Inr ([], [])"
| "ring_args_inputs c state h t ph sigs i (CoinbaseInput _ # ins) = ring_args_inputs c state h t ph sigs (i + 1) ins"
| "ring_args_inputs c state h t ph sigs i (KeyInput inp # ins) =
     res_bind (ring_arg c state h t ph (sigs ! i) inp) (\<lambda>r.
       case r of
         Inl e \<Rightarrow> Inr (e, [])
       | Inr arg \<Rightarrow> res_bind (ring_args_inputs c state h t ph sigs (i + 1) ins) (\<lambda>(e, args). Inr (e, arg # args)))"

fun ring_args_transactions ::
  "crypto_env \<Rightarrow> currency \<Rightarrow> parent_view \<Rightarrow> height \<Rightarrow> timestamp \<Rightarrow> transaction list \<Rightarrow>
     (string \<times> ring_signature_arg list) result" where
  "ring_args_transactions env c state h t [] = Inr ([], [])"
| "ring_args_transactions env c state h t (tx # txs) =
     res_bind (ring_args_inputs c state h t (get_transaction_prefix_hash env tx) (tx_signatures tx) 0 (tx_inputs tx))
       (\<lambda>(e, args). if e \<noteq> [] then Inr (e, args)
          else res_bind (ring_args_transactions env c state h t txs) (\<lambda>(e', args'). Inr (e', args @ args')))"

text \<open>
  \<open>start_work_get_error\<close>: the error (empty when there is none), and the items it pushed to
  the queue; \<open>total_counter\<close> is their number.
\<close>

definition start_work_get_error ::
  "crypto_env \<Rightarrow> currency \<Rightarrow> parent_view \<Rightarrow> block \<Rightarrow> height \<Rightarrow> timestamp \<Rightarrow> (string \<times> ring_signature_arg list) result" where
  "start_work_get_error env c state block unlock_height unlock_timestamp =
     ring_args_transactions env c state unlock_height unlock_timestamp (blk_transactions block)"

definition check_ring_arg :: "crypto_env \<Rightarrow> ring_signature_arg \<Rightarrow> bool \<times> bool" where
  "check_ring_arg env arg = check_ring_signature env (ra_tx_prefix_hash arg) (ra_key_image arg)
     (ra_output_keys arg) (ra_signatures arg)"

text \<open>What \<open>signatures_valid\<close> answers once every item is checked; \<open>checker_answer\<close> below.\<close>

definition ring_signatures_valid :: "crypto_env \<Rightarrow> ring_signature_arg list \<Rightarrow> bool" where
  "ring_signatures_valid env args \<longleftrightarrow> list_all (\<lambda>a. fst (check_ring_arg env a)) args"

section \<open>The workers\<close>

text \<open>
  The shared state; \<open>rc_running\<close> are the items the workers have taken, each with the
  \<open>work_counter\<close> it was taken under.
\<close>

record ring_checker =
  rc_total_counter :: nat
  rc_ready_counter :: nat
  rc_errors :: "string list"
  rc_args :: "ring_signature_arg list"
  rc_work_counter :: nat
  rc_running :: "(nat \<times> ring_signature_arg) list"

definition ring_checker_init :: ring_checker where
  "ring_checker_init = \<lparr>rc_total_counter = 0, rc_ready_counter = 0, rc_errors = [], rc_args = [],
     rc_work_counter = 0, rc_running = []\<rparr>"

text \<open>The first critical section of \<open>start_work_get_error\<close>, and \<open>cancel_work\<close>.\<close>

definition checker_reset :: "ring_checker \<Rightarrow> ring_checker" where
  "checker_reset rc = rc\<lparr>rc_args := [], rc_errors := [], rc_ready_counter := 0,
     rc_work_counter := rc_work_counter rc + 1, rc_total_counter := 0\<rparr>"

definition cancel_work :: "ring_checker \<Rightarrow> ring_checker" where
  "cancel_work rc = rc\<lparr>rc_args := [], rc_work_counter := rc_work_counter rc + 1\<rparr>"

definition checker_push :: "ring_signature_arg \<Rightarrow> ring_checker \<Rightarrow> ring_checker" where
  "checker_push arg rc = rc\<lparr>rc_total_counter := rc_total_counter rc + 1, rc_args := rc_args rc @ [arg]\<rparr>"

text \<open>A worker takes the front of the queue, and later reports its result.\<close>

definition worker_take :: "ring_checker \<Rightarrow> ring_checker option" where
  "worker_take rc = (case rc_args rc of
       [] \<Rightarrow> None
     | arg # args \<Rightarrow> Some (rc\<lparr>rc_args := args, rc_running := rc_running rc @ [(rc_work_counter rc, arg)]\<rparr>))"

definition worker_report :: "crypto_env \<Rightarrow> nat \<Rightarrow> ring_checker \<Rightarrow> ring_checker option" where
  "worker_report env i rc =
     (if i < length (rc_running rc) then
        (let (local_work_counter, arg) = rc_running rc ! i;
             (result, key_corrupted) = check_ring_arg env arg;
             rc = rc\<lparr>rc_running := take i (rc_running rc) @ drop (Suc i) (rc_running rc)\<rparr>
         in Some (if local_work_counter = rc_work_counter rc
             then rc\<lparr>rc_ready_counter := rc_ready_counter rc + 1,
               rc_errors := rc_errors rc @
                 (if \<not> result \<and> key_corrupted then [''INPUT_CORRUPTED_SIGNATURES'']
                  else if \<not> result \<and> \<not> key_corrupted then [''INPUT_INVALID_SIGNATURES''] else [])\<rparr>
             else rc))
      else None)"

inductive worker_step :: "crypto_env \<Rightarrow> ring_checker \<Rightarrow> ring_checker \<Rightarrow> bool" for env where
  take: "worker_take rc = Some rc' \<Longrightarrow> worker_step env rc rc'"
| report: "worker_report env i rc = Some rc' \<Longrightarrow> worker_step env rc rc'"

text \<open>\<open>signatures_valid\<close> waits for all results, then looks at the errors.\<close>

definition signatures_valid :: "ring_checker \<Rightarrow> bool option" where
  "signatures_valid rc = (if rc_ready_counter rc \<noteq> rc_total_counter rc then None else Some (rc_errors rc = []))"

text \<open>
  A run: the main thread starts a job and pushes its items one by one, with workers stepping in
  between, also workers that still hold items of earlier jobs.  \<open>jobs\<close> are the items
  pushed so far.
\<close>

inductive checker_run :: "crypto_env \<Rightarrow> ring_checker \<Rightarrow> ring_signature_arg list \<Rightarrow> bool" for env where
  init: "checker_run env ring_checker_init []"
| start: "checker_run env rc jobs \<Longrightarrow> checker_run env (checker_reset rc) []"
| push: "checker_run env rc jobs \<Longrightarrow> checker_run env (checker_push arg rc) (jobs @ [arg])"
| work: "checker_run env rc jobs \<Longrightarrow> worker_step env rc rc' \<Longrightarrow> checker_run env rc' jobs"

inductive_cases worker_stepE: "worker_step env rc rc'"

section \<open>The answer does not depend on the schedule\<close>

text \<open>The items of the current job that workers hold.\<close>

definition current :: "ring_checker \<Rightarrow> ring_signature_arg list" where
  "current rc = map snd (filter (\<lambda>(n, _). n = rc_work_counter rc) (rc_running rc))"

text \<open>
  Every item of the job is in the queue, with a worker, or counted as ready; and there is an
  error exactly when one of the items that are ready is invalid.
\<close>

definition checker_inv :: "crypto_env \<Rightarrow> ring_checker \<Rightarrow> ring_signature_arg list \<Rightarrow> bool" where
  "checker_inv env rc jobs \<longleftrightarrow>
     rc_total_counter rc = length jobs \<and>
     (\<forall>(n, _) \<in> set (rc_running rc). n \<le> rc_work_counter rc) \<and>
     (\<exists>ready. mset jobs = mset (rc_args rc) + mset (current rc) + mset ready \<and>
        rc_ready_counter rc = length ready \<and>
        (rc_errors rc = [] \<longleftrightarrow> ring_signatures_valid env ready))"

lemma filter_remove:
  assumes "i < length xs"
  shows "mset (map snd (filter P xs)) =
    mset (map snd (filter P (take i xs @ drop (Suc i) xs))) + (if P (xs ! i) then {#snd (xs ! i)#} else {#})"
proof -
  have "xs = take i xs @ xs ! i # drop (Suc i) xs" using assms by (simp add: id_take_nth_drop)
  then have "filter P xs = filter P (take i xs @ xs ! i # drop (Suc i) xs)" by (rule arg_cong)
  also have "\<dots> = filter P (take i xs) @ (if P (xs ! i) then [xs ! i] else []) @ filter P (drop (Suc i) xs)"
    by simp
  finally have "mset (map snd (filter P xs)) = mset (map snd
      (filter P (take i xs) @ (if P (xs ! i) then [xs ! i] else []) @ filter P (drop (Suc i) xs)))"
    by (rule arg_cong)
  also have "\<dots> = mset (map snd (filter P (take i xs @ drop (Suc i) xs))) +
      (if P (xs ! i) then {#snd (xs ! i)#} else {#})" by simp
  finally show ?thesis .
qed

lemma checker_inv_step:
  assumes inv: "checker_inv env rc jobs" and step: "worker_step env rc rc'"
  shows "checker_inv env rc' jobs"
proof (rule worker_stepE [OF step])
  assume "worker_take rc = Some rc'"
  then obtain arg args where a: "rc_args rc = arg # args"
    and rc': "rc' = rc\<lparr>rc_args := args, rc_running := rc_running rc @ [(rc_work_counter rc, arg)]\<rparr>"
    by (cases "rc_args rc") (simp_all add: worker_take_def)
  from inv show ?thesis by (auto simp: checker_inv_def rc' a current_def)
next
  fix i
  assume rep: "worker_report env i rc = Some rc'"
  obtain n arg where na: "rc_running rc ! i = (n, arg)" by fastforce
  obtain ok bad where ob: "check_ring_arg env arg = (ok, bad)" by fastforce
  from inv obtain ready where ready: "mset jobs = mset (rc_args rc) + mset (current rc) + mset ready"
    "rc_ready_counter rc = length ready" "rc_errors rc = [] \<longleftrightarrow> ring_signatures_valid env ready"
    by (auto simp: checker_inv_def)
  from rep have i: "i < length (rc_running rc)" by (simp add: worker_report_def split: if_splits)
  let ?run = "take i (rc_running rc) @ drop (Suc i) (rc_running rc)"
  have mono: "\<forall>(m, _) \<in> set ?run. m \<le> rc_work_counter rc"
    using inv by (auto simp: checker_inv_def dest: in_set_takeD in_set_dropD)
  show ?thesis
  proof (cases "n = rc_work_counter rc")
    case True
    with rep i na ob have rc': "rc' = rc\<lparr>rc_running := ?run, rc_ready_counter := rc_ready_counter rc + 1,
      rc_errors := rc_errors rc @ (if \<not> ok \<and> bad then [''INPUT_CORRUPTED_SIGNATURES'']
        else if \<not> ok \<and> \<not> bad then [''INPUT_INVALID_SIGNATURES''] else [])\<rparr>"
      by (simp add: worker_report_def Let_def)
    have "mset (current rc) = mset (current rc') + {#arg#}"
      using filter_remove [OF i, of "\<lambda>(m, _). m = rc_work_counter rc"] True na by (simp add: current_def rc')
    then have "mset jobs = mset (rc_args rc') + mset (current rc') + mset (ready @ [arg])"
      using ready(1) by (simp add: rc')
    moreover have "rc_errors rc' = [] \<longleftrightarrow> ring_signatures_valid env (ready @ [arg])"
      using ready(3) ob by (auto simp: rc' ring_signatures_valid_def)
    ultimately show ?thesis
      using inv mono ready(2) unfolding checker_inv_def by (auto simp: rc' intro!: exI [of _ "ready @ [arg]"])
  next
    case False
    with rep i na ob have rc': "rc' = rc\<lparr>rc_running := ?run\<rparr>" by (simp add: worker_report_def Let_def)
    have "mset (current rc) = mset (current rc')"
      using filter_remove [OF i, of "\<lambda>(m, _). m = rc_work_counter rc"] False na by (simp add: current_def rc')
    then show ?thesis using inv mono ready unfolding checker_inv_def by (auto simp: rc')
  qed
qed

lemma checker_run_inv: "checker_run env rc jobs \<Longrightarrow> checker_inv env rc jobs"
proof (induction rule: checker_run.induct)
  case init
  then show ?case by (simp add: checker_inv_def ring_checker_init_def current_def ring_signatures_valid_def)
next
  case (start rc jobs)
  then have "\<forall>(n, _) \<in> set (rc_running rc). n < rc_work_counter rc + 1"
    by (auto simp: checker_inv_def less_Suc_eq_le)
  then have "filter (\<lambda>(n, _). n = rc_work_counter rc + 1) (rc_running rc) = []"
    by (auto simp: filter_empty_conv)
  with start.IH show ?case
    by (fastforce simp: checker_inv_def checker_reset_def current_def ring_signatures_valid_def)
next
  case (push rc jobs arg)
  then obtain ready where "mset jobs = mset (rc_args rc) + mset (current rc) + mset ready"
    "rc_ready_counter rc = length ready" "rc_errors rc = [] \<longleftrightarrow> ring_signatures_valid env ready"
    by (auto simp: checker_inv_def)
  with push.IH show ?case
    by (auto simp: checker_inv_def checker_push_def current_def intro!: exI [of _ ready])
next
  case (work rc jobs rc')
  then show ?case by (simp add: checker_inv_step)
qed

text \<open>
  C8: whatever the scheduling of the worker threads, and whatever they still hold of earlier
  blocks, when \<open>signatures_valid\<close> answers it says whether every ring signature of the current
  block is valid.
\<close>

theorem checker_answer:
  assumes run: "checker_run env rc jobs" and answer: "signatures_valid rc = Some b"
  shows "b \<longleftrightarrow> ring_signatures_valid env jobs"
proof -
  from checker_run_inv [OF run] obtain ready where
    r: "mset jobs = mset (rc_args rc) + mset (current rc) + mset ready"
    "rc_ready_counter rc = length ready" "rc_errors rc = [] \<longleftrightarrow> ring_signatures_valid env ready"
    "rc_total_counter rc = length jobs"
    by (auto simp: checker_inv_def)
  with answer have "length jobs = length ready" by (simp add: signatures_valid_def split: if_splits)
  moreover have "length jobs = length (rc_args rc) + length (current rc) + length ready"
    using arg_cong [OF r(1), of size] by simp
  ultimately have "mset jobs = mset ready" using r(1) by simp
  then have "set jobs = set ready" by (rule mset_eq_setD)
  with r answer show ?thesis
    by (auto simp: signatures_valid_def ring_signatures_valid_def list_all_iff split: if_splits)
qed

text \<open>A run of one worker over one item.\<close>

definition sample_arg :: ring_signature_arg where
  "sample_arg = \<lparr>ra_tx_prefix_hash = null_hash, ra_key_image = null_hash, ra_output_keys = [null_hash],
     ra_signatures = [null_hash @ null_hash]\<rparr>"

definition sample_run :: ring_checker where
  "sample_run = \<lparr>rc_total_counter = 1, rc_ready_counter = 1, rc_errors = [], rc_args = [],
     rc_work_counter = 1, rc_running = []\<rparr>"

lemma sample_run: "checker_run sample_env sample_run [sample_arg]"
proof -
  let ?pushed = "checker_push sample_arg (checker_reset ring_checker_init)"
  let ?taken = "?pushed\<lparr>rc_args := [], rc_running := [(1, sample_arg)]\<rparr>"
  have "checker_run sample_env ?pushed ([] @ [sample_arg])"
    by (rule checker_run.push [OF checker_run.start [OF checker_run.init]])
  moreover have "worker_step sample_env ?pushed ?taken"
    by (rule worker_step.take)
      (simp add: worker_take_def checker_push_def checker_reset_def ring_checker_init_def)
  ultimately have "checker_run sample_env ?taken [sample_arg]" by (auto intro: checker_run.work)
  moreover have "worker_step sample_env ?taken sample_run"
    by (rule worker_step.report [of _ 0])
      (simp add: worker_report_def check_ring_arg_def sample_env_def sample_run_def checker_push_def
        checker_reset_def ring_checker_init_def)
  ultimately show ?thesis by (rule checker_run.work)
qed

theorem checker_answer_witness:
  "signatures_valid sample_run = Some True \<and> (True \<longleftrightarrow> ring_signatures_valid sample_env [sample_arg])"
proof -
  have "signatures_valid sample_run = Some True" by (simp add: signatures_valid_def sample_run_def)
  with checker_answer [OF sample_run this] show ?thesis by simp
qed

end
