(* ===== verification/Block_State.thy ===== *)
theory Block_State
  imports Ring_Checker
begin

text \<open>
  Applying blocks to the ledger and taking them back (\<open>redo_transaction_get_error\<close>,
  \<open>redo_block\<close>, \<open>undo_transaction\<close>, \<open>undo_block\<close> of
  \<open>Core/BlockChainState.cpp\<close>).  What they do to the ledger is proved in \<open>Redo_Undo\<close>.
\<close>

section \<open>Redoing a transaction\<close>

text \<open>The outputs of a ring: an error or their keys, and the greatest height seen.\<close>

fun redo_output_keys ::
  "currency \<Rightarrow> (u32 \<Rightarrow> unp option result) \<Rightarrow> height \<Rightarrow> timestamp \<Rightarrow> u32 list \<Rightarrow> height \<Rightarrow>
     ((string + public_key list) \<times> height) result" where
  "redo_output_keys c read block_height unlock_timestamp [] conflict = Inr (Inr [], conflict)"
| "redo_output_keys c read block_height unlock_timestamp (g # gs) conflict =
     res_bind (read g) (\<lambda>r. case r of
         None \<Rightarrow> Inr (Inl ''INPUT_INVALID_GLOBAL_INDEX'', cy_max_block_height c)
       | Some u \<Rightarrow>
           let conflict = max conflict (unp_height u) in
           if \<not> is_transaction_spend_time_unlocked c (unp_unlock_time u) block_height unlock_timestamp
           then Inr (Inl ''INPUT_SPEND_LOCKED_OUT'', conflict)
           else res_bind (redo_output_keys c read block_height unlock_timestamp gs conflict) (\<lambda>(rest, conflict).
             Inr (case rest of Inl e \<Rightarrow> Inl e | Inr keys \<Rightarrow> Inr (unp_public_key u # keys), conflict)))"

text \<open>The checks of a key input: an error (empty if there is none), and \<open>conflict_height\<close>.\<close>

definition check_key_input ::
  "crypto_env \<Rightarrow> currency \<Rightarrow> parent_view \<Rightarrow> height \<Rightarrow> timestamp \<Rightarrow> hash \<Rightarrow> signature list \<Rightarrow> key_input \<Rightarrow>
     delta_state \<Rightarrow> height \<Rightarrow> (string \<times> height) result" where
  "check_key_input env c parent block_height unlock_timestamp tx_prefix_hash sigs inp tx_delta conflict =
     res_bind (delta_read_keyimage parent (ki_key_image inp) tx_delta) (\<lambda>spent. case spent of
       Some height \<Rightarrow> Inr (''INPUT_KEYIMAGE_ALREADY_SPENT'', height)
     | None \<Rightarrow>
         if ki_output_indexes inp = [] then Inr (''INPUT_UNKNOWN_TYPE'', conflict)
         else
           res_bind (redo_output_keys c (\<lambda>g. delta_read_amount_output parent (ki_amount inp) g tx_delta)
               block_height unlock_timestamp (global_indexes (ki_output_indexes inp)) conflict) (\<lambda>(r, conflict).
             case r of
               Inl e \<Rightarrow> Inr (e, conflict)
             | Inr output_keys \<Rightarrow>
                 let (ok, key_corrupted) = check_ring_signature env tx_prefix_hash (ki_key_image inp) output_keys sigs in
                 if \<not> ok then (if key_corrupted then Inr (''INPUT_CORRUPTED_SIGNATURES'', conflict)
                   else Inr (''INPUT_INVALID_SIGNATURES'', conflict))
                 else Inr ([], conflict)))"

text \<open>The loop over the inputs: the error, \<open>conflict_height\<close> and \<open>tx_delta\<close>.\<close>

fun redo_inputs ::
  "crypto_env \<Rightarrow> currency \<Rightarrow> parent_view \<Rightarrow> height \<Rightarrow> timestamp \<Rightarrow> hash \<Rightarrow> signature list list \<Rightarrow> bool \<Rightarrow> nat \<Rightarrow>
     transaction_input list \<Rightarrow> delta_state \<Rightarrow> height \<Rightarrow> (string \<times> height \<times> delta_state) result" where
  "redo_inputs env c parent h t ph sigs check_sigs i [] tx_delta conflict = Inr ([], conflict, tx_delta)"
| "redo_inputs env c parent h t ph sigs check_sigs i (CoinbaseInput _ # ins) tx_delta conflict =
     redo_inputs env c parent h t ph sigs check_sigs (i + 1) ins tx_delta conflict"
| "redo_inputs env c parent h t ph sigs check_sigs i (KeyInput inp # ins) tx_delta conflict =
     res_bind (if check_sigs then check_key_input env c parent h t ph (sigs ! i) inp tx_delta conflict
               else Inr ([], conflict)) (\<lambda>(e, conflict).
       if e \<noteq> [] then Inr (e, conflict, tx_delta)
       else
         res_bind (if length (ki_output_indexes inp) = 1
             then delta_spend_output (ki_amount inp) (ki_output_indexes inp ! 0) tx_delta else Inr tx_delta) (\<lambda>tx_delta.
         res_bind (delta_store_keyimage (ki_key_image inp) h tx_delta) (\<lambda>tx_delta.
         redo_inputs env c parent h t ph sigs check_sigs (i + 1) ins tx_delta conflict)))"

text \<open>The loop over the outputs: \<open>tx_delta\<close> and the global indices.\<close>

fun output_key :: "transaction_output \<Rightarrow> public_key" where
  "output_key out = (case to_target out of KeyOutput key \<Rightarrow> key)"

fun redo_outputs :: "parent_view \<Rightarrow> unlock_moment \<Rightarrow> transaction_output list \<Rightarrow> delta_state \<Rightarrow> (u32 list \<times> delta_state) result" where
  "redo_outputs parent unlock_time [] tx_delta = Inr ([], tx_delta)"
| "redo_outputs parent unlock_time (out # outs) tx_delta =
     res_bind (delta_push_amount_output parent (to_amount out) unlock_time 0 (output_key out) tx_delta) (\<lambda>(g, tx_delta).
     res_bind (redo_outputs parent unlock_time outs tx_delta) (\<lambda>(gs, tx_delta). Inr (g # gs, tx_delta)))"

text \<open>
  \<open>redo_transaction_get_error\<close>: the error, the delta of the block, the global indices and
  \<open>conflict_height\<close>.  An error leaves the delta alone, but an empty entry in the indices.
\<close>

definition redo_transaction_get_error ::
  "crypto_env \<Rightarrow> currency \<Rightarrow> parent_view \<Rightarrow> bool \<Rightarrow> transaction \<Rightarrow> delta_state \<Rightarrow> u32 list list \<Rightarrow> bool \<Rightarrow>
     (string \<times> delta_state \<times> u32 list list \<times> height) result" where
  "redo_transaction_get_error env c chain generating tx delta_state global_indices check_sigs =
     (let tx_prefix_hash = (if check_sigs then get_transaction_prefix_hash env tx else null_hash);
          parent = view_of (delta_ops chain) delta_state;
          h = ds_block_height delta_state;
          t = ds_unlock_timestamp delta_state
      in
      res_bind (redo_inputs env c parent h t tx_prefix_hash (tx_signatures tx) check_sigs 0 (tx_inputs tx)
          (new_delta h t) 0) (\<lambda>(e, conflict_height, tx_delta).
        if e \<noteq> [] then Inr (e, delta_state, global_indices @ [[]], conflict_height)
        else
          res_bind (redo_outputs parent (tx_unlock_time tx) (tx_outputs tx) tx_delta) (\<lambda>(my_indices, tx_delta).
          res_bind (apply_delta (delta_ops chain) tx_delta delta_state) (\<lambda>delta_state.
          Inr ([], delta_state, global_indices @ [my_indices], conflict_height)))))"

section \<open>Blocks\<close>

text \<open>\<open>redo_block\<close> on a delta: the coinbase, then the transactions, without signatures.\<close>

fun redo_transactions ::
  "crypto_env \<Rightarrow> currency \<Rightarrow> parent_view \<Rightarrow> (bool \<times> transaction) list \<Rightarrow> delta_state \<Rightarrow> u32 list list \<Rightarrow>
     (bool \<times> delta_state \<times> u32 list list) result" where
  "redo_transactions env c chain [] delta_state global_indices = Inr (True, delta_state, global_indices)"
| "redo_transactions env c chain ((generating, tx) # txs) delta_state global_indices =
     res_bind (redo_transaction_get_error env c chain generating tx delta_state global_indices False)
       (\<lambda>(e, delta_state, global_indices, _).
         if e \<noteq> [] then Inr (False, delta_state, global_indices)
         else redo_transactions env c chain txs delta_state global_indices)"

definition redo_block_delta ::
  "crypto_env \<Rightarrow> currency \<Rightarrow> parent_view \<Rightarrow> block \<Rightarrow> delta_state \<Rightarrow> u32 list list \<Rightarrow> (bool \<times> delta_state \<times> u32 list list) result" where
  "redo_block_delta env c chain block delta_state global_indices =
     redo_transactions env c chain
       ((True, bt_base_transaction (blk_header block)) # map (Pair False) (blk_transactions block))
       delta_state global_indices"

definition enc_global_indices :: "u32 list list \<Rightarrow> bytes" where
  "enc_global_indices = enc_vector (enc_vector enc_u32)"

definition dec_global_indices :: "bytes \<Rightarrow> (u32 list list \<times> bytes) result" where
  "dec_global_indices = dec_vector (dec_vector dec_u32)"

text \<open>
  \<open>redo_block\<close> on the chain.  The signatures are checked by the worker threads between
  \<open>start_work_get_error\<close> and \<open>signatures_valid\<close>.
\<close>

definition redo_block ::
  "crypto_env \<Rightarrow> currency \<Rightarrow> hash \<Rightarrow> block \<Rightarrow> header_info \<Rightarrow> chain_state \<Rightarrow> (bool \<times> chain_state) result" where
  "redo_block env c bhash block info s =
     (let chain = view_of chain_ops s;
          delta = new_delta (hi_height info) (hi_timestamp info);
          check_sigs = \<not> is_in_sw_checkpoint_zone c (hi_height info + 1)
      in
      res_bind (if check_sigs then start_work_get_error env c chain block (hi_height info) (hi_timestamp info)
                else Inr ([], [])) (\<lambda>(e, args).
        if e \<noteq> [] then Inr (False, s)
        else
          res_bind (redo_block_delta env c chain block delta []) (\<lambda>(ok, delta, global_indices).
            if \<not> ok then Inr (False, s)
            else if check_sigs \<and> \<not> ring_signatures_valid env args then Inr (False, s)
            else
              res_bind (apply_delta chain_ops delta s) (\<lambda>s.
              let s = s\<lparr>cs_tx_pool_version := 2\<rparr> in
              res_bind (db_put (bc_db s) (block_global_indices_key bhash)
                  (to_binary enc_global_indices global_indices) True) (\<lambda>db.
              Inr (True, s\<lparr>bc_db := db\<rparr>))))))"

text \<open>\<open>undo_transaction\<close>: outputs and inputs in reverse.\<close>

fun undo_outputs :: "unlock_moment \<Rightarrow> transaction_output list \<Rightarrow> chain_state \<Rightarrow> chain_state result" where
  "undo_outputs unlock_time [] s = Inr s"
| "undo_outputs unlock_time (out # outs) s =
     res_bind (pop_amount_output (to_amount out) unlock_time (output_key out) s) (undo_outputs unlock_time outs)"

fun undo_inputs :: "transaction_input list \<Rightarrow> chain_state \<Rightarrow> chain_state result" where
  "undo_inputs [] s = Inr s"
| "undo_inputs (CoinbaseInput _ # ins) s = undo_inputs ins s"
| "undo_inputs (KeyInput inp # ins) s =
     res_bind (delete_keyimage (ki_key_image inp) s) (\<lambda>s.
     res_bind (if length (ki_output_indexes inp) = 1
       then spend_output (ki_amount inp) (ki_output_indexes inp ! 0) False s else Inr s) (\<lambda>s.
     undo_inputs ins s))"

definition undo_transaction :: "transaction \<Rightarrow> chain_state \<Rightarrow> chain_state result" where
  "undo_transaction tx s =
     res_bind (undo_outputs (tx_unlock_time tx) (rev (tx_outputs tx)) s) (undo_inputs (rev (tx_inputs tx)))"

definition undo_block :: "hash \<Rightarrow> block \<Rightarrow> height \<Rightarrow> chain_state \<Rightarrow> chain_state result" where
  "undo_block bhash block height s =
     res_bind (res_fold undo_transaction (rev (blk_transactions block)) s) (\<lambda>s.
     res_bind (undo_transaction (bt_base_transaction (blk_header block)) s) (\<lambda>s.
     res_bind (db_del (bc_db s) (block_global_indices_key bhash) True) (\<lambda>db.
     Inr (s\<lparr>bc_db := db\<rparr>))))"

definition read_block_output_global_indices :: "hash \<Rightarrow> chain_state \<Rightarrow> u32 list list option result" where
  "read_block_output_global_indices bid s =
     (case db_get (bc_db s) (block_global_indices_key bid) of
        None \<Rightarrow> Inr None
      | Some rb \<Rightarrow> res_bind (from_binary dec_global_indices rb) (\<lambda>v. Inr (Some v)))"

end
