(* ===== verification/Redo_Undo.thy ===== *)
theory Redo_Undo
  imports Block_State
begin

text \<open>
  What redoing and undoing blocks does to the ledger: a block that is accepted appends its
  outputs, marks its key images as spent and nothing else; no key image is spent twice; and
  undoing the block restores the database.
\<close>

section \<open>What a transaction does to the ledger\<close>

definition spent_by :: "key_input \<Rightarrow> (amount \<times> u32) list" where
  "spent_by k = (if length (ki_output_indexes k) = 1 then [(ki_amount k, ki_output_indexes k ! 0)] else [])"

definition tx_key_images :: "'a transaction_prefix_scheme \<Rightarrow> key_image list" where
  "tx_key_images tx = map ki_key_image (key_inputs (tx_inputs tx))"

definition tx_spends :: "'a transaction_prefix_scheme \<Rightarrow> (amount \<times> u32) list" where
  "tx_spends tx = concat (map spent_by (key_inputs (tx_inputs tx)))"

definition lg_input :: "height \<Rightarrow> key_input \<Rightarrow> ledger \<Rightarrow> ledger" where
  "lg_input h k L = lg_store_keyimage (ki_key_image k) h (lg_spends (spent_by k) L)"

definition lg_output :: "height \<Rightarrow> unlock_moment \<Rightarrow> transaction_output \<Rightarrow> ledger \<Rightarrow> ledger" where
  "lg_output h unlock out L = lg_push (to_amount out) (new_output h (unlock, output_key out)) L"

definition lg_tx :: "height \<Rightarrow> 'a transaction_prefix_scheme \<Rightarrow> ledger \<Rightarrow> ledger" where
  "lg_tx h tx L = fold (lg_output h (tx_unlock_time tx)) (tx_outputs tx)
     (fold (lg_input h) (key_inputs (tx_inputs tx)) L)"

definition block_txs :: "block \<Rightarrow> transaction list" where
  "block_txs b = bt_base_transaction (blk_header b) # blk_transactions b"

definition block_key_images :: "block \<Rightarrow> key_image list" where
  "block_key_images b = concat (map tx_key_images (block_txs b))"

definition block_spends :: "block \<Rightarrow> (amount \<times> u32) list" where
  "block_spends b = concat (map tx_spends (block_txs b))"

definition block_outputs :: "block \<Rightarrow> transaction_output list" where
  "block_outputs b = concat (map tx_outputs (block_txs b))"

definition lg_block :: "height \<Rightarrow> block \<Rightarrow> ledger \<Rightarrow> ledger" where
  "lg_block h b L = fold (lg_tx h) (block_txs b) L"

text \<open>The global indices the outputs get: the next free position of their amount.\<close>

fun output_indices :: "height \<Rightarrow> unlock_moment \<Rightarrow> transaction_output list \<Rightarrow> ledger \<Rightarrow> u32 list" where
  "output_indices h unlock [] L = []"
| "output_indices h unlock (out # outs) L =
     word_of_nat (lg_count (to_amount out) L) # output_indices h unlock outs (lg_output h unlock out L)"

fun tx_indices :: "height \<Rightarrow> 'a transaction_prefix_scheme list \<Rightarrow> ledger \<Rightarrow> u32 list list" where
  "tx_indices h [] L = []"
| "tx_indices h (tx # txs) L =
     output_indices h (tx_unlock_time tx) (tx_outputs tx) (fold (lg_input h) (key_inputs (tx_inputs tx)) L) #
     tx_indices h txs (lg_tx h tx L)"

text \<open>Room for \<open>n\<close> more outputs of any amount: indices are 32 bits wide.\<close>

definition room :: "nat \<Rightarrow> ledger \<Rightarrow> bool" where
  "room n L \<longleftrightarrow> (\<forall>a. lg_count a L + n < 2 ^ 32)"

definition valid_outputs :: "transaction_output list \<Rightarrow> bool" where
  "valid_outputs outs \<longleftrightarrow> list_all (\<lambda>out. pod32 (output_key out)) outs"

lemma lg_count_input [simp]: "lg_count a (lg_input h k L) = lg_count a L"
  by (simp add: lg_input_def)

lemma lg_count_inputs [simp]: "lg_count a (fold (lg_input h) ks L) = lg_count a L"
  by (induction ks arbitrary: L) simp_all

lemma lg_count_output: "lg_count a (lg_output h t out L) = (if a = to_amount out then lg_count a L + 1 else lg_count a L)"
  by (simp add: lg_output_def)

lemma lg_count_outputs: "lg_count a L \<le> lg_count a (fold (lg_output h t) outs L)"
  by (induction outs arbitrary: L) (simp, fastforce intro: order_trans [rotated] simp: lg_count_output)

lemma lg_count_tx: "lg_count a L \<le> lg_count a (lg_tx h tx L)"
  using lg_count_outputs [of a "fold (lg_input h) (key_inputs (tx_inputs tx)) L"] by (simp add: lg_tx_def)

lemma room_input [simp]: "room n (fold (lg_input h) ks L) = room n L"
  by (simp add: room_def)

lemma room_output: "room (Suc n) L \<Longrightarrow> room n (lg_output h t out L)"
  by (auto simp: room_def lg_count_output intro: less_trans)

lemma room_outputs: "room (length outs + n) L \<Longrightarrow> room n (fold (lg_output h t) outs L)"
  by (induction outs arbitrary: L) (simp_all add: room_output)

lemma room_tx: "room (length (tx_outputs tx) + n) L \<Longrightarrow> room n (lg_tx h tx L)"
  by (simp add: lg_tx_def room_outputs)

lemma length_tx_indices [simp]: "length (tx_indices h txs L) = length txs"
  by (induction txs arbitrary: L) simp_all

lemma length_output_indices [simp]: "length (output_indices h t outs L) = length outs"
  by (induction outs arbitrary: L) simp_all

lemma set_tx_indices: "g \<in> set (tx_indices h txs L) \<Longrightarrow> \<exists>tx \<in> set txs. length g = length (tx_outputs tx)"
  by (induction txs arbitrary: L) auto

section \<open>Redoing\<close>

text \<open>Key images: a delta refuses one it already has.\<close>

lemma delta_store_keys:
  "delta_store_keyimage k h d = Inr d' \<Longrightarrow> k \<notin> om_keys (ds_keyimages d) \<and>
     om_keys (ds_keyimages d') = insert k (om_keys (ds_keyimages d)) \<and>
     ds_block_height d' = ds_block_height d \<and> ds_unlock_timestamp d' = ds_unlock_timestamp d"
  by (auto simp: delta_store_keyimage_def om_insert_def res_bind_eq_Inr om_find_None [symmetric] split: option.splits)

lemma delta_spend_keys:
  "delta_spend_output a g d = Inr d' \<Longrightarrow> ds_keyimages d' = ds_keyimages d \<and>
     ds_block_height d' = ds_block_height d \<and> ds_unlock_timestamp d' = ds_unlock_timestamp d"
  by (auto simp: delta_spend_output_def)

lemma delta_push_keys:
  "delta_push_amount_output v a t h pk d = Inr (g, d') \<Longrightarrow> ds_keyimages d' = ds_keyimages d \<and>
     ds_block_height d' = ds_block_height d \<and> ds_unlock_timestamp d' = ds_unlock_timestamp d"
  by (auto simp: delta_push_amount_output_def Let_def res_bind_eq_Inr)

lemma redo_inputs_ok:
  assumes "redo_inputs env c v h t ph sigs cs i ins d conf = Inr ([], conf', d')"
    and "delta_ok P h d L" "spends_in_range (concat (map spent_by (key_inputs ins))) L"
  shows "delta_ok P h d' (fold (lg_input h) (key_inputs ins) L) \<and>
    distinct (map ki_key_image (key_inputs ins)) \<and>
    om_keys (ds_keyimages d) \<inter> ki_key_image ` set (key_inputs ins) = {} \<and>
    om_keys (ds_keyimages d') = om_keys (ds_keyimages d) \<union> ki_key_image ` set (key_inputs ins)"
  using assms
proof (induction ins arbitrary: i d conf L)
  case Nil
  then show ?case by simp
next
  case (Cons x ins)
  show ?case
  proof (cases x)
    case (CoinbaseInput u)
    with Cons.prems have "redo_inputs env c v h t ph sigs cs (i + 1) ins d conf = Inr ([], conf', d')" by simp
    from Cons.IH [OF this Cons.prems(2)] Cons.prems(3) CoinbaseInput show ?thesis by simp
  next
    case (KeyInput inp)
    let ?m = "length (ki_output_indexes inp) = 1"
    from Cons.prems(1) KeyInput obtain c1 d1 d2 where
      d1: "(if ?m then delta_spend_output (ki_amount inp) (ki_output_indexes inp ! 0) d else Inr d) = Inr d1" and
      d2: "delta_store_keyimage (ki_key_image inp) h d1 = Inr d2" and
      rest: "redo_inputs env c v h t ph sigs cs (i + 1) ins d2 c1 = Inr ([], conf', d')"
      by (auto simp: res_bind_eq_Inr simp del: One_nat_def split: if_splits)
    have ok1: "delta_ok P h d1 (lg_spends (spent_by inp) L)"
    proof (cases ?m)
      case True
      with Cons.prems(3) KeyInput have "unat (ki_output_indexes inp ! 0) < lg_count (ki_amount inp) L"
        by (simp add: spent_by_def spends_in_range_def)
      with delta_ok_spend [OF Cons.prems(2)] True d1 show ?thesis by (force simp: spent_by_def)
    next
      case False
      with Cons.prems(2) d1 show ?thesis by (simp add: spent_by_def)
    qed
    have ok2: "delta_ok P h d2 (lg_input h inp L)"
      unfolding lg_input_def by (rule delta_ok_store [OF ok1 d2])
    have k1: "ds_keyimages d1 = ds_keyimages d" using d1 delta_spend_keys by (auto split: if_splits)
    have "spends_in_range (concat (map spent_by (key_inputs ins))) (lg_input h inp L)"
      using Cons.prems(3) KeyInput by (auto simp: spends_in_range_def)
    from Cons.IH [OF rest ok2 this] delta_store_keys [OF d2] k1 KeyInput show ?thesis by auto
  qed
qed

lemma redo_outputs_ok:
  assumes "view_ok v P" "delta_ok P h d L" "room (length outs) L" "valid_outputs outs"
  shows "\<exists>d'. redo_outputs v t outs d = Inr (output_indices h t outs L, d') \<and>
    delta_ok P h d' (fold (lg_output h t) outs L) \<and> ds_keyimages d' = ds_keyimages d"
  using assms
proof (induction outs arbitrary: d L)
  case Nil
  then show ?case by simp
next
  case (Cons out outs)
  from Cons.prems have "lg_count (to_amount out) L < 2 ^ 32 - 1" "pod32 (output_key out)"
    by (auto simp: room_def valid_outputs_def) (metis Suc_lessD add_Suc_right add_lessD1 less_diff_conv add.commute plus_1_eq_Suc)
  from delta_ok_push [OF Cons.prems(1,2) this, of t 0] obtain d1 where
    d1: "delta_push_amount_output v (to_amount out) t 0 (output_key out) d =
        Inr (word_of_nat (lg_count (to_amount out) L), d1)" "delta_ok P h d1 (lg_output h t out L)"
    by (auto simp: lg_output_def)
  have "room (length outs) (lg_output h t out L)" "valid_outputs outs"
    using Cons.prems by (simp_all add: room_output valid_outputs_def)
  from Cons.IH [OF Cons.prems(1) d1(2) this] d1 delta_push_keys [OF d1(1)] show ?case by auto
qed

lemma apply_delta_keys:
  assumes "apply_delta (delta_ops v) d D = Inr D'"
  shows "om_keys (ds_keyimages D) \<inter> om_keys (ds_keyimages d) = {} \<and>
    om_keys (ds_keyimages D') = om_keys (ds_keyimages D) \<union> om_keys (ds_keyimages d) \<and>
    ds_unlock_timestamp D' = ds_unlock_timestamp D"
proof -
  have store: "om_keys (ds_keyimages d1) \<inter> om_keys m = {} \<and>
      om_keys (ds_keyimages d2) = om_keys (ds_keyimages d1) \<union> om_keys m \<and>
      ds_unlock_timestamp d2 = ds_unlock_timestamp d1"
    if "res_fold (\<lambda>(k, h). delta_store_keyimage k h) m d1 = Inr d2" for m d1 d2
    using that by (induction m arbitrary: d1) (fastforce simp: res_bind_eq_Inr dest!: delta_store_keys)+
  have push: "ds_keyimages d2 = ds_keyimages d1 \<and> ds_unlock_timestamp d2 = ds_unlock_timestamp d1"
    if "res_fold (\<lambda>(t, pk) s. res_bind (delta_push_amount_output v a t h pk s) (\<lambda>(_, s). Inr s)) els d1 = Inr d2"
    for a h els d1 d2
    using that by (induction els arbitrary: d1) (fastforce simp: res_bind_eq_Inr dest!: delta_push_keys)+
  have pushes: "ds_keyimages d2 = ds_keyimages d1 \<and> ds_unlock_timestamp d2 = ds_unlock_timestamp d1"
    if "res_fold (\<lambda>(a, els). res_fold (\<lambda>(t, pk) s.
      res_bind (delta_push_amount_output v a t h pk s) (\<lambda>(_, s). Inr s)) els) m d1 = Inr d2" for h m d1 d2
    using that by (induction m arbitrary: d1) (fastforce simp: res_bind_eq_Inr dest!: push)+
  have spends: "ds_keyimages d2 = ds_keyimages d1 \<and> ds_unlock_timestamp d2 = ds_unlock_timestamp d1"
    if "res_fold (\<lambda>(a, g). delta_spend_output a g) sp d1 = Inr d2" for sp d1 d2
    using that by (induction sp arbitrary: d1) (fastforce simp: res_bind_eq_Inr dest!: delta_spend_keys)+
  show ?thesis
    using assms by (auto simp: apply_delta_def delta_ops_def res_bind_eq_Inr dest!: store pushes spends)
qed

text \<open>A transaction applied to the delta of its block.\<close>

lemma redo_transaction_ok:
  assumes v: "view_ok chain P" and D: "delta_ok P h D L" "ds_block_height D = h"
    and redo: "redo_transaction_get_error env c chain gen tx D gis cs = Inr (e, D', gis', conf)" and e: "e = []"
    and spends: "spends_in_range (tx_spends tx) L"
    and room: "room (length (tx_outputs tx)) L" and outs: "valid_outputs (tx_outputs tx)"
  shows "delta_ok P h D' (lg_tx h tx L) \<and>
    gis' = gis @ [output_indices h (tx_unlock_time tx) (tx_outputs tx) (fold (lg_input h) (key_inputs (tx_inputs tx)) L)] \<and>
    distinct (tx_key_images tx) \<and>
    om_keys (ds_keyimages D) \<inter> set (tx_key_images tx) = {} \<and>
    om_keys (ds_keyimages D') = om_keys (ds_keyimages D) \<union> set (tx_key_images tx)"
proof -
  define parent where "parent = view_of (delta_ops chain) D"
  have parent: "view_ok parent L"
    unfolding parent_def by (rule ledger_state.view [OF delta_ledger_state [OF v] D(1)])
  from redo e obtain d0 d1 mine t ph sigs where
    ins: "redo_inputs env c parent h t ph sigs cs 0 (tx_inputs tx) (new_delta h t) 0 = Inr ([], conf, d0)" and
    outs': "redo_outputs parent (tx_unlock_time tx) (tx_outputs tx) d0 = Inr (mine, d1)" and
    ap: "apply_delta (delta_ops chain) d1 D = Inr D'" and gis': "gis' = gis @ [mine]"
    by (auto simp: redo_transaction_get_error_def Let_def res_bind_eq_Inr parent_def [symmetric] D(2) split: if_splits)
  note I = redo_inputs_ok [OF ins delta_ok_new [OF parent] spends [unfolded tx_spends_def]]
  let ?L = "fold (lg_input h) (key_inputs (tx_inputs tx)) L"
  from I have d0: "delta_ok L h d0 ?L" by blast
  from redo_outputs_ok [OF parent d0 _ outs, of "tx_unlock_time tx"] room outs' have
    d1: "delta_ok L h d1 (lg_tx h tx L)" "ds_keyimages d1 = ds_keyimages d0"
    and mine: "mine = output_indices h (tx_unlock_time tx) (tx_outputs tx) ?L"
    by (auto simp: lg_tx_def)
  have "delta_ok P h D' (lg_tx h tx L)"
    by (rule ledger_state.apply_ok [OF delta_ledger_state [OF v] D(1) d1(1) ap])
  with I gis' mine apply_delta_keys [OF ap] d1(2) show ?thesis by (simp add: new_delta_def tx_key_images_def)
qed

lemma redo_transactions_ok:
  assumes "view_ok chain P" and "delta_ok P h D L"
    and "redo_transactions env c chain txs D gis = Inr (True, D', gis')"
    and "spends_in_range (concat (map (tx_spends \<circ> snd) txs)) L"
    and "room (length (concat (map (tx_outputs \<circ> snd) txs))) L"
    and "list_all (\<lambda>x. valid_outputs (tx_outputs (snd x))) txs"
  shows "delta_ok P h D' (fold (lg_tx h) (map snd txs) L) \<and>
    gis' = gis @ tx_indices h (map snd txs) L \<and>
    distinct (concat (map (tx_key_images \<circ> snd) txs)) \<and>
    om_keys (ds_keyimages D) \<inter> set (concat (map (tx_key_images \<circ> snd) txs)) = {} \<and>
    om_keys (ds_keyimages D') = om_keys (ds_keyimages D) \<union> set (concat (map (tx_key_images \<circ> snd) txs))"
  using assms(2-)
proof (induction txs arbitrary: D gis L)
  case Nil
  then show ?case by simp
next
  case (Cons x txs)
  obtain gen tx where x: "x = (gen, tx)" by fastforce
  from Cons.prems(2) x obtain D1 gis1 conf where
    one: "redo_transaction_get_error env c chain gen tx D gis False = Inr ([], D1, gis1, conf)" and
    rest: "redo_transactions env c chain txs D1 gis1 = Inr (True, D', gis')"
    by (auto simp: res_bind_eq_Inr split: if_splits)
  have h: "ds_block_height D = h" using Cons.prems(1) by (simp add: delta_ok_def)
  have "spends_in_range (tx_spends tx) L" "room (length (tx_outputs tx)) L" "valid_outputs (tx_outputs tx)"
    using Cons.prems(3-5) x by (auto simp: spends_in_range_def room_def intro: add_lessD1 [OF order_le_less_trans [rotated]])
  note T = redo_transaction_ok [OF assms(1) Cons.prems(1) h one refl this]
  have "spends_in_range (concat (map (tx_spends \<circ> snd) txs)) (lg_tx h tx L)"
    by (rule spends_in_range_mono [of _ L]) (use Cons.prems(3) x in \<open>auto simp: spends_in_range_def lg_count_tx\<close>)
  moreover have "room (length (concat (map (tx_outputs \<circ> snd) txs))) (lg_tx h tx L)"
    by (rule room_tx) (use Cons.prems(4) x in \<open>simp add: comp_def\<close>)
  moreover have "list_all (\<lambda>x. valid_outputs (tx_outputs (snd x))) txs" using Cons.prems(5) by simp
  moreover have "delta_ok P h D1 (lg_tx h tx L)" using T by blast
  ultimately have IH: "delta_ok P h D' (fold (lg_tx h) (map snd txs) (lg_tx h tx L)) \<and>
    gis' = gis1 @ tx_indices h (map snd txs) (lg_tx h tx L) \<and>
    distinct (concat (map (tx_key_images \<circ> snd) txs)) \<and>
    om_keys (ds_keyimages D1) \<inter> set (concat (map (tx_key_images \<circ> snd) txs)) = {} \<and>
    om_keys (ds_keyimages D') = om_keys (ds_keyimages D1) \<union> set (concat (map (tx_key_images \<circ> snd) txs))"
    using rest by (intro Cons.IH)
  define ks where "ks = concat (map (tx_key_images \<circ> snd) txs)"
  from T IH show ?case unfolding ks_def [symmetric] by (auto simp: x ks_def [symmetric, unfolded comp_def] ks_def [symmetric])
qed

section \<open>The inputs of an accepted block\<close>

lemma option_case_eq_Inr:
  "(case r of None \<Rightarrow> a | Some u \<Rightarrow> f u) = Inr y \<longleftrightarrow> (r = None \<and> a = Inr y) \<or> (\<exists>u. r = Some u \<and> f u = Inr y)"
  by (cases r) simp_all

lemma sum_case_eq_Inr:
  "(case r of Inl e \<Rightarrow> g e | Inr u \<Rightarrow> f u) = Inr y \<longleftrightarrow>
     (\<exists>e. r = Inl e \<and> g e = Inr y) \<or> (\<exists>u. r = Inr u \<and> f u = Inr y)"
  by (cases r) simp_all

lemmas case_eq_Inr = option_case_eq_Inr sum_case_eq_Inr

text \<open>
  What the ring checker makes sure of for the \<open>i\<close>-th input of a transaction: its key image
  is not spent, its ring is not empty, the outputs of the ring exist and are unlocked, and the
  signature is good for their keys.
\<close>

definition input_authorised ::
  "crypto_env \<Rightarrow> currency \<Rightarrow> height \<Rightarrow> timestamp \<Rightarrow> ledger \<Rightarrow> transaction \<Rightarrow> nat \<Rightarrow> key_input \<Rightarrow> bool" where
  "input_authorised env c h t L tx i k \<longleftrightarrow>
     lg_keyimages L (ki_key_image k) = None \<and> ki_output_indexes k \<noteq> [] \<and>
     (\<exists>us. list_all2 (\<lambda>g u. lg_read (ki_amount k) g L = Some u) (global_indexes (ki_output_indexes k)) us \<and>
        list_all (\<lambda>u. is_transaction_spend_time_unlocked c (unp_unlock_time u) h t) us \<and>
        fst (check_ring_signature env (get_transaction_prefix_hash env tx) (ki_key_image k)
          (map unp_public_key us) (tx_signatures tx ! i)))"

lemma unspent_eq_simps:
  "unspent u = unspent w \<Longrightarrow> unp_unlock_time u = unp_unlock_time w \<and> unp_public_key u = unp_public_key w"
  by (cases u; cases w) (simp add: unspent_def)

lemma view_read:
  assumes "view_ok v L" "v_read_amount_output v a g = Inr (Some u)"
  shows "\<exists>w. lg_read a g L = Some w \<and> unp_unlock_time u = unp_unlock_time w \<and> unp_public_key u = unp_public_key w"
proof -
  from assms have "map_option unspent (Some u) = map_option unspent (lg_read a g L)"
    unfolding view_ok_def by (metis Inr_inject)
  then show ?thesis by (cases "lg_read a g L") (auto dest: unspent_eq_simps)
qed

lemma ring_output_keys_ok:
  assumes "view_ok v L" "ring_output_keys c (v_read_amount_output v a) h t gs = Inr (Inr keys)"
  shows "\<exists>us. list_all2 (\<lambda>g u. lg_read a g L = Some u) gs us \<and>
    list_all (\<lambda>u. is_transaction_spend_time_unlocked c (unp_unlock_time u) h t) us \<and> keys = map unp_public_key us"
  using assms(2)
proof (induction gs arbitrary: keys)
  case Nil
  then show ?case by simp
next
  case (Cons g gs)
  from Cons.prems obtain u ks where
    u: "v_read_amount_output v a g = Inr (Some u)" "is_transaction_spend_time_unlocked c (unp_unlock_time u) h t"
    and ks: "ring_output_keys c (v_read_amount_output v a) h t gs = Inr (Inr ks)" "keys = unp_public_key u # ks"
    by (auto simp: res_bind_eq_Inr case_eq_Inr split: if_splits)
  from Cons.IH [OF ks(1)] obtain us where
    us: "list_all2 (\<lambda>g u. lg_read a g L = Some u) gs us"
      "list_all (\<lambda>u. is_transaction_spend_time_unlocked c (unp_unlock_time u) h t) us" "ks = map unp_public_key us"
    by blast
  from view_read [OF assms(1) u(1)] obtain w where
    w: "lg_read a g L = Some w" "unp_unlock_time u = unp_unlock_time w" "unp_public_key u = unp_public_key w" by blast
  with us u(2) ks(2) show ?case by (intro exI [of _ "w # us"]) simp
qed

lemma ring_arg_ok:
  assumes v: "view_ok v L" and arg: "ring_arg c v h t (get_transaction_prefix_hash env tx) (tx_signatures tx ! i) k = Inr (Inr arg)"
    and ok: "fst (check_ring_arg env arg)"
  shows "input_authorised env c h t L tx i k"
proof -
  from arg obtain keys where
    spent: "v_read_keyimage v (ki_key_image k) = Inr None" and ne: "ki_output_indexes k \<noteq> []" and
    keys: "ring_output_keys c (v_read_amount_output v (ki_amount k)) h t (global_indexes (ki_output_indexes k)) = Inr (Inr keys)"
    and a: "arg = \<lparr>ra_tx_prefix_hash = get_transaction_prefix_hash env tx, ra_key_image = ki_key_image k,
      ra_output_keys = keys, ra_signatures = tx_signatures tx ! i\<rparr>"
    by (auto simp: ring_arg_def res_bind_eq_Inr case_eq_Inr split: if_splits)
  have "lg_keyimages L (ki_key_image k) = None" using spent v by (simp add: view_ok_def)
  with ring_output_keys_ok [OF v keys] ne ok show ?thesis
    by (auto simp: input_authorised_def a check_ring_arg_def)
qed

lemma ring_arg_not_empty_error: "ring_arg c v h t ph sigs k = Inr (Inl e) \<Longrightarrow> e \<noteq> []"
proof -
  have "e' \<noteq> []" if "ring_output_keys c r h t gs = Inr (Inl e')" for r gs e'
    using that by (induction gs) (auto simp: res_bind_eq_Inr case_eq_Inr split: if_splits)
  then show "ring_arg c v h t ph sigs k = Inr (Inl e) \<Longrightarrow> e \<noteq> []"
    by (auto simp: ring_arg_def res_bind_eq_Inr case_eq_Inr split: if_splits)
qed

lemma ring_args_inputs_ok:
  assumes v: "view_ok v L" and
    "ring_args_inputs c v h t (get_transaction_prefix_hash env tx) (tx_signatures tx) i ins = Inr ([], args)"
    "ring_signatures_valid env args" "j < length ins" "ins ! j = KeyInput k"
  shows "input_authorised env c h t L tx (i + j) k"
  using assms(2-)
proof (induction ins arbitrary: i j args)
  case Nil
  then show ?case by simp
next
  case (Cons x ins)
  show ?case
  proof (cases x)
    case (CoinbaseInput u)
    with Cons.prems obtain j' where j: "j = Suc j'" by (cases j) auto
    with Cons.IH [of "i + 1" args j'] Cons.prems CoinbaseInput show ?thesis by simp
  next
    case (KeyInput inp)
    with Cons.prems obtain arg args' where
      a: "ring_arg c v h t (get_transaction_prefix_hash env tx) (tx_signatures tx ! i) inp = Inr (Inr arg)"
      and r: "ring_args_inputs c v h t (get_transaction_prefix_hash env tx) (tx_signatures tx) (i + 1) ins = Inr ([], args')"
      and args: "args = arg # args'"
      by (auto simp: res_bind_eq_Inr case_eq_Inr dest: ring_arg_not_empty_error)
    show ?thesis
    proof (cases j)
      case 0
      with ring_arg_ok [OF v a] Cons.prems args KeyInput show ?thesis by (simp add: ring_signatures_valid_def)
    next
      case (Suc j')
      with Cons.IH [OF r, of j'] Cons.prems args show ?thesis by (simp add: ring_signatures_valid_def)
    qed
  qed
qed

lemma ring_args_transactions_ok:
  assumes v: "view_ok v L" and "ring_args_transactions env c v h t txs = Inr ([], args)"
    "ring_signatures_valid env args" "tx \<in> set txs" "i < length (tx_inputs tx)" "tx_inputs tx ! i = KeyInput k"
  shows "input_authorised env c h t L tx i k"
  using assms(2-)
proof (induction txs arbitrary: args)
  case Nil
  then show ?case by simp
next
  case (Cons y txs)
  then obtain args1 args2 where
    one: "ring_args_inputs c v h t (get_transaction_prefix_hash env y) (tx_signatures y) 0 (tx_inputs y) = Inr ([], args1)"
    and two: "ring_args_transactions env c v h t txs = Inr ([], args2)" and args: "args = args1 @ args2"
    by (auto simp: res_bind_eq_Inr split: if_splits)
  have valid: "ring_signatures_valid env args1" "ring_signatures_valid env args2"
    using Cons.prems(2) args by (simp_all add: ring_signatures_valid_def)
  from Cons.prems(3) consider "tx = y" | "tx \<in> set txs" by auto
  then show ?case
  proof cases
    case 1
    with ring_args_inputs_ok [OF v one valid(1), of i k] Cons.prems show ?thesis by simp
  next
    case 2
    with Cons.IH [OF two valid(2)] Cons.prems show ?thesis by simp
  qed
qed

text \<open>An authorised input with a ring of one spends an output that exists.\<close>

lemma authorised_spent_by:
  assumes "input_authorised env c h t L tx i k" "(a, g) \<in> set (spent_by k)"
  shows "unat g < lg_count a L"
proof -
  from assms(2) have l: "length (ki_output_indexes k) = 1" and ag: "a = ki_amount k" "g = ki_output_indexes k ! 0"
    by (auto simp: spent_by_def split: if_splits)
  from l have gi: "global_indexes (ki_output_indexes k) = [g]"
    by (cases "ki_output_indexes k") (auto simp: global_indexes_def ag)
  with assms(1) ag show ?thesis
    by (auto simp: input_authorised_def list_all2_Cons1 lg_read_def lg_count_def split: if_splits)
qed

section \<open>Redoing a block\<close>

lemma db_put_same_rest:
  assumes "db_put d k v no = Inr d'" "ledger_key k"
  shows "\<forall>key. \<not> ledger_key key \<longrightarrow> db_get d' key = db_get d key"
  using db_get_put [OF assms(1)] assms(2) by auto

lemma next_gi_db: "next_global_index_for_amount a s = Inr (g, s') \<Longrightarrow> bc_db s' = bc_db s"
  by (auto simp: next_global_index_for_amount_def res_bind_eq_Inr case_eq_Inr split: if_splits)

lemma push_same_rest: "push_amount_output a t h pk s = Inr (g, s') \<Longrightarrow> same_rest s s'"
  by (auto simp: push_amount_output_def Let_def res_bind_eq_Inr same_rest_def dest!: next_gi_db db_put_same_rest)

lemma spend_same_rest: "spend_output a g b s = Inr s' \<Longrightarrow> same_rest s s'"
  by (auto simp: spend_output_def res_bind_eq_Inr case_eq_Inr same_rest_def dest!: db_put_same_rest)

lemma res_fold_same_rest:
  assumes "\<And>x t t'. f x t = Inr t' \<Longrightarrow> same_rest t t'"
  shows "res_fold f xs s = Inr s' \<Longrightarrow> same_rest s s'"
  by (induction xs arbitrary: s) (auto simp: res_bind_eq_Inr dest!: assms intro: same_rest_trans)

lemma store_keyimages_ok:
  assumes "ledger_ok s L" "res_fold (\<lambda>(k, h). store_keyimage k h) m s = Inr s'"
  shows "same_rest s s' \<and> (\<forall>k \<in> om_keys m. lg_keyimages L k = None)"
  using assms
proof (induction m arbitrary: s L)
  case Nil
  then show ?case by simp
next
  case (Cons x m)
  obtain k h where x: "x = (k, h)" by fastforce
  with Cons.prems obtain t where t: "store_keyimage k h s = Inr t"
    "res_fold (\<lambda>(k, h). store_keyimage k h) m t = Inr s'" by (auto simp: res_bind_eq_Inr)
  note st = ledger_ok_store [OF Cons.prems(1) t(1)]
  from st have ok: "ledger_ok t (lg_store_keyimage k h L)" and rest: "same_rest s t"
    and free: "lg_keyimages L k = None" by blast+
  from Cons.IH [OF ok t(2)] have IH: "same_rest t s'"
    "\<forall>k' \<in> om_keys m. lg_keyimages (lg_store_keyimage k h L) k' = None" by blast+
  have "lg_keyimages L k' = None" if "k' \<in> om_keys m" for k'
    using IH(2) that by (auto simp: lg_store_keyimage_def split: if_splits)
  with free have "\<forall>k \<in> om_keys (x # m). lg_keyimages L k = None" by (simp add: x)
  with same_rest_trans [OF rest IH(1)] show ?case by blast
qed

lemma apply_chain_ok:
  assumes ok: "ledger_ok s L" and ap: "apply_delta chain_ops d s = Inr s'"
  shows "same_rest s s' \<and> (\<forall>k \<in> om_keys (ds_keyimages d). lg_keyimages L k = None)"
proof -
  from ap obtain s1 s2 where
    s1: "res_fold (\<lambda>(k, h). store_keyimage k h) (ds_keyimages d) s = Inr s1" and
    s2: "res_fold (\<lambda>(amount, els). res_fold (\<lambda>(t, pk) s.
      res_bind (push_amount_output amount t (ds_block_height d) pk s) (\<lambda>(_, s). Inr s)) els) (ds_global_amounts d) s1 = Inr s2" and
    s3: "res_fold (\<lambda>(amount, g). spend_output amount g True) (ds_spent_outputs d) s2 = Inr s'"
    by (auto simp: apply_delta_def chain_ops_def res_bind_eq_Inr)
  have push: "same_rest t t'" if "(\<lambda>(u, pk) s.
      res_bind (push_amount_output a u h pk s) (\<lambda>(_, s). Inr s)) x t = Inr t'" for a h x t t'
    using that push_same_rest by (auto simp: res_bind_eq_Inr split: prod.splits)
  have "same_rest s1 s2"
    by (rule res_fold_same_rest [OF _ s2]) (auto intro: res_fold_same_rest [OF push] split: prod.splits)
  moreover have "same_rest s2 s'"
    by (rule res_fold_same_rest [OF _ s3]) (auto intro: spend_same_rest split: prod.splits)
  ultimately show ?thesis using store_keyimages_ok [OF ok s1] same_rest_trans by blast
qed

lemma redo_block_ok:
  assumes ok: "ledger_ok s L" and redo: "redo_block env c bhash b info s = Inr (True, s')"
    and room: "room (length (block_outputs b)) L" and outs: "valid_outputs (block_outputs b)"
    and spends: "spends_in_range (block_spends b) L"
  defines "key \<equiv> block_global_indices_key bhash"
  shows "ledger_ok s' (lg_block (hi_height info) b L) \<and> distinct (block_key_images b) \<and>
    (\<forall>k \<in> set (block_key_images b). lg_keyimages L k = None) \<and>
    db_get (bc_db s) key = None \<and>
    db_get (bc_db s') key = Some (to_binary enc_global_indices (tx_indices (hi_height info) (block_txs b) L)) \<and>
    (\<forall>k. \<not> ledger_key k \<longrightarrow> k \<noteq> key \<longrightarrow> db_get (bc_db s') k = db_get (bc_db s) k)"
proof -
  let ?h = "hi_height info" and ?chain = "view_of chain_ops s"
  let ?txs = "(True, bt_base_transaction (blk_header b)) # map (Pair False) (blk_transactions b)"
  from redo obtain d gis s1 db where
    run: "redo_transactions env c ?chain ?txs (new_delta ?h (hi_timestamp info)) [] = Inr (True, d, gis)" and
    ap: "apply_delta chain_ops d s = Inr s1" and
    put: "db_put (bc_db s1) key (to_binary enc_global_indices gis) True = Inr db" and
    s': "s' = s1\<lparr>cs_tx_pool_version := 2, bc_db := db\<rparr>"
    by (auto simp: redo_block_def redo_block_delta_def Let_def res_bind_eq_Inr key_def split: if_splits)
  have v: "view_ok ?chain L" by (rule chain.view [OF ok])
  have R: "delta_ok L ?h d (fold (lg_tx ?h) (map snd ?txs) L) \<and>
    gis = [] @ tx_indices ?h (map snd ?txs) L \<and>
    distinct (concat (map (tx_key_images \<circ> snd) ?txs)) \<and>
    om_keys (ds_keyimages (new_delta ?h (hi_timestamp info))) \<inter> set (concat (map (tx_key_images \<circ> snd) ?txs)) = {} \<and>
    om_keys (ds_keyimages d) = om_keys (ds_keyimages (new_delta ?h (hi_timestamp info))) \<union>
      set (concat (map (tx_key_images \<circ> snd) ?txs))"
    by (rule redo_transactions_ok [OF v delta_ok_new [OF v] run])
      (use room outs spends in \<open>auto simp: block_outputs_def block_spends_def block_txs_def valid_outputs_def
        comp_def list_all_iff\<close>)
  have M: "map snd ?txs = block_txs b" by (simp add: block_txs_def comp_def)
  have K: "concat (map (tx_key_images \<circ> snd) ?txs) = block_key_images b"
    by (simp add: block_key_images_def block_txs_def comp_def)
  from R have d: "delta_ok L ?h d (lg_block ?h b L)" and gis: "gis = tx_indices ?h (block_txs b) L"
    and dist: "distinct (block_key_images b)" and keys: "om_keys (ds_keyimages d) = set (block_key_images b)"
    unfolding M K by (simp_all add: lg_block_def new_delta_def)
  have ok1: "ledger_ok s1 (lg_block ?h b L)" by (rule chain.apply_ok [OF ok d ap])
  have rest: "same_rest s s1" "\<forall>k \<in> set (block_key_images b). lg_keyimages L k = None"
    using apply_chain_ok [OF ok ap] by (simp_all add: keys)
  have nk: "\<not> ledger_key key" by (simp add: key_def)
  note get = db_get_put [OF put]
  have "ledger_ok s' (lg_block ?h b L)"
    using ok1 om_wf_put [OF ledger_okD(1) [OF ok1] put]
    by (auto simp: ledger_ok_def s' get key_def amount_output_key_def amount_output_prefix_def keyimage_key_def
      block_global_indices_key_def BLOCK_GLOBAL_INDICES_PREFIX_def AMOUNT_OUTPUT_PREFIX_def KEYIMAGE_PREFIX_def)
  moreover have "db_get (bc_db s1) key = None" using put by (auto simp: db_put_def split: if_splits)
  ultimately show ?thesis
    using rest dist nk by (auto simp: s' get gis same_rest_def)
qed

section \<open>Undoing\<close>

text \<open>
  Inputs whose key images are new and different, and whose rings of one spend different
  outputs that are there and unspent.
\<close>

definition can_spend :: "ledger \<Rightarrow> amount \<times> u32 \<Rightarrow> bool" where
  "can_spend L x = (case lg_read (fst x) (snd x) L of None \<Rightarrow> False | Some u \<Rightarrow> \<not> unp_spent u)"

definition fresh_spends :: "(amount \<times> u32) list \<Rightarrow> ledger \<Rightarrow> bool" where
  "fresh_spends sp L \<longleftrightarrow> distinct sp \<and> (\<forall>x \<in> set sp. can_spend L x)"

definition fresh_inputs :: "key_input list \<Rightarrow> ledger \<Rightarrow> bool" where
  "fresh_inputs ks L \<longleftrightarrow> distinct (map ki_key_image ks) \<and> (\<forall>k \<in> set ks. lg_keyimages L (ki_key_image k) = None) \<and>
     fresh_spends (concat (map spent_by ks)) L"

lemma can_spend_other [simp]:
  assumes "x \<noteq> y"
  shows "can_spend (lg_spend (fst y) (snd y) t L) x = can_spend L x"
proof -
  have "lg_read (fst x) (snd x) (lg_spend (fst y) (snd y) t L) = lg_read (fst x) (snd x) L"
    using assms word_unat_eq_iff [of "snd x" "snd y"]
    by (cases x; cases y) (auto simp: lg_defs nth_list_update_neq)
  then show ?thesis by (simp add: can_spend_def)
qed

lemma can_spend_store [simp]: "can_spend (lg_store_keyimage k h L) x = can_spend L x"
  by (simp add: can_spend_def lg_read_def lg_store_keyimage_def)

lemma can_spend_output: "can_spend L x \<Longrightarrow> can_spend (lg_output h t out L) x"
  by (auto simp: can_spend_def lg_output_def lg_read_def lg_push_def nth_append split: option.splits if_splits)

lemma fresh_spends_append: "fresh_spends (sp @ sq) L \<Longrightarrow> fresh_spends sq (lg_spends sp L)"
proof (induction sp arbitrary: L)
  case Nil
  then show ?case by simp
next
  case (Cons x sp)
  have "can_spend (lg_spend (fst x) (snd x) True L) y" if "y \<in> set (sp @ sq)" for y
    using Cons.prems that by (subst can_spend_other) (auto simp: fresh_spends_def)
  then have "fresh_spends (sp @ sq) (lg_spend (fst x) (snd x) True L)"
    using Cons.prems by (auto simp: fresh_spends_def)
  with Cons.IH show ?case by (cases x) simp
qed

lemma fresh_inputs_Cons:
  assumes "fresh_inputs (k # ks) L"
  shows "fresh_inputs ks (lg_input h k L)"
proof -
  have "fresh_spends (concat (map spent_by ks)) (lg_spends (spent_by k) L)"
    using assms by (intro fresh_spends_append) (simp add: fresh_inputs_def)
  moreover have "lg_keyimages (lg_input h k L) (ki_key_image l) = None" if "l \<in> set ks" for l
    using assms that by (auto simp: fresh_inputs_def lg_input_def lg_store_keyimage_def image_iff)
  ultimately show ?thesis
    using assms by (simp add: fresh_inputs_def lg_input_def fresh_spends_def)
qed

lemma fresh_inputs_append: "fresh_inputs (ks @ ls) L \<Longrightarrow> fresh_inputs ls (fold (lg_input h) ks L)"
  by (induction ks arbitrary: L) (simp_all add: fresh_inputs_Cons)

lemma fresh_inputs_output: "fresh_inputs ks L \<Longrightarrow> fresh_inputs ks (lg_output h t out L)"
  by (simp add: fresh_inputs_def fresh_spends_def can_spend_output) (simp add: lg_output_def lg_push_def)

lemma fresh_inputs_tx: "fresh_inputs (key_inputs (tx_inputs tx) @ ks) L \<Longrightarrow> fresh_inputs ks (lg_tx h tx L)"
proof -
  have outs: "fresh_inputs ks (fold (lg_output h t) outs L)" if "fresh_inputs ks L" for t outs L
    using that by (induction outs arbitrary: L) (simp_all add: fresh_inputs_output)
  show "fresh_inputs (key_inputs (tx_inputs tx) @ ks) L \<Longrightarrow> fresh_inputs ks (lg_tx h tx L)"
    unfolding lg_tx_def by (intro outs fresh_inputs_append)
qed

lemma undo_input_ok:
  assumes ok: "ledger_ok s (lg_input h k L)" and fresh: "fresh_inputs [k] L"
  shows "\<exists>s'. undo_inputs [KeyInput k] s = Inr s' \<and> ledger_ok s' L \<and> same_rest s s'"
proof -
  let ?L = "lg_spends (spent_by k) L"
  have none: "lg_keyimages L (ki_key_image k) = None" using fresh by (simp add: fresh_inputs_def)
  then have "lg_delete_keyimage (ki_key_image k) (lg_input h k L) = ?L"
    by (simp add: lg_input_def lg_delete_store)
  with ledger_ok_delete [OF ok, of "ki_key_image k"] obtain t where
    t: "delete_keyimage (ki_key_image k) s = Inr t" "ledger_ok t ?L" "same_rest s t"
    by (auto simp: lg_input_def lg_store_keyimage_def)
  show ?thesis
  proof (cases "length (ki_output_indexes k) = 1")
    case True
    let ?a = "ki_amount k" and ?g = "ki_output_indexes k ! 0"
    from True have sp: "spent_by k = [(?a, ?g)]" by (simp add: spent_by_def)
    with fresh obtain u where "lg_read ?a ?g L = Some u" "\<not> unp_spent u"
      by (auto simp: fresh_inputs_def fresh_spends_def can_spend_def split: option.splits)
    then have "lg_spend ?a ?g False (lg_spend ?a ?g True L) = L" by (rule lg_unspend_spend)
    with ledger_ok_spend [OF t(2), of ?a ?g False] sp obtain s' where
      "spend_output ?a ?g False t = Inr s'" "ledger_ok s' L" "same_rest t s'" by auto
    with t True show ?thesis by (auto intro: same_rest_trans)
  next
    case False
    with t show ?thesis by (auto simp: spent_by_def)
  qed
qed

lemma undo_inputs_append: "undo_inputs (xs @ ys) s = res_bind (undo_inputs xs s) (undo_inputs ys)"
  by (induction xs s rule: undo_inputs.induct) (simp_all add: res_bind_def split: sum.split)

lemma undo_outputs_append: "undo_outputs t (xs @ ys) s = res_bind (undo_outputs t xs s) (undo_outputs t ys)"
  by (induction t xs s rule: undo_outputs.induct) (simp_all add: res_bind_def split: sum.split)

lemma undo_inputs_ok:
  assumes "ledger_ok s (fold (lg_input h) (key_inputs ins) L)" "fresh_inputs (key_inputs ins) L"
  shows "\<exists>s'. undo_inputs (rev ins) s = Inr s' \<and> ledger_ok s' L \<and> same_rest s s'"
  using assms
proof (induction ins arbitrary: s rule: rev_induct)
  case Nil
  then show ?case by simp
next
  case (snoc x ins)
  have pre: "fresh_inputs (key_inputs ins) L"
    using snoc.prems(2) by (auto simp: fresh_inputs_def fresh_spends_def)
  show ?case
  proof (cases x)
    case (CoinbaseInput u)
    with snoc.IH [OF _ pre] snoc.prems(1) show ?thesis by simp
  next
    case (KeyInput k)
    from snoc.prems(1) KeyInput have "ledger_ok s (lg_input h k (fold (lg_input h) (key_inputs ins) L))" by simp
    moreover have "fresh_inputs [k] (fold (lg_input h) (key_inputs ins) L)"
      using snoc.prems(2) KeyInput by (intro fresh_inputs_append) simp
    ultimately obtain t where t: "undo_inputs [KeyInput k] s = Inr t"
      "ledger_ok t (fold (lg_input h) (key_inputs ins) L)" "same_rest s t"
      using undo_input_ok by blast
    from snoc.IH [OF t(2) pre] obtain s' where
      s': "undo_inputs (rev ins) t = Inr s'" "ledger_ok s' L" "same_rest t s'" by blast
    have "undo_inputs (rev (ins @ [x])) s = res_bind (undo_inputs [KeyInput k] s) (undo_inputs (rev ins))"
      using undo_inputs_append [of "[KeyInput k]" "rev ins"] KeyInput by simp
    with t s' show ?thesis by (auto intro: same_rest_trans)
  qed
qed

lemma undo_outputs_ok:
  assumes "ledger_ok s (fold (lg_output h t) outs L)"
  shows "\<exists>s'. undo_outputs t (rev outs) s = Inr s' \<and> ledger_ok s' L \<and> same_rest s s'"
  using assms
proof (induction outs arbitrary: s rule: rev_induct)
  case Nil
  then show ?case by simp
next
  case (snoc out outs)
  let ?L = "fold (lg_output h t) outs L" and ?u = "new_output h (t, output_key out)"
  have ok: "ledger_ok s (lg_push (to_amount out) ?u ?L)" using snoc.prems by (simp add: lg_output_def [of h t out])
  have "lg_outputs (lg_push (to_amount out) ?u ?L) (to_amount out) = lg_outputs ?L (to_amount out) @ [?u]"
    by (simp add: lg_push_def)
  from ledger_ok_pop [OF ok this, of t "output_key out"] obtain s1 where
    s1: "pop_amount_output (to_amount out) t (output_key out) s = Inr s1" "ledger_ok s1 ?L" "same_rest s s1"
    by (auto simp: new_output_def)
  from snoc.IH [OF s1(2)] s1 show ?case by (auto intro: same_rest_trans)
qed

lemma undo_transaction_ok:
  assumes "ledger_ok s (lg_tx h tx L)" "fresh_inputs (key_inputs (tx_inputs tx)) L"
  shows "\<exists>s'. undo_transaction tx s = Inr s' \<and> ledger_ok s' L \<and> same_rest s s'"
proof -
  from undo_outputs_ok assms(1) obtain t where
    t: "undo_outputs (tx_unlock_time tx) (rev (tx_outputs tx)) s = Inr t"
      "ledger_ok t (fold (lg_input h) (key_inputs (tx_inputs tx)) L)" "same_rest s t"
    unfolding lg_tx_def by blast
  from undo_inputs_ok [OF t(2) assms(2)] t show ?thesis
    by (auto simp: undo_transaction_def intro: same_rest_trans)
qed

lemma undo_transactions_ok:
  assumes "ledger_ok s (fold (lg_tx h) txs L)" "fresh_inputs (concat (map (\<lambda>tx. key_inputs (tx_inputs tx)) txs)) L"
  shows "\<exists>s'. res_fold undo_transaction (rev txs) s = Inr s' \<and> ledger_ok s' L \<and> same_rest s s'"
  using assms
proof (induction txs arbitrary: L)
  case Nil
  then show ?case by simp
next
  case (Cons tx txs)
  from Cons.prems(2) have tl: "fresh_inputs (concat (map (\<lambda>tx. key_inputs (tx_inputs tx)) txs)) (lg_tx h tx L)"
    by (intro fresh_inputs_tx) simp
  from Cons.prems(2) have hd: "fresh_inputs (key_inputs (tx_inputs tx)) L"
    by (auto simp: fresh_inputs_def fresh_spends_def)
  from Cons.IH [OF _ tl] Cons.prems(1) obtain t where
    t: "res_fold undo_transaction (rev txs) s = Inr t" "ledger_ok t (lg_tx h tx L)" "same_rest s t" by auto
  from undo_transaction_ok [OF t(2) hd] obtain s' where
    "undo_transaction tx t = Inr s'" "ledger_ok s' L" "same_rest t s'" by blast
  with t show ?case by (auto simp: res_fold_append intro: same_rest_trans)
qed

section \<open>Accepted blocks\<close>

lemma ledger_ok_same:
  assumes "ledger_ok s L" "om_wf (bc_db s')" "\<And>k. ledger_key k \<Longrightarrow> db_get (bc_db s') k = db_get (bc_db s) k"
    and "cs_next_gi_for_amount s' = cs_next_gi_for_amount s"
  shows "ledger_ok s' L"
proof -
  have "ledger_key (AMOUNT_OUTPUT_PREFIX @ r)" for r by (auto simp: ledger_key_def)
  with assms show ?thesis by (simp add: ledger_ok_def)
qed

text \<open>A block whose coinbase spends nothing.\<close>

definition coinbase_block :: "block \<Rightarrow> bool" where
  "coinbase_block b \<longleftrightarrow> key_inputs (tx_inputs (bt_base_transaction (blk_header b))) = []"

lemma redo_block_authorised:
  assumes ok: "ledger_ok s L" and redo: "redo_block env c bhash b info s = Inr (True, s')"
    and zone: "\<not> is_in_sw_checkpoint_zone c (hi_height info + 1)"
    and tx: "tx \<in> set (blk_transactions b)" "i < length (tx_inputs tx)" "tx_inputs tx ! i = KeyInput k"
  shows "input_authorised env c (hi_height info) (hi_timestamp info) L tx i k"
proof -
  let ?chain = "view_of chain_ops s"
  from redo zone obtain args where
    start: "start_work_get_error env c ?chain b (hi_height info) (hi_timestamp info) = Inr ([], args)" and
    valid: "ring_signatures_valid env args"
    by (auto simp: redo_block_def Let_def res_bind_eq_Inr split: if_splits)
  show ?thesis
    by (rule ring_args_transactions_ok [OF chain.view [OF ok] _ valid tx])
      (use start in \<open>simp add: start_work_get_error_def\<close>)
qed

lemma redo_block_in_range:
  assumes ok: "ledger_ok s L" and redo: "redo_block env c bhash b info s = Inr (True, s')"
    and zone: "\<not> is_in_sw_checkpoint_zone c (hi_height info + 1)" and base: "coinbase_block b"
  shows "spends_in_range (block_spends b) L"
proof -
  have "unat g < lg_count a L" if sp: "(a, g) \<in> set (block_spends b)" for a g
  proof -
    from sp base obtain tx k where tx: "tx \<in> set (blk_transactions b)" "KeyInput k \<in> set (tx_inputs tx)"
      "(a, g) \<in> set (spent_by k)"
      by (auto simp: block_spends_def block_txs_def tx_spends_def coinbase_block_def set_key_inputs)
    then obtain i where "i < length (tx_inputs tx)" "tx_inputs tx ! i = KeyInput k" by (auto simp: in_set_conv_nth)
    from redo_block_authorised [OF ok redo zone tx(1) this] tx(3) show ?thesis by (rule authorised_spent_by)
  qed
  then show ?thesis by (auto simp: spends_in_range_def)
qed

lemma fresh_spends_in_range: "fresh_spends sp L \<Longrightarrow> spends_in_range sp L"
  by (force simp: fresh_spends_def spends_in_range_def can_spend_def lg_read_def lg_count_def split: if_splits)

text \<open>A block whose inputs are all new to the ledger can be taken back.\<close>

definition block_inputs :: "block \<Rightarrow> key_input list" where
  "block_inputs b = concat (map (\<lambda>tx. key_inputs (tx_inputs tx)) (block_txs b))"

lemma block_inputs_key_images: "map ki_key_image (block_inputs b) = block_key_images b"
proof -
  have "map ki_key_image (concat (map (\<lambda>tx. key_inputs (tx_inputs tx)) txs)) = concat (map tx_key_images txs)" for txs :: "transaction list"
    by (induction txs) (simp_all add: tx_key_images_def)
  then show ?thesis by (simp add: block_inputs_def block_key_images_def)
qed

lemma block_inputs_spends: "concat (map spent_by (block_inputs b)) = block_spends b"
proof -
  have "concat (map spent_by (concat (map (\<lambda>tx. key_inputs (tx_inputs tx)) txs))) = concat (map tx_spends txs)" for txs :: "transaction list"
    by (induction txs) (simp_all add: tx_spends_def)
  then show ?thesis by (simp add: block_inputs_def block_spends_def)
qed

lemma undo_block_ledger:
  assumes ok: "ledger_ok s (lg_block h b L)" and fresh: "fresh_inputs (block_inputs b) L"
    and key: "key = block_global_indices_key bhash" and gi: "db_get (bc_db s) key \<noteq> None"
  shows "\<exists>s'. undo_block bhash b h' s = Inr s' \<and> ledger_ok s' L \<and>
    (\<forall>k. \<not> ledger_key k \<longrightarrow> db_get (bc_db s') k = (if k = key then None else db_get (bc_db s) k))"
proof -
  from ok have ok': "ledger_ok s (fold (lg_tx h) (block_txs b) L)" by (simp add: lg_block_def)
  from undo_transactions_ok [OF ok' fresh [unfolded block_inputs_def]] obtain t where
    t: "res_fold undo_transaction (rev (block_txs b)) s = Inr t" "ledger_ok t L" "same_rest s t" by blast
  have nk: "\<not> ledger_key key" by (simp add: key)
  have "db_get (bc_db t) key \<noteq> None" using gi t(3) nk by (auto simp: same_rest_def)
  then obtain db where del: "db_del (bc_db t) key True = Inr db" by (auto simp: db_del_def)
  note get = db_get_del [OF ledger_okD(1) [OF t(2)] del]
  define s' where "s' = t\<lparr>bc_db := db\<rparr>"
  have "ledger_ok s' L"
    by (rule ledger_ok_same [OF t(2)]) (auto simp: s'_def get nk om_wf_del [OF ledger_okD(1) [OF t(2)] del])
  moreover have "undo_block bhash b h' s = Inr s'"
    using t(1) del by (auto simp: undo_block_def block_txs_def res_fold_append res_bind_eq_Inr s'_def key)
  ultimately show ?thesis using t(3) by (auto simp: same_rest_def s'_def get)
qed

lemma undo_block_ok:
  assumes ok: "ledger_ok s L" and redo: "redo_block env c bhash b info s = Inr (True, s')"
    and room: "room (length (block_outputs b)) L" and outs: "valid_outputs (block_outputs b)"
    and spends: "fresh_spends (block_spends b) L"
  shows "\<exists>s''. undo_block bhash b h s' = Inr s'' \<and> ledger_ok s'' L \<and> bc_db s'' = bc_db s"
proof -
  let ?key = "block_global_indices_key bhash"
  note R = redo_block_ok [OF ok redo room outs fresh_spends_in_range [OF spends]]
  then have fresh: "fresh_inputs (block_inputs b) L"
    using spends by (simp add: fresh_inputs_def block_inputs_spends flip: block_inputs_key_images)
  from R undo_block_ledger [OF _ fresh refl, of s' "hi_height info" bhash h] obtain s'' where
    s'': "undo_block bhash b h s' = Inr s''" "ledger_ok s'' L"
    "\<And>k. \<not> ledger_key k \<Longrightarrow> db_get (bc_db s'') k = (if k = ?key then None else db_get (bc_db s') k)" by auto
  with R have "same_rest s s''" by (auto simp: same_rest_def)
  with s'' show ?thesis using ledger_ok_unique [OF ok] by blast
qed

text \<open>
  C3: a block that the chain accepts has exactly the effect of its transactions on the ledger
  the database stands for: its key images are stored, its outputs appended, its spends marked.
  Outside the checkpoint zone nothing more is asked of the block; inside, that the outputs its
  rings of one name exist.
\<close>

theorem redo_block_refines:
  assumes "ledger_ok s L" "redo_block env c bhash b info s = Inr (True, s')"
    and "room (length (block_outputs b)) L" "valid_outputs (block_outputs b)" "coinbase_block b"
    and "is_in_sw_checkpoint_zone c (hi_height info + 1) \<Longrightarrow> spends_in_range (block_spends b) L"
  shows "ledger_ok s' (lg_block (hi_height info) b L)"
  using redo_block_ok [OF assms(1-4)] redo_block_in_range [OF assms(1,2) _ assms(5)] assms(6) by blast

text \<open>
  C4: no double spend.  The key images of an accepted block differ from each other, none of them
  was spent before, and each of them reads as spent at the height of the block afterwards.
\<close>

theorem redo_block_no_double_spend:
  assumes "ledger_ok s L" "redo_block env c bhash b info s = Inr (True, s')"
    and "room (length (block_outputs b)) L" "valid_outputs (block_outputs b)" "coinbase_block b"
    and "is_in_sw_checkpoint_zone c (hi_height info + 1) \<Longrightarrow> spends_in_range (block_spends b) L"
  shows "distinct (block_key_images b) \<and>
    list_all (\<lambda>k. read_keyimage k s = Inr None \<and> read_keyimage k s' = Inr (Some (hi_height info))) (block_key_images b)"
proof -
  let ?h = "hi_height info"
  note R = redo_block_ok [OF assms(1-4)] 
  have range: "spends_in_range (block_spends b) L"
    using redo_block_in_range [OF assms(1,2) _ assms(5)] assms(6) by blast
  have inputs: "lg_keyimages (fold (lg_input ?h) ks M) k =
      (if k \<in> ki_key_image ` set ks then Some ?h else lg_keyimages M k)" for ks M k
    by (induction ks arbitrary: M) (auto simp: lg_input_def lg_store_keyimage_def)
  have outs: "lg_keyimages (fold (lg_output ?h t) os M) = lg_keyimages M" for t os M
    by (induction os arbitrary: M) (simp_all add: lg_output_def [of ?h t] lg_push_def)
  have txs: "lg_keyimages (fold (lg_tx ?h) txs M) k =
      (if k \<in> set (concat (map tx_key_images txs)) then Some ?h else lg_keyimages M k)" for txs :: "transaction list" and M k
    by (induction txs arbitrary: M) (auto simp: lg_tx_def outs inputs tx_key_images_def)
  have "lg_keyimages (lg_block ?h b L) k = Some ?h" if "k \<in> set (block_key_images b)" for k
    using that unfolding lg_block_def block_key_images_def txs by (rule if_P)
  with R [OF range] read_keyimage_ok [OF assms(1)] show ?thesis
    by (auto simp: list_all_iff read_keyimage_ok)
qed

text \<open>
  C5: every input of an accepted block outside the checkpoint zone is authorised: a ring of
  existing outputs of its amount that are unlocked at that height and time, with a signature
  that the check accepts for their keys and the hash of the transaction.
\<close>

theorem redo_block_inputs_authorised:
  assumes "ledger_ok s L" "redo_block env c bhash b info s = Inr (True, s')"
    and "\<not> is_in_sw_checkpoint_zone c (hi_height info + 1)"
    and "tx \<in> set (blk_transactions b)" "i < length (tx_inputs tx)" "tx_inputs tx ! i = KeyInput k"
  shows "input_authorised env c (hi_height info) (hi_timestamp info) L tx i k"
  by (rule redo_block_authorised [OF assms])

text \<open>
  C6: undoing a block that was just redone succeeds and restores the database, whatever the
  block, as long as the outputs it spends openly were unspent.
\<close>

theorem undo_redo_block:
  assumes "ledger_ok s L" "redo_block env c bhash b info s = Inr (True, s')"
    and "room (length (block_outputs b)) L" "valid_outputs (block_outputs b)" "fresh_spends (block_spends b) L"
  shows "\<exists>s''. undo_block bhash b h s' = Inr s'' \<and> bc_db s'' = bc_db s"
  using undo_block_ok [OF assms] by blast

text \<open>
  The global indices of the outputs of a block can be read back by its hash, one list for
  every transaction, and the output of an index is the output of the transaction.
\<close>

lemma redo_block_global_indices:
  assumes "ledger_ok s L" "redo_block env c bhash b info s = Inr (True, s')"
    and "room (length (block_outputs b)) L" "valid_outputs (block_outputs b)" "coinbase_block b"
    and "is_in_sw_checkpoint_zone c (hi_height info + 1) \<Longrightarrow> spends_in_range (block_spends b) L"
    and "fits64 (block_txs b)"
  shows "read_block_output_global_indices bhash s' = Inr (Some (tx_indices (hi_height info) (block_txs b) L))"
proof -
  let ?gis = "tx_indices (hi_height info) (block_txs b) L"
  have "spends_in_range (block_spends b) L"
    using redo_block_in_range [OF assms(1,2) _ assms(5)] assms(6) by blast
  then have get: "db_get (bc_db s') (block_global_indices_key bhash) = Some (to_binary enc_global_indices ?gis)"
    using redo_block_ok [OF assms(1-4)] by blast
  have short: "length (tx_outputs tx) < 2 ^ 32" if "tx \<in> set (block_txs b)" for tx
  proof -
    have "length (tx_outputs tx) \<le> length (block_outputs b)"
      using that unfolding block_outputs_def by (induction "block_txs b") (auto simp: length_concat dest: split_list)
    also have "\<dots> < 2 ^ 32" using assms(3) by (auto simp: room_def dest: spec [of _ 0])
    finally show ?thesis .
  qed
  have "valid_vector (valid_vector (\<lambda>_. True)) ?gis"
    using assms(7) set_tx_indices [of _ "hi_height info" "block_txs b" L] short
    by (fastforce simp: valid_vector_def fits64_def list_all_iff)
  then have "from_binary dec_global_indices (to_binary enc_global_indices ?gis) = Inr ?gis"
    unfolding dec_global_indices_def enc_global_indices_def
    by (rule codec.from_to_binary [OF indexes.vector])
  with get show ?thesis by (simp add: read_block_output_global_indices_def)
qed

section \<open>An accepted block\<close>

definition sample_key :: public_key where
  "sample_key = replicate 32 7"

definition empty_chain :: chain_state where
  "empty_chain = \<lparr>bc_db = [], bc_genesis_bid = null_hash, bc_tip_bid = null_hash, bc_tip_cumulative_difficulty = 0,
     bc_tip_height = 0, bc_header_cache = [], bc_header_tip_window = [], cs_next_gi_for_amount = [],
     cs_tx_pool_version = 2, cs_memory_state_tx = [], cs_memory_state_ki_tx = [], cs_memory_state_fee_tx = [],
     cs_memory_state_total_size = 0, cs_mining_transactions = [], cs_next_median_timestamp = 0, cs_next_median_size = 0\<rparr>"

definition sample_chain :: chain_state where
  "sample_chain = (case push_amount_output 5 0 1 sample_key empty_chain of Inl _ \<Rightarrow> empty_chain | Inr (_, s) \<Rightarrow> s)"

definition sample_ledger :: ledger where
  "sample_ledger = lg_push 5 (new_output 1 (0, sample_key)) \<lparr>lg_keyimages = (\<lambda>_. None), lg_outputs = (\<lambda>_. [])\<rparr>"

definition sample_transaction :: transaction where
  "sample_transaction = \<lparr>tx_version = 1, tx_unlock_time = 0,
     tx_inputs = [KeyInput \<lparr>ki_amount = 5, ki_output_indexes = [0], ki_key_image = replicate 32 9\<rparr>],
     tx_outputs = [\<lparr>to_amount = 3, to_target = KeyOutput sample_key\<rparr>], tx_extra = [],
     tx_signatures = [[replicate 64 0]]\<rparr>"

definition sample_coinbase :: transaction where
  "sample_coinbase = \<lparr>tx_version = 1, tx_unlock_time = 12, tx_inputs = [CoinbaseInput 2],
     tx_outputs = [\<lparr>to_amount = 5, to_target = KeyOutput sample_key\<rparr>], tx_extra = [], tx_signatures = [[]]\<rparr>"

definition sample_block :: block where
  "sample_block = \<lparr>blk_header = empty_block_template\<lparr>bt_base_transaction := sample_coinbase\<rparr>,
     blk_transactions = [sample_transaction]\<rparr>"

definition sample_info :: header_info where
  "sample_info = empty_header_info\<lparr>hi_height := 2, hi_timestamp := 1560000000\<rparr>"

lemma sample_chain_ok: "ledger_ok sample_chain sample_ledger"
proof -
  have "ledger_ok empty_chain \<lparr>lg_keyimages = (\<lambda>_. None), lg_outputs = (\<lambda>_. [])\<rparr>"
    by (simp add: ledger_ok_def empty_chain_def db_get_def lg_read_def lg_count_def)
  from ledger_ok_push [OF this, of 5 sample_key 0 1] show ?thesis
    by (auto simp: sample_chain_def sample_ledger_def lg_count_def pod32_def sample_key_def new_output_def)
qed

lemma sample_redo: "\<exists>s'. redo_block sample_env sample_currency null_hash sample_block sample_info sample_chain = Inr (True, s')"
proof -
  let ?r = "redo_block sample_env sample_currency null_hash sample_block sample_info sample_chain"
  have "(case ?r of Inl _ \<Rightarrow> False | Inr (b, _) \<Rightarrow> b)"
    by code_simp
  then show ?thesis by (auto split: sum.splits prod.splits)
qed

lemma sample_block_ok:
  "room (length (block_outputs sample_block)) sample_ledger" "valid_outputs (block_outputs sample_block)"
  "coinbase_block sample_block" "\<not> is_in_sw_checkpoint_zone sample_currency (hi_height sample_info + 1)"
  "fresh_spends (block_spends sample_block) sample_ledger" "fits64 (block_txs sample_block)"
  by (simp_all add: sample_block_def block_outputs_def block_txs_def sample_coinbase_def sample_transaction_def
    room_def sample_ledger_def lg_count_def lg_push_def valid_outputs_def pod32_def sample_key_def coinbase_block_def
    is_in_sw_checkpoint_zone_def sample_currency_def make_currency_def Let_def sample_info_def fresh_spends_def
    block_spends_def tx_spends_def spent_by_def can_spend_def lg_read_def new_output_def fits64_def)

theorem redo_block_refines_witness:
  "\<exists>s'. redo_block sample_env sample_currency null_hash sample_block sample_info sample_chain = Inr (True, s') \<and>
     ledger_ok s' (lg_block 2 sample_block sample_ledger)"
proof -
  obtain s' where s': "redo_block sample_env sample_currency null_hash sample_block sample_info sample_chain = Inr (True, s')"
    using sample_redo by blast
  from redo_block_refines [OF sample_chain_ok this sample_block_ok(1-3)] sample_block_ok(4) s' show ?thesis
    by (auto simp: sample_info_def)
qed

theorem redo_block_no_double_spend_witness:
  "\<exists>s'. redo_block sample_env sample_currency null_hash sample_block sample_info sample_chain = Inr (True, s') \<and>
     read_keyimage (replicate 32 9) s' = Inr (Some 2)"
proof -
  obtain s' where s': "redo_block sample_env sample_currency null_hash sample_block sample_info sample_chain = Inr (True, s')"
    using sample_redo by blast
  have "block_key_images sample_block = [replicate 32 9]"
    by (simp add: block_key_images_def block_txs_def sample_block_def tx_key_images_def sample_coinbase_def sample_transaction_def)
  with redo_block_no_double_spend [OF sample_chain_ok s' sample_block_ok(1-3)] sample_block_ok(4) s' show ?thesis
    by (auto simp: sample_info_def)
qed

theorem redo_block_inputs_authorised_witness:
  "input_authorised sample_env sample_currency 2 1560000000 sample_ledger sample_transaction 0
     \<lparr>ki_amount = 5, ki_output_indexes = [0], ki_key_image = replicate 32 9\<rparr>"
proof -
  obtain s' where s': "redo_block sample_env sample_currency null_hash sample_block sample_info sample_chain = Inr (True, s')"
    using sample_redo by blast
  show ?thesis
    using redo_block_inputs_authorised [OF sample_chain_ok s' sample_block_ok(4), of sample_transaction 0]
    by (simp add: sample_block_def sample_transaction_def sample_info_def)
qed

theorem undo_redo_block_witness:
  "\<exists>s' s''. redo_block sample_env sample_currency null_hash sample_block sample_info sample_chain = Inr (True, s') \<and>
     undo_block null_hash sample_block 2 s' = Inr s'' \<and> bc_db s'' = bc_db sample_chain"
proof -
  obtain s' where s': "redo_block sample_env sample_currency null_hash sample_block sample_info sample_chain = Inr (True, s')"
    using sample_redo by blast
  from undo_redo_block [OF sample_chain_ok this sample_block_ok(1,2,5), of 2] s' show ?thesis by blast
qed

theorem redo_block_global_indices_witness:
  "\<exists>s'. redo_block sample_env sample_currency null_hash sample_block sample_info sample_chain = Inr (True, s') \<and>
     read_block_output_global_indices null_hash s' = Inr (Some [[1], [0]])"
proof -
  obtain s' where s': "redo_block sample_env sample_currency null_hash sample_block sample_info sample_chain = Inr (True, s')"
    using sample_redo by blast
  have "tx_indices 2 (block_txs sample_block) sample_ledger = [[1], [0]]"
    by (simp add: block_txs_def sample_block_def sample_coinbase_def sample_transaction_def lg_tx_def
      lg_count_def lg_output_def [abs_def] sample_ledger_def lg_push_def lg_input_def lg_store_keyimage_def spent_by_def lg_spend_def)
  with redo_block_global_indices [OF sample_chain_ok s' sample_block_ok(1-3)] sample_block_ok(4,6) s' show ?thesis
    by (auto simp: sample_info_def)
qed

end
