(* ===== verification/Tx_Rules.thy ===== *)
theory Tx_Rules
  imports Chain_Base
begin

text \<open>
  The rules a transaction obeys by itself: its fee (\<open>get_tx_fee\<close>,
  \<open>Core/CryptoNoteTools.cpp\<close>), the checks of \<open>validate_semantic\<close>
  (\<open>Core/BlockChainState.cpp\<close>), and how the code splits an amount into outputs
  (\<open>decompose_amount\<close>).
\<close>

section \<open>Fees\<close>

definition get_tx_fee_opt :: "'a transaction_prefix_scheme \<Rightarrow> amount option" where
  "get_tx_fee_opt tx =
     (let amount_in = fold (\<lambda>i s. s + ki_amount i) (key_inputs (tx_inputs tx)) 0;
          amount_out = fold (\<lambda>out s. s + to_amount out) (tx_outputs tx) 0
      in if amount_in < amount_out then None else Some (amount_in - amount_out))"

definition get_tx_fee :: "'a transaction_prefix_scheme \<Rightarrow> amount" where
  "get_tx_fee tx = (case get_tx_fee_opt tx of None \<Rightarrow> 0 | Some r \<Rightarrow> r)"

section \<open>Semantic validation\<close>

text \<open>The loop over the outputs: an error, or \<open>summary_output_amount\<close>.\<close>

fun validate_outputs :: "crypto_env \<Rightarrow> bool \<Rightarrow> transaction_output list \<Rightarrow> amount \<Rightarrow> string + amount" where
  "validate_outputs env check_output_key [] acc = Inr acc"
| "validate_outputs env check_output_key (out # outs) acc =
     (if to_amount out = 0 then Inl ''OUTPUT_ZERO_AMOUNT''
      else case to_target out of KeyOutput key \<Rightarrow>
        if check_output_key \<and> \<not> key_isvalid env key then Inl ''OUTPUT_INVALID_KEY''
        else if - 1 - to_amount out < acc then Inl ''OUTPUTS_AMOUNT_OVERFLOW''
        else validate_outputs env check_output_key outs (acc + to_amount out))"

text \<open>The loop over the inputs, with the key images it has seen: an error, or \<open>summary_input_amount\<close>.\<close>

fun validate_inputs :: "bool \<Rightarrow> transaction_input list \<Rightarrow> key_image list \<Rightarrow> amount \<Rightarrow> string + amount" where
  "validate_inputs generating [] ki acc = Inr acc"
| "validate_inputs generating (CoinbaseInput h # ins) ki acc =
     (if \<not> generating then Inl ''INPUT_UNKNOWN_TYPE''
      else if - 1 - 0 < acc then Inl ''INPUTS_AMOUNT_OVERFLOW''
      else validate_inputs generating ins ki (acc + 0))"
| "validate_inputs generating (KeyInput inp # ins) ki acc =
     (if generating then Inl ''INPUT_UNKNOWN_TYPE''
      else if ki_key_image inp \<in> set ki then Inl ''INPUT_IDENTICAL_KEYIMAGES''
      else if ki_output_indexes inp = [] then Inl ''INPUT_EMPTY_OUTPUT_USAGE''
      else if 0 \<in> set (tl (ki_output_indexes inp)) then Inl ''INPUT_IDENTICAL_OUTPUT_INDEXES''
      else if - 1 - ki_amount inp < acc then Inl ''INPUTS_AMOUNT_OVERFLOW''
      else validate_inputs generating ins (ki_key_image inp # ki) (acc + ki_amount inp))"

text \<open>An error, or the fee.\<close>

definition validate_semantic :: "crypto_env \<Rightarrow> bool \<Rightarrow> transaction \<Rightarrow> bool \<Rightarrow> string + amount" where
  "validate_semantic env generating tx check_output_key =
     (if tx_inputs tx = [] then Inl ''EMPTY_INPUTS''
      else case validate_outputs env check_output_key (tx_outputs tx) 0 of
        Inl e \<Rightarrow> Inl e
      | Inr summary_output_amount \<Rightarrow>
          (case validate_inputs generating (tx_inputs tx) [] 0 of
             Inl e \<Rightarrow> Inl e
           | Inr summary_input_amount \<Rightarrow>
               if summary_output_amount > summary_input_amount \<and> \<not> generating then Inl ''WRONG_AMOUNT''
               else if length (tx_signatures tx) \<noteq> length (tx_inputs tx) \<and> \<not> generating then Inl ''INPUT_UNKNOWN_TYPE''
               else if tx_signatures tx \<noteq> [] \<and> generating then Inl ''INPUT_UNKNOWN_TYPE''
               else Inr (summary_input_amount - summary_output_amount)))"

lemma no_overflow: "\<not> - 1 - a < (s :: u64) \<longleftrightarrow> unat s + unat a < 2 ^ 64"
proof -
  have "a \<le> - 1" by simp
  then have "unat (- 1 - a) = unat (- 1 :: u64) - unat a" by (rule unat_sub)
  then have "unat (- 1 - a) = 2 ^ 64 - 1 - unat a" by (simp add: unsigned_minus_1_eq_mask mask_eq_exp_minus_1)
  then show ?thesis using u64_less [of a] by (auto simp: word_less_nat_alt)
qed

lemma validate_outputs_ok:
  assumes "validate_outputs env ck outs s = Inr t"
  shows "unat t = unat s + (\<Sum>out\<leftarrow>outs. unat (to_amount out)) \<and> list_all (\<lambda>out. to_amount out \<noteq> 0) outs \<and>
    (ck \<longrightarrow> list_all (\<lambda>out. case to_target out of KeyOutput key \<Rightarrow> key_isvalid env key) outs)"
  using assms
proof (induction outs arbitrary: s)
  case Nil
  then show ?case by simp
next
  case (Cons out outs)
  obtain key where k: "to_target out = KeyOutput key" by (cases "to_target out")
  from Cons.prems k have step: "to_amount out \<noteq> 0" "ck \<longrightarrow> key_isvalid env key"
    "\<not> - 1 - to_amount out < s" "validate_outputs env ck outs (s + to_amount out) = Inr t"
    by (auto split: if_splits)
  from step(3) have "unat (s + to_amount out) = unat s + unat (to_amount out)"
    by (simp add: no_overflow unat_word_ariths)
  with Cons.IH [OF step(4)] step k show ?case by simp
qed

lemma validate_inputs_ok:
  assumes "validate_inputs False ins ki s = Inr t"
  shows "unat t = unat s + (\<Sum>k\<leftarrow>key_inputs ins. unat (ki_amount k)) \<and>
    (\<forall>i \<in> set ins. \<exists>k. i = KeyInput k) \<and>
    distinct (map ki_key_image (key_inputs ins)) \<and> set ki \<inter> ki_key_image ` set (key_inputs ins) = {} \<and>
    list_all (\<lambda>k. ki_output_indexes k \<noteq> [] \<and> 0 \<notin> set (tl (ki_output_indexes k))) (key_inputs ins)"
  using assms
proof (induction ins arbitrary: s ki)
  case Nil
  then show ?case by simp
next
  case (Cons x ins)
  then obtain inp where x: "x = KeyInput inp" by (cases x) auto
  from Cons.prems x have step: "ki_key_image inp \<notin> set ki" "ki_output_indexes inp \<noteq> []"
    "0 \<notin> set (tl (ki_output_indexes inp))" "\<not> - 1 - ki_amount inp < s"
    "validate_inputs False ins (ki_key_image inp # ki) (s + ki_amount inp) = Inr t"
    by (auto split: if_splits)
  from step(4) have "unat (s + ki_amount inp) = unat s + unat (ki_amount inp)"
    by (simp add: no_overflow unat_word_ariths)
  with Cons.IH [OF step(5)] step x show ?case by auto
qed

lemma fold_sum_word: "fold (\<lambda>x s. s + f x) xs (s :: u64) = s + word_of_nat (\<Sum>x\<leftarrow>xs. unat (f x))"
  by (induction xs arbitrary: s) (simp_all add: add.assoc)

lemma validate_semantic_ok:
  assumes "validate_semantic env False tx ck = Inr fee"
  shows "(\<Sum>k\<leftarrow>key_inputs (tx_inputs tx). unat (ki_amount k)) =
      (\<Sum>out\<leftarrow>tx_outputs tx. unat (to_amount out)) + unat fee \<and>
    (\<Sum>k\<leftarrow>key_inputs (tx_inputs tx). unat (ki_amount k)) < 2 ^ 64 \<and>
    list_all (\<lambda>out. to_amount out \<noteq> 0) (tx_outputs tx) \<and>
    distinct (map ki_key_image (key_inputs (tx_inputs tx))) \<and>
    list_all (\<lambda>k. ki_output_indexes k \<noteq> [] \<and> 0 \<notin> set (tl (ki_output_indexes k))) (key_inputs (tx_inputs tx)) \<and>
    length (tx_signatures tx) = length (tx_inputs tx) \<and> get_tx_fee tx = fee"
proof -
  from assms obtain so si where
    o: "validate_outputs env ck (tx_outputs tx) 0 = Inr so" and
    i: "validate_inputs False (tx_inputs tx) [] 0 = Inr si" and
    le: "so \<le> si" and fee: "fee = si - so" and len: "length (tx_signatures tx) = length (tx_inputs tx)"
    by (auto simp: validate_semantic_def not_less split: if_splits sum.splits)
  let ?O = "\<Sum>out\<leftarrow>tx_outputs tx. unat (to_amount out)"
  let ?I = "\<Sum>k\<leftarrow>key_inputs (tx_inputs tx). unat (ki_amount k)"
  note O = validate_outputs_ok [OF o] and I = validate_inputs_ok [OF i]
  have s: "unat so = ?O" "unat si = ?I" using O I by simp_all
  then have w: "word_of_nat ?O = so" "word_of_nat ?I = si" by (simp_all flip: s)
  have "unat fee = unat si - unat so" using le by (simp add: fee unat_sub word_le_nat_alt)
  then have "?I = ?O + unat fee" using le s by (simp add: word_le_nat_alt)
  moreover have "?I < 2 ^ 64" using u64_less [of si] s by simp
  moreover have "get_tx_fee tx = fee"
    using le by (auto simp: get_tx_fee_def get_tx_fee_opt_def fold_sum_word w fee)
  ultimately show ?thesis using O I len by simp
qed

text \<open>
  C12: a transaction that passes the semantic checks creates no money: its inputs are exactly
  its outputs plus its fee, as numbers and not only modulo \<open>2 ^ 64\<close>; its outputs are not
  zero, its key images differ, no ring names an output twice in a row, there is a signature
  group per input, and the fee is the one the pool computes.
\<close>

theorem validate_semantic_no_inflation:
  assumes "validate_semantic env False tx check_output_key = Inr fee"
  shows "(\<Sum>k\<leftarrow>key_inputs (tx_inputs tx). unat (ki_amount k)) =
      (\<Sum>out\<leftarrow>tx_outputs tx. unat (to_amount out)) + unat fee \<and>
    list_all (\<lambda>out. to_amount out \<noteq> 0) (tx_outputs tx) \<and>
    distinct (map ki_key_image (key_inputs (tx_inputs tx))) \<and>
    list_all (\<lambda>k. ki_output_indexes k \<noteq> [] \<and> 0 \<notin> set (tl (ki_output_indexes k))) (key_inputs (tx_inputs tx)) \<and>
    length (tx_signatures tx) = length (tx_inputs tx) \<and> get_tx_fee tx = fee"
  using validate_semantic_ok [OF assms] by blast

definition sample_tx :: transaction where
  "sample_tx = \<lparr>tx_version = 1, tx_unlock_time = 0,
     tx_inputs = [KeyInput \<lparr>ki_amount = 9, ki_output_indexes = [3, 2], ki_key_image = null_hash\<rparr>],
     tx_outputs = [\<lparr>to_amount = 4, to_target = KeyOutput null_hash\<rparr>, \<lparr>to_amount = 3, to_target = KeyOutput null_hash\<rparr>],
     tx_extra = [], tx_signatures = [[]]\<rparr>"

theorem validate_semantic_no_inflation_witness:
  "validate_semantic sample_env False sample_tx True = Inr 2 \<and> get_tx_fee sample_tx = 2"
proof -
  have "validate_semantic sample_env False sample_tx True = Inr 2" by code_simp
  with validate_semantic_no_inflation [OF this] show ?thesis by blast
qed

section \<open>Splitting an amount\<close>

definition dust_parts :: "amount \<Rightarrow> amount list" where
  "dust_parts dust =
     (let du0 = dust mod 1000; du1 = dust - du0
      in (if du0 \<noteq> 0 then [du0] else []) @ (if du1 \<noteq> 0 then [du1] else []))"

lemma div_10_less: "am \<noteq> 0 \<Longrightarrow> unat (am div 10 :: u64) < unat am"
  by (simp add: unat_div_distrib unat_gt_0)

text \<open>The loop of \<open>decompose_amount_into_digits\<close>, and what the handlers push.\<close>

function decompose_digits :: "amount \<Rightarrow> amount \<Rightarrow> u64 \<Rightarrow> u64 \<Rightarrow> bool \<Rightarrow> amount list" where
  "decompose_digits dust_threshold am dust order is_dust_handled =
     (if am = 0 then (if \<not> is_dust_handled \<and> dust \<noteq> 0 then dust_parts dust else [])
      else
        let chunk = (am mod 10) * order
        in if dust + chunk \<le> dust_threshold
           then decompose_digits dust_threshold (am div 10) (dust + chunk) (order * 10) is_dust_handled
           else (if \<not> is_dust_handled \<and> dust \<noteq> 0 then dust_parts dust else []) @
             (if chunk \<noteq> 0 then [chunk] else []) @
             decompose_digits dust_threshold (am div 10) dust (order * 10) (is_dust_handled \<or> dust \<noteq> 0))"
  by pat_completeness auto

termination
  by (relation "measure (\<lambda>(_, am, _, _, _). unat am)") (simp_all add: div_10_less)

declare decompose_digits.simps [simp del]

definition decompose_amount :: "amount \<Rightarrow> amount \<Rightarrow> amount list" where
  "decompose_amount am dust_threshold = (if am = 0 then [] else decompose_digits dust_threshold am 0 1 False)"

lemma dust_parts_sum: "(\<Sum>x\<leftarrow>dust_parts d. unat x) = unat d"
proof -
  have "unat (d mod 1000) \<le> unat d" by (simp add: unat_mod_distrib)
  then have "unat (d - d mod 1000) = unat d - unat (d mod 1000)" by (simp add: unat_sub word_le_nat_alt)
  with \<open>unat (d mod 1000) \<le> unat d\<close> show ?thesis by (auto simp: dust_parts_def Let_def)
qed

lemma decompose_digits_sum:
  assumes "am \<noteq> 0 \<Longrightarrow> 0 < unat order \<and> unat am * unat order + unat dust < 2 ^ 64 \<and>
      (handled \<longrightarrow> unat th < unat dust + unat order)"
  shows "(\<Sum>x\<leftarrow>decompose_digits th am dust order handled. unat x) =
    unat am * unat order + (if handled then 0 else unat dust)"
  using assms
proof (induction th am dust order handled rule: decompose_digits.induct)
  case (1 th am dust order handled)
  show ?case
  proof (cases "am = 0")
    case True
    then show ?thesis by (simp add: decompose_digits.simps [of th 0] dust_parts_sum)
  next
    case False
    define d q where "d = unat (am mod 10)" and "q = unat (am div 10)"
    have am: "unat am = q * 10 + d" "d < 10" by (simp_all add: d_def q_def unat_div_distrib unat_mod_distrib)
    from "1.prems" [OF False] have o: "0 < unat order" "(q * 10 + d) * unat order + unat dust < 2 ^ 64"
      and h: "handled \<Longrightarrow> unat th < unat dust + unat order" by (simp_all add: am)
    have split: "(q * 10 + d) * unat order = q * (10 * unat order) + d * unat order" by (simp add: algebra_simps)
    define chunk where "chunk = (am mod 10) * order"
    have chunk: "unat chunk = d * unat order"
      using o(2) am(2) by (simp add: chunk_def unat_word_ariths am(1) split)
    have zero: "chunk = 0 \<longleftrightarrow> d = 0" using o(1) by (simp add: unat_eq_0 [symmetric] chunk)
    have sum: "unat (dust + chunk) = unat dust + unat chunk"
      using o(2) by (simp add: unat_word_ariths chunk split)
    have order': "unat (order * 10) = 10 * unat order" if "am div 10 \<noteq> 0"
    proof -
      have "0 < q" using that by (simp add: q_def unat_gt_0)
      then have "10 * unat order \<le> q * (10 * unat order)" by simp
      with o(2) have "10 * unat order < 2 ^ 64" unfolding split by linarith
      then show ?thesis by (simp add: unat_word_ariths)
    qed
    have q: "q * unat (order * 10) = q * (10 * unat order)"
      using order' by (cases "am div 10 = 0") (simp_all add: q_def)
    show ?thesis
    proof (cases "dust + chunk \<le> th")
      case True
      then have le: "unat dust + unat chunk \<le> unat th" by (simp add: word_le_nat_alt sum)
      have "handled \<Longrightarrow> d = 0"
      proof (rule ccontr)
        assume "handled" "d \<noteq> 0"
        then have "unat order \<le> unat chunk" by (simp add: chunk)
        with h [OF \<open>handled\<close>] le show False by simp
      qed
      moreover have "(\<Sum>x\<leftarrow>decompose_digits th (am div 10) (dust + chunk) (order * 10) handled. unat x) =
          unat (am div 10) * unat (order * 10) + (if handled then 0 else unat (dust + chunk))"
        using True False
      proof (intro "1.IH"(1) [OF False chunk_def])
        assume "am div 10 \<noteq> 0"
        with o h show "0 < unat (order * 10) \<and> unat (am div 10) * unat (order * 10) + unat (dust + chunk) < 2 ^ 64 \<and>
            (handled \<longrightarrow> unat th < unat (dust + chunk) + unat (order * 10))"
          by (auto simp: order' sum chunk split q_def [symmetric])
      qed
      ultimately show ?thesis
        using True False unfolding decompose_digits.simps [of th am]
        by (auto simp: chunk_def [symmetric] Let_def am q_def [symmetric] q sum chunk split)
    next
      case gt: False
      then have gt': "unat th < unat dust + unat chunk" by (simp add: word_le_nat_alt sum)
      have "(\<Sum>x\<leftarrow>decompose_digits th (am div 10) dust (order * 10) (handled \<or> dust \<noteq> 0). unat x) =
          unat (am div 10) * unat (order * 10) + (if handled \<or> dust \<noteq> 0 then 0 else unat dust)"
      proof (intro "1.IH"(2) [OF False chunk_def gt])
        assume nz: "am div 10 \<noteq> 0"
        have "unat chunk \<le> 10 * unat order" using am(2) by (simp add: chunk)
        with o gt' show "0 < unat (order * 10) \<and> unat (am div 10) * unat (order * 10) + unat dust < 2 ^ 64 \<and>
            (handled \<or> dust \<noteq> 0 \<longrightarrow> unat th < unat dust + unat (order * 10))"
          by (auto simp: order' [OF nz] split q_def [symmetric])
      qed
      then show ?thesis
        using gt False unfolding decompose_digits.simps [of th am]
        by (auto simp: chunk_def [symmetric] Let_def am q_def [symmetric] q chunk zero split dust_parts_sum)
    qed
  qed
qed

text \<open>
  The outputs an amount is split into add up to the amount, for every dust threshold, and
  none of them is zero.
\<close>

lemma decompose_amount_sum:
  "(\<Sum>x\<leftarrow>decompose_amount am dust_threshold. unat x) = unat am \<and> 0 \<notin> set (decompose_amount am dust_threshold)"
proof
  show "(\<Sum>x\<leftarrow>decompose_amount am dust_threshold. unat x) = unat am"
    using decompose_digits_sum [of am 1 0 False dust_threshold] u64_less [of am] by (simp add: decompose_amount_def)
  have "0 \<notin> set (decompose_digits th a d or handled)" for th a d or handled
    by (induction th a d or handled rule: decompose_digits.induct)
      (subst decompose_digits.simps, auto simp: Let_def dust_parts_def)
  then show "0 \<notin> set (decompose_amount am dust_threshold)" by (simp add: decompose_amount_def)
qed

text \<open>\<open>get_maximum_tx_size\<close>.\<close>

definition get_maximum_tx_size :: "u64 \<Rightarrow> u64 \<Rightarrow> u64 \<Rightarrow> u64" where
  "get_maximum_tx_size input_count output_count mixin_count =
     (let amount_size = 8 + 2;
          outputs_size = output_count * (1 + 32 + amount_size);
          header_size = 1 + 8 + 1 + 32;
          input_size = 1 + amount_size + 32 + 64 + 1 + 4 + mixin_count * (4 + 64)
      in header_size + outputs_size + input_size * input_count)"

end
