(* ===== verification/Tree_Hash.thy ===== *)
theory Tree_Hash
  imports Chain_Base
begin

text \<open>
  The Merkle tree over transaction hashes (\<open>crypto/tree-hash.c\<close>): its root, the depth of
  the leftmost leaf, the branch of that leaf, and the root computed from a branch.  The trees
  are those of CryptoNote: the leaves that do not fit a full level are paired first.
\<close>

section \<open>Definitions\<close>

text \<open>Consecutive pairs hashed together; the loops of the code over \<open>i += 2, ++j\<close>.\<close>

fun hash_pairs :: "crypto_env \<Rightarrow> hash list \<Rightarrow> hash list" where
  "hash_pairs env (a # b # hs) = cn_fast_hash env (a @ b) # hash_pairs env hs"
| "hash_pairs env hs = []"

text \<open>\<open>cnt |= cnt >> i\<close> for \<open>i = 1, 2, 4, \<dots>, 32\<close>, then \<open>cnt &= ~(cnt >> 1)\<close>: the highest bit.\<close>

definition smear :: "u64 \<Rightarrow> u64" where
  "smear c = fold (\<lambda>i c. c OR drop_bit i c) [1, 2, 4, 8, 16, 32] c"

definition highest_bit :: "u64 \<Rightarrow> u64" where
  "highest_bit c = (let s = smear c in s AND NOT (drop_bit 1 s))"

text \<open>The loop \<open>while (cnt > 2)\<close> and the hash after it.\<close>

fun tree_levels :: "crypto_env \<Rightarrow> nat \<Rightarrow> hash list \<Rightarrow> hash" where
  "tree_levels env cnt ints =
     (if cnt > 2 then tree_levels env (cnt div 2) (hash_pairs env (take cnt ints))
      else cn_fast_hash env (ints ! 0 @ ints ! 1))"

declare tree_levels.simps [simp del]

definition tree_hash :: "crypto_env \<Rightarrow> hash list \<Rightarrow> hash" where
  "tree_hash env hashes =
     (let count = length hashes in
      if count = 1 then hashes ! 0
      else if count = 2 then cn_fast_hash env (hashes ! 0 @ hashes ! 1)
      else
        let cnt = unat (highest_bit (word_of_nat count - 1));
            ints = take (2 * cnt - count) hashes @ hash_pairs env (drop (2 * cnt - count) hashes)
        in tree_levels env cnt ints)"

text \<open>\<open>tree_depth\<close>: the loop over \<open>i = 32, 16, \<dots>, 1\<close>.\<close>

definition tree_depth :: "u64 \<Rightarrow> nat" where
  "tree_depth count = snd (fold (\<lambda>i (count, depth).
     if drop_bit i count > 0 then (drop_bit i count, depth + i) else (count, depth)) [32, 16, 8, 4, 2, 1] (count, 0))"

text \<open>\<open>tree_branch\<close>: \<open>cnt\<close> and \<open>depth\<close>, then the branch from its end, \<open>branch[depth - 1]\<close> first.\<close>

definition branch_size :: "u64 \<Rightarrow> u64 \<times> nat" where
  "branch_size count = fold (\<lambda>i (cnt, depth).
     if push_bit i cnt \<le> count then (push_bit i cnt, depth + i) else (cnt, depth)) [32, 16, 8, 4, 2, 1] (1, 0)"

fun branch_levels :: "crypto_env \<Rightarrow> nat \<Rightarrow> hash list \<Rightarrow> hash list" where
  "branch_levels env 0 ints = []"
| "branch_levels env (Suc depth) ints = branch_levels env depth (hash_pairs env (tl ints)) @ [hd ints]"

definition tree_branch :: "crypto_env \<Rightarrow> hash list \<Rightarrow> hash list" where
  "tree_branch env hashes =
     (let count = length hashes;
          (cntw, depth) = branch_size (word_of_nat count);
          cnt = unat cntw;
          ints = take (2 * cnt - count - 1) (tl hashes) @ hash_pairs env (drop (2 * cnt - count) hashes)
      in branch_levels env depth ints)"

text \<open>\<open>tree_hash_from_branch\<close>, with the path of the leaf (none: always left).\<close>

definition path_bit :: "bytes option \<Rightarrow> nat \<Rightarrow> bool" where
  "path_bit path depth = (case path of None \<Rightarrow> False | Some p \<Rightarrow> bit (p ! (depth div 8)) (depth mod 8))"

fun from_branch :: "crypto_env \<Rightarrow> hash list \<Rightarrow> bytes option \<Rightarrow> nat \<Rightarrow> hash \<Rightarrow> hash" where
  "from_branch env branch path 0 leaf = leaf"
| "from_branch env branch path (Suc depth) leaf = from_branch env branch path depth
     (cn_fast_hash env (if path_bit path depth then branch ! depth @ leaf else leaf @ branch ! depth))"

definition tree_hash_from_branch :: "crypto_env \<Rightarrow> hash list \<Rightarrow> hash \<Rightarrow> bytes option \<Rightarrow> hash" where
  "tree_hash_from_branch env branch leaf path = from_branch env branch path (length branch) leaf"

section \<open>Powers of two\<close>

lemma bit_smear_step:
  assumes "\<And>k. bit c' k \<longleftrightarrow> (\<exists>j < n. bit (c :: u64) (k + j))"
  shows "bit (c' OR drop_bit n c') k \<longleftrightarrow> (\<exists>j < 2 * n. bit c (k + j))"
proof -
  have "(\<exists>j < 2 * n. bit c (k + j)) \<longleftrightarrow> (\<exists>j < n. bit c (k + j)) \<or> (\<exists>j < n. bit c (n + k + j))"
  proof
    assume "\<exists>j < 2 * n. bit c (k + j)"
    then obtain j where j: "j < 2 * n" "bit c (k + j)" by blast
    show "(\<exists>j < n. bit c (k + j)) \<or> (\<exists>j < n. bit c (n + k + j))"
    proof (cases "j < n")
      case False
      then have "j - n < n" "n + k + (j - n) = k + j" using j by simp_all
      with j(2) show ?thesis by metis
    qed (use j in blast)
  next
    assume "(\<exists>j < n. bit c (k + j)) \<or> (\<exists>j < n. bit c (n + k + j))"
    then show "\<exists>j < 2 * n. bit c (k + j)"
    proof
      assume "\<exists>j < n. bit c (n + k + j)"
      then obtain j where "j < n" "bit c (k + (n + j))" by (auto simp: ac_simps)
      then show ?thesis by (intro exI [of _ "n + j"]) simp
    qed (metis less_add_same_cancel1 less_trans mult_2 not_gr_zero not_less_zero add.right_neutral trans_less_add1)
  qed
  then show ?thesis by (simp add: bit_simps assms)
qed

lemma bit_smear: "bit (smear c) k \<longleftrightarrow> (\<exists>j < 64. bit c (k + j))"
proof -
  define s0 where "s0 = c"
  define s1 where "s1 = s0 OR drop_bit 1 s0"
  define s2 where "s2 = s1 OR drop_bit 2 s1"
  define s4 where "s4 = s2 OR drop_bit 4 s2"
  define s8 where "s8 = s4 OR drop_bit 8 s4"
  define s16 where "s16 = s8 OR drop_bit 16 s8"
  define s32 where "s32 = s16 OR drop_bit 32 s16"
  have "bit s0 k \<longleftrightarrow> (\<exists>j < 1. bit c (k + j))" for k by (simp add: s0_def)
  then have "bit s1 k \<longleftrightarrow> (\<exists>j < 2. bit c (k + j))" for k using bit_smear_step [of s0 1 c k] by (simp add: s1_def)
  then have "bit s2 k \<longleftrightarrow> (\<exists>j < 4. bit c (k + j))" for k using bit_smear_step [of s1 2 c k] by (simp add: s2_def)
  then have "bit s4 k \<longleftrightarrow> (\<exists>j < 8. bit c (k + j))" for k using bit_smear_step [of s2 4 c k] by (simp add: s4_def)
  then have "bit s8 k \<longleftrightarrow> (\<exists>j < 16. bit c (k + j))" for k using bit_smear_step [of s4 8 c k] by (simp add: s8_def)
  then have "bit s16 k \<longleftrightarrow> (\<exists>j < 32. bit c (k + j))" for k using bit_smear_step [of s8 16 c k] by (simp add: s16_def)
  then have "bit s32 k \<longleftrightarrow> (\<exists>j < 64. bit c (k + j))" using bit_smear_step [of s16 32 c k] by (simp add: s32_def)
  moreover have "smear c = s32"
    by (simp add: smear_def s0_def s1_def s2_def s4_def s8_def s16_def s32_def)
  ultimately show ?thesis by simp
qed

lemma highest_bit_eq:
  assumes "2 ^ d \<le> unat c" "unat c < 2 ^ Suc d"
  shows "highest_bit c = 2 ^ d \<and> d < 64"
proof -
  have d64: "d < 64"
  proof (rule ccontr)
    assume "\<not> d < 64"
    then have "(2 :: nat) ^ 64 \<le> 2 ^ d" by (intro power_increasing) simp_all
    with assms u64_less [of c] show False by simp
  qed
  have nat: "bit c k \<longleftrightarrow> bit (unat c) k" for k by (simp add: bit_unsigned_iff)
  have low: "bit c d"
  proof -
    have "unat c div 2 ^ d = 1" using assms by (simp add: div_nat_eqI)
    then have "bit (unat c) d" unfolding bit_iff_odd by simp
    then show ?thesis by (simp only: nat)
  qed
  have high: "k \<le> d" if "bit c k" for k
    using nat_bit_bound [OF assms(2)] that by (simp add: nat less_Suc_eq_le)
  have smear: "bit (smear c) k \<longleftrightarrow> k \<le> d" for k
  proof
    show "bit (smear c) k \<Longrightarrow> k \<le> d" using high by (auto simp: bit_smear intro: add_leD1)
    assume "k \<le> d"
    then have "d - k < 64" "bit c (k + (d - k))" using d64 low by simp_all
    then show "bit (smear c) k" unfolding bit_smear by blast
  qed
  have "highest_bit c = push_bit d 1"
    by (rule bit_eqI) (auto simp: highest_bit_def Let_def bit_simps smear)
  with d64 show ?thesis by (simp add: push_bit_eq_mult)
qed

text \<open>Every count has a depth.\<close>

lemma depth_exists:
  assumes "0 < (n :: nat)"
  shows "\<exists>d. 2 ^ d \<le> n \<and> n < 2 ^ Suc d"
  using ex_power_ivl1 [of 2 n] assms by auto

lemma depth_unique: "2 ^ d \<le> (n :: nat) \<Longrightarrow> n < 2 ^ Suc d \<Longrightarrow> 2 ^ e \<le> n \<Longrightarrow> n < 2 ^ Suc e \<Longrightarrow> d = e"
proof (rule antisym)
  have key: "d \<le> e" if "2 ^ d \<le> n" "n < 2 ^ Suc e" for d e :: nat
  proof -
    have "(2 :: nat) ^ d < 2 ^ Suc e" using that by (rule le_less_trans)
    then show ?thesis using power_less_imp_less_exp [of "2 :: nat" d "Suc e"] by simp
  qed
  show "2 ^ d \<le> n \<Longrightarrow> n < 2 ^ Suc d \<Longrightarrow> 2 ^ e \<le> n \<Longrightarrow> n < 2 ^ Suc e \<Longrightarrow> d \<le> e" by (rule key)
  show "2 ^ d \<le> n \<Longrightarrow> n < 2 ^ Suc d \<Longrightarrow> 2 ^ e \<le> n \<Longrightarrow> n < 2 ^ Suc e \<Longrightarrow> e \<le> d" by (rule key)
qed

text \<open>
  The binary searches of \<open>tree_depth\<close> and of the branch: \<open>at_depth d n\<close> says that a level of
  \<open>2 ^ d\<close> nodes is the last full one over \<open>n\<close> leaves.
\<close>

definition at_depth :: "nat \<Rightarrow> nat \<Rightarrow> bool" where
  "at_depth d n \<longleftrightarrow> 2 ^ d \<le> n \<and> n < 2 ^ Suc d"

definition depth_step :: "nat \<Rightarrow> u64 \<times> nat \<Rightarrow> u64 \<times> nat" where
  "depth_step i = (\<lambda>(count, depth). if drop_bit i count > 0 then (drop_bit i count, depth + i) else (count, depth))"

definition depth_inv :: "nat \<Rightarrow> nat \<Rightarrow> u64 \<times> nat \<Rightarrow> bool" where
  "depth_inv n b x \<longleftrightarrow> 0 < unat (fst x) \<and> unat (fst x) < 2 ^ b \<and> (\<forall>d. at_depth d (unat (fst x)) \<longrightarrow> at_depth (d + snd x) n)"

lemma depth_step_inv:
  assumes "depth_inv n (2 * i) x"
  shows "depth_inv n i (depth_step i x)"
proof -
  obtain c e where x: "x = (c, e)" by fastforce
  show ?thesis
  proof (cases "drop_bit i c > 0")
    case True
    define q where "q = unat c div 2 ^ i"
    have q: "unat (drop_bit i c) = q" by (simp add: unat_drop_bit q_def)
    have pos: "0 < q" using True by (simp add: word_gt_0 unat_gt_0 flip: q)
    have lt: "q < 2 ^ i"
      using assms by (simp add: q_def x depth_inv_def less_mult_imp_div_less power_add mult_2)
    have "at_depth (d + i) (unat c)" if "at_depth d q" for d
    proof -
      have c: "unat c = q * 2 ^ i + unat c mod 2 ^ i" by (simp only: q_def div_mult_mod_eq)
      have "2 ^ d * 2 ^ i \<le> q * (2 :: nat) ^ i" using that by (simp add: at_depth_def)
      then have "2 ^ d * 2 ^ i \<le> unat c" using c by linarith
      moreover have "Suc q * 2 ^ i \<le> 2 ^ Suc d * (2 :: nat) ^ i"
        using that by (intro mult_le_mono1) (simp add: at_depth_def)
      moreover have "unat c < Suc q * 2 ^ i"
        using c mod_less_divisor [of "2 ^ i" "unat c"] by (simp add: add.commute del: mod_less_divisor)
      ultimately show ?thesis using c by (simp add: at_depth_def power_add)
    qed
    with assms True pos lt show ?thesis
      by (auto simp: depth_step_def depth_inv_def x q) (metis add.assoc add.commute)
  next
    case False
    then have "unat c div 2 ^ i = 0" by (metis unat_0 unat_drop_bit word_neq_0_conv)
    then have "unat c < 2 ^ i" by (simp add: div_eq_0_iff)
    with False assms show ?thesis by (simp add: depth_step_def depth_inv_def x)
  qed
qed

lemma depth_inv_1: "depth_inv n 1 x \<Longrightarrow> at_depth (snd x) n"
proof -
  assume inv: "depth_inv n 1 x"
  then have "unat (fst x) = 1" by (simp add: depth_inv_def)
  then have "at_depth 0 (unat (fst x))" by (simp add: at_depth_def)
  with inv have "at_depth (0 + snd x) n" unfolding depth_inv_def by blast
  then show ?thesis by simp
qed

lemma tree_depth_correct:
  assumes "0 < unat c"
  shows "at_depth (tree_depth c) (unat c)"
proof -
  have "depth_inv (unat c) (2 * 32) (c, 0)" using assms u64_less [of c] by (simp add: depth_inv_def)
  then have "depth_inv (unat c) (2 * 16) (depth_step 32 (c, 0))" using depth_step_inv by fastforce
  then have "depth_inv (unat c) (2 * 8) (depth_step 16 (depth_step 32 (c, 0)))" using depth_step_inv by fastforce
  then have "depth_inv (unat c) (2 * 4) (depth_step 8 (depth_step 16 (depth_step 32 (c, 0))))"
    using depth_step_inv by fastforce
  then have "depth_inv (unat c) (2 * 2) (depth_step 4 (depth_step 8 (depth_step 16 (depth_step 32 (c, 0)))))"
    using depth_step_inv by fastforce
  then have "depth_inv (unat c) (2 * 1) (depth_step 2 (depth_step 4 (depth_step 8 (depth_step 16 (depth_step 32 (c, 0))))))"
    using depth_step_inv by fastforce
  then have "depth_inv (unat c) 1 (fold depth_step [32, 16, 8, 4, 2, 1] (c, 0))"
    using depth_step_inv by fastforce
  then have "at_depth (snd (fold depth_step [32, 16, 8, 4, 2, 1] (c, 0))) (unat c)" by (rule depth_inv_1)
  then show ?thesis by (simp add: tree_depth_def depth_step_def)
qed

text \<open>The other search finds the same depth, from above.\<close>

definition size_step :: "u64 \<Rightarrow> nat \<Rightarrow> u64 \<times> nat \<Rightarrow> u64 \<times> nat" where
  "size_step count i = (\<lambda>(cnt, depth). if push_bit i cnt \<le> count then (push_bit i cnt, depth + i) else (cnt, depth))"

lemma size_step_inv:
  assumes "x = (2 ^ e, e)" "2 ^ e \<le> unat c" "unat c < 2 ^ (e + 2 * i)" "e + i < 64"
  shows "\<exists>e'. size_step c i x = (2 ^ e', e') \<and> 2 ^ e' \<le> unat c \<and> unat c < 2 ^ (e' + i) \<and> e' \<le> e + i"
proof -
  have p: "push_bit i (2 ^ e :: u64) = 2 ^ (e + i)" by (simp add: push_bit_eq_mult power_add mult.commute)
  have u: "unat (2 ^ (e + i) :: u64) = 2 ^ (e + i)"
    using assms(4) power_strict_increasing [of "e + i" 64 "2 :: nat"] unat_push_bit [of "e + i" "1 :: u64"]
    by (simp add: push_bit_eq_mult)
  show ?thesis
  proof (cases "push_bit i (2 ^ e) \<le> c")
    case True
    then have "2 ^ (e + i) \<le> unat c" by (simp only: p word_le_nat_alt u)
    moreover have "unat c < 2 ^ (e + i + i)" using assms(3) by (simp only: mult_2 add.assoc)
    ultimately show ?thesis using True assms(1) by (intro exI [of _ "e + i"]) (simp add: size_step_def p)
  next
    case False
    then have "unat c < 2 ^ (e + i)" by (simp only: p word_le_nat_alt u not_le)
    with False assms show ?thesis by (intro exI [of _ e]) (simp add: size_step_def)
  qed
qed

lemma branch_size_correct:
  assumes "0 < unat c"
  shows "\<exists>d. branch_size c = (2 ^ d, d) \<and> at_depth d (unat c) \<and> d < 64"
proof -
  have "(1, 0) = (2 ^ 0 :: u64, 0 :: nat)" "2 ^ 0 \<le> unat c" "unat c < 2 ^ (0 + 2 * 32)"
    using assms u64_less [of c] by simp_all
  from size_step_inv [OF this] obtain e1 where
    e1: "size_step c 32 (1, 0) = (2 ^ e1, e1)" "2 ^ e1 \<le> unat c" "unat c < 2 ^ (e1 + 2 * 16)" "e1 \<le> 32" by auto
  from size_step_inv [OF e1(1-3)] e1(4) obtain e2 where
    e2: "size_step c 16 (size_step c 32 (1, 0)) = (2 ^ e2, e2)" "2 ^ e2 \<le> unat c" "unat c < 2 ^ (e2 + 2 * 8)" "e2 \<le> 48"
    by auto
  from size_step_inv [OF e2(1-3)] e2(4) obtain e3 where
    e3: "size_step c 8 (size_step c 16 (size_step c 32 (1, 0))) = (2 ^ e3, e3)" "2 ^ e3 \<le> unat c"
      "unat c < 2 ^ (e3 + 2 * 4)" "e3 \<le> 56" by auto
  from size_step_inv [OF e3(1-3)] e3(4) obtain e4 where
    e4: "size_step c 4 (size_step c 8 (size_step c 16 (size_step c 32 (1, 0)))) = (2 ^ e4, e4)" "2 ^ e4 \<le> unat c"
      "unat c < 2 ^ (e4 + 2 * 2)" "e4 \<le> 60" by auto
  from size_step_inv [OF e4(1-3)] e4(4) obtain e5 where
    e5: "size_step c 2 (size_step c 4 (size_step c 8 (size_step c 16 (size_step c 32 (1, 0))))) = (2 ^ e5, e5)"
      "2 ^ e5 \<le> unat c" "unat c < 2 ^ (e5 + 2 * 1)" "e5 \<le> 62" by auto
  from size_step_inv [OF e5(1-3)] e5(4) obtain e6 where
    "size_step c 1 (size_step c 2 (size_step c 4 (size_step c 8 (size_step c 16 (size_step c 32 (1, 0)))))) = (2 ^ e6, e6)"
      "2 ^ e6 \<le> unat c" "unat c < 2 ^ (e6 + 1)" "e6 \<le> 63" by auto
  then show ?thesis
    by (intro exI [of _ e6]) (simp add: branch_size_def size_step_def at_depth_def)
qed

section \<open>The tree\<close>

text \<open>The root over a full level of \<open>2 ^ d\<close> nodes, and the last full level over any number of leaves.\<close>

fun root :: "crypto_env \<Rightarrow> nat \<Rightarrow> hash list \<Rightarrow> hash" where
  "root env 0 l = hd l"
| "root env (Suc d) l = root env d (hash_pairs env l)"

definition full_level :: "crypto_env \<Rightarrow> nat \<Rightarrow> hash list \<Rightarrow> hash list" where
  "full_level env d hs = take (2 * 2 ^ d - length hs) hs @ hash_pairs env (drop (2 * 2 ^ d - length hs) hs)"

lemma length_hash_pairs [simp]: "length (hash_pairs env hs) = length hs div 2"
  by (induction env hs rule: hash_pairs.induct) simp_all

lemma length_full_level: "at_depth d (length hs) \<Longrightarrow> length (full_level env d hs) = 2 ^ d"
  by (auto simp: at_depth_def full_level_def min_def)

lemma tree_levels_root: "length ints = 2 ^ Suc d \<Longrightarrow> tree_levels env (2 ^ Suc d) ints = root env (Suc d) ints"
proof (induction d arbitrary: ints)
  case 0
  then obtain a b where "ints = [a, b]" by (auto simp: numeral_2_eq_2 length_Suc_conv)
  then show ?case by (simp add: tree_levels.simps [of env 2])
next
  case (Suc d)
  have "tree_levels env (2 ^ Suc (Suc d)) ints = tree_levels env (2 ^ Suc d) (hash_pairs env ints)"
  proof -
    have "2 ^ Suc (Suc d) > (2 :: nat)" using power_strict_increasing [of 1 "Suc (Suc d)" "2 :: nat"] by simp
    then show ?thesis using Suc.prems by (subst tree_levels.simps) simp
  qed
  with Suc.IH [of "hash_pairs env ints"] Suc.prems show ?case by simp
qed

lemma tree_hash_root:
  assumes D: "at_depth D (length hs)" and len: "length hs < 2 ^ 64"
  shows "tree_hash env hs = root env D (full_level env D hs)"
proof -
  let ?n = "length hs"
  have pos: "0 < ?n" using D by (auto simp: at_depth_def)
  have uniq: "D = e" if "at_depth e ?n" for e using D that depth_unique by (auto simp: at_depth_def)
  consider "?n = 1" | "?n = 2" | "2 < ?n" using pos by linarith
  then show ?thesis
  proof cases
    case 1
    then obtain a where "hs = [a]" by (auto simp: length_Suc_conv)
    moreover have "D = 0" by (rule uniq) (simp add: 1 at_depth_def)
    ultimately show ?thesis by (simp add: tree_hash_def full_level_def)
  next
    case 2
    then obtain a b where "hs = [a, b]" by (auto simp: numeral_2_eq_2 length_Suc_conv)
    moreover have "D = 1" by (rule uniq) (simp add: 2 at_depth_def)
    ultimately show ?thesis by (simp add: tree_hash_def full_level_def)
  next
    case 3
    then obtain d where d: "2 ^ d \<le> ?n - 1" "?n - 1 < 2 ^ Suc d" using depth_exists [of "?n - 1"] by auto
    have c: "unat (word_of_nat ?n - 1 :: u64) = ?n - 1"
    proof -
      have "word_of_nat ?n - 1 = (word_of_nat (?n - 1) :: u64)" using pos by (cases ?n) simp_all
      then show ?thesis using len by (simp add: unat_of_nat)
    qed
    have hb: "highest_bit (word_of_nat ?n - 1) = 2 ^ d" "d < 64"
      using highest_bit_eq [of d "word_of_nat ?n - 1"] d c by simp_all
    have cnt: "unat (highest_bit (word_of_nat ?n - 1)) = 2 ^ d"
      using hb unat_push_bit [of d "1 :: u64"] power_strict_increasing [of d 64 "2 :: nat"] by (simp add: push_bit_eq_mult)
    have "d \<noteq> 0" using d 3 by (cases d) auto
    then obtain d' where d': "d = Suc d'" by (cases d) auto
    let ?ints = "take (2 * 2 ^ d - ?n) hs @ hash_pairs env (drop (2 * 2 ^ d - ?n) hs)"
    have "length ?ints = 2 ^ d" using d 3 by (auto simp: min_def)
    then have th: "tree_hash env hs = root env d ?ints"
      using 3 tree_levels_root [of ?ints d' env] by (simp add: tree_hash_def Let_def cnt d')
    show ?thesis
    proof (cases "?n = 2 ^ Suc d")
      case True
      then have "D = Suc d" by (intro uniq) (simp add: at_depth_def)
      with th True show ?thesis by (simp add: full_level_def)
    next
      case False
      then have "D = d" using d by (intro uniq) (auto simp: at_depth_def)
      with th show ?thesis by (simp add: full_level_def)
    qed
  qed
qed

lemma length_branch_levels [simp]: "length (branch_levels env d ints) = d"
  by (induction d arbitrary: ints) simp_all

lemma from_branch_append: "d \<le> length xs \<Longrightarrow> from_branch env (xs @ ys) path d leaf = from_branch env xs path d leaf"
  by (induction d arbitrary: leaf) (simp_all add: nth_append)

lemma from_branch_levels:
  "length l = 2 ^ d \<Longrightarrow> from_branch env (branch_levels env d (tl l)) None d (hd l) = root env d l"
proof (induction d arbitrary: l)
  case 0
  then show ?case by simp
next
  case (Suc d)
  have "2 \<le> length l" using Suc.prems by simp
  then obtain a b r where l: "l = a # b # r" by (cases l; cases "tl l") auto
  with Suc.prems have "length (hash_pairs env l) = 2 ^ d" by simp
  from Suc.IH [OF this] l show ?case by (simp add: from_branch_append nth_append path_bit_def)
qed

text \<open>
  C13: the branch of the first transaction leads to the root of the whole tree, for every number
  of transactions, and it is as long as \<open>tree_depth\<close> says.
\<close>

theorem tree_branch_root:
  assumes "hashes \<noteq> []" "length hashes < 2 ^ 64"
  shows "tree_hash_from_branch env (tree_branch env hashes) (hd hashes) None = tree_hash env hashes \<and>
    length (tree_branch env hashes) = tree_depth (word_of_nat (length hashes))"
proof -
  let ?n = "length hashes"
  have n: "unat (word_of_nat ?n :: u64) = ?n" "0 < ?n" using assms by (simp_all add: unat_of_nat)
  from branch_size_correct [of "word_of_nat ?n"] n obtain d where
    d: "branch_size (word_of_nat ?n) = (2 ^ d, d)" "at_depth d ?n" "d < 64" by auto
  have cnt: "unat (2 ^ d :: u64) = 2 ^ d"
    using d(3) unat_push_bit [of d "1 :: u64"] power_strict_increasing [of d 64 "2 :: nat"] by (simp add: push_bit_eq_mult)
  obtain a hs where h: "hashes = a # hs" using assms(1) by (cases hashes) auto
  have first: "0 < 2 * 2 ^ d - ?n" using d(2) by (simp add: at_depth_def)
  then obtain m where m: "2 * 2 ^ d - ?n = Suc m" by (metis gr0_conv_Suc)
  have lvl: "full_level env d hashes = a # (take m hs @ hash_pairs env (drop (Suc m) hashes))"
    by (simp add: full_level_def m) (simp add: h)
  have "tree_branch env hashes = branch_levels env d (take m hs @ hash_pairs env (drop (Suc m) hashes))"
  proof -
    have m': "2 * 2 ^ d - ?n - 1 = m" using m by simp
    show ?thesis unfolding tree_branch_def Let_def d(1) prod.case cnt m m' by (simp add: h)
  qed
  then have b: "tree_branch env hashes = branch_levels env d (tl (full_level env d hashes))" by (simp add: lvl)
  have "from_branch env (tree_branch env hashes) None d (hd (full_level env d hashes)) = root env d (full_level env d hashes)"
    unfolding b by (rule from_branch_levels) (rule length_full_level [OF d(2)])
  moreover have "tree_depth (word_of_nat ?n) = d"
    using tree_depth_correct [of "word_of_nat ?n"] n d(2) depth_unique by (auto simp: at_depth_def)
  moreover have "hd (full_level env d hashes) = hd hashes" unfolding lvl by (simp add: h)
  moreover have "length (tree_branch env hashes) = d" by (simp add: b)
  ultimately show ?thesis by (simp add: tree_hash_from_branch_def tree_hash_root [OF d(2) assms(2)])
qed

theorem tree_branch_root_witness:
  "tree_hash_from_branch sample_env (tree_branch sample_env [[1], [2], [3]]) [1] None = tree_hash sample_env [[1], [2], [3]] \<and>
     length (tree_branch sample_env [[1], [2], [3]]) = 1"
proof -
  have "tree_depth 3 = 1" by code_simp
  with tree_branch_root [of "[[1], [2], [3]]" sample_env] show ?thesis by simp
qed

end
