(* ===== verification/Transaction_Extra.thy ===== *)
theory Transaction_Extra
  imports Binary_Seria
begin

text \<open>
  The \<open>extra\<close> field of a transaction (\<open>Core/TransactionExtra.cpp\<close>): tagged fields one
  after the other.  The parser skips bytes that are no tag, and keeps what it has read when it
  fails, which the look-ups by type rely on.
\<close>

section \<open>Fields\<close>

record mm_tag =
  mm_depth :: u64
  mm_merkle_root :: hash

datatype extra_field =
    Extra_Padding nat
  | Extra_Public_Key public_key
  | Extra_Nonce bytes
  | Extra_Merge_Mining_Tag mm_tag

definition TX_EXTRA_PADDING_MAX_COUNT :: nat where
  "TX_EXTRA_PADDING_MAX_COUNT = 255"

definition TX_EXTRA_NONCE_MAX_COUNT :: nat where
  "TX_EXTRA_NONCE_MAX_COUNT = 255"

text \<open>The merge mining tag is a string that holds its depth and root; what follows in the string is ignored.\<close>

definition enc_mm_tag :: "mm_tag \<Rightarrow> bytes" where
  "enc_mm_tag t = enc_bytes (enc_u64 (mm_depth t) @ mm_merkle_root t)"

definition dec_mm_tag :: "bytes \<Rightarrow> (mm_tag \<times> bytes) result" where
  "dec_mm_tag s =
     res_bind (dec_bytes s) (\<lambda>(field, r).
     res_bind (dec_u64 field) (\<lambda>(depth, f1).
     res_bind (dec_binary 32 f1) (\<lambda>(merkle_root, _).
     Inr (\<lparr>mm_depth = depth, mm_merkle_root = merkle_root\<rparr>, r))))"

definition valid_mm_tag :: "mm_tag \<Rightarrow> bool" where
  "valid_mm_tag t \<longleftrightarrow> pod32 (mm_merkle_root t)"

section \<open>Parsing\<close>

text \<open>The loop over the padding: the size and the rest, or a byte that is not zero.\<close>

fun read_padding :: "bytes \<Rightarrow> nat \<Rightarrow> (nat \<times> bytes) option" where
  "read_padding [] sz = Some (sz, [])"
| "read_padding (b # s) sz =
     (if sz > TX_EXTRA_PADDING_MAX_COUNT then Some (sz, b # s)
      else if b \<noteq> 0 then None else read_padding s (sz + 1))"

text \<open>
  One field behind its tag: \<open>None\<close> where the parser gives up, else the field, if the tag is
  one, and the rest.
\<close>

definition parse_field :: "u8 \<Rightarrow> bytes \<Rightarrow> (extra_field option \<times> bytes) option" where
  "parse_field tag s =
     (if tag = 0 then
        (case read_padding s 1 of
           None \<Rightarrow> None
         | Some (sz, r) \<Rightarrow> if sz > TX_EXTRA_PADDING_MAX_COUNT then None else Some (Some (Extra_Padding sz), r))
      else if tag = 1 then
        (case stream_read 32 s of Inl _ \<Rightarrow> None | Inr (key, r) \<Rightarrow> Some (Some (Extra_Public_Key key), r))
      else if tag = 2 then
        (case stream_read 1 s of
           Inl _ \<Rightarrow> None
         | Inr (sz, r) \<Rightarrow>
             (case stream_read (unat (sz ! 0)) r of
                Inl _ \<Rightarrow> None
              | Inr (nonce, r) \<Rightarrow> Some (Some (Extra_Nonce nonce), r)))
      else if tag = 3 then
        (case dec_mm_tag s of Inl _ \<Rightarrow> None | Inr (t, r) \<Rightarrow> Some (Some (Extra_Merge_Mining_Tag t), r))
      else Some (None, s))"

lemma read_padding_rest: "read_padding s sz = Some (n, r) \<Longrightarrow> length r \<le> length s"
  by (induction s sz rule: read_padding.induct) (auto split: if_splits)

lemma stream_read_rest: "stream_read n s = Inr (d, r) \<Longrightarrow> length r \<le> length s"
  by (auto simp: stream_read_Inr)

lemma dec_mm_tag_rest: "dec_mm_tag s = Inr (t, r) \<Longrightarrow> length r \<le> length s"
  by (auto simp: dec_mm_tag_def res_bind_eq_Inr dec_bytes_iff)

lemma parse_field_rest: "parse_field tag s = Some (f, r) \<Longrightarrow> length r \<le> length s"
  by (auto simp: parse_field_def split: if_splits option.splits sum.splits prod.splits
    dest!: read_padding_rest stream_read_rest dec_mm_tag_rest)

text \<open>\<open>parse_transaction_extra\<close>: whether it succeeded, and the fields.\<close>

function parse_transaction_extra :: "bytes \<Rightarrow> bool \<times> extra_field list" where
  "parse_transaction_extra [] = (True, [])"
| "parse_transaction_extra (c # s) =
     (case parse_field c s of
        None \<Rightarrow> (False, [])
      | Some (field, r) \<Rightarrow>
          (let (ok, fs) = parse_transaction_extra r
           in (ok, (case field of None \<Rightarrow> fs | Some f \<Rightarrow> f # fs))))"
  by pat_completeness auto

termination
  by (relation "measure length") (auto dest: parse_field_rest)

section \<open>Writing\<close>

definition add_transaction_public_key_to_extra :: "bytes \<Rightarrow> public_key \<Rightarrow> bytes" where
  "add_transaction_public_key_to_extra extra tx_pub_key = extra @ 1 # tx_pub_key"

definition add_extra_nonce_to_transaction_extra :: "bytes \<Rightarrow> bytes \<Rightarrow> bytes option" where
  "add_extra_nonce_to_transaction_extra extra extra_nonce =
     (if length extra_nonce > TX_EXTRA_NONCE_MAX_COUNT then None
      else Some (extra @ 2 # word_of_nat (length extra_nonce) # extra_nonce))"

definition append_merge_mining_tag_to_extra :: "bytes \<Rightarrow> mm_tag \<Rightarrow> bytes" where
  "append_merge_mining_tag_to_extra extra t = extra @ 3 # to_binary enc_mm_tag t"

fun write_extra_field :: "extra_field \<Rightarrow> bytes \<Rightarrow> bytes option" where
  "write_extra_field (Extra_Padding sz) extra =
     (if sz > TX_EXTRA_PADDING_MAX_COUNT then None else Some (extra @ replicate sz 0))"
| "write_extra_field (Extra_Public_Key key) extra = Some (add_transaction_public_key_to_extra extra key)"
| "write_extra_field (Extra_Nonce nonce) extra = add_extra_nonce_to_transaction_extra extra nonce"
| "write_extra_field (Extra_Merge_Mining_Tag t) extra = Some (append_merge_mining_tag_to_extra extra t)"

text \<open>\<open>write_transaction_extra\<close>: whether it succeeded, and the bytes written until then.\<close>

fun write_transaction_extra :: "bytes \<Rightarrow> extra_field list \<Rightarrow> bool \<times> bytes" where
  "write_transaction_extra extra [] = (True, extra)"
| "write_transaction_extra extra (f # fs) =
     (case write_extra_field f extra of
        None \<Rightarrow> (False, extra)
      | Some extra \<Rightarrow> write_transaction_extra extra fs)"

section \<open>Look-ups\<close>

text \<open>\<open>find_transaction_extra_field_by_type\<close> at the types it is used at.\<close>

fun find_public_key :: "extra_field list \<Rightarrow> public_key option" where
  "find_public_key [] = None"
| "find_public_key (Extra_Public_Key key # fs) = Some key"
| "find_public_key (_ # fs) = find_public_key fs"

fun find_nonce :: "extra_field list \<Rightarrow> bytes option" where
  "find_nonce [] = None"
| "find_nonce (Extra_Nonce nonce # fs) = Some nonce"
| "find_nonce (_ # fs) = find_nonce fs"

fun find_mm_tag :: "extra_field list \<Rightarrow> mm_tag option" where
  "find_mm_tag [] = None"
| "find_mm_tag (Extra_Merge_Mining_Tag t # fs) = Some t"
| "find_mm_tag (_ # fs) = find_mm_tag fs"

definition get_transaction_public_key_from_extra :: "bytes \<Rightarrow> public_key" where
  "get_transaction_public_key_from_extra extra =
     (case find_public_key (snd (parse_transaction_extra extra)) of None \<Rightarrow> null_hash | Some key \<Rightarrow> key)"

definition get_merge_mining_tag_from_extra :: "bytes \<Rightarrow> mm_tag option" where
  "get_merge_mining_tag_from_extra extra = find_mm_tag (snd (parse_transaction_extra extra))"

definition TX_EXTRA_NONCE_PAYMENT_ID :: u8 where
  "TX_EXTRA_NONCE_PAYMENT_ID = 0"

definition set_payment_id_to_transaction_extra_nonce :: "hash \<Rightarrow> bytes" where
  "set_payment_id_to_transaction_extra_nonce payment_id = TX_EXTRA_NONCE_PAYMENT_ID # payment_id"

definition get_payment_id_from_transaction_extra_nonce :: "bytes \<Rightarrow> hash option" where
  "get_payment_id_from_transaction_extra_nonce extra_nonce =
     (if length extra_nonce \<noteq> 33 then None
      else if extra_nonce ! 0 \<noteq> TX_EXTRA_NONCE_PAYMENT_ID then None
      else Some (tl extra_nonce))"

definition get_payment_id_from_tx_extra :: "bytes \<Rightarrow> hash option" where
  "get_payment_id_from_tx_extra extra =
     (case find_nonce (snd (parse_transaction_extra extra)) of
        None \<Rightarrow> None
      | Some nonce \<Rightarrow> get_payment_id_from_transaction_extra_nonce nonce)"

section \<open>Round trip\<close>

text \<open>Padding takes everything up to the end, so it can only be last.\<close>

fun valid_fields :: "extra_field list \<Rightarrow> bool" where
  "valid_fields [] \<longleftrightarrow> True"
| "valid_fields (Extra_Padding sz # fs) \<longleftrightarrow> 0 < sz \<and> sz \<le> TX_EXTRA_PADDING_MAX_COUNT \<and> fs = []"
| "valid_fields (Extra_Public_Key key # fs) \<longleftrightarrow> pod32 key \<and> valid_fields fs"
| "valid_fields (Extra_Nonce nonce # fs) \<longleftrightarrow> length nonce \<le> TX_EXTRA_NONCE_MAX_COUNT \<and> valid_fields fs"
| "valid_fields (Extra_Merge_Mining_Tag t # fs) \<longleftrightarrow> valid_mm_tag t \<and> valid_fields fs"

lemma length_write_varint_le: "unat v < 2 ^ (7 * Suc k) \<Longrightarrow> length (write_varint v) \<le> Suc k"
proof (induction k arbitrary: v)
  case 0
  then show ?case by (subst write_varint.simps) (simp add: word_le_nat_alt)
next
  case (Suc k)
  have "unat (drop_bit 7 v) < 2 ^ (7 * Suc k)"
    using Suc.prems by (simp add: unat_drop_bit less_mult_imp_div_less power_add)
  with Suc.IH [of "drop_bit 7 v"] show ?case by (subst write_varint.simps) simp
qed

lemma length_write_varint: "length (write_varint (v :: u64)) \<le> 10"
  using length_write_varint_le [of v 9] u64_less [of v] by simp

lemma dec_enc_mm_tag: "valid_mm_tag t \<Longrightarrow> dec_mm_tag (enc_mm_tag t @ r) = Inr (t, r)"
proof -
  assume "valid_mm_tag t"
  then have "pod32 (mm_merkle_root t)" by (simp add: valid_mm_tag_def)
  moreover have "fits64 (enc_u64 (mm_depth t) @ mm_merkle_root t)"
    using length_write_varint [of "mm_depth t"] \<open>pod32 (mm_merkle_root t)\<close>
    by (simp add: fits64_def enc_u64_def pod32_def)
  ultimately show ?thesis
    using hash32.dec_enc [of "mm_merkle_root t" "[]"] u64.dec_enc [OF TrueI, of "mm_depth t"]
    by (simp add: dec_mm_tag_def enc_mm_tag_def byte_array.dec_enc)
qed

lemma read_padding_zeros: "sz + n \<le> 256 \<Longrightarrow> read_padding (replicate n 0) sz = Some (sz + n, [])"
  by (induction n arbitrary: sz) (simp_all add: TX_EXTRA_PADDING_MAX_COUNT_def)

lemma write_parse:
  "valid_fields fs \<Longrightarrow> \<exists>w. write_transaction_extra pre fs = (True, pre @ w) \<and> parse_transaction_extra w = (True, fs)"
proof (induction fs arbitrary: pre)
  case Nil
  then show ?case by simp
next
  case (Cons f fs)
  show ?case
  proof (cases f)
    case (Extra_Padding sz)
    with Cons.prems obtain n where n: "sz = Suc n" "n < 255" and "fs = []"
      by (cases sz) (auto simp: TX_EXTRA_PADDING_MAX_COUNT_def)
    then show ?thesis
      by (intro exI [of _ "0 # replicate n 0"])
        (simp add: Extra_Padding parse_field_def read_padding_zeros TX_EXTRA_PADDING_MAX_COUNT_def)
  next
    case (Extra_Public_Key key)
    with Cons.prems have "pod32 key" "valid_fields fs" by simp_all
    with Cons.IH [of "pre @ 1 # key"] obtain w where
      w: "write_transaction_extra (pre @ 1 # key) fs = (True, (pre @ 1 # key) @ w)"
      "parse_transaction_extra w = (True, fs)" by blast
    then show ?thesis
      using \<open>pod32 key\<close>
      by (intro exI [of _ "1 # key @ w"])
        (simp add: Extra_Public_Key parse_field_def add_transaction_public_key_to_extra_def stream_read_eq pod32_def)
  next
    case (Extra_Nonce nonce)
    let ?b = "2 # word_of_nat (length nonce) # nonce"
    from Extra_Nonce Cons.prems have l: "length nonce \<le> 255" "valid_fields fs"
      by (simp_all add: TX_EXTRA_NONCE_MAX_COUNT_def)
    with Cons.IH [of "pre @ ?b"] obtain w where
      w: "write_transaction_extra (pre @ ?b) fs = (True, (pre @ ?b) @ w)"
      "parse_transaction_extra w = (True, fs)" by blast
    have "unat (word_of_nat (length nonce) :: u8) = length nonce" using l by (simp add: unat_of_nat)
    with w l show ?thesis
      by (intro exI [of _ "?b @ w"])
        (simp add: Extra_Nonce parse_field_def add_extra_nonce_to_transaction_extra_def stream_read_eq
          TX_EXTRA_NONCE_MAX_COUNT_def)
  next
    case (Extra_Merge_Mining_Tag t)
    let ?b = "3 # enc_mm_tag t"
    from Extra_Merge_Mining_Tag Cons.prems have t: "valid_mm_tag t" "valid_fields fs" by simp_all
    with Cons.IH [of "pre @ ?b"] obtain w where
      w: "write_transaction_extra (pre @ ?b) fs = (True, (pre @ ?b) @ w)"
      "parse_transaction_extra w = (True, fs)" by blast
    with t show ?thesis
      by (intro exI [of _ "?b @ w"])
        (simp add: Extra_Merge_Mining_Tag parse_field_def append_merge_mining_tag_to_extra_def to_binary_def
          dec_enc_mm_tag)
  qed
qed

lemma transaction_extra_roundtrip_mm:
  "valid_mm_tag t \<Longrightarrow>
     parse_transaction_extra (append_merge_mining_tag_to_extra [] t) = (True, [Extra_Merge_Mining_Tag t])"
  using write_parse [of "[Extra_Merge_Mining_Tag t]" "[]"] by auto

text \<open>
  C14: the fields of an extra are read back as they were written, for every sequence of fields
  whose padding, if any, is last.
\<close>

theorem transaction_extra_roundtrip:
  assumes "valid_fields fs" "write_transaction_extra [] fs = (ok, extra)"
  shows "ok \<and> parse_transaction_extra extra = (True, fs)"
  using write_parse [OF assms(1), of "[]"] assms(2) by auto

theorem transaction_extra_roundtrip_witness:
  "parse_transaction_extra ([1] @ replicate 32 5 @ [2, 2, 8, 9, 0, 0]) =
     (True, [Extra_Public_Key (replicate 32 5), Extra_Nonce [8, 9], Extra_Padding 2])"
proof -
  let ?fs = "[Extra_Public_Key (replicate 32 5), Extra_Nonce [8, 9], Extra_Padding 2]"
  have "write_transaction_extra [] ?fs = (True, [1] @ replicate 32 5 @ [2, 2, 8, 9, 0, 0])"
    by (simp add: add_transaction_public_key_to_extra_def add_extra_nonce_to_transaction_extra_def
      TX_EXTRA_NONCE_MAX_COUNT_def TX_EXTRA_PADDING_MAX_COUNT_def numeral_2_eq_2)
  from transaction_extra_roundtrip [OF _ this] show ?thesis
    by (simp add: pod32_def TX_EXTRA_NONCE_MAX_COUNT_def TX_EXTRA_PADDING_MAX_COUNT_def)
qed

text \<open>
  What the builders of a transaction add to its extra is what the readers of the chain
  find: the public key first, whatever follows, and a payment id in the nonce.
\<close>

lemma extra_key_and_payment_id:
  assumes "pod32 key" "pod32 payment_id"
    and "add_extra_nonce_to_transaction_extra (add_transaction_public_key_to_extra [] key)
      (set_payment_id_to_transaction_extra_nonce payment_id) = Some extra"
  shows "get_transaction_public_key_from_extra (extra @ rest) = key \<and> get_payment_id_from_tx_extra (extra @ rest) = Some payment_id"
proof -
  let ?nonce = "TX_EXTRA_NONCE_PAYMENT_ID # payment_id"
  have extra: "extra @ rest = 1 # (key @ 2 # 33 # ?nonce @ rest)"
    using assms by (auto simp: add_extra_nonce_to_transaction_extra_def add_transaction_public_key_to_extra_def
      set_payment_id_to_transaction_extra_nonce_def pod32_def split: if_splits)
  obtain ok fs where fs: "parse_transaction_extra rest = (ok, fs)" by fastforce
  have "parse_transaction_extra (2 # 33 # ?nonce @ rest) = (ok, Extra_Nonce ?nonce # fs)"
    using assms(2) fs by (simp add: parse_field_def stream_read_eq pod32_def)
  then have "parse_transaction_extra (extra @ rest) = (ok, Extra_Public_Key key # Extra_Nonce ?nonce # fs)"
    unfolding extra using assms(1) by (simp add: parse_field_def stream_read_eq pod32_def)
  then show ?thesis
    using assms(2) by (simp add: get_transaction_public_key_from_extra_def get_payment_id_from_tx_extra_def
      get_payment_id_from_transaction_extra_nonce_def pod32_def)
qed

theorem extra_key_and_payment_id_witness:
  "get_transaction_public_key_from_extra (1 # replicate 32 5 @ 2 # 33 # 0 # replicate 32 6 @ [7]) = replicate 32 5 \<and>
     get_payment_id_from_tx_extra (1 # replicate 32 5 @ 2 # 33 # 0 # replicate 32 6 @ [7]) = Some (replicate 32 6)"
proof -
  have "add_extra_nonce_to_transaction_extra (add_transaction_public_key_to_extra [] (replicate 32 5))
      (set_payment_id_to_transaction_extra_nonce (replicate 32 6)) =
      Some (1 # replicate 32 5 @ 2 # 33 # 0 # replicate 32 6)"
    by (simp add: add_extra_nonce_to_transaction_extra_def add_transaction_public_key_to_extra_def
      set_payment_id_to_transaction_extra_nonce_def TX_EXTRA_NONCE_MAX_COUNT_def TX_EXTRA_NONCE_PAYMENT_ID_def)
  from extra_key_and_payment_id [OF _ _ this, of "[7]"] show ?thesis by (simp add: pod32_def)
qed

end
