(* ===== verification/Chain_Headers.thy ===== *)
theory Chain_Headers
  imports Chain_Ledger
begin

text \<open>
  The block tree as \<open>BlockChain\<close> keeps it (\<open>Core/BlockChain.cpp\<close>): a header for every
  block it has seen, found through the window of the last headers of the chain, a cache or the
  database, and the current chain, the hash of the block at every height up to the tip.
\<close>

section \<open>Keys\<close>

definition BLOCK_PREFIX :: bytes where "BLOCK_PREFIX = [0x62]"
definition BLOCK_SUFFIX :: bytes where "BLOCK_SUFFIX = [0x62]"
definition HEADER_PREFIX :: bytes where "HEADER_PREFIX = [0x62]"
definition HEADER_SUFFIX :: bytes where "HEADER_SUFFIX = [0x68]"
definition TIP_CHAIN_PREFIX :: bytes where "TIP_CHAIN_PREFIX = [0x63]"
definition TIMESTAMP_BLOCK_PREFIX :: bytes where "TIMESTAMP_BLOCK_PREFIX = [0x54]"

definition block_key :: "hash \<Rightarrow> bytes" where
  "block_key bid = BLOCK_PREFIX @ bid @ BLOCK_SUFFIX"

definition header_key :: "hash \<Rightarrow> bytes" where
  "header_key bid = HEADER_PREFIX @ bid @ HEADER_SUFFIX"

definition tip_chain_key :: "height \<Rightarrow> bytes" where
  "tip_chain_key h = TIP_CHAIN_PREFIX @ write_varint_sqlite4 (ucast h)"

definition timestamp_block_key :: "timestamp \<Rightarrow> height \<Rightarrow> bytes" where
  "timestamp_block_key ts h = TIMESTAMP_BLOCK_PREFIX @ write_varint_sqlite4 (ucast ts) @ write_varint_sqlite4 (ucast h)"

section \<open>Blocks and headers\<close>

definition store_block :: "hash \<Rightarrow> bytes \<Rightarrow> chain_state \<Rightarrow> chain_state result" where
  "store_block bid block_data s =
     res_bind (db_put (bc_db s) (block_key bid) block_data True) (\<lambda>db. Inr (s\<lparr>bc_db := db\<rparr>))"

definition read_block :: "hash \<Rightarrow> chain_state \<Rightarrow> (bytes \<times> raw_block) option result" where
  "read_block bid s =
     (case db_get (bc_db s) (block_key bid) of
        None \<Rightarrow> Inr None
      | Some rb \<Rightarrow> res_bind (from_binary dec_raw_block rb) (\<lambda>raw. Inr (Some (rb, raw))))"

definition has_block :: "hash \<Rightarrow> chain_state \<Rightarrow> bool" where
  "has_block bid s \<longleftrightarrow> db_get (bc_db s) (block_key bid) \<noteq> None"

definition store_header :: "hash \<Rightarrow> header_info \<Rightarrow> chain_state \<Rightarrow> chain_state result" where
  "store_header bid header s =
     res_bind (db_put (bc_db s) (header_key bid) (to_binary enc_header_info header) True) (\<lambda>db.
       Inr (s\<lparr>bc_db := db\<rparr>))"

definition largest_window :: "currency \<Rightarrow> chain_state \<Rightarrow> height" where
  "largest_window c s =
     max (get_difficulty_blocks_count c (bc_tip_height s + 1))
       (max (cy_reward_blocks_window c) (get_timestamp_check_window c (bc_tip_height s + 1)))"

text \<open>
  The first look-up of \<open>read_header\<close>: the header of the window at the height the caller
  guesses.  The bounds are computed in \<open>size_t\<close>; \<open>at\<close> may raise.
\<close>

definition window_candidate :: "height \<Rightarrow> chain_state \<Rightarrow> header_info option result" where
  "window_candidate hint s =
     (let window = bc_header_tip_window s;
          tip = bc_tip_height s;
          n = word_of_nat (length window) :: u64
      in if tip \<noteq> - 1 \<and> hint \<le> tip \<and> ucast tip - n + 1 \<le> (ucast hint :: u64)
         then
           let i = unat (n - 1 - ucast (tip - hint))
           in if i < length window then Inr (Some (window ! i)) else Inl (Out_of_range ''deque'')
         else Inr None)"

definition read_header :: "currency \<Rightarrow> hash \<Rightarrow> height \<Rightarrow> chain_state \<Rightarrow> (header_info option \<times> chain_state) result" where
  "read_header c bid hint s =
     res_bind (window_candidate hint s) (\<lambda>candidate.
       if (case candidate of None \<Rightarrow> False | Some h \<Rightarrow> hi_hash h = bid) then Inr (candidate, s)
       else case om_find bid (bc_header_cache s) of
           Some h \<Rightarrow> Inr (Some h, s)
         | None \<Rightarrow>
             let s = (if length (bc_header_cache s) > unat (largest_window c s * 10)
                      then s\<lparr>bc_header_cache := []\<rparr> else s)
             in case db_get (bc_db s) (header_key bid) of
                  None \<Rightarrow> Inr (None, s)
                | Some rb \<Rightarrow> res_bind (from_binary dec_header_info rb) (\<lambda>h.
                    Inr (Some h, s\<lparr>bc_header_cache := om_set bid h (bc_header_cache s)\<rparr>)))"

text \<open>The overload that raises when there is no header.\<close>

definition get_header :: "currency \<Rightarrow> hash \<Rightarrow> height \<Rightarrow> chain_state \<Rightarrow> (header_info \<times> chain_state) result" where
  "get_header c bid hint s =
     res_bind (read_header c bid hint s) (\<lambda>(r, s). case r of
         None \<Rightarrow> Inl (Logic_error (''Expected header was not found'' @ to_hex bid))
       | Some h \<Rightarrow> Inr (h, s))"

section \<open>The current chain\<close>

definition get_tip :: "chain_state \<Rightarrow> header_info result" where
  "get_tip s =
     res_bind (invariant (bc_header_tip_window s \<noteq> [] \<and> bc_tip_bid s = hi_hash (last (bc_header_tip_window s)))
       ''tip window corrupted'') (\<lambda>_. Inr (last (bc_header_tip_window s)))"

definition read_chain :: "height \<Rightarrow> chain_state \<Rightarrow> hash option result" where
  "read_chain h s =
     (case db_get (bc_db s) (tip_chain_key h) of
        None \<Rightarrow> Inr None
      | Some ba \<Rightarrow> res_bind (from_binary (dec_binary 32) ba) (\<lambda>bid. Inr (Some bid)))"

definition in_chain :: "height \<Rightarrow> hash \<Rightarrow> chain_state \<Rightarrow> bool result" where
  "in_chain h bid s = res_bind (read_chain h s) (\<lambda>r. Inr (r = Some bid))"

definition get_chain :: "height \<Rightarrow> chain_state \<Rightarrow> hash result" where
  "get_chain h s =
     res_bind (read_chain h s) (\<lambda>r. case r of
         None \<Rightarrow> Inl (Logic_error ''read_header_chain failed'')
       | Some bid \<Rightarrow> Inr bid)"

text \<open>
  \<open>get_tip_segment\<close>: up to \<open>window\<close> headers back from a block, oldest first.  The loop
  collects at most as many; the genesis block joins only when asked for.
\<close>

fun tip_segment_loop ::
  "currency \<Rightarrow> nat \<Rightarrow> header_info \<Rightarrow> header_info list \<Rightarrow> chain_state \<Rightarrow> (header_info \<times> header_info list \<times> chain_state) result" where
  "tip_segment_loop c 0 pi acc s = Inr (pi, acc, s)"
| "tip_segment_loop c (Suc room) pi acc s =
     (if hi_height pi = 0 then Inr (pi, acc, s)
      else res_bind (get_header c (hi_previous_block_hash pi) (hi_height pi - 1) s) (\<lambda>(pi', s).
        tip_segment_loop c room pi' (acc @ [pi]) s))"

definition get_tip_segment ::
  "currency \<Rightarrow> header_info \<Rightarrow> height \<Rightarrow> bool \<Rightarrow> chain_state \<Rightarrow> (header_info list \<times> chain_state) result" where
  "get_tip_segment c prev_info window add_genesis s =
     (if hi_height prev_info = - 1 then Inr ([], s)
      else
        res_bind (tip_segment_loop c (unat window) prev_info [] s) (\<lambda>(pi, acc, s).
          if length acc < unat window \<and> add_genesis
          then res_bind (invariant (hi_height pi = 0)
              ''Invariant dead - window size not reached, but genesis not found in get_tip_segment'') (\<lambda>_.
            Inr (rev (acc @ [pi]), s))
          else Inr (rev acc, s)))"

text \<open>\<open>read_tip\<close> after a start; without a chain there is no value to read.\<close>

definition read_tip :: "currency \<Rightarrow> chain_state \<Rightarrow> chain_state result" where
  "read_tip c s =
     (let (read_height, v) = (case db_rbegin (bc_db s) TIP_CHAIN_PREFIX of
            [] \<Rightarrow> (Inr (- 1), [])
          | (suffix, v) # _ \<Rightarrow> (res_bind (read_varint_sqlite4_str suffix) (\<lambda>h.
              if unat h < 2 ^ 32 then Inr (ucast h) else Inl Bad_cast), v))
      in
      res_bind read_height (\<lambda>tip_height.
      res_bind (from_binary (dec_binary 32) v) (\<lambda>tip_bid.
      res_bind (get_header c tip_bid 0 (s\<lparr>bc_tip_height := tip_height, bc_tip_bid := tip_bid\<rparr>)) (\<lambda>(tip_header, s).
      Inr (s\<lparr>bc_tip_cumulative_difficulty := hi_cumulative_difficulty tip_header,
        bc_header_tip_window := [tip_header]\<rparr>)))))"

section \<open>Reading headers\<close>

text \<open>The header the database has of a block.\<close>

definition header_of :: "'a block_chain_scheme \<Rightarrow> hash \<Rightarrow> header_info option" where
  "header_of s bid =
     (case db_get (bc_db s) (header_key bid) of
        None \<Rightarrow> None
      | Some rb \<Rightarrow> (case from_binary dec_header_info rb of Inl _ \<Rightarrow> None | Inr h \<Rightarrow> Some h))"

text \<open>
  What the node keeps of headers agrees with the database: its headers can be read and carry
  their hash, and the cache and the window hold nothing else.
\<close>

definition headers_ok :: "'a block_chain_scheme \<Rightarrow> bool" where
  "headers_ok s \<longleftrightarrow> om_wf (bc_db s) \<and> om_wf (bc_header_cache s) \<and>
     (\<forall>bid rb. db_get (bc_db s) (header_key bid) = Some rb \<longrightarrow>
        (\<exists>h. from_binary dec_header_info rb = Inr h \<and> hi_hash h = bid)) \<and>
     (\<forall>bid h. om_find bid (bc_header_cache s) = Some h \<longrightarrow> header_of s bid = Some h) \<and>
     (\<forall>h \<in> set (bc_header_tip_window s). header_of s (hi_hash h) = Some h) \<and>
     length (bc_header_tip_window s) \<le> unat (bc_tip_height s) + 1"

lemma headers_okD:
  assumes "headers_ok s"
  shows "om_wf (bc_db s)" "om_wf (bc_header_cache s)"
    "db_get (bc_db s) (header_key bid) = Some rb \<Longrightarrow> \<exists>h. from_binary dec_header_info rb = Inr h \<and> hi_hash h = bid"
    "om_find bid (bc_header_cache s) = Some h \<Longrightarrow> header_of s bid = Some h"
    "h \<in> set (bc_header_tip_window s) \<Longrightarrow> header_of s (hi_hash h) = Some h"
    "length (bc_header_tip_window s) \<le> unat (bc_tip_height s) + 1"
  using assms by (auto simp: headers_ok_def)

lemma header_of_hash: "headers_ok s \<Longrightarrow> header_of s bid = Some h \<Longrightarrow> hi_hash h = bid"
  by (auto simp: header_of_def dest: headers_okD(3) split: option.splits sum.splits)

lemma window_candidate_ok:
  assumes "headers_ok s"
  shows "\<exists>r. window_candidate hint s = Inr r \<and> (\<forall>h. r = Some h \<longrightarrow> h \<in> set (bc_header_tip_window s))"
proof -
  define tip where "tip = bc_tip_height s"
  define w where "w = bc_header_tip_window s"
  define n where "n = (word_of_nat (length w) :: u64)"
  have len: "length w \<le> unat tip + 1" using headers_okD(6) [OF assms] by (simp add: w_def tip_def)
  then have n: "unat n = length w" using u32_less [of tip] by (simp add: n_def unat_of_nat)
  have t1: "unat (ucast tip + 1 :: u64) = unat tip + 1" using u32_less [of tip] by (simp add: unat_word_ariths)
  have d: "unat (ucast tip - n + 1) = unat tip + 1 - length w"
  proof -
    have "ucast tip - n + 1 = (ucast tip + 1) - n" by simp
    moreover have "n \<le> ucast tip + 1" using len by (simp add: word_le_nat_alt t1 n)
    ultimately show ?thesis by (simp only: unat_sub t1 n)
  qed
  have i: "unat (n - 1 - ucast (tip - hint)) < length w"
    if h: "hint \<le> tip" "ucast tip - n + 1 \<le> (ucast hint :: u64)"
  proof -
    from h have le: "unat hint \<le> unat tip" "unat tip + 1 - length w \<le> unat hint"
      by (simp_all add: word_le_nat_alt d)
    then have pos: "0 < length w" using len by linarith
    then have "(1 :: u64) \<le> n" by (simp add: word_le_nat_alt n Suc_le_eq)
    then have n1: "unat (n - 1) = length w - 1" by (simp only: unat_sub n unat_1)
    have "unat (ucast (tip - hint) :: u64) = unat tip - unat hint" using h(1) by (simp only: unat_ucast_u32 unat_sub)
    moreover from this have "ucast (tip - hint) \<le> n - 1" using le pos by (simp add: word_le_nat_alt n1)
    ultimately show ?thesis using n1 pos by (simp add: unat_sub)
  qed
  show ?thesis
    unfolding window_candidate_def Let_def w_def [symmetric] tip_def [symmetric] n_def [symmetric]
    using i by auto
qed

text \<open>Wherever a header is found, it is the one of the database; only the cache changes.\<close>

lemma read_header_ok:
  assumes "headers_ok s"
  shows "\<exists>cache. read_header c bid hint s = Inr (header_of s bid, s\<lparr>bc_header_cache := cache\<rparr>) \<and>
    headers_ok (s\<lparr>bc_header_cache := cache\<rparr>)"
proof -
  have ok: "headers_ok (s\<lparr>bc_header_cache := cache\<rparr>)"
    if "om_wf cache" "\<And>bid h. om_find bid cache = Some h \<Longrightarrow> header_of s bid = Some h" for cache
    using assms that by (simp add: headers_ok_def header_of_def)
  obtain r where r: "window_candidate hint s = Inr r" "\<And>h. r = Some h \<Longrightarrow> h \<in> set (bc_header_tip_window s)"
    using window_candidate_ok [OF assms] by blast
  show ?thesis
  proof (cases "case r of None \<Rightarrow> False | Some h \<Rightarrow> hi_hash h = bid")
    case True
    then obtain h where h: "r = Some h" "hi_hash h = bid" by (auto split: option.splits)
    with headers_okD(5) [OF assms r(2)] have "header_of s bid = Some h" by blast
    with h r(1) assms show ?thesis
      by (intro exI [of _ "bc_header_cache s"]) (simp add: read_header_def)
  next
    case False
    note nw = this
    show ?thesis
    proof (cases "om_find bid (bc_header_cache s)")
      case (Some h)
      then have "header_of s bid = Some h" by (rule headers_okD(4) [OF assms])
      with Some r(1) nw assms show ?thesis
        by (intro exI [of _ "bc_header_cache s"]) (auto simp: read_header_def)
    next
      case None
      define cache where "cache = (if length (bc_header_cache s) > unat (largest_window c s * 10) then [] else bc_header_cache s)"
      have cache: "om_wf cache" "\<And>bid h. om_find bid cache = Some h \<Longrightarrow> header_of s bid = Some h"
        using headers_okD(2,4) [OF assms] by (auto simp: cache_def split: if_splits)
      have c: "(if length (bc_header_cache s) > unat (largest_window c s * 10) then s\<lparr>bc_header_cache := []\<rparr> else s) =
        s\<lparr>bc_header_cache := cache\<rparr>" by (simp add: cache_def)
      show ?thesis
      proof (cases "db_get (bc_db s) (header_key bid)")
        case None
        then have "header_of s bid = None" by (simp add: header_of_def)
        with None \<open>om_find bid _ = None\<close> r(1) nw ok [OF cache] show ?thesis
          by (intro exI [of _ cache]) (auto simp: read_header_def c Let_def)
      next
        case (Some rb)
        with headers_okD(3) [OF assms] obtain h where h: "from_binary dec_header_info rb = Inr h" by blast
        with Some have hd: "header_of s bid = Some h" by (simp add: header_of_def)
        have "headers_ok (s\<lparr>bc_header_cache := om_set bid h cache\<rparr>)"
          using cache hd by (intro ok) (auto split: if_splits)
        with Some h hd \<open>om_find bid _ = None\<close> r(1) nw show ?thesis
          by (intro exI [of _ "om_set bid h cache"]) (auto simp: read_header_def c Let_def)
      qed
    qed
  qed
qed

lemma get_header_ok:
  assumes "headers_ok s" "header_of s bid = Some h"
  shows "\<exists>cache. get_header c bid hint s = Inr (h, s\<lparr>bc_header_cache := cache\<rparr>) \<and>
    headers_ok (s\<lparr>bc_header_cache := cache\<rparr>)"
  using read_header_ok [OF assms(1), of c bid hint] assms(2) by (auto simp: get_header_def)

lemma header_of_cache [simp]: "header_of (s\<lparr>bc_header_cache := cache\<rparr>) = header_of s"
  by (simp add: header_of_def fun_eq_iff)

section \<open>The tree\<close>

lemma no_wrap_succ: "(x :: u32) \<noteq> - 1 \<Longrightarrow> unat (x + 1) = unat x + 1"
proof -
  assume "x \<noteq> - 1"
  then have "x + 1 \<noteq> 0" by (metis add_eq_0_iff2)
  then show ?thesis by (simp add: unatSuc add.commute)
qed

text \<open>
  Every block but the genesis block has a parent one lower.  Heights stay below \<open>2 ^ 32 - 1\<close>,
  the value that stands for no block.
\<close>

definition tree_ok :: "'a block_chain_scheme \<Rightarrow> bool" where
  "tree_ok s \<longleftrightarrow> (\<forall>bid h. header_of s bid = Some h \<longrightarrow>
     hi_height h \<noteq> - 1 \<and>
     (hi_height h = 0 \<longrightarrow> bid = bc_genesis_bid s) \<and>
     (hi_height h \<noteq> 0 \<longrightarrow> (\<exists>p. header_of s (hi_previous_block_hash h) = Some p \<and> hi_height p + 1 = hi_height h)))"

lemma tree_ok_parent:
  assumes "tree_ok s" "header_of s bid = Some h" "hi_height h \<noteq> 0"
  obtains p where "header_of s (hi_previous_block_hash h) = Some p" "hi_height p + 1 = hi_height h"
    "unat (hi_height h) = Suc (unat (hi_height p))"
proof -
  from assms obtain p where p: "header_of s (hi_previous_block_hash h) = Some p" "hi_height p + 1 = hi_height h"
    by (auto simp: tree_ok_def)
  with assms(1) have "hi_height p \<noteq> - 1" by (auto simp: tree_ok_def)
  then have "unat (hi_height p + 1) = unat (hi_height p) + 1"
    by (rule no_wrap_succ)
  with p that show thesis by simp
qed

lemma tree_ok_cache [simp]: "tree_ok (s\<lparr>bc_header_cache := cache\<rparr>) = tree_ok s"
  by (simp add: tree_ok_def)

text \<open>The headers from a block back towards the genesis block, at most \<open>n\<close> of them.\<close>

fun trail :: "(hash \<Rightarrow> header_info option) \<Rightarrow> bool \<Rightarrow> nat \<Rightarrow> header_info \<Rightarrow> header_info list" where
  "trail H genesis 0 h = []"
| "trail H genesis (Suc n) h =
     (if hi_height h = 0 then (if genesis then [h] else [])
      else h # (case H (hi_previous_block_hash h) of None \<Rightarrow> [] | Some p \<Rightarrow> trail H genesis n p))"

lemma tip_segment_loop_ok:
  assumes "headers_ok s" "tree_ok s" "header_of s bid = Some h"
  shows "\<exists>cache pi. tip_segment_loop c n h acc s = Inr (pi, acc @ trail (header_of s) False n h, s\<lparr>bc_header_cache := cache\<rparr>) \<and>
    headers_ok (s\<lparr>bc_header_cache := cache\<rparr>) \<and>
    (length (trail (header_of s) False n h) < n \<longrightarrow> hi_height pi = 0 \<and>
       trail (header_of s) True n h = trail (header_of s) False n h @ [pi]) \<and>
    (length (trail (header_of s) False n h) \<ge> n \<longrightarrow> trail (header_of s) True n h = trail (header_of s) False n h)"
  using assms
proof (induction n arbitrary: s bid h acc)
  case 0
  then show ?case by (intro exI [of _ "bc_header_cache s"]) auto
next
  case (Suc n)
  show ?case
  proof (cases "hi_height h = 0")
    case True
    with Suc.prems show ?thesis by (intro exI [of _ "bc_header_cache s"]) auto
  next
    case False
    with Suc.prems obtain p where p: "header_of s (hi_previous_block_hash h) = Some p"
      by (blast elim: tree_ok_parent)
    obtain cache where g: "get_header c (hi_previous_block_hash h) (hi_height h - 1) s = Inr (p, s\<lparr>bc_header_cache := cache\<rparr>)"
      "headers_ok (s\<lparr>bc_header_cache := cache\<rparr>)"
      using get_header_ok [OF Suc.prems(1) p] by blast
    have "tree_ok (s\<lparr>bc_header_cache := cache\<rparr>)" "header_of (s\<lparr>bc_header_cache := cache\<rparr>) (hi_previous_block_hash h) = Some p"
      using Suc.prems p by simp_all
    from Suc.IH [OF g(2) this, of "acc @ [h]"] False p g(1) show ?thesis by auto
  qed
qed

lemma get_tip_segment_ok:
  assumes "headers_ok s" "tree_ok s" "header_of s bid = Some h"
  shows "\<exists>cache. get_tip_segment c h window genesis s =
      Inr (rev (trail (header_of s) genesis (unat window) h), s\<lparr>bc_header_cache := cache\<rparr>) \<and>
    headers_ok (s\<lparr>bc_header_cache := cache\<rparr>)"
proof -
  have "hi_height h \<noteq> - 1" using assms(2,3) by (auto simp: tree_ok_def)
  with tip_segment_loop_ok [OF assms, of c "unat window" "[]"] show ?thesis
    by (cases genesis) (auto simp: get_tip_segment_def)
qed

section \<open>Look-ups change nothing but the cache\<close>

definition same_but_cache :: "chain_state \<Rightarrow> chain_state \<Rightarrow> bool" where
  "same_but_cache s s' \<longleftrightarrow> (\<exists>cache. s' = s\<lparr>bc_header_cache := cache\<rparr>)"

lemma same_but_cache_refl [simp]: "same_but_cache s s"
  by (auto simp: same_but_cache_def intro: exI [of _ "bc_header_cache s"])

lemma same_but_cacheI [simp]: "same_but_cache s (s\<lparr>bc_header_cache := cache\<rparr>)"
  by (auto simp: same_but_cache_def)

lemma same_but_cache_trans: "same_but_cache s t \<Longrightarrow> same_but_cache t u \<Longrightarrow> same_but_cache s u"
  by (auto simp: same_but_cache_def)

lemma read_header_frame: "read_header c bid hint s = Inr (r, s') \<Longrightarrow> same_but_cache s s'"
  by (auto simp: read_header_def res_bind_eq_Inr Let_def split: if_splits option.splits)

lemma get_header_frame: "get_header c bid hint s = Inr (r, s') \<Longrightarrow> same_but_cache s s'"
  by (auto simp: get_header_def res_bind_eq_Inr split: option.splits dest: read_header_frame)

lemma tip_segment_loop_frame: "tip_segment_loop c n pi acc s = Inr (pi', acc', s') \<Longrightarrow> same_but_cache s s'"
  by (induction c n pi acc s rule: tip_segment_loop.induct)
    (auto simp: res_bind_eq_Inr split: if_splits dest: get_header_frame intro: same_but_cache_trans)

lemma get_tip_segment_frame: "get_tip_segment c h window genesis s = Inr (hs, s') \<Longrightarrow> same_but_cache s s'"
  by (auto simp: get_tip_segment_def res_bind_eq_Inr split: if_splits dest: tip_segment_loop_frame)

end
