(* ===== verification/Block_Format.thy ===== *)
theory Block_Format
  imports Tree_Hash Transaction_Extra
begin

text \<open>
  Blocks as bytes: the serialization of a block template and of the parent block of a
  merge-mined one (\<open>ParentBlockSerializer\<close> of \<open>Core/CryptoNoteTools.cpp\<close>), the hashes
  of a block (the end of \<open>Core/Currency.cpp\<close>), the proof of work, and the block as the node
  prepares it for \<open>add_block\<close> (\<open>Block\<close>, \<open>PreparedBlock\<close> of
  \<open>Core/BlockChain.cpp\<close>).
\<close>

section \<open>Headers\<close>

text \<open>\<open>nonce\<close>: four raw bytes, in the byte order of the machine.\<close>

definition enc_nonce :: "u32 \<Rightarrow> bytes" where
  "enc_nonce n = [ucast n, ucast (drop_bit 8 n), ucast (drop_bit 16 n), ucast (drop_bit 24 n)]"

definition nonce_of_bytes :: "bytes \<Rightarrow> u32" where
  "nonce_of_bytes b = ucast (b ! 0) OR push_bit 8 (ucast (b ! 1)) OR push_bit 16 (ucast (b ! 2)) OR
     push_bit 24 (ucast (b ! 3))"

definition dec_nonce :: "bytes \<Rightarrow> (u32 \<times> bytes) result" where
  "dec_nonce s = res_bind (dec_binary 4 s) (\<lambda>(b, r). Inr (nonce_of_bytes b, r))"

definition enc_block_header :: "'a block_header_scheme \<Rightarrow> bytes result" where
  "enc_block_header b =
     (if bh_major_version b = 1 then
        Inr (enc_u8 (bh_major_version b) @ enc_u8 (bh_minor_version b) @ enc_u32 (bh_timestamp b) @
          bh_previous_block_hash b @ enc_nonce (bh_nonce b))
      else if bh_major_version b \<ge> 2 then
        Inr (enc_u8 (bh_major_version b) @ enc_u8 (bh_minor_version b) @ bh_previous_block_hash b)
      else Inl (Runtime_error ''Wrong major version''))"

text \<open>Reading a header into a fresh block template.\<close>

definition dec_block_header :: "bytes \<Rightarrow> (block_template \<times> bytes) result" where
  "dec_block_header s =
     res_bind (dec_u8 s) (\<lambda>(major, s1).
     res_bind (dec_u8 s1) (\<lambda>(minor, s2).
     let b = empty_block_template\<lparr>bh_major_version := major, bh_minor_version := minor\<rparr> in
       if major = 1 then
         res_bind (dec_u32 s2) (\<lambda>(timestamp, s3).
         res_bind (dec_binary 32 s3) (\<lambda>(prev, s4).
         res_bind (dec_nonce s4) (\<lambda>(nonce, s5).
         Inr (b\<lparr>bh_timestamp := timestamp, bh_previous_block_hash := prev, bh_nonce := nonce\<rparr>, s5))))
       else if major \<ge> 2 then
         res_bind (dec_binary 32 s2) (\<lambda>(prev, s3). Inr (b\<lparr>bh_previous_block_hash := prev\<rparr>, s3))
       else Inl (Runtime_error ''Wrong major version'')))"

section \<open>Parent blocks\<close>

definition BASE_TRANSACTION_SUFFIX :: bytes where
  "BASE_TRANSACTION_SUFFIX =
     [0xbc, 0x36, 0x78, 0x9e, 0x7a, 0x1e, 0x28, 0x14, 0x36, 0x46, 0x42, 0x29, 0x82, 0x8f, 0x81, 0x7d,
      0x66, 0x12, 0xf7, 0xb4, 0x77, 0xd6, 0x65, 0x91, 0xff, 0x96, 0xa9, 0xe0, 0x64, 0xbc, 0xc9, 0x8a] @
     replicate 32 0"

definition get_base_transaction_hash :: "crypto_env \<Rightarrow> transaction_prefix \<Rightarrow> hash" where
  "get_base_transaction_hash env tx =
     (if tx_version tx < 2 then cn_fast_hash env (to_binary enc_base_transaction tx)
      else cn_fast_hash env (cn_fast_hash env (to_binary enc_prefix tx) @ BASE_TRANSACTION_SUFFIX))"

text \<open>
  Writing a \<open>ParentBlockSerializer\<close>.  It also holds the timestamp and the nonce of the block;
  for hashing the Merkle root of the parent's transactions goes in.
\<close>

definition enc_parent_block :: "crypto_env \<Rightarrow> bool \<Rightarrow> bool \<Rightarrow> block_template \<Rightarrow> bytes result" where
  "enc_parent_block env hashing_serialization header_only b =
     (let p = bt_parent_block b;
          tx_num = ucast (pb_transaction_count p) :: u64;
          merkle_root = (if hashing_serialization
            then tree_hash_from_branch env (pb_base_transaction_branch p)
              (get_base_transaction_hash env (pb_base_transaction p)) None
            else []);
          header = enc_u8 (pb_major_version p) @ enc_u8 (pb_minor_version p) @ enc_u32 (bh_timestamp b) @
            pb_previous_block_hash p @ enc_nonce (bh_nonce b) @ merkle_root @ enc_u64 tx_num
      in
      if pb_transaction_count p < 1 then Inl (Runtime_error ''Wrong transactions number'')
      else if header_only then Inr header
      else if length (pb_base_transaction_branch p) \<noteq> tree_depth tx_num
      then Inl (Runtime_error ''Wrong miner transaction branch size'')
      else case get_merge_mining_tag_from_extra (tx_extra (pb_base_transaction p)) of
          None \<Rightarrow> Inl (Runtime_error ''Can't get extra merge mining tag'')
        | Some mm_tag \<Rightarrow>
            if unat (mm_depth mm_tag) > 8 * 32 then Inl (Runtime_error ''Wrong merge mining tag depth'')
            else if unat (mm_depth mm_tag) \<noteq> length (pb_blockchain_branch p)
            then Inl (Runtime_error ''Blockchain branch size must be equal to merge mining tag depth'')
            else Inr (header @ enc_items (\<lambda>h. h) (pb_base_transaction_branch p) @
              enc_base_transaction (pb_base_transaction p) @ enc_items (\<lambda>h. h) (pb_blockchain_branch p)))"

text \<open>Reading one into a block whose header has been read.  The number of transactions is cut to 16 bits.\<close>

definition dec_parent_block :: "block_template \<Rightarrow> bytes \<Rightarrow> (block_template \<times> bytes) result" where
  "dec_parent_block b s =
     res_bind (dec_u8 s) (\<lambda>(major, s1).
     res_bind (dec_u8 s1) (\<lambda>(minor, s2).
     res_bind (dec_u32 s2) (\<lambda>(timestamp, s3).
     res_bind (dec_binary 32 s3) (\<lambda>(prev, s4).
     res_bind (dec_nonce s4) (\<lambda>(nonce, s5).
     res_bind (dec_u64 s5) (\<lambda>(tx_num, s6).
     let transaction_count = ucast tx_num :: u16 in
     if transaction_count < 1 then Inl (Runtime_error ''Wrong transactions number'')
     else
       res_bind (dec_items (dec_binary 32) (tree_depth (ucast transaction_count)) s6) (\<lambda>(branch, s7).
       res_bind (dec_base_transaction s7) (\<lambda>(base, s8).
       case get_merge_mining_tag_from_extra (tx_extra base) of
         None \<Rightarrow> Inl (Runtime_error ''Can't get extra merge mining tag'')
       | Some mm_tag \<Rightarrow>
           if unat (mm_depth mm_tag) > 8 * 32 then Inl (Runtime_error ''Wrong merge mining tag depth'')
           else res_bind (dec_items (dec_binary 32) (unat (mm_depth mm_tag)) s8) (\<lambda>(chain_branch, s9).
             Inr (b\<lparr>bh_timestamp := timestamp, bh_nonce := nonce,
               bt_parent_block := \<lparr>pb_major_version = major, pb_minor_version = minor,
                 pb_previous_block_hash = prev, pb_transaction_count = transaction_count,
                 pb_base_transaction_branch = branch, pb_base_transaction = base,
                 pb_blockchain_branch = chain_branch\<rparr>\<rparr>, s9))))))))))"

text \<open>\<open>ParentBlock\<close> with its own members; only its size is used.\<close>

definition enc_parent_block_plain :: "parent_block \<Rightarrow> bytes" where
  "enc_parent_block_plain p =
     enc_u8 (pb_major_version p) @ enc_u8 (pb_minor_version p) @ pb_previous_block_hash p @
     enc_u64 (ucast (pb_transaction_count p)) @ enc_vector (\<lambda>h. h) (pb_base_transaction_branch p) @
     enc_base_transaction (pb_base_transaction p) @ enc_vector (\<lambda>h. h) (pb_blockchain_branch p)"

section \<open>Block templates\<close>

definition enc_block_template :: "crypto_env \<Rightarrow> block_template \<Rightarrow> bytes result" where
  "enc_block_template env b =
     res_bind (enc_block_header b) (\<lambda>header.
     res_bind (if bh_major_version b \<ge> 2 then enc_parent_block env False False b else Inr []) (\<lambda>parent.
     res_bind (enc_transaction (bt_base_transaction b)) (\<lambda>base.
     Inr (header @ parent @ base @ enc_vector (\<lambda>h. h) (bt_transaction_hashes b)))))"

definition dec_block_template :: "bytes \<Rightarrow> (block_template \<times> bytes) result" where
  "dec_block_template s =
     res_bind (dec_block_header s) (\<lambda>(b, s1).
     res_bind (if bh_major_version b \<ge> 2 then dec_parent_block b s1 else Inr (b, s1)) (\<lambda>(b, s2).
     res_bind (dec_transaction s2) (\<lambda>(base, s3).
     res_bind (dec_vector (dec_binary 32) s3) (\<lambda>(hashes, s4).
     Inr (b\<lparr>bt_base_transaction := base, bt_transaction_hashes := hashes\<rparr>, s4)))))"

section \<open>Hashes of a block\<close>

definition get_transaction_hash :: "crypto_env \<Rightarrow> transaction \<Rightarrow> hash result" where
  "get_transaction_hash env tx = res_bind (enc_transaction tx) (\<lambda>ba. Inr (cn_fast_hash env ba))"

definition get_transaction_tree_hash :: "crypto_env \<Rightarrow> block_template \<Rightarrow> hash result" where
  "get_transaction_tree_hash env b =
     res_bind (get_transaction_hash env (bt_base_transaction b)) (\<lambda>h.
     Inr (tree_hash env (h # bt_transaction_hashes b)))"

definition get_block_hashing_binary_array :: "crypto_env \<Rightarrow> block_template \<Rightarrow> bytes result" where
  "get_block_hashing_binary_array env b =
     res_bind (enc_block_header b) (\<lambda>ba.
     res_bind (get_transaction_tree_hash env b) (\<lambda>root.
     Inr (ba @ root @ write_varint (word_of_nat (length (bt_transaction_hashes b)) + 1))))"

text \<open>\<open>get_object_hash\<close> of a byte array hashes it with its size in front.\<close>

definition get_block_hash :: "crypto_env \<Rightarrow> block_template \<Rightarrow> hash result" where
  "get_block_hash env b =
     res_bind (get_block_hashing_binary_array env b) (\<lambda>ba.
     res_bind (if bh_major_version b \<ge> 2 then enc_parent_block env True False b else Inr []) (\<lambda>parent.
     Inr (cn_fast_hash env (to_binary enc_bytes (ba @ parent)))))"

definition get_auxiliary_block_header_hash :: "crypto_env \<Rightarrow> block_template \<Rightarrow> hash result" where
  "get_auxiliary_block_header_hash env b =
     res_bind (get_block_hashing_binary_array env b) (\<lambda>ba. Inr (cn_fast_hash env (to_binary enc_bytes ba)))"

definition get_block_long_hash :: "crypto_env \<Rightarrow> block_template \<Rightarrow> hash result" where
  "get_block_long_hash env b =
     (if bh_major_version b = 1 then
        res_bind (get_block_hashing_binary_array env b) (\<lambda>raw. Inr (cn_slow_hash env raw))
      else if bh_major_version b \<ge> 2 \<and> bh_major_version b < 4 then
        res_bind (enc_parent_block env True True b) (\<lambda>raw. Inr (cn_slow_hash env raw))
      else if bh_major_version b \<ge> 4 then
        res_bind (enc_parent_block env True True b) (\<lambda>raw. Inr (cn_lite_slow_hash_v1 env raw))
      else Inl (Runtime_error ''Unknown block major version.''))"

definition fix_merge_mining_tag :: "crypto_env \<Rightarrow> block_template \<Rightarrow> block_template result" where
  "fix_merge_mining_tag env b =
     (if bh_major_version b \<ge> 2 then
        let p = bt_parent_block b;
            b = b\<lparr>bt_parent_block := p\<lparr>pb_base_transaction := (pb_base_transaction p)\<lparr>tx_extra := []\<rparr>\<rparr>\<rparr>
        in res_bind (get_auxiliary_block_header_hash env b) (\<lambda>root.
          let p = bt_parent_block b in
          Inr (b\<lparr>bt_parent_block := p\<lparr>pb_base_transaction := (pb_base_transaction p)\<lparr>tx_extra :=
            append_merge_mining_tag_to_extra (tx_extra (pb_base_transaction p))
              \<lparr>mm_depth = 0, mm_merkle_root = root\<rparr>\<rparr>\<rparr>\<rparr>))
      else Inr b)"

section \<open>Proof of work\<close>

definition check_proof_of_work_v1 :: "hash \<Rightarrow> block_template \<Rightarrow> difficulty \<Rightarrow> bool" where
  "check_proof_of_work_v1 long_block_hash b current_difficulty =
     (if bh_major_version b \<noteq> 1 then False else check_hash long_block_hash current_difficulty)"

definition check_proof_of_work_v2 ::
  "crypto_env \<Rightarrow> currency \<Rightarrow> hash \<Rightarrow> block_template \<Rightarrow> difficulty \<Rightarrow> bool result" where
  "check_proof_of_work_v2 env c long_block_hash b current_difficulty =
     (if bh_major_version b < 2 then Inr False
      else case get_merge_mining_tag_from_extra (tx_extra (pb_base_transaction (bt_parent_block b))) of
          None \<Rightarrow> Inr False
        | Some mm_tag \<Rightarrow>
            let branch = pb_blockchain_branch (bt_parent_block b) in
            if 8 * 32 < length branch then Inr False
            else res_bind (get_auxiliary_block_header_hash env b) (\<lambda>aux.
              let aux_blocks_merkle_root = tree_hash_from_branch env branch aux (Some (cy_genesis_block_hash c)) in
              Inr (if aux_blocks_merkle_root \<noteq> mm_merkle_root mm_tag then False
                   else if \<not> check_hash long_block_hash current_difficulty then False else True)))"

definition check_proof_of_work ::
  "crypto_env \<Rightarrow> currency \<Rightarrow> hash \<Rightarrow> block_template \<Rightarrow> difficulty \<Rightarrow> bool result" where
  "check_proof_of_work env c long_block_hash b current_difficulty =
     (if bh_major_version b = 1 then Inr (check_proof_of_work_v1 long_block_hash b current_difficulty)
      else if bh_major_version b \<in> {2, 3, 4}
      then check_proof_of_work_v2 env c long_block_hash b current_difficulty
      else Inr False)"

section \<open>Raw and prepared blocks\<close>

text \<open>
  \<open>Block::from_raw_block\<close>: whether the block was read, and what is in it then.  Bytes after
  the template raise when the header has been filled already; \<open>None\<close> is a header that was
  left half filled, which is not modelled further.
\<close>

fun parse_transactions :: "bytes list \<Rightarrow> bool \<times> transaction list" where
  "parse_transactions [] = (True, [])"
| "parse_transactions (raw # raws) =
     (case from_binary dec_transaction raw of
        Inl _ \<Rightarrow> (False, [])
      | Inr tx \<Rightarrow> (let (ok, txs) = parse_transactions raws in (ok, tx # txs)))"

definition from_raw_block :: "raw_block \<Rightarrow> bool \<times> block option" where
  "from_raw_block raw =
     (case dec_block_template (rb_block raw) of
        Inl _ \<Rightarrow> (False, None)
      | Inr (header, rest) \<Rightarrow>
          if rest \<noteq> [] then (False, Some \<lparr>blk_header = header, blk_transactions = []\<rparr>)
          else (let (ok, txs) = parse_transactions (rb_transactions raw)
                in (ok, Some \<lparr>blk_header = header, blk_transactions = txs\<rparr>)))"

fun write_transactions :: "transaction list \<Rightarrow> bytes list result" where
  "write_transactions [] = Inr []"
| "write_transactions (tx # txs) =
     res_bind (enc_transaction tx) (\<lambda>ba. res_bind (write_transactions txs) (\<lambda>bas. Inr (ba # bas)))"

definition to_raw_block :: "crypto_env \<Rightarrow> block \<Rightarrow> raw_block option" where
  "to_raw_block env b =
     (case res_bind (enc_block_template env (blk_header b)) (\<lambda>header.
        res_bind (write_transactions (blk_transactions b)) (\<lambda>txs.
        Inr \<lparr>rb_block = header, rb_transactions = txs\<rparr>)) of
      Inl _ \<Rightarrow> None | Inr raw \<Rightarrow> Some raw)"

record prepared_block =
  pp_block_data :: bytes
  pp_raw_block :: raw_block
  pp_block :: block
  pp_bid :: hash
  pp_base_transaction_hash :: hash
  pp_coinbase_tx_size :: nat
  pp_parent_block_size :: nat
  pp_long_block_hash :: hash

text \<open>
  The constructors of \<open>PreparedBlock\<close>, from a raw block and from its bytes.  They go on
  when the block could not be read; \<open>Inr None\<close> stands for the half filled header.
\<close>

definition prepare_block :: "crypto_env \<Rightarrow> bool \<Rightarrow> raw_block \<Rightarrow> prepared_block option result" where
  "prepare_block env has_context raw =
     (case from_raw_block raw of
        (_, None) \<Rightarrow> Inr None
      | (ok, Some b) \<Rightarrow>
          let header = blk_header b in
          res_bind (if ok then get_block_hash env header else Inr null_hash) (\<lambda>bid.
          res_bind (enc_transaction (bt_base_transaction header)) (\<lambda>coinbase.
          res_bind (get_transaction_hash env (bt_base_transaction header)) (\<lambda>base_hash.
          res_bind (if has_context then get_block_long_hash env header else Inr null_hash) (\<lambda>long_hash.
          Inr (Some \<lparr>pp_block_data = to_binary enc_raw_block raw, pp_raw_block = raw, pp_block = b, pp_bid = bid,
            pp_base_transaction_hash = base_hash, pp_coinbase_tx_size = length coinbase,
            pp_parent_block_size = (if bh_major_version header \<ge> 2
              then length (enc_parent_block_plain (bt_parent_block header)) else 0),
            pp_long_block_hash = long_hash\<rparr>))))))"

definition prepare_block_data :: "crypto_env \<Rightarrow> bool \<Rightarrow> bytes \<Rightarrow> prepared_block option result" where
  "prepare_block_data env has_context block_data =
     res_bind (from_binary dec_raw_block block_data) (prepare_block env has_context)"

section \<open>Round trips\<close>

lemma nonce_bytes: "nonce_of_bytes (enc_nonce n) = n"
proof (rule bit_word_eqI)
  fix k
  assume "k < LENGTH(32)"
  then show "bit (nonce_of_bytes (enc_nonce n)) k = bit n k"
    by (cases "k < 8"; cases "k < 16"; cases "k < 24") (auto simp: nonce_of_bytes_def enc_nonce_def bit_simps)
qed

lemma dec_enc_nonce [codec_enc]: "dec_nonce (enc_nonce n @ r) = Inr (n, r)"
proof -
  have "length (enc_nonce n) = 4" by (simp add: enc_nonce_def)
  then show ?thesis by (simp add: dec_nonce_def dec_binary_def stream_read_eq nonce_bytes)
qed

lemma version_bounds: "\<not> (2 :: u8) \<le> 1"
  by (simp add: word_le_nat_alt)

definition valid_parent_block :: "parent_block \<Rightarrow> bool" where
  "valid_parent_block p \<longleftrightarrow> pod32 (pb_previous_block_hash p) \<and> pb_transaction_count p \<ge> 1 \<and>
     length (pb_base_transaction_branch p) = tree_depth (ucast (pb_transaction_count p)) \<and>
     list_all pod32 (pb_base_transaction_branch p) \<and> valid_prefix (pb_base_transaction p) \<and>
     list_all pod32 (pb_blockchain_branch p) \<and>
     (case get_merge_mining_tag_from_extra (tx_extra (pb_base_transaction p)) of
        None \<Rightarrow> False
      | Some t \<Rightarrow> unat (mm_depth t) \<le> 256 \<and> unat (mm_depth t) = length (pb_blockchain_branch p))"

definition valid_block_template :: "block_template \<Rightarrow> bool" where
  "valid_block_template b \<longleftrightarrow> pod32 (bh_previous_block_hash b) \<and> bh_major_version b \<ge> 1 \<and>
     (if bh_major_version b = 1 then bt_parent_block b = empty_parent_block
      else valid_parent_block (bt_parent_block b)) \<and>
     valid_transaction (bt_base_transaction b) \<and> valid_vector pod32 (bt_transaction_hashes b)"

lemma dec_enc_header_v1:
  assumes "bh_major_version b = 1" "pod32 (bh_previous_block_hash b)"
  shows "\<exists>h. enc_block_header b = Inr h \<and> dec_block_header (h @ r) =
    Inr (empty_block_template\<lparr>bh_major_version := 1, bh_minor_version := bh_minor_version b,
      bh_timestamp := bh_timestamp b, bh_previous_block_hash := bh_previous_block_hash b,
      bh_nonce := bh_nonce b\<rparr>, r)"
  using assms by (simp add: enc_block_header_def dec_block_header_def codec_enc)

lemma dec_enc_header_v2:
  assumes "bh_major_version b \<ge> 2" "pod32 (bh_previous_block_hash b)"
  shows "\<exists>h. enc_block_header b = Inr h \<and> dec_block_header (h @ r) =
    Inr (empty_block_template\<lparr>bh_major_version := bh_major_version b, bh_minor_version := bh_minor_version b,
      bh_previous_block_hash := bh_previous_block_hash b\<rparr>, r)"
proof -
  have "bh_major_version b \<noteq> 1" using assms(1) version_bounds by metis
  with assms show ?thesis by (simp add: enc_block_header_def dec_block_header_def codec_enc)
qed

lemma dec_enc_parent:
  assumes "valid_parent_block (bt_parent_block b)"
  shows "\<exists>bs. enc_parent_block env False False b = Inr bs \<and>
    dec_parent_block b' (bs @ r) = Inr (b'\<lparr>bh_timestamp := bh_timestamp b, bh_nonce := bh_nonce b,
      bt_parent_block := bt_parent_block b\<rparr>, r)"
proof -
  define p where "p = bt_parent_block b"
  have u: "(ucast (ucast (pb_transaction_count p) :: u64) :: u16) = pb_transaction_count p" by simp
  have v: "valid_parent_block p" using assms by (simp add: p_def)
  then obtain t where t: "get_merge_mining_tag_from_extra (tx_extra (pb_base_transaction p)) = Some t"
    "unat (mm_depth t) \<le> 256" "unat (mm_depth t) = length (pb_blockchain_branch p)"
    by (auto simp: valid_parent_block_def split: option.splits)
  have "(n \<ge> 1) = (\<not> n < 1)" for n :: u16 by (simp only: not_less)
  with v have v': "pod32 (pb_previous_block_hash p)" "\<not> pb_transaction_count p < 1" "valid_prefix (pb_base_transaction p)"
    "list_all pod32 (pb_base_transaction_branch p)" "list_all pod32 (pb_blockchain_branch p)"
    "tree_depth (ucast (pb_transaction_count p)) = length (pb_base_transaction_branch p)"
    by (simp_all only: valid_parent_block_def, simp_all)
  define bs where "bs = (enc_u8 (pb_major_version p) @ enc_u8 (pb_minor_version p) @ enc_u32 (bh_timestamp b) @
            pb_previous_block_hash p @ enc_nonce (bh_nonce b) @ [] @ enc_u64 (ucast (pb_transaction_count p))) @
     enc_items (\<lambda>h. h) (pb_base_transaction_branch p) @
              enc_base_transaction (pb_base_transaction p) @ enc_items (\<lambda>h. h) (pb_blockchain_branch p)"
  have "enc_parent_block env False False b = Inr bs"
    using v' t unfolding enc_parent_block_def p_def [symmetric] Let_def bs_def by simp
  moreover have "dec_parent_block b' (bs @ r) = Inr (b'\<lparr>bh_timestamp := bh_timestamp b, bh_nonce := bh_nonce b,
      bt_parent_block := p\<rparr>, r)"
    using v' t hash32.dec_enc_items [OF v'(4)] hash32.dec_enc_items [OF v'(5)]
    unfolding bs_def dec_parent_block_def Let_def append_assoc
    by (simp add: codec_enc u base_transaction.dec_enc)
  ultimately show ?thesis by (auto simp: p_def)
qed

lemma block_template_fields:
  "bh_major_version b = 1 \<Longrightarrow> bt_parent_block b = empty_parent_block \<Longrightarrow>
     empty_block_template\<lparr>bh_major_version := 1, bh_minor_version := bh_minor_version b,
       bh_timestamp := bh_timestamp b, bh_previous_block_hash := bh_previous_block_hash b,
       bh_nonce := bh_nonce b, bt_base_transaction := bt_base_transaction b,
       bt_transaction_hashes := bt_transaction_hashes b\<rparr> = b"
  by (cases b) (simp add: empty_block_template_def)

lemma block_template_fields_v2:
  "empty_block_template\<lparr>bh_major_version := bh_major_version b, bh_minor_version := bh_minor_version b,
       bh_previous_block_hash := bh_previous_block_hash b,
       bh_timestamp := bh_timestamp b, bh_nonce := bh_nonce b, bt_parent_block := bt_parent_block b,
       bt_base_transaction := bt_base_transaction b, bt_transaction_hashes := bt_transaction_hashes b\<rparr> = b"
  by (cases b) (simp add: empty_block_template_def)

interpretation hashes: canonical_codec "enc_vector (\<lambda>h. h)" "dec_vector (dec_binary 32)" "valid_vector pod32"
  by (rule hash32.canonical_vector)

lemma dec_enc_block_template:
  assumes "valid_block_template b"
  shows "\<exists>bs. enc_block_template env b = Inr bs \<and> (\<forall>r. dec_block_template (bs @ r) = Inr (b, r))"
proof -
  define tail where "tail = (enc_prefix (bt_base_transaction b) @ signature_bytes (tx_signatures (bt_base_transaction b))) @
    enc_vector (\<lambda>h. h) (bt_transaction_hashes b)"
  have v: "pod32 (bh_previous_block_hash b)" "valid_transaction (bt_base_transaction b)"
    "valid_vector pod32 (bt_transaction_hashes b)"
    using assms by (simp_all add: valid_block_template_def)
  have tail: "res_bind (dec_transaction (tail @ r)) (\<lambda>(base, s3). res_bind (dec_vector (dec_binary 32) s3) (\<lambda>(hashes, s4).
      Inr (x\<lparr>bt_base_transaction := base, bt_transaction_hashes := hashes\<rparr>, s4))) =
      Inr (x\<lparr>bt_base_transaction := bt_base_transaction b, bt_transaction_hashes := bt_transaction_hashes b\<rparr>, r)" for x r
    unfolding tail_def append_assoc [of _ "enc_vector _ _" r] transaction.dec_enc [OF v(2)]
    by (simp add: hashes.dec_enc [OF v(3)])
  show ?thesis
  proof (cases "bh_major_version b = 1")
    case True
    then have p: "bt_parent_block b = empty_parent_block" using assms by (simp add: valid_block_template_def)
    from dec_enc_header_v1 [OF True v(1)] obtain h where
      h: "enc_block_header b = Inr h" by blast
    have d: "dec_block_header (h @ s) = Inr (empty_block_template\<lparr>bh_major_version := 1,
      bh_minor_version := bh_minor_version b, bh_timestamp := bh_timestamp b,
      bh_previous_block_hash := bh_previous_block_hash b, bh_nonce := bh_nonce b\<rparr>, s)" for s
      using dec_enc_header_v1 [OF True v(1), of s] h by auto
    have "enc_block_template env b = Inr (h @ tail)"
      using True v by (simp add: enc_block_template_def h enc_transaction_valid version_bounds tail_def)
    moreover have "dec_block_template ((h @ tail) @ r) = Inr (b, r)" for r
      using block_template_fields [OF True p] unfolding dec_block_template_def append_assoc [of h] d
      by (simp add: tail version_bounds)
    ultimately show ?thesis by blast
  next
    case False
    then have maj: "bh_major_version b \<ge> 2"
      using assms unfolding valid_block_template_def word_le_nat_alt word_unat_eq_iff by simp
    have p: "valid_parent_block (bt_parent_block b)" using assms False by (simp add: valid_block_template_def)
    obtain h where h: "enc_block_header b = Inr h" using dec_enc_header_v2 [OF maj v(1)] by blast
    have d: "dec_block_header (h @ s) = Inr (empty_block_template\<lparr>bh_major_version := bh_major_version b,
      bh_minor_version := bh_minor_version b, bh_previous_block_hash := bh_previous_block_hash b\<rparr>, s)" for s
      using dec_enc_header_v2 [OF maj v(1), of s] h by auto
    obtain bs where bs: "enc_parent_block env False False b = Inr bs" using dec_enc_parent [OF p] by blast
    have e: "dec_parent_block x (bs @ s) = Inr (x\<lparr>bh_timestamp := bh_timestamp b, bh_nonce := bh_nonce b,
      bt_parent_block := bt_parent_block b\<rparr>, s)" for x s
      using dec_enc_parent [OF p, of env x s] bs by auto
    have "enc_block_template env b = Inr (h @ bs @ tail)"
      using maj v by (simp add: enc_block_template_def h bs enc_transaction_valid tail_def)
    moreover have "dec_block_template ((h @ bs @ tail) @ r) = Inr (b, r)" for r
      using block_template_fields_v2 [of b] maj unfolding dec_block_template_def append_assoc [of h] append_assoc [of bs] d
      by (simp add: tail e)
    ultimately show ?thesis by blast
  qed
qed

section \<open>Blocks\<close>

lemma parse_write_transactions:
  "list_all valid_transaction txs \<Longrightarrow>
     \<exists>raws. write_transactions txs = Inr raws \<and> parse_transactions raws = (True, txs)"
proof (induction txs)
  case Nil
  then show ?case by simp
next
  case (Cons tx txs)
  from Cons.prems have "valid_transaction tx" by simp
  with transaction.from_to_binary [of tx]
  have "from_binary dec_transaction (enc_prefix tx @ signature_bytes (tx_signatures tx)) = Inr tx"
    by (simp add: to_binary_def)
  with Cons \<open>valid_transaction tx\<close> show ?case by (auto simp: enc_transaction_valid)
qed

text \<open>
  C30: a block with valid parts can be turned into a raw block, and is read back from it as it was.
\<close>

theorem block_raw_roundtrip:
  assumes "valid_block_template (blk_header b)" "list_all valid_transaction (blk_transactions b)"
  shows "\<exists>raw. to_raw_block env b = Some raw \<and> from_raw_block raw = (True, Some b)"
proof -
  obtain bs where bs: "enc_block_template env (blk_header b) = Inr bs"
    "\<And>r. dec_block_template (bs @ r) = Inr (blk_header b, r)"
    using dec_enc_block_template [OF assms(1)] by blast
  obtain raws where "write_transactions (blk_transactions b) = Inr raws"
    "parse_transactions raws = (True, blk_transactions b)"
    using parse_write_transactions [OF assms(2)] by blast
  with bs(1) bs(2) [of "[]"] show ?thesis by (simp add: to_raw_block_def from_raw_block_def)
qed

text \<open>
  C31: bytes behind the template of a block without transactions make \<open>from_raw_block\<close> fail
  only after the block has been filled: the prepared block is the same, with the same proof of
  work, but its hash is the null hash.
\<close>

theorem prepare_block_excess_bytes:
  assumes "valid_block_template (blk_header b)" "blk_transactions b = []"
    and "to_raw_block env b = Some raw" "excess \<noteq> []"
    and "prepare_block env has_context raw = Inr (Some p)"
  shows "\<exists>q. prepare_block env has_context (raw\<lparr>rb_block := rb_block raw @ excess\<rparr>) = Inr (Some q) \<and>
    pp_bid q = null_hash \<and> pp_block q = b \<and> pp_block p = b \<and>
    pp_base_transaction_hash q = pp_base_transaction_hash p \<and> pp_coinbase_tx_size q = pp_coinbase_tx_size p \<and>
    pp_parent_block_size q = pp_parent_block_size p \<and> pp_long_block_hash q = pp_long_block_hash p"
proof -
  obtain bs where bs: "enc_block_template env (blk_header b) = Inr bs"
    "\<And>r. dec_block_template (bs @ r) = Inr (blk_header b, r)"
    using dec_enc_block_template [OF assms(1)] by blast
  with assms(2,3) have raw: "raw = \<lparr>rb_block = bs, rb_transactions = []\<rparr>" by (simp add: to_raw_block_def)
  have b: "\<lparr>blk_header = blk_header b, blk_transactions = []\<rparr> = b" using assms(2) by (cases b) simp
  from bs(2) [of "[]"] have p: "from_raw_block raw = (True, Some b)"
    by (simp add: raw from_raw_block_def b)
  have q: "from_raw_block (raw\<lparr>rb_block := rb_block raw @ excess\<rparr>) = (False, Some b)"
    using assms(4) by (simp add: raw from_raw_block_def bs b)
  from assms(5) show ?thesis
    unfolding prepare_block_def p q by (auto simp: Let_def res_bind_eq_Inr)
qed

text \<open>A small valid block, for the examples.\<close>

definition sample_template :: block_template where
  "sample_template = empty_block_template\<lparr>bh_major_version := 1, bh_timestamp := 7, bh_nonce := 70000\<rparr>"

definition sample_raw :: raw_block where
  "sample_raw = \<lparr>rb_block = [1, 0, 7] @ null_hash @ [112, 17, 1, 0] @ [0, 0, 0, 0, 0] @ [0], rb_transactions = []\<rparr>"

definition sample_empty_block :: block where
  "sample_empty_block = \<lparr>blk_header = sample_template, blk_transactions = []\<rparr>"

lemmas sample_defs = sample_empty_block_def sample_template_def empty_block_template_def empty_parent_block_def empty_prefix_def null_hash_def

lemma write_varint_small: "v < 128 \<Longrightarrow> write_varint v = [ucast v]"
  by (subst write_varint.simps) (auto simp: leD)

lemma sample_block_valid: "valid_block_template (blk_header sample_empty_block)" "blk_transactions sample_empty_block = []"
  by (simp_all add: sample_defs valid_block_template_def valid_transaction_def valid_prefix_def valid_vector_def fits64_def pod32_def sig_size_def is_base_def)

lemma sample_block_raw: "to_raw_block sample_env sample_empty_block = Some sample_raw"
  by (simp add: sample_defs to_raw_block_def enc_block_template_def enc_block_header_def
   enc_transaction_def sig_size_def is_base_def enc_prefix_def enc_vector_def enc_bytes_def sample_raw_def version_bounds
   enc_nonce_def enc_u8_def enc_u32_def enc_u64_def write_varint_small)

lemma sample_block_read: "from_raw_block sample_raw = (True, Some sample_empty_block)"
proof -
  obtain bs where bs: "enc_block_template sample_env (blk_header sample_empty_block) = Inr bs"
    "\<And>r. dec_block_template (bs @ r) = Inr (blk_header sample_empty_block, r)"
    using dec_enc_block_template [OF sample_block_valid(1)] by blast
  moreover from this(1) sample_block_raw have "bs = rb_block sample_raw" "rb_transactions sample_raw = []"
    by (auto simp: to_raw_block_def sample_empty_block_def sample_raw_def)
  ultimately show ?thesis
    using bs(2) [of "[]"] by (simp add: from_raw_block_def sample_empty_block_def)
qed

theorem block_raw_roundtrip_witness:
  "to_raw_block sample_env sample_empty_block = Some sample_raw \<and> from_raw_block sample_raw = (True, Some sample_empty_block)"
  using block_raw_roundtrip [OF sample_block_valid(1), of sample_env] sample_block_raw sample_block_valid(2) by simp

theorem prepare_block_excess_bytes_witness:
  "\<exists>q. prepare_block sample_env True (sample_raw\<lparr>rb_block := rb_block sample_raw @ [0]\<rparr>) = Inr (Some q) \<and>
     pp_bid q = null_hash \<and> pp_block q = sample_empty_block"
proof -
  have "\<exists>p. prepare_block sample_env True sample_raw = Inr (Some p)"
    using sample_block_read
    by (simp add: sample_defs prepare_block_def Let_def get_block_hash_def get_block_hashing_binary_array_def
      get_transaction_tree_hash_def get_transaction_hash_def enc_block_header_def enc_transaction_def
      sig_size_def is_base_def version_bounds get_block_long_hash_def)
  then obtain p where "prepare_block sample_env True sample_raw = Inr (Some p)" by blast
  from prepare_block_excess_bytes [OF sample_block_valid sample_block_raw _ this, of "[0]"] show ?thesis by blast
qed

section \<open>Merge mining\<close>

lemma hashing_array_parent:
  "get_block_hashing_binary_array env (b\<lparr>bt_parent_block := p\<rparr>) = get_block_hashing_binary_array env b"
  by (simp add: get_block_hashing_binary_array_def enc_block_header_def get_transaction_tree_hash_def)

lemma mm_tag_found:
  assumes "valid_mm_tag t"
  shows "get_merge_mining_tag_from_extra (append_merge_mining_tag_to_extra [] t) = Some t"
  using transaction_extra_roundtrip_mm [OF assms] by (simp add: get_merge_mining_tag_from_extra_def)

text \<open>
  A block mined alone and given its own merge mining tag passes the merge mining part of the
  proof of work, whatever its parent block: what is left is the hash against the difficulty.
\<close>

lemma fix_merge_mining_tag_proof:
  assumes "\<And>x. pod32 (cn_fast_hash env x)" "fix_merge_mining_tag env b = Inr b'"
    and "bh_major_version b \<in> {2, 3, 4}" "pb_blockchain_branch (bt_parent_block b) = []"
  shows "check_proof_of_work env c long_hash b' d = Inr (check_hash long_hash d)"
proof -
  have v: "bh_major_version b \<ge> 2" "\<not> bh_major_version b < 2" "bh_major_version b \<noteq> 1"
    using assms(3) by (auto simp: word_le_nat_alt word_less_nat_alt)
  from assms(2) obtain root where root: "get_auxiliary_block_header_hash env b = Inr root"
    and b': "b' = b\<lparr>bt_parent_block := (bt_parent_block b)\<lparr>pb_base_transaction :=
      (pb_base_transaction (bt_parent_block b))\<lparr>tx_extra := append_merge_mining_tag_to_extra [] \<lparr>mm_depth = 0, mm_merkle_root = root\<rparr>\<rparr>\<rparr>\<rparr>"
    by (auto simp: fix_merge_mining_tag_def v Let_def res_bind_eq_Inr get_auxiliary_block_header_hash_def
        hashing_array_parent split: if_splits)
  have "pod32 root" using root assms(1) by (auto simp: get_auxiliary_block_header_hash_def res_bind_eq_Inr)
  then have tag: "get_merge_mining_tag_from_extra (append_merge_mining_tag_to_extra [] \<lparr>mm_depth = 0, mm_merkle_root = root\<rparr>) =
    Some \<lparr>mm_depth = 0, mm_merkle_root = root\<rparr>"
    by (intro mm_tag_found) (simp add: valid_mm_tag_def)
  have "get_auxiliary_block_header_hash env b' = Inr root"
    using root by (simp add: b' get_auxiliary_block_header_hash_def hashing_array_parent)
  then show ?thesis
    using assms(3,4) v by (auto simp: check_proof_of_work_def check_proof_of_work_v2_def b' tag Let_def
      tree_hash_from_branch_def)
qed

theorem fix_merge_mining_tag_proof_witness:
  "\<exists>b'. fix_merge_mining_tag sample_env (sample_template\<lparr>bh_major_version := 2\<rparr>) = Inr b' \<and>
     check_proof_of_work sample_env sample_currency null_hash b' 1 = Inr (check_hash null_hash 1)"
proof -
  let ?b = "sample_template\<lparr>bh_major_version := 2\<rparr>"
  have "\<exists>b'. fix_merge_mining_tag sample_env ?b = Inr b'"
    by (simp add: sample_defs fix_merge_mining_tag_def Let_def get_auxiliary_block_header_hash_def
      get_block_hashing_binary_array_def get_transaction_tree_hash_def get_transaction_hash_def enc_block_header_def
      enc_transaction_def sig_size_def is_base_def version_bounds)
  then obtain b' where b': "fix_merge_mining_tag sample_env ?b = Inr b'" by blast
  have e: "pod32 (cn_fast_hash sample_env x)" for x by (simp add: sample_env_def pod32_def)
  have "pb_blockchain_branch (bt_parent_block ?b) = []" by (simp add: sample_template_def empty_block_template_def empty_parent_block_def)
  with fix_merge_mining_tag_proof [OF e b'] b' show ?thesis by auto
qed

text \<open>
  The number of transactions of a parent block is read as 64 bits and cut to 16: different
  bytes give the same block.
\<close>

lemma parent_block_count_cut:
  assumes "pod32 prev"
  shows "dec_parent_block b (enc_u8 major @ enc_u8 minor @ enc_u32 timestamp @ prev @ enc_nonce nonce @
      enc_u64 (tx_num + 65536 * k) @ rest) =
    dec_parent_block b (enc_u8 major @ enc_u8 minor @ enc_u32 timestamp @ prev @ enc_nonce nonce @ enc_u64 tx_num @ rest)"
proof -
  have "65536 * unat k mod 2 ^ 64 mod 65536 = 0" by (simp add: mod_mod_cancel)
  then have "(unat tx_num + 65536 * unat k mod 2 ^ 64) mod 65536 = unat tx_num mod 65536"
    using mod_add_right_eq [of "unat tx_num" "65536 * unat k mod 2 ^ 64" 65536] by simp
  then have "(ucast (tx_num + 65536 * k) :: u16) = ucast tx_num"
    by (simp add: word_unat_eq_iff unat_word_ariths mod_mod_cancel)
  with assms show ?thesis by (simp add: dec_parent_block_def codec_enc)
qed

end
