(* ===== verification/Consensus.thy ===== *)
theory Consensus
  imports Chain_Headers Block_Format Tx_Rules
begin

text \<open>
  The rules a block obeys on top of another block (\<open>check_standalone_consensus\<close>,
  \<open>calculate_consensus_values\<close> and their helpers in \<open>Core/BlockChainState.cpp\<close>): sizes
  and medians, version, timestamps, the coinbase and its reward, the difficulty, checkpoints and
  the proof of work.  The clock of the machine is an argument.
\<close>

section \<open>Medians\<close>

definition calculate_consensus_values ::
  "currency \<Rightarrow> header_info \<Rightarrow> chain_state \<Rightarrow> ((u32 \<times> timestamp) \<times> chain_state) result" where
  "calculate_consensus_values c prev_info s =
     res_bind (get_tip_segment c prev_info (cy_reward_blocks_window c) True s) (\<lambda>(window, s).
     let next_median_size = median_value (map hi_block_size window);
         check_window = get_timestamp_check_window c (bc_tip_height s + 1)
     in
     res_bind (get_tip_segment c prev_info check_window False s) (\<lambda>(window, s).
     let next_median_timestamp =
           (if length window \<ge> unat check_window then median_value (map hi_timestamp window) else 0)
     in Inr ((next_median_size, next_median_timestamp), s)))"

definition tip_changed :: "currency \<Rightarrow> chain_state \<Rightarrow> chain_state result" where
  "tip_changed c s =
     res_bind (get_tip s) (\<lambda>tip.
     res_bind (calculate_consensus_values c tip s) (\<lambda>((median_size, median_timestamp), s).
     Inr (s\<lparr>cs_next_median_size := median_size, cs_next_median_timestamp := median_timestamp\<rparr>)))"

definition get_next_effective_median_size :: "currency \<Rightarrow> chain_state \<Rightarrow> u32" where
  "get_next_effective_median_size c s =
     (let next_major_version = get_block_major_version_for_height c (bc_tip_height s + 1);
          next_block_granted_full_reward_zone = block_granted_full_reward_zone_by_block_version c next_major_version
      in max (cs_next_median_size s) next_block_granted_full_reward_zone)"

section \<open>Genesis\<close>

definition fill_genesis :: "hash \<Rightarrow> block_template \<Rightarrow> header_info" where
  "fill_genesis genesis_bid g =
     empty_header_info\<lparr>hi_major_version := bh_major_version g, hi_minor_version := bh_minor_version g,
       hi_previous_block_hash := bh_previous_block_hash g, hi_timestamp := bh_timestamp g,
       hi_nonce := bh_nonce g, hi_hash := genesis_bid\<rparr>"

section \<open>The parts of the check\<close>

text \<open>The loop over the transactions with their raw bytes: an error or \<open>cumulative_size\<close>.\<close>

fun check_block_transactions ::
  "crypto_env \<Rightarrow> u32 \<Rightarrow> bytes list \<Rightarrow> transaction list \<Rightarrow> hash list \<Rightarrow> nat \<Rightarrow> (string + nat) result" where
  "check_block_transactions env max_size (raw # raws) (tx # txs) (h # hs) cumulative_size =
     (if length raw > unat max_size then Inr (Inl ''RAW_TRANSACTION_SIZE_TOO_BIG'')
      else res_bind (get_transaction_hash env tx) (\<lambda>tid.
        if tid \<noteq> h then Inr (Inl ''TRANSACTION_ABSENT_IN_POOL'')
        else check_block_transactions env max_size raws txs hs (cumulative_size + length raw)))"
| "check_block_transactions env max_size raws txs hs cumulative_size = Inr (Inr cumulative_size)"

text \<open>The difficulty of the next block from the last headers before it.\<close>

definition block_difficulty :: "currency \<Rightarrow> header_info \<Rightarrow> chain_state \<Rightarrow> (difficulty \<times> chain_state) result" where
  "block_difficulty c prev_info s =
     (let blocks_count = min (hi_height prev_info) (get_difficulty_blocks_count c (bc_tip_height s + 1)) in
      res_bind (get_tip_segment c prev_info blocks_count False s) (\<lambda>(window, s).
      res_bind (next_difficulty c (hi_height prev_info) (map hi_timestamp window)
          (map hi_cumulative_difficulty window)) (\<lambda>d.
      Inr (d, s))))"

fun cumulative_fee :: "transaction list \<Rightarrow> amount \<Rightarrow> amount option" where
  "cumulative_fee [] acc = Some acc"
| "cumulative_fee (tx # txs) acc =
     (case get_tx_fee_opt tx of None \<Rightarrow> None | Some fee \<Rightarrow> cumulative_fee txs (acc + fee))"

fun validate_transactions :: "crypto_env \<Rightarrow> bool \<Rightarrow> transaction list \<Rightarrow> string" where
  "validate_transactions env check_keys [] = []"
| "validate_transactions env check_keys (tx # txs) =
     (case validate_semantic env False tx check_keys of
        Inl e \<Rightarrow> if e \<noteq> [] then e else validate_transactions env check_keys txs
      | Inr _ \<Rightarrow> validate_transactions env check_keys txs)"

text \<open>The checks of the coinbase: an error, or \<open>miner_reward\<close>.\<close>

definition check_coinbase :: "crypto_env \<Rightarrow> currency \<Rightarrow> transaction \<Rightarrow> height \<Rightarrow> string + amount" where
  "check_coinbase env c base height =
     (if length (tx_inputs base) \<noteq> 1 then Inl ''INPUT_WRONG_COUNT''
      else case tx_inputs base ! 0 of
          KeyInput _ \<Rightarrow> Inl ''INPUT_UNEXPECTED_TYPE''
        | CoinbaseInput block_index \<Rightarrow>
            if block_index \<noteq> height then Inl ''BASE_INPUT_WRONG_BLOCK_INDEX''
            else if tx_unlock_time base \<noteq> ucast (height + cy_mined_money_unlock_window c)
            then Inl ''WRONG_TRANSACTION_UNLOCK_TIME''
            else validate_outputs env (\<not> is_in_sw_checkpoint_zone c height) (tx_outputs base) 0)"

text \<open>Version, parent block and timestamps: an error, empty if there is none.\<close>

definition check_header_rules ::
  "currency \<Rightarrow> timestamp \<Rightarrow> prepared_block \<Rightarrow> header_info \<Rightarrow> chain_state \<Rightarrow> string" where
  "check_header_rules c now pb info s =
     (let header = blk_header (pp_block pb) in
      if bh_major_version header \<noteq> get_block_major_version_for_height c (hi_height info) then ''WRONG_VERSION''
      else if bh_major_version header = 2 \<and> pb_major_version (bt_parent_block header) > 1
      then ''PARENT_BLOCK_WRONG_VERSION''
      else if bh_major_version header \<ge> 2 \<and> pp_parent_block_size pb > 2048 then ''PARENT_BLOCK_SIZE_TOO_BIG''
      else if bh_timestamp header > now + get_block_future_time_limit c (bc_tip_height s + 1)
      then ''TIMESTAMP_TOO_FAR_IN_FUTURE''
      else if bh_timestamp header < hi_timestamp_median info then ''TIMESTAMP_TOO_FAR_IN_PAST''
      else [])"

text \<open>The last part: checkpoints, or the proof of work.\<close>

definition check_block_work ::
  "crypto_env \<Rightarrow> currency \<Rightarrow> prepared_block \<Rightarrow> header_info \<Rightarrow> bool \<Rightarrow> string result" where
  "check_block_work env c pb info check_pow =
     (if is_in_sw_checkpoint_zone c (hi_height info) then
        (if \<not> fst (check_sw_checkpoint c (hi_height info) (hi_hash info))
         then Inr ''CHECKPOINT_BLOCK_HASH_MISMATCH'' else Inr [])
      else if \<not> check_pow then Inr []
      else
        res_bind (if pp_long_block_hash pb \<noteq> null_hash then Inr (pp_long_block_hash pb)
          else get_block_long_hash env (blk_header (pp_block pb))) (\<lambda>long_hash.
        res_bind (check_proof_of_work env c long_hash (blk_header (pp_block pb)) (hi_difficulty info)) (\<lambda>ok.
        Inr (if \<not> ok then ''PROOF_OF_WORK_TOO_WEAK'' else []))))"

section \<open>The check\<close>

text \<open>
  The part after the difficulty: fees, reward, the transactions one by one and the work.  The
  error is empty if there is none; the header comes back with what the check fills in.
\<close>

definition check_block_reward ::
  "crypto_env \<Rightarrow> currency \<Rightarrow> prepared_block \<Rightarrow> header_info \<Rightarrow> header_info \<Rightarrow> nat \<Rightarrow> amount \<Rightarrow> bool \<Rightarrow>
     (string \<times> header_info) result" where
  "check_block_reward env c pb info prev_info cumulative_size miner_reward check_pow =
     (let txs = blk_transactions (pp_block pb); version = bh_major_version (blk_header (pp_block pb)) in
      case cumulative_fee txs 0 of
        None \<Rightarrow> Inr (''WRONG_AMOUNT'', info)
      | Some fee \<Rightarrow>
      let already_generated_coins = hi_already_generated_coins prev_info;
          median = ucast (hi_effective_size_median info) :: u64;
          base_reward = fst (get_block_reward c version median 0 already_generated_coins 0);
          (reward, emission_change) = get_block_reward c version median
            (ucast (hi_block_size info)) already_generated_coins fee;
          info = info\<lparr>hi_base_reward := base_reward, hi_reward := reward\<rparr>
      in
      if miner_reward \<noteq> reward then Inr (''BLOCK_REWARD_MISMATCH'', info)
      else
      let info = info\<lparr>hi_already_generated_coins := already_generated_coins + emission_change,
            hi_already_generated_transactions := hi_already_generated_transactions prev_info +
              word_of_nat (length txs) + 1,
            hi_total_fee_amount := fee, hi_transactions_cumulative_size := word_of_nat cumulative_size\<rparr>;
          e = validate_transactions env (\<not> is_in_sw_checkpoint_zone c (hi_height info)) txs
      in
      if e \<noteq> [] then Inr (e, info)
      else res_bind (check_block_work env c pb info check_pow) (\<lambda>e. Inr (e, info)))"

text \<open>The part after the loop over the sizes, from the size of the block on.\<close>

definition check_sized_block ::
  "crypto_env \<Rightarrow> currency \<Rightarrow> timestamp \<Rightarrow> prepared_block \<Rightarrow> header_info \<Rightarrow> header_info \<Rightarrow> nat \<Rightarrow> bool \<Rightarrow> chain_state \<Rightarrow>
     (string \<times> header_info \<times> chain_state) result" where
  "check_sized_block env c now pb info prev_info cumulative_size check_pow s =
     (let info = info\<lparr>hi_block_size := word_of_nat (pp_coinbase_tx_size pb + cumulative_size)\<rparr> in
      if hi_block_size info > max_block_cumulative_size c (hi_height info)
      then Inr (''CUMULATIVE_BLOCK_SIZE_TOO_BIG'', info, s)
      else let e = check_header_rules c now pb info s in
      if e \<noteq> [] then Inr (e, info, s)
      else case check_coinbase env c (bt_base_transaction (blk_header (pp_block pb))) (hi_height info) of
        Inl e \<Rightarrow> Inr (e, info, s)
      | Inr miner_reward \<Rightarrow>
      res_bind (block_difficulty c prev_info s) (\<lambda>(d, s).
      let info = info\<lparr>hi_difficulty := d, hi_cumulative_difficulty := hi_cumulative_difficulty prev_info + d\<rparr> in
      if d = 0 then Inr (''DIFFICULTY_OVERHEAD'', info, s)
      else res_bind (check_block_reward env c pb info prev_info cumulative_size miner_reward check_pow) (\<lambda>(e, info).
        Inr (e, info, s))))"

text \<open>The whole check, with the state, whose cache it may change.\<close>

definition check_standalone_consensus ::
  "crypto_env \<Rightarrow> currency \<Rightarrow> timestamp \<Rightarrow> prepared_block \<Rightarrow> header_info \<Rightarrow> header_info \<Rightarrow> bool \<Rightarrow> chain_state \<Rightarrow>
     (string \<times> header_info \<times> chain_state) result" where
  "check_standalone_consensus env c now pb info prev_info check_pow s =
     (let block = pp_block pb; header = blk_header block; raws = rb_transactions (pp_raw_block pb) in
      if length (blk_transactions block) \<noteq> length (bt_transaction_hashes header) \<or>
         length (blk_transactions block) \<noteq> length raws
      then Inr (''WRONG_TRANSACTIONS_COUNT'', info, s)
      else
      res_bind (if bc_tip_bid s \<noteq> hi_hash prev_info then calculate_consensus_values c prev_info s
        else Inr ((cs_next_median_size s, cs_next_median_timestamp s), s)) (\<lambda>((size_median, timestamp_median), s).
      let info = info\<lparr>hi_size_median := size_median, hi_timestamp_median := timestamp_median,
            hi_effective_size_median := max size_median
              (block_granted_full_reward_zone_by_block_version c (bh_major_version header))\<rparr>
      in
      res_bind (check_block_transactions env (max_transaction_allowed_size c (hi_effective_size_median info))
          raws (blk_transactions block) (bt_transaction_hashes header) 0) (\<lambda>sizes.
      case sizes of
        Inl e \<Rightarrow> Inr (e, info, s)
      | Inr cumulative_size \<Rightarrow> check_sized_block env c now pb info prev_info cumulative_size check_pow s)))"

section \<open>What the medians are\<close>

text \<open>The medians over the last blocks up to and with a block, by the headers of the database.\<close>

definition size_median_at :: "currency \<Rightarrow> 'a block_chain_scheme \<Rightarrow> header_info \<Rightarrow> u32" where
  "size_median_at c s h =
     median_value (map hi_block_size (rev (trail (header_of s) True (unat (cy_reward_blocks_window c)) h)))"

definition timestamp_median_at :: "currency \<Rightarrow> 'a block_chain_scheme \<Rightarrow> header_info \<Rightarrow> timestamp" where
  "timestamp_median_at c s h =
     (let n = unat (get_timestamp_check_window c (bc_tip_height s + 1));
          hs = trail (header_of s) False n h
      in if length hs \<ge> n then median_value (map hi_timestamp (rev hs)) else 0)"

lemma calculate_consensus_values_ok:
  assumes "headers_ok s" "tree_ok s" "header_of s bid = Some h"
  shows "\<exists>cache. calculate_consensus_values c h s =
      Inr ((size_median_at c s h, timestamp_median_at c s h), s\<lparr>bc_header_cache := cache\<rparr>) \<and>
    headers_ok (s\<lparr>bc_header_cache := cache\<rparr>)"
proof -
  let ?w = "get_timestamp_check_window c (bc_tip_height s + 1)"
  obtain c1 where c1: "get_tip_segment c h (cy_reward_blocks_window c) True s =
      Inr (rev (trail (header_of s) True (unat (cy_reward_blocks_window c)) h), s\<lparr>bc_header_cache := c1\<rparr>)"
    "headers_ok (s\<lparr>bc_header_cache := c1\<rparr>)"
    using get_tip_segment_ok [OF assms] by blast
  obtain c2 where c2: "get_tip_segment c h ?w False (s\<lparr>bc_header_cache := c1\<rparr>) =
      Inr (rev (trail (header_of s) False (unat ?w) h), s\<lparr>bc_header_cache := c2\<rparr>)"
    "headers_ok (s\<lparr>bc_header_cache := c2\<rparr>)"
    using get_tip_segment_ok [OF c1(2), of bid h c ?w False] assms by auto
  show ?thesis
    using c1 c2 by (intro exI [of _ c2])
      (simp add: calculate_consensus_values_def size_median_at_def timestamp_median_at_def Let_def)
qed

text \<open>The members \<open>tip_changed\<close> sets.\<close>

definition medians_ok :: "currency \<Rightarrow> chain_state \<Rightarrow> bool" where
  "medians_ok c s \<longleftrightarrow> (\<exists>h. header_of s (bc_tip_bid s) = Some h \<and>
     cs_next_median_size s = size_median_at c s h \<and> cs_next_median_timestamp s = timestamp_median_at c s h)"

lemma tip_changed_ok:
  assumes "headers_ok s" "tree_ok s" "bc_header_tip_window s \<noteq> []" "bc_tip_bid s = hi_hash (last (bc_header_tip_window s))"
  shows "\<exists>cache m n. tip_changed c s = Inr (s\<lparr>bc_header_cache := cache, cs_next_median_size := m, cs_next_median_timestamp := n\<rparr>) \<and>
    headers_ok (s\<lparr>bc_header_cache := cache, cs_next_median_size := m, cs_next_median_timestamp := n\<rparr>) \<and>
    medians_ok c (s\<lparr>bc_header_cache := cache, cs_next_median_size := m, cs_next_median_timestamp := n\<rparr>)"
proof -
  define h where "h = last (bc_header_tip_window s)"
  have tip: "get_tip s = Inr h" using assms(3,4) by (simp add: get_tip_def h_def)
  have h: "header_of s (bc_tip_bid s) = Some h"
    using headers_okD(5) [OF assms(1), of h] assms(3,4) by (simp add: h_def)
  obtain cache where cache: "calculate_consensus_values c h s =
      Inr ((size_median_at c s h, timestamp_median_at c s h), s\<lparr>bc_header_cache := cache\<rparr>)"
    "headers_ok (s\<lparr>bc_header_cache := cache\<rparr>)"
    using calculate_consensus_values_ok [OF assms(1,2) h] by blast
  have hd: "header_of (s\<lparr>bc_header_cache := cache, cs_next_median_size := m, cs_next_median_timestamp := n\<rparr>) = header_of s" for m n
    by (simp add: header_of_def fun_eq_iff)
  have "headers_ok (s\<lparr>bc_header_cache := cache, cs_next_median_size := m, cs_next_median_timestamp := n\<rparr>)" for m n
    using cache(2) by (simp add: headers_ok_def header_of_def)
  then show ?thesis
    using h by (intro exI [of _ cache] exI [of _ "size_median_at c s h"] exI [of _ "timestamp_median_at c s h"])
      (simp add: tip_changed_def tip cache medians_ok_def hd size_median_at_def timestamp_median_at_def)
qed

section \<open>The check changes nothing but the cache\<close>

lemma calculate_consensus_values_frame:
  "calculate_consensus_values c h s = Inr (r, s') \<Longrightarrow> same_but_cache s s'"
  by (auto simp: calculate_consensus_values_def res_bind_eq_Inr Let_def
    dest!: get_tip_segment_frame intro: same_but_cache_trans)

lemma block_difficulty_frame: "block_difficulty c h s = Inr (d, s') \<Longrightarrow> same_but_cache s s'"
  by (auto simp: block_difficulty_def res_bind_eq_Inr Let_def dest: get_tip_segment_frame)

end
