(* ===== verification/Block_Tree.thy ===== *)
theory Block_Tree
  imports Consensus
begin

text \<open>
  Operations on the block tree (\<open>Core/BlockChain.cpp\<close>): moving the tip of the current chain,
  the index of the leaves with their children counters, pruning a leaf, the common ancestor of
  two blocks, and what a peer asks about the chain.
\<close>

section \<open>The tip\<close>

definition drop_front :: "nat \<Rightarrow> 'a list \<Rightarrow> 'a list" where
  "drop_front n xs = (if length xs > n then drop (length xs - n) xs else xs)"

definition push_chain :: "currency \<Rightarrow> header_info \<Rightarrow> chain_state \<Rightarrow> chain_state result" where
  "push_chain c header s =
     (let s = s\<lparr>bc_tip_height := bc_tip_height s + 1\<rparr> in
      res_bind (db_put (bc_db s) (tip_chain_key (bc_tip_height s)) (hi_hash header) True) (\<lambda>db.
      let s = s\<lparr>bc_db := db, bc_tip_bid := hi_hash header,
            bc_tip_cumulative_difficulty := hi_cumulative_difficulty header\<rparr>;
          s = s\<lparr>bc_header_tip_window := drop_front (unat (largest_window c s * 2)) (bc_header_tip_window s @ [header])\<rparr>
      in tip_changed c s))"

definition pop_chain :: "currency \<Rightarrow> hash \<Rightarrow> chain_state \<Rightarrow> chain_state result" where
  "pop_chain c new_tip_bid s =
     res_bind (invariant (bc_tip_height s \<noteq> 0 \<and> bc_header_tip_window s \<noteq> []) ''pop_chain tip_height == 0'') (\<lambda>_.
     res_bind (db_del (bc_db s) (tip_chain_key (bc_tip_height s)) True) (\<lambda>db.
     let s = s\<lparr>bc_header_tip_window := butlast (bc_header_tip_window s), bc_db := db,
           bc_tip_height := bc_tip_height s - 1, bc_tip_bid := new_tip_bid\<rparr>
     in
     res_bind (get_chain (bc_tip_height s) s) (\<lambda>h.
     res_bind (invariant (h = bc_tip_bid s) (''After undo tip does not match read_chain '' @ to_hex (bc_tip_bid s))) (\<lambda>_.
     res_bind (if bc_header_tip_window s = []
       then res_bind (get_header c (bc_tip_bid s) 0 s) (\<lambda>(tip_header, s). Inr (s\<lparr>bc_header_tip_window := [tip_header]\<rparr>))
       else Inr s) (\<lambda>s.
     res_bind (get_tip s) (\<lambda>tip.
     Inr (s\<lparr>bc_tip_cumulative_difficulty := hi_cumulative_difficulty tip\<rparr>)))))))"

section \<open>Children and leaves\<close>

text \<open>\<open>x-ch/\<close> and \<open>x-tips/\<close>.\<close>

definition CHILDREN_PREFIX :: bytes where "CHILDREN_PREFIX = [0x78, 0x2d, 0x63, 0x68, 0x2f]"
definition CD_TIPS_PREFIX :: bytes where "CD_TIPS_PREFIX = [0x78, 0x2d, 0x74, 0x69, 0x70, 0x73, 0x2f]"

definition children_key :: "hash \<Rightarrow> bytes" where
  "children_key bid = CHILDREN_PREFIX @ bid"

definition cd_tips_key :: "difficulty \<Rightarrow> hash \<Rightarrow> bytes" where
  "cd_tips_key cd bid = CD_TIPS_PREFIX @ write_varint_sqlite4 cd @ bid"

text \<open>The counter as both functions read it: one when nothing is stored.\<close>

definition children_counter :: "hash \<Rightarrow> 'a block_chain_scheme \<Rightarrow> u32 result" where
  "children_counter bid s =
     (case db_get (bc_db s) (children_key bid) of None \<Rightarrow> Inr 1 | Some rb \<Rightarrow> from_binary dec_u32 rb)"

definition check_children_counter :: "difficulty \<Rightarrow> hash \<Rightarrow> u32 \<Rightarrow> chain_state \<Rightarrow> unit result" where
  "check_children_counter cd bid value s =
     res_bind (children_counter bid s) (\<lambda>counter.
     let is_tip = (db_get (bc_db s) (cd_tips_key cd bid) \<noteq> None) in
     res_bind (invariant (counter = value) ''check_children_counter index corrupted'') (\<lambda>_.
     res_bind (invariant (counter \<noteq> 0 \<or> is_tip) ''check_children_counter tip is not in index'') (\<lambda>_.
     invariant (counter = 0 \<or> \<not> is_tip) ''check_children_counter non-tip is in index'')))"

definition modify_children_counter :: "difficulty \<Rightarrow> hash \<Rightarrow> u32 \<Rightarrow> chain_state \<Rightarrow> chain_state result" where
  "modify_children_counter cd bid delta s =
     res_bind (children_counter bid s) (\<lambda>counter.
     let counter = counter + delta in
     res_bind (if counter = 1 then db_del (bc_db s) (children_key bid) False
       else db_put (bc_db s) (children_key bid) (to_binary enc_u32 counter) False) (\<lambda>db.
     res_bind (if counter = 0 then db_put db (cd_tips_key cd bid) [] False
       else db_del db (cd_tips_key cd bid) False) (\<lambda>db.
     Inr (s\<lparr>bc_db := db\<rparr>))))"

text \<open>The leaves in the order of the index: the difficulty and the hash of an entry.\<close>

definition tip_entry :: "bytes \<Rightarrow> (difficulty \<times> hash) result" where
  "tip_entry suffix =
     res_bind (read_varint_sqlite4 suffix) (\<lambda>(cd, rest).
     res_bind (invariant (length rest = 32) ''CD_TIPS_PREFIX corrupted'') (\<lambda>_. Inr (cd, rest)))"

definition get_oldest_tip :: "chain_state \<Rightarrow> (difficulty \<times> hash) option result" where
  "get_oldest_tip s =
     (case db_begin (bc_db s) CD_TIPS_PREFIX [] of
        [] \<Rightarrow> Inr None
      | (suffix, _) # _ \<Rightarrow> res_bind (tip_entry suffix) (\<lambda>e. Inr (Some e)))"

text \<open>\<open>for_each_tip\<close>, from the greatest difficulty down; the visitor may stop it.\<close>

fun for_each_entry :: "(difficulty \<Rightarrow> hash \<Rightarrow> 's \<Rightarrow> bool \<times> 's) \<Rightarrow> (bytes \<times> bytes) list \<Rightarrow> 's \<Rightarrow> 's result" where
  "for_each_entry visit [] x = Inr x"
| "for_each_entry visit ((suffix, _) # entries) x =
     res_bind (tip_entry suffix) (\<lambda>(cd, bid).
       let (go_on, x) = visit cd bid x in if \<not> go_on then Inr x else for_each_entry visit entries x)"

definition for_each_tip :: "(difficulty \<Rightarrow> hash \<Rightarrow> 's \<Rightarrow> bool \<times> 's) \<Rightarrow> 's \<Rightarrow> chain_state \<Rightarrow> 's result" where
  "for_each_tip visit x s = for_each_entry visit (db_rbegin (bc_db s) CD_TIPS_PREFIX) x"

definition prune_branch :: "currency \<Rightarrow> difficulty \<Rightarrow> hash \<Rightarrow> chain_state \<Rightarrow> (bool \<times> chain_state) result" where
  "prune_branch c cd bid s =
     (if bid = bc_tip_bid s then Inr (False, s)
      else
        res_bind (check_children_counter cd bid 0 s) (\<lambda>_.
        res_bind (get_header c bid 0 s) (\<lambda>(me, s).
        res_bind (get_header c (hi_previous_block_hash me) 0 s) (\<lambda>(pa, s).
        res_bind (modify_children_counter cd bid 1 s) (\<lambda>s.
        res_bind (modify_children_counter (hi_cumulative_difficulty pa) (hi_previous_block_hash me) (- 1) s) (\<lambda>s.
        res_bind (db_del (bc_db s) (block_key bid) True) (\<lambda>db.
        res_bind (db_del db (header_key bid) True) (\<lambda>db.
        Inr (True, s\<lparr>bc_db := db\<rparr>)))))))))"

fun prune_oldest_loop :: "currency \<Rightarrow> nat \<Rightarrow> chain_state \<Rightarrow> chain_state result" where
  "prune_oldest_loop c 0 s = Inr s"
| "prune_oldest_loop c (Suc n) s =
     res_bind (get_oldest_tip s) (\<lambda>t. case t of
         None \<Rightarrow> Inr s
       | Some (cd, bid) \<Rightarrow> res_bind (prune_branch c cd bid s) (\<lambda>(_, s). prune_oldest_loop c n s))"

definition test_prune_oldest :: "currency \<Rightarrow> chain_state \<Rightarrow> chain_state result" where
  "test_prune_oldest c s = prune_oldest_loop c 10 s"

section \<open>Common ancestors\<close>

text \<open>
  The loops of \<open>get_common_block\<close>.  They need not end when the headers of the database do
  not form a tree; \<open>None\<close> stands for that.
\<close>

partial_function (option) climb ::
  "currency \<Rightarrow> height \<Rightarrow> hash \<Rightarrow> header_info \<Rightarrow> hash list \<Rightarrow> chain_state \<Rightarrow>
     (hash \<times> header_info \<times> hash list \<times> chain_state) result option" where
  "climb c h hid ha chain s =
     (if hi_height ha > h then
        (case get_header c (hi_previous_block_hash ha) 0 s of
           Inl e \<Rightarrow> Some (Inl e)
         | Inr (ha', s') \<Rightarrow> climb c h (hi_previous_block_hash ha) ha' (chain @ [hid]) s')
      else Some (Inr (hid, ha, chain, s)))"

partial_function (option) climb_both ::
  "currency \<Rightarrow> hash \<Rightarrow> header_info \<Rightarrow> hash list \<Rightarrow> hash \<Rightarrow> header_info \<Rightarrow> hash list \<Rightarrow> chain_state \<Rightarrow>
     (hash \<times> hash list \<times> hash list \<times> chain_state) result option" where
  "climb_both c hid1 ha1 chain1 hid2 ha2 chain2 s =
     (if hid1 \<noteq> hid2 then
        (case get_header c (hi_previous_block_hash ha1) 0 s of
           Inl e \<Rightarrow> Some (Inl e)
         | Inr (ha1', s1) \<Rightarrow>
             (case get_header c (hi_previous_block_hash ha2) 0 s1 of
                Inl e \<Rightarrow> Some (Inl e)
              | Inr (ha2', s2) \<Rightarrow> climb_both c (hi_previous_block_hash ha1) ha1' (chain1 @ [hid1])
                  (hi_previous_block_hash ha2) ha2' (chain2 @ [hid2]) s2))
      else Some (Inr (hid1, chain1, chain2, s)))"

definition get_common_block ::
  "currency \<Rightarrow> hash \<Rightarrow> hash \<Rightarrow> chain_state \<Rightarrow> (hash \<times> hash list \<times> hash list \<times> chain_state) result option" where
  "get_common_block c bid1 bid2 s =
     (case res_bind (get_header c bid1 0 s) (\<lambda>(ha1, s). res_bind (get_header c bid2 0 s) (\<lambda>(ha2, s). Inr (ha1, ha2, s))) of
        Inl e \<Rightarrow> Some (Inl e)
      | Inr (ha1, ha2, s) \<Rightarrow>
          (case climb c (hi_height ha2) bid1 ha1 [] s of
             None \<Rightarrow> None
           | Some (Inl e) \<Rightarrow> Some (Inl e)
           | Some (Inr (hid1, ha1, chain1, s)) \<Rightarrow>
               (case climb c (hi_height ha1) bid2 ha2 [] s of
                  None \<Rightarrow> None
                | Some (Inl e) \<Rightarrow> Some (Inl e)
                | Some (Inr (hid2, ha2, chain2, s)) \<Rightarrow> climb_both c hid1 ha1 chain1 hid2 ha2 chain2 s)))"

section \<open>Questions of peers\<close>

text \<open>
  \<open>get_sparse_chain\<close>: every block of the last ten, then ever fewer, then the genesis block.
  The loop ends while the jumps do not wrap; there are never more than 64.
\<close>

fun sparse_loop :: "nat \<Rightarrow> u32 \<Rightarrow> hash list \<Rightarrow> chain_state \<Rightarrow> hash list result option" where
  "sparse_loop 0 jump tip_path s = None"
| "sparse_loop (Suc fuel) jump tip_path s =
     (if bc_tip_height s \<ge> jump then
        (case get_chain (bc_tip_height s - jump) s of
           Inl e \<Rightarrow> Some (Inl e)
         | Inr h \<Rightarrow>
             let tip_path = tip_path @ [h]
             in sparse_loop fuel (if length tip_path \<le> 10 then jump + 1
                  else jump + push_bit (length tip_path - 10) 1) tip_path s)
      else Some (Inr tip_path))"

definition get_sparse_chain :: "chain_state \<Rightarrow> hash list result option" where
  "get_sparse_chain s =
     (case sparse_loop 64 0 [] s of
        None \<Rightarrow> None
      | Some (Inl e) \<Rightarrow> Some (Inl e)
      | Some (Inr tip_path) \<Rightarrow>
          Some (Inr (if last tip_path \<noteq> bc_genesis_bid s then tip_path @ [bc_genesis_bid s] else tip_path)))"

fun find_blockchain_supplement :: "currency \<Rightarrow> hash list \<Rightarrow> chain_state \<Rightarrow> (height \<times> chain_state) result" where
  "find_blockchain_supplement c [] s = Inr (0, s)"
| "find_blockchain_supplement c (lit # lits) s =
     res_bind (read_header c lit 0 s) (\<lambda>(r, s). case r of
         None \<Rightarrow> find_blockchain_supplement c lits s
       | Some header \<Rightarrow>
           if hi_height header > bc_tip_height s then find_blockchain_supplement c lits s
           else Inr (hi_height header, s))"

definition get_timestamp_lower_bound_block_index :: "timestamp \<Rightarrow> chain_state \<Rightarrow> height result" where
  "get_timestamp_lower_bound_block_index ts s =
     (case db_begin (bc_db s) TIMESTAMP_BLOCK_PREFIX (write_varint_sqlite4 (ucast ts)) of
        [] \<Rightarrow> Inr (bc_tip_height s)
      | (suffix, _) # _ \<Rightarrow>
          res_bind (read_varint_sqlite4 suffix) (\<lambda>(_, rest).
          res_bind (read_varint_sqlite4 rest) (\<lambda>(h, _).
          if unat h < 2 ^ 32 then Inr (ucast h) else Inl Bad_cast)))"

text \<open>
  \<open>get_sync_headers_chain\<close>: from the first block of the locator that is known, back to the
  current chain, then up along it.
\<close>

partial_function (option) back_to_chain ::
  "currency \<Rightarrow> header_info \<Rightarrow> chain_state \<Rightarrow> (header_info \<times> chain_state) result option" where
  "back_to_chain c header s =
     (if hi_height header \<noteq> 0 then
        (case read_chain (hi_height header) s of
           Inl e \<Rightarrow> Some (Inl e)
         | Inr r \<Rightarrow>
             if r = Some (hi_hash header) then Some (Inr (header, s))
             else (case get_header c (hi_previous_block_hash header) 0 s of
                 Inl e \<Rightarrow> Some (Inl e)
               | Inr (header', s') \<Rightarrow> back_to_chain c header' s'))
      else Some (Inr (header, s)))"

fun chain_up :: "nat \<Rightarrow> height \<Rightarrow> chain_state \<Rightarrow> hash list result" where
  "chain_up 0 h s = Inr []"
| "chain_up (Suc n) h s =
     (if h \<le> bc_tip_height s
      then res_bind (get_chain h s) (\<lambda>bid. res_bind (chain_up n (h + 1) s) (\<lambda>bids. Inr (bid # bids)))
      else Inr [])"

fun get_sync_headers_chain ::
  "currency \<Rightarrow> hash list \<Rightarrow> nat \<Rightarrow> chain_state \<Rightarrow> (hash list \<times> height \<times> chain_state) result option" where
  "get_sync_headers_chain c [] max_count s = Some (Inr ([], bc_tip_height s + 1, s))"
| "get_sync_headers_chain c (lit # locator) max_count s =
     (case read_header c lit 0 s of
        Inl e \<Rightarrow> Some (Inl e)
      | Inr (None, s) \<Rightarrow> get_sync_headers_chain c locator max_count s
      | Inr (Some header, s) \<Rightarrow>
          (case back_to_chain c header s of
             None \<Rightarrow> None
           | Some (Inl e) \<Rightarrow> Some (Inl e)
           | Some (Inr (header, s)) \<Rightarrow>
               Some (res_bind (chain_up max_count (hi_height header) s) (\<lambda>bids. Inr (bids, hi_height header, s)))))"

fun read_headers :: "currency \<Rightarrow> hash list \<Rightarrow> chain_state \<Rightarrow> (header_info list \<times> chain_state) result" where
  "read_headers c [] s = Inr ([], s)"
| "read_headers c (bid # bids) s =
     res_bind (get_header c bid 0 s) (\<lambda>(h, s). res_bind (read_headers c bids s) (\<lambda>(hs, s). Inr (h # hs, s)))"

definition get_sync_headers ::
  "currency \<Rightarrow> hash list \<Rightarrow> nat \<Rightarrow> chain_state \<Rightarrow> (header_info list \<times> chain_state) result option" where
  "get_sync_headers c locator max_count s =
     (case get_sync_headers_chain c locator max_count s of
        None \<Rightarrow> None
      | Some (Inl e) \<Rightarrow> Some (Inl e)
      | Some (Inr (bids, _, s)) \<Rightarrow> Some (read_headers c bids s))"

section \<open>Keys apart\<close>

lemmas key_defs = header_key_def block_key_def tip_chain_key_def timestamp_block_key_def children_key_def cd_tips_key_def
  HEADER_PREFIX_def HEADER_SUFFIX_def BLOCK_PREFIX_def BLOCK_SUFFIX_def TIP_CHAIN_PREFIX_def
  TIMESTAMP_BLOCK_PREFIX_def CHILDREN_PREFIX_def CD_TIPS_PREFIX_def

lemma tree_key_inj [simp]:
  "header_key a = header_key b \<longleftrightarrow> a = b" "block_key a = block_key b \<longleftrightarrow> a = b"
  "tip_chain_key h = tip_chain_key g \<longleftrightarrow> h = g" "children_key a = children_key b \<longleftrightarrow> a = b"
  "cd_tips_key x a = cd_tips_key y b \<longleftrightarrow> x = y \<and> a = b"
proof -
  show "header_key a = header_key b \<longleftrightarrow> a = b" "block_key a = block_key b \<longleftrightarrow> a = b"
    "children_key a = children_key b \<longleftrightarrow> a = b"
    by (simp_all add: key_defs)
  show "tip_chain_key h = tip_chain_key g \<longleftrightarrow> h = g"
    by (auto simp: key_defs sqlite4.enc_inj) (metis ucast_u64_down(3))
  show "cd_tips_key x a = cd_tips_key y b \<longleftrightarrow> x = y \<and> a = b"
    using sqlite4.enc_prefix_free [of x a y b] by (auto simp: key_defs)
qed

lemma tree_keys_differ [simp]:
  "header_key a \<noteq> block_key b" "header_key a \<noteq> tip_chain_key h" "header_key a \<noteq> children_key b"
  "header_key a \<noteq> cd_tips_key x b" "block_key b \<noteq> tip_chain_key h" "block_key a \<noteq> children_key b"
  "block_key a \<noteq> cd_tips_key x b" "tip_chain_key h \<noteq> children_key b" "tip_chain_key h \<noteq> cd_tips_key x b"
  "children_key a \<noteq> cd_tips_key x b"
  "block_key b \<noteq> header_key a" "tip_chain_key h \<noteq> header_key a" "children_key b \<noteq> header_key a"
  "cd_tips_key x b \<noteq> header_key a" "tip_chain_key h \<noteq> block_key b" "children_key b \<noteq> block_key a"
  "cd_tips_key x b \<noteq> block_key a" "children_key b \<noteq> tip_chain_key h" "cd_tips_key x b \<noteq> tip_chain_key h"
  "cd_tips_key x b \<noteq> children_key a"
  by (simp_all add: key_defs)

section \<open>The current chain is a path of the tree\<close>

text \<open>
  \<open>C\<close> is the current chain from the genesis block to the tip: the database has its blocks
  by height, their headers are linked, and the window holds the last of them.
\<close>

definition chain_ok :: "chain_state \<Rightarrow> hash list \<Rightarrow> bool" where
  "chain_ok s C \<longleftrightarrow> headers_ok s \<and> tree_ok s \<and> C \<noteq> [] \<and> length C < 2 ^ 32 \<and>
     (\<forall>h. db_get (bc_db s) (tip_chain_key h) = (if unat h < length C then Some (C ! unat h) else None)) \<and>
     list_all pod32 C \<and>
     bc_tip_height s = word_of_nat (length C - 1) \<and> bc_tip_bid s = last C \<and>
     (\<forall>i < length C. \<exists>h. header_of s (C ! i) = Some h \<and> unat (hi_height h) = i \<and>
        (i \<noteq> 0 \<longrightarrow> hi_previous_block_hash h = C ! (i - 1))) \<and>
     (\<exists>k < length C. map hi_hash (bc_header_tip_window s) = drop k C) \<and>
     (\<exists>h. header_of s (last C) = Some h \<and> bc_tip_cumulative_difficulty s = hi_cumulative_difficulty h)"

lemma chain_okD:
  assumes "chain_ok s C"
  shows "headers_ok s" "tree_ok s" "C \<noteq> []" "length C < 2 ^ 32"
    "db_get (bc_db s) (tip_chain_key h) = (if unat h < length C then Some (C ! unat h) else None)"
    "list_all pod32 C" "bc_tip_height s = word_of_nat (length C - 1)" "bc_tip_bid s = last C"
    "bc_header_tip_window s \<noteq> []" "hi_hash (last (bc_header_tip_window s)) = last C"
proof -
  from assms obtain k where k: "k < length C" "map hi_hash (bc_header_tip_window s) = drop k C"
    by (auto simp: chain_ok_def)
  then show w: "bc_header_tip_window s \<noteq> []" by (metis drop_eq_Nil linorder_not_less list.map_disc_iff)
  from k have "last (map hi_hash (bc_header_tip_window s)) = last C" by simp
  with w show "hi_hash (last (bc_header_tip_window s)) = last C" by (simp add: last_map)
qed (use assms in \<open>auto simp: chain_ok_def\<close>)

lemma chain_ok_header:
  assumes "chain_ok s C" "i < length C"
  obtains h where "header_of s (C ! i) = Some h" "unat (hi_height h) = i"
    "i \<noteq> 0 \<Longrightarrow> hi_previous_block_hash h = C ! (i - 1)"
  using assms by (auto simp: chain_ok_def)

lemma chain_ok_tip_height: "chain_ok s C \<Longrightarrow> unat (bc_tip_height s) = length C - 1"
  using chain_okD(4,7) [of s C] by (simp add: unat_of_nat)

lemma read_chain_ok:
  assumes "chain_ok s C"
  shows "read_chain h s = Inr (if unat h < length C then Some (C ! unat h) else None)"
proof (cases "unat h < length C")
  case True
  then have "pod32 (C ! unat h)" using chain_okD(6) [OF assms] by (simp add: list_all_length)
  then have "from_binary (dec_binary 32) (C ! unat h) = Inr (C ! unat h)"
    using hash32.from_to_binary by (simp add: to_binary_def)
  with True chain_okD(5) [OF assms, of h] show ?thesis by (simp add: read_chain_def)
qed (use chain_okD(5) [OF assms, of h] in \<open>simp add: read_chain_def\<close>)

lemma get_chain_ok: "chain_ok s C \<Longrightarrow> unat h < length C \<Longrightarrow> get_chain h s = Inr (C ! unat h)"
  by (simp add: get_chain_def read_chain_ok)

lemma chain_ok_genesis: "chain_ok s C \<Longrightarrow> hd C = bc_genesis_bid s"
proof -
  assume ok: "chain_ok s C"
  from chain_okD(3) [OF ok] obtain h where "header_of s (C ! 0) = Some h" "unat (hi_height h) = 0"
    using chain_ok_header [OF ok, of 0] by (metis length_greater_0_conv)
  then show ?thesis
    using chain_okD(2,3) [OF ok] by (simp add: tree_ok_def hd_conv_nth unat_eq_0)
qed

lemma chain_ok_cache:
  "chain_ok s C \<Longrightarrow> headers_ok (s\<lparr>bc_header_cache := cache\<rparr>) \<Longrightarrow> chain_ok (s\<lparr>bc_header_cache := cache\<rparr>) C"
  by (simp add: chain_ok_def)

text \<open>A change of the database that leaves all headers alone.\<close>

lemma header_of_same:
  "(\<And>bid. db_get (bc_db s') (header_key bid) = db_get (bc_db s) (header_key bid)) \<Longrightarrow> header_of s' = header_of s"
  by (simp add: header_of_def fun_eq_iff)

lemma headers_ok_same:
  assumes "headers_ok s" "om_wf (bc_db s')"
    and "\<And>bid. db_get (bc_db s') (header_key bid) = db_get (bc_db s) (header_key bid)"
    and "bc_header_cache s' = bc_header_cache s"
    and "\<And>h. h \<in> set (bc_header_tip_window s') \<Longrightarrow> header_of s (hi_hash h) = Some h"
    and "length (bc_header_tip_window s') \<le> unat (bc_tip_height s') + 1"
  shows "headers_ok s'"
  using assms header_of_same [of s' s, OF assms(3)] by (simp add: headers_ok_def)

lemma tree_ok_same: "tree_ok s \<Longrightarrow> header_of s' = header_of s \<Longrightarrow> bc_genesis_bid s' = bc_genesis_bid s \<Longrightarrow> tree_ok s'"
  by (simp add: tree_ok_def)

section \<open>Moving the tip\<close>

text \<open>The windows of the currency are not empty, so the window of headers always holds the tip.\<close>

definition windows_ok :: "currency \<Rightarrow> bool" where
  "windows_ok c \<longleftrightarrow> (\<forall>h. 0 < unat (max (get_difficulty_blocks_count c h)
     (max (cy_reward_blocks_window c) (get_timestamp_check_window c h)) * 2))"

lemma drop_front_suffix:
  "0 < n \<Longrightarrow> xs \<noteq> [] \<Longrightarrow> \<exists>k < length xs. drop_front n xs = drop k xs"
  by (cases "length xs > n") (auto simp: drop_front_def intro: exI [of _ "length xs - n"] exI [of _ 0])

lemma push_chain_eq:
  assumes "db_put (bc_db s) (tip_chain_key (bc_tip_height s + 1)) (hi_hash h) True = Inr db"
    and "s1 = s\<lparr>bc_tip_height := bc_tip_height s + 1, bc_db := db, bc_tip_bid := hi_hash h,
      bc_tip_cumulative_difficulty := hi_cumulative_difficulty h\<rparr>"
  shows "push_chain c h s =
    tip_changed c (s1\<lparr>bc_header_tip_window := drop_front (unat (largest_window c s1 * 2)) (bc_header_tip_window s @ [h])\<rparr>)"
  using assms(1) unfolding assms(2) push_chain_def Let_def by simp

lemma push_chain_ok:
  assumes ok: "chain_ok s C" and c: "windows_ok c" and room: "length C + 1 < 2 ^ 32"
    and hd: "header_of s bid = Some h" "unat (hi_height h) = length C" "hi_previous_block_hash h = last C" "pod32 bid"
  shows "\<exists>s'. push_chain c h s = Inr s' \<and> chain_ok s' (C @ [bid]) \<and> header_of s' = header_of s \<and> medians_ok c s' \<and>
    db_put (bc_db s) (tip_chain_key (bc_tip_height s + 1)) bid True = Inr (bc_db s') \<and>
    s' = s\<lparr>bc_db := bc_db s', bc_tip_bid := bc_tip_bid s', bc_tip_height := bc_tip_height s',
      bc_tip_cumulative_difficulty := bc_tip_cumulative_difficulty s', bc_header_cache := bc_header_cache s',
      bc_header_tip_window := bc_header_tip_window s', cs_next_median_size := cs_next_median_size s',
      cs_next_median_timestamp := cs_next_median_timestamp s'\<rparr>"
proof -
  define g where "g = bc_tip_height s + 1"
  have bid: "hi_hash h = bid" using header_of_hash [OF chain_okD(1) [OF ok] hd(1)] .
  have len: "unat (bc_tip_height s) = length C - 1" "length C \<noteq> 0"
    using chain_ok_tip_height [OF ok] chain_okD(3) [OF ok] by simp_all
  have g: "unat g = length C" "g = word_of_nat (length C)"
  proof -
    have "bc_tip_height s = word_of_nat (length C - 1)" by (rule chain_okD(7) [OF ok])
    then have "g = word_of_nat (length C - 1 + 1)" by (simp add: g_def)
    with len(2) show "g = word_of_nat (length C)" by simp
    with room show "unat g = length C" by (simp add: unat_of_nat)
  qed
  have "db_get (bc_db s) (tip_chain_key g) = None" using chain_okD(5) [OF ok, of g] g by simp
  then obtain db where put: "db_put (bc_db s) (tip_chain_key g) bid True = Inr db" by (simp add: db_put_def)
  note get = db_get_put [OF put]
  have wf: "om_wf db" using om_wf_put [OF headers_okD(1) [OF chain_okD(1) [OF ok]] put] .
  define s1 where "s1 = s\<lparr>bc_tip_height := g, bc_db := db, bc_tip_bid := bid,
    bc_tip_cumulative_difficulty := hi_cumulative_difficulty h\<rparr>"
  define w where "w = drop_front (unat (largest_window c s1 * 2)) (bc_header_tip_window s @ [h])"
  define s2 where "s2 = s1\<lparr>bc_header_tip_window := w\<rparr>"
  have "0 < unat (largest_window c s1 * 2)" using c by (simp add: windows_ok_def largest_window_def)
  from drop_front_suffix [OF this, of "bc_header_tip_window s @ [h]"] obtain k where
    k: "k < length (bc_header_tip_window s @ [h])" "w = drop k (bc_header_tip_window s @ [h])" by (auto simp: w_def)
  obtain j where j: "j < length C" "map hi_hash (bc_header_tip_window s) = drop j C"
    using ok by (auto simp: chain_ok_def)
  then have "length (bc_header_tip_window s) = length C - j" by (metis length_drop length_map)
  with j(1) have lw: "length (bc_header_tip_window s) + j = length C" by simp
  have w: "map hi_hash w = drop (j + k) (C @ [bid])" "j + k < length (C @ [bid])"
    using k j lw by (simp_all add: drop_map [symmetric] bid drop_append add.commute [of k j])
  have hs2: "header_of s2 = header_of s" by (rule header_of_same) (simp add: s2_def s1_def get)
  have ws: "w \<noteq> []" using k by (metis drop_eq_Nil not_le)
  have "last (map hi_hash w) = bid" using w by (metis last_drop last_snoc)
  then have wl: "hi_hash (last w) = bid" using ws by (simp add: last_map)
  have inw: "x \<in> set w \<Longrightarrow> header_of s (hi_hash x) = Some x" for x
    using k(2) headers_okD(5) [OF chain_okD(1) [OF ok]] hd(1) bid by (auto dest: in_set_dropD)
  have lw2: "length w \<le> unat g + 1" using k lw g(1) by simp
  have ok2: "headers_ok s2"
    by (rule headers_ok_same [OF chain_okD(1) [OF ok]]) (use wf inw lw2 in \<open>simp_all add: s2_def s1_def get\<close>)
  have tr2: "tree_ok s2"
    by (rule tree_ok_same [OF chain_okD(2) [OF ok] hs2]) (simp add: s2_def s1_def)
  obtain cache m n where tc: "tip_changed c s2 = Inr (s2\<lparr>bc_header_cache := cache, cs_next_median_size := m, cs_next_median_timestamp := n\<rparr>)"
    "headers_ok (s2\<lparr>bc_header_cache := cache, cs_next_median_size := m, cs_next_median_timestamp := n\<rparr>)"
    "medians_ok c (s2\<lparr>bc_header_cache := cache, cs_next_median_size := m, cs_next_median_timestamp := n\<rparr>)"
    using tip_changed_ok [OF ok2 tr2, of c] ws wl by (auto simp: s2_def s1_def)
  define s3 where "s3 = s2\<lparr>bc_header_cache := cache, cs_next_median_size := m, cs_next_median_timestamp := n\<rparr>"
  have hs3: "header_of s3 = header_of s" using hs2 by (simp add: s3_def header_of_def fun_eq_iff)
  have "push_chain c h s = Inr s3"
    using tc(1) push_chain_eq [of s h db s1 c] put unfolding s3_def s2_def w_def by (simp add: bid g_def s1_def)
  moreover have "chain_ok s3 (C @ [bid])"
  proof -
    have t: "tree_ok s3" by (rule tree_ok_same [OF chain_okD(2) [OF ok] hs3]) (simp add: s3_def s2_def s1_def)
    have db: "db_get (bc_db s3) (tip_chain_key x) = (if unat x < length (C @ [bid]) then Some ((C @ [bid]) ! unat x) else None)" for x
    proof -
      have "bc_db s3 = db" by (simp add: s3_def s2_def s1_def)
      moreover have "x = g \<longleftrightarrow> unat x = length C" by (simp only: word_unat_eq_iff g(1))
      ultimately show ?thesis
        using chain_okD(5) [OF ok, of x] by (simp add: get nth_append less_Suc_eq)
    qed
    have links: "\<exists>x. header_of s3 ((C @ [bid]) ! i) = Some x \<and> unat (hi_height x) = i \<and>
        (i \<noteq> 0 \<longrightarrow> hi_previous_block_hash x = (C @ [bid]) ! (i - 1))" if "i < length (C @ [bid])" for i
    proof (cases "i < length C")
      case True
      then show ?thesis unfolding hs3
        using chain_ok_header [OF ok True] by (metis (no_types, lifting) less_imp_diff_less nth_append)
    next
      case False
      then have "i = length C" using that by simp
      then show ?thesis unfolding hs3 using hd len(2) by (simp add: nth_append last_conv_nth)
    qed
    have sel: "bc_tip_height s3 = g" "bc_tip_bid s3 = bid" "bc_header_tip_window s3 = w"
      "bc_tip_cumulative_difficulty s3 = hi_cumulative_difficulty h"
      by (simp_all add: s3_def s2_def s1_def)
    have "headers_ok s3" using tc(2) by (simp add: s3_def)
    moreover have "list_all pod32 (C @ [bid])" using hd(4) chain_okD(6) [OF ok] by simp
    moreover have "\<exists>k < length (C @ [bid]). map hi_hash w = drop k (C @ [bid])" using w by blast
    moreover have "\<exists>x. header_of s3 (last (C @ [bid])) = Some x \<and> hi_cumulative_difficulty h = hi_cumulative_difficulty x"
      using hd(1) by (simp add: hs3)
    moreover have "g = word_of_nat (length (C @ [bid]) - 1)" "length (C @ [bid]) < 2 ^ 32" using g room by simp_all
    ultimately show ?thesis
      unfolding chain_ok_def sel using t db links by (intro conjI allI impI) simp_all
  qed
  moreover have "medians_ok c s3" using tc(3) by (simp add: s3_def)
  moreover have "s3 = s\<lparr>bc_db := bc_db s3, bc_tip_bid := bc_tip_bid s3, bc_tip_height := bc_tip_height s3,
      bc_tip_cumulative_difficulty := bc_tip_cumulative_difficulty s3, bc_header_cache := bc_header_cache s3,
      bc_header_tip_window := bc_header_tip_window s3, cs_next_median_size := cs_next_median_size s3,
      cs_next_median_timestamp := cs_next_median_timestamp s3\<rparr>"
    by (simp add: s3_def s2_def s1_def)
  moreover have "bc_db s3 = db" by (simp add: s3_def s2_def s1_def)
  ultimately show ?thesis using hs3 put by (intro exI [of _ s3]) (simp add: g_def)
qed

text \<open>The database and the fields of the tip after a pop, before the window is refilled.\<close>

definition popped :: "db \<Rightarrow> hash \<Rightarrow> header_info list \<Rightarrow> chain_state \<Rightarrow> chain_state" where
  "popped db bid w s = s\<lparr>bc_header_tip_window := w, bc_db := db, bc_tip_height := bc_tip_height s - 1, bc_tip_bid := bid\<rparr>"

lemma popped_sel [simp]:
  "bc_db (popped db bid w s) = db" "bc_tip_height (popped db bid w s) = bc_tip_height s - 1"
  "bc_tip_bid (popped db bid w s) = bid" "bc_header_tip_window (popped db bid w s) = w"
  "bc_header_cache (popped db bid w s) = bc_header_cache s" "bc_genesis_bid (popped db bid w s) = bc_genesis_bid s"
  by (simp_all add: popped_def)

lemma pop_chain_eq:
  assumes "bc_tip_height s \<noteq> 0" "bc_header_tip_window s \<noteq> []" "db_del (bc_db s) (tip_chain_key (bc_tip_height s)) True = Inr db"
    and "get_chain (bc_tip_height s - 1) (popped db bid (butlast (bc_header_tip_window s)) s) = Inr bid"
  shows "pop_chain c bid s =
    (let p = popped db bid (butlast (bc_header_tip_window s)) s in
     res_bind (if butlast (bc_header_tip_window s) = []
       then res_bind (get_header c bid 0 p) (\<lambda>(tip_header, s). Inr (s\<lparr>bc_header_tip_window := [tip_header]\<rparr>))
       else Inr p) (\<lambda>s.
     res_bind (get_tip s) (\<lambda>tip.
     Inr (s\<lparr>bc_tip_cumulative_difficulty := hi_cumulative_difficulty tip\<rparr>))))"
  using assms by (simp add: pop_chain_def Let_def popped_def [symmetric])

lemma chain_ok_pop:
  assumes ok: "chain_ok s (C @ [b])" and C: "C \<noteq> []"
    and del: "db_del (bc_db s) (tip_chain_key (bc_tip_height s)) True = Inr (bc_db s')"
    and s': "bc_tip_height s' = bc_tip_height s - 1" "bc_tip_bid s' = last C" "bc_genesis_bid s' = bc_genesis_bid s"
      "map hi_hash (bc_header_tip_window s') = drop k C" "k < length C" "headers_ok s'"
      "header_of s (last C) = Some h" "bc_tip_cumulative_difficulty s' = hi_cumulative_difficulty h"
  shows "chain_ok s' C \<and> header_of s' = header_of s"
proof -
  note get = db_get_del [OF headers_okD(1) [OF chain_okD(1) [OF ok]] del]
  have hs: "header_of s' = header_of s" by (rule header_of_same) (simp add: get)
  have th: "unat (bc_tip_height s) = length C" using chain_ok_tip_height [OF ok] by simp
  have t: "tree_ok s'" using tree_ok_same [OF chain_okD(2) [OF ok] hs s'(3)] .
  have "db_get (bc_db s') (tip_chain_key x) = (if unat x < length C then Some (C ! unat x) else None)" for x
  proof -
    have "x = bc_tip_height s \<longleftrightarrow> unat x = length C" by (simp only: word_unat_eq_iff th)
    then show ?thesis using chain_okD(5) [OF ok, of x] by (simp add: get nth_append)
  qed
  moreover have "\<exists>x. header_of s' (C ! i) = Some x \<and> unat (hi_height x) = i \<and>
      (i \<noteq> 0 \<longrightarrow> hi_previous_block_hash x = C ! (i - 1))" if "i < length C" for i
    using chain_ok_header [OF ok, of i] that unfolding hs
    by (metis (no_types, lifting) length_append_singleton less_SucI less_imp_diff_less nth_append)
  moreover have "bc_tip_height s' = word_of_nat (length C - 1)"
  proof -
    have "bc_tip_height s = word_of_nat (length C)" using chain_okD(7) [OF ok] by simp
    then show ?thesis using C s'(1) by (cases C) simp_all
  qed
  ultimately show ?thesis
    using t hs s' C chain_okD(4,6) [OF ok] unfolding chain_ok_def
    by (intro conjI allI impI) auto
qed

lemma pop_chain_ok:
  assumes ok: "chain_ok s (C @ [b])" and C: "C \<noteq> []"
  shows "\<exists>s'. pop_chain c (last C) s = Inr s' \<and> chain_ok s' C \<and> header_of s' = header_of s \<and>
    db_del (bc_db s) (tip_chain_key (bc_tip_height s)) True = Inr (bc_db s') \<and>
    s' = s\<lparr>bc_db := bc_db s', bc_tip_bid := bc_tip_bid s', bc_tip_height := bc_tip_height s',
      bc_tip_cumulative_difficulty := bc_tip_cumulative_difficulty s', bc_header_cache := bc_header_cache s',
      bc_header_tip_window := bc_header_tip_window s'\<rparr>"
proof -
  define w where "w = butlast (bc_header_tip_window s)"
  have th: "unat (bc_tip_height s) = length C" using chain_ok_tip_height [OF ok] by simp
  then have nz: "bc_tip_height s \<noteq> 0" using C by auto
  have th1: "unat (bc_tip_height s - 1) = length C - 1"
    using nz th by (simp add: unat_minus_one)
  have "db_get (bc_db s) (tip_chain_key (bc_tip_height s)) = Some b"
    using chain_okD(5) [OF ok, of "bc_tip_height s"] th by (simp add: nth_append)
  then obtain db where del: "db_del (bc_db s) (tip_chain_key (bc_tip_height s)) True = Inr db" by (auto simp: db_del_def)
  note get = db_get_del [OF headers_okD(1) [OF chain_okD(1) [OF ok]] del]
  define p where "p = popped db (last C) w s"
  have hp: "header_of p = header_of s" by (rule header_of_same) (simp add: p_def get)
  obtain h where h: "header_of s (last C) = Some h"
    using chain_ok_header [OF ok, of "length C - 1"] C by (metis diff_less last_conv_nth length_append_singleton
      length_greater_0_conv less_SucI nth_append zero_less_one)
  have lastC: "get_chain (bc_tip_height s - 1) p = Inr (last C)"
  proof -
    have "bc_tip_height s - 1 \<noteq> bc_tip_height s" by simp
    then have "db_get db (tip_chain_key (bc_tip_height s - 1)) = Some (last C)"
      using chain_okD(5) [OF ok, of "bc_tip_height s - 1"] C th1 by (simp add: get nth_append last_conv_nth)
    moreover have "pod32 (last C)" using chain_okD(6) [OF ok] C by (simp add: list_all_iff)
    then have "from_binary (dec_binary 32) (last C) = Inr (last C)"
      using hash32.from_to_binary by (simp add: to_binary_def)
    ultimately show ?thesis by (simp add: get_chain_def read_chain_def p_def)
  qed
  obtain k where k: "k < length (C @ [b])" "map hi_hash (bc_header_tip_window s) = drop k (C @ [b])"
    using ok by (auto simp: chain_ok_def)
  then have w: "map hi_hash w = drop k C" by (simp add: w_def map_butlast butlast_drop [symmetric] drop_butlast)
  have inw: "x \<in> set w \<Longrightarrow> header_of s (hi_hash x) = Some x" for x
    using headers_okD(5) [OF chain_okD(1) [OF ok], of x] by (simp add: w_def in_set_butlastD)
  have lw: "length w \<le> length C" using w by (metis diff_le_self length_drop length_map)
  have okp: "headers_ok p"
    by (rule headers_ok_same [OF chain_okD(1) [OF ok]])
      (use inw lw th1 C om_wf_del [OF headers_okD(1) [OF chain_okD(1) [OF ok]] del] in \<open>simp_all add: p_def get\<close>)
  note eq = pop_chain_eq [OF nz chain_okD(9) [OF ok] del, of "last C" c, folded w_def, folded p_def, OF lastC]
  show ?thesis
  proof (cases "w = []")
    case True
    obtain cache where g: "get_header c (last C) 0 p = Inr (h, p\<lparr>bc_header_cache := cache\<rparr>)"
      "headers_ok (p\<lparr>bc_header_cache := cache\<rparr>)"
      using get_header_ok [OF okp, of "last C" h c 0] h hp by auto
    define s' where "s' = p\<lparr>bc_header_cache := cache, bc_header_tip_window := [h], bc_tip_cumulative_difficulty := hi_cumulative_difficulty h\<rparr>"
    have dl: "drop (length C - 1) C = [last C]"
      using C by (metis append_butlast_last_id append_eq_conv_conj length_butlast)
    have hh: "hi_hash h = last C" using header_of_hash [OF chain_okD(1) [OF ok] h] .
    have "pop_chain c (last C) s = Inr s'"
      using True unfolding eq Let_def g(1) by (simp add: s'_def get_tip_def hh p_def)
    moreover have db: "bc_db s' = db" by (simp add: s'_def p_def)
    moreover have "headers_ok s'"
    proof (rule headers_ok_same [OF g(2)])
      show "header_of (p\<lparr>bc_header_cache := cache\<rparr>) (hi_hash x) = Some x" if "x \<in> set (bc_header_tip_window s')" for x
        using that h hh hp by (simp add: s'_def)
    qed (use headers_okD(1) [OF okp] in \<open>simp_all add: s'_def p_def\<close>)
    then have "chain_ok s' C \<and> header_of s' = header_of s"
      using C del db h hh dl
      by (intro chain_ok_pop [OF ok C, of _ "length C - 1" h]) (simp_all add: s'_def p_def)
    ultimately show ?thesis using del by (intro exI [of _ s']) (simp add: s'_def p_def popped_def)
  next
    case False
    define s' where "s' = p\<lparr>bc_tip_cumulative_difficulty := hi_cumulative_difficulty (last w)\<rparr>"
    have kC: "k < length C" using False w by (metis drop_eq_Nil linorder_not_less list.map_disc_iff)
    have "last (map hi_hash w) = last C" using w kC by simp
    then have lw: "hi_hash (last w) = last C" using False by (simp add: last_map)
    with inw [of "last w"] False h have "last w = h" by simp
    have "pop_chain c (last C) s = Inr s'"
      using False unfolding eq Let_def by (simp add: s'_def get_tip_def p_def lw)
    moreover have db: "bc_db s' = db" by (simp add: s'_def p_def)
    moreover have "headers_ok s'" using okp by (simp add: s'_def headers_ok_def header_of_def)
    then have "chain_ok s' C \<and> header_of s' = header_of s"
      using C del db h kC w \<open>last w = h\<close>
      by (intro chain_ok_pop [OF ok C, of _ k h]) (simp_all add: s'_def p_def)
    ultimately show ?thesis using del by (intro exI [of _ s']) (simp add: s'_def p_def popped_def)
  qed
qed

section \<open>The common ancestor\<close>

text \<open>\<open>xs\<close> are the blocks from \<open>a\<close> down to \<open>b\<close>, without \<open>b\<close>.\<close>

fun descends :: "(hash \<Rightarrow> header_info option) \<Rightarrow> hash \<Rightarrow> hash list \<Rightarrow> hash \<Rightarrow> bool" where
  "descends H a [] b \<longleftrightarrow> a = b"
| "descends H a (x # xs) b \<longleftrightarrow> x = a \<and> (case H a of None \<Rightarrow> False
     | Some h \<Rightarrow> hi_height h \<noteq> 0 \<and> descends H (hi_previous_block_hash h) xs b)"

lemma descends_append:
  "descends H a xs b \<Longrightarrow> descends H b ys d \<Longrightarrow> descends H a (xs @ ys) d"
  by (induction xs arbitrary: a) (auto split: option.splits)

definition height_of :: "(hash \<Rightarrow> header_info option) \<Rightarrow> hash \<Rightarrow> nat" where
  "height_of H bid = (case H bid of None \<Rightarrow> 0 | Some h \<Rightarrow> unat (hi_height h))"

lemma descends_heights:
  assumes "tree_ok s"
  shows "descends (header_of s) a xs b \<Longrightarrow> height_of (header_of s) a = height_of (header_of s) b + length xs \<and>
    (\<forall>x \<in> set xs. height_of (header_of s) b < height_of (header_of s) x \<and>
       height_of (header_of s) x \<le> height_of (header_of s) a)"
proof (induction xs arbitrary: a)
  case Nil
  then show ?case by simp
next
  case (Cons x xs)
  then obtain h where h: "x = a" "header_of s a = Some h" "hi_height h \<noteq> 0"
    "descends (header_of s) (hi_previous_block_hash h) xs b" by (auto split: option.splits)
  from tree_ok_parent [OF assms h(2,3)] obtain p where
    "header_of s (hi_previous_block_hash h) = Some p" "unat (hi_height h) = Suc (unat (hi_height p))" by blast
  then have "height_of (header_of s) a = Suc (height_of (header_of s) (hi_previous_block_hash h))"
    using h(2) by (simp add: height_of_def)
  with Cons.IH [OF h(4)] h(1) show ?case by auto
qed

lemma climb_ok:
  assumes "headers_ok s" "tree_ok s" "header_of s hid = Some ha"
  shows "\<exists>hid' ha' tail cache. climb c h hid ha chain s = Some (Inr (hid', ha', chain @ tail, s\<lparr>bc_header_cache := cache\<rparr>)) \<and>
    headers_ok (s\<lparr>bc_header_cache := cache\<rparr>) \<and> header_of s hid' = Some ha' \<and>
    descends (header_of s) hid tail hid' \<and> hi_height ha' = min h (hi_height ha)"
  using assms
proof (induction "unat (hi_height ha)" arbitrary: hid ha chain s)
  case 0
  then have "\<not> h < hi_height ha" by (simp add: word_less_nat_alt)
  moreover from this have "min h (hi_height ha) = hi_height ha" by (simp only: not_less min.absorb2)
  ultimately show ?case using 0
    by (intro exI [of _ hid] exI [of _ ha] exI [of _ "[] :: hash list"] exI [of _ "bc_header_cache s"])
      (simp add: climb.simps)
next
  case (Suc n)
  show ?case
  proof (cases "h < hi_height ha")
    case False
    then have "min h (hi_height ha) = hi_height ha" by (simp only: not_less min.absorb2)
    with False Suc.prems show ?thesis
      by (intro exI [of _ hid] exI [of _ ha] exI [of _ "[] :: hash list"] exI [of _ "bc_header_cache s"])
        (simp add: climb.simps)
  next
    case True
    then have nz: "hi_height ha \<noteq> 0" by auto
    from tree_ok_parent [OF Suc.prems(2,3) nz] obtain p where p: "header_of s (hi_previous_block_hash ha) = Some p"
      "hi_height p + 1 = hi_height ha" "unat (hi_height ha) = Suc (unat (hi_height p))" by blast
    obtain c1 where c1: "get_header c (hi_previous_block_hash ha) 0 s = Inr (p, s\<lparr>bc_header_cache := c1\<rparr>)"
      "headers_ok (s\<lparr>bc_header_cache := c1\<rparr>)"
      using get_header_ok [OF Suc.prems(1) p(1)] by blast
    have "n = unat (hi_height p)" using Suc.hyps(2) p(3) by simp
    from Suc.hyps(1) [OF this c1(2), of "hi_previous_block_hash ha" "chain @ [hid]"] p(1) Suc.prems(2)
    obtain hid' ha' tail cache where IH:
      "climb c h (hi_previous_block_hash ha) p (chain @ [hid]) (s\<lparr>bc_header_cache := c1\<rparr>) =
        Some (Inr (hid', ha', (chain @ [hid]) @ tail, s\<lparr>bc_header_cache := cache\<rparr>))"
      "headers_ok (s\<lparr>bc_header_cache := cache\<rparr>)" "header_of s hid' = Some ha'"
      "descends (header_of s) (hi_previous_block_hash ha) tail hid'" "hi_height ha' = min h (hi_height p)" by auto
    have "min h (hi_height p) = min h (hi_height ha)"
    proof -
      have "unat h \<le> unat (hi_height p)" using True p(3) by (simp add: word_less_nat_alt)
      then have "h \<le> hi_height p" by (simp only: word_le_nat_alt)
      then show ?thesis using True by (simp only: min.absorb1 less_imp_le)
    qed
    with IH True c1(1) nz Suc.prems(3) show ?thesis
      by (intro exI [of _ hid'] exI [of _ ha'] exI [of _ "hid # tail"] exI [of _ cache])
        (simp add: climb.simps [of c h hid])
  qed
qed

lemma climb_both_ok:
  assumes "headers_ok s" "tree_ok s" "header_of s hid1 = Some ha1" "header_of s hid2 = Some ha2" "hi_height ha1 = hi_height ha2"
  shows "\<exists>b tail1 tail2 cache. climb_both c hid1 ha1 chain1 hid2 ha2 chain2 s =
      Some (Inr (b, chain1 @ tail1, chain2 @ tail2, s\<lparr>bc_header_cache := cache\<rparr>)) \<and>
    headers_ok (s\<lparr>bc_header_cache := cache\<rparr>) \<and>
    descends (header_of s) hid1 tail1 b \<and> descends (header_of s) hid2 tail2 b \<and> set tail1 \<inter> set tail2 = {}"
  using assms
proof (induction "unat (hi_height ha1)" arbitrary: hid1 ha1 chain1 hid2 ha2 chain2 s)
  case 0
  then have "hid1 = bc_genesis_bid s" "hid2 = bc_genesis_bid s" by (auto simp: tree_ok_def unat_eq_0)
  with 0 show ?case
    by (intro exI [of _ hid1] exI [of _ "[] :: hash list"] exI [of _ "bc_header_cache s"]) (simp add: climb_both.simps)
next
  case (Suc n)
  show ?case
  proof (cases "hid1 = hid2")
    case True
    with Suc.prems show ?thesis
      by (intro exI [of _ hid1] exI [of _ "[] :: hash list"] exI [of _ "bc_header_cache s"]) (simp add: climb_both.simps)
  next
    case False
    have nz: "hi_height ha1 \<noteq> 0" "hi_height ha2 \<noteq> 0" using Suc.hyps(2) Suc.prems(5) by auto
    from tree_ok_parent [OF Suc.prems(2,3) nz(1)] obtain p1 where p1: "header_of s (hi_previous_block_hash ha1) = Some p1"
      "hi_height p1 + 1 = hi_height ha1" "unat (hi_height ha1) = Suc (unat (hi_height p1))" by blast
    from tree_ok_parent [OF Suc.prems(2,4) nz(2)] obtain p2 where p2: "header_of s (hi_previous_block_hash ha2) = Some p2"
      "hi_height p2 + 1 = hi_height ha2" "unat (hi_height ha2) = Suc (unat (hi_height p2))" by blast
    obtain c1 where c1: "get_header c (hi_previous_block_hash ha1) 0 s = Inr (p1, s\<lparr>bc_header_cache := c1\<rparr>)"
      "headers_ok (s\<lparr>bc_header_cache := c1\<rparr>)"
      using get_header_ok [OF Suc.prems(1) p1(1)] by blast
    obtain c2 where c2: "get_header c (hi_previous_block_hash ha2) 0 (s\<lparr>bc_header_cache := c1\<rparr>) = Inr (p2, s\<lparr>bc_header_cache := c2\<rparr>)"
      "headers_ok (s\<lparr>bc_header_cache := c2\<rparr>)"
      using get_header_ok [OF c1(2), of "hi_previous_block_hash ha2" p2 c 0] p2(1) by auto
    have n: "n = unat (hi_height p1)" using Suc.hyps(2) p1(3) by simp
    have "hi_height p1 = hi_height p2" using p1(2) p2(2) Suc.prems(5) by (metis add_right_cancel)
    from Suc.hyps(1) [OF n c2(2) _ _ _ this, of "hi_previous_block_hash ha1" "hi_previous_block_hash ha2"
        "chain1 @ [hid1]" "chain2 @ [hid2]"] p1(1) p2(1) Suc.prems(2)
    obtain b tail1 tail2 cache where IH:
      "climb_both c (hi_previous_block_hash ha1) p1 (chain1 @ [hid1]) (hi_previous_block_hash ha2) p2 (chain2 @ [hid2])
        (s\<lparr>bc_header_cache := c2\<rparr>) =
        Some (Inr (b, (chain1 @ [hid1]) @ tail1, (chain2 @ [hid2]) @ tail2, s\<lparr>bc_header_cache := cache\<rparr>))"
      "headers_ok (s\<lparr>bc_header_cache := cache\<rparr>)"
      "descends (header_of s) (hi_previous_block_hash ha1) tail1 b"
      "descends (header_of s) (hi_previous_block_hash ha2) tail2 b" "set tail1 \<inter> set tail2 = {}" by auto
    have "height_of (header_of s) x \<le> n" if "x \<in> set tail1 \<union> set tail2" for x
      using descends_heights [OF Suc.prems(2) IH(3)] descends_heights [OF Suc.prems(2) IH(4)] that
        n p1(1) p2(1) \<open>hi_height p1 = hi_height p2\<close> by (auto simp: height_of_def)
    moreover have "height_of (header_of s) hid1 = Suc n" "height_of (header_of s) hid2 = Suc n"
      using Suc.prems(3,4,5) Suc.hyps(2) by (simp_all add: height_of_def)
    ultimately have "hid1 \<notin> set tail2" "hid2 \<notin> set tail1" by (metis UnI1 UnI2 Suc_n_not_le_n)+
    with IH False c1(1) c2(1) nz Suc.prems(3,4) show ?thesis
      by (intro exI [of _ b] exI [of _ "hid1 # tail1"] exI [of _ "hid2 # tail2"] exI [of _ cache])
        (simp add: climb_both.simps [of c hid1])
  qed
qed

lemma get_common_block_ok:
  assumes "headers_ok s" "tree_ok s" "header_of s bid1 = Some h1" "header_of s bid2 = Some h2"
  shows "\<exists>b chain1 chain2 cache. get_common_block c bid1 bid2 s =
      Some (Inr (b, chain1, chain2, s\<lparr>bc_header_cache := cache\<rparr>)) \<and>
    headers_ok (s\<lparr>bc_header_cache := cache\<rparr>) \<and>
    descends (header_of s) bid1 chain1 b \<and> descends (header_of s) bid2 chain2 b \<and> set chain1 \<inter> set chain2 = {}"
proof -
  obtain c1 where c1: "get_header c bid1 0 s = Inr (h1, s\<lparr>bc_header_cache := c1\<rparr>)" "headers_ok (s\<lparr>bc_header_cache := c1\<rparr>)"
    using get_header_ok [OF assms(1,3)] by blast
  obtain c2 where c2: "get_header c bid2 0 (s\<lparr>bc_header_cache := c1\<rparr>) = Inr (h2, s\<lparr>bc_header_cache := c2\<rparr>)"
    "headers_ok (s\<lparr>bc_header_cache := c2\<rparr>)"
    using get_header_ok [OF c1(2), of bid2 h2 c 0] assms(4) by auto
  obtain hid1 ha1 t1 c3 where t1: "climb c (hi_height h2) bid1 h1 [] (s\<lparr>bc_header_cache := c2\<rparr>) =
      Some (Inr (hid1, ha1, t1, s\<lparr>bc_header_cache := c3\<rparr>))"
    "headers_ok (s\<lparr>bc_header_cache := c3\<rparr>)" "header_of s hid1 = Some ha1"
    "descends (header_of s) bid1 t1 hid1" "hi_height ha1 = min (hi_height h2) (hi_height h1)"
    using climb_ok [OF c2(2), of bid1 h1 c "hi_height h2" "[]"] assms by auto
  obtain hid2 ha2 t2 c4 where t2: "climb c (hi_height ha1) bid2 h2 [] (s\<lparr>bc_header_cache := c3\<rparr>) =
      Some (Inr (hid2, ha2, t2, s\<lparr>bc_header_cache := c4\<rparr>))"
    "headers_ok (s\<lparr>bc_header_cache := c4\<rparr>)" "header_of s hid2 = Some ha2"
    "descends (header_of s) bid2 t2 hid2" "hi_height ha2 = min (hi_height ha1) (hi_height h2)"
    using climb_ok [OF t1(2), of bid2 h2 c "hi_height ha1" "[]"] assms by auto
  have "hi_height ha1 = hi_height ha2" using t1(5) t2(5) by (metis min.commute min.left_idem)
  with climb_both_ok [OF t2(2), of hid1 ha1 hid2 ha2 c t1 t2] t1(3) t2(3) assms(2)
  obtain b u1 u2 c5 where u: "climb_both c hid1 ha1 t1 hid2 ha2 t2 (s\<lparr>bc_header_cache := c4\<rparr>) =
      Some (Inr (b, t1 @ u1, t2 @ u2, s\<lparr>bc_header_cache := c5\<rparr>))"
    "headers_ok (s\<lparr>bc_header_cache := c5\<rparr>)" "descends (header_of s) hid1 u1 b" "descends (header_of s) hid2 u2 b"
    "set u1 \<inter> set u2 = {}" by auto
  let ?h = "height_of (header_of s)"
  have eq: "?h hid1 = ?h hid2" using t1(3) t2(3) \<open>hi_height ha1 = hi_height ha2\<close> by (simp add: height_of_def)
  have hs: "\<forall>x \<in> set t1. ?h hid1 < ?h x" "\<forall>x \<in> set t2. ?h hid2 < ?h x" "\<forall>x \<in> set u1. ?h x \<le> ?h hid1"
    "\<forall>x \<in> set u2. ?h x \<le> ?h hid2"
    using descends_heights [OF assms(2)] t1(4) t2(4) u(3,4) by blast+
  have "t1 = [] \<or> t2 = []"
  proof (cases "hi_height h2 \<le> hi_height h1")
    case True
    then have "?h hid2 = ?h bid2" using t1(5) t2(3,5) assms(4) by (simp add: height_of_def min_def)
    with descends_heights [OF assms(2) t2(4)] show ?thesis by simp
  next
    case False
    then have "?h hid1 = ?h bid1" using t1(3,5) assms(3) by (simp add: height_of_def min_def)
    with descends_heights [OF assms(2) t1(4)] show ?thesis by simp
  qed
  then have "set (t1 @ u1) \<inter> set (t2 @ u2) = {}"
    using hs u(5) eq by (auto simp: not_less [symmetric])
  moreover have "get_common_block c bid1 bid2 s = Some (Inr (b, t1 @ u1, t2 @ u2, s\<lparr>bc_header_cache := c5\<rparr>))"
    by (simp add: get_common_block_def c1 c2 t1(1) t2(1) u(1))
  ultimately show ?thesis
    using u(2-4) t1(4) t2(4) by (blast intro: descends_append)
qed

end
