(* ===== verification/Tree_Index.thy ===== *)
theory Tree_Index
  imports Block_Tree
begin

text \<open>
  The index of the leaves of the block tree: the counters of \<open>Core/BlockChain.cpp\<close> are the
  numbers of children, and \<open>x-tips/\<close> lists exactly the leaves, by cumulative difficulty.
  Adding a block and pruning a leaf keep it so.
\<close>

section \<open>What the index holds\<close>

definition children :: "(hash \<Rightarrow> header_info option) \<Rightarrow> hash \<Rightarrow> hash set" where
  "children H bid = {b. \<exists>h. H b = Some h \<and> hi_height h \<noteq> 0 \<and> hi_previous_block_hash h = bid}"

definition is_leaf_entry :: "(hash \<Rightarrow> header_info option) \<Rightarrow> difficulty \<Rightarrow> hash \<Rightarrow> bool" where
  "is_leaf_entry H cd bid \<longleftrightarrow> (\<exists>h. H bid = Some h \<and> hi_cumulative_difficulty h = cd) \<and> children H bid = {}"

definition index_ok :: "'a block_chain_scheme \<Rightarrow> bool" where
  "index_ok s \<longleftrightarrow> finite (dom (header_of s)) \<and> card (dom (header_of s)) < 2 ^ 32 \<and>
     (\<forall>bid. header_of s bid \<noteq> None \<longrightarrow>
        children_counter bid s = Inr (word_of_nat (card (children (header_of s) bid)))) \<and>
     (\<forall>bid. header_of s bid = None \<longrightarrow> db_get (bc_db s) (children_key bid) = None) \<and>
     (\<forall>cd bid. db_get (bc_db s) (cd_tips_key cd bid) \<noteq> None \<longleftrightarrow> is_leaf_entry (header_of s) cd bid) \<and>
     (\<forall>r. db_get (bc_db s) (CD_TIPS_PREFIX @ r) \<noteq> None \<longrightarrow> (\<exists>cd bid. CD_TIPS_PREFIX @ r = cd_tips_key cd bid))"

lemma index_okD:
  assumes "index_ok s"
  shows "finite (dom (header_of s))" "card (dom (header_of s)) < 2 ^ 32"
    "header_of s bid \<noteq> None \<Longrightarrow> children_counter bid s = Inr (word_of_nat (card (children (header_of s) bid)))"
    "header_of s bid = None \<Longrightarrow> db_get (bc_db s) (children_key bid) = None"
    "db_get (bc_db s) (cd_tips_key cd bid) \<noteq> None \<longleftrightarrow> is_leaf_entry (header_of s) cd bid"
    "db_get (bc_db s) (CD_TIPS_PREFIX @ r) \<noteq> None \<Longrightarrow> \<exists>cd bid. CD_TIPS_PREFIX @ r = cd_tips_key cd bid"
  using assms unfolding index_ok_def by blast+

lemma children_subset: "children H bid \<subseteq> dom H"
  by (auto simp: children_def)

lemma card_children:
  assumes "index_ok s"
  shows "finite (children (header_of s) bid)" "card (children (header_of s) bid) < 2 ^ 32"
proof -
  show "finite (children (header_of s) bid)"
    using children_subset index_okD(1) [OF assms] by (rule finite_subset)
  have "card (children (header_of s) bid) \<le> card (dom (header_of s))"
    using index_okD(1) [OF assms] children_subset by (rule card_mono)
  then show "card (children (header_of s) bid) < 2 ^ 32" using index_okD(2) [OF assms] by linarith
qed

lemma tips_prefix: "CD_TIPS_PREFIX @ r \<noteq> children_key x" "CD_TIPS_PREFIX @ r \<noteq> header_key x" "CD_TIPS_PREFIX @ r \<noteq> block_key x"
  by (simp_all add: key_defs)

section \<open>Counting children\<close>

lemma modify_children_counter_ok:
  assumes "om_wf (bc_db s)" "children_counter bid s = Inr n"
  shows "\<exists>db. modify_children_counter cd bid delta s = Inr (s\<lparr>bc_db := db\<rparr>) \<and> om_wf db \<and>
    (\<forall>key. db_get db key =
       (if key = children_key bid then (if n + delta = 1 then None else Some (to_binary enc_u32 (n + delta)))
        else if key = cd_tips_key cd bid then (if n + delta = 0 then Some [] else None)
        else db_get (bc_db s) key))"
proof -
  define m where "m = n + delta"
  obtain d1 where d1: "(if m = 1 then db_del (bc_db s) (children_key bid) False
      else db_put (bc_db s) (children_key bid) (to_binary enc_u32 m) False) = Inr d1"
    by (cases "m = 1") (auto simp: db_del_def db_put_def)
  have g1: "om_wf d1" "db_get d1 key = (if key = children_key bid then (if m = 1 then None else Some (to_binary enc_u32 m))
      else db_get (bc_db s) key)" for key
    using d1 assms(1) by (auto simp: db_get_del db_get_put intro: om_wf_del om_wf_put split: if_splits)
  obtain d2 where d2: "(if m = 0 then db_put d1 (cd_tips_key cd bid) [] False
      else db_del d1 (cd_tips_key cd bid) False) = Inr d2"
    by (cases "m = 0") (auto simp: db_del_def db_put_def)
  have g2: "om_wf d2" "db_get d2 key = (if key = cd_tips_key cd bid then (if m = 0 then Some [] else None)
      else db_get d1 key)" for key
    using d2 g1(1) by (auto simp: db_get_del db_get_put intro: om_wf_del om_wf_put split: if_splits)
  have "modify_children_counter cd bid delta s = Inr (s\<lparr>bc_db := d2\<rparr>)"
    by (simp only: modify_children_counter_def assms(2) m_def [symmetric] Let_def d1 d2 res_bind_Inr)
  with g1(2) g2 show ?thesis by (intro exI [of _ d2]) (simp add: m_def)
qed

lemma counter_after:
  assumes "db_get (bc_db s') (children_key bid) = (if n = 1 then None else Some (to_binary enc_u32 n))"
  shows "children_counter bid s' = Inr n"
  using assms u32.from_to_binary [OF TrueI, of n] by (simp add: children_counter_def)

lemma counter_same:
  "db_get (bc_db s') (children_key bid) = db_get (bc_db s) (children_key bid) \<Longrightarrow> children_counter bid s' = children_counter bid s"
  by (simp add: children_counter_def)

section \<open>A new leaf\<close>

text \<open>What \<open>add_block\<close> does to the tree for a block that is not the genesis block.\<close>

definition add_leaf :: "header_info \<Rightarrow> difficulty \<Rightarrow> chain_state \<Rightarrow> chain_state result" where
  "add_leaf info parent_cd s =
     (let bid = hi_hash info in
      res_bind (store_header bid info s) (\<lambda>s.
      res_bind (modify_children_counter parent_cd (hi_previous_block_hash info) 1 s) (\<lambda>s.
      res_bind (check_children_counter (hi_cumulative_difficulty info) bid 1 s) (\<lambda>_.
      modify_children_counter (hi_cumulative_difficulty info) bid (- 1) s))))"

lemma children_add:
  assumes "H bid = None" "hi_height info \<noteq> 0" "hi_previous_block_hash info = prev" "prev \<noteq> bid"
  shows "children (H(bid \<mapsto> info)) x = (if x = prev then insert bid (children H x) else children H x)"
    "bid \<notin> children H x"
  using assms by (auto simp: children_def)

lemma tree_no_children: "tree_ok s \<Longrightarrow> header_of s bid = None \<Longrightarrow> children (header_of s) bid = {}"
  by (fastforce simp: tree_ok_def children_def)

lemma index_ok_add:
  assumes ok: "index_ok s" "tree_ok s"
    and new: "header_of s bid = None" "hi_height info \<noteq> 0" "hi_previous_block_hash info = prev"
    and p: "header_of s prev = Some p" and room: "card (dom (header_of s)) + 1 < 2 ^ 32"
    and H: "header_of s' = (header_of s)(bid \<mapsto> info)"
    and cnt: "\<And>x. children_counter x s' = (if x = bid then Inr 0
       else if x = prev then res_bind (children_counter prev s) (\<lambda>n. Inr (n + 1)) else children_counter x s)"
      "\<And>x. header_of s' x = None \<Longrightarrow> db_get (bc_db s') (children_key x) = None"
    and tips: "\<And>cd x. db_get (bc_db s') (cd_tips_key cd x) \<noteq> None \<longleftrightarrow>
       (if x = bid then cd = hi_cumulative_difficulty info
        else db_get (bc_db s) (cd_tips_key cd x) \<noteq> None \<and> \<not> (x = prev \<and> cd = hi_cumulative_difficulty p))"
    and only: "\<And>r. db_get (bc_db s') (CD_TIPS_PREFIX @ r) \<noteq> None \<Longrightarrow>
       db_get (bc_db s) (CD_TIPS_PREFIX @ r) \<noteq> None \<or> (\<exists>cd x. CD_TIPS_PREFIX @ r = cd_tips_key cd x)"
  shows "index_ok s'"
proof -
  have pb: "prev \<noteq> bid" using new(1) p by auto
  note ch = children_add [of "header_of s", OF new pb]
  have none: "children (header_of s) bid = {}" by (rule tree_no_children [OF ok(2) new(1)])
  have dom: "finite (dom (header_of s'))" "card (dom (header_of s')) < 2 ^ 32"
    using index_okD(1) [OF ok(1)] room by (simp_all add: H card_insert_if)
  have "children_counter x s' = Inr (word_of_nat (card (children (header_of s') x)))" if "header_of s' x \<noteq> None" for x
  proof -
    have "children_counter x s = Inr (word_of_nat (card (children (header_of s) x)))" if "x \<noteq> bid"
      using index_okD(3) [OF ok(1), of x] that \<open>header_of s' x \<noteq> None\<close> by (simp add: H)
    moreover have "card (insert bid (children (header_of s) prev)) = card (children (header_of s) prev) + 1"
      using card_children(1) [OF ok(1)] ch(2) by simp
    moreover have "children_counter prev s = Inr (word_of_nat (card (children (header_of s) prev)))"
      using index_okD(3) [OF ok(1), of prev] p by simp
    ultimately show ?thesis using none pb by (simp add: cnt(1) H ch(1) add.commute)
  qed
  moreover have "db_get (bc_db s') (cd_tips_key cd x) \<noteq> None \<longleftrightarrow> is_leaf_entry (header_of s') cd x" for cd x
    using index_okD(5) [OF ok(1), of cd x] none pb p unfolding tips H is_leaf_entry_def ch(1) by auto
  moreover have "\<exists>cd x. CD_TIPS_PREFIX @ r = cd_tips_key cd x" if "db_get (bc_db s') (CD_TIPS_PREFIX @ r) \<noteq> None" for r
    using only [OF that] index_okD(6) [OF ok(1)] by blast
  ultimately show ?thesis using dom cnt(2) unfolding index_ok_def by blast
qed

text \<open>The sequence succeeds, adds the header to the tree and keeps everything in order.\<close>

lemma add_leaf_ok:
  assumes hd: "headers_ok s" and tr: "tree_ok s" and ix: "index_ok s"
    and bid: "hi_hash info = bid" "header_of s bid = None" "valid_header_info info"
    and p: "hi_previous_block_hash info = prev" "header_of s prev = Some p" "hi_height info = hi_height p + 1" "hi_height info \<noteq> - 1"
    and room: "card (dom (header_of s)) + 1 < 2 ^ 32"
  shows "\<exists>db. add_leaf info (hi_cumulative_difficulty p) s = Inr (s\<lparr>bc_db := db\<rparr>) \<and>
    header_of (s\<lparr>bc_db := db\<rparr>) = (header_of s)(bid \<mapsto> info) \<and>
    headers_ok (s\<lparr>bc_db := db\<rparr>) \<and> tree_ok (s\<lparr>bc_db := db\<rparr>) \<and> index_ok (s\<lparr>bc_db := db\<rparr>) \<and>
    (\<forall>key. key \<noteq> header_key bid \<and> (\<forall>x. key \<noteq> children_key x) \<and> (\<forall>cd x. key \<noteq> cd_tips_key cd x) \<longrightarrow>
       db_get db key = db_get (bc_db s) key)"
proof -
  let ?cd = "hi_cumulative_difficulty info" let ?cp = "hi_cumulative_difficulty p"
  have pb: "prev \<noteq> bid" using bid(2) p(2) by auto
  have "hi_height p \<noteq> - 1" using tr p(2) by (auto simp: tree_ok_def)
  then have nz: "hi_height info \<noteq> 0" unfolding p(3) by (metis add_eq_0_iff2)
  have "db_get (bc_db s) (header_key bid) = None"
    using bid(2) headers_okD(3) [OF hd, of bid] by (cases "db_get (bc_db s) (header_key bid)") (auto simp: header_of_def)
  then obtain d0 where put: "db_put (bc_db s) (header_key bid) (to_binary enc_header_info info) True = Inr d0"
    by (simp add: db_put_def)
  note g0 = db_get_put [OF put]
  have wf0: "om_wf d0" using om_wf_put [OF headers_okD(1) [OF hd] put] .
  define s0 where "s0 = s\<lparr>bc_db := d0\<rparr>"
  define n where "n = (word_of_nat (card (children (header_of s) prev)) :: u32)"
  have n: "children_counter prev s0 = Inr n"
    using index_okD(3) [OF ix, of prev] p(2) counter_same [of s0 prev s] by (simp add: s0_def g0 n_def)
  have n1: "n + 1 \<noteq> 0"
  proof -
    have "card (children (header_of s) prev) \<le> card (dom (header_of s))"
      using index_okD(1) [OF ix] children_subset by (rule card_mono)
    then have "unat n + 1 < 2 ^ 32" using room by (simp add: n_def unat_of_nat)
    then have "unat (n + 1) = unat n + 1" by (simp add: unat_word_ariths)
    then show ?thesis by auto
  qed
  obtain d1 where m1: "modify_children_counter ?cp prev 1 s0 = Inr (s0\<lparr>bc_db := d1\<rparr>)" and wf1: "om_wf d1"
    and g1: "\<And>key. db_get d1 key = (if key = children_key prev then (if n + 1 = 1 then None else Some (to_binary enc_u32 (n + 1)))
        else if key = cd_tips_key ?cp prev then None else db_get d0 key)"
    using modify_children_counter_ok [OF _ n, of ?cp 1] wf0 n1 by (auto simp: s0_def)
  define s1 where "s1 = s0\<lparr>bc_db := d1\<rparr>"
  have cb: "children_counter bid s1 = Inr 1"
    using pb index_okD(4) [OF ix bid(2)] by (simp add: children_counter_def s1_def g1 g0)
  have nt: "db_get d1 (cd_tips_key ?cd bid) = None"
    using index_okD(5) [OF ix, of ?cd bid] bid(2) pb by (simp add: g1 g0 is_leaf_entry_def)
  have chk: "check_children_counter ?cd bid 1 s1 = Inr ()"
    by (simp add: check_children_counter_def cb nt Let_def s1_def [symmetric]) (simp add: s1_def nt)
  obtain d2 where m2: "modify_children_counter ?cd bid (- 1) s1 = Inr (s1\<lparr>bc_db := d2\<rparr>)" and wf2: "om_wf d2"
    and g2: "\<And>key. db_get d2 key = (if key = children_key bid then Some (to_binary enc_u32 0)
        else if key = cd_tips_key ?cd bid then Some [] else db_get d1 key)"
    using modify_children_counter_ok [OF _ cb, of ?cd "- 1"] wf1 by (auto simp: s1_def)
  define s2 where "s2 = s\<lparr>bc_db := d2\<rparr>"
  have run: "add_leaf info ?cp s = Inr s2"
    using put m1 chk m2 by (simp add: add_leaf_def store_header_def bid(1) p(1) s0_def s1_def s2_def)
  have dec: "from_binary dec_header_info (to_binary enc_header_info info) = Inr info"
    by (rule header_info.from_to_binary [OF bid(3)])
  have H: "header_of s2 = (header_of s)(bid \<mapsto> info)"
    by (rule ext) (simp add: header_of_def s2_def g2 g1 g0 dec)
  have ok2: "headers_ok s2"
    using hd wf2 bid(1,2) dec H unfolding headers_ok_def
    by (auto simp: s2_def g2 g1 g0 split: if_splits)
  have tree: "tree_ok s2"
  proof -
    have sel: "bc_genesis_bid s2 = bc_genesis_bid s" by (simp add: s2_def)
    show ?thesis unfolding tree_ok_def H sel
    proof (intro allI impI)
      fix b h
      assume b: "((header_of s)(bid \<mapsto> info)) b = Some h"
      show "hi_height h \<noteq> - 1 \<and> (hi_height h = 0 \<longrightarrow> b = bc_genesis_bid s) \<and>
        (hi_height h \<noteq> 0 \<longrightarrow> (\<exists>q. ((header_of s)(bid \<mapsto> info)) (hi_previous_block_hash h) = Some q \<and> hi_height q + 1 = hi_height h))"
      proof (cases "b = bid")
        case True
        with b p nz pb show ?thesis by auto
      next
        case False
        with b have "header_of s b = Some h" by simp
        with tr bid(2) show ?thesis by (fastforce simp: tree_ok_def)
      qed
    qed
  qed
  have "index_ok s2"
  proof (rule index_ok_add [OF ix tr bid(2) nz p(1,2) room H])
    fix x cd
    have "children_counter x s2 = children_counter x s" if "x \<noteq> bid" "x \<noteq> prev"
      using that by (intro counter_same) (simp add: s2_def g2 g1 g0)
    moreover have "children_counter bid s2 = Inr 0"
      by (rule counter_after) (simp add: s2_def g2)
    moreover have "children_counter prev s2 = Inr (n + 1)"
      using pb by (intro counter_after) (simp add: s2_def g2 g1)
    moreover have "children_counter prev s = Inr n" using index_okD(3) [OF ix, of prev] p(2) by (simp add: n_def)
    ultimately show "children_counter x s2 = (if x = bid then Inr 0
       else if x = prev then res_bind (children_counter prev s) (\<lambda>n. Inr (n + 1)) else children_counter x s)" by simp
    show "db_get (bc_db s2) (children_key x) = None" if "header_of s2 x = None"
    proof -
      from that p(2) have "header_of s x = None" "x \<noteq> bid" "x \<noteq> prev" by (auto simp: H split: if_splits)
      with index_okD(4) [OF ix, of x] show ?thesis by (simp add: s2_def g2 g1 g0)
    qed
    show "db_get (bc_db s2) (cd_tips_key cd x) \<noteq> None \<longleftrightarrow>
       (if x = bid then cd = ?cd else db_get (bc_db s) (cd_tips_key cd x) \<noteq> None \<and> \<not> (x = prev \<and> cd = ?cp))"
      using pb index_okD(5) [OF ix, of cd bid] bid(2) by (auto simp: s2_def g2 g1 g0 is_leaf_entry_def)
    show "db_get (bc_db s) (CD_TIPS_PREFIX @ r) \<noteq> None \<or> (\<exists>cd x. CD_TIPS_PREFIX @ r = cd_tips_key cd x)"
      if "db_get (bc_db s2) (CD_TIPS_PREFIX @ r) \<noteq> None" for r
    proof (cases "\<exists>cd x. CD_TIPS_PREFIX @ r = cd_tips_key cd x")
      case False
      then have "CD_TIPS_PREFIX @ r \<noteq> cd_tips_key cd x" for cd x by blast
      with that tips_prefix [of r] show ?thesis by (simp add: s2_def g2 g1 g0)
    qed simp
  qed
  with run H ok2 tree show ?thesis by (intro exI [of _ d2]) (auto simp: s2_def g2 g1 g0)
qed

section \<open>Pruning a leaf\<close>

lemma children_remove:
  assumes "H bid = Some h" "hi_height h \<noteq> 0" "hi_previous_block_hash h = prev"
  shows "children (H(bid := None)) x = children H x - {bid}" "bid \<in> children H x \<longleftrightarrow> x = prev"
  using assms by (auto simp: children_def)

lemma index_ok_remove:
  assumes ok: "index_ok s"
    and old: "header_of s bid = Some h" "hi_height h \<noteq> 0" "hi_previous_block_hash h = prev" "children (header_of s) bid = {}"
    and p: "header_of s prev = Some p" "prev \<noteq> bid"
    and H: "header_of s' = (header_of s)(bid := None)"
    and cnt: "\<And>x. x \<noteq> bid \<Longrightarrow> children_counter x s' =
       (if x = prev then res_bind (children_counter prev s) (\<lambda>n. Inr (n - 1)) else children_counter x s)"
      "\<And>x. header_of s' x = None \<Longrightarrow> db_get (bc_db s') (children_key x) = None"
    and tips: "\<And>cd x. db_get (bc_db s') (cd_tips_key cd x) \<noteq> None \<longleftrightarrow>
       (if x = bid then False
        else if x = prev \<and> cd = hi_cumulative_difficulty p then children (header_of s) prev = {bid}
        else db_get (bc_db s) (cd_tips_key cd x) \<noteq> None)"
    and only: "\<And>r. db_get (bc_db s') (CD_TIPS_PREFIX @ r) \<noteq> None \<Longrightarrow>
       db_get (bc_db s) (CD_TIPS_PREFIX @ r) \<noteq> None \<or> (\<exists>cd x. CD_TIPS_PREFIX @ r = cd_tips_key cd x)"
  shows "index_ok s'"
proof -
  note ch = children_remove [of "header_of s", OF old(1-3)]
  have dom: "finite (dom (header_of s'))" "card (dom (header_of s')) < 2 ^ 32"
    using index_okD(1,2) [OF ok] by (simp_all add: H card_Diff1_le [THEN le_less_trans])
  have "children_counter x s' = Inr (word_of_nat (card (children (header_of s') x)))" if "header_of s' x \<noteq> None" for x
  proof -
    have xb: "x \<noteq> bid" using that by (auto simp: H)
    have "card (children (header_of s) prev) = Suc (card (children (header_of s) prev - {bid}))"
      using ch(2) [of prev] card_children(1) [OF ok] by (metis card_Suc_Diff1)
    moreover have "children_counter x s = Inr (word_of_nat (card (children (header_of s) x)))"
      "children_counter prev s = Inr (word_of_nat (card (children (header_of s) prev)))"
      using index_okD(3) [OF ok] that p by (simp_all add: H split: if_splits)
    ultimately show ?thesis using xb ch(2) [of x] by (simp add: cnt(1) H ch(1))
  qed
  moreover have "db_get (bc_db s') (cd_tips_key cd x) \<noteq> None \<longleftrightarrow> is_leaf_entry (header_of s') cd x" for cd x
    using index_okD(5) [OF ok, of cd x] p ch(2) [of x] unfolding tips H is_leaf_entry_def ch(1) by auto
  moreover have "\<exists>cd x. CD_TIPS_PREFIX @ r = cd_tips_key cd x" if "db_get (bc_db s') (CD_TIPS_PREFIX @ r) \<noteq> None" for r
    using only [OF that] index_okD(6) [OF ok] by blast
  ultimately show ?thesis using dom cnt(2) unfolding index_ok_def by blast
qed

lemma tree_ok_remove:
  assumes "tree_ok s" "children (header_of s) bid = {}" "header_of s' = (header_of s)(bid := None)"
    and "bc_genesis_bid s' = bc_genesis_bid s"
  shows "tree_ok s'"
  unfolding tree_ok_def assms(3,4)
proof (intro allI impI)
  fix b h
  assume b: "((header_of s)(bid := None)) b = Some h"
  then have h: "header_of s b = Some h" by (simp split: if_splits)
  with assms(2) have "hi_height h \<noteq> 0 \<Longrightarrow> hi_previous_block_hash h \<noteq> bid" by (auto simp: children_def)
  with h assms(1) show "hi_height h \<noteq> - 1 \<and> (hi_height h = 0 \<longrightarrow> b = bc_genesis_bid s) \<and>
    (hi_height h \<noteq> 0 \<longrightarrow> (\<exists>q. ((header_of s)(bid := None)) (hi_previous_block_hash h) = Some q \<and> hi_height q + 1 = hi_height h))"
    by (auto simp: tree_ok_def)
qed

text \<open>A leaf that is not the tip is not in the current chain.\<close>

lemma leaf_not_in_chain:
  assumes "chain_ok s C" "children (header_of s) bid = {}" "bid \<noteq> last C"
  shows "bid \<notin> set C"
proof
  assume "bid \<in> set C"
  then obtain i where i: "i < length C" "C ! i = bid" by (auto simp: in_set_conv_nth)
  with assms(3) chain_okD(3) [OF assms(1)] have "Suc i < length C"
    by (metis Suc_lessI diff_Suc_1 last_conv_nth)
  then obtain h where "header_of s (C ! Suc i) = Some h" "unat (hi_height h) = Suc i" "hi_previous_block_hash h = bid"
    using chain_ok_header [OF assms(1), of "Suc i"] i by auto
  then have "C ! Suc i \<in> children (header_of s) bid" by (auto simp: children_def)
  with assms(2) show False by simp
qed

lemma prune_branch_ok:
  assumes ok: "chain_ok s C" and ix: "index_ok s"
    and leaf: "header_of s bid = Some h" "children (header_of s) bid = {}" "bid \<noteq> last C"
    and blk: "has_block bid s"
  shows "\<exists>s' cache. prune_branch c (hi_cumulative_difficulty h) bid s = Inr (True, s') \<and>
    header_of s' = (header_of s)(bid := None) \<and> \<not> has_block bid s' \<and> index_ok s' \<and> tree_ok s' \<and>
    s' = s\<lparr>bc_header_cache := cache, bc_db := bc_db s'\<rparr> \<and> headers_ok (s\<lparr>bc_header_cache := cache\<rparr>)"
proof -
  let ?cd = "hi_cumulative_difficulty h" and ?prev = "hi_previous_block_hash h"
  have hd: "headers_ok s" and tr: "tree_ok s" using chain_okD(1,2) [OF ok] .
  have nin: "bid \<notin> set C" by (rule leaf_not_in_chain [OF ok leaf(2,3)])
  have nz: "hi_height h \<noteq> 0"
  proof
    assume "hi_height h = 0"
    with tr leaf(1) have "bid = hd C" using chain_ok_genesis [OF ok] by (simp add: tree_ok_def)
    with nin chain_okD(3) [OF ok] show False by simp
  qed
  from tree_ok_parent [OF tr leaf(1) nz] obtain p where
    p: "header_of s ?prev = Some p" "hi_height p + 1 = hi_height h" "unat (hi_height h) = Suc (unat (hi_height p))" by blast
  have pb: "?prev \<noteq> bid" using p leaf(1) by auto
  let ?cp = "hi_cumulative_difficulty p"
  have c0: "children_counter bid s = Inr 0" using index_okD(3) [OF ix, of bid] leaf by simp
  have t0: "db_get (bc_db s) (cd_tips_key ?cd bid) \<noteq> None" using index_okD(5) [OF ix] leaf by (simp add: is_leaf_entry_def)
  have chk: "check_children_counter ?cd bid 0 s = Inr ()"
    using t0 by (simp add: check_children_counter_def c0 Let_def)
  obtain k1 where k1: "get_header c bid 0 s = Inr (h, s\<lparr>bc_header_cache := k1\<rparr>)" "headers_ok (s\<lparr>bc_header_cache := k1\<rparr>)"
    using get_header_ok [OF hd leaf(1)] by blast
  obtain k2 where k2: "get_header c ?prev 0 (s\<lparr>bc_header_cache := k1\<rparr>) = Inr (p, s\<lparr>bc_header_cache := k2\<rparr>)"
    "headers_ok (s\<lparr>bc_header_cache := k2\<rparr>)"
    using get_header_ok [OF k1(2), of ?prev p c 0] p(1) by auto
  define s1 where "s1 = s\<lparr>bc_header_cache := k2\<rparr>"
  have "children_counter bid s1 = Inr 0" using c0 by (simp add: s1_def children_counter_def)
  then obtain d1 where m1: "modify_children_counter ?cd bid 1 s1 = Inr (s1\<lparr>bc_db := d1\<rparr>)" and wf1: "om_wf d1"
    and g1: "\<And>key. db_get d1 key = (if key = children_key bid then None
        else if key = cd_tips_key ?cd bid then None else db_get (bc_db s) key)"
    using modify_children_counter_ok [of s1 bid 0 ?cd 1] headers_okD(1) [OF hd] by (auto simp: s1_def)
  define n where "n = (word_of_nat (card (children (header_of s) ?prev)) :: u32)"
  have n: "children_counter ?prev (s1\<lparr>bc_db := d1\<rparr>) = Inr n"
    using index_okD(3) [OF ix, of ?prev] p(1) counter_same [of "s1\<lparr>bc_db := d1\<rparr>" ?prev s] pb by (simp add: g1 n_def)
  have bin: "bid \<in> children (header_of s) ?prev" using leaf(1) nz by (auto simp: children_def)
  have one: "n - 1 = 0 \<longleftrightarrow> children (header_of s) ?prev = {bid}"
  proof -
    have un: "unat n = card (children (header_of s) ?prev)"
      unfolding n_def unat_of_nat by (rule mod_less) (use card_children(2) [OF ix, of ?prev] in simp)
    have "n - 1 = 0 \<longleftrightarrow> n = 1" by (simp only: right_minus_eq)
    also have "\<dots> \<longleftrightarrow> card (children (header_of s) ?prev) = 1" by (simp only: word_unat_eq_iff unat_1 un)
    also have "\<dots> \<longleftrightarrow> children (header_of s) ?prev = {bid}"
    proof
      assume "card (children (header_of s) ?prev) = 1"
      then obtain y where "children (header_of s) ?prev = {y}" by (rule card_1_singletonE)
      with bin show "children (header_of s) ?prev = {bid}" by simp
    qed simp
    finally show ?thesis .
  qed
  obtain d2 where m2: "modify_children_counter ?cp ?prev (- 1) (s1\<lparr>bc_db := d1\<rparr>) = Inr (s1\<lparr>bc_db := d2\<rparr>)" and wf2: "om_wf d2"
    and g2: "\<And>key. db_get d2 key = (if key = children_key ?prev then (if n - 1 = 1 then None else Some (to_binary enc_u32 (n - 1)))
        else if key = cd_tips_key ?cp ?prev then (if n - 1 = 0 then Some [] else None) else db_get d1 key)"
    using modify_children_counter_ok [OF _ n, of ?cp "- 1"] wf1 by auto
  have "db_get d2 (block_key bid) \<noteq> None" using blk by (simp add: g2 g1 has_block_def)
  then obtain d3 where del3: "db_del d2 (block_key bid) True = Inr d3" by (auto simp: db_del_def)
  note g3 = db_get_del [OF wf2 del3]
  have "db_get d3 (header_key bid) \<noteq> None" using leaf(1)
    by (cases "db_get (bc_db s) (header_key bid)") (simp_all add: g3 g2 g1 header_of_def)
  then obtain d4 where del4: "db_del d3 (header_key bid) True = Inr d4" by (auto simp: db_del_def)
  note g4 = db_get_del [OF om_wf_del [OF wf2 del3] del4]
  define s2 where "s2 = s1\<lparr>bc_db := d4\<rparr>"
  have tip: "bid \<noteq> bc_tip_bid s" using leaf(3) chain_okD(8) [OF ok] by simp
  have run: "prune_branch c ?cd bid s = Inr (True, s2)"
    using tip by (simp add: prune_branch_def chk k1(1) k2(1) m1 [unfolded s1_def] m2 [unfolded s1_def] del3 del4 s2_def s1_def)
  have H: "header_of s2 = (header_of s)(bid := None)"
    by (rule ext) (simp add: header_of_def s2_def g4 g3 g2 g1)
  have "index_ok s2"
  proof (rule index_ok_remove [OF ix leaf(1) nz refl leaf(2) p(1) pb H])
    fix x cd
    have "children_counter x s2 = children_counter x s" if "x \<noteq> bid" "x \<noteq> ?prev"
      using that by (intro counter_same) (simp add: s2_def g4 g3 g2 g1)
    moreover have "children_counter ?prev s2 = Inr (n - 1)"
      using pb by (intro counter_after) (simp add: s2_def g4 g3 g2)
    moreover have "children_counter ?prev s = Inr n" using index_okD(3) [OF ix, of ?prev] p(1) by (simp add: n_def)
    ultimately show "children_counter x s2 = (if x = ?prev then res_bind (children_counter ?prev s) (\<lambda>n. Inr (n - 1)) else children_counter x s)"
      if "x \<noteq> bid" using that by simp
    show "db_get (bc_db s2) (children_key x) = None" if "header_of s2 x = None"
    proof (cases "x = bid")
      case True
      with pb show ?thesis by (simp add: s2_def g4 g3 g2 g1)
    next
      case False
      with that p(1) have "header_of s x = None" "x \<noteq> ?prev" by (auto simp: H split: if_splits)
      with False index_okD(4) [OF ix, of x] show ?thesis by (simp add: s2_def g4 g3 g2 g1)
    qed
    show "db_get (bc_db s2) (cd_tips_key cd x) \<noteq> None \<longleftrightarrow>
       (if x = bid then False else if x = ?prev \<and> cd = ?cp then children (header_of s) ?prev = {bid}
        else db_get (bc_db s) (cd_tips_key cd x) \<noteq> None)"
      using pb one index_okD(5) [OF ix, of cd bid] leaf(1) by (auto simp: s2_def g4 g3 g2 g1 is_leaf_entry_def)
    show "db_get (bc_db s) (CD_TIPS_PREFIX @ r) \<noteq> None \<or> (\<exists>cd x. CD_TIPS_PREFIX @ r = cd_tips_key cd x)"
      if "db_get (bc_db s2) (CD_TIPS_PREFIX @ r) \<noteq> None" for r
    proof (cases "\<exists>cd x. CD_TIPS_PREFIX @ r = cd_tips_key cd x")
      case False
      then have "CD_TIPS_PREFIX @ r \<noteq> cd_tips_key cd x" for cd x by blast
      with that tips_prefix [of r] show ?thesis by (simp add: s2_def g4 g3 g2 g1)
    qed simp
  qed
  moreover have "tree_ok s2" by (rule tree_ok_remove [OF tr leaf(2) H]) (simp add: s2_def s1_def)
  moreover have "\<not> has_block bid s2" by (simp add: has_block_def s2_def g4 g3)
  ultimately show ?thesis using run H k2(2) by (intro exI [of _ s2] exI [of _ k2]) (simp add: s2_def s1_def)
qed

section \<open>The oldest leaf\<close>

lemma get_oldest_tip_ok:
  assumes "om_wf (bc_db s)" "index_ok s" "\<forall>bid h. header_of s bid = Some h \<longrightarrow> pod32 bid"
  shows "case get_oldest_tip s of
      Inl e \<Rightarrow> False
    | Inr None \<Rightarrow> (\<forall>cd bid. \<not> is_leaf_entry (header_of s) cd bid)
    | Inr (Some (cd, bid)) \<Rightarrow> is_leaf_entry (header_of s) cd bid \<and>
        (\<forall>cd' bid'. is_leaf_entry (header_of s) cd' bid' \<longrightarrow> cd \<le> cd')"
proof (cases "db_begin (bc_db s) CD_TIPS_PREFIX []")
  case Nil
  have "\<not> is_leaf_entry (header_of s) cd bid" for cd bid
  proof
    assume "is_leaf_entry (header_of s) cd bid"
    with index_okD(5) [OF assms(2)] obtain v where "db_get (bc_db s) (cd_tips_key cd bid) = Some v" by blast
    then have "(write_varint_sqlite4 cd @ bid, v) \<in> set (db_begin (bc_db s) CD_TIPS_PREFIX [])"
      by (simp add: set_db_begin [OF assms(1)] cd_tips_key_def)
    with Nil show False by simp
  qed
  with Nil show ?thesis by (simp add: get_oldest_tip_def)
next
  case (Cons e rest)
  obtain suffix v where e: "e = (suffix, v)" by fastforce
  with Cons have c: "db_begin (bc_db s) CD_TIPS_PREFIX [] = (suffix, v) # rest" by simp
  then have "db_get (bc_db s) (CD_TIPS_PREFIX @ suffix) = Some v"
    using set_db_begin [OF assms(1), of suffix v CD_TIPS_PREFIX "[]"] by simp
  with index_okD(6) [OF assms(2), of suffix] obtain cd bid where x: "CD_TIPS_PREFIX @ suffix = cd_tips_key cd bid" by blast
  then have suffix: "suffix = write_varint_sqlite4 cd @ bid" by (simp add: cd_tips_key_def)
  have leaf: "is_leaf_entry (header_of s) cd bid"
    using index_okD(5) [OF assms(2), of cd bid] \<open>db_get _ _ = Some v\<close> x by simp
  then have "length bid = 32" using assms(3) by (auto simp: is_leaf_entry_def pod32_def)
  then have r: "get_oldest_tip s = Inr (Some (cd, bid))"
    by (simp add: get_oldest_tip_def c suffix tip_entry_def sqlite4.dec_enc)
  have "cd \<le> cd'" if "is_leaf_entry (header_of s) cd' bid'" for cd' bid'
  proof -
    from that index_okD(5) [OF assms(2)] obtain w where "db_get (bc_db s) (cd_tips_key cd' bid') = Some w" by blast
    then have "suffix \<le> write_varint_sqlite4 cd' @ bid'"
      using db_begin_hd_least [OF assms(1) c, of "write_varint_sqlite4 cd' @ bid'" w] by (simp add: cd_tips_key_def)
    then have "\<not> write_varint_sqlite4 cd' @ bid' < write_varint_sqlite4 cd @ bid" by (simp add: suffix not_less)
    then show ?thesis using sqlite4.enc_append_mono [of cd' cd bid' bid] by (meson not_less)
  qed
  with leaf r show ?thesis by auto
qed

end
