(* ===== verification/Sample_Tree.thy ===== *)
theory Sample_Tree
  imports Block_Tree
begin

text \<open>
  A small block tree, the genesis block with one block above it that the current chain has not
  taken yet, for the examples of the theories on the tree.
\<close>

definition sample_bid :: hash where "sample_bid = replicate 32 1"

definition sample_genesis_info :: header_info where
  "sample_genesis_info = empty_header_info"

definition sample_child_info :: header_info where
  "sample_child_info = empty_header_info\<lparr>hi_hash := sample_bid, hi_height := 1, hi_cumulative_difficulty := 1\<rparr>"

definition sample_tree_db :: db where
  "sample_tree_db = om_set (header_key null_hash) (to_binary enc_header_info sample_genesis_info)
     (om_set (header_key sample_bid) (to_binary enc_header_info sample_child_info)
     (om_set (block_key sample_bid) [0]
     (om_set (block_key null_hash) [0]
     (om_set (tip_chain_key 0) null_hash
     (om_set (children_key sample_bid) (to_binary enc_u32 0)
     (om_set (cd_tips_key 1 sample_bid) [] []))))))"

definition sample_tree :: chain_state where
  "sample_tree = \<lparr>bc_db = sample_tree_db, bc_genesis_bid = null_hash, bc_tip_bid = null_hash,
     bc_tip_cumulative_difficulty = 0, bc_tip_height = 0, bc_header_cache = [],
     bc_header_tip_window = [sample_genesis_info],
     cs_next_gi_for_amount = [], cs_tx_pool_version = 2, cs_memory_state_tx = [], cs_memory_state_ki_tx = [],
     cs_memory_state_fee_tx = [], cs_memory_state_total_size = 0, cs_mining_transactions = [],
     cs_next_median_timestamp = 0, cs_next_median_size = 0\<rparr>"

lemma sample_pods [simp]: "pod32 null_hash" "pod32 sample_bid" "sample_bid \<noteq> null_hash" "null_hash \<noteq> sample_bid"
  by (simp_all add: sample_bid_def pod32_def null_hash_def)

lemma sample_infos_valid [simp]: "valid_header_info sample_genesis_info" "valid_header_info sample_child_info"
  by (simp_all add: valid_header_info_def sample_genesis_info_def sample_child_info_def empty_header_info_def)

lemma sample_infos [simp]:
  "hi_hash sample_genesis_info = null_hash" "hi_height sample_genesis_info = 0" "hi_cumulative_difficulty sample_genesis_info = 0"
  "hi_hash sample_child_info = sample_bid" "hi_height sample_child_info = 1" "hi_cumulative_difficulty sample_child_info = 1"
  "hi_previous_block_hash sample_child_info = null_hash"
  by (simp_all add: sample_genesis_info_def sample_child_info_def empty_header_info_def)

lemma sample_tree_wf [simp]: "om_wf sample_tree_db"
  unfolding sample_tree_db_def by (intro om_wf_set om_wf_Nil)

lemma sample_tree_get:
  "db_get sample_tree_db k =
     (if k = header_key null_hash then Some (to_binary enc_header_info sample_genesis_info)
      else if k = header_key sample_bid then Some (to_binary enc_header_info sample_child_info)
      else if k = block_key sample_bid then Some [0]
      else if k = block_key null_hash then Some [0]
      else if k = tip_chain_key 0 then Some null_hash
      else if k = children_key sample_bid then Some (to_binary enc_u32 0)
      else if k = cd_tips_key 1 sample_bid then Some [] else None)"
  by (simp add: sample_tree_db_def db_get_def om_find_Cons del: om_set.simps)

lemma sample_tree_sel [simp]:
  "bc_db sample_tree = sample_tree_db" "bc_genesis_bid sample_tree = null_hash" "bc_tip_bid sample_tree = null_hash"
  "bc_tip_height sample_tree = 0" "bc_header_cache sample_tree = []" "bc_header_tip_window sample_tree = [sample_genesis_info]"
  "bc_tip_cumulative_difficulty sample_tree = 0"
  by (simp_all add: sample_tree_def)

lemma sample_header_of:
  "header_of sample_tree = [null_hash \<mapsto> sample_genesis_info, sample_bid \<mapsto> sample_child_info]"
proof
  fix bid
  show "header_of sample_tree bid = [null_hash \<mapsto> sample_genesis_info, sample_bid \<mapsto> sample_child_info] bid"
    using header_info.from_to_binary [of sample_genesis_info] header_info.from_to_binary [of sample_child_info]
    by (simp add: header_of_def sample_tree_get)
qed

lemma sample_headers_ok: "headers_ok sample_tree"
  using header_info.from_to_binary [of sample_genesis_info] header_info.from_to_binary [of sample_child_info]
  by (auto simp: headers_ok_def sample_header_of sample_tree_get split: if_splits)

lemma sample_tree_ok: "tree_ok sample_tree"
  by (auto simp: tree_ok_def sample_header_of split: if_splits)

lemma sample_tree_chain_ok: "chain_ok sample_tree [null_hash]"
proof -
  have "db_get sample_tree_db (tip_chain_key h) = (if unat h < 1 then Some ([null_hash] ! unat h) else None)" for h
    by (auto simp: sample_tree_get unat_eq_0)
  then show ?thesis
    unfolding chain_ok_def using sample_headers_ok sample_tree_ok by (simp add: sample_header_of)
qed

lemma sample_windows_ok: "windows_ok sample_currency"
  by (simp add: windows_ok_def sample_currency_def make_currency_def get_difficulty_blocks_count_def
    get_timestamp_check_window_def Let_def)

end
