(* ===== verification/Tree_Laws.thy ===== *)
theory Tree_Laws
  imports Tree_Index Sample_Tree
begin

text \<open>
  What the operations on the block tree do together: moving the tip there and back, adding and
  pruning leaves, and the common ancestor of two blocks.
\<close>

section \<open>The tip there and back\<close>

text \<open>
  C19: putting a block on top of the chain and taking it off again succeeds, keeps the chain a
  path of the tree at every step, refreshes the medians of the next block and leaves the
  database exactly as it was.
\<close>

theorem push_pop_chain:
  assumes "chain_ok s C" "windows_ok c" "length C + 1 < 2 ^ 32"
    and "header_of s bid = Some h" "unat (hi_height h) = length C" "hi_previous_block_hash h = last C" "pod32 bid"
  shows "\<exists>s1 s2. push_chain c h s = Inr s1 \<and> chain_ok s1 (C @ [bid]) \<and> medians_ok c s1 \<and>
    pop_chain c (last C) s1 = Inr s2 \<and> chain_ok s2 C \<and> bc_db s2 = bc_db s"
proof -
  obtain s1 where s1: "push_chain c h s = Inr s1" "chain_ok s1 (C @ [bid])" "medians_ok c s1"
    "db_put (bc_db s) (tip_chain_key (bc_tip_height s + 1)) bid True = Inr (bc_db s1)"
    using push_chain_ok [OF assms] by blast
  obtain s2 where s2: "pop_chain c (last C) s1 = Inr s2" "chain_ok s2 C"
    "db_del (bc_db s1) (tip_chain_key (bc_tip_height s1)) True = Inr (bc_db s2)"
    using pop_chain_ok [OF s1(2) chain_okD(3) [OF assms(1)]] by blast
  have "bc_tip_height s1 = bc_tip_height s + 1"
    using chain_okD(3,7) [OF assms(1)] chain_okD(7) [OF s1(2)] by (cases C) (simp_all add: add.commute)
  with s1(4) s2(3) have db: "db_put (bc_db s) (tip_chain_key (bc_tip_height s1)) bid True = Inr (bc_db s1)" by simp
  have wf: "om_wf (bc_db s)" "om_wf (bc_db s1)" "om_wf (bc_db s2)"
    using chain_okD(1) [THEN headers_okD(1)] assms(1) s1(2) s2(2) by blast+
  have "db_get (bc_db s) (tip_chain_key (bc_tip_height s1)) = None" using db by (auto simp: db_put_def split: if_splits)
  then have "db_get (bc_db s2) k = db_get (bc_db s) k" for k
    by (simp add: db_get_del [OF wf(2) s2(3)] db_get_put [OF db])
  then have "bc_db s2 = bc_db s" using om_ext [OF wf(3,1)] by (simp add: db_get_def)
  with s1 s2 show ?thesis by blast
qed

lemma push_pop_chain_witness:
  "\<exists>s1 s2. push_chain sample_currency sample_child_info sample_tree = Inr s1 \<and> chain_ok s1 ([null_hash] @ [sample_bid]) \<and>
    medians_ok sample_currency s1 \<and> pop_chain sample_currency (last [null_hash]) s1 = Inr s2 \<and>
    chain_ok s2 [null_hash] \<and> bc_db s2 = bc_db sample_tree"
  by (rule push_pop_chain [OF sample_tree_chain_ok sample_windows_ok]) (simp_all add: sample_header_of)

section \<open>Leaves\<close>

lemma sample_children:
  "children (header_of sample_tree) bid = (if bid = null_hash then {sample_bid} else {})"
  by (auto simp: children_def sample_header_of split: if_splits)

lemma sample_index_ok: "index_ok sample_tree"
proof -
  note ch = sample_children [unfolded sample_header_of]
  have "children_counter bid sample_tree = Inr (if bid = sample_bid then 0 else 1)" for bid
    using u32.from_to_binary [of 0] by (simp add: children_counter_def sample_tree_get)
  moreover have "\<exists>cd bid. CD_TIPS_PREFIX @ r = cd_tips_key cd bid" if "db_get sample_tree_db (CD_TIPS_PREFIX @ r) \<noteq> None" for r
    using that tips_prefix [of r] by (auto simp: sample_tree_get key_defs split: if_splits)
  moreover have "db_get sample_tree_db (cd_tips_key cd bid) \<noteq> None \<longleftrightarrow> is_leaf_entry (header_of sample_tree) cd bid" for cd bid
    by (auto simp: is_leaf_entry_def sample_header_of ch sample_tree_get)
  ultimately show ?thesis
    unfolding index_ok_def by (simp add: sample_header_of ch sample_tree_get card_insert_if)
qed

text \<open>A tree has a leaf.\<close>

lemma tree_has_leaf:
  assumes "tree_ok s" "index_ok s" "header_of s bid \<noteq> None"
  shows "\<exists>cd b. is_leaf_entry (header_of s) cd b"
proof -
  let ?H = "header_of s"
  have fin: "finite (height_of ?H ` dom ?H)" using index_okD(1) [OF assms(2)] by simp
  moreover have "height_of ?H bid \<in> height_of ?H ` dom ?H" using assms(3) by blast
  ultimately have "Max (height_of ?H ` dom ?H) \<in> height_of ?H ` dom ?H" by (intro Max_in) blast+
  then obtain b h where b: "?H b = Some h" "height_of ?H b = Max (height_of ?H ` dom ?H)" by auto
  have "children ?H b = {}"
  proof (rule ccontr)
    assume "children ?H b \<noteq> {}"
    then obtain x g where x: "?H x = Some g" "hi_height g \<noteq> 0" "hi_previous_block_hash g = b" by (auto simp: children_def)
    from tree_ok_parent [OF assms(1) x(1,2)] obtain p where "?H b = Some p" "unat (hi_height g) = Suc (unat (hi_height p))"
      unfolding x(3) by blast
    then have "height_of ?H b < height_of ?H x" using x(1) by (simp add: height_of_def)
    moreover have "height_of ?H x \<le> height_of ?H b" unfolding b(2) using x(1) by (intro Max_ge fin) blast
    ultimately show False by simp
  qed
  with b(1) show ?thesis by (auto simp: is_leaf_entry_def)
qed

text \<open>
  C20: a round of pruning finds the leaf of least cumulative difficulty.  When that is the tip of
  the current chain nothing happens; otherwise its header and its block go, the index stays
  exact for what is left of the tree, and no block of the current chain is lost.
\<close>

theorem prune_oldest_tip:
  assumes "chain_ok s C" "index_ok s" "\<forall>bid h. header_of s bid = Some h \<longrightarrow> pod32 bid \<and> has_block bid s"
  shows "\<exists>cd bid. get_oldest_tip s = Inr (Some (cd, bid)) \<and> is_leaf_entry (header_of s) cd bid \<and>
    (\<forall>cd' bid'. is_leaf_entry (header_of s) cd' bid' \<longrightarrow> cd \<le> cd') \<and>
    (if bid = last C then prune_branch c cd bid s = Inr (False, s)
     else \<exists>s'. prune_branch c cd bid s = Inr (True, s') \<and> header_of s' = (header_of s)(bid := None) \<and>
       \<not> has_block bid s' \<and> tree_ok s' \<and> index_ok s' \<and> bid \<notin> set C)"
proof -
  obtain h0 where "header_of s (C ! 0) = Some h0"
    using chain_ok_header [OF assms(1), of 0] chain_okD(3) [OF assms(1)] by auto
  then have leaf: "\<exists>cd b. is_leaf_entry (header_of s) cd b"
    using tree_has_leaf [OF chain_okD(2) [OF assms(1)] assms(2)] by blast
  have "om_wf (bc_db s)" using chain_okD(1) [OF assms(1)] by (rule headers_okD(1))
  from get_oldest_tip_ok [OF this assms(2)] assms(3) leaf obtain cd bid where
    t: "get_oldest_tip s = Inr (Some (cd, bid))" "is_leaf_entry (header_of s) cd bid"
      "\<forall>cd' bid'. is_leaf_entry (header_of s) cd' bid' \<longrightarrow> cd \<le> cd'"
    by (auto split: sum.splits option.splits)
  from t(2) obtain h where h: "header_of s bid = Some h" "cd = hi_cumulative_difficulty h" "children (header_of s) bid = {}"
    by (auto simp: is_leaf_entry_def)
  have "prune_branch c cd bid s = Inr (False, s)" if "bid = last C"
    using that chain_okD(8) [OF assms(1)] by (simp add: prune_branch_def)
  moreover have "\<exists>s'. prune_branch c cd bid s = Inr (True, s') \<and> header_of s' = (header_of s)(bid := None) \<and>
       \<not> has_block bid s' \<and> tree_ok s' \<and> index_ok s' \<and> bid \<notin> set C" if "bid \<noteq> last C"
    using prune_branch_ok [OF assms(1,2) h(1,3) that] leaf_not_in_chain [OF assms(1) h(3) that] assms(3) h by blast
  ultimately show ?thesis using t by (intro exI [of _ cd] exI [of _ bid]) simp
qed

lemma sample_blocks: "\<forall>bid h. header_of sample_tree bid = Some h \<longrightarrow> pod32 bid \<and> has_block bid sample_tree"
  by (auto simp: sample_header_of has_block_def sample_tree_get split: if_splits)

lemma prune_oldest_tip_witness:
  "\<exists>cd bid. get_oldest_tip sample_tree = Inr (Some (cd, bid)) \<and> is_leaf_entry (header_of sample_tree) cd bid \<and>
    (\<forall>cd' bid'. is_leaf_entry (header_of sample_tree) cd' bid' \<longrightarrow> cd \<le> cd') \<and>
    (if bid = last [null_hash] then prune_branch sample_currency cd bid sample_tree = Inr (False, sample_tree)
     else \<exists>s'. prune_branch sample_currency cd bid sample_tree = Inr (True, s') \<and> header_of s' = (header_of sample_tree)(bid := None) \<and>
       \<not> has_block bid s' \<and> tree_ok s' \<and> index_ok s' \<and> bid \<notin> set [null_hash])"
  by (rule prune_oldest_tip [OF sample_tree_chain_ok sample_index_ok sample_blocks])

section \<open>The common ancestor\<close>

lemma descends_comparable:
  "descends H a xs b \<Longrightarrow> descends H a ys y \<Longrightarrow> y \<in> set xs \<or> (\<exists>ws. descends H b ws y)"
proof (induction xs arbitrary: a ys)
  case Nil
  then show ?case by auto
next
  case (Cons x xs)
  show ?case
  proof (cases ys)
    case Nil
    with Cons.prems show ?thesis by simp
  next
    case (Cons z zs)
    with Cons.prems Cons.IH show ?thesis by (auto split: option.splits)
  qed
qed

text \<open>
  C21: for any two blocks of the tree the search for their common ancestor ends with the highest
  one: the chains it returns lead from the blocks down to it and have no block in common, and
  every other block below both is below it.
\<close>

theorem get_common_block_highest:
  assumes "headers_ok s" "tree_ok s" "header_of s bid1 = Some h1" "header_of s bid2 = Some h2"
  shows "\<exists>b chain1 chain2 cache. get_common_block c bid1 bid2 s =
      Some (Inr (b, chain1, chain2, s\<lparr>bc_header_cache := cache\<rparr>)) \<and>
    descends (header_of s) bid1 chain1 b \<and> descends (header_of s) bid2 chain2 b \<and> set chain1 \<inter> set chain2 = {} \<and>
    (\<forall>d ys zs. descends (header_of s) bid1 ys d \<and> descends (header_of s) bid2 zs d \<longrightarrow> (\<exists>ws. descends (header_of s) b ws d))"
proof -
  obtain b chain1 chain2 cache where r: "get_common_block c bid1 bid2 s = Some (Inr (b, chain1, chain2, s\<lparr>bc_header_cache := cache\<rparr>))"
    "descends (header_of s) bid1 chain1 b" "descends (header_of s) bid2 chain2 b" "set chain1 \<inter> set chain2 = {}"
    using get_common_block_ok [OF assms] by blast
  have "\<exists>ws. descends (header_of s) b ws d"
    if "descends (header_of s) bid1 ys d" "descends (header_of s) bid2 zs d" for d ys zs
    using descends_comparable [OF r(2) that(1)] descends_comparable [OF r(3) that(2)] r(4) by blast
  with r show ?thesis by blast
qed

lemma get_common_block_highest_witness:
  "\<exists>b chain1 chain2 cache. get_common_block sample_currency sample_bid null_hash sample_tree =
      Some (Inr (b, chain1, chain2, sample_tree\<lparr>bc_header_cache := cache\<rparr>)) \<and>
    descends (header_of sample_tree) sample_bid chain1 b \<and> descends (header_of sample_tree) null_hash chain2 b \<and>
    set chain1 \<inter> set chain2 = {} \<and>
    (\<forall>d ys zs. descends (header_of sample_tree) sample_bid ys d \<and> descends (header_of sample_tree) null_hash zs d \<longrightarrow>
      (\<exists>ws. descends (header_of sample_tree) b ws d))"
  by (rule get_common_block_highest [OF sample_headers_ok sample_tree_ok]) (simp_all add: sample_header_of)

end
