(* ===== verification/Chain_Sync.thy ===== *)
theory Chain_Sync
  imports Sample_Tree
begin

text \<open>
  What the node tells a peer about its chain (\<open>get_sync_headers_chain\<close>,
  \<open>get_sparse_chain\<close> of \<open>Core/BlockChain.cpp\<close>).
\<close>

section \<open>Headers for a locator\<close>

lemma back_to_chain_ok:
  assumes "chain_ok s C" "header_of s bid = Some h"
  shows "\<exists>h' cache xs. back_to_chain c h s = Some (Inr (h', s\<lparr>bc_header_cache := cache\<rparr>)) \<and>
    headers_ok (s\<lparr>bc_header_cache := cache\<rparr>) \<and>
    unat (hi_height h') < length C \<and> C ! unat (hi_height h') = hi_hash h' \<and>
    descends (header_of s) bid xs (hi_hash h') \<and> set xs \<inter> set C = {}"
  using assms
proof (induction "unat (hi_height h)" arbitrary: h bid s)
  case 0
  have hd: "hi_hash h = bid" using header_of_hash [OF chain_okD(1) [OF "0.prems"(1)] "0.prems"(2)] .
  from 0 have z: "hi_height h = 0" by (simp add: unat_eq_0)
  with chain_okD(2) [OF "0.prems"(1)] "0.prems"(2) have "bid = hd C"
    using chain_ok_genesis [OF "0.prems"(1)] by (simp add: tree_ok_def)
  with chain_okD(3) [OF "0.prems"(1)] z hd chain_okD(1) [OF "0.prems"(1)] show ?case
    by (intro exI [of _ h] exI [of _ "bc_header_cache s"] exI [of _ "[] :: hash list"])
      (simp add: back_to_chain.simps hd_conv_nth)
next
  case (Suc n)
  have hh: "hi_hash h = bid" using header_of_hash [OF chain_okD(1) [OF Suc.prems(1)] Suc.prems(2)] .
  have nz: "hi_height h \<noteq> 0" using Suc.hyps(2) by auto
  note rc = read_chain_ok [OF Suc.prems(1), of "hi_height h"]
  show ?case
  proof (cases "unat (hi_height h) < length C \<and> C ! unat (hi_height h) = bid")
    case True
    with nz rc hh chain_okD(1) [OF Suc.prems(1)] show ?thesis
      by (intro exI [of _ h] exI [of _ "bc_header_cache s"] exI [of _ "[] :: hash list"])
        (simp add: back_to_chain.simps)
  next
    case False
    have nin: "bid \<notin> set C"
    proof
      assume "bid \<in> set C"
      then obtain i where i: "i < length C" "C ! i = bid" by (auto simp: in_set_conv_nth)
      with chain_ok_header [OF Suc.prems(1) i(1)] Suc.prems(2) have "unat (hi_height h) = i" by auto
      with False i show False by simp
    qed
    from tree_ok_parent [OF chain_okD(2) [OF Suc.prems(1)] Suc.prems(2) nz] obtain p where
      p: "header_of s (hi_previous_block_hash h) = Some p" "unat (hi_height h) = Suc (unat (hi_height p))" by blast
    obtain c1 where c1: "get_header c (hi_previous_block_hash h) 0 s = Inr (p, s\<lparr>bc_header_cache := c1\<rparr>)"
      "headers_ok (s\<lparr>bc_header_cache := c1\<rparr>)"
      using get_header_ok [OF chain_okD(1) [OF Suc.prems(1)] p(1)] by blast
    have n: "n = unat (hi_height p)" using Suc.hyps(2) p(2) by simp
    from Suc.hyps(1) [OF n chain_ok_cache [OF Suc.prems(1) c1(2)], of "hi_previous_block_hash h"] p(1)
    obtain h' cache xs where IH:
      "back_to_chain c p (s\<lparr>bc_header_cache := c1\<rparr>) = Some (Inr (h', s\<lparr>bc_header_cache := cache\<rparr>))"
      "headers_ok (s\<lparr>bc_header_cache := cache\<rparr>)" "unat (hi_height h') < length C" "C ! unat (hi_height h') = hi_hash h'"
      "descends (header_of s) (hi_previous_block_hash h) xs (hi_hash h')" "set xs \<inter> set C = {}" by auto
    have "back_to_chain c h s = back_to_chain c p (s\<lparr>bc_header_cache := c1\<rparr>)"
      using nz False rc hh c1(1) by (simp add: back_to_chain.simps [of c h])
    with IH nin nz Suc.prems(2) show ?thesis
      by (intro exI [of _ h'] exI [of _ cache] exI [of _ "bid # xs"]) simp
  qed
qed

lemma chain_up_ok:
  assumes "chain_ok s C"
  shows "unat h \<le> length C \<Longrightarrow> chain_up n h s = Inr (take n (drop (unat h) C))"
proof (induction n arbitrary: h)
  case 0
  then show ?case by simp
next
  case (Suc n)
  have tip: "unat (bc_tip_height s) = length C - 1" by (rule chain_ok_tip_height [OF assms])
  show ?case
  proof (cases "unat h < length C")
    case True
    then have le: "h \<le> bc_tip_height s" by (simp add: word_le_nat_alt tip)
    have "h \<noteq> - 1" using True chain_okD(4) [OF assms] by (auto simp: unsigned_minus_1_eq_mask mask_eq_exp_minus_1)
    then have "unat (h + 1) = unat h + 1" by (rule no_wrap_succ)
    with Suc.IH [of "h + 1"] True le show ?thesis
      by (simp add: get_chain_ok [OF assms True] Cons_nth_drop_Suc [symmetric])
  next
    case False
    with Suc.prems chain_okD(3) [OF assms] have "\<not> h \<le> bc_tip_height s" by (simp add: word_le_nat_alt tip not_le Suc_le_eq)
    with False show ?thesis by simp
  qed
qed

text \<open>
  C22: a peer that sends the hashes it knows gets the part of the current chain above the closest
  ancestor of the first one the node has a header for; the search always ends.
\<close>

theorem sync_headers_chain_correct:
  assumes "chain_ok s C"
  shows "\<exists>bids start cache. get_sync_headers_chain c locator max_count s = Some (Inr (bids, start, s\<lparr>bc_header_cache := cache\<rparr>)) \<and>
    chain_ok (s\<lparr>bc_header_cache := cache\<rparr>) C \<and> bids = take max_count (drop (unat start) C) \<and>
    (case List.find (\<lambda>l. header_of s l \<noteq> None) locator of
       None \<Rightarrow> unat start = length C
     | Some l \<Rightarrow> unat start < length C \<and>
         (\<exists>xs. descends (header_of s) l xs (C ! unat start) \<and> set xs \<inter> set C = {}))"
  using assms
proof (induction locator arbitrary: s)
  case Nil
  have "unat (bc_tip_height s + 1) = length C"
  proof -
    have "bc_tip_height s + 1 = word_of_nat (length C)"
      using chain_okD(3,7) [OF Nil] by (cases C) (simp_all add: add.commute)
    then show ?thesis using chain_okD(4) [OF Nil] by (simp add: unat_of_nat)
  qed
  with Nil show ?case by (intro exI [of _ "[] :: hash list"] exI [of _ "bc_tip_height s + 1"] exI [of _ "bc_header_cache s"]) simp
next
  case (Cons l locator)
  obtain c1 where c1: "read_header c l 0 s = Inr (header_of s l, s\<lparr>bc_header_cache := c1\<rparr>)" "headers_ok (s\<lparr>bc_header_cache := c1\<rparr>)"
    using read_header_ok [OF chain_okD(1) [OF Cons.prems]] by blast
  note ok1 = chain_ok_cache [OF Cons.prems c1(2)]
  show ?case
  proof (cases "header_of s l")
    case None
    with Cons.IH [OF ok1, unfolded header_of_cache] c1(1) show ?thesis by simp
  next
    case (Some h)
    obtain h' c2 xs where b: "back_to_chain c h (s\<lparr>bc_header_cache := c1\<rparr>) = Some (Inr (h', s\<lparr>bc_header_cache := c2\<rparr>))"
      "headers_ok (s\<lparr>bc_header_cache := c2\<rparr>)" "unat (hi_height h') < length C" "C ! unat (hi_height h') = hi_hash h'"
      "descends (header_of s) l xs (hi_hash h')" "set xs \<inter> set C = {}"
      using back_to_chain_ok [OF ok1, of l h c] Some by auto
    note ok2 = chain_ok_cache [OF Cons.prems b(2)]
    have "chain_up max_count (hi_height h') (s\<lparr>bc_header_cache := c2\<rparr>) = Inr (take max_count (drop (unat (hi_height h')) C))"
      by (rule chain_up_ok [OF ok2]) (use b(3) in simp)
    with Some c1(1) b ok2 show ?thesis
      by (intro exI [of _ "take max_count (drop (unat (hi_height h')) C)"] exI [of _ "hi_height h'"] exI [of _ c2]) auto
  qed
qed

lemma sync_headers_chain_correct_witness:
  "\<exists>bids start cache. get_sync_headers_chain sample_currency [replicate 32 7, sample_bid] 10 sample_tree =
      Some (Inr (bids, start, sample_tree\<lparr>bc_header_cache := cache\<rparr>)) \<and>
    chain_ok (sample_tree\<lparr>bc_header_cache := cache\<rparr>) [null_hash] \<and> bids = take 10 (drop (unat start) [null_hash]) \<and>
    (case List.find (\<lambda>l. header_of sample_tree l \<noteq> None) [replicate 32 7, sample_bid] of
       None \<Rightarrow> unat start = length [null_hash]
     | Some l \<Rightarrow> unat start < length [null_hash] \<and>
         (\<exists>xs. descends (header_of sample_tree) l xs ([null_hash] ! unat start) \<and> set xs \<inter> set [null_hash] = {}))"
  by (rule sync_headers_chain_correct [OF sample_tree_chain_ok])

section \<open>The sparse chain\<close>

text \<open>How far below the tip the block number \<open>i\<close> of the sparse chain is.\<close>

definition sparse_jump :: "nat \<Rightarrow> nat" where
  "sparse_jump i = (if i \<le> 10 then i else 8 + 2 ^ (i - 9))"

lemma sparse_jump_Suc:
  "sparse_jump (Suc i) = sparse_jump i + (if Suc i \<le> 10 then 1 else 2 ^ (Suc i - 10))"
proof -
  consider "Suc i \<le> 10" | "i = 10" | "10 < i" by linarith
  then show ?thesis
  proof cases
    case 3
    then have "Suc i - 10 = i - 9" "Suc i - 9 = Suc (i - 9)" by simp_all
    with 3 show ?thesis by (simp add: sparse_jump_def)
  qed (simp_all add: sparse_jump_def)
qed

lemma sparse_jump_grows: "i \<le> 10 \<or> 2 ^ (i - 9) \<le> sparse_jump i"
  by (simp add: sparse_jump_def)

lemma sparse_loop_ok:
  assumes ok: "chain_ok s C" and small: "length C < 2 ^ 31"
  shows "unat jump = sparse_jump n \<Longrightarrow> tip_path = map (\<lambda>i. C ! (length C - 1 - sparse_jump i)) [0..<n] \<Longrightarrow>
    (\<forall>i < n. sparse_jump i < length C) \<Longrightarrow> 41 \<le> n + fuel \<Longrightarrow>
    \<exists>m. sparse_loop fuel jump tip_path s = Some (Inr (map (\<lambda>i. C ! (length C - 1 - sparse_jump i)) [0..<m])) \<and>
      (\<forall>i < m. sparse_jump i < length C) \<and> length C \<le> sparse_jump m \<and> n \<le> m"
proof (induction fuel arbitrary: jump n tip_path)
  case 0
  then have "sparse_jump 40 < length C" by simp
  with small show ?case by (simp add: sparse_jump_def)
next
  case (Suc fuel)
  have tip: "unat (bc_tip_height s) = length C - 1" by (rule chain_ok_tip_height [OF ok])
  have pos: "0 < length C" using chain_okD(3) [OF ok] by simp
  show ?case
  proof (cases "bc_tip_height s \<ge> jump")
    case False
    then have "length C \<le> sparse_jump n" using Suc.prems(1) pos by (simp add: word_le_nat_alt tip not_le)
    with False Suc.prems show ?thesis by (intro exI [of _ n]) simp
  next
    case True
    then have lt: "sparse_jump n < length C" using Suc.prems(1) pos by (cases C) (simp_all add: word_le_nat_alt tip)
    have u: "unat (bc_tip_height s - jump) = length C - 1 - sparse_jump n"
      using True by (simp only: unat_sub tip Suc.prems(1))
    have g: "get_chain (bc_tip_height s - jump) s = Inr (C ! (length C - 1 - sparse_jump n))"
      using get_chain_ok [OF ok, of "bc_tip_height s - jump"] pos by (simp add: u)
    define path where "path = tip_path @ [C ! (length C - 1 - sparse_jump n)]"
    have len: "length path = Suc n" using Suc.prems(2) by (simp add: path_def)
    define jump' where "jump' = (if length path \<le> 10 then jump + 1 else jump + push_bit (length path - 10) 1)"
    have n40: "n < 40"
    proof (rule ccontr)
      assume "\<not> n < 40"
      then have "(2 :: nat) ^ 31 \<le> 2 ^ (n - 9)" by (intro power_increasing) simp_all
      with \<open>\<not> n < 40\<close> lt small show False by (simp add: sparse_jump_def)
    qed
    have "unat jump' = sparse_jump (Suc n)"
    proof (cases "Suc n \<le> 10")
      case True
      then have "unat jump + 1 < 2 ^ 32" using Suc.prems(1) by (simp add: sparse_jump_def)
      with True show ?thesis
        unfolding jump'_def len sparse_jump_Suc using Suc.prems(1) by (simp add: unat_word_ariths)
    next
      case False
      have "sparse_jump n + 2 ^ (Suc n - 10) < 2 ^ 32"
      proof -
        have "(2 :: nat) ^ (Suc n - 10) \<le> 2 ^ 30" using n40 by (intro power_increasing) simp_all
        then show ?thesis using lt small by simp
      qed
      moreover have "unat (push_bit (Suc n - 10) 1 :: u32) = 2 ^ (Suc n - 10)"
      proof -
        have "(2 :: nat) ^ (Suc n - 10) < 2 ^ 32" using n40 by (intro power_strict_increasing) simp_all
        then show ?thesis using unat_push_bit [of "Suc n - 10" "1 :: u32"] by simp
      qed
      ultimately show ?thesis
        unfolding jump'_def len sparse_jump_Suc using False Suc.prems(1) by (simp add: unat_word_ariths)
    qed
    moreover have "path = map (\<lambda>i. C ! (length C - 1 - sparse_jump i)) [0..<Suc n]"
      using Suc.prems(2) by (simp add: path_def)
    moreover have "\<forall>i < Suc n. sparse_jump i < length C" using Suc.prems(3) lt by (simp add: less_Suc_eq)
    moreover have "41 \<le> Suc n + fuel" using Suc.prems(4) by simp
    ultimately obtain m where m: "sparse_loop fuel jump' path s = Some (Inr (map (\<lambda>i. C ! (length C - 1 - sparse_jump i)) [0..<m]))"
      "\<forall>i < m. sparse_jump i < length C" "length C \<le> sparse_jump m" "Suc n \<le> m"
      using Suc.IH by blast
    have "sparse_loop (Suc fuel) jump tip_path s = sparse_loop fuel jump' path s"
      using True g by (simp add: path_def jump'_def Let_def)
    with m show ?thesis by (intro exI [of _ m]) simp
  qed
qed

text \<open>
  C32: the sparse chain lists blocks of the current chain from the tip down, at the distances
  0 to 10, 12, 16, 24 and so on, and ends with the genesis block; the loop ends on every chain
  of less than \<open>2 ^ 31\<close> blocks, after at most 40 steps.
\<close>

theorem sparse_chain_correct:
  assumes "chain_ok s C" "length C < 2 ^ 31"
  shows "\<exists>m. 0 < m \<and> m \<le> 40 \<and> (\<forall>i. i < m \<longleftrightarrow> sparse_jump i < length C) \<and>
    get_sparse_chain s = Some (Inr (map (\<lambda>i. C ! (length C - 1 - sparse_jump i)) [0..<m] @
      (if C ! (length C - 1 - sparse_jump (m - 1)) = hd C then [] else [hd C])))"
proof -
  obtain m where m: "sparse_loop 64 0 [] s = Some (Inr (map (\<lambda>i. C ! (length C - 1 - sparse_jump i)) [0..<m]))"
    "\<forall>i < m. sparse_jump i < length C" "length C \<le> sparse_jump m"
    using sparse_loop_ok [OF assms, of 0 0 "[]" 64] by (auto simp: sparse_jump_def)
  have "m \<noteq> 0" using m(3) chain_okD(3) [OF assms(1)] by (cases m) (simp_all add: sparse_jump_def)
  moreover have "m \<le> 40"
  proof (rule ccontr)
    assume "\<not> m \<le> 40"
    with m(2) have "sparse_jump 40 < length C" by simp
    with assms(2) show False by (simp add: sparse_jump_def)
  qed
  moreover have "i < m \<longleftrightarrow> sparse_jump i < length C" for i
  proof -
    have "mono sparse_jump" by (rule mono_iff_le_Suc [THEN iffD2]) (simp add: sparse_jump_Suc)
    then have "sparse_jump m \<le> sparse_jump i" if "m \<le> i" using that by (rule monoD)
    with m(2,3) show ?thesis by (meson leD le_trans not_le)
  qed
  moreover have "last (map f [0..<m]) = f (m - 1)" for f :: "nat \<Rightarrow> hash" using \<open>m \<noteq> 0\<close> by (simp add: last_map)
  ultimately show ?thesis
    using m(1) chain_ok_genesis [OF assms(1)] by (intro exI [of _ m]) (simp add: get_sparse_chain_def)
qed

lemma sparse_chain_correct_witness:
  "\<exists>m. 0 < m \<and> m \<le> 40 \<and> (\<forall>i. i < m \<longleftrightarrow> sparse_jump i < length [null_hash]) \<and>
    get_sparse_chain sample_tree = Some (Inr (map (\<lambda>i. [null_hash] ! (length [null_hash] - 1 - sparse_jump i)) [0..<m] @
      (if [null_hash] ! (length [null_hash] - 1 - sparse_jump (m - 1)) = hd [null_hash] then [] else [hd [null_hash]])))"
  by (rule sparse_chain_correct [OF sample_tree_chain_ok]) simp

end
