(* ===== verification/Block_Rules.thy ===== *)
theory Block_Rules
  imports Sample_Tree
begin

text \<open>
  What a block that passes \<open>check_standalone_consensus\<close> (\<open>Core/BlockChainState.cpp\<close>) has
  shown, and what the check misses: the size of a block beyond twice the median.
\<close>

section \<open>Accepted blocks\<close>

lemma validate_transactions_ok:
  "validate_transactions env ck txs = [] \<Longrightarrow> tx \<in> set txs \<Longrightarrow> validate_semantic env False tx ck \<noteq> Inl e \<or> e = []"
  by (induction txs) (auto split: sum.splits if_splits)

lemma check_block_transactions_ok:
  "check_block_transactions env m raws txs hs n = Inr (Inr t) \<Longrightarrow> length txs = length raws \<Longrightarrow> length txs = length hs \<Longrightarrow>
     t = n + sum_list (map length raws) \<and> list_all (\<lambda>raw. length raw \<le> unat m) raws \<and>
     map (get_transaction_hash env) txs = map Inr hs"
  by (induction env m raws txs hs n rule: check_block_transactions.induct) (auto simp: res_bind_eq_Inr split: if_splits)

lemma check_coinbase_ok:
  assumes "check_coinbase env c base h = Inr r"
  shows "tx_inputs base = [CoinbaseInput h] \<and> tx_unlock_time base = ucast (h + cy_mined_money_unlock_window c) \<and>
    (\<Sum>out\<leftarrow>tx_outputs base. unat (to_amount out)) = unat r \<and> list_all (\<lambda>out. to_amount out \<noteq> 0) (tx_outputs base)"
proof -
  from assms have o: "validate_outputs env (\<not> is_in_sw_checkpoint_zone c h) (tx_outputs base) 0 = Inr r"
    and "length (tx_inputs base) = 1" "tx_inputs base ! 0 = CoinbaseInput h" "tx_unlock_time base = ucast (h + cy_mined_money_unlock_window c)"
    by (auto simp: check_coinbase_def split: if_splits transaction_input.splits)
  moreover from this have "tx_inputs base = [CoinbaseInput h]" by (cases "tx_inputs base") auto
  ultimately show ?thesis using validate_outputs_ok [OF o] by simp
qed

lemma check_header_rules_ok:
  "check_header_rules c now pb info s = [] \<Longrightarrow>
     bh_major_version (blk_header (pp_block pb)) = get_block_major_version_for_height c (hi_height info) \<and>
     hi_timestamp_median info \<le> bh_timestamp (blk_header (pp_block pb)) \<and>
     bh_timestamp (blk_header (pp_block pb)) \<le> now + get_block_future_time_limit c (bc_tip_height s + 1)"
  by (auto simp: check_header_rules_def Let_def not_less split: if_splits)

lemma check_errors:
  "check_block_transactions env m raws txs hs n = Inr (Inl e) \<Longrightarrow> e \<noteq> []"
  "check_coinbase env c base h = Inl e \<Longrightarrow> e \<noteq> []"
proof -
  show "e \<noteq> []" if "check_block_transactions env m raws txs hs n = Inr (Inl e)"
    using that by (induction env m raws txs hs n rule: check_block_transactions.induct) (auto simp: res_bind_eq_Inr split: if_splits)
  have "e \<noteq> []" if "validate_outputs env ck outs acc = Inl e" for ck outs acc
    using that by (induction env ck outs acc rule: validate_outputs.induct) (auto split: if_splits output_target.splits)
  then show "e \<noteq> []" if "check_coinbase env c base h = Inl e"
    using that by (auto simp: check_coinbase_def split: if_splits transaction_input.splits)
qed

lemma check_block_reward_ok:
  assumes "check_block_reward env c pb info prev_info n miner_reward check_pow = Inr ([], info')"
  shows "miner_reward = hi_reward info' \<and> check_block_work env c pb info' check_pow = Inr [] \<and>
    (\<exists>emission. get_block_reward c (bh_major_version (blk_header (pp_block pb))) (ucast (hi_effective_size_median info))
        (ucast (hi_block_size info)) (hi_already_generated_coins prev_info) (hi_total_fee_amount info') = (hi_reward info', emission) \<and>
      hi_already_generated_coins info' = hi_already_generated_coins prev_info + emission) \<and>
    (\<forall>tx \<in> set (blk_transactions (pp_block pb)). \<forall>e. e \<noteq> [] \<longrightarrow>
       validate_semantic env False tx (\<not> is_in_sw_checkpoint_zone c (hi_height info)) \<noteq> Inl e) \<and>
    hi_effective_size_median info' = hi_effective_size_median info \<and> hi_block_size info' = hi_block_size info \<and>
    hi_timestamp_median info' = hi_timestamp_median info \<and> hi_difficulty info' = hi_difficulty info \<and>
    hi_cumulative_difficulty info' = hi_cumulative_difficulty info"
proof -
  obtain fee where fee: "cumulative_fee (blk_transactions (pp_block pb)) 0 = Some fee"
    using assms by (cases "cumulative_fee (blk_transactions (pp_block pb)) 0") (auto simp: check_block_reward_def)
  obtain reward emission where r: "get_block_reward c (bh_major_version (blk_header (pp_block pb))) (ucast (hi_effective_size_median info))
      (ucast (hi_block_size info)) (hi_already_generated_coins prev_info) fee = (reward, emission)" by fastforce
  show ?thesis
    using assms validate_transactions_ok unfolding check_block_reward_def Let_def fee
    by (auto simp: r res_bind_eq_Inr split: if_splits)
qed

lemma check_sized_block_ok:
  assumes "check_sized_block env c now pb info prev_info n check_pow s = Inr ([], info', s')"
  obtains miner_reward d info2 where
    "info2 = info\<lparr>hi_block_size := word_of_nat (pp_coinbase_tx_size pb + n), hi_difficulty := d,
       hi_cumulative_difficulty := hi_cumulative_difficulty prev_info + d\<rparr>"
    "hi_block_size info2 \<le> max_block_cumulative_size c (hi_height info)"
    "check_header_rules c now pb (info\<lparr>hi_block_size := word_of_nat (pp_coinbase_tx_size pb + n)\<rparr>) s = []"
    "check_coinbase env c (bt_base_transaction (blk_header (pp_block pb))) (hi_height info) = Inr miner_reward"
    "d \<noteq> 0" "check_block_reward env c pb info2 prev_info n miner_reward check_pow = Inr ([], info')"
proof -
  let ?b = "bt_base_transaction (blk_header (pp_block pb))"
  obtain miner_reward where m: "check_coinbase env c ?b (hi_height info) = Inr miner_reward"
    using assms check_errors(2) [of env c ?b "hi_height info"]
    by (cases "check_coinbase env c ?b (hi_height info)") (auto simp: check_sized_block_def Let_def split: if_splits)
  show thesis
    using assms that unfolding check_sized_block_def Let_def
    by (auto simp: m res_bind_eq_Inr not_less split: if_splits)
qed


text \<open>A block on top of the genesis block of the test net, with the reward its only output.\<close>

definition sample_next_block :: block where
  "sample_next_block = \<lparr>blk_header = empty_block_template\<lparr>bh_major_version := 2,
     bt_base_transaction := with_signatures \<lparr>tx_version = 1, tx_unlock_time = 11, tx_inputs = [CoinbaseInput 1],
       tx_outputs = [\<lparr>to_amount = 281474976710655, to_target = KeyOutput null_hash\<rparr>], tx_extra = []\<rparr> []\<rparr>,
     blk_transactions = []\<rparr>"

definition sample_next :: prepared_block where
  "sample_next = \<lparr>pp_block_data = [], pp_raw_block = \<lparr>rb_block = [], rb_transactions = []\<rparr>, pp_block = sample_next_block,
     pp_bid = sample_bid, pp_base_transaction_hash = null_hash, pp_coinbase_tx_size = 100, pp_parent_block_size = 0,
     pp_long_block_hash = null_hash\<rparr>"

definition sample_next_info :: header_info where
  "sample_next_info = empty_header_info\<lparr>hi_height := 1, hi_hash := sample_bid, hi_major_version := 2\<rparr>"

lemma sample_next_accepted:
  "case check_standalone_consensus sample_env sample_currency 0 sample_next sample_next_info sample_genesis_info False sample_tree of
    Inl e \<Rightarrow> False | Inr (e, _) \<Rightarrow> e = []"
  by (simp add: check_standalone_consensus_def check_sized_block_def check_block_reward_def check_header_rules_def check_coinbase_def
   block_difficulty_def get_tip_segment_def sample_next_def sample_next_block_def sample_next_info_def 
   get_block_major_version_for_height_def sample_currency_def make_currency_def Let_def DIFFICULTY_TARGET_def max_block_cumulative_size_def
   is_in_sw_checkpoint_zone_def empty_block_template_def empty_header_info_def sample_tree_def sample_genesis_info_def get_block_reward_def
   calc_base_reward_def get_penalized_amount_def next_difficulty_def next_difficulty_v1_def block_granted_full_reward_zone_by_block_version_def
    check_block_work_def get_block_future_time_limit_def  sample_env_def with_signatures_def  max_transaction_allowed_size_def  max_def min_def
    empty_parent_block_def empty_prefix_def transaction_prefix.defs transaction.defs mask_eq_exp_minus_1)


section \<open>Blocks beyond twice the median\<close>

lemma main_net_oversized:
  "get_block_reward (make_currency False empty_block_template null_hash) 4 100000 200001 4000000000000000000 0 =
     (16130551324904714569, 16130551324904714569)"
  by code_simp

lemma main_net_sizes:
  "200001 \<le> max_block_cumulative_size (make_currency False empty_block_template null_hash) 1000000"
  "block_granted_full_reward_zone_by_block_version (make_currency False empty_block_template null_hash) 4 = 100000"
  "calc_base_reward (make_currency False empty_block_template null_hash) 4 4000000000000000000 = 6888744389395"
  "cy_money_supply (make_currency False empty_block_template null_hash) = 18446744073709551615"
  by code_simp+


end
