(* ===== verification/Tx_Pool.thy ===== *)
theory Tx_Pool
  imports Redo_Undo Tx_Rules Consensus
begin

text \<open>
  The pool of transactions that wait for a block (\<open>add_transaction\<close>, \<open>on_reorganization\<close>,
  \<open>remove_from_pool\<close> and their helpers in \<open>Core/BlockChainState.cpp\<close>): admission by
  fee per byte, replacing transactions that spend the same key images, and trimming to
  \<open>MAX_POOL_SIZE\<close>.  The lines for the log are left out.
\<close>

section \<open>Operations\<close>

datatype add_transaction_result =
  Ban | Broadcast_all | Already_in_pool | Increase_fee | Failed_to_redo | Output_already_spent

definition MAX_POOL_SIZE :: u64 where
  "MAX_POOL_SIZE = 2000000"

text \<open>\<open>m_memory_state_tx.at\<close>.\<close>

definition pool_at :: "hash \<Rightarrow> chain_state \<Rightarrow> pool_transaction result" where
  "pool_at tid s = (case om_find tid (cs_memory_state_tx s) of None \<Rightarrow> Inl (Out_of_range ''map::at'') | Some t \<Rightarrow> Inr t)"

text \<open>The fee and the hash of the least transaction of the pool.\<close>

definition minimum_pool_fee_per_byte :: "chain_state \<Rightarrow> (amount \<times> hash) result" where
  "minimum_pool_fee_per_byte s =
     (case cs_memory_state_fee_tx s of
        [] \<Rightarrow> Inr (0, null_hash)
      | (fee, txs) # _ \<Rightarrow> res_bind (invariant (txs \<noteq> []) ''Invariant dead, memory_state_fee_tx empty set'') (\<lambda>_.
          Inr (fee, fst (hd txs))))"

text \<open>Whether a transaction of the pool stands above the new one.\<close>

definition outbid :: "hash \<Rightarrow> amount \<Rightarrow> hash \<Rightarrow> chain_state \<Rightarrow> bool result" where
  "outbid tid my_fee_per_byte other s =
     res_bind (pool_at other s) (\<lambda>other_tx.
     Inr (my_fee_per_byte < fee_per_byte other_tx \<or> my_fee_per_byte = fee_per_byte other_tx \<and> tid < other))"

text \<open>The first loop over the inputs, up to the first key image in the pool.\<close>

fun check_first_conflict :: "hash \<Rightarrow> amount \<Rightarrow> key_input list \<Rightarrow> chain_state \<Rightarrow> bool result" where
  "check_first_conflict tid fee [] s = Inr False"
| "check_first_conflict tid fee (inp # ins) s =
     (case om_find (ki_key_image inp) (cs_memory_state_ki_tx s) of
        None \<Rightarrow> check_first_conflict tid fee ins s
      | Some other \<Rightarrow> outbid tid fee other s)"

text \<open>The second loop: the height at which an input was spent in the chain.\<close>

fun find_spent :: "key_input list \<Rightarrow> chain_state \<Rightarrow> height option result" where
  "find_spent [] s = Inr None"
| "find_spent (inp # ins) s =
     res_bind (read_keyimage (ki_key_image inp) s) (\<lambda>r. case r of Some h \<Rightarrow> Inr (Some h) | None \<Rightarrow> find_spent ins s)"

text \<open>The loop that removes what the new transaction replaces; \<open>False\<close> asks for a greater fee.\<close>

fun displace_conflicts :: "hash \<Rightarrow> amount \<Rightarrow> (key_image \<times> height) list \<Rightarrow> chain_state \<Rightarrow> (bool \<times> chain_state) result" where
  "displace_conflicts tid fee [] s = Inr (True, s)"
| "displace_conflicts tid fee ((k, _) # kis) s =
     (case om_find k (cs_memory_state_ki_tx s) of
        None \<Rightarrow> displace_conflicts tid fee kis s
      | Some other \<Rightarrow>
          res_bind (outbid tid fee other s) (\<lambda>less.
          if less then Inr (False, s)
          else res_bind (remove_from_pool other s) (displace_conflicts tid fee kis)))"

fun insert_key_images :: "hash \<Rightarrow> (key_image \<times> height) list \<Rightarrow> (key_image, hash) omap \<Rightarrow> (key_image, hash) omap \<times> bool" where
  "insert_key_images tid [] m = (m, True)"
| "insert_key_images tid ((k, _) # kis) m =
     (let (m, inserted) = om_insert k tid m; (m, all_inserted) = insert_key_images tid kis m
      in (m, inserted \<and> all_inserted))"

definition insert_in_pool :: "hash \<Rightarrow> pool_transaction \<Rightarrow> amount \<Rightarrow> (key_image \<times> height) list \<Rightarrow> chain_state \<Rightarrow> chain_state result" where
  "insert_in_pool tid t my_fee_per_byte kis s =
     (let (ki_tx, inserted1) = insert_key_images tid kis (cs_memory_state_ki_tx s);
          (txs, inserted2) = om_insert tid t (cs_memory_state_tx s);
          (tids, inserted3) = om_insert tid () (om_get_default [] my_fee_per_byte (cs_memory_state_fee_tx s))
      in
      res_bind (invariant (inserted1 \<and> inserted2 \<and> inserted3) ''memory_state_fee_tx empty'') (\<lambda>_.
      Inr (s\<lparr>cs_memory_state_ki_tx := ki_tx, cs_memory_state_tx := txs,
        cs_memory_state_fee_tx := om_set my_fee_per_byte tids (cs_memory_state_fee_tx s),
        cs_memory_state_total_size := cs_memory_state_total_size s + word_of_nat (length (pt_binary_tx t))\<rparr>)))"

text \<open>The loop that trims the pool, from the least fee up.\<close>

lemma om_erase_length: "om_find k m = Some v \<Longrightarrow> length (om_erase k m) < length m"
  by (induction k m rule: om_erase.induct) (auto simp: om_find_Cons split: if_splits)

lemma remove_from_pool_less:
  "pool_at tid s = Inr t \<Longrightarrow> remove_from_pool tid s = Inr s' \<Longrightarrow>
     length (cs_memory_state_tx s') < length (cs_memory_state_tx s)"
  by (auto simp: pool_at_def remove_from_pool_def Let_def res_bind_eq_Inr om_erase_length split: option.splits prod.splits)

function trim_pool :: "chain_state \<Rightarrow> chain_state result" where
  "trim_pool s =
     (if cs_memory_state_total_size s > MAX_POOL_SIZE then
        (case cs_memory_state_fee_tx s of
           [] \<Rightarrow> Inl (Logic_error ''memory_state_fee_tx empty'')
         | (_, txs) # _ \<Rightarrow>
             (case txs of
                [] \<Rightarrow> Inl (Logic_error ''memory_state_fee_tx empty set'')
              | (rhash, _) # _ \<Rightarrow>
                  (case pool_at rhash s of
                     Inl e \<Rightarrow> Inl e
                   | Inr minimal_tx \<Rightarrow>
                       if cs_memory_state_total_size s < MAX_POOL_SIZE + word_of_nat (length (pt_binary_tx minimal_tx))
                       then Inr s
                       else (case remove_from_pool rhash s of Inl e \<Rightarrow> Inl e | Inr s' \<Rightarrow> trim_pool s'))))
      else Inr s)"
  by pat_completeness auto
termination
  by (relation "measure (\<lambda>s. length (cs_memory_state_tx s))") (auto intro: remove_from_pool_less)

text \<open>The last part of \<open>add_transaction\<close>, after all checks.\<close>

definition admit_transaction ::
  "hash \<Rightarrow> pool_transaction \<Rightarrow> amount \<Rightarrow> (key_image \<times> height) list \<Rightarrow> chain_state \<Rightarrow> (add_transaction_result \<times> chain_state) result" where
  "admit_transaction tid t my_fee_per_byte kis s =
     res_bind (displace_conflicts tid my_fee_per_byte kis s) (\<lambda>(go_on, s).
     if \<not> go_on then Inr (Increase_fee, s)
     else
     res_bind (insert_in_pool tid t my_fee_per_byte kis s) (\<lambda>s.
     res_bind (trim_pool s) (\<lambda>s.
     Inr (Broadcast_all, s\<lparr>cs_tx_pool_version := cs_tx_pool_version s + 1\<rparr>))))"

text \<open>
  \<open>add_transaction\<close>: the result, \<open>conflict_height\<close> and the state.  A transaction without
  bytes would make the division by its size trap.
\<close>

definition add_transaction_at ::
  "crypto_env \<Rightarrow> currency \<Rightarrow> hash \<Rightarrow> transaction \<Rightarrow> bytes \<Rightarrow> height \<Rightarrow> timestamp \<Rightarrow> height \<Rightarrow> bool \<Rightarrow> chain_state \<Rightarrow>
     (add_transaction_result \<times> height \<times> chain_state) result" where
  "add_transaction_at env c tid tx binary_tx unlock_height unlock_timestamp conflict check_sigs s =
     (if om_find tid (cs_memory_state_tx s) \<noteq> None then Inr (Already_in_pool, conflict, s)
      else if binary_tx = [] then Inl (Runtime_error ''division by zero'')
      else
      let my_fee = get_tx_fee tx;
          my_fee_per_byte = my_fee div word_of_nat (length binary_tx)
      in
      res_bind (minimum_pool_fee_per_byte s) (\<lambda>(minimal_fee, minimal_tid).
      if cs_memory_state_total_size s \<ge> MAX_POOL_SIZE \<and> my_fee_per_byte < minimal_fee
      then Inr (Increase_fee, conflict, s)
      else if cs_memory_state_total_size s \<ge> MAX_POOL_SIZE \<and> my_fee_per_byte = minimal_fee \<and> tid < minimal_tid
      then Inr (Increase_fee, conflict, s)
      else
      res_bind (check_first_conflict tid my_fee_per_byte (key_inputs (tx_inputs tx)) s) (\<lambda>less.
      if less then Inr (Increase_fee, conflict, s)
      else
      res_bind (find_spent (key_inputs (tx_inputs tx)) s) (\<lambda>spent. case spent of
        Some h \<Rightarrow> Inr (Output_already_spent, h, s)
      | None \<Rightarrow>
      (case validate_semantic env False tx check_sigs of
        Inl _ \<Rightarrow> Inr (Ban, conflict, s)
      | Inr _ \<Rightarrow>
      res_bind (redo_transaction_get_error env c (view_of chain_ops s) False tx
          (new_delta unlock_height unlock_timestamp) [] check_sigs) (\<lambda>(e, memory_state, _, conflict).
      if e \<noteq> [] then Inr (Failed_to_redo, conflict, s)
      else
      res_bind (admit_transaction tid \<lparr>pt_tx = tx, pt_binary_tx = binary_tx, pt_fee = my_fee, pt_timestamp = 0\<rparr>
          my_fee_per_byte (ds_keyimages memory_state) s) (\<lambda>(r, s). Inr (r, conflict, s))))))))"

text \<open>The call from the network and from the API.\<close>

definition add_transaction ::
  "crypto_env \<Rightarrow> currency \<Rightarrow> hash \<Rightarrow> transaction \<Rightarrow> bytes \<Rightarrow> height \<Rightarrow> chain_state \<Rightarrow>
     (add_transaction_result \<times> height \<times> chain_state) result" where
  "add_transaction env c tid tx binary_tx conflict s =
     res_bind (get_tip s) (\<lambda>tip.
     add_transaction_at env c tid tx binary_tx (bc_tip_height s + 1) (hi_timestamp tip) conflict True s)"

text \<open>\<open>on_reorganization\<close>: the undone transactions come as a map from hashes.\<close>

fun readd_transactions ::
  "crypto_env \<Rightarrow> currency \<Rightarrow> (hash \<times> transaction \<times> bytes) list \<Rightarrow> height \<Rightarrow> chain_state \<Rightarrow> (height \<times> chain_state) result" where
  "readd_transactions env c [] conflict s = Inr (conflict, s)"
| "readd_transactions env c ((tid, tx, binary_tx) # txs) conflict s =
     res_bind (add_transaction env c tid tx binary_tx conflict s) (\<lambda>(_, conflict, s).
     readd_transactions env c txs conflict s)"

definition clear_pool :: "chain_state \<Rightarrow> chain_state" where
  "clear_pool s = s\<lparr>cs_memory_state_tx := [], cs_memory_state_ki_tx := [], cs_memory_state_fee_tx := [],
     cs_memory_state_total_size := 0\<rparr>"

definition on_reorganization ::
  "crypto_env \<Rightarrow> currency \<Rightarrow> (hash, transaction \<times> bytes) omap \<Rightarrow> bool \<Rightarrow> chain_state \<Rightarrow> chain_state result" where
  "on_reorganization env c undone_transactions undone_blocks s =
     res_bind (if undone_blocks
       then readd_transactions env c (map (\<lambda>(tid, t). (tid, pt_tx t, pt_binary_tx t)) (cs_memory_state_tx s)) 0 (clear_pool s)
       else Inr (0, s)) (\<lambda>(conflict, s).
     res_bind (readd_transactions env c undone_transactions conflict s) (\<lambda>(_, s).
     Inr (s\<lparr>cs_tx_pool_version := 2\<rparr>)))"

text \<open>\<open>clear_mining_transactions\<close>, and the raw block of a mined block from the two pools.\<close>

definition clear_mining_transactions :: "chain_state \<Rightarrow> chain_state" where
  "clear_mining_transactions s = s\<lparr>cs_mining_transactions :=
     filter (\<lambda>(tid, (tx, h)). \<not> bc_tip_height s > h + 3) (cs_mining_transactions s)\<rparr>"

fun mined_transactions :: "hash list \<Rightarrow> chain_state \<Rightarrow> bytes list option" where
  "mined_transactions [] s = Some []"
| "mined_transactions (h # hs) s =
     (case (case om_find h (cs_memory_state_tx s) of
              Some t \<Rightarrow> Some (pt_binary_tx t)
            | None \<Rightarrow> map_option fst (om_find h (cs_mining_transactions s))) of
        None \<Rightarrow> None
      | Some binary_tx \<Rightarrow> map_option (Cons binary_tx) (mined_transactions hs s))"

text \<open>\<open>get_largest_referenced_height\<close>: the largest index of every amount, then their heights.\<close>

fun largest_indices :: "key_input list \<Rightarrow> (amount, u32) omap \<Rightarrow> (amount, u32) omap option" where
  "largest_indices [] m = Some m"
| "largest_indices (inp # ins) m =
     (case ki_output_indexes inp of
        [] \<Rightarrow> None
      | i # is \<Rightarrow>
          let largest_index = fold (\<lambda>d x. x + d) is i;
              lit = om_get_default 0 (ki_amount inp) m
          in largest_indices ins (om_set (ki_amount inp) (if largest_index > lit then largest_index else lit) m))"

fun largest_height :: "(amount \<times> u32) list \<Rightarrow> height \<Rightarrow> chain_state \<Rightarrow> height option result" where
  "largest_height [] max_height s = Inr (Some max_height)"
| "largest_height ((a, g) # lits) max_height s =
     res_bind (read_amount_output a g s) (\<lambda>r. case r of
         None \<Rightarrow> Inr None
       | Some u \<Rightarrow> largest_height lits (max max_height (unp_height u)) s)"

definition get_largest_referenced_height :: "'a transaction_prefix_scheme \<Rightarrow> chain_state \<Rightarrow> height option result" where
  "get_largest_referenced_height tx s =
     (case largest_indices (key_inputs (tx_inputs tx)) [] of
        None \<Rightarrow> Inr None
      | Some lits \<Rightarrow> largest_height lits 0 s)"

section \<open>The three indices of the pool agree\<close>

text \<open>
  Every transaction of the pool has bytes and is found under each of its key images and under
  its fee per byte; the indices hold nothing else, and the total size is the sum of the sizes.
\<close>

definition pool_bytes :: "chain_state \<Rightarrow> nat" where
  "pool_bytes s = (\<Sum>(tid, t)\<leftarrow>cs_memory_state_tx s. length (pt_binary_tx t))"

definition pool_ok :: "chain_state \<Rightarrow> bool" where
  "pool_ok s \<longleftrightarrow> om_wf (cs_memory_state_tx s) \<and> om_wf (cs_memory_state_ki_tx s) \<and> om_wf (cs_memory_state_fee_tx s) \<and>
     (\<forall>tid t. om_find tid (cs_memory_state_tx s) = Some t \<longrightarrow> pt_binary_tx t \<noteq> [] \<and> distinct (tx_key_images (pt_tx t)) \<and>
        (\<forall>k \<in> set (tx_key_images (pt_tx t)). om_find k (cs_memory_state_ki_tx s) = Some tid)) \<and>
     (\<forall>k tid. om_find k (cs_memory_state_ki_tx s) = Some tid \<longrightarrow>
        (\<exists>t. om_find tid (cs_memory_state_tx s) = Some t \<and> k \<in> set (tx_key_images (pt_tx t)))) \<and>
     (\<forall>fee tids. om_find fee (cs_memory_state_fee_tx s) = Some tids \<longrightarrow> tids \<noteq> [] \<and> om_wf tids) \<and>
     (\<forall>fee tid. om_find tid (om_get_default [] fee (cs_memory_state_fee_tx s)) \<noteq> None \<longleftrightarrow>
        (\<exists>t. om_find tid (cs_memory_state_tx s) = Some t \<and> fee_per_byte t = fee)) \<and>
     unat (cs_memory_state_total_size s) = pool_bytes s"

lemma pool_okD:
  assumes "pool_ok s"
  shows "om_wf (cs_memory_state_tx s)" "om_wf (cs_memory_state_ki_tx s)" "om_wf (cs_memory_state_fee_tx s)"
    "om_find tid (cs_memory_state_tx s) = Some t \<Longrightarrow> pt_binary_tx t \<noteq> []"
    "om_find tid (cs_memory_state_tx s) = Some t \<Longrightarrow> distinct (tx_key_images (pt_tx t))"
    "om_find tid (cs_memory_state_tx s) = Some t \<Longrightarrow> k \<in> set (tx_key_images (pt_tx t)) \<Longrightarrow>
       om_find k (cs_memory_state_ki_tx s) = Some tid"
    "om_find k (cs_memory_state_ki_tx s) = Some tid \<Longrightarrow>
       \<exists>t. om_find tid (cs_memory_state_tx s) = Some t \<and> k \<in> set (tx_key_images (pt_tx t))"
    "om_find fee (cs_memory_state_fee_tx s) = Some tids \<Longrightarrow> tids \<noteq> [] \<and> om_wf tids"
    "om_find tid (om_get_default [] fee (cs_memory_state_fee_tx s)) \<noteq> None \<longleftrightarrow>
       (\<exists>t. om_find tid (cs_memory_state_tx s) = Some t \<and> fee_per_byte t = fee)"
    "unat (cs_memory_state_total_size s) = pool_bytes s"
  using assms unfolding pool_ok_def by blast+

lemma sum_om_erase: "om_find k m = Some v \<Longrightarrow> (\<Sum>(a, b)\<leftarrow>m. f b) = (f v :: nat) + (\<Sum>(a, b)\<leftarrow>om_erase k m. f b)"
  by (induction k m rule: om_erase.induct) (auto simp: om_find_Cons split: if_splits)

lemma sum_om_set: "om_find k m = None \<Longrightarrow> (\<Sum>(a, b)\<leftarrow>om_set k v m. f b) = (f v :: nat) + (\<Sum>(a, b)\<leftarrow>m. f b)"
  by (induction k v m rule: om_set.induct) (auto simp: om_find_Cons split: if_splits)

lemma erase_key_images_ok:
  "om_wf m \<Longrightarrow> distinct (map ki_key_image ks) \<Longrightarrow> (\<And>k. k \<in> set ks \<Longrightarrow> om_find (ki_key_image k) m \<noteq> None) \<Longrightarrow>
     \<exists>m'. erase_key_images ks m = (m', True) \<and> om_wf m' \<and>
       (\<forall>x. om_find x m' = (if x \<in> ki_key_image ` set ks then None else om_find x m))"
proof (induction ks arbitrary: m)
  case Nil
  then show ?case by simp
next
  case (Cons k ks)
  have "om_find (ki_key_image x) (om_erase (ki_key_image k) m) \<noteq> None" if "x \<in> set ks" for x
    using that Cons.prems(1,2) Cons.prems(3) [of x] by (auto simp: image_iff)
  with Cons.IH [of "om_erase (ki_key_image k) m"] Cons.prems obtain m' where
    "erase_key_images ks (om_erase (ki_key_image k) m) = (m', True)" "om_wf m'"
    "\<forall>x. om_find x m' = (if x \<in> ki_key_image ` set ks then None else om_find x (om_erase (ki_key_image k) m))" by auto
  with Cons.prems show ?case by auto
qed

text \<open>The operations on the pool change only its fields.\<close>

definition same_but_pool :: "chain_state \<Rightarrow> chain_state \<Rightarrow> bool" where
  "same_but_pool s s' \<longleftrightarrow> bc_db s' = bc_db s \<and> bc_genesis_bid s' = bc_genesis_bid s \<and>
     bc_tip_bid s' = bc_tip_bid s \<and> bc_tip_cumulative_difficulty s' = bc_tip_cumulative_difficulty s \<and>
     bc_tip_height s' = bc_tip_height s \<and> bc_header_cache s' = bc_header_cache s \<and>
     bc_header_tip_window s' = bc_header_tip_window s \<and> cs_next_gi_for_amount s' = cs_next_gi_for_amount s \<and>
     cs_mining_transactions s' = cs_mining_transactions s \<and> cs_next_median_timestamp s' = cs_next_median_timestamp s \<and>
     cs_next_median_size s' = cs_next_median_size s"

lemma same_but_pool_refl [simp]: "same_but_pool s s"
  by (simp add: same_but_pool_def)

lemma same_but_pool_trans: "same_but_pool s t \<Longrightarrow> same_but_pool t u \<Longrightarrow> same_but_pool s u"
  by (simp add: same_but_pool_def)

lemma remove_from_pool_ok:
  assumes ok: "pool_ok s" and t: "om_find tid (cs_memory_state_tx s) = Some t"
  shows "\<exists>s'. remove_from_pool tid s = Inr s' \<and> pool_ok s' \<and> cs_memory_state_tx s' = om_erase tid (cs_memory_state_tx s) \<and>
    same_but_pool s s' \<and> (\<forall>k. om_find k (cs_memory_state_ki_tx s') =
      (if k \<in> set (tx_key_images (pt_tx t)) then None else om_find k (cs_memory_state_ki_tx s))) \<and>
    pool_bytes s = length (pt_binary_tx t) + pool_bytes s' \<and> cs_tx_pool_version s' = cs_tx_pool_version s"
proof -
  let ?f = "fee_per_byte t"
  define txs where "txs = om_get_default [] ?f (cs_memory_state_fee_tx s)"
  have "om_find tid txs \<noteq> None" using pool_okD(9) [OF ok, of tid ?f] t by (auto simp: txs_def)
  then have find: "om_find ?f (cs_memory_state_fee_tx s) = Some txs"
    by (auto simp: txs_def om_get_default_def split: option.splits)
  have wft: "om_wf txs" using pool_okD(8) [OF ok find] by blast
  define txs' where "txs' = om_erase tid txs"
  have keys: "om_find (ki_key_image k) (cs_memory_state_ki_tx s) \<noteq> None" if "k \<in> set (key_inputs (tx_inputs (pt_tx t)))" for k
    using pool_okD(6) [OF ok t, of "ki_key_image k"] that by (simp add: tx_key_images_def)
  obtain m' where m': "erase_key_images (key_inputs (tx_inputs (pt_tx t))) (cs_memory_state_ki_tx s) = (m', True)" "om_wf m'"
    "\<And>x. om_find x m' = (if x \<in> set (tx_key_images (pt_tx t)) then None else om_find x (cs_memory_state_ki_tx s))"
    using erase_key_images_ok [OF pool_okD(2) [OF ok], of "key_inputs (tx_inputs (pt_tx t))"] pool_okD(5) [OF ok t] keys
    by (auto simp: tx_key_images_def)
  define fee_tx where "fee_tx = (if txs' = [] then om_erase ?f (om_set ?f txs' (cs_memory_state_fee_tx s))
    else om_set ?f txs' (cs_memory_state_fee_tx s))"
  define s' where "s' = s\<lparr>cs_memory_state_ki_tx := m', cs_memory_state_fee_tx := fee_tx,
    cs_memory_state_total_size := cs_memory_state_total_size s - word_of_nat (length (pt_binary_tx t)),
    cs_memory_state_tx := om_erase tid (cs_memory_state_tx s)\<rparr>"
  have run: "remove_from_pool tid s = Inr s'"
    using t m'(1) \<open>om_find tid txs \<noteq> None\<close>
    by (simp add: remove_from_pool_def Let_def s'_def fee_tx_def txs'_def txs_def)
  have bytes: "pool_bytes s = length (pt_binary_tx t) + pool_bytes s'"
    using sum_om_erase [OF t, of "\<lambda>t. length (pt_binary_tx t)"] by (simp add: pool_bytes_def s'_def)
  have total_size: "unat (cs_memory_state_total_size s') = pool_bytes s'"
  proof -
    have "unat (word_of_nat (length (pt_binary_tx t)) :: u64) = length (pt_binary_tx t)"
      using bytes pool_okD(10) [OF ok] u64_less [of "cs_memory_state_total_size s"] by (simp add: unat_of_nat)
    moreover from this have "word_of_nat (length (pt_binary_tx t)) \<le> cs_memory_state_total_size s"
      using bytes pool_okD(10) [OF ok] by (simp add: word_le_nat_alt)
    ultimately show ?thesis using bytes pool_okD(10) [OF ok] by (simp add: s'_def unat_sub)
  qed
  have wff: "om_wf fee_tx" using pool_okD(3) [OF ok] by (simp add: fee_tx_def)
  have feef: "om_find f fee_tx = (if f = ?f then (if txs' = [] then None else Some txs') else om_find f (cs_memory_state_fee_tx s))" for f
    using pool_okD(3) [OF ok] by (simp add: fee_tx_def)
  have dflt: "om_find x (om_get_default [] f fee_tx) =
      (if x = tid \<and> f = ?f then None else om_find x (om_get_default [] f (cs_memory_state_fee_tx s)))" for x f
    using wft find om_find_erase [OF wft, of x tid] by (auto simp: om_get_default_def feef txs'_def [symmetric] split: option.splits)
  have find': "om_find x (cs_memory_state_tx s') = (if x = tid then None else om_find x (cs_memory_state_tx s))" for x
    using pool_okD(1) [OF ok] by (simp add: s'_def)
  have "pool_ok s'"
    unfolding pool_ok_def
  proof (intro conjI allI impI)
    show "om_wf (cs_memory_state_tx s')" "om_wf (cs_memory_state_ki_tx s')" "om_wf (cs_memory_state_fee_tx s')"
      using pool_okD(1) [OF ok] m'(2) wff by (simp_all add: s'_def)
    show "unat (cs_memory_state_total_size s') = pool_bytes s'" by (rule total_size)
  next
    fix x u assume u: "om_find x (cs_memory_state_tx s') = Some u"
    then have x: "x \<noteq> tid" "om_find x (cs_memory_state_tx s) = Some u" by (auto simp: find' split: if_splits)
    then show "pt_binary_tx u \<noteq> []" "distinct (tx_key_images (pt_tx u))" using pool_okD(4,5) [OF ok] by blast+
    show "\<forall>k \<in> set (tx_key_images (pt_tx u)). om_find k (cs_memory_state_ki_tx s') = Some x"
    proof
      fix k assume k: "k \<in> set (tx_key_images (pt_tx u))"
      then have kx: "om_find k (cs_memory_state_ki_tx s) = Some x" by (rule pool_okD(6) [OF ok x(2)])
      then have "k \<notin> set (tx_key_images (pt_tx t))" using pool_okD(6) [OF ok t, of k] x(1) by auto
      with kx show "om_find k (cs_memory_state_ki_tx s') = Some x" by (simp add: s'_def m'(3))
    qed
  next
    fix k x assume "om_find k (cs_memory_state_ki_tx s') = Some x"
    then have k: "k \<notin> set (tx_key_images (pt_tx t))" "om_find k (cs_memory_state_ki_tx s) = Some x"
      by (auto simp: s'_def m'(3) split: if_splits)
    then obtain u where "om_find x (cs_memory_state_tx s) = Some u" "k \<in> set (tx_key_images (pt_tx u))"
      using pool_okD(7) [OF ok] by blast
    with k(1) t show "\<exists>t. om_find x (cs_memory_state_tx s') = Some t \<and> k \<in> set (tx_key_images (pt_tx t))"
      by (auto simp: find')
  next
    fix f tids assume "om_find f (cs_memory_state_fee_tx s') = Some tids"
    then show "tids \<noteq> []" "om_wf tids"
      using pool_okD(8) [OF ok] om_wf_erase [OF wft] by (auto simp: s'_def feef txs'_def split: if_splits)
  next
    fix f x
    show "om_find x (om_get_default [] f (cs_memory_state_fee_tx s')) \<noteq> None \<longleftrightarrow>
      (\<exists>t. om_find x (cs_memory_state_tx s') = Some t \<and> fee_per_byte t = f)"
      using pool_okD(9) [OF ok, of x f] t unfolding find' by (auto simp: s'_def dflt)
  qed
  with run bytes show ?thesis using m'(3) by (intro exI [of _ s']) (simp add: s'_def same_but_pool_def)
qed

section \<open>Replacing and inserting\<close>

lemma displace_conflicts_ok:
  "pool_ok s \<Longrightarrow> \<exists>go_on s'. displace_conflicts tid fee kis s = Inr (go_on, s') \<and> pool_ok s' \<and> same_but_pool s s' \<and>
     pool_bytes s' \<le> pool_bytes s \<and>
     (\<forall>x t. om_find x (cs_memory_state_tx s') = Some t \<longrightarrow> om_find x (cs_memory_state_tx s) = Some t) \<and>
     (\<forall>k. om_find k (cs_memory_state_ki_tx s) = None \<longrightarrow> om_find k (cs_memory_state_ki_tx s') = None) \<and>
     (go_on \<longrightarrow> (\<forall>k \<in> fst ` set kis. om_find k (cs_memory_state_ki_tx s') = None)) \<and> cs_tx_pool_version s' = cs_tx_pool_version s"
proof (induction kis arbitrary: s)
  case Nil
  then show ?case by (intro exI [of _ True] exI [of _ s]) simp
next
  case (Cons x kis)
  obtain k h where x: "x = (k, h)" by fastforce
  show ?case
  proof (cases "om_find k (cs_memory_state_ki_tx s)")
    case None
    with Cons.IH [OF Cons.prems] x show ?thesis by auto
  next
    case (Some other)
    with pool_okD(7) [OF Cons.prems] obtain t where t: "om_find other (cs_memory_state_tx s) = Some t" "k \<in> set (tx_key_images (pt_tx t))"
      by blast
    then obtain less where less: "outbid tid fee other s = Inr less" by (simp add: outbid_def pool_at_def)
    show ?thesis
    proof (cases less)
      case True
      with Some less x Cons.prems show ?thesis by auto
    next
      case False
      obtain s1 where s1: "remove_from_pool other s = Inr s1" "pool_ok s1" "same_but_pool s s1"
        "cs_memory_state_tx s1 = om_erase other (cs_memory_state_tx s)"
        "\<And>k. om_find k (cs_memory_state_ki_tx s1) = (if k \<in> set (tx_key_images (pt_tx t)) then None else om_find k (cs_memory_state_ki_tx s))"
        "pool_bytes s1 \<le> pool_bytes s" "cs_tx_pool_version s1 = cs_tx_pool_version s"
        using remove_from_pool_ok [OF Cons.prems t(1)] by auto
      obtain go_on s' where IH: "displace_conflicts tid fee kis s1 = Inr (go_on, s')" "pool_ok s'" "same_but_pool s1 s'"
        "pool_bytes s' \<le> pool_bytes s1"
        "\<And>x t. om_find x (cs_memory_state_tx s') = Some t \<Longrightarrow> om_find x (cs_memory_state_tx s1) = Some t"
        "\<And>k. om_find k (cs_memory_state_ki_tx s1) = None \<Longrightarrow> om_find k (cs_memory_state_ki_tx s') = None"
        "go_on \<Longrightarrow> \<forall>k \<in> fst ` set kis. om_find k (cs_memory_state_ki_tx s') = None" "cs_tx_pool_version s' = cs_tx_pool_version s1"
        using Cons.IH [OF s1(2)] by blast
      have "om_find y (cs_memory_state_tx s) = Some u" if "om_find y (cs_memory_state_tx s') = Some u" for y u
        using IH(5) [OF that] pool_okD(1) [OF Cons.prems] by (simp add: s1(4) split: if_splits)
      moreover have "displace_conflicts tid fee (x # kis) s = Inr (go_on, s')"
        using Some less False s1(1) IH(1) by (simp add: x)
      moreover have "om_find k (cs_memory_state_ki_tx s') = None" using IH(6) s1(5) t(2) by simp
      ultimately show ?thesis
        using IH s1 same_but_pool_trans [OF s1(3) IH(3)] by (intro exI [of _ go_on] exI [of _ s']) (auto simp: x)
    qed
  qed
qed

lemma insert_key_images_ok:
  "distinct (map fst kis) \<Longrightarrow> (\<And>k. k \<in> fst ` set kis \<Longrightarrow> om_find k m = None) \<Longrightarrow> om_wf m \<Longrightarrow>
     \<exists>m'. insert_key_images tid kis m = (m', True) \<and> om_wf m' \<and>
       (\<forall>k. om_find k m' = (if k \<in> fst ` set kis then Some tid else om_find k m))"
proof (induction kis arbitrary: m)
  case Nil
  then show ?case by simp
next
  case (Cons x kis)
  obtain k h where x: "x = (k, h)" by fastforce
  have "om_find y (om_set k tid m) = None" if "y \<in> fst ` set kis" for y
    using that Cons.prems(1,2) x by (auto simp: image_iff)
  with Cons.IH [of "om_set k tid m"] Cons.prems(1,3) obtain m' where
    "insert_key_images tid kis (om_set k tid m) = (m', True)" "om_wf m'"
    "\<forall>y. om_find y m' = (if y \<in> fst ` set kis then Some tid else om_find y (om_set k tid m))" by auto
  moreover have "om_find k m = None" using Cons.prems(2) [of k] x by simp
  ultimately show ?case by (auto simp: x om_insert_def)
qed

lemma insert_in_pool_ok:
  assumes ok: "pool_ok s" and new: "om_find tid (cs_memory_state_tx s) = None"
    and kis: "distinct (map fst kis)" "fst ` set kis = set (tx_key_images (pt_tx t))" "distinct (tx_key_images (pt_tx t))"
      "\<And>k. k \<in> fst ` set kis \<Longrightarrow> om_find k (cs_memory_state_ki_tx s) = None"
    and t: "pt_binary_tx t \<noteq> []" "fee_per_byte t = fee" and room: "pool_bytes s + length (pt_binary_tx t) < 2 ^ 64"
  shows "\<exists>s'. insert_in_pool tid t fee kis s = Inr s' \<and> pool_ok s' \<and> same_but_pool s s' \<and>
    cs_memory_state_tx s' = om_set tid t (cs_memory_state_tx s) \<and> cs_tx_pool_version s' = cs_tx_pool_version s"
proof -
  obtain m' where m': "insert_key_images tid kis (cs_memory_state_ki_tx s) = (m', True)" "om_wf m'"
    "\<And>k. om_find k m' = (if k \<in> set (tx_key_images (pt_tx t)) then Some tid else om_find k (cs_memory_state_ki_tx s))"
    using insert_key_images_ok [OF kis(1,4) pool_okD(2) [OF ok], of tid] kis(2) by auto
  define tids where "tids = om_get_default [] fee (cs_memory_state_fee_tx s)"
  have wft: "om_wf tids"
    using pool_okD(8) [OF ok, of fee] by (auto simp: tids_def om_get_default_def split: option.splits)
  have newt: "om_find tid tids = None"
    using pool_okD(9) [OF ok, of tid fee] new unfolding tids_def [symmetric] by (metis option.distinct(1))
  define s' where "s' = s\<lparr>cs_memory_state_ki_tx := m', cs_memory_state_tx := om_set tid t (cs_memory_state_tx s),
    cs_memory_state_fee_tx := om_set fee (om_set tid () tids) (cs_memory_state_fee_tx s),
    cs_memory_state_total_size := cs_memory_state_total_size s + word_of_nat (length (pt_binary_tx t))\<rparr>"
  have run: "insert_in_pool tid t fee kis s = Inr s'"
    using m'(1) new newt by (simp add: insert_in_pool_def om_insert_def s'_def tids_def)
  have bytes: "pool_bytes s' = length (pt_binary_tx t) + pool_bytes s"
    using sum_om_set [OF new, of "\<lambda>t. length (pt_binary_tx t)" t] by (simp add: pool_bytes_def s'_def)
  have "pool_ok s'"
    unfolding pool_ok_def
  proof (intro conjI allI impI)
    show "om_wf (cs_memory_state_tx s')" "om_wf (cs_memory_state_ki_tx s')" "om_wf (cs_memory_state_fee_tx s')"
      using pool_okD(1,3) [OF ok] m'(2) by (simp_all add: s'_def)
    show "unat (cs_memory_state_total_size s') = pool_bytes s'"
      using room pool_okD(10) [OF ok] unfolding bytes by (simp add: s'_def unat_word_ariths unat_of_nat)
  next
    fix x u assume "om_find x (cs_memory_state_tx s') = Some u"
    then have x: "x = tid \<and> u = t \<or> x \<noteq> tid \<and> om_find x (cs_memory_state_tx s) = Some u" by (auto simp: s'_def split: if_splits)
    then show "pt_binary_tx u \<noteq> []" "distinct (tx_key_images (pt_tx u))" using pool_okD(4,5) [OF ok] t(1) kis(3) by blast+
    show "\<forall>k \<in> set (tx_key_images (pt_tx u)). om_find k (cs_memory_state_ki_tx s') = Some x"
    proof
      fix k assume k: "k \<in> set (tx_key_images (pt_tx u))"
      show "om_find k (cs_memory_state_ki_tx s') = Some x"
      proof (cases "x = tid")
        case False
        with x k have "om_find k (cs_memory_state_ki_tx s) = Some x" using pool_okD(6) [OF ok] by blast
        moreover from this have "k \<notin> set (tx_key_images (pt_tx t))" using kis(2,4) by force
        ultimately show ?thesis by (simp add: s'_def m'(3))
      qed (use x k in \<open>simp add: s'_def m'(3)\<close>)
    qed
  next
    fix k x assume "om_find k (cs_memory_state_ki_tx s') = Some x"
    then have "(k \<in> set (tx_key_images (pt_tx t)) \<and> x = tid) \<or> om_find k (cs_memory_state_ki_tx s) = Some x"
      by (auto simp: s'_def m'(3) split: if_splits)
    then show "\<exists>t. om_find x (cs_memory_state_tx s') = Some t \<and> k \<in> set (tx_key_images (pt_tx t))"
      using pool_okD(7) [OF ok, of k x] new by (auto simp: s'_def)
  next
    fix f tids' assume "om_find f (cs_memory_state_fee_tx s') = Some tids'"
    then have "tids' = om_set tid () tids \<or> om_find f (cs_memory_state_fee_tx s) = Some tids'" by (auto simp: s'_def split: if_splits)
    moreover have "om_set tid () tids \<noteq> []" by (metis keys_om_set om_keys_simps(1) insert_not_empty)
    ultimately show "tids' \<noteq> []" "om_wf tids'" using pool_okD(8) [OF ok, of f tids'] om_wf_set [OF wft, of tid "()"] by auto
  next
    fix f x
    have "om_find x (om_get_default [] f (cs_memory_state_fee_tx s')) =
      (if f = fee \<and> x = tid then Some () else om_find x (om_get_default [] f (cs_memory_state_fee_tx s)))"
      by (auto simp: s'_def om_get_default_def tids_def split: option.splits)
    then show "om_find x (om_get_default [] f (cs_memory_state_fee_tx s')) \<noteq> None \<longleftrightarrow>
      (\<exists>t. om_find x (cs_memory_state_tx s') = Some t \<and> fee_per_byte t = f)"
      using pool_okD(9) [OF ok, of x f] t(2) new by (auto simp: s'_def)
  qed
  with run show ?thesis by (intro exI [of _ s']) (simp add: s'_def same_but_pool_def)
qed

section \<open>Trimming\<close>

text \<open>The pool holds at most the limit, or would fall below it without its least transaction.\<close>

definition pool_bounded :: "chain_state \<Rightarrow> bool" where
  "pool_bounded s \<longleftrightarrow> pool_bytes s \<le> 2000000 \<or>
     (\<exists>fee tids t. cs_memory_state_fee_tx s \<noteq> [] \<and> hd (cs_memory_state_fee_tx s) = (fee, tids) \<and> tids \<noteq> [] \<and>
        om_find (fst (hd tids)) (cs_memory_state_tx s) = Some t \<and> pool_bytes s < 2000000 + length (pt_binary_tx t))"

lemma pool_least:
  assumes ok: "pool_ok s" and ne: "pool_bytes s \<noteq> 0"
  shows "\<exists>fee tid u rest more t. cs_memory_state_fee_tx s = (fee, (tid, u) # rest) # more \<and>
    om_find tid (cs_memory_state_tx s) = Some t \<and> fee_per_byte t = fee"
proof -
  obtain x u m where "cs_memory_state_tx s = (x, u) # m"
    using ne by (cases "cs_memory_state_tx s") (auto simp: pool_bytes_def)
  then have "om_find x (cs_memory_state_tx s) = Some u" by (simp add: om_find_Cons)
  then have "om_get_default [] (fee_per_byte u) (cs_memory_state_fee_tx s) \<noteq> []"
    using pool_okD(9) [OF ok, of x "fee_per_byte u"] by auto
  then obtain fee tids more where f: "cs_memory_state_fee_tx s = (fee, tids) # more"
    by (cases "cs_memory_state_fee_tx s") (auto simp: om_get_default_def)
  then have g: "om_get_default [] fee (cs_memory_state_fee_tx s) = tids" "om_find fee (cs_memory_state_fee_tx s) = Some tids"
    by (simp_all add: om_get_default_def om_find_Cons)
  with pool_okD(8) [OF ok g(2)] obtain tid u' rest where t: "tids = (tid, u') # rest" by (cases tids) auto
  then have "om_find tid tids \<noteq> None" by (simp add: om_find_Cons)
  with pool_okD(9) [OF ok, of tid fee] g(1) f t show ?thesis by auto
qed

lemma trim_pool_ok:
  "pool_ok s \<Longrightarrow> \<exists>s'. trim_pool s = Inr s' \<and> pool_ok s' \<and> same_but_pool s s' \<and> pool_bounded s' \<and>
     pool_bytes s' \<le> pool_bytes s \<and>
     (\<forall>x t. om_find x (cs_memory_state_tx s') = Some t \<longrightarrow> om_find x (cs_memory_state_tx s) = Some t)"
proof (induction "length (cs_memory_state_tx s)" arbitrary: s rule: less_induct)
  case less
  have total: "unat (cs_memory_state_total_size s) = pool_bytes s" by (rule pool_okD(10) [OF less.prems])
  show ?case
  proof (cases "cs_memory_state_total_size s > MAX_POOL_SIZE")
    case False
    then have "pool_bytes s \<le> 2000000" using total by (simp add: MAX_POOL_SIZE_def word_less_nat_alt not_less)
    with False less.prems show ?thesis by (simp add: trim_pool.simps [of s] pool_bounded_def)
  next
    case True
    then have big: "2000000 < pool_bytes s" using total by (simp add: MAX_POOL_SIZE_def word_less_nat_alt)
    then obtain fee tid u rest more t where f: "cs_memory_state_fee_tx s = (fee, (tid, u) # rest) # more"
      "om_find tid (cs_memory_state_tx s) = Some t" using pool_least [OF less.prems] by fastforce
    have len: "length (pt_binary_tx t) \<le> pool_bytes s"
      using sum_om_erase [OF f(2), of "\<lambda>t. length (pt_binary_tx t)"] by (simp add: pool_bytes_def)
    show ?thesis
    proof (cases "cs_memory_state_total_size s < MAX_POOL_SIZE + word_of_nat (length (pt_binary_tx t))")
      case c: True
      have "pool_bytes s < 2000000 + length (pt_binary_tx t)"
      proof -
        have "unat (MAX_POOL_SIZE + word_of_nat (length (pt_binary_tx t))) \<le> 2000000 + length (pt_binary_tx t)"
          by (simp add: MAX_POOL_SIZE_def unat_word_ariths unat_of_nat)
        with c show ?thesis by (simp add: word_less_nat_alt total)
      qed
      with True c f less.prems show ?thesis
        by (intro exI [of _ s]) (auto simp: trim_pool.simps [of s] pool_at_def pool_bounded_def)
    next
      case c: False
      obtain s1 where s1: "remove_from_pool tid s = Inr s1" "pool_ok s1" "same_but_pool s s1"
        "cs_memory_state_tx s1 = om_erase tid (cs_memory_state_tx s)" "pool_bytes s1 \<le> pool_bytes s"
        using remove_from_pool_ok [OF less.prems f(2)] by auto
      have "length (cs_memory_state_tx s1) < length (cs_memory_state_tx s)" using om_erase_length [OF f(2)] by (simp add: s1(4))
      from less.hyps [OF this s1(2)] obtain s' where s': "trim_pool s1 = Inr s'" "pool_ok s'" "same_but_pool s1 s'" "pool_bounded s'"
        "pool_bytes s' \<le> pool_bytes s1" "\<And>x t. om_find x (cs_memory_state_tx s') = Some t \<Longrightarrow> om_find x (cs_memory_state_tx s1) = Some t"
        by blast
      have "om_find x (cs_memory_state_tx s) = Some v" if "om_find x (cs_memory_state_tx s') = Some v" for x v
        using s'(6) [OF that] pool_okD(1) [OF less.prems] by (simp add: s1(4) split: if_splits)
      moreover have "trim_pool s = Inr s'"
        using True c f s1(1) s'(1) by (simp add: trim_pool.simps [of s] pool_at_def)
      ultimately show ?thesis
        using s' s1(5) same_but_pool_trans [OF s1(3) s'(3)] by (intro exI [of _ s']) auto
    qed
  qed
qed

section \<open>The check against the ledger always answers\<close>

definition view_total :: "parent_view \<Rightarrow> bool" where
  "view_total v \<longleftrightarrow> (\<forall>k. \<exists>r. v_read_keyimage v k = Inr r) \<and> (\<forall>a. \<exists>r. v_next_global_index_for_amount v a = Inr r) \<and>
     (\<forall>a g. \<exists>r. v_read_amount_output v a g = Inr r)"

lemma view_total_chain: "ledger_ok s L \<Longrightarrow> view_total (view_of chain_ops s)"
  using chain.view [of s L] unfolding view_ok_def view_total_def by blast

lemma view_totalD:
  assumes "view_total v"
  shows "\<exists>r. v_read_keyimage v k = Inr r" "\<exists>r. v_next_global_index_for_amount v a = Inr r"
    "\<exists>r. v_read_amount_output v a g = Inr r"
  using assms unfolding view_total_def by blast+

lemma delta_reads_total:
  assumes "view_total v"
  shows "\<exists>r. delta_read_keyimage v k d = Inr r" "\<exists>r. delta_next_global_index_for_amount v a d = Inr r"
    "\<exists>r. delta_read_amount_output v a g d = Inr r"
  using view_totalD(1) [OF assms, of k] view_totalD(2) [OF assms, of a] view_totalD(3) [OF assms, of a g]
  by (auto simp: delta_read_keyimage_def delta_next_global_index_for_amount_def delta_read_amount_output_def Let_def split: option.splits)

lemma view_total_delta: "view_total v \<Longrightarrow> view_total (view_of (delta_ops v) d)"
  using delta_reads_total [of v] unfolding view_total_def view_of_def delta_ops_def by simp

lemma redo_output_keys_total:
  "(\<And>g. \<exists>r. read g = Inr r) \<Longrightarrow> \<exists>r. redo_output_keys c read h t gs conf = Inr r"
proof (induction gs arbitrary: conf)
  case (Cons g gs)
  from Cons.prems obtain r where r: "read g = Inr r" by blast
  show ?case
  proof (cases r)
    case (Some u)
    obtain r2 where "redo_output_keys c read h t gs (max conf (unp_height u)) = Inr r2"
      using Cons.IH [OF Cons.prems] by blast
    with r Some show ?thesis by (cases r2) (simp add: Let_def)
  qed (simp add: r)
qed simp

lemma check_key_input_total:
  assumes "view_total v"
  shows "\<exists>r. check_key_input env c v h t ph sigs inp d conf = Inr r"
proof -
  obtain r1 where r1: "delta_read_keyimage v (ki_key_image inp) d = Inr r1" using delta_reads_total(1) [OF assms] by blast
  obtain r2 where r2: "redo_output_keys c (\<lambda>g. delta_read_amount_output v (ki_amount inp) g d) h t
      (global_indexes (ki_output_indexes inp)) conf = Inr r2"
    using redo_output_keys_total delta_reads_total(3) [OF assms] by meson
  show ?thesis by (cases r2) (auto simp: check_key_input_def r1 r2 split: option.split sum.split prod.split)
qed

lemma redo_inputs_total:
  assumes "view_total v"
  shows "distinct (map ki_key_image (key_inputs ins)) \<Longrightarrow> om_keys (ds_keyimages d) \<inter> ki_key_image ` set (key_inputs ins) = {} \<Longrightarrow>
    \<exists>r. redo_inputs env c v h t ph sigs cs i ins d conf = Inr r"
proof (induction ins arbitrary: i d conf)
  case Nil
  then show ?case by simp
next
  case (Cons x ins)
  show ?case
  proof (cases x)
    case (CoinbaseInput u)
    with Cons show ?thesis by simp
  next
    case (KeyInput inp)
    obtain e conf' where e: "(if cs then check_key_input env c v h t ph (sigs ! i) inp d conf else Inr ([], conf)) = Inr (e, conf')"
      using check_key_input_total [OF assms] by (metis surj_pair)
    obtain d1 where d1: "(if length (ki_output_indexes inp) = 1
        then delta_spend_output (ki_amount inp) (ki_output_indexes inp ! 0) d else Inr d) = Inr d1" "ds_keyimages d1 = ds_keyimages d"
      by (cases "length (ki_output_indexes inp) = 1") (simp_all add: delta_spend_output_def)
    have "om_find (ki_key_image inp) (ds_keyimages d1) = None" using Cons.prems(2) KeyInput by (simp add: om_find_None d1(2))
    then obtain d2 where d2: "delta_store_keyimage (ki_key_image inp) h d1 = Inr d2"
      by (simp add: delta_store_keyimage_def om_insert_def)
    from delta_store_keys [OF d2] d1(2) Cons.prems KeyInput
    have "om_keys (ds_keyimages d2) \<inter> ki_key_image ` set (key_inputs ins) = {}" "distinct (map ki_key_image (key_inputs ins))" by auto
    with Cons.IH [of d2 "i + 1" conf'] show ?thesis
      by (cases "e = []") (simp_all only: KeyInput redo_inputs.simps e res_bind_Inr prod.case d1(1) d2, auto)
  qed
qed

lemma redo_outputs_total:
  "view_total v \<Longrightarrow> \<exists>r. redo_outputs v t outs d = Inr r"
proof (induction outs arbitrary: d)
  case (Cons out outs)
  obtain g d1 where "delta_push_amount_output v (to_amount out) t 0 (output_key out) d = Inr (g, d1)"
    using view_totalD(2) [OF Cons.prems, of "to_amount out"] by (auto simp: delta_push_amount_output_def Let_def)
  with Cons.IH [OF Cons.prems, of d1] show ?case by (auto simp: res_bind_def)
qed simp

lemma res_fold_total:
  "(\<And>x s. x \<in> set xs \<Longrightarrow> \<exists>s'. f x s = Inr s') \<Longrightarrow> \<exists>s'. res_fold f xs s = Inr s'"
proof (induction xs arbitrary: s)
  case (Cons x xs)
  then obtain s1 where "f x s = Inr s1" by (meson list.set_intros(1))
  with Cons.IH [of s1] Cons.prems show ?case by simp
qed simp

lemma res_fold_keeps:
  "(\<And>x s s'. f x s = Inr s' \<Longrightarrow> P s \<Longrightarrow> P s') \<Longrightarrow> res_fold f xs s = Inr s' \<Longrightarrow> P s \<Longrightarrow> P s'"
  by (induction xs arbitrary: s) (auto simp: res_bind_eq_Inr)

lemma store_keyimages_total:
  "om_wf m \<Longrightarrow> om_keys m \<inter> om_keys (ds_keyimages D) = {} \<Longrightarrow>
     \<exists>D'. res_fold (\<lambda>(k, h). delta_store_keyimage k h) m D = Inr D'"
proof (induction m arbitrary: D)
  case (Cons x m)
  obtain k h where x: "x = (k, h)" by fastforce
  have "om_find k (ds_keyimages D) = None" using Cons.prems(2) x by (simp add: om_find_None)
  then obtain D1 where D1: "delta_store_keyimage k h D = Inr D1" by (simp add: delta_store_keyimage_def om_insert_def)
  have "k \<notin> om_keys m" using Cons.prems(1) x by (auto simp: om_wf_Cons)
  with delta_store_keys [OF D1] Cons.prems x have "om_keys m \<inter> om_keys (ds_keyimages D1) = {}" "om_wf m"
    by (auto simp: om_wf_Cons)
  with Cons.IH [of D1] show ?case by (auto simp: x D1)
qed simp

lemma apply_delta_total:
  assumes v: "view_total v" and d: "om_wf (ds_keyimages d)" "om_keys (ds_keyimages d) \<inter> om_keys (ds_keyimages D) = {}"
  shows "\<exists>D'. apply_delta (delta_ops v) d D = Inr D'"
proof -
  obtain D1 where D1: "res_fold (\<lambda>(k, h). delta_store_keyimage k h) (ds_keyimages d) D = Inr D1"
    using store_keyimages_total [OF d] by blast
  have "\<exists>s'. res_bind (delta_push_amount_output v a t h pk s) (\<lambda>(_, s). Inr s) = Inr s'" for a t h pk and s :: delta_state
    using view_totalD(2) [OF v, of a] by (auto simp: delta_push_amount_output_def Let_def)
  then have "\<exists>s'. (\<lambda>(t, pk) s. res_bind (delta_push_amount_output v a t h pk s) (\<lambda>(_, s). Inr s)) x s = Inr s'"
    for a h x and s :: delta_state by (cases x) simp
  then have "\<exists>s'. res_fold (\<lambda>(t, pk) s. res_bind (delta_push_amount_output v a t h pk s) (\<lambda>(_, s). Inr s)) els s = Inr s'"
    for a h els and s :: delta_state by (rule res_fold_total)
  then have "\<exists>s'. (\<lambda>(amount, els). res_fold (\<lambda>(t, pk) s. res_bind (delta_push_amount_output v amount t h pk s)
      (\<lambda>(_, s). Inr s)) els) x s = Inr s'" for h x and s :: delta_state by (cases x) simp
  then obtain D2 where D2: "res_fold (\<lambda>(amount, els). res_fold (\<lambda>(t, pk) s.
      res_bind (delta_push_amount_output v amount t (ds_block_height d) pk s) (\<lambda>(_, s). Inr s)) els) (ds_global_amounts d) D1 = Inr D2"
    using res_fold_total by meson
  obtain D3 where "res_fold (\<lambda>(amount, g). delta_spend_output amount g) (ds_spent_outputs d) D2 = Inr D3"
    using res_fold_total [of "ds_spent_outputs d" "\<lambda>(amount, g). delta_spend_output amount g" D2]
    by (auto simp: delta_spend_output_def split: prod.splits)
  with D1 D2 show ?thesis by (simp add: apply_delta_def delta_ops_def)
qed

text \<open>The key images of a delta stay in order.\<close>

lemma delta_store_wf: "delta_store_keyimage k h d = Inr d' \<Longrightarrow> om_wf (ds_keyimages d) \<Longrightarrow> om_wf (ds_keyimages d')"
  by (auto simp: delta_store_keyimage_def om_insert_def res_bind_eq_Inr split: option.splits)

lemma redo_inputs_keys:
  "redo_inputs env c v h t ph sigs cs i ins d conf = Inr (e, conf', d') \<Longrightarrow> om_wf (ds_keyimages d) \<Longrightarrow>
     om_wf (ds_keyimages d') \<and> (e = [] \<longrightarrow> om_keys (ds_keyimages d') = om_keys (ds_keyimages d) \<union> ki_key_image ` set (key_inputs ins))"
proof (induction ins arbitrary: i d conf)
  case (Cons x ins)
  show ?case
  proof (cases x)
    case (CoinbaseInput u)
    with Cons.prems(1) have "redo_inputs env c v h t ph sigs cs (i + 1) ins d conf = Inr (e, conf', d')" by simp
    from Cons.IH [OF this Cons.prems(2)] CoinbaseInput show ?thesis by simp
  next
    case (KeyInput inp)
    let ?one = "if length (ki_output_indexes inp) = 1 then delta_spend_output (ki_amount inp) (ki_output_indexes inp ! 0) d else Inr d"
    from Cons.prems(1) KeyInput obtain e1 conf1 where
      e1: "(if e1 \<noteq> [] then Inr (e1, conf1, d) else res_bind ?one (\<lambda>d. res_bind (delta_store_keyimage (ki_key_image inp) h d)
        (\<lambda>d. redo_inputs env c v h t ph sigs cs (i + 1) ins d conf1))) = Inr (e, conf', d')"
      by (auto simp: res_bind_eq_Inr simp del: One_nat_def)
    show ?thesis
    proof (cases "e1 = []")
      case True
      with e1 obtain d1 d2 where d: "?one = Inr d1" "delta_store_keyimage (ki_key_image inp) h d1 = Inr d2"
        "redo_inputs env c v h t ph sigs cs (i + 1) ins d2 conf1 = Inr (e, conf', d')"
        by (auto simp: res_bind_eq_Inr simp del: One_nat_def)
      have k1: "ds_keyimages d1 = ds_keyimages d" using d(1) by (auto simp: delta_spend_output_def split: if_splits)
      then have "om_wf (ds_keyimages d2)" using delta_store_wf [OF d(2)] Cons.prems(2) by simp
      from Cons.IH [OF d(3) this] delta_store_keys [OF d(2)] k1 KeyInput show ?thesis by auto
    qed (use e1 Cons.prems(2) in simp)
  qed
qed simp

lemma redo_outputs_keys: "redo_outputs v t outs d = Inr (gs, d') \<Longrightarrow> ds_keyimages d' = ds_keyimages d"
  by (induction outs arbitrary: d gs) (fastforce simp: res_bind_eq_Inr dest: delta_push_keys)+

lemma apply_delta_wf:
  assumes "apply_delta (delta_ops v) d D = Inr D'" "om_wf (ds_keyimages D)"
  shows "om_wf (ds_keyimages D')"
proof -
  let ?P = "\<lambda>D. om_wf (ds_keyimages D)"
  from assms(1) obtain D1 D2 where
    D1: "res_fold (\<lambda>(k, h). delta_store_keyimage k h) (ds_keyimages d) D = Inr D1" and
    D2: "res_fold (\<lambda>(amount, els). res_fold (\<lambda>(t, pk) s.
      res_bind (delta_push_amount_output v amount t (ds_block_height d) pk s) (\<lambda>(_, s). Inr s)) els) (ds_global_amounts d) D1 = Inr D2" and
    D3: "res_fold (\<lambda>(amount, g). delta_spend_output amount g) (ds_spent_outputs d) D2 = Inr D'"
    by (auto simp: apply_delta_def delta_ops_def res_bind_eq_Inr)
  have one: "?P D1" by (rule res_fold_keeps [where P = ?P, OF _ D1 assms(2)]) (auto dest: delta_store_wf)
  have push: "?P s'" if "(\<lambda>(t, pk) s. res_bind (delta_push_amount_output v a t h pk s) (\<lambda>(_, s). Inr s)) x s = Inr s'" "?P s"
    for a h x s s'
    using that by (auto simp: res_bind_eq_Inr split: prod.splits dest: delta_push_keys)
  have pushes: "?P s'" if "res_fold (\<lambda>(t, pk) s. res_bind (delta_push_amount_output v a t h pk s) (\<lambda>(_, s). Inr s)) els s = Inr s'" "?P s"
    for a h els s s'
    by (rule res_fold_keeps [where P = ?P, OF push that])
  have "?P D2" by (rule res_fold_keeps [where P = ?P, OF _ D2 one]) (auto dest: pushes)
  then show ?thesis by (intro res_fold_keeps [where P = ?P, OF _ D3]) (auto dest: delta_spend_keys)
qed

lemma redo_transaction_keys:
  assumes v: "view_total v" and tx: "distinct (tx_key_images tx)"
  shows "\<exists>e D gis conf. redo_transaction_get_error env c v False tx (new_delta h t) [] cs = Inr (e, D, gis, conf) \<and>
    (e = [] \<longrightarrow> om_wf (ds_keyimages D) \<and> om_keys (ds_keyimages D) = set (tx_key_images tx))"
proof -
  let ?D = "new_delta h t"
  have D: "ds_keyimages ?D = []" "ds_block_height ?D = h" "ds_unlock_timestamp ?D = t" by (simp_all add: new_delta_def)
  let ?parent = "view_of (delta_ops v) ?D" and ?ph = "if cs then get_transaction_prefix_hash env tx else null_hash"
  have parent: "view_total ?parent" by (rule view_total_delta [OF v])
  obtain e conf d1 where i: "redo_inputs env c ?parent h t ?ph (tx_signatures tx) cs 0 (tx_inputs tx) ?D 0 = Inr (e, conf, d1)"
    using redo_inputs_total [OF parent, of "tx_inputs tx" ?D env c h t ?ph "tx_signatures tx" cs 0 0] tx
    by (auto simp: tx_key_images_def D(1))
  note I = redo_inputs_keys [OF i, unfolded D(1), OF om_wf_Nil]
  obtain gs d2 where o: "redo_outputs ?parent (tx_unlock_time tx) (tx_outputs tx) d1 = Inr (gs, d2)"
    using redo_outputs_total [OF parent, of "tx_unlock_time tx" "tx_outputs tx" d1] by auto
  note O = redo_outputs_keys [OF o]
  obtain D' where a: "apply_delta (delta_ops v) d2 ?D = Inr D'"
    using apply_delta_total [OF v, of d2 ?D] I O D(1) by auto
  have "om_wf (ds_keyimages D')" using apply_delta_wf [OF a] D(1) by simp
  moreover have "om_keys (ds_keyimages D') = set (tx_key_images tx)" if "e = []"
    using apply_delta_keys [OF a] I O D(1) that by (simp add: tx_key_images_def)
  ultimately show ?thesis
    using i o a by (cases "e = []") (simp_all add: redo_transaction_get_error_def Let_def D(2,3))
qed

section \<open>Adding a transaction\<close>

lemma minimum_pool_fee_ok: "pool_ok s \<Longrightarrow> \<exists>r. minimum_pool_fee_per_byte s = Inr r"
proof (cases "cs_memory_state_fee_tx s")
  case (Cons e m)
  assume "pool_ok s"
  with Cons pool_okD(8) [of s "fst e" "snd e"] have "snd e \<noteq> []" by (cases e) (simp add: om_find_Cons)
  with Cons show ?thesis by (cases e) (simp add: minimum_pool_fee_per_byte_def)
qed (simp add: minimum_pool_fee_per_byte_def)

lemma check_first_conflict_ok: "pool_ok s \<Longrightarrow> \<exists>r. check_first_conflict tid fee ins s = Inr r"
proof (induction ins)
  case (Cons inp ins)
  show ?case
  proof (cases "om_find (ki_key_image inp) (cs_memory_state_ki_tx s)")
    case (Some other)
    with pool_okD(7) [OF Cons.prems] obtain t where "om_find other (cs_memory_state_tx s) = Some t" by blast
    with Some show ?thesis by (simp add: outbid_def pool_at_def)
  next
    case None
    with Cons show ?thesis by simp
  qed
qed (intro exI, rule check_first_conflict.simps(1))

lemma find_spent_ok: "ledger_ok s L \<Longrightarrow> \<exists>r. find_spent ins s = Inr r"
  by (induction ins) (auto simp: read_keyimage_ok split: option.split)

lemma pool_ok_version [simp]: "pool_ok (s\<lparr>cs_tx_pool_version := v\<rparr>) = pool_ok s"
  by (simp add: pool_ok_def pool_bytes_def)

lemma pool_bytes_version [simp]: "pool_bytes (s\<lparr>cs_tx_pool_version := v\<rparr>) = pool_bytes s"
  by (simp add: pool_bytes_def)

lemma admit_transaction_ok:
  assumes ok: "pool_ok s" and new: "om_find tid (cs_memory_state_tx s) = None"
    and t: "pt_binary_tx t \<noteq> []" "fee_per_byte t = rate" "distinct (tx_key_images (pt_tx t))"
    and kis: "om_wf kis" "om_keys kis = set (tx_key_images (pt_tx t))"
    and room: "pool_bytes s + length (pt_binary_tx t) < 2 ^ 64"
  shows "\<exists>r s'. admit_transaction tid t rate kis s = Inr (r, s') \<and> pool_ok s' \<and> same_but_pool s s' \<and>
    pool_bytes s' \<le> pool_bytes s + length (pt_binary_tx t) \<and> (r = Broadcast_all \<longrightarrow> pool_bounded s') \<and>
    (\<forall>x u. om_find x (cs_memory_state_tx s') = Some u \<longrightarrow>
       om_find x (cs_memory_state_tx s) = Some u \<or> r = Broadcast_all \<and> x = tid \<and> u = t)"
proof -
  obtain go_on s1 where s1: "displace_conflicts tid rate kis s = Inr (go_on, s1)" "pool_ok s1" "same_but_pool s s1"
    "pool_bytes s1 \<le> pool_bytes s"
    "\<And>x t. om_find x (cs_memory_state_tx s1) = Some t \<Longrightarrow> om_find x (cs_memory_state_tx s) = Some t"
    "go_on \<Longrightarrow> \<forall>k \<in> om_keys kis. om_find k (cs_memory_state_ki_tx s1) = None"
    using displace_conflicts_ok [OF ok, of tid rate kis] unfolding om_keys_def by blast
  show ?thesis
  proof (cases go_on)
    case False
    with s1 show ?thesis
      by (intro exI [of _ Increase_fee] exI [of _ s1]) (auto simp: admit_transaction_def)
  next
    case True
    have new1: "om_find tid (cs_memory_state_tx s1) = None"
      using s1(5) [of tid] new by (cases "om_find tid (cs_memory_state_tx s1)") auto
    have room1: "pool_bytes s1 + length (pt_binary_tx t) < 2 ^ 64" using s1(4) room by simp
    have free: "om_find k (cs_memory_state_ki_tx s1) = None" if "k \<in> fst ` set kis" for k
      using that s1(6) [OF True] by (auto simp: om_keys_def)
    obtain s2 where s2: "insert_in_pool tid t rate kis s1 = Inr s2" "pool_ok s2" "same_but_pool s1 s2"
      "cs_memory_state_tx s2 = om_set tid t (cs_memory_state_tx s1)"
      using insert_in_pool_ok [OF s1(2) new1 om_wf_distinct [OF kis(1)] kis(2) [unfolded om_keys_def] t(3) free t(1,2) room1]
      by blast
    obtain s3 where s3: "trim_pool s2 = Inr s3" "pool_ok s3" "same_but_pool s2 s3" "pool_bounded s3" "pool_bytes s3 \<le> pool_bytes s2"
      "\<And>x t. om_find x (cs_memory_state_tx s3) = Some t \<Longrightarrow> om_find x (cs_memory_state_tx s2) = Some t"
      using trim_pool_ok [OF s2(2)] by blast
    define s4 where "s4 = s3\<lparr>cs_tx_pool_version := cs_tx_pool_version s3 + 1\<rparr>"
    have "pool_bytes s2 = length (pt_binary_tx t) + pool_bytes s1"
      using sum_om_set [OF new1, of "\<lambda>t. length (pt_binary_tx t)" t] by (simp add: pool_bytes_def s2(4))
    moreover have "om_find x (cs_memory_state_tx s) = Some u \<or> x = tid \<and> u = t"
      if "om_find x (cs_memory_state_tx s4) = Some u" for x u
      using s3(6) [of x u] s1(5) [of x u] that by (auto simp: s4_def s2(4) split: if_splits)
    moreover have "same_but_pool s s4"
      using same_but_pool_trans [OF s1(3) same_but_pool_trans [OF s2(3) s3(3)]] by (simp add: same_but_pool_def s4_def)
    moreover have "admit_transaction tid t rate kis s = Inr (Broadcast_all, s4)"
      using s1(1) True s2(1) s3(1) by (simp add: admit_transaction_def s4_def)
    moreover have "pool_ok s4" "pool_bounded s4" "pool_bytes s4 = pool_bytes s3"
      using s3(2,4) by (simp_all add: s4_def pool_bounded_def)
    ultimately show ?thesis
      using s1(4) s3(5) by (intro exI [of _ Broadcast_all] exI [of _ s4]) auto
  qed
qed

text \<open>Every way out of \<open>add_transaction\<close> before the last part leaves the state alone.\<close>

lemma add_transaction_at_cases:
  assumes L: "ledger_ok s L" and ok: "pool_ok s" and b: "binary_tx \<noteq> []"
  obtains (refused) r h where "add_transaction_at env c tid tx binary_tx uh ut conflict check_sigs s = Inr (r, h, s)" "r \<noteq> Broadcast_all"
  | (admitted) D :: delta_state and conf where "add_transaction_at env c tid tx binary_tx uh ut conflict check_sigs s =
      res_bind (admit_transaction tid \<lparr>pt_tx = tx, pt_binary_tx = binary_tx, pt_fee = get_tx_fee tx, pt_timestamp = 0\<rparr>
        (get_tx_fee tx div word_of_nat (length binary_tx)) (ds_keyimages D) s) (\<lambda>(r, s). Inr (r, conf, s))"
    "om_find tid (cs_memory_state_tx s) = None" "distinct (tx_key_images tx)"
    "om_wf (ds_keyimages D)" "om_keys (ds_keyimages D) = set (tx_key_images tx)"
proof -
  let ?rate = "get_tx_fee tx div word_of_nat (length binary_tx)" and ?ins = "key_inputs (tx_inputs tx)"
  obtain mfee mtid where min: "minimum_pool_fee_per_byte s = Inr (mfee, mtid)" using minimum_pool_fee_ok [OF ok] by fastforce
  obtain less where less: "check_first_conflict tid ?rate ?ins s = Inr less" using check_first_conflict_ok [OF ok] by blast
  obtain spent where spent: "find_spent ?ins s = Inr spent" using find_spent_ok [OF L] by blast
  note defs = add_transaction_at_def Let_def min less spent
  consider "om_find tid (cs_memory_state_tx s) \<noteq> None"
    | "om_find tid (cs_memory_state_tx s) = None" "cs_memory_state_total_size s \<ge> MAX_POOL_SIZE \<and> ?rate < mfee \<or>
        cs_memory_state_total_size s \<ge> MAX_POOL_SIZE \<and> ?rate = mfee \<and> tid < mtid \<or> less"
    | h where "om_find tid (cs_memory_state_tx s) = None" "\<not> (cs_memory_state_total_size s \<ge> MAX_POOL_SIZE \<and> ?rate < mfee \<or>
        cs_memory_state_total_size s \<ge> MAX_POOL_SIZE \<and> ?rate = mfee \<and> tid < mtid \<or> less)" "spent = Some h"
    | e where "om_find tid (cs_memory_state_tx s) = None" "\<not> (cs_memory_state_total_size s \<ge> MAX_POOL_SIZE \<and> ?rate < mfee \<or>
        cs_memory_state_total_size s \<ge> MAX_POOL_SIZE \<and> ?rate = mfee \<and> tid < mtid \<or> less)" "spent = None"
        "validate_semantic env False tx check_sigs = Inl e"
    | fee where "om_find tid (cs_memory_state_tx s) = None" "\<not> (cs_memory_state_total_size s \<ge> MAX_POOL_SIZE \<and> ?rate < mfee \<or>
        cs_memory_state_total_size s \<ge> MAX_POOL_SIZE \<and> ?rate = mfee \<and> tid < mtid \<or> less)" "spent = None"
        "validate_semantic env False tx check_sigs = Inr fee"
    by (cases spent; cases "validate_semantic env False tx check_sigs") blast+
  then show thesis
  proof cases
    case 1
    then show thesis by (intro refused [of Already_in_pool conflict]) (simp_all add: defs)
  next
    case 2
    with b show thesis by (intro refused [of Increase_fee conflict]) (auto simp: defs)
  next
    case (3 h)
    with b show thesis by (intro refused [of Output_already_spent h]) (auto simp: defs)
  next
    case (4 e)
    with b show thesis by (intro refused [of Ban conflict]) (auto simp: defs)
  next
    case (5 fee)
    have dist: "distinct (tx_key_images tx)" using validate_semantic_ok [OF 5(4)] by (simp add: tx_key_images_def)
    obtain e D gis conf where redo: "redo_transaction_get_error env c (view_of chain_ops s) False tx
        (new_delta uh ut) [] check_sigs = Inr (e, D, gis, conf)"
      "e = [] \<Longrightarrow> om_wf (ds_keyimages D)" "e = [] \<Longrightarrow> om_keys (ds_keyimages D) = set (tx_key_images tx)"
      using redo_transaction_keys [OF view_total_chain [OF L] dist] by blast
    show thesis
    proof (cases "e = []")
      case True
      with 5 b redo(1) show thesis
        by (intro admitted [OF _ 5(1) dist redo(2) [OF True] redo(3) [OF True], of conf]) (auto simp: defs)
    next
      case False
      with 5 b redo(1) show thesis by (intro refused [of Failed_to_redo conf]) (auto simp: defs)
    qed
  qed
qed

lemma add_transaction_at_ok:
  assumes L: "ledger_ok s L" and ok: "pool_ok s" and b: "binary_tx \<noteq> []" and room: "pool_bytes s + length binary_tx < 2 ^ 64"
  shows "\<exists>r h s'. add_transaction_at env c tid tx binary_tx unlock_height unlock_timestamp conflict check_sigs s = Inr (r, h, s') \<and>
    pool_ok s' \<and> same_but_pool s s' \<and> pool_bytes s' \<le> pool_bytes s + length binary_tx \<and>
    (r = Broadcast_all \<longrightarrow> pool_bounded s') \<and>
    (\<forall>x t. om_find x (cs_memory_state_tx s') = Some t \<longrightarrow>
       om_find x (cs_memory_state_tx s) = Some t \<or> r = Broadcast_all \<and> x = tid \<and> pt_tx t = tx \<and> pt_binary_tx t = binary_tx)"
proof (rule add_transaction_at_cases [OF L ok b, where env = env and c = c and tid = tid and tx = tx and uh = unlock_height
      and ut = unlock_timestamp and conflict = conflict and check_sigs = check_sigs])
  fix r h
  assume "add_transaction_at env c tid tx binary_tx unlock_height unlock_timestamp conflict check_sigs s = Inr (r, h, s)"
    "r \<noteq> Broadcast_all"
  with ok show ?thesis by (intro exI [of _ r] exI [of _ h] exI [of _ s]) simp
next
  let ?t = "\<lparr>pt_tx = tx, pt_binary_tx = binary_tx, pt_fee = get_tx_fee tx, pt_timestamp = 0\<rparr>"
    and ?rate = "get_tx_fee tx div word_of_nat (length binary_tx)"
  fix D :: delta_state and conf
  assume run: "add_transaction_at env c tid tx binary_tx unlock_height unlock_timestamp conflict check_sigs s =
      res_bind (admit_transaction tid ?t ?rate (ds_keyimages D) s) (\<lambda>(r, s). Inr (r, conf, s))"
    and D: "om_find tid (cs_memory_state_tx s) = None" "distinct (tx_key_images tx)"
      "om_wf (ds_keyimages D)" "om_keys (ds_keyimages D) = set (tx_key_images tx)"
  obtain r s' where a: "admit_transaction tid ?t ?rate (ds_keyimages D) s = Inr (r, s')"
    "pool_ok s'" "same_but_pool s s'" "pool_bytes s' \<le> pool_bytes s + length binary_tx" "r = Broadcast_all \<longrightarrow> pool_bounded s'"
    "\<forall>x u. om_find x (cs_memory_state_tx s') = Some u \<longrightarrow>
       om_find x (cs_memory_state_tx s) = Some u \<or> r = Broadcast_all \<and> x = tid \<and> u = ?t"
    using admit_transaction_ok [OF ok D(1), of ?t ?rate "ds_keyimages D"] D(2-4) b room by (auto simp: fee_per_byte_def)
  have "om_find x (cs_memory_state_tx s) = Some u \<or> r = Broadcast_all \<and> x = tid \<and> pt_tx u = tx \<and> pt_binary_tx u = binary_tx"
    if "om_find x (cs_memory_state_tx s') = Some u" for x u
    using a(6) [rule_format, OF that] by auto
  with a(1-5) show ?thesis by (intro exI [of _ r] exI [of _ conf] exI [of _ s']) (simp add: run)
qed

end
