(* ===== verification/Pool_Rules.thy ===== *)
theory Pool_Rules
  imports Tx_Pool
begin

text \<open>
  What the transaction pool keeps over its operations: a new transaction, a reorganization of
  the chain, and the case in which a refused transaction still costs another one its place.
\<close>

section \<open>New transactions\<close>

text \<open>
  C23: adding a transaction to a pool whose indices agree always answers.  The indices still
  agree afterwards and nothing but the pool changes; the pool gains no other transaction, gains
  this one only when it is broadcast, and is then within its limit, or would be below it
  without its least transaction.
\<close>

theorem add_transaction_keeps_pool:
  assumes "ledger_ok s L" "pool_ok s" "get_tip s = Inr tip" "binary_tx \<noteq> []" "pool_bytes s + length binary_tx < 2 ^ 64"
  shows "\<exists>r h s'. add_transaction env c tid tx binary_tx conflict s = Inr (r, h, s') \<and> pool_ok s' \<and> same_but_pool s s' \<and>
    (r = Broadcast_all \<longrightarrow> pool_bounded s') \<and>
    (\<forall>x t. om_find x (cs_memory_state_tx s') = Some t \<longrightarrow>
       om_find x (cs_memory_state_tx s) = Some t \<or> r = Broadcast_all \<and> x = tid \<and> pt_tx t = tx \<and> pt_binary_tx t = binary_tx)"
  using add_transaction_at_ok [OF assms(1,2,4,5), of env c tid tx "bc_tip_height s + 1" "hi_timestamp tip" conflict True]
  by (auto simp: add_transaction_def assms(3))

section \<open>Reorganizations\<close>

lemma get_tip_same_but_pool: "same_but_pool s s' \<Longrightarrow> get_tip s' = get_tip s"
  by (simp add: get_tip_def same_but_pool_def)

lemma ledger_ok_same_but_pool: "same_but_pool s s' \<Longrightarrow> ledger_ok s' L = ledger_ok s L"
  by (rule ledger_ok_pool) (simp_all add: same_but_pool_def)

lemma readd_transactions_ok:
  assumes "get_tip s = Inr tip" "ledger_ok s L" "pool_ok s" "list_all (\<lambda>(_, _, b). b \<noteq> []) txs"
    and "pool_bytes s + (\<Sum>(_, _, b)\<leftarrow>txs. length b) < 2 ^ 64"
  shows "\<exists>h s'. readd_transactions env c txs conflict s = Inr (h, s') \<and> pool_ok s' \<and> same_but_pool s s' \<and>
    pool_bytes s' \<le> pool_bytes s + (\<Sum>(_, _, b)\<leftarrow>txs. length b) \<and>
    (\<forall>x t. om_find x (cs_memory_state_tx s') = Some t \<longrightarrow>
       om_find x (cs_memory_state_tx s) = Some t \<or> (x, pt_tx t, pt_binary_tx t) \<in> set txs)"
  using assms
proof (induction txs arbitrary: s conflict)
  case Nil
  then show ?case by simp
next
  case (Cons x txs)
  obtain tid tx b where x: "x = (tid, tx, b)" by (metis prod_cases3)
  have b: "b \<noteq> []" "pool_bytes s + length b < 2 ^ 64" using Cons.prems(4,5) x by simp_all
  have at: "add_transaction env c tid tx b conflict s =
      add_transaction_at env c tid tx b (bc_tip_height s + 1) (hi_timestamp tip) conflict True s"
    by (simp add: add_transaction_def Cons.prems(1))
  obtain r h s1 where s1: "add_transaction env c tid tx b conflict s = Inr (r, h, s1)" "pool_ok s1" "same_but_pool s s1"
    "pool_bytes s1 \<le> pool_bytes s + length b"
    "\<And>y t. om_find y (cs_memory_state_tx s1) = Some t \<Longrightarrow>
       om_find y (cs_memory_state_tx s) = Some t \<or> y = tid \<and> pt_tx t = tx \<and> pt_binary_tx t = b"
    using add_transaction_at_ok [OF Cons.prems(2,3) b, of env c tid tx "bc_tip_height s + 1" "hi_timestamp tip" conflict True]
    unfolding at by blast
  have "get_tip s1 = Inr tip" "ledger_ok s1 L"
    using get_tip_same_but_pool [OF s1(3)] ledger_ok_same_but_pool [OF s1(3)] Cons.prems(1,2) by simp_all
  moreover have "list_all (\<lambda>(_, _, b). b \<noteq> []) txs" "pool_bytes s1 + (\<Sum>(_, _, b)\<leftarrow>txs. length b) < 2 ^ 64"
    using Cons.prems(4,5) x s1(4) by simp_all
  ultimately obtain h' s' where IH: "readd_transactions env c txs h s1 = Inr (h', s')" "pool_ok s'" "same_but_pool s1 s'"
    "pool_bytes s' \<le> pool_bytes s1 + (\<Sum>(_, _, b)\<leftarrow>txs. length b)"
    "\<And>x t. om_find x (cs_memory_state_tx s') = Some t \<Longrightarrow>
       om_find x (cs_memory_state_tx s1) = Some t \<or> (x, pt_tx t, pt_binary_tx t) \<in> set txs"
    using Cons.IH [of s1 h] s1(2) by blast
  have "om_find y (cs_memory_state_tx s) = Some t \<or> (y, pt_tx t, pt_binary_tx t) \<in> set (x # txs)"
    if "om_find y (cs_memory_state_tx s') = Some t" for y t
    using IH(5) [OF that] s1(5) [of y t] by (auto simp: x)
  with IH s1 same_but_pool_trans [OF s1(3) IH(3)] show ?case
    by (intro exI [of _ h'] exI [of _ s']) (auto simp: x)
qed

lemma clear_pool_ok: "pool_ok (clear_pool s)" "pool_bytes (clear_pool s) = 0" "same_but_pool s (clear_pool s)"
  by (simp_all add: pool_ok_def clear_pool_def pool_bytes_def same_but_pool_def om_get_default_def)

lemma pool_sizes:
  "(\<Sum>(_, _, b)\<leftarrow>map (\<lambda>(tid, t). (tid, pt_tx t, pt_binary_tx t)) (cs_memory_state_tx s). length b) = pool_bytes s"
  unfolding pool_bytes_def map_map by (intro arg_cong [of _ _ sum_list] map_cong refl) auto

text \<open>
  C24: after a reorganization every transaction of the old pool and every transaction of the
  undone blocks is offered again.  This always ends with a pool whose indices agree, that holds
  only such transactions, and leaves the rest of the state alone.
\<close>

theorem on_reorganization_keeps_pool:
  assumes "ledger_ok s L" "pool_ok s" "get_tip s = Inr tip"
    and "list_all (\<lambda>(_, _, b). b \<noteq> []) undone" "pool_bytes s + (\<Sum>(_, _, b)\<leftarrow>undone. length b) < 2 ^ 64"
  shows "\<exists>s'. on_reorganization env c undone undone_blocks s = Inr s' \<and> pool_ok s' \<and> same_but_pool s s' \<and> cs_tx_pool_version s' = 2 \<and>
    (\<forall>x t. om_find x (cs_memory_state_tx s') = Some t \<longrightarrow>
       (\<exists>u. om_find x (cs_memory_state_tx s) = Some u \<and> pt_tx u = pt_tx t \<and> pt_binary_tx u = pt_binary_tx t) \<or>
       (x, pt_tx t, pt_binary_tx t) \<in> set undone)"
proof -
  let ?old = "map (\<lambda>(tid, t). (tid, pt_tx t, pt_binary_tx t)) (cs_memory_state_tx s)"
  have old: "list_all (\<lambda>(_, _, b). b \<noteq> []) ?old"
    using pool_okD(4) [OF assms(2)] om_find_iff [OF pool_okD(1) [OF assms(2)]] by (force simp: list_all_iff)
  obtain h s1 where s1: "(if undone_blocks then readd_transactions env c ?old 0 (clear_pool s) else Inr (0, s)) = Inr (h, s1)"
    "pool_ok s1" "same_but_pool s s1" "pool_bytes s1 \<le> pool_bytes s"
    "\<And>x t. om_find x (cs_memory_state_tx s1) = Some t \<Longrightarrow>
       \<exists>u. om_find x (cs_memory_state_tx s) = Some u \<and> pt_tx u = pt_tx t \<and> pt_binary_tx u = pt_binary_tx t"
  proof (cases undone_blocks)
    case False
    with that [of 0 s] assms(2) show thesis by auto
  next
    case True
    have "pool_bytes (clear_pool s) + (\<Sum>(_, _, b)\<leftarrow>?old. length b) < 2 ^ 64"
      unfolding pool_sizes clear_pool_ok using assms(5) by simp
    moreover have "get_tip (clear_pool s) = Inr tip" "ledger_ok (clear_pool s) L"
      using get_tip_same_but_pool [OF clear_pool_ok(3)] ledger_ok_same_but_pool [OF clear_pool_ok(3)] assms(1,3) by simp_all
    ultimately obtain h s1 where r: "readd_transactions env c ?old 0 (clear_pool s) = Inr (h, s1)" "pool_ok s1"
      "same_but_pool (clear_pool s) s1" "pool_bytes s1 \<le> pool_bytes (clear_pool s) + (\<Sum>(_, _, b)\<leftarrow>?old. length b)"
      "\<And>x t. om_find x (cs_memory_state_tx s1) = Some t \<Longrightarrow>
         om_find x (cs_memory_state_tx (clear_pool s)) = Some t \<or> (x, pt_tx t, pt_binary_tx t) \<in> set ?old"
      using readd_transactions_ok [OF _ _ clear_pool_ok(1) old] by blast
    have "\<exists>u. om_find x (cs_memory_state_tx s) = Some u \<and> pt_tx u = pt_tx t \<and> pt_binary_tx u = pt_binary_tx t"
      if "om_find x (cs_memory_state_tx s1) = Some t" for x t
      using r(5) [OF that] om_find_iff [OF pool_okD(1) [OF assms(2)]] by (force simp: clear_pool_def)
    with that [of h s1] True r(1,2,4) same_but_pool_trans [OF clear_pool_ok(3) r(3)] show thesis
      unfolding pool_sizes clear_pool_ok by simp
  qed
  have "get_tip s1 = Inr tip" "ledger_ok s1 L" "pool_bytes s1 + (\<Sum>(_, _, b)\<leftarrow>undone. length b) < 2 ^ 64"
    using get_tip_same_but_pool [OF s1(3)] ledger_ok_same_but_pool [OF s1(3)] assms(1,3,5) s1(4) by simp_all
  from readd_transactions_ok [OF this(1,2) s1(2) assms(4) this(3), of env c h] obtain h' s2 where
    s2: "readd_transactions env c undone h s1 = Inr (h', s2)" "pool_ok s2" "same_but_pool s1 s2"
    "\<And>x t. om_find x (cs_memory_state_tx s2) = Some t \<Longrightarrow>
       om_find x (cs_memory_state_tx s1) = Some t \<or> (x, pt_tx t, pt_binary_tx t) \<in> set undone" by blast
  define s3 where "s3 = s2\<lparr>cs_tx_pool_version := 2\<rparr>"
  have "same_but_pool s s3" using same_but_pool_trans [OF s1(3) s2(3)] by (simp add: same_but_pool_def s3_def)
  moreover have "on_reorganization env c undone undone_blocks s = Inr s3"
    unfolding on_reorganization_def s1(1) by (simp add: s2(1) s3_def)
  moreover have "(\<exists>u. om_find x (cs_memory_state_tx s) = Some u \<and> pt_tx u = pt_tx t \<and> pt_binary_tx u = pt_binary_tx t) \<or>
      (x, pt_tx t, pt_binary_tx t) \<in> set undone" if "om_find x (cs_memory_state_tx s3) = Some t" for x t
    using s2(4) [of x t] s1(5) [of x t] that by (simp add: s3_def) blast
  moreover have "pool_ok s3" "cs_tx_pool_version s3 = 2" using s2(2) by (simp_all add: s3_def)
  ultimately show ?thesis by blast
qed

section \<open>A refused transaction that evicts another one\<close>

text \<open>
  An example: a chain with one output, two transactions in the pool that spend it under
  different key images, and a third one that spends it under both and stands between them.
\<close>

definition pool_tx :: "key_image list \<Rightarrow> amount \<Rightarrow> transaction" where
  "pool_tx ks change = \<lparr>tx_version = 1, tx_unlock_time = 0,
     tx_inputs = map (\<lambda>k. KeyInput \<lparr>ki_amount = 5, ki_output_indexes = [0], ki_key_image = k\<rparr>) ks,
     tx_outputs = [\<lparr>to_amount = change, to_target = KeyOutput sample_key\<rparr>], tx_extra = [],
     tx_signatures = map (\<lambda>_. [replicate 64 0]) ks\<rparr>"

definition pool_ki :: "u8 \<Rightarrow> key_image" where
  "pool_ki b = replicate 32 b"

definition sample_cheap :: pool_transaction where
  "sample_cheap = \<lparr>pt_tx = pool_tx [pool_ki 1] 4, pt_binary_tx = [0], pt_fee = 1, pt_timestamp = 0\<rparr>"

definition sample_dear :: pool_transaction where
  "sample_dear = \<lparr>pt_tx = pool_tx [pool_ki 2] 1, pt_binary_tx = [0], pt_fee = 4, pt_timestamp = 0\<rparr>"

definition sample_pool :: chain_state where
  "sample_pool = sample_chain\<lparr>bc_header_tip_window := [empty_header_info],
     cs_memory_state_tx := [(pool_ki 11, sample_cheap), (pool_ki 12, sample_dear)],
     cs_memory_state_ki_tx := [(pool_ki 1, pool_ki 11), (pool_ki 2, pool_ki 12)],
     cs_memory_state_fee_tx := [(1, [(pool_ki 11, ())]), (4, [(pool_ki 12, ())])],
     cs_memory_state_total_size := 2\<rparr>"

lemma sample_pool_ledger: "ledger_ok sample_pool sample_ledger"
  using sample_chain_ok ledger_ok_pool [of sample_pool sample_chain sample_ledger] by (simp add: sample_pool_def)

lemma sample_pool_tip: "get_tip sample_pool = Inr empty_header_info"
  by code_simp

lemma pool_ki_inj [simp]: "pool_ki a = pool_ki b \<longleftrightarrow> a = b" "pool_ki a < pool_ki b \<longleftrightarrow> a < b"
proof -
  show "pool_ki a = pool_ki b \<longleftrightarrow> a = b" by (simp add: pool_ki_def)
  have "pool_ki x = x # replicate 31 x" for x by (simp add: pool_ki_def numeral_eq_Suc)
  then show "pool_ki a < pool_ki b \<longleftrightarrow> a < b" by auto
qed

lemma sample_pool_ok: "pool_ok sample_pool"
proof -
  have "tx_key_images (pool_tx [k] change) = [k]" for k change by (simp add: tx_key_images_def pool_tx_def)
  then show ?thesis
    unfolding pool_ok_def
    by (auto simp: sample_pool_def om_wf_Cons om_find_Cons sample_cheap_def sample_dear_def om_get_default_def
      fee_per_byte_def pool_bytes_def split: if_splits)
qed

text \<open>
  C25: the comment \<open>Never because checked above\<close> in \<open>add_transaction\<close> is wrong, because
  the first loop stops at the first conflict.  Here the third transaction pays more than the
  first of its conflicts and less than the second: the first one is removed, then the call
  asks for a greater fee, and the pool has lost a transaction without gaining one.
\<close>

theorem refused_transaction_evicts:
  "\<exists>h s'. add_transaction sample_env sample_currency (pool_ki 13) (pool_tx [pool_ki 1, pool_ki 2] 7) [0] 0 sample_pool =
      Inr (Increase_fee, h, s') \<and> pool_ok sample_pool \<and>
    om_find (pool_ki 11) (cs_memory_state_tx sample_pool) = Some sample_cheap \<and>
    cs_memory_state_tx s' = [(pool_ki 12, sample_dear)]"
proof -
  have "case add_transaction sample_env sample_currency (pool_ki 13) (pool_tx [pool_ki 1, pool_ki 2] 7) [0] 0 sample_pool of
      Inl _ \<Rightarrow> False | Inr (r, _, s') \<Rightarrow> r = Increase_fee \<and> cs_memory_state_tx s' = [(pool_ki 12, sample_dear)]"
    by code_simp
  moreover have "om_find (pool_ki 11) (cs_memory_state_tx sample_pool) = Some sample_cheap"
    by (simp add: sample_pool_def om_find_Cons)
  ultimately show ?thesis using sample_pool_ok by (auto split: sum.splits prod.splits)
qed

section \<open>Examples\<close>

lemma sample_pool_bytes: "pool_bytes sample_pool = 2"
  by (simp add: pool_bytes_def sample_pool_def sample_cheap_def sample_dear_def)

lemma add_transaction_keeps_pool_witness:
  "\<exists>r h s'. add_transaction sample_env sample_currency (pool_ki 13) (pool_tx [pool_ki 3] 2) [0] 0 sample_pool = Inr (r, h, s') \<and>
    pool_ok s' \<and> same_but_pool sample_pool s' \<and> (r = Broadcast_all \<longrightarrow> pool_bounded s') \<and>
    (\<forall>x t. om_find x (cs_memory_state_tx s') = Some t \<longrightarrow> om_find x (cs_memory_state_tx sample_pool) = Some t \<or>
       r = Broadcast_all \<and> x = pool_ki 13 \<and> pt_tx t = pool_tx [pool_ki 3] 2 \<and> pt_binary_tx t = [0])"
  by (rule add_transaction_keeps_pool [OF sample_pool_ledger sample_pool_ok sample_pool_tip]) (simp_all add: sample_pool_bytes)

lemma on_reorganization_keeps_pool_witness:
  "\<exists>s'. on_reorganization sample_env sample_currency [(pool_ki 13, pool_tx [pool_ki 3] 2, [0])] True sample_pool = Inr s' \<and>
    pool_ok s' \<and> same_but_pool sample_pool s' \<and> cs_tx_pool_version s' = 2 \<and>
    (\<forall>x t. om_find x (cs_memory_state_tx s') = Some t \<longrightarrow>
       (\<exists>u. om_find x (cs_memory_state_tx sample_pool) = Some u \<and> pt_tx u = pt_tx t \<and> pt_binary_tx u = pt_binary_tx t) \<or>
       (x, pt_tx t, pt_binary_tx t) \<in> set [(pool_ki 13, pool_tx [pool_ki 3] 2, [0])])"
  by (rule on_reorganization_keeps_pool [OF sample_pool_ledger sample_pool_ok sample_pool_tip]) (simp_all add: sample_pool_bytes)

end
