(* ===== verification/Tx_Index.thy ===== *)
theory Tx_Index
  imports Tx_Pool Tree_Index
begin

text \<open>
  The index of the transactions of the current chain (\<open>Core/BlockChain.cpp\<close>): applying a
  block records where each of its transactions is in the stored bytes of the block, and taking
  it back removes the records.  The positions are found by searching the bytes of the
  transaction in the bytes of the block (\<open>common/BinaryArray.cpp\<close>).
\<close>

section \<open>Searching bytes\<close>

text \<open>\<open>memchr\<close>: the first position of a byte.\<close>

fun memchr :: "u8 \<Rightarrow> bytes \<Rightarrow> nat option" where
  "memchr b [] = None"
| "memchr b (x # xs) = (if x = b then Some 0 else map_option Suc (memchr b xs))"

lemma memchr_Some:
  "memchr b xs = Some k \<longleftrightarrow> k < length xs \<and> xs ! k = b \<and> (\<forall>i < k. xs ! i \<noteq> b)"
proof (induction xs arbitrary: k)
  case Nil
  then show ?case by simp
next
  case (Cons x xs)
  then show ?case by (cases k) (auto simp: less_Suc_eq_0_disj)
qed

lemma memchr_None: "memchr b xs = None \<longleftrightarrow> b \<notin> set xs"
  by (induction xs) auto

text \<open>
  \<open>slow_memmem\<close>: the offset of a pattern from the first byte of \<open>mem\<close>, the memory at
  and after the buffer, whose first \<open>buflen\<close> bytes are searched.  After a mismatch at
  \<open>k\<close> the search goes on one byte later but takes only \<open>k\<close> from the length, so
  that it looks behind the buffer.  When \<open>memchr\<close> finds nothing, the difference of the null
  pointer and the buffer is out of every bound.
\<close>

function slow_memmem :: "bytes \<Rightarrow> nat \<Rightarrow> bytes \<Rightarrow> nat option" where
  "slow_memmem mem buflen pat =
     (if pat = [] \<or> buflen = 0 then None
      else case memchr (hd pat) (take buflen mem) of
          None \<Rightarrow> None
        | Some k \<Rightarrow>
            if k + length pat > buflen then None
            else if take (length pat) (drop k mem) = pat then Some k
            else map_option ((+) (k + 1)) (slow_memmem (drop (k + 1) mem) (buflen - k) pat))"
  by pat_completeness auto
termination
  by (relation "measure (\<lambda>(mem, _, _). length mem)") (auto simp: memchr_Some)

lemmas slow_memmem_simps [simp del] = slow_memmem.simps

text \<open>When the buffer holds the pattern, the search finds its first place.\<close>

definition occurs_at :: "bytes \<Rightarrow> bytes \<Rightarrow> nat \<Rightarrow> bool" where
  "occurs_at mem pat i \<longleftrightarrow> take (length pat) (drop i mem) = pat \<and> i + length pat \<le> length mem"

lemma occurs_at_hd: "occurs_at mem pat i \<Longrightarrow> pat \<noteq> [] \<Longrightarrow> mem ! i = hd pat \<and> i < length mem"
  by (cases pat) (auto simp: occurs_at_def simp flip: Cons_nth_drop_Suc)

lemma slow_memmem_first:
  assumes "pat \<noteq> []" "occurs_at mem pat i" "i + length pat \<le> buflen" "\<forall>j < i. \<not> occurs_at mem pat j"
  shows "slow_memmem mem buflen pat = Some i"
  using assms
proof (induction mem buflen pat arbitrary: i rule: slow_memmem.induct)
  case (1 mem buflen pat)
  have hd: "mem ! i = hd pat" "i < length mem" using occurs_at_hd [OF 1(3,2)] by simp_all
  have i: "i < length (take buflen mem)" using hd(2) 1(2,4) by (cases pat) auto
  then have "hd pat \<in> set (take buflen mem)" using hd(1) by (metis nth_mem nth_take length_take min_less_iff_conj)
  then obtain k where k: "memchr (hd pat) (take buflen mem) = Some k" using memchr_None by (metis not_None_eq)
  then have k_first: "k < buflen" "k < length mem" "mem ! k = hd pat" "\<forall>j < k. mem ! j \<noteq> hd pat" by (auto simp: memchr_Some)
  have ki: "k \<le> i" using k_first(4) hd(1) by (meson linorder_not_less)
  show ?case
  proof (cases "occurs_at mem pat k")
    case True
    then have "k = i" using 1(5) ki by (metis le_neq_implies_less)
    then show ?thesis using 1(2,3,4) k k_first(1) by (simp add: slow_memmem.simps [of mem] occurs_at_def)
  next
    case False
    then have lt: "k < i" using ki 1(3) by (cases "k = i") auto
    have len: "k + length pat \<le> length mem" using lt 1(3) by (simp add: occurs_at_def)
    with False have no: "take (length pat) (drop k mem) \<noteq> pat" by (simp add: occurs_at_def)
    have shift: "occurs_at (drop (k + 1) mem) pat j \<longleftrightarrow> occurs_at mem pat (k + 1 + j)" for j
      using k_first(2) by (auto simp: occurs_at_def add.commute add.left_commute)
    have "slow_memmem (drop (k + 1) mem) (buflen - k) pat = Some (i - (k + 1))"
      by (rule 1(1) [OF _ k _ no]) (use 1(2,3,4,5) lt k_first(1) shift in \<open>auto simp: less_diff_conv\<close>)
    then show ?thesis
      using 1(2,4) lt k no k_first(1) by (simp add: slow_memmem.simps [of mem])
  qed
qed

lemma slow_memmem_found:
  assumes "pat \<noteq> []" "occurs_at mem pat i" "i + length pat \<le> buflen"
  obtains k where "slow_memmem mem buflen pat = Some k" "k \<le> i" "occurs_at mem pat k"
proof -
  define k where "k = (LEAST k. occurs_at mem pat k)"
  have k: "occurs_at mem pat k" "k \<le> i" unfolding k_def using assms(2) by (auto intro: LeastI Least_le)
  have "\<forall>j < k. \<not> occurs_at mem pat j" unfolding k_def using not_less_Least by blast
  with slow_memmem_first [OF assms(1) k(1), of buflen] k(2) assms(3) that [of k] k(1) show thesis by simp
qed

lemma occurs_at_middle: "occurs_at (pre @ pat @ post) pat (length pre)"
  by (simp add: occurs_at_def)

text \<open>Without the pattern in the buffer it may find it across the end of the buffer.\<close>

lemma slow_memmem_overread: "slow_memmem ([1, 1] @ [2]) 2 [1, 2] = Some 1"
  by (simp add: slow_memmem.simps [of "[1, 1, 2]"] slow_memmem.simps [of "[1, 2]"])


section \<open>The records\<close>

definition TRANSATION_PREFIX :: bytes where "TRANSATION_PREFIX = [0x74]"

definition transaction_key :: "hash \<Rightarrow> bytes" where
  "transaction_key tid = TRANSATION_PREFIX @ tid"

definition read_transaction ::
  "hash \<Rightarrow> chain_state \<Rightarrow> (transaction \<times> height \<times> hash \<times> nat \<times> u32) option result" where
  "read_transaction tid s =
     (case db_get (bc_db s) (transaction_key tid) of
        None \<Rightarrow> Inr None
      | Some ba \<Rightarrow>
          res_bind (from_binary dec_transaction_pos ba) (\<lambda>tpos.
          res_bind (get_chain (tp_height tpos) s) (\<lambda>bid.
          case db_get (bc_db s) (block_key bid) of
            None \<Rightarrow> Inl (Logic_error ''block must be there if transaction is there'')
          | Some block_val \<Rightarrow>
              res_bind (invariant (unat (tp_offset tpos + tp_size tpos) \<le> length block_val)
                ''Transaction offset corrupted'') (\<lambda>_.
              let tbody = take (unat (tp_size tpos)) (drop (unat (tp_offset tpos)) block_val) in
              res_bind (from_binary dec_transaction tbody) (\<lambda>tx.
              Inr (Some (tx, tp_height tpos, bid, unat (tp_index tpos), tp_size tpos)))))))"

text \<open>
  One record: the bytes are searched behind the ones of the transaction before.  Memory behind
  the block does not matter when they are there (\<open>slow_memmem_found\<close>).
\<close>

definition index_transaction ::
  "bytes \<Rightarrow> hash \<Rightarrow> bytes \<Rightarrow> nat \<Rightarrow> string \<Rightarrow> transaction_pos \<Rightarrow> chain_state \<Rightarrow> (transaction_pos \<times> chain_state) result" where
  "index_transaction block_data tid binary_tx i msg tpos s =
     (let start = unat (tp_offset tpos) + unat (tp_size tpos) in
      case slow_memmem (drop start block_data) (length block_data - start) binary_tx of
        None \<Rightarrow> Inl (Logic_error msg)
      | Some k \<Rightarrow>
          let tpos = tpos\<lparr>tp_offset := word_of_nat (start + k), tp_size := word_of_nat (length binary_tx),
                tp_index := word_of_nat i\<rparr>
          in res_bind (db_put (bc_db s) (transaction_key tid) (to_binary enc_transaction_pos tpos) True) (\<lambda>db.
             Inr (tpos, s\<lparr>bc_db := db\<rparr>)))"

text \<open>The loop over the other transactions, from the one at \<open>i\<close> on.\<close>

fun index_transactions ::
  "bytes \<Rightarrow> hash list \<Rightarrow> bytes list \<Rightarrow> nat \<Rightarrow> nat \<Rightarrow> transaction_pos \<Rightarrow> chain_state \<Rightarrow> chain_state result" where
  "index_transactions block_data tids raws i 0 tpos s = Inr s"
| "index_transactions block_data tids raws i (Suc n) tpos s =
     (if i \<ge> length tids then Inl (Out_of_range ''vector'')
      else if i \<ge> length raws then Inl (Out_of_range ''vector'')
      else res_bind (index_transaction block_data (tids ! i) (raws ! i) (i + 1) ''binary tx not found in binary block'' tpos s)
        (\<lambda>(tpos, s). index_transactions block_data tids raws (i + 1) n tpos s))"

text \<open>\<open>redo_block\<close> and \<open>undo_block\<close> of \<open>BlockChain\<close>, around those of \<open>BlockChainState\<close>.\<close>

definition redo_indexed_block ::
  "crypto_env \<Rightarrow> currency \<Rightarrow> hash \<Rightarrow> bytes \<Rightarrow> raw_block \<Rightarrow> block \<Rightarrow> header_info \<Rightarrow> hash \<Rightarrow> chain_state \<Rightarrow>
     (bool \<times> chain_state) result" where
  "redo_indexed_block env c bhash block_data raw block info base_hash s =
     res_bind (redo_block env c bhash block info s) (\<lambda>(ok, s).
     if \<not> ok then Inr (False, s)
     else
     res_bind (db_put (bc_db s) (timestamp_block_key (hi_timestamp info) (hi_height info)) [] True) (\<lambda>db.
     let s = s\<lparr>bc_db := db\<rparr>;
         tpos = \<lparr>tp_height = hi_height info, tp_offset = 0, tp_size = 0, tp_index = 0\<rparr>
     in
     res_bind (enc_transaction (bt_base_transaction (blk_header block))) (\<lambda>coinbase_ba.
     res_bind (index_transaction block_data base_hash coinbase_ba 0 ''binary coinbase tx not found in binary block'' tpos s)
       (\<lambda>(tpos, s).
     res_bind (index_transactions block_data (bt_transaction_hashes (blk_header block)) (rb_transactions raw) 0
         (length (blk_transactions block)) tpos s) (\<lambda>s.
     Inr (True, s))))))"

fun delete_transactions :: "hash list \<Rightarrow> nat \<Rightarrow> nat \<Rightarrow> chain_state \<Rightarrow> chain_state result" where
  "delete_transactions tids i 0 s = Inr s"
| "delete_transactions tids i (Suc n) s =
     (if i \<ge> length tids then Inl (Out_of_range ''vector'')
      else res_bind (db_del (bc_db s) (transaction_key (tids ! i)) True) (\<lambda>db.
        delete_transactions tids (i + 1) n (s\<lparr>bc_db := db\<rparr>)))"

definition undo_indexed_block :: "crypto_env \<Rightarrow> hash \<Rightarrow> block \<Rightarrow> height \<Rightarrow> chain_state \<Rightarrow> chain_state result" where
  "undo_indexed_block env bhash block height s =
     (let header = blk_header block in
      res_bind (undo_block bhash block height s) (\<lambda>s.
      res_bind (db_del (bc_db s) (timestamp_block_key (bh_timestamp header) height) True) (\<lambda>db.
      res_bind (get_transaction_hash env (bt_base_transaction header)) (\<lambda>tid.
      res_bind (db_del db (transaction_key tid) True) (\<lambda>db.
      delete_transactions (bt_transaction_hashes header) 0 (length (blk_transactions block)) (s\<lparr>bc_db := db\<rparr>))))))"

text \<open>The check of the index that the source keeps for debugging.\<close>

fun debug_check_transactions ::
  "hash list \<Rightarrow> bytes list \<Rightarrow> header_info \<Rightarrow> nat \<Rightarrow> nat \<Rightarrow> chain_state \<Rightarrow> unit result" where
  "debug_check_transactions tids raws info i 0 s = Inr ()"
| "debug_check_transactions tids raws info i (Suc n) s =
     (if i \<ge> length tids then Inl (Out_of_range ''vector'')
      else res_bind (read_transaction (tids ! i) s) (\<lambda>r. case r of
        None \<Rightarrow> Inl (Logic_error ''tx index invariant failed 3'')
      | Some (rtx, bhe, bha, iib, bs) \<Rightarrow>
          res_bind (enc_transaction rtx) (\<lambda>ba.
          if i \<ge> length raws then Inl (Out_of_range ''vector'')
          else res_bind (invariant (ba = raws ! i \<and> bhe = hi_height info \<and> bha = hi_hash info \<and> iib = i + 1 \<and>
              unat bs = length (raws ! i)) ''tx index invariant failed 4'') (\<lambda>_.
            debug_check_transactions tids raws info (i + 1) n s))))"

definition debug_check_transaction_invariants ::
  "crypto_env \<Rightarrow> raw_block \<Rightarrow> block \<Rightarrow> header_info \<Rightarrow> hash \<Rightarrow> chain_state \<Rightarrow> unit result" where
  "debug_check_transaction_invariants env raw block info base_hash s =
     res_bind (read_transaction base_hash s) (\<lambda>r. case r of
       None \<Rightarrow> Inl (Logic_error ''tx index invariant failed 1'')
     | Some (rtx, bhe, bha, iib, bs) \<Rightarrow>
         res_bind (get_transaction_hash env rtx) (\<lambda>h.
         res_bind (invariant (h = base_hash \<and> bhe = hi_height info \<and> bha = hi_hash info \<and> iib = 0)
           ''tx index invariant failed 2'') (\<lambda>_.
         debug_check_transactions (bt_transaction_hashes (blk_header block)) (rb_transactions raw) info 0
           (length (blk_transactions block)) s)))"


section \<open>Keys of the index\<close>

lemma index_keys [simp]:
  "transaction_key a = transaction_key b \<longleftrightarrow> a = b"
  "transaction_key a \<noteq> timestamp_block_key x h" "timestamp_block_key x h \<noteq> transaction_key a"
  "transaction_key a \<noteq> header_key b" "header_key b \<noteq> transaction_key a"
  "transaction_key a \<noteq> block_key b" "block_key b \<noteq> transaction_key a"
  "transaction_key a \<noteq> tip_chain_key h" "tip_chain_key h \<noteq> transaction_key a"
  "transaction_key a \<noteq> children_key b" "children_key b \<noteq> transaction_key a"
  "transaction_key a \<noteq> cd_tips_key y b" "cd_tips_key y b \<noteq> transaction_key a"
  "timestamp_block_key x h \<noteq> header_key b" "header_key b \<noteq> timestamp_block_key x h"
  "timestamp_block_key x h \<noteq> block_key b" "block_key b \<noteq> timestamp_block_key x h"
  "timestamp_block_key x h \<noteq> tip_chain_key g" "tip_chain_key g \<noteq> timestamp_block_key x h"
  "timestamp_block_key x h \<noteq> children_key b" "children_key b \<noteq> timestamp_block_key x h"
  "timestamp_block_key x h \<noteq> cd_tips_key y b" "cd_tips_key y b \<noteq> timestamp_block_key x h"
  by (simp_all add: key_defs transaction_key_def TRANSATION_PREFIX_def)

lemma global_indices_keys [simp]:
  "block_global_indices_key a = block_global_indices_key b \<longleftrightarrow> a = b"
  "block_global_indices_key a \<noteq> transaction_key b" "transaction_key b \<noteq> block_global_indices_key a"
  "block_global_indices_key a \<noteq> timestamp_block_key x h" "timestamp_block_key x h \<noteq> block_global_indices_key a"
  "block_global_indices_key a \<noteq> header_key b" "header_key b \<noteq> block_global_indices_key a"
  "block_global_indices_key a \<noteq> block_key b" "block_key b \<noteq> block_global_indices_key a"
  "block_global_indices_key a \<noteq> tip_chain_key h" "tip_chain_key h \<noteq> block_global_indices_key a"
  "block_global_indices_key a \<noteq> children_key b" "children_key b \<noteq> block_global_indices_key a"
  "block_global_indices_key a \<noteq> cd_tips_key y b" "cd_tips_key y b \<noteq> block_global_indices_key a"
  by (simp_all add: key_defs transaction_key_def TRANSATION_PREFIX_def block_global_indices_key_def
    BLOCK_GLOBAL_INDICES_PREFIX_def BLOCK_GLOBAL_INDICES_SUFFIX_def)

lemma not_ledger_keys [simp]:
  "\<not> ledger_key (transaction_key a)" "\<not> ledger_key (timestamp_block_key x h)" "\<not> ledger_key (header_key a)"
  "\<not> ledger_key (block_key a)" "\<not> ledger_key (tip_chain_key h)" "\<not> ledger_key (children_key a)" "\<not> ledger_key (cd_tips_key y a)"
  by (auto simp: key_defs transaction_key_def TRANSATION_PREFIX_def ledger_key_def KEYIMAGE_PREFIX_def AMOUNT_OUTPUT_PREFIX_def)

lemma timestamp_key_inj [simp]:
  "timestamp_block_key x g = timestamp_block_key y h \<longleftrightarrow> x = y \<and> g = h"
proof
  assume "timestamp_block_key x g = timestamp_block_key y h"
  then have e: "write_varint_sqlite4 (ucast x) @ write_varint_sqlite4 (ucast g) =
      write_varint_sqlite4 (ucast y) @ write_varint_sqlite4 (ucast h)" by (simp add: timestamp_block_key_def)
  from sqlite4.enc_prefix_free [OF _ _ e] have "ucast x = (ucast y :: u64)"
    "write_varint_sqlite4 (ucast g) = write_varint_sqlite4 (ucast h)" by simp_all
  then show "x = y \<and> g = h" by (auto simp: sqlite4.enc_inj) (metis ucast_u64_down(3))+
qed simp

section \<open>What a record says\<close>

definition tx_record :: "bytes \<Rightarrow> height \<Rightarrow> bytes \<Rightarrow> nat \<Rightarrow> bytes \<Rightarrow> bool" where
  "tx_record d h bin i v \<longleftrightarrow> (\<exists>pos. occurs_at d bin pos \<and>
     v = to_binary enc_transaction_pos \<lparr>tp_height = h, tp_offset = word_of_nat pos,
       tp_size = word_of_nat (length bin), tp_index = word_of_nat i\<rparr>)"

lemma slow_memmem_occurs: "slow_memmem mem n pat = Some k \<Longrightarrow> occurs_at mem pat k"
proof (induction mem n pat arbitrary: k rule: slow_memmem.induct)
  case (1 mem buflen pat)
  from 1(2) obtain j where j: "pat \<noteq> []" "buflen \<noteq> 0" "memchr (hd pat) (take buflen mem) = Some j" "\<not> j + length pat > buflen"
    by (auto simp: slow_memmem.simps [of mem] split: if_splits option.splits)
  then have jm: "j < length mem" by (auto simp: memchr_Some)
  show ?case
  proof (cases "take (length pat) (drop j mem) = pat")
    case True
    then have "length pat \<le> length mem - j" by (metis length_take length_drop min.cobounded1)
    with True 1(2) j jm show ?thesis by (simp add: slow_memmem.simps [of mem] occurs_at_def)
  next
    case False
    with 1(2) j obtain i where i: "slow_memmem (drop (j + 1) mem) (buflen - j) pat = Some i" "k = j + 1 + i"
      by (auto simp: slow_memmem.simps [of mem])
    from 1(1) [OF _ j(3,4) False i(1)] j(1,2) have "occurs_at (drop (j + 1) mem) pat i" by simp
    with jm show ?thesis by (auto simp: occurs_at_def i(2) add.commute add.left_commute)
  qed
qed

lemma occurs_at_drop: "occurs_at (drop n d) pat k \<Longrightarrow> n \<le> length d \<Longrightarrow> occurs_at d pat (n + k)"
  by (auto simp: occurs_at_def add.commute add.left_commute)

lemma occurs_at_drop_iff: "n \<le> p \<Longrightarrow> occurs_at d pat p \<Longrightarrow> occurs_at (drop n d) pat (p - n)"
  by (auto simp: occurs_at_def)

lemma unat_u32_of_nat: "n < 2 ^ 32 \<Longrightarrow> unat (word_of_nat n :: u32) = n"
  by (simp add: unat_of_nat)

lemma index_transaction_record:
  assumes r: "index_transaction d tid bin i msg tpos s = Inr (tpos', s')" and wf: "om_wf (bc_db s)"
    and len: "length d < 2 ^ 32" "unat (tp_offset tpos) + unat (tp_size tpos) \<le> length d"
  shows "s' = s\<lparr>bc_db := bc_db s'\<rparr> \<and> om_wf (bc_db s') \<and> tp_height tpos' = tp_height tpos \<and>
    unat (tp_offset tpos') + unat (tp_size tpos') \<le> length d \<and> db_get (bc_db s) (transaction_key tid) = None \<and>
    (\<exists>v. tx_record d (tp_height tpos) bin i v \<and>
      (\<forall>key. db_get (bc_db s') key = (if key = transaction_key tid then Some v else db_get (bc_db s) key)))"
proof -
  define start where "start = unat (tp_offset tpos) + unat (tp_size tpos)"
  from r obtain k db where k: "slow_memmem (drop start d) (length d - start) bin = Some k"
    and p: "tpos' = tpos\<lparr>tp_offset := word_of_nat (start + k), tp_size := word_of_nat (length bin), tp_index := word_of_nat i\<rparr>"
    and db: "db_put (bc_db s) (transaction_key tid) (to_binary enc_transaction_pos tpos') True = Inr db"
    and s': "s' = s\<lparr>bc_db := db\<rparr>"
    by (auto simp: index_transaction_def start_def [symmetric] res_bind_eq_Inr Let_def split: option.splits)
  have occ: "occurs_at d bin (start + k)"
    using occurs_at_drop [OF slow_memmem_occurs [OF k]] len(2) by (simp add: start_def)
  then have "start + k + length bin \<le> length d" by (simp add: occurs_at_def)
  then have "unat (tp_offset tpos') + unat (tp_size tpos') \<le> length d"
    using len(1) by (simp add: p unat_u32_of_nat del: of_nat_add)
  moreover have "tx_record d (tp_height tpos) bin i (to_binary enc_transaction_pos tpos')"
    unfolding tx_record_def using occ by (intro exI [of _ "start + k"]) (cases tpos, simp add: p)
  moreover have "db_get (bc_db s) (transaction_key tid) = None" using db by (auto simp: db_put_def split: if_splits)
  ultimately show ?thesis
    using om_wf_put [OF wf db] db_get_put [OF db] by (auto simp: s' p)
qed

text \<open>The bytes of the transactions one behind the other in the bytes of the block.\<close>

fun placed :: "bytes \<Rightarrow> nat \<Rightarrow> bytes list \<Rightarrow> bool" where
  "placed d n [] \<longleftrightarrow> True"
| "placed d n (b # bs) \<longleftrightarrow> b \<noteq> [] \<and> (\<exists>p \<ge> n. occurs_at d b p \<and> placed d (p + length b) bs)"

lemma placed_length: "placed d n bs \<Longrightarrow> bs \<noteq> [] \<Longrightarrow> n + length bs \<le> length d"
proof (induction bs arbitrary: n)
  case (Cons b bs)
  then obtain p where p: "b \<noteq> []" "n \<le> p" "occurs_at d b p" "placed d (p + length b) bs" by auto
  then have b: "0 < length b" "p + length b \<le> length d" by (simp_all add: occurs_at_def)
  show ?case
  proof (cases "bs = []")
    case False
    have "Suc 0 \<le> length b" using b(1) by linarith
    with Cons.IH [OF p(4) False] p(2) show ?thesis unfolding list.size by linarith
  next
    case True
    have "Suc 0 \<le> length b" using b(1) by linarith
    with True b(2) p(2) show ?thesis by simp
  qed
qed simp

lemma placed_mono: "placed d n bs \<Longrightarrow> m \<le> n \<Longrightarrow> placed d m bs"
  by (cases bs) (auto intro: order_trans)

lemma index_transaction_total:
  assumes pl: "placed d (unat (tp_offset tpos) + unat (tp_size tpos)) (bin # bins)"
    and none: "db_get (bc_db s) (transaction_key tid) = None" and len: "length d < 2 ^ 32"
  shows "\<exists>tpos' s'. index_transaction d tid bin i msg tpos s = Inr (tpos', s') \<and>
    placed d (unat (tp_offset tpos') + unat (tp_size tpos')) bins"
proof -
  define start where "start = unat (tp_offset tpos) + unat (tp_size tpos)"
  from pl obtain p where p: "bin \<noteq> []" "start \<le> p" "occurs_at d bin p" "placed d (p + length bin) bins"
    by (auto simp: start_def)
  then have le: "p + length bin \<le> length d" by (simp add: occurs_at_def)
  have occ: "occurs_at (drop start d) bin (p - start)" using occurs_at_drop_iff p(2,3) by blast
  obtain k where k: "slow_memmem (drop start d) (length d - start) bin = Some k" "k \<le> p - start"
    using slow_memmem_found [OF p(1) occ, of "length d - start"] le p(2) by (metis Nat.add_diff_assoc2 diff_le_mono)
  have "unat (word_of_nat (start + k) :: u32) = start + k" "unat (word_of_nat (length bin) :: u32) = length bin"
    using k(2) le len p(2) by (simp_all add: unat_u32_of_nat del: of_nat_add)
  then have "placed d (unat (word_of_nat (start + k) :: u32) + unat (word_of_nat (length bin) :: u32)) bins"
    using placed_mono [OF p(4)] k(2) p(2) by simp
  then show ?thesis
    using k(1) none by (simp add: index_transaction_def start_def [symmetric] db_put_def Let_def)
qed

text \<open>All records of a block: \<open>k\<close> counts from the first transaction of the list.\<close>

lemma index_transactions_records:
  "index_transactions d tids raws i n tpos s = Inr s' \<Longrightarrow> om_wf (bc_db s) \<Longrightarrow> length d < 2 ^ 32 \<Longrightarrow>
     unat (tp_offset tpos) + unat (tp_size tpos) \<le> length d \<Longrightarrow>
   s' = s\<lparr>bc_db := bc_db s'\<rparr> \<and> om_wf (bc_db s') \<and> i + n \<le> max i (length tids) \<and> i + n \<le> max i (length raws) \<and>
   (\<forall>j. i \<le> j \<and> j < i + n \<longrightarrow> db_get (bc_db s) (transaction_key (tids ! j)) = None \<and>
      (\<exists>v. db_get (bc_db s') (transaction_key (tids ! j)) = Some v \<and> tx_record d (tp_height tpos) (raws ! j) (j + 1) v)) \<and>
   (\<forall>key. (\<forall>j. i \<le> j \<and> j < i + n \<longrightarrow> key \<noteq> transaction_key (tids ! j)) \<longrightarrow> db_get (bc_db s') key = db_get (bc_db s) key)"
proof (induction n arbitrary: i tpos s)
  case 0
  then show ?case by auto
next
  case (Suc n)
  from Suc.prems(1) obtain tpos1 s1 where
    i: "i < length tids" "i < length raws" and
    r: "index_transaction d (tids ! i) (raws ! i) (i + 1) ''binary tx not found in binary block'' tpos s = Inr (tpos1, s1)" and
    rest: "index_transactions d tids raws (i + 1) n tpos1 s1 = Inr s'"
    by (auto simp: res_bind_eq_Inr split: if_splits)
  note R = index_transaction_record [OF r Suc.prems(2-4)]
  then have pre: "om_wf (bc_db s1)" "unat (tp_offset tpos1) + unat (tp_size tpos1) \<le> length d" "tp_height tpos1 = tp_height tpos"
    by blast+
  from R obtain v where v: "tx_record d (tp_height tpos) (raws ! i) (i + 1) v"
    "\<And>key. db_get (bc_db s1) key = (if key = transaction_key (tids ! i) then Some v else db_get (bc_db s) key)"
    "db_get (bc_db s) (transaction_key (tids ! i)) = None" by blast
  note IH = Suc.IH [OF rest pre(1) Suc.prems(3) pre(2), unfolded pre(3)]
  from IH have IH1: "s' = s1\<lparr>bc_db := bc_db s'\<rparr>" "om_wf (bc_db s')"
    and IH3: "\<And>j. i + 1 \<le> j \<Longrightarrow> j < i + 1 + n \<Longrightarrow> db_get (bc_db s1) (transaction_key (tids ! j)) = None \<and>
      (\<exists>v. db_get (bc_db s') (transaction_key (tids ! j)) = Some v \<and> tx_record d (tp_height tpos) (raws ! j) (j + 1) v)"
    and IH4: "\<And>key. (\<And>j. i + 1 \<le> j \<Longrightarrow> j < i + 1 + n \<Longrightarrow> key \<noteq> transaction_key (tids ! j)) \<Longrightarrow>
      db_get (bc_db s') key = db_get (bc_db s1) key"
    and IH5: "i + 1 + n \<le> max (i + 1) (length tids)" "i + 1 + n \<le> max (i + 1) (length raws)" by blast+
  have new: "tids ! j \<noteq> tids ! i" if "i + 1 \<le> j" "j < i + 1 + n" for j
    using IH3 [OF that] v(2) by (auto split: if_splits)
  have here: "db_get (bc_db s') (transaction_key (tids ! i)) = Some v"
    using IH4 [of "transaction_key (tids ! i)"] new v(2) by fastforce
  have "db_get (bc_db s) (transaction_key (tids ! j)) = None \<and>
      (\<exists>v. db_get (bc_db s') (transaction_key (tids ! j)) = Some v \<and> tx_record d (tp_height tpos) (raws ! j) (j + 1) v)"
    if "i \<le> j" "j < i + Suc n" for j
  proof (cases "j = i")
    case True
    with v here show ?thesis by blast
  next
    case False
    with that IH3 [of j] v(2) show ?thesis by (auto split: if_splits)
  qed
  moreover have "db_get (bc_db s') key = db_get (bc_db s) key"
    if "\<forall>j. i \<le> j \<and> j < i + Suc n \<longrightarrow> key \<noteq> transaction_key (tids ! j)" for key
    using IH4 [of key] that v(2) by force
  moreover have "s' = s\<lparr>bc_db := bc_db s'\<rparr>" using R IH1(1) by (metis block_chain.surjective block_chain.update_convs(1))
  ultimately show ?case using IH1(2) IH5 i by auto
qed


text \<open>The records of all transactions of a block, the coinbase first.\<close>

definition block_tids :: "hash \<Rightarrow> block \<Rightarrow> hash list" where
  "block_tids base_hash b = base_hash # take (length (blk_transactions b)) (bt_transaction_hashes (blk_header b))"

lemma redo_indexed_block_records:
  assumes r: "redo_indexed_block env c bhash d raw b info base_hash s = Inr (True, s')"
    and wf: "\<And>t. redo_block env c bhash b info s = Inr (True, t) \<Longrightarrow> om_wf (bc_db t)" and len: "length d < 2 ^ 32"
  obtains t coinbase where "redo_block env c bhash b info s = Inr (True, t)"
    "enc_transaction (bt_base_transaction (blk_header b)) = Inr coinbase"
    "s' = t\<lparr>bc_db := bc_db s'\<rparr>" "om_wf (bc_db s')"
    "length (blk_transactions b) \<le> length (bt_transaction_hashes (blk_header b))"
    "length (blk_transactions b) \<le> length (rb_transactions raw)"
    "db_get (bc_db t) (timestamp_block_key (hi_timestamp info) (hi_height info)) = None"
    "db_get (bc_db s') (timestamp_block_key (hi_timestamp info) (hi_height info)) = Some []"
    "\<And>i. i < length (block_tids base_hash b) \<Longrightarrow>
       db_get (bc_db t) (transaction_key (block_tids base_hash b ! i)) = None \<and>
       (\<exists>v. db_get (bc_db s') (transaction_key (block_tids base_hash b ! i)) = Some v \<and>
         tx_record d (hi_height info) ((coinbase # rb_transactions raw) ! i) i v)"
    "\<And>key. key \<noteq> timestamp_block_key (hi_timestamp info) (hi_height info) \<Longrightarrow>
       key \<notin> transaction_key ` set (block_tids base_hash b) \<Longrightarrow> db_get (bc_db s') key = db_get (bc_db t) key"
proof -
  let ?n = "length (blk_transactions b)" and ?hs = "bt_transaction_hashes (blk_header b)" and ?raws = "rb_transactions raw"
  let ?tk = "timestamp_block_key (hi_timestamp info) (hi_height info)"
  from r obtain t db coinbase tpos s2 where
    t: "redo_block env c bhash b info s = Inr (True, t)" and db: "db_put (bc_db t) ?tk [] True = Inr db" and
    coinbase: "enc_transaction (bt_base_transaction (blk_header b)) = Inr coinbase" and
    cb: "index_transaction d base_hash coinbase 0 ''binary coinbase tx not found in binary block''
      \<lparr>tp_height = hi_height info, tp_offset = 0, tp_size = 0, tp_index = 0\<rparr> (t\<lparr>bc_db := db\<rparr>) = Inr (tpos, s2)" and
    rest: "index_transactions d ?hs ?raws 0 ?n tpos s2 = Inr s'"
    by (auto simp: redo_indexed_block_def res_bind_eq_Inr Let_def split: if_splits)
  have wfd: "om_wf (bc_db (t\<lparr>bc_db := db\<rparr>))" using om_wf_put [OF wf [OF t] db] by simp
  note get = db_get_put [OF db]
  have tk: "db_get (bc_db t) ?tk = None" using db by (auto simp: db_put_def split: if_splits)
  note C = index_transaction_record [OF cb wfd len, simplified]
  then obtain v where v: "tx_record d (hi_height info) coinbase 0 v"
    "\<And>key. db_get (bc_db s2) key = (if key = transaction_key base_hash then Some v else db_get db key)"
    "db_get db (transaction_key base_hash) = None" by auto
  from C have C': "om_wf (bc_db s2)" "unat (tp_offset tpos) + unat (tp_size tpos) \<le> length d" "tp_height tpos = hi_height info"
    "s2 = t\<lparr>bc_db := bc_db s2\<rparr>" by auto
  note R = index_transactions_records [OF rest C'(1) len C'(2), unfolded C'(3)]
  then have R': "om_wf (bc_db s')" "?n \<le> length ?hs" "?n \<le> length ?raws"
    "\<And>j. j < ?n \<Longrightarrow> db_get (bc_db s2) (transaction_key (?hs ! j)) = None \<and>
       (\<exists>v. db_get (bc_db s') (transaction_key (?hs ! j)) = Some v \<and> tx_record d (hi_height info) (?raws ! j) (j + 1) v)"
    "\<And>key. (\<And>j. j < ?n \<Longrightarrow> key \<noteq> transaction_key (?hs ! j)) \<Longrightarrow> db_get (bc_db s') key = db_get (bc_db s2) key"
    by auto
  have diff: "?hs ! j \<noteq> base_hash" if "j < ?n" for j using R'(4) [OF that] v(2) by (auto split: if_splits)
  have base: "db_get (bc_db s') (transaction_key base_hash) = Some v"
    using R'(5) [of "transaction_key base_hash"] diff v(2) by fastforce
  have len_ids: "length (block_tids base_hash b) = Suc ?n" using R'(2) by (simp add: block_tids_def)
  have "db_get (bc_db t) (transaction_key (block_tids base_hash b ! i)) = None \<and>
      (\<exists>v. db_get (bc_db s') (transaction_key (block_tids base_hash b ! i)) = Some v \<and>
         tx_record d (hi_height info) ((coinbase # ?raws) ! i) i v)" if "i < length (block_tids base_hash b)" for i
  proof (cases i)
    case 0
    with v(1,3) base get show ?thesis by (simp add: block_tids_def)
  next
    case (Suc j)
    with that len_ids have j: "j < ?n" by simp
    with R'(4) [OF j] R'(2) v(2) get show ?thesis by (auto simp: Suc block_tids_def split: if_splits)
  qed
  moreover have "db_get (bc_db s') key = db_get (bc_db t) key"
    if "key \<noteq> ?tk" "key \<notin> transaction_key ` set (block_tids base_hash b)" for key
  proof -
    have "key \<noteq> transaction_key (?hs ! j)" if "j < ?n" for j
      using \<open>key \<notin> _\<close> that R'(2) nth_mem [of j "take ?n ?hs"] by (auto simp: block_tids_def)
    with R'(5) have "db_get (bc_db s') key = db_get (bc_db s2) key" by blast
    with that v(2) get show ?thesis by (auto simp: block_tids_def)
  qed
  moreover have "db_get (bc_db s') ?tk = Some []" using R'(5) [of ?tk] v(2) get by simp
  moreover have "s' = t\<lparr>bc_db := bc_db s'\<rparr>" using R C'(4) by (metis block_chain.surjective block_chain.update_convs(1))
  ultimately show thesis using that [OF t coinbase] R'(1,2,3) tk by blast
qed

text \<open>A record leads to its transaction.\<close>

lemma read_transaction_record:
  assumes "db_get (bc_db s) (transaction_key tid) = Some v" "tx_record d h bin i v"
    and "length d < 2 ^ 32" "i < 2 ^ 32" "get_chain h s = Inr bid" "db_get (bc_db s) (block_key bid) = Some d"
    and "from_binary dec_transaction bin = Inr tx"
  shows "read_transaction tid s = Inr (Some (tx, h, bid, i, word_of_nat (length bin)))"
proof -
  from assms(2) obtain pos where pos: "occurs_at d bin pos" "v = to_binary enc_transaction_pos
      \<lparr>tp_height = h, tp_offset = word_of_nat pos, tp_size = word_of_nat (length bin), tp_index = word_of_nat i\<rparr>"
    by (auto simp: tx_record_def)
  then have le: "pos + length bin \<le> length d" "take (length bin) (drop pos d) = bin" by (simp_all add: occurs_at_def)
  have sum: "unat (word_of_nat pos + word_of_nat (length bin) :: u32) = pos + length bin"
    by (rule word_sum_less) (use le assms(3) in simp)
  have n: "unat (word_of_nat pos :: u32) = pos" "unat (word_of_nat (length bin) :: u32) = length bin" "unat (word_of_nat i :: u32) = i"
    using le(1) assms(3,4) by (simp_all add: unat_u32_of_nat)
  show ?thesis
    by (simp add: read_transaction_def assms(1,5,6,7) pos(2) transaction_pos.from_to_binary sum n le invariant_def Let_def)
qed


section \<open>The search always succeeds\<close>

text \<open>Decoders leave a suffix of their input.\<close>

definition leaves :: "bytes \<Rightarrow> bytes \<Rightarrow> bool" where
  "leaves s r \<longleftrightarrow> (\<exists>p. s = p @ r)"

lemma leaves_refl [simp, intro]: "leaves r r"
  by (simp add: leaves_def)

lemma leaves_append [simp]: "leaves s r \<Longrightarrow> leaves (p @ s) r"
  by (auto simp: leaves_def)

lemma leaves_trans: "leaves s t \<Longrightarrow> leaves t r \<Longrightarrow> leaves s r"
  by (auto simp: leaves_def)

lemma dec_binary_leaves: "dec_binary n s = Inr (x, r) \<Longrightarrow> leaves s r"
  by (auto simp: dec_binary_def stream_read_Inr)

lemma dec_nonce_leaves: "dec_nonce s = Inr (x, r) \<Longrightarrow> leaves s r"
  by (auto simp: dec_nonce_def res_bind_eq_Inr dest: dec_binary_leaves)

lemma dec_items_leaves:
  "(\<And>s x r. dec s = Inr (x, r) \<Longrightarrow> leaves s r) \<Longrightarrow> dec_items dec n s = Inr (xs, r) \<Longrightarrow> leaves s r"
proof (induction n arbitrary: s xs)
  case (Suc n)
  then show ?case by (force simp: res_bind_eq_Inr intro: leaves_trans)
qed simp

lemma dec_base_transaction_leaves: "dec_base_transaction s = Inr (x, r) \<Longrightarrow> leaves s r"
  by (auto simp: dec_base_transaction_def res_bind_eq_Inr prefix.dec_iff codec_iff split: if_splits)

lemma dec_block_header_leaves: "dec_block_header s = Inr (b, r) \<Longrightarrow> leaves s r"
  by (auto simp: dec_block_header_def res_bind_eq_Inr Let_def codec_iff dest!: dec_nonce_leaves split: if_splits)

lemma dec_parent_block_leaves: "dec_parent_block b s = Inr (b', r) \<Longrightarrow> leaves s r"
proof -
  assume r: "dec_parent_block b s = Inr (b', r)"
  then obtain major s1 minor s2 ts s3 prev s4 nonce s5 tx_num s6 branch s7 base s8 where
    d: "dec_u8 s = Inr (major, s1)" "dec_u8 s1 = Inr (minor, s2)" "dec_u32 s2 = Inr (ts, s3)"
      "dec_binary 32 s3 = Inr (prev, s4)" "dec_nonce s4 = Inr (nonce, s5)" "dec_u64 s5 = Inr (tx_num, s6)"
      "dec_items (dec_binary 32) (tree_depth (ucast (ucast tx_num :: u16))) s6 = Inr (branch, s7)"
      "dec_base_transaction s7 = Inr (base, s8)"
    unfolding dec_parent_block_def Let_def by (auto simp: res_bind_eq_Inr split: if_splits)
  with r obtain tag :: mm_tag and chain_branch where e: "dec_items (dec_binary 32) (unat (mm_depth tag)) s8 = Inr (chain_branch, r)"
    by (cases "get_merge_mining_tag_from_extra (tx_extra base)")
      (auto simp: dec_parent_block_def res_bind_eq_Inr Let_def split: if_splits)
  have "leaves s s4" using d(1-4) by (simp add: codec_iff)
  moreover have "leaves s4 s6" using dec_nonce_leaves [OF d(5)] d(6) leaves_trans by (auto simp: codec_iff)
  moreover have "leaves s6 s7" "leaves s8 r" using d(7) e dec_items_leaves dec_binary_leaves by blast+
  ultimately show ?thesis using dec_base_transaction_leaves [OF d(8)] leaves_trans by blast
qed

lemma transaction_not_empty: "valid_transaction tx \<Longrightarrow> enc_prefix tx @ signature_bytes (tx_signatures tx) \<noteq> []"
proof
  assume "valid_transaction tx" "enc_prefix tx @ signature_bytes (tx_signatures tx) = []"
  moreover have "write_varint n \<noteq> []" for n by (subst write_varint.simps) simp
  ultimately show False by (simp add: enc_prefix_def enc_u8_def)
qed

lemma block_template_coinbase:
  assumes "dec_block_template s = Inr (b, [])"
  obtains pre post coinbase where "s = pre @ coinbase @ post" "enc_transaction (bt_base_transaction b) = Inr coinbase"
    "coinbase \<noteq> []" "from_binary dec_transaction coinbase = Inr (bt_base_transaction b)"
proof -
  from assms obtain b1 s1 b2 s2 base s3 hashes where
    d: "dec_block_header s = Inr (b1, s1)" "(if bh_major_version b1 \<ge> 2 then dec_parent_block b1 s1 else Inr (b1, s1)) = Inr (b2, s2)"
      "dec_transaction s2 = Inr (base, s3)" and b: "b = b2\<lparr>bt_base_transaction := base, bt_transaction_hashes := hashes\<rparr>"
    by (auto simp: dec_block_template_def res_bind_eq_Inr)
  have "leaves s1 s2" using d(2) dec_parent_block_leaves by (cases "bh_major_version b1 \<ge> 2") auto
  with dec_block_header_leaves [OF d(1)] have "leaves s s2" by (rule leaves_trans)
  then obtain pre where pre: "s = pre @ s2" by (auto simp: leaves_def)
  from d(3) have v: "valid_transaction base" "s2 = (enc_prefix base @ signature_bytes (tx_signatures base)) @ s3"
    by (simp_all add: transaction.dec_iff)
  show thesis
  proof (rule that)
    show "s = pre @ (enc_prefix base @ signature_bytes (tx_signatures base)) @ s3" using pre v(2) by simp
    show "enc_transaction (bt_base_transaction b) = Inr (enc_prefix base @ signature_bytes (tx_signatures base))"
      using enc_transaction_valid [OF v(1)] by (simp add: b)
    show "enc_prefix base @ signature_bytes (tx_signatures base) \<noteq> []" using transaction_not_empty [OF v(1)] by simp
    show "from_binary dec_transaction (enc_prefix base @ signature_bytes (tx_signatures base)) = Inr (bt_base_transaction b)"
      using transaction.from_to_binary [OF v(1)] by (simp add: b to_binary_def)
  qed
qed


lemma placed_append: "placed d n bs \<Longrightarrow> placed (pre @ d) (length pre + n) bs"
proof (induction bs arbitrary: n)
  case (Cons b bs)
  then obtain p where p: "b \<noteq> []" "n \<le> p" "occurs_at d b p" "placed d (p + length b) bs" by auto
  have "placed (pre @ d) (length pre + p + length b) bs" using Cons.IH [OF p(4)] by (simp add: add.assoc)
  moreover have "occurs_at (pre @ d) b (length pre + p)" using p(3) by (simp add: occurs_at_def)
  ultimately show ?case using p(1,2) by (auto intro!: exI [of _ "length pre + p"])
qed simp

lemma placed_items: "[] \<notin> set bs \<Longrightarrow> placed (enc_items enc_bytes bs @ post) 0 bs"
proof (induction bs)
  case (Cons b bs)
  define pre where "pre = write_varint (word_of_nat (length b))"
  have split: "enc_items enc_bytes (b # bs) @ post = pre @ b @ enc_items enc_bytes bs @ post"
    by (simp add: enc_bytes_def pre_def)
  have "placed ((pre @ b) @ enc_items enc_bytes bs @ post) (length (pre @ b) + 0) bs"
    using Cons by (intro placed_append) simp
  moreover have "occurs_at (pre @ b @ enc_items enc_bytes bs @ post) b (length pre)" by (rule occurs_at_middle)
  ultimately show ?case unfolding split using Cons.prems by (auto intro!: exI [of _ "length pre"])
qed simp

text \<open>The bytes of a raw block hold its coinbase and then its other transactions.\<close>

lemma raw_block_placed:
  assumes "rb_block raw = pre @ coinbase @ post" "coinbase \<noteq> []" "[] \<notin> set (rb_transactions raw)"
  shows "placed (enc_raw_block raw) 0 (coinbase # rb_transactions raw)"
proof -
  define v where "v = write_varint (word_of_nat (length (rb_block raw)))"
  define w where "w = write_varint (word_of_nat (length (rb_transactions raw)))"
  have e: "enc_raw_block raw = (v @ pre) @ coinbase @ post @ w @ enc_items enc_bytes (rb_transactions raw) @ []"
    by (simp add: enc_raw_block_def enc_bytes_def enc_vector_def v_def w_def assms(1))
  have "placed (((v @ pre) @ coinbase @ post @ w) @ enc_items enc_bytes (rb_transactions raw) @ [])
      (length ((v @ pre) @ coinbase @ post @ w) + 0) (rb_transactions raw)"
    by (rule placed_append [OF placed_items [OF assms(3)]])
  then have "placed (enc_raw_block raw) (length (v @ pre) + length coinbase) (rb_transactions raw)"
    unfolding e append_assoc by (rule placed_mono) simp
  moreover have "occurs_at (enc_raw_block raw) coinbase (length (v @ pre))" unfolding e by (rule occurs_at_middle)
  ultimately show ?thesis using assms(2) by auto
qed

lemma index_transactions_total:
  "placed d (unat (tp_offset tpos) + unat (tp_size tpos)) (take n (drop i raws)) \<Longrightarrow> length d < 2 ^ 32 \<Longrightarrow>
     unat (tp_offset tpos) + unat (tp_size tpos) \<le> length d \<Longrightarrow> om_wf (bc_db s) \<Longrightarrow>
     i + n \<le> length tids \<Longrightarrow> i + n \<le> length raws \<Longrightarrow> distinct tids \<Longrightarrow>
     (\<And>j. i \<le> j \<Longrightarrow> j < i + n \<Longrightarrow> db_get (bc_db s) (transaction_key (tids ! j)) = None) \<Longrightarrow>
   \<exists>s'. index_transactions d tids raws i n tpos s = Inr s'"
proof (induction n arbitrary: i tpos s)
  case (Suc n)
  then have i: "i < length tids" "i < length raws" by simp_all
  then have "take (Suc n) (drop i raws) = raws ! i # take n (drop (i + 1) raws)"
    by (simp add: Cons_nth_drop_Suc [symmetric])
  with Suc.prems(1) have pl: "placed d (unat (tp_offset tpos) + unat (tp_size tpos)) (raws ! i # take n (drop (i + 1) raws))"
    by (simp only:)
  obtain tpos1 s1 where r: "index_transaction d (tids ! i) (raws ! i) (i + 1) ''binary tx not found in binary block'' tpos s = Inr (tpos1, s1)"
    and pl1: "placed d (unat (tp_offset tpos1) + unat (tp_size tpos1)) (take n (drop (i + 1) raws))"
    using index_transaction_total [OF pl _ Suc.prems(2), of s "tids ! i" "i + 1" "''binary tx not found in binary block''"]
      Suc.prems(8) [of i] by auto
  note R = index_transaction_record [OF r Suc.prems(4,2,3)]
  have get: "db_get (bc_db s1) (transaction_key (tids ! j)) = None" if "i + 1 \<le> j" "j < i + 1 + n" for j
  proof -
    have "tids ! j \<noteq> tids ! i" using that Suc.prems(5,7) by (simp add: nth_eq_iff_index_eq)
    then show ?thesis using R that Suc.prems(8) [of j] by auto
  qed
  have "\<exists>s'. index_transactions d tids raws (i + 1) n tpos1 s1 = Inr s'"
    by (rule Suc.IH [OF pl1 Suc.prems(2)]) (use R Suc.prems(5,6,7) get in auto)
  with r i show ?case by simp
qed simp


section \<open>The index is right\<close>

lemma transaction_binary_eq: "from_binary dec_transaction s = Inr tx \<Longrightarrow> enc_transaction tx = Inr s"
  using enc_transaction_valid [of tx] by (auto simp: transaction.from_binary_iff to_binary_def)

lemma debug_check_transactions_ok:
  assumes "\<And>j. i \<le> j \<Longrightarrow> j < i + n \<Longrightarrow> \<exists>tx. read_transaction (tids ! j) s =
      Inr (Some (tx, hi_height info, hi_hash info, j + 1, word_of_nat (length (raws ! j)))) \<and>
      enc_transaction tx = Inr (raws ! j) \<and> length (raws ! j) < 2 ^ 32"
    and "i + n \<le> length tids" "i + n \<le> length raws"
  shows "debug_check_transactions tids raws info i n s = Inr ()"
  using assms
proof (induction n arbitrary: i)
  case (Suc n)
  from Suc.prems(1) [of i] obtain tx where
    "read_transaction (tids ! i) s = Inr (Some (tx, hi_height info, hi_hash info, i + 1, word_of_nat (length (raws ! i))))"
    "enc_transaction tx = Inr (raws ! i)" "length (raws ! i) < 2 ^ 32" by auto
  moreover have "debug_check_transactions tids raws info (i + 1) n s = Inr ()"
    using Suc.prems by (intro Suc.IH) auto
  ultimately show ?case using Suc.prems(2,3) by (simp add: unat_u32_of_nat invariant_def)
qed simp

text \<open>What a raw block that was read holds.\<close>

lemma parse_transactions_ok:
  "parse_transactions raws = (True, txs) \<Longrightarrow> length raws = length txs \<and>
     (\<forall>i < length txs. from_binary dec_transaction (raws ! i) = Inr (txs ! i))"
proof (induction raws arbitrary: txs)
  case (Cons r raws)
  then show ?case by (auto simp: nth_Cons' split: sum.splits prod.splits)
qed simp

lemma from_raw_block_ok:
  assumes "from_raw_block raw = (True, Some b)"
  shows "dec_block_template (rb_block raw) = Inr (blk_header b, [])"
    "parse_transactions (rb_transactions raw) = (True, blk_transactions b)"
  using assms by (auto simp: from_raw_block_def split: sum.splits prod.splits if_splits)

text \<open>The bytes of the transactions of a block, the coinbase first.\<close>

lemma block_transactions_placed:
  assumes "from_raw_block raw = (True, Some b)"
  obtains coinbase where "enc_transaction (bt_base_transaction (blk_header b)) = Inr coinbase"
    "from_binary dec_transaction coinbase = Inr (bt_base_transaction (blk_header b))"
    "placed (to_binary enc_raw_block raw) 0 (coinbase # rb_transactions raw)"
    "length (rb_transactions raw) = length (blk_transactions b)"
    "\<And>i. i < length (blk_transactions b) \<Longrightarrow> from_binary dec_transaction (rb_transactions raw ! i) = Inr (blk_transactions b ! i)"
proof -
  note P = parse_transactions_ok [OF from_raw_block_ok(2) [OF assms]]
  obtain pre post coinbase where c: "rb_block raw = pre @ coinbase @ post"
    "enc_transaction (bt_base_transaction (blk_header b)) = Inr coinbase" "coinbase \<noteq> []"
    "from_binary dec_transaction coinbase = Inr (bt_base_transaction (blk_header b))"
    using block_template_coinbase [OF from_raw_block_ok(1) [OF assms]] by blast
  have "[] \<notin> set (rb_transactions raw)"
  proof
    assume "[] \<in> set (rb_transactions raw)"
    then obtain i where "i < length (rb_transactions raw)" "rb_transactions raw ! i = []" by (auto simp: in_set_conv_nth)
    with P have "from_binary dec_transaction [] = Inr (blk_transactions b ! i)" by (metis (no_types))
    then show False using transaction_not_empty by (auto simp: transaction.from_binary_iff to_binary_def)
  qed
  with raw_block_placed [OF c(1,3)] c P that show thesis by (auto simp: to_binary_def)
qed

lemma redo_indexed_block_total:
  assumes redo: "redo_block env c bhash b info s = Inr (True, t)" and wf: "om_wf (bc_db t)"
    and raw: "from_raw_block raw = (True, Some b)" "d = to_binary enc_raw_block raw" and len: "length d < 2 ^ 32"
    and hs: "length (blk_transactions b) \<le> length (bt_transaction_hashes (blk_header b))"
    and new: "distinct (base_hash # bt_transaction_hashes (blk_header b))"
      "\<forall>tid \<in> set (base_hash # bt_transaction_hashes (blk_header b)). db_get (bc_db t) (transaction_key tid) = None"
      "db_get (bc_db t) (timestamp_block_key (hi_timestamp info) (hi_height info)) = None"
  shows "\<exists>s'. redo_indexed_block env c bhash d raw b info base_hash s = Inr (True, s')"
proof -
  let ?hs = "bt_transaction_hashes (blk_header b)" and ?n = "length (blk_transactions b)" and ?raws = "rb_transactions raw"
  let ?pos = "\<lparr>tp_height = hi_height info, tp_offset = 0, tp_size = 0, tp_index = 0\<rparr>"
  obtain coinbase where c: "enc_transaction (bt_base_transaction (blk_header b)) = Inr coinbase"
    "placed d 0 (coinbase # ?raws)" "length ?raws = ?n"
    using block_transactions_placed [OF raw(1)] raw(2) by metis
  obtain db where db: "db_put (bc_db t) (timestamp_block_key (hi_timestamp info) (hi_height info)) [] True = Inr db"
    using new(3) by (simp add: db_put_def)
  note get = db_get_put [OF db]
  have pl: "placed d (unat (tp_offset ?pos) + unat (tp_size ?pos)) (coinbase # ?raws)" using c(2) by simp
  have none: "db_get (bc_db (t\<lparr>bc_db := db\<rparr>)) (transaction_key base_hash) = None" using new(2) get by simp
  obtain tpos s2 where r: "index_transaction d base_hash coinbase 0 ''binary coinbase tx not found in binary block'' ?pos (t\<lparr>bc_db := db\<rparr>) = Inr (tpos, s2)"
    "placed d (unat (tp_offset tpos) + unat (tp_size tpos)) ?raws"
    using index_transaction_total [OF pl none len, of 0 "''binary coinbase tx not found in binary block''"] by blast
  have wfd: "om_wf (bc_db (t\<lparr>bc_db := db\<rparr>))" using om_wf_put [OF wf db] by simp
  have R: "om_wf (bc_db s2)" "unat (tp_offset tpos) + unat (tp_size tpos) \<le> length d"
    "\<And>tid. tid \<in> set ?hs \<Longrightarrow> db_get (bc_db s2) (transaction_key tid) = None"
    using index_transaction_record [OF r(1) wfd len] new(1,2) get by auto
  have "\<exists>s'. index_transactions d ?hs ?raws 0 ?n tpos s2 = Inr s'"
    by (rule index_transactions_total [OF _ len R(2,1)]) (use r(2) c(3) hs new(1) R(3) in auto)
  then show ?thesis using redo db c(1) r(1) by (auto simp: redo_indexed_block_def Let_def)
qed

text \<open>
  C7: the invariant of the index that the source checks for debugging holds for every block that
  is applied and becomes the tip: the searches for its transactions succeed, and each of them is
  read back by its hash with the height, the block, the position and the size it has.
\<close>

theorem redo_indexes_transactions:
  assumes redo: "redo_block env c bhash b info s = Inr (True, t)" and "om_wf (bc_db t)"
    and raw: "from_raw_block raw = (True, Some b)" "d = to_binary enc_raw_block raw" "length d < 2 ^ 32"
    and base: "get_transaction_hash env (bt_base_transaction (blk_header b)) = Inr base_hash"
    and len: "length (bt_transaction_hashes (blk_header b)) = length (blk_transactions b)"
    and new: "distinct (base_hash # bt_transaction_hashes (blk_header b))"
      "\<forall>tid \<in> set (base_hash # bt_transaction_hashes (blk_header b)). db_get (bc_db t) (transaction_key tid) = None"
      "db_get (bc_db t) (timestamp_block_key (hi_timestamp info) (hi_height info)) = None"
  shows "\<exists>s1. redo_indexed_block env c bhash d raw b info base_hash s = Inr (True, s1) \<and>
    (\<forall>s2. (\<forall>tid. db_get (bc_db s2) (transaction_key tid) = db_get (bc_db s1) (transaction_key tid)) \<and>
       get_chain (hi_height info) s2 = Inr (hi_hash info) \<and> db_get (bc_db s2) (block_key (hi_hash info)) = Some d \<longrightarrow>
       debug_check_transaction_invariants env raw b info base_hash s2 = Inr ())"
proof -
  let ?hs = "bt_transaction_hashes (blk_header b)" and ?raws = "rb_transactions raw" and ?h = "hi_height info"
  obtain s1 where s1: "redo_indexed_block env c bhash d raw b info base_hash s = Inr (True, s1)"
    using redo_indexed_block_total [OF redo assms(2) raw _ new] len by auto
  obtain coinbase where P: "enc_transaction (bt_base_transaction (blk_header b)) = Inr coinbase"
    "from_binary dec_transaction coinbase = Inr (bt_base_transaction (blk_header b))"
    "length ?raws = length (blk_transactions b)" "placed d 0 (coinbase # ?raws)"
    "\<And>i. i < length (blk_transactions b) \<Longrightarrow> from_binary dec_transaction (?raws ! i) = Inr (blk_transactions b ! i)"
    using block_transactions_placed [OF raw(1)] raw(2) by metis
  have ids: "block_tids base_hash b = base_hash # ?hs" using len by (simp add: block_tids_def)
  have rec: "\<exists>v. db_get (bc_db s1) (transaction_key ((base_hash # ?hs) ! i)) = Some v \<and>
      tx_record d ?h ((coinbase # ?raws) ! i) i v" if "i \<le> length ?hs" for i
    by (rule redo_indexed_block_records [OF s1 _ raw(3)]) (use redo assms(2) P(1) ids that in auto)
  have small: "i < 2 ^ 32" if "i \<le> length ?hs" for i
    using placed_length [OF P(4)] that raw(3) len P(3) by simp
  have bins: "length ((coinbase # ?raws) ! i) < 2 ^ 32" if "i \<le> length ?hs" for i
    using rec [OF that] raw(3) by (auto simp: tx_record_def occurs_at_def)
  show ?thesis
  proof (intro exI conjI allI impI, rule s1)
    fix s2 assume "(\<forall>tid. db_get (bc_db s2) (transaction_key tid) = db_get (bc_db s1) (transaction_key tid)) \<and>
       get_chain ?h s2 = Inr (hi_hash info) \<and> db_get (bc_db s2) (block_key (hi_hash info)) = Some d"
    then have s2: "\<And>tid. db_get (bc_db s2) (transaction_key tid) = db_get (bc_db s1) (transaction_key tid)"
      "get_chain ?h s2 = Inr (hi_hash info)" "db_get (bc_db s2) (block_key (hi_hash info)) = Some d" by blast+
    have rd: "read_transaction ((base_hash # ?hs) ! i) s2 =
        Inr (Some (tx, ?h, hi_hash info, i, word_of_nat (length ((coinbase # ?raws) ! i))))"
      if "i \<le> length ?hs" "from_binary dec_transaction ((coinbase # ?raws) ! i) = Inr tx" for i tx
      using rec [OF that(1)] read_transaction_record [OF _ _ raw(3) small [OF that(1)] s2(2,3) that(2)] s2(1) by metis
    have others: "debug_check_transactions ?hs ?raws info 0 (length (blk_transactions b)) s2 = Inr ()"
    proof (rule debug_check_transactions_ok)
      fix j assume "j < 0 + length (blk_transactions b)"
      then have j: "j < length ?raws" "Suc j \<le> length ?hs" using P(3) len by simp_all
      have tx: "from_binary dec_transaction (?raws ! j) = Inr (blk_transactions b ! j)" using P(5) j P(3) by simp
      with rd [of "Suc j"] bins [of "Suc j"] j show "\<exists>tx. read_transaction (?hs ! j) s2 =
          Inr (Some (tx, ?h, hi_hash info, j + 1, word_of_nat (length (?raws ! j)))) \<and>
          enc_transaction tx = Inr (?raws ! j) \<and> length (?raws ! j) < 2 ^ 32"
        using transaction_binary_eq [OF tx] by simp
    qed (use len P(3) in simp_all)
    with rd [of 0] P(2) base show "debug_check_transaction_invariants env raw b info base_hash s2 = Inr ()"
      by (simp add: debug_check_transaction_invariants_def invariant_def)
  qed
qed


text \<open>A block with one transaction besides the coinbase.\<close>

definition indexed_block :: block where
  "indexed_block = \<lparr>blk_header = sample_template\<lparr>bt_base_transaction := sample_coinbase\<lparr>tx_signatures := []\<rparr>,
     bt_transaction_hashes := [replicate 32 3]\<rparr>, blk_transactions = [sample_transaction]\<rparr>"

lemma indexed_block_raw:
  "case to_raw_block sample_env indexed_block of None \<Rightarrow> False
   | Some raw \<Rightarrow> length (to_binary enc_raw_block raw) < 1000"
  by code_simp

lemma indexed_block_hash:
  "case get_transaction_hash sample_env (bt_base_transaction (blk_header indexed_block)) of Inl _ \<Rightarrow> False
   | Inr h \<Rightarrow> h \<noteq> replicate 32 3"
  by code_simp

lemma indexed_block_redo:
  "case redo_block sample_env sample_currency sample_key indexed_block sample_info sample_chain of Inl _ \<Rightarrow> False | Inr (b, _) \<Rightarrow> b"
  by code_simp


lemma indexed_block_valid:
  "valid_block_template (blk_header indexed_block)" "list_all valid_transaction (blk_transactions indexed_block)"
  "length (bt_transaction_hashes (blk_header indexed_block)) = length (blk_transactions indexed_block)"
  "bt_transaction_hashes (blk_header indexed_block) = [replicate 32 3]"
  by (simp_all add: indexed_block_def sample_template_def valid_block_template_def sample_coinbase_def sample_transaction_def
    empty_block_template_def valid_transaction_def valid_prefix_def valid_vector_def fits64_def pod32_def null_hash_def
    valid_key_input_def pod64_def sig_size_def is_base_def valid_output_def sample_key_def)

lemma redo_indexes_transactions_witness:
  "\<exists>raw base_hash t s1. redo_block sample_env sample_currency sample_key indexed_block sample_info sample_chain = Inr (True, t) \<and>
     redo_indexed_block sample_env sample_currency sample_key (to_binary enc_raw_block raw) raw indexed_block sample_info
       base_hash sample_chain = Inr (True, s1) \<and>
     (\<forall>s2. (\<forall>tid. db_get (bc_db s2) (transaction_key tid) = db_get (bc_db s1) (transaction_key tid)) \<and>
       get_chain (hi_height sample_info) s2 = Inr (hi_hash sample_info) \<and>
       db_get (bc_db s2) (block_key (hi_hash sample_info)) = Some (to_binary enc_raw_block raw) \<longrightarrow>
       debug_check_transaction_invariants sample_env raw indexed_block sample_info base_hash s2 = Inr ())"
proof -
  obtain raw where raw: "to_raw_block sample_env indexed_block = Some raw" "length (to_binary enc_raw_block raw) < 2 ^ 32"
    using indexed_block_raw by (auto split: option.splits)
  obtain bs where bs: "enc_block_template sample_env (blk_header indexed_block) = Inr bs"
    "\<And>r. dec_block_template (bs @ r) = Inr (blk_header indexed_block, r)"
    using dec_enc_block_template [OF indexed_block_valid(1)] by blast
  obtain raws where "write_transactions (blk_transactions indexed_block) = Inr raws"
    "parse_transactions raws = (True, blk_transactions indexed_block)"
    using parse_write_transactions [OF indexed_block_valid(2)] by blast
  with bs(1) bs(2) [of "[]"] raw(1) have parsed: "from_raw_block raw = (True, Some indexed_block)"
    by (auto simp: to_raw_block_def from_raw_block_def)
  obtain base_hash where base: "get_transaction_hash sample_env (bt_base_transaction (blk_header indexed_block)) = Inr base_hash"
    "base_hash \<noteq> replicate 32 3"
    using indexed_block_hash by (auto split: sum.splits)
  obtain t where t: "redo_block sample_env sample_currency sample_key indexed_block sample_info sample_chain = Inr (True, t)"
    using indexed_block_redo by (auto split: sum.splits prod.splits)
  have ok: "room (length (block_outputs indexed_block)) sample_ledger" "valid_outputs (block_outputs indexed_block)"
    "spends_in_range (block_spends indexed_block) sample_ledger"
    by (simp_all add: indexed_block_def block_outputs_def block_txs_def sample_coinbase_def sample_transaction_def sample_template_def
      room_def sample_ledger_def lg_count_def lg_push_def valid_outputs_def pod32_def sample_key_def spends_in_range_def
      block_spends_def tx_spends_def spent_by_def new_output_def)
  note R = redo_block_ok [OF sample_chain_ok t ok]
  have "same_rest empty_chain sample_chain"
    using push_same_rest [of 5 0 1 sample_key empty_chain] by (auto simp: sample_chain_def split: sum.splits)
  then have rest: "db_get (bc_db sample_chain) k = None" if "\<not> ledger_key k" for k
    using that by (simp add: same_rest_def empty_chain_def db_get_def)
  have none: "db_get (bc_db t) k = None" if "\<not> ledger_key k" "k \<noteq> block_global_indices_key sample_key" for k
    using R rest that by auto
  show ?thesis
    using redo_indexes_transactions [OF t _ parsed refl raw(2) base(1) indexed_block_valid(3)] t ledger_okD(1) [of t] R base(2) none
    by (fastforce simp: indexed_block_valid(4))
qed

end
