(* ===== verification/Chain_Switch.thy ===== *)
theory Chain_Switch
  imports Tx_Index
begin

text \<open>
  Accepting a block (\<open>BlockChain::add_block\<close>) and switching to a chain with more work
  (\<open>BlockChain::reorganize_blocks\<close>), from \<open>Core/BlockChain.cpp\<close>: the blocks above the
  common ancestor are taken back one by one, those of the other branch applied, and the
  transactions that fell out of the chain are offered to the pool again.
\<close>

section \<open>Taking blocks back\<close>

text \<open>\<open>undone_transactions\<close>: transactions with their bytes by hash; the first one stays.\<close>

type_synonym undone_map = "(hash, transaction \<times> bytes) omap"

fun collect_undone ::
  "hash list \<Rightarrow> transaction list \<Rightarrow> bytes list \<Rightarrow> nat \<Rightarrow> nat \<Rightarrow> undone_map \<Rightarrow> undone_map result" where
  "collect_undone tids txs raws i 0 undone = Inr undone"
| "collect_undone tids txs raws i (Suc n) undone =
     (if i \<ge> length tids then Inl (Out_of_range ''vector'')
      else if i \<ge> length raws then Inl (Out_of_range ''vector'')
      else collect_undone tids txs raws (i + 1) n (fst (om_insert (tids ! i) (txs ! i, raws ! i) undone)))"

text \<open>The body of the loop that goes down to the common ancestor.\<close>

definition undo_tip :: "crypto_env \<Rightarrow> currency \<Rightarrow> undone_map \<Rightarrow> chain_state \<Rightarrow> (undone_map \<times> chain_state) result" where
  "undo_tip env c undone s =
     (let msg = ''Block to undo not found or failed to convert'' @ to_hex (bc_tip_bid s) in
      res_bind (read_block (bc_tip_bid s) s) (\<lambda>r. case r of
        None \<Rightarrow> Inl (Logic_error msg)
      | Some (_, raw) \<Rightarrow>
          (case from_raw_block raw of
             (True, Some block) \<Rightarrow>
               let header = blk_header block; txs = blk_transactions block in
               res_bind (undo_indexed_block env (bc_tip_bid s) block (bc_tip_height s) s) (\<lambda>s.
               res_bind (collect_undone (bt_transaction_hashes header) txs (rb_transactions raw) 0 (length txs) undone) (\<lambda>undone.
               res_bind (pop_chain c (bh_previous_block_hash header) s) (\<lambda>s.
               res_bind (tip_changed c s) (\<lambda>s.
               Inr (undone, s)))))
           | _ \<Rightarrow> Inl (Logic_error msg))))"

partial_function (option) undo_to ::
  "crypto_env \<Rightarrow> currency \<Rightarrow> hash \<Rightarrow> undone_map \<Rightarrow> bool \<Rightarrow> chain_state \<Rightarrow> (undone_map \<times> bool \<times> chain_state) result option" where
  "undo_to env c common undone undone_blocks s =
     (if bc_tip_bid s \<noteq> common then
        (case undo_tip env c undone s of
           Inl e \<Rightarrow> Some (Inl e)
         | Inr (undone', s') \<Rightarrow> undo_to env c common undone' True s')
      else Some (Inr (undone, undone_blocks, s)))"

section \<open>Applying the other branch\<close>

definition erase_all :: "hash list \<Rightarrow> undone_map \<Rightarrow> undone_map" where
  "erase_all tids undone = fold om_erase tids undone"

text \<open>The block that has just been received, and one that is read from the database.\<close>

definition redo_recent ::
  "crypto_env \<Rightarrow> currency \<Rightarrow> prepared_block \<Rightarrow> header_info \<Rightarrow> undone_map \<Rightarrow> chain_state \<Rightarrow> (bool \<times> undone_map \<times> chain_state) result" where
  "redo_recent env c pb info undone s =
     (let header = blk_header (pp_block pb) in
      res_bind (invariant (bh_previous_block_hash header = bc_tip_bid s) ''Unexpected block prev, invariant dead'') (\<lambda>_.
      res_bind (redo_indexed_block env c (pp_bid pb) (pp_block_data pb) (pp_raw_block pb) (pp_block pb) info
        (pp_base_transaction_hash pb) s) (\<lambda>(ok, s).
      if \<not> ok then Inr (False, undone, s)
      else res_bind (push_chain c info s) (\<lambda>s. Inr (True, erase_all (bt_transaction_hashes header) undone, s)))))"

definition redo_stored ::
  "crypto_env \<Rightarrow> currency \<Rightarrow> hash \<Rightarrow> undone_map \<Rightarrow> chain_state \<Rightarrow> (bool \<times> undone_map \<times> chain_state) result" where
  "redo_stored env c chha undone s =
     res_bind (read_block chha s) (\<lambda>r. case r of
       None \<Rightarrow> Inr (False, undone, s)
     | Some (block_data, raw) \<Rightarrow>
         (case from_raw_block raw of
            (True, Some block) \<Rightarrow>
              let header = blk_header block in
              res_bind (invariant (bh_previous_block_hash header = bc_tip_bid s) ''Unexpected block prev, invariant dead'') (\<lambda>_.
              res_bind (get_header c chha 0 s) (\<lambda>(info, s).
              res_bind (get_transaction_hash env (bt_base_transaction header)) (\<lambda>base_hash.
              res_bind (redo_indexed_block env c chha block_data raw block info base_hash s) (\<lambda>(ok, s).
              if \<not> ok then Inr (False, undone, s)
              else res_bind (push_chain c info s) (\<lambda>s. Inr (True, erase_all (bt_transaction_hashes header) undone, s))))))
          | _ \<Rightarrow> Inr (False, undone, s)))"

text \<open>The loop takes \<open>chain2\<close> from its end.\<close>

fun redo_chain ::
  "crypto_env \<Rightarrow> currency \<Rightarrow> prepared_block \<Rightarrow> header_info \<Rightarrow> hash list \<Rightarrow> undone_map \<Rightarrow> chain_state \<Rightarrow>
     (bool \<times> undone_map \<times> chain_state) result" where
  "redo_chain env c pb info [] undone s = Inr (True, undone, s)"
| "redo_chain env c pb info (chha # rest) undone s =
     res_bind (if chha = pp_bid pb then redo_recent env c pb info undone s else redo_stored env c chha undone s)
       (\<lambda>(ok, undone, s). if \<not> ok then Inr (False, undone, s) else redo_chain env c pb info rest undone s)"

definition reorganize_blocks ::
  "crypto_env \<Rightarrow> currency \<Rightarrow> hash \<Rightarrow> prepared_block \<Rightarrow> header_info \<Rightarrow> chain_state \<Rightarrow> (bool \<times> chain_state) result option" where
  "reorganize_blocks env c switch_to_chain recent_pb recent_info s =
     (case get_common_block c (bc_tip_bid s) switch_to_chain s of
        None \<Rightarrow> None
      | Some (Inl e) \<Rightarrow> Some (Inl e)
      | Some (Inr (common, chain1, chain2, s)) \<Rightarrow>
          if \<not> list_all (\<lambda>bid. has_block bid s) chain2 then Some (Inr (False, s))
          else
            (case undo_to env c common [] False s of
               None \<Rightarrow> None
             | Some (Inl e) \<Rightarrow> Some (Inl e)
             | Some (Inr (undone, undone_blocks, s)) \<Rightarrow>
                 Some (res_bind (redo_chain env c recent_pb recent_info (rev chain2) undone s) (\<lambda>(ok, undone, s).
                   res_bind (on_reorganization env c undone undone_blocks s) (\<lambda>s. Inr (ok, s))))))"

section \<open>Accepting a block\<close>

datatype broadcast_action = BROADCAST_ALL | NOTHING | BAN

text \<open>
  The block is added and the answer returned, an exception leaves the function, or the process
  ends because one was raised after the first change to the database.
\<close>

datatype add_block_result =
    Added broadcast_action header_info chain_state
  | Thrown exn
  | Exited exn

definition COMMIT_EVERY_N_BLOCKS :: nat where
  "COMMIT_EVERY_N_BLOCKS = 50000"

text \<open>\<open>db_commit\<close>, as far as the node can see it.\<close>

definition db_commit :: "chain_state \<Rightarrow> chain_state" where
  "db_commit s = s\<lparr>bc_header_cache := []\<rparr>"

text \<open>The first part of the \<open>try\<close> block: the block and its header enter the tree.\<close>

definition enter_tree ::
  "crypto_env \<Rightarrow> currency \<Rightarrow> prepared_block \<Rightarrow> header_info \<Rightarrow> header_info \<Rightarrow> bool \<Rightarrow> chain_state \<Rightarrow> chain_state result" where
  "enter_tree env c pb info prev_info have_block s =
     (let bid = pp_bid pb in
      res_bind (if \<not> have_block then store_block bid (pp_block_data pb) s else Inr s) (\<lambda>s.
      res_bind (store_header bid info s) (\<lambda>s.
      res_bind (if bid = bc_genesis_bid s then
          res_bind (redo_indexed_block env c bid (pp_block_data pb) (pp_raw_block pb) (pp_block pb) info
            (pp_base_transaction_hash pb) s) (\<lambda>(ok, s).
          res_bind (invariant ok ''Failed to apply genesis block'') (\<lambda>_.
          push_chain c info s))
        else modify_children_counter (hi_cumulative_difficulty prev_info)
          (bh_previous_block_hash (blk_header (pp_block pb))) 1 s) (\<lambda>s.
      res_bind (check_children_counter (hi_cumulative_difficulty info) bid 1 s) (\<lambda>_.
      modify_children_counter (hi_cumulative_difficulty info) bid (- 1) s)))))"

text \<open>The second part: whether the block was refused, and the state.\<close>

definition move_tip ::
  "crypto_env \<Rightarrow> currency \<Rightarrow> prepared_block \<Rightarrow> header_info \<Rightarrow> chain_state \<Rightarrow> (bool \<times> chain_state) result option" where
  "move_tip env c pb info s =
     (if hi_cumulative_difficulty info > bc_tip_cumulative_difficulty s then
        (if bc_tip_bid s = bh_previous_block_hash (blk_header (pp_block pb)) then
           Some (res_bind (redo_indexed_block env c (pp_bid pb) (pp_block_data pb) (pp_raw_block pb) (pp_block pb) info
               (pp_base_transaction_hash pb) s) (\<lambda>(ok, s).
             if \<not> ok then Inr (True, s) else res_bind (push_chain c info s) (\<lambda>s. Inr (False, s))))
         else
           (case reorganize_blocks env c (pp_bid pb) pb info s of
              None \<Rightarrow> None
            | Some (Inl e) \<Rightarrow> Some (Inl e)
            | Some (Inr (_, s)) \<Rightarrow> Some (Inr (False, s))))
      else Some (Inr (False, s)))"

definition add_checked_block ::
  "crypto_env \<Rightarrow> currency \<Rightarrow> prepared_block \<Rightarrow> header_info \<Rightarrow> header_info \<Rightarrow> bool \<Rightarrow> chain_state \<Rightarrow> add_block_result option" where
  "add_checked_block env c pb info prev_info have_block s =
     (case enter_tree env c pb info prev_info have_block s of
        Inl e \<Rightarrow> Some (Exited e)
      | Inr s \<Rightarrow>
          (case move_tip env c pb info s of
             None \<Rightarrow> None
           | Some (Inl e) \<Rightarrow> Some (Exited e)
           | Some (Inr (True, s)) \<Rightarrow> Some (Added BAN info s)
           | Some (Inr (False, s)) \<Rightarrow>
               let s = (if unat (bc_tip_height s) mod COMMIT_EVERY_N_BLOCKS = COMMIT_EVERY_N_BLOCKS - 1
                     then db_commit s else s)
               in Some (Added (if hi_hash info = bc_tip_bid s then BROADCAST_ALL else NOTHING) info s)))"

text \<open>The members of the header that come from the block and its parent.\<close>

definition start_header :: "prepared_block \<Rightarrow> header_info \<Rightarrow> header_info \<Rightarrow> header_info" where
  "start_header pb prev_info info =
     (let header = blk_header (pp_block pb) in
      info\<lparr>hi_major_version := bh_major_version header, hi_minor_version := bh_minor_version header,
        hi_timestamp := bh_timestamp header, hi_previous_block_hash := bh_previous_block_hash header,
        hi_nonce := bh_nonce header, hi_hash := pp_bid pb, hi_height := hi_height prev_info + 1\<rparr>)"

definition add_block ::
  "crypto_env \<Rightarrow> currency \<Rightarrow> timestamp \<Rightarrow> prepared_block \<Rightarrow> chain_state \<Rightarrow> add_block_result option" where
  "add_block env c now pb s =
     (case read_header c (pp_bid pb) 0 s of
        Inl e \<Rightarrow> Some (Thrown e)
      | Inr (stored, s) \<Rightarrow>
          let have_block = has_block (pp_bid pb) s;
              info = (case stored of None \<Rightarrow> empty_header_info | Some h \<Rightarrow> h);
              prev_bid = bh_previous_block_hash (blk_header (pp_block pb))
          in
          if have_block \<and> stored \<noteq> None then Some (Added NOTHING info s)
          else
          (case (if pp_bid pb \<noteq> bc_genesis_bid s then read_header c prev_bid 0 s
                 else Inr (Some (empty_header_info\<lparr>hi_height := - 1\<rparr>), s)) of
             Inl e \<Rightarrow> Some (Thrown e)
           | Inr (None, s) \<Rightarrow> Some (Added NOTHING info s)
           | Inr (Some prev_info, s) \<Rightarrow>
               (case check_standalone_consensus env c now pb (start_header pb prev_info info) prev_info True s of
                  Inl e \<Rightarrow> Some (Thrown e)
                | Inr (e, info, s) \<Rightarrow>
                    if e \<noteq> [] then Some (Added BAN info s)
                    else add_checked_block env c pb info prev_info have_block s)))"

end
