(* ===== verification/Node_Frame.thy ===== *)
theory Node_Frame
  imports Chain_Switch Pool_Rules
begin

text \<open>
  What the operations on the ledger, the index and the pool leave alone: the tip, the window and
  the cache of headers change only with the chain itself, the database only with the ledger and
  the index.
\<close>

section \<open>The members of the tip\<close>

definition same_tip :: "chain_state \<Rightarrow> chain_state \<Rightarrow> bool" where
  "same_tip s s' \<longleftrightarrow> bc_genesis_bid s' = bc_genesis_bid s \<and> bc_tip_bid s' = bc_tip_bid s \<and>
     bc_tip_cumulative_difficulty s' = bc_tip_cumulative_difficulty s \<and> bc_tip_height s' = bc_tip_height s \<and>
     bc_header_cache s' = bc_header_cache s \<and> bc_header_tip_window s' = bc_header_tip_window s"

lemma same_tip_refl [simp]: "same_tip s s"
  by (simp add: same_tip_def)

lemma same_tip_trans [trans]: "same_tip s t \<Longrightarrow> same_tip t u \<Longrightarrow> same_tip s u"
  by (simp add: same_tip_def)

lemma same_tip_db [simp]: "same_tip s (s\<lparr>bc_db := db\<rparr>)"
  by (simp add: same_tip_def)

lemma same_tip_of_pool: "same_but_pool s s' \<Longrightarrow> same_tip s s'"
  by (simp add: same_tip_def same_but_pool_def)

named_theorems tip_frames "operations that keep the members of the tip"

lemma res_fold_same_tip:
  assumes "\<And>x s s'. f x s = Inr s' \<Longrightarrow> same_tip s s'"
  shows "res_fold f xs s = Inr s' \<Longrightarrow> same_tip s s'"
proof (induction xs arbitrary: s)
  case (Cons x xs)
  then show ?case using assms same_tip_trans by (fastforce simp: res_bind_eq_Inr)
qed simp

section \<open>The pool\<close>

lemma remove_from_pool_frame: "remove_from_pool tid s = Inr s' \<Longrightarrow> same_but_pool s s'"
  by (auto simp: remove_from_pool_def res_bind_eq_Inr Let_def same_but_pool_def split: option.splits prod.splits if_splits)

lemma displace_conflicts_frame: "displace_conflicts tid fee kis s = Inr (b, s') \<Longrightarrow> same_but_pool s s'"
proof (induction tid fee kis s rule: displace_conflicts.induct)
  case (2 tid fee k h kis s)
  then show ?case
    by (auto simp: res_bind_eq_Inr split: option.splits if_splits dest!: remove_from_pool_frame intro: same_but_pool_trans)
qed simp

lemma trim_pool_frame: "trim_pool s = Inr s' \<Longrightarrow> same_but_pool s s'"
proof (induction s rule: trim_pool.induct)
  case (1 s)
  note IH = 1(1)
  show ?case
  proof (cases "cs_memory_state_total_size s > MAX_POOL_SIZE")
    case True
    with 1(2) obtain fee txs more rhash u rest t where c: "cs_memory_state_fee_tx s = (fee, txs) # more" "txs = (rhash, u) # rest"
      "pool_at rhash s = Inr t"
      by (auto simp: trim_pool.simps [of s] split: list.splits sum.splits prod.splits)
    show ?thesis
    proof (cases "cs_memory_state_total_size s < MAX_POOL_SIZE + word_of_nat (length (pt_binary_tx t))")
      case lt: True
      with 1(2) True c show ?thesis by (simp add: trim_pool.simps [of s])
    next
      case False
      with 1(2) True c obtain s1 where s1: "remove_from_pool rhash s = Inr s1" "trim_pool s1 = Inr s'"
        by (auto simp: trim_pool.simps [of s] split: sum.splits)
      from IH [OF True c(1) _ c(2) _ c(3) False s1(1,2)] show ?thesis
        using remove_from_pool_frame [OF s1(1)] same_but_pool_trans by blast
    qed
  qed (use 1(2) in \<open>simp add: trim_pool.simps [of s]\<close>)
qed

lemma insert_in_pool_frame: "insert_in_pool tid t fee kis s = Inr s' \<Longrightarrow> same_but_pool s s'"
  by (auto simp: insert_in_pool_def res_bind_eq_Inr Let_def same_but_pool_def split: prod.splits)

lemma admit_transaction_frame: "admit_transaction tid t fee kis s = Inr (r, s') \<Longrightarrow> same_but_pool s s'"
  by (auto simp: admit_transaction_def res_bind_eq_Inr same_but_pool_def simp del: trim_pool.simps split: if_splits
    dest!: displace_conflicts_frame insert_in_pool_frame trim_pool_frame)

definition keeps :: "chain_state \<Rightarrow> ('a \<times> 'b \<times> chain_state) result \<Rightarrow> bool" where
  "keeps s m \<longleftrightarrow> (\<forall>r h s'. m = Inr (r, h, s') \<longrightarrow> same_but_pool s s')"

lemma keeps_Inl: "keeps s (Inl e)"
  by (simp add: keeps_def)

lemma keeps_Inr: "same_but_pool s s' \<Longrightarrow> keeps s (Inr (r, h, s'))"
  by (simp add: keeps_def)

lemma keeps_if: "keeps s x \<Longrightarrow> keeps s y \<Longrightarrow> keeps s (if b then x else y)"
  by simp

lemma keeps_bind: "(\<And>x. keeps s (f x)) \<Longrightarrow> keeps s (res_bind m f)"
  by (auto simp: keeps_def res_bind_eq_Inr)

lemma keeps_option: "keeps s x \<Longrightarrow> (\<And>y. keeps s (f y)) \<Longrightarrow> keeps s (case z of None \<Rightarrow> x | Some y \<Rightarrow> f y)"
  by (cases z) simp_all

lemma keeps_sum: "(\<And>e. keeps s (g e)) \<Longrightarrow> (\<And>y. keeps s (f y)) \<Longrightarrow> keeps s (case z of Inl e \<Rightarrow> g e | Inr y \<Rightarrow> f y)"
  by (cases z) simp_all

lemma keeps_prod: "(\<And>a b. keeps s (f a b)) \<Longrightarrow> keeps s (case z of (a, b) \<Rightarrow> f a b)"
  by (cases z) simp

lemmas keeps_rules = keeps_Inl keeps_Inr keeps_if keeps_option keeps_sum keeps_prod keeps_bind same_but_pool_refl

lemma add_transaction_at_keeps: "keeps s (add_transaction_at env c tid tx bin h t conflict check s)"
proof -
  have admit: "keeps s (res_bind (admit_transaction tid u fee kis s) (\<lambda>(r, s). Inr (r, conflict', s)))" for u fee kis and conflict' :: height
    by (auto simp: keeps_def res_bind_eq_Inr dest: admit_transaction_frame)
  show ?thesis
    unfolding add_transaction_at_def Let_def by (intro admit keeps_rules)
qed

lemma add_transaction_frame: "add_transaction env c tid tx bin conflict s = Inr (r, h, s') \<Longrightarrow> same_but_pool s s'"
  using add_transaction_at_keeps by (auto simp: add_transaction_def res_bind_eq_Inr keeps_def)

lemma readd_transactions_frame: "readd_transactions env c txs conflict s = Inr (h, s') \<Longrightarrow> same_but_pool s s'"
proof (induction env c txs conflict s rule: readd_transactions.induct)
  case (2 env c tid tx bin txs conflict s)
  then show ?case by (auto simp: res_bind_eq_Inr dest!: add_transaction_frame intro: same_but_pool_trans)
qed simp

lemma on_reorganization_frame:
  assumes "on_reorganization env c undone b s = Inr s'"
  shows "same_but_pool s s'"
proof -
  from assms obtain h t h' u where t: "(if b then readd_transactions env c
      (map (\<lambda>(tid, t). (tid, pt_tx t, pt_binary_tx t)) (cs_memory_state_tx s)) 0 (clear_pool s) else Inr (0, s)) = Inr (h, t)"
    "readd_transactions env c undone h t = Inr (h', u)" "s' = u\<lparr>cs_tx_pool_version := 2\<rparr>"
    unfolding on_reorganization_def by (auto simp: res_bind_eq_Inr)
  have "same_but_pool s (clear_pool s)" by (rule clear_pool_ok(3))
  with t(1) have "same_but_pool s t" using readd_transactions_frame same_but_pool_trans by (auto split: if_splits)
  from same_but_pool_trans [OF this readd_transactions_frame [OF t(2)]] show ?thesis by (simp add: t(3) same_but_pool_def)
qed

section \<open>The ledger\<close>

lemma store_keyimage_frame [tip_frames]: "store_keyimage k h s = Inr s' \<Longrightarrow> same_tip s s'"
  using same_tip_trans [OF same_tip_db same_tip_of_pool [OF remove_from_pool_frame]]
  by (auto simp: store_keyimage_def res_bind_eq_Inr Let_def split: option.splits)

lemma delete_keyimage_frame [tip_frames]: "delete_keyimage k s = Inr s' \<Longrightarrow> same_tip s s'"
  by (auto simp: delete_keyimage_def res_bind_eq_Inr)

lemma next_global_index_frame: "next_global_index_for_amount a s = Inr (n, s') \<Longrightarrow> same_tip s s'"
  by (auto simp: next_global_index_for_amount_def res_bind_eq_Inr same_tip_def split: option.splits)

lemma push_amount_output_frame [tip_frames]: "push_amount_output a t h pk s = Inr (g, s') \<Longrightarrow> same_tip s s'"
  by (auto simp: push_amount_output_def res_bind_eq_Inr Let_def dest!: next_global_index_frame simp: same_tip_def)

lemma pop_amount_output_frame [tip_frames]: "pop_amount_output a t pk s = Inr s' \<Longrightarrow> same_tip s s'"
  by (auto simp: pop_amount_output_def res_bind_eq_Inr Let_def split: option.splits dest!: next_global_index_frame simp: same_tip_def)

lemma spend_output_frame [tip_frames]: "spend_output a g b s = Inr s' \<Longrightarrow> same_tip s s'"
  by (auto simp: spend_output_def res_bind_eq_Inr split: option.splits)

lemma apply_delta_frame: "apply_delta chain_ops d s = Inr s' \<Longrightarrow> same_tip s s'"
  unfolding apply_delta_def res_bind_eq_Inr
  by (auto simp: chain_ops_def res_bind_eq_Inr dest!: res_fold_same_tip [rotated] simp: tip_frames
    intro: same_tip_trans)

lemma undo_outputs_frame: "undo_outputs t outs s = Inr s' \<Longrightarrow> same_tip s s'"
  by (induction t outs s rule: undo_outputs.induct) (auto simp: res_bind_eq_Inr dest!: tip_frames intro: same_tip_trans)

lemma undo_inputs_frame: "undo_inputs ins s = Inr s' \<Longrightarrow> same_tip s s'"
  by (induction ins s rule: undo_inputs.induct)
    (auto simp: res_bind_eq_Inr split: if_splits dest!: tip_frames intro: same_tip_trans)

lemma undo_transaction_frame: "undo_transaction tx s = Inr s' \<Longrightarrow> same_tip s s'"
  by (auto simp: undo_transaction_def res_bind_eq_Inr dest!: undo_outputs_frame undo_inputs_frame intro: same_tip_trans)

lemma undo_block_frame: "undo_block bhash b h s = Inr s' \<Longrightarrow> same_tip s s'"
proof -
  assume "undo_block bhash b h s = Inr s'"
  then obtain t u db where t: "res_fold undo_transaction (rev (blk_transactions b)) s = Inr t"
    "undo_transaction (bt_base_transaction (blk_header b)) t = Inr u" "s' = u\<lparr>bc_db := db\<rparr>"
    by (auto simp: undo_block_def res_bind_eq_Inr)
  have "same_tip s u" using res_fold_same_tip [OF undo_transaction_frame t(1)] undo_transaction_frame [OF t(2)]
    by (rule same_tip_trans)
  then show ?thesis by (simp add: t(3) same_tip_def)
qed

lemma redo_block_frame:
  assumes "redo_block env c bhash b info s = Inr (ok, s')"
  shows "same_tip s s'" "\<not> ok \<Longrightarrow> s' = s"
  using assms by (auto simp: redo_block_def res_bind_eq_Inr Let_def split: if_splits dest!: apply_delta_frame simp: same_tip_def)

end
