(* ===== verification/Node_State.thy ===== *)
theory Node_State
  imports Node_Frame
begin

text \<open>
  The invariant of the whole node state: the current chain is a path of the tree, the tree has
  all its blocks, the ledger in the database is the one the blocks of the chain give, applied
  from the genesis block on, and the index of transactions lists exactly where they are.
\<close>

section \<open>Stored blocks\<close>

text \<open>The block \<open>b\<close> is stored as the bytes \<open>d\<close> of \<open>raw\<close>.\<close>

definition stored :: "chain_state \<Rightarrow> hash \<Rightarrow> bytes \<Rightarrow> raw_block \<Rightarrow> block \<Rightarrow> bool" where
  "stored s bid d raw b \<longleftrightarrow> db_get (bc_db s) (block_key bid) = Some d \<and> length d < 2 ^ 32 \<and>
     from_binary dec_raw_block d = Inr raw \<and> from_raw_block raw = (True, Some b)"

definition stored_block :: "chain_state \<Rightarrow> hash \<Rightarrow> block option" where
  "stored_block s bid =
     (case db_get (bc_db s) (block_key bid) of
        None \<Rightarrow> None
      | Some d \<Rightarrow> (case from_binary dec_raw_block d of
            Inl _ \<Rightarrow> None
          | Inr raw \<Rightarrow> if fst (from_raw_block raw) then snd (from_raw_block raw) else None))"

lemma stored_block_eq: "stored s bid d raw b \<Longrightarrow> stored_block s bid = Some b"
  by (simp add: stored_def stored_block_def)

lemma stored_read: "stored s bid d raw b \<Longrightarrow> read_block bid s = Inr (Some (d, raw))"
  by (simp add: stored_def read_block_def)

lemma stored_data: "stored s bid d raw b \<Longrightarrow> d = to_binary enc_raw_block raw"
  by (simp add: stored_def raw_block.from_binary_iff)

text \<open>A block of the tree: its header is the one of the stored block.\<close>

definition tree_block :: "crypto_env \<Rightarrow> chain_state \<Rightarrow> hash \<Rightarrow> header_info \<Rightarrow> bool" where
  "tree_block env s bid h \<longleftrightarrow> pod32 bid \<and> (\<exists>d raw b base_hash. stored s bid d raw b \<and>
     bh_previous_block_hash (blk_header b) = hi_previous_block_hash h \<and> bh_timestamp (blk_header b) = hi_timestamp h \<and>
     length (bt_transaction_hashes (blk_header b)) = length (blk_transactions b) \<and>
     get_transaction_hash env (bt_base_transaction (blk_header b)) = Inr base_hash)"

section \<open>The ledger of a chain\<close>

definition empty_ledger :: ledger where
  "empty_ledger = \<lparr>lg_keyimages = (\<lambda>_. None), lg_outputs = (\<lambda>_. [])\<rparr>"

text \<open>The ledger after the blocks of a chain, each at its height.\<close>

definition ledger_of :: "(hash \<Rightarrow> block option) \<Rightarrow> hash list \<Rightarrow> ledger" where
  "ledger_of B C = fold (\<lambda>(i, bid) L. case B bid of None \<Rightarrow> L | Some b \<Rightarrow> lg_block (word_of_nat i) b L)
     (enumerate 0 C) empty_ledger"

lemma ledger_of_Nil [simp]: "ledger_of B [] = empty_ledger"
  by (simp add: ledger_of_def)

lemma ledger_of_snoc:
  "ledger_of B (C @ [x]) = (case B x of None \<Rightarrow> ledger_of B C | Some b \<Rightarrow> lg_block (word_of_nat (length C)) b (ledger_of B C))"
  by (simp add: ledger_of_def enumerate_append_eq split: option.split)

lemma ledger_of_cong: "(\<And>x. x \<in> set C \<Longrightarrow> B x = B' x) \<Longrightarrow> ledger_of B C = ledger_of B' C"
proof (induction C rule: rev_induct)
  case (snoc x C)
  then show ?case by (simp add: ledger_of_snoc split: option.split)
qed simp

text \<open>
  What must hold of a block for its effect to be undone: its inputs are new to the ledger.  And
  what the ledger relies on, that the checks of signatures and formats are to guarantee.
\<close>

definition block_sound :: "ledger \<Rightarrow> block \<Rightarrow> bool" where
  "block_sound L b \<longleftrightarrow> room (length (block_outputs b)) L \<and> valid_outputs (block_outputs b) \<and> coinbase_block b \<and>
     fresh_spends (block_spends b) L"

definition chain_fresh :: "(hash \<Rightarrow> block option) \<Rightarrow> hash list \<Rightarrow> bool" where
  "chain_fresh B C \<longleftrightarrow> (\<forall>i < length C. \<exists>b. B (C ! i) = Some b \<and>
     fresh_inputs (block_inputs b) (ledger_of B (take i C)))"

lemma chain_fresh_snoc:
  "chain_fresh B (C @ [x]) \<longleftrightarrow> chain_fresh B C \<and>
     (\<exists>b. B x = Some b \<and> fresh_inputs (block_inputs b) (ledger_of B C))"
  by (auto simp: chain_fresh_def nth_append less_Suc_eq)

lemma chain_fresh_cong: "(\<And>x. x \<in> set C \<Longrightarrow> B x = B' x) \<Longrightarrow> chain_fresh B C \<longleftrightarrow> chain_fresh B' C"
proof -
  assume B: "\<And>x. x \<in> set C \<Longrightarrow> B x = B' x"
  have "ledger_of B (take i C) = ledger_of B' (take i C)" for i using B by (intro ledger_of_cong) (meson in_set_takeD)
  then show ?thesis using B by (simp add: chain_fresh_def)
qed

section \<open>The index of a block\<close>

definition block_indexed :: "crypto_env \<Rightarrow> chain_state \<Rightarrow> nat \<Rightarrow> hash \<Rightarrow> bool" where
  "block_indexed env s i bid \<longleftrightarrow> (\<exists>d raw b base_hash coinbase. stored s bid d raw b \<and>
     get_transaction_hash env (bt_base_transaction (blk_header b)) = Inr base_hash \<and>
     enc_transaction (bt_base_transaction (blk_header b)) = Inr coinbase \<and>
     db_get (bc_db s) (timestamp_block_key (bh_timestamp (blk_header b)) (word_of_nat i)) \<noteq> None \<and>
     (\<forall>j < length (block_tids base_hash b). \<exists>v. db_get (bc_db s) (transaction_key (block_tids base_hash b ! j)) = Some v \<and>
        tx_record d (word_of_nat i) ((coinbase # rb_transactions raw) ! j) j v))"

section \<open>The invariant\<close>

definition node_ok :: "crypto_env \<Rightarrow> chain_state \<Rightarrow> hash list \<Rightarrow> bool" where
  "node_ok env s C \<longleftrightarrow> chain_ok s C \<and> index_ok s \<and> (\<forall>bid h. header_of s bid = Some h \<longrightarrow> tree_block env s bid h) \<and>
     ledger_ok s (ledger_of (stored_block s) C) \<and> chain_fresh (stored_block s) C \<and>
     (\<forall>bid. db_get (bc_db s) (block_global_indices_key bid) \<noteq> None \<longleftrightarrow> bid \<in> set C) \<and>
     (\<forall>i < length C. block_indexed env s i (C ! i))"

lemma node_okD:
  assumes "node_ok env s C"
  shows "chain_ok s C" "index_ok s" "header_of s bid = Some h \<Longrightarrow> tree_block env s bid h"
    "ledger_ok s (ledger_of (stored_block s) C)" "chain_fresh (stored_block s) C"
    "db_get (bc_db s) (block_global_indices_key bid) \<noteq> None \<longleftrightarrow> bid \<in> set C"
    "i < length C \<Longrightarrow> block_indexed env s i (C ! i)"
  using assms unfolding node_ok_def by blast+

section \<open>Changes outside the tree\<close>

definition tree_key :: "bytes \<Rightarrow> bool" where
  "tree_key k \<longleftrightarrow> (\<exists>b. k = header_key b \<or> k = block_key b \<or> k = children_key b) \<or> (\<exists>r. k = CD_TIPS_PREFIX @ r)"

lemma tree_keyI [simp]:
  "tree_key (header_key b)" "tree_key (block_key b)" "tree_key (children_key b)" "tree_key (CD_TIPS_PREFIX @ r)"
  "tree_key (cd_tips_key cd b)"
  by (auto simp: tree_key_def cd_tips_key_def)

lemma not_tree_key [simp]:
  "\<not> tree_key (tip_chain_key h)" "\<not> tree_key (transaction_key b)" "\<not> tree_key (timestamp_block_key x h)"
  "\<not> tree_key (block_global_indices_key b)"
  by (simp_all add: tree_key_def key_defs transaction_key_def TRANSATION_PREFIX_def block_global_indices_key_def
    BLOCK_GLOBAL_INDICES_PREFIX_def BLOCK_GLOBAL_INDICES_SUFFIX_def)

lemma tree_key_not_ledger: "tree_key k \<Longrightarrow> \<not> ledger_key k"
  by (auto simp: tree_key_def ledger_key_def KEYIMAGE_PREFIX_def AMOUNT_OUTPUT_PREFIX_def CD_TIPS_PREFIX_def
    header_key_def block_key_def children_key_def HEADER_PREFIX_def BLOCK_PREFIX_def CHILDREN_PREFIX_def)

text \<open>The tree is the same: its headers, blocks, counters and leaves.\<close>

definition same_tree :: "chain_state \<Rightarrow> chain_state \<Rightarrow> bool" where
  "same_tree s s' \<longleftrightarrow> bc_genesis_bid s' = bc_genesis_bid s \<and> (\<forall>k. tree_key k \<longrightarrow> db_get (bc_db s') k = db_get (bc_db s) k)"

lemma same_tree_refl [simp]: "same_tree s s"
  by (simp add: same_tree_def)

lemma same_tree_trans: "same_tree s t \<Longrightarrow> same_tree t u \<Longrightarrow> same_tree s u"
  by (simp add: same_tree_def)

lemma same_treeD:
  assumes "same_tree s s'"
  shows "header_of s' = header_of s" "stored s' = stored s" "stored_block s' = stored_block s"
    "tree_block env s' = tree_block env s" "has_block bid s' = has_block bid s"
    "bc_genesis_bid s' = bc_genesis_bid s"
  using assms by (simp_all add: same_tree_def header_of_def stored_def stored_block_def tree_block_def has_block_def fun_eq_iff)

lemma index_ok_same: "index_ok s \<Longrightarrow> same_tree s s' \<Longrightarrow> index_ok s'"
  by (simp add: index_ok_def same_treeD(1) children_counter_def) (simp add: same_tree_def)

lemma chain_ok_same:
  assumes "chain_ok s C" "same_tip s s'" "same_tree s s'" "om_wf (bc_db s')"
    and "\<And>h. db_get (bc_db s') (tip_chain_key h) = db_get (bc_db s) (tip_chain_key h)"
  shows "chain_ok s' C"
proof -
  have H: "header_of s' = header_of s" by (rule same_treeD(1) [OF assms(3)])
  have tip: "bc_tip_bid s' = bc_tip_bid s" "bc_tip_height s' = bc_tip_height s" "bc_header_tip_window s' = bc_header_tip_window s"
    "bc_tip_cumulative_difficulty s' = bc_tip_cumulative_difficulty s" "bc_header_cache s' = bc_header_cache s"
    "bc_genesis_bid s' = bc_genesis_bid s"
    using assms(2) unfolding same_tip_def by blast+
  have K: "db_get (bc_db s') (header_key bid) = db_get (bc_db s) (header_key bid)" for bid
    using assms(3) by (simp add: same_tree_def)
  have "headers_ok s'"
    using chain_okD(1) [OF assms(1)] assms(4) unfolding headers_ok_def H K tip by blast
  moreover have "tree_ok s'" using tree_ok_same [OF chain_okD(2) [OF assms(1)] H tip(6)] .
  ultimately show ?thesis using assms(1) unfolding chain_ok_def H tip assms(5) by blast
qed

text \<open>Members of the cache, the pool and the next block's medians do not matter.\<close>

lemma node_ok_cache:
  assumes "node_ok env s C" "headers_ok (s\<lparr>bc_header_cache := cache\<rparr>)"
  shows "node_ok env (s\<lparr>bc_header_cache := cache\<rparr>) C"
proof -
  let ?s = "s\<lparr>bc_header_cache := cache\<rparr>"
  have tr: "same_tree s ?s" by (simp add: same_tree_def)
  have "ledger_ok ?s L = ledger_ok s L" for L by (simp add: ledger_ok_def)
  moreover have "block_indexed env ?s = block_indexed env s"
    by (simp add: block_indexed_def fun_eq_iff same_treeD [OF tr])
  moreover have "chain_ok ?s C" using chain_ok_cache [OF node_okD(1) [OF assms(1)] assms(2)] .
  ultimately show ?thesis
    using assms(1) index_ok_same [OF node_okD(2) [OF assms(1)] tr] by (simp add: node_ok_def same_treeD [OF tr])
qed

lemma node_ok_pool:
  assumes "node_ok env s C" "same_but_pool s s'"
  shows "node_ok env s' C"
proof -
  have tr: "same_tree s s'" and tip: "same_tip s s'" and db: "bc_db s' = bc_db s"
    using assms(2) by (simp_all add: same_tree_def same_tip_def same_but_pool_def)
  have "chain_ok s' C"
    by (rule chain_ok_same [OF node_okD(1) [OF assms(1)] tip tr])
      (use headers_okD(1) [OF chain_okD(1) [OF node_okD(1) [OF assms(1)]]] in \<open>simp_all add: db\<close>)
  moreover have "block_indexed env s' = block_indexed env s"
    by (simp add: block_indexed_def fun_eq_iff same_treeD [OF tr] db)
  ultimately show ?thesis
    using assms(1) index_ok_same [OF node_okD(2) [OF assms(1)] tr] ledger_ok_same_but_pool [OF assms(2)]
    by (simp add: node_ok_def same_treeD [OF tr] db)
qed

end
