(* ===== verification/Node_Moves.thy ===== *)
theory Node_Moves
  imports Node_State
begin

text \<open>
  One step down and one step up the chain keep the invariant of the node: taking the tip back
  with its effect on the ledger and the index, and applying the next block.
\<close>

section \<open>Deleting records\<close>

lemma delete_transactions_ok:
  "om_wf (bc_db s) \<Longrightarrow> i + n \<le> length tids \<Longrightarrow> distinct (drop i tids) \<Longrightarrow>
     (\<And>j. i \<le> j \<Longrightarrow> j < i + n \<Longrightarrow> db_get (bc_db s) (transaction_key (tids ! j)) \<noteq> None) \<Longrightarrow>
   \<exists>db. delete_transactions tids i n s = Inr (s\<lparr>bc_db := db\<rparr>) \<and> om_wf db \<and>
     (\<forall>key. db_get db key = (if key \<in> transaction_key ` set (take n (drop i tids)) then None else db_get (bc_db s) key))"
proof (induction n arbitrary: i s)
  case 0
  then show ?case by (intro exI [of _ "bc_db s"]) simp
next
  case (Suc n)
  let ?k = "transaction_key (tids ! i)"
  from Suc.prems(4) [of i] obtain db where del: "db_del (bc_db s) ?k True = Inr db" by (auto simp: db_del_def)
  note get = db_get_del [OF Suc.prems(1) del]
  have i: "i < length tids" "drop i tids = tids ! i # drop (i + 1) tids"
    using Suc.prems(2) by (simp_all add: Cons_nth_drop_Suc)
  have d: "distinct (drop (i + 1) tids)" "tids ! i \<notin> set (drop (i + 1) tids)"
    using Suc.prems(3) unfolding i(2) by simp_all
  have "tids ! j \<noteq> tids ! i" if "i + 1 \<le> j" "j < i + 1 + n" for j
  proof -
    have "tids ! j = drop (i + 1) tids ! (j - (i + 1))" "j - (i + 1) < length (drop (i + 1) tids)"
      using that Suc.prems(2) by simp_all
    then show ?thesis using d(2) by (metis nth_mem)
  qed
  then have "\<exists>db'. delete_transactions tids (i + 1) n (s\<lparr>bc_db := db\<rparr>) = Inr (s\<lparr>bc_db := db\<rparr>\<lparr>bc_db := db'\<rparr>) \<and> om_wf db' \<and>
     (\<forall>key. db_get db' key = (if key \<in> transaction_key ` set (take n (drop (i + 1) tids)) then None
        else db_get (bc_db (s\<lparr>bc_db := db\<rparr>)) key))"
    using Suc.prems d(1) om_wf_del [OF Suc.prems(1) del] by (intro Suc.IH) (auto simp: get)
  then show ?case using del i by (auto simp: get)
qed

section \<open>The records of a block\<close>

lemma block_tids_length:
  "length (bt_transaction_hashes (blk_header b)) = length (blk_transactions b) \<Longrightarrow>
     block_tids base_hash b = base_hash # bt_transaction_hashes (blk_header b)"
  by (simp add: block_tids_def)

lemma unat_height: "chain_ok s C \<Longrightarrow> i < length C \<Longrightarrow> unat (word_of_nat i :: u32) = i"
  using chain_okD(4) [of s C] by (simp add: unat_u32_of_nat)

lemma tx_record_same:
  assumes "tx_record d h bin i v" "tx_record d' h' bin' i' v"
  shows "h = h' \<and> (word_of_nat i :: u32) = word_of_nat i'"
proof -
  let ?p = "\<lambda>h pos bin i. \<lparr>tp_height = h, tp_offset = word_of_nat pos, tp_size = word_of_nat (length bin), tp_index = word_of_nat i\<rparr>"
  obtain pos pos' where "v = to_binary enc_transaction_pos (?p h pos bin i)" "v = to_binary enc_transaction_pos (?p h' pos' bin' i')"
    using assms unfolding tx_record_def by blast
  then have "(Inr (?p h pos bin i) :: transaction_pos result) = Inr (?p h' pos' bin' i')"
    unfolding transaction_pos.from_binary_iff [THEN iffD2, OF conjI, OF TrueI, symmetric]
    using transaction_pos.from_binary_iff by metis
  then show ?thesis by simp
qed

text \<open>What the invariant says of one block of the chain, with the names of its parts.\<close>

lemma block_indexedD:
  assumes "block_indexed env s i bid" "stored s bid d raw b"
  obtains base_hash coinbase where
    "get_transaction_hash env (bt_base_transaction (blk_header b)) = Inr base_hash"
    "enc_transaction (bt_base_transaction (blk_header b)) = Inr coinbase"
    "db_get (bc_db s) (timestamp_block_key (bh_timestamp (blk_header b)) (word_of_nat i)) \<noteq> None"
    "\<And>j. j < length (block_tids base_hash b) \<Longrightarrow> \<exists>v. db_get (bc_db s) (transaction_key (block_tids base_hash b ! j)) = Some v \<and>
       tx_record d (word_of_nat i) ((coinbase # rb_transactions raw) ! j) j v"
proof -
  from assms(1) obtain d' raw' b' base_hash coinbase where r: "stored s bid d' raw' b'"
    "get_transaction_hash env (bt_base_transaction (blk_header b')) = Inr base_hash"
    "enc_transaction (bt_base_transaction (blk_header b')) = Inr coinbase"
    "db_get (bc_db s) (timestamp_block_key (bh_timestamp (blk_header b')) (word_of_nat i)) \<noteq> None"
    "\<And>j. j < length (block_tids base_hash b') \<Longrightarrow> \<exists>v. db_get (bc_db s) (transaction_key (block_tids base_hash b' ! j)) = Some v \<and>
       tx_record d' (word_of_nat i) ((coinbase # rb_transactions raw') ! j) j v"
    unfolding block_indexed_def by blast
  have "d' = d" "raw' = raw" "b' = b" using r(1) assms(2) by (simp_all add: stored_def)
  with r that show thesis by blast
qed

lemma block_tids_small:
  assumes "stored s bid d raw b"
  shows "length (blk_transactions b) < 2 ^ 32" "length (block_tids base_hash b) \<le> 2 ^ 32"
proof -
  have raw: "from_raw_block raw = (True, Some b)" using assms by (simp add: stored_def)
  obtain coinbase where "placed (to_binary enc_raw_block raw) 0 (coinbase # rb_transactions raw)"
    "length (rb_transactions raw) = length (blk_transactions b)"
    using block_transactions_placed [OF raw] by metis
  with placed_length [of d 0 "coinbase # rb_transactions raw"] stored_data [OF assms] assms
  show "length (blk_transactions b) < 2 ^ 32" by (simp add: stored_def)
  then show "length (block_tids base_hash b) \<le> 2 ^ 32" by (simp add: block_tids_def)
qed

lemma records_distinct:
  assumes "\<And>j. j < length tids \<Longrightarrow> \<exists>v. db_get db (transaction_key (tids ! j)) = Some v \<and> tx_record d h (bins ! j) j v"
    and "length tids \<le> 2 ^ 32"
  shows "distinct tids"
proof -
  have "j = k" if jk: "j < length tids" "k < length tids" "tids ! j = tids ! k" for j k
  proof -
    obtain v where "tx_record d h (bins ! j) j v" "tx_record d h (bins ! k) k v"
      using assms(1) [OF jk(1)] assms(1) [OF jk(2)] jk(3) by auto
    then have "(word_of_nat j :: u32) = word_of_nat k" using tx_record_same by blast
    then have "unat (word_of_nat j :: u32) = unat (word_of_nat k :: u32)" by (rule arg_cong)
    then show ?thesis using jk(1,2) assms(2) by (simp add: unat_u32_of_nat)
  qed
  then show ?thesis unfolding distinct_conv_nth by blast
qed

lemma block_indexed_frame:
  assumes "block_indexed env s i bid" "stored s' bid = stored s bid"
    and "\<And>ts. db_get (bc_db s) (timestamp_block_key ts (word_of_nat i)) \<noteq> None \<Longrightarrow>
      db_get (bc_db s') (timestamp_block_key ts (word_of_nat i)) \<noteq> None"
    and "\<And>tid v d bin j. db_get (bc_db s) (transaction_key tid) = Some v \<Longrightarrow> tx_record d (word_of_nat i) bin j v \<Longrightarrow>
      db_get (bc_db s') (transaction_key tid) = Some v"
  shows "block_indexed env s' i bid"
proof -
  from assms(1) obtain d raw b base_hash coinbase where r: "stored s bid d raw b"
    "get_transaction_hash env (bt_base_transaction (blk_header b)) = Inr base_hash"
    "enc_transaction (bt_base_transaction (blk_header b)) = Inr coinbase"
    "db_get (bc_db s) (timestamp_block_key (bh_timestamp (blk_header b)) (word_of_nat i)) \<noteq> None"
    "\<And>j. j < length (block_tids base_hash b) \<Longrightarrow> \<exists>v. db_get (bc_db s) (transaction_key (block_tids base_hash b ! j)) = Some v \<and>
       tx_record d (word_of_nat i) ((coinbase # rb_transactions raw) ! j) j v"
    unfolding block_indexed_def by blast
  have "\<exists>v. db_get (bc_db s') (transaction_key (block_tids base_hash b ! j)) = Some v \<and>
       tx_record d (word_of_nat i) ((coinbase # rb_transactions raw) ! j) j v" if "j < length (block_tids base_hash b)" for j
    using r(5) [OF that] assms(4) by blast
  with r(1-3) assms(2) assms(3) [OF r(4)] show ?thesis unfolding block_indexed_def by metis
qed

lemma chain_ok_distinct:
  assumes "chain_ok s C"
  shows "distinct C"
proof -
  have "i = j" if "i < length C" "j < length C" "C ! i = C ! j" for i j
    using chain_ok_header [OF assms that(1)] chain_ok_header [OF assms that(2)] that(3) by (metis option.inject)
  then show ?thesis unfolding distinct_conv_nth by blast
qed

section \<open>Down\<close>

lemma undo_indexed_block_ok:
  assumes ok: "node_ok env s (C @ [x])" and st: "stored s x d raw b"
  obtains s' base_hash where "undo_indexed_block env x b (bc_tip_height s) s = Inr s'"
    "get_transaction_hash env (bt_base_transaction (blk_header b)) = Inr base_hash"
    "ledger_ok s' (ledger_of (stored_block s) C)" "same_tip s s'"
    "\<And>k. \<not> ledger_key k \<Longrightarrow> db_get (bc_db s') k =
       (if k = block_global_indices_key x \<or> k = timestamp_block_key (bh_timestamp (blk_header b)) (bc_tip_height s) \<or>
          k \<in> transaction_key ` set (block_tids base_hash b) then None else db_get (bc_db s) k)"
    "\<And>tid. tid \<in> set (block_tids base_hash b) \<Longrightarrow>
       \<exists>v bin j. db_get (bc_db s) (transaction_key tid) = Some v \<and> tx_record d (bc_tip_height s) bin j v"
proof -
  let ?n = "length (blk_transactions b)" and ?hs = "bt_transaction_hashes (blk_header b)"
  note chain = node_okD(1) [OF ok]
  have th: "bc_tip_height s = word_of_nat (length C)" using chain_okD(7) [OF chain] by simp
  obtain h where h: "header_of s x = Some h" using chain_ok_header [OF chain, of "length C"] by auto
  have len: "length ?hs = ?n"
    using node_okD(3) [OF ok h] st by (auto simp: tree_block_def stored_def)
  obtain base_hash coinbase where bi: "get_transaction_hash env (bt_base_transaction (blk_header b)) = Inr base_hash"
    "db_get (bc_db s) (timestamp_block_key (bh_timestamp (blk_header b)) (bc_tip_height s)) \<noteq> None"
    "\<And>j. j < length (block_tids base_hash b) \<Longrightarrow> \<exists>v. db_get (bc_db s) (transaction_key (block_tids base_hash b ! j)) = Some v \<and>
       tx_record d (word_of_nat (length C)) ((coinbase # rb_transactions raw) ! j) j v"
    using block_indexedD [OF _ st, of env "length C"] node_okD(7) [OF ok, of "length C"] unfolding th
    by (metis length_append_singleton lessI nth_append_length)
  have dist: "distinct (block_tids base_hash b)" by (rule records_distinct [OF bi(3) block_tids_small(2) [OF st]])
  have ids: "block_tids base_hash b = base_hash # ?hs" by (rule block_tids_length [OF len])
  have B: "stored_block s x = Some b" by (rule stored_block_eq [OF st])
  have L: "ledger_ok s (lg_block (word_of_nat (length C)) b (ledger_of (stored_block s) C))"
    using node_okD(4) [OF ok] by (simp add: ledger_of_snoc B)
  have fresh: "fresh_inputs (block_inputs b) (ledger_of (stored_block s) C)"
    using node_okD(5) [OF ok] B by (auto simp: chain_fresh_snoc)
  have gi: "db_get (bc_db s) (block_global_indices_key x) \<noteq> None" using node_okD(6) [OF ok] by simp
  obtain s1 where s1: "undo_block x b (bc_tip_height s) s = Inr s1" "ledger_ok s1 (ledger_of (stored_block s) C)"
    "\<And>k. \<not> ledger_key k \<Longrightarrow> db_get (bc_db s1) k = (if k = block_global_indices_key x then None else db_get (bc_db s) k)"
    using undo_block_ledger [OF L fresh refl gi] by blast
  have wf1: "om_wf (bc_db s1)" by (rule ledger_okD(1) [OF s1(2)])
  let ?tk = "timestamp_block_key (bh_timestamp (blk_header b)) (bc_tip_height s)"
  obtain db1 where db1: "db_del (bc_db s1) ?tk True = Inr db1" using bi(2) s1(3) [of ?tk] by (auto simp: db_del_def)
  note get1 = db_get_del [OF wf1 db1] and wfd1 = om_wf_del [OF wf1 db1]
  have rec: "db_get (bc_db s1) (transaction_key tid) \<noteq> None" if "tid \<in> set (block_tids base_hash b)" for tid
    using bi(3) that s1(3) by (auto simp: in_set_conv_nth)
  obtain db2 where db2: "db_del db1 (transaction_key base_hash) True = Inr db2"
    using rec [of base_hash] by (auto simp: ids get1 db_del_def)
  note get2 = db_get_del [OF wfd1 db2] and wfd2 = om_wf_del [OF wfd1 db2]
  have "\<exists>db. delete_transactions ?hs 0 ?n (s1\<lparr>bc_db := db2\<rparr>) = Inr (s1\<lparr>bc_db := db2\<rparr>\<lparr>bc_db := db\<rparr>) \<and> om_wf db \<and>
     (\<forall>key. db_get db key = (if key \<in> transaction_key ` set (take ?n (drop 0 ?hs)) then None
        else db_get (bc_db (s1\<lparr>bc_db := db2\<rparr>)) key))"
  proof (rule delete_transactions_ok)
    show "db_get (bc_db (s1\<lparr>bc_db := db2\<rparr>)) (transaction_key (?hs ! j)) \<noteq> None" if "j < 0 + ?n" for j
      using that len dist rec [of "?hs ! j"] by (auto simp: get1 get2 ids)
  qed (use wfd2 len dist ids in simp_all)
  then obtain db where db: "delete_transactions ?hs 0 ?n (s1\<lparr>bc_db := db2\<rparr>) = Inr (s1\<lparr>bc_db := db\<rparr>)" "om_wf db"
    "\<And>key. db_get db key = (if key \<in> transaction_key ` set ?hs then None else db_get db2 key)"
    using len by auto
  have keys: "db_get db k = (if k = ?tk \<or> k \<in> transaction_key ` set (block_tids base_hash b) then None else db_get (bc_db s1) k)" for k
    by (auto simp: db(3) get2 get1 ids)
  have "ledger_ok (s1\<lparr>bc_db := db\<rparr>) (ledger_of (stored_block s) C)"
    by (rule ledger_ok_same [OF s1(2)]) (auto simp: keys db(2))
  moreover have "same_tip s (s1\<lparr>bc_db := db\<rparr>)" using undo_block_frame [OF s1(1)] by (simp add: same_tip_def)
  moreover have "undo_indexed_block env x b (bc_tip_height s) s = Inr (s1\<lparr>bc_db := db\<rparr>)"
    by (simp add: undo_indexed_block_def s1(1) db1 bi(1) db2 db(1))
  moreover have "\<exists>v bin j. db_get (bc_db s) (transaction_key tid) = Some v \<and> tx_record d (bc_tip_height s) bin j v"
    if "tid \<in> set (block_tids base_hash b)" for tid
    using bi(3) that unfolding th in_set_conv_nth by blast
  ultimately show thesis using that [OF _ bi(1)] s1(3) keys by auto
qed


lemma collect_undone_ok:
  "i + n \<le> length tids \<Longrightarrow> i + n \<le> length raws \<Longrightarrow> \<exists>u. collect_undone tids txs raws i n undone = Inr u \<and>
     om_keys u = om_keys undone \<union> set (take n (drop i tids))"
proof (induction n arbitrary: i undone)
  case (Suc n)
  have "om_keys (fst (om_insert k v undone)) = insert k (om_keys undone)" for k and v :: "transaction \<times> bytes"
    using om_find_None [of k undone] by (cases "om_find k undone") (auto simp: om_insert_def)
  moreover obtain u where "collect_undone tids txs raws (i + 1) n (fst (om_insert (tids ! i) (txs ! i, raws ! i) undone)) = Inr u"
    "om_keys u = om_keys (fst (om_insert (tids ! i) (txs ! i, raws ! i) undone)) \<union> set (take n (drop (i + 1) tids))"
    using Suc.IH [of "i + 1"] Suc.prems by fastforce
  ultimately show ?case using Suc.prems by (simp add: Cons_nth_drop_Suc [symmetric])
qed simp

text \<open>The hashes of the transactions of a stored block, without the coinbase.\<close>

definition hashes_of :: "chain_state \<Rightarrow> hash \<Rightarrow> hash set" where
  "hashes_of s bid = (case stored_block s bid of None \<Rightarrow> {} | Some b \<Rightarrow> set (bt_transaction_hashes (blk_header b)))"

lemma undo_tip_ok:
  assumes ok: "node_ok env s (C @ [x])" and ne: "C \<noteq> []"
  shows "\<exists>undone' s'. undo_tip env c undone s = Inr (undone', s') \<and> node_ok env s' C \<and> same_tree s s' \<and> medians_ok c s' \<and>
    om_keys undone' = om_keys undone \<union> hashes_of s x"
proof -
  note chain = node_okD(1) [OF ok]
  obtain h where h: "header_of s x = Some h" "unat (hi_height h) = length C" "hi_previous_block_hash h = last C"
    using chain_ok_header [OF chain, of "length C"] ne by (auto simp: last_conv_nth nth_append)
  from node_okD(3) [OF ok h(1)] obtain d raw b where st: "stored s x d raw b"
    and prev: "bh_previous_block_hash (blk_header b) = last C"
    and len: "length (bt_transaction_hashes (blk_header b)) = length (blk_transactions b)"
    by (auto simp: tree_block_def h(3))
  have tip: "bc_tip_bid s = x" using chain_okD(8) [OF chain] by simp
  have raw: "from_raw_block raw = (True, Some b)" using st by (simp add: stored_def)
  obtain s1 base_hash where s1: "undo_indexed_block env x b (bc_tip_height s) s = Inr s1"
    "get_transaction_hash env (bt_base_transaction (blk_header b)) = Inr base_hash"
    "ledger_ok s1 (ledger_of (stored_block s) C)" "same_tip s s1"
    "\<And>k. \<not> ledger_key k \<Longrightarrow> db_get (bc_db s1) k =
       (if k = block_global_indices_key x \<or> k = timestamp_block_key (bh_timestamp (blk_header b)) (bc_tip_height s) \<or>
          k \<in> transaction_key ` set (block_tids base_hash b) then None else db_get (bc_db s) k)"
    "\<And>tid. tid \<in> set (block_tids base_hash b) \<Longrightarrow>
       \<exists>v bin j. db_get (bc_db s) (transaction_key tid) = Some v \<and> tx_record d (bc_tip_height s) bin j v"
    using undo_indexed_block_ok [OF ok st] by blast
  have "db_get (bc_db s1) k = db_get (bc_db s) k" if "tree_key k" for k
    using that tree_key_not_ledger [OF that] s1(5) [of k] by (auto dest: not_tree_key [THEN notE, rotated])
  then have tr1: "same_tree s s1" using s1(4) by (simp add: same_tree_def same_tip_def)
  have wf1: "om_wf (bc_db s1)" by (rule ledger_okD(1) [OF s1(3)])
  have chain1: "chain_ok s1 (C @ [x])" by (rule chain_ok_same [OF chain s1(4) tr1 wf1]) (auto simp: s1(5))
  obtain s2 where s2: "pop_chain c (last C) s1 = Inr s2" "chain_ok s2 C" "header_of s2 = header_of s1"
    "db_del (bc_db s1) (tip_chain_key (bc_tip_height s1)) True = Inr (bc_db s2)"
    "s2 = s1\<lparr>bc_db := bc_db s2, bc_tip_bid := bc_tip_bid s2, bc_tip_height := bc_tip_height s2,
      bc_tip_cumulative_difficulty := bc_tip_cumulative_difficulty s2, bc_header_cache := bc_header_cache s2,
      bc_header_tip_window := bc_header_tip_window s2\<rparr>"
    using pop_chain_ok [OF chain1 ne] by blast
  note get2 = db_get_del [OF wf1 s2(4)]
  have g2: "cs_next_gi_for_amount s2 = cs_next_gi_for_amount s1" "bc_genesis_bid s2 = bc_genesis_bid s1"
    by (subst s2(5), simp)+
  obtain cache m n where s3: "tip_changed c s2 = Inr (s2\<lparr>bc_header_cache := cache, cs_next_median_size := m, cs_next_median_timestamp := n\<rparr>)"
    "headers_ok (s2\<lparr>bc_header_cache := cache, cs_next_median_size := m, cs_next_median_timestamp := n\<rparr>)"
    "medians_ok c (s2\<lparr>bc_header_cache := cache, cs_next_median_size := m, cs_next_median_timestamp := n\<rparr>)"
    using tip_changed_ok [of s2 c] chain_okD [OF s2(2)] by auto
  define s' where "s' = s2\<lparr>bc_header_cache := cache, cs_next_median_size := m, cs_next_median_timestamp := n\<rparr>"
  obtain u where u: "collect_undone (bt_transaction_hashes (blk_header b)) (blk_transactions b) (rb_transactions raw) 0
      (length (blk_transactions b)) undone = Inr u" "om_keys u = om_keys undone \<union> hashes_of s x"
    using collect_undone_ok [of 0 "length (blk_transactions b)" "bt_transaction_hashes (blk_header b)" "rb_transactions raw"
        "blk_transactions b" undone]
      parse_transactions_ok [OF from_raw_block_ok(2) [OF raw]] len stored_block_eq [OF st]
    by (auto simp: hashes_of_def)
  have "undo_tip env c undone s = Inr (u, s')"
    using s1(1) u(1) s2(1) s3(1) by (simp add: undo_tip_def tip stored_read [OF st] raw prev s'_def)
  moreover have db: "bc_db s' = bc_db s2" "bc_genesis_bid s' = bc_genesis_bid s" "cs_next_gi_for_amount s' = cs_next_gi_for_amount s1"
    using g2 s1(4) by (simp_all add: s'_def same_tip_def)
  moreover have keys: "db_get (bc_db s') k = (if k = tip_chain_key (bc_tip_height s1) then None else db_get (bc_db s1) k)" for k
    unfolding db get2 by simp
  then have tr: "same_tree s s'" using tr1 db(2) by (auto simp: same_tree_def)
  moreover have "node_ok env s' C"
    unfolding node_ok_def same_treeD [OF tr]
  proof (intro conjI allI impI)
    have "chain_ok (s2\<lparr>bc_header_cache := cache\<rparr>) C"
      by (rule chain_ok_cache [OF s2(2)]) (use s3(2) in \<open>simp add: headers_ok_def header_of_def\<close>)
    then show "chain_ok s' C"
      by (rule chain_ok_same) (use headers_okD(1) [OF chain_okD(1) [OF s2(2)]] in \<open>simp_all add: s'_def same_tip_def same_tree_def\<close>)
    show "index_ok s'" by (rule index_ok_same [OF node_okD(2) [OF ok] tr])
    show "tree_block env s bid h" if "header_of s bid = Some h" for bid h by (rule node_okD(3) [OF ok that])
    show "ledger_ok s' (ledger_of (stored_block s) C)"
      by (rule ledger_ok_same [OF s1(3)]) (use om_wf_del [OF wf1 s2(4)] in \<open>auto simp: db get2\<close>)
    show "chain_fresh (stored_block s) C" using node_okD(5) [OF ok] by (simp add: chain_fresh_snoc)
    have "x \<notin> set C" using chain_ok_distinct [OF chain] by simp
    then show "db_get (bc_db s') (block_global_indices_key bid) \<noteq> None \<longleftrightarrow> bid \<in> set C" for bid
      using node_okD(6) [OF ok, of bid] by (auto simp: keys s1(5))
    fix i assume i: "i < length C"
    have hi: "word_of_nat i \<noteq> bc_tip_height s"
      using unat_height [OF chain, of i] i chain_ok_tip_height [OF chain] by auto
    have "block_indexed env s i (C ! i)" using node_okD(7) [OF ok, of i] i by (simp add: nth_append)
    then show "block_indexed env s' i (C ! i)"
    proof (rule block_indexed_frame)
      show "stored s' (C ! i) = stored s (C ! i)" by (simp add: same_treeD [OF tr])
      show "db_get (bc_db s') (timestamp_block_key ts (word_of_nat i)) \<noteq> None"
        if "db_get (bc_db s) (timestamp_block_key ts (word_of_nat i)) \<noteq> None" for ts
        using that hi by (auto simp: keys s1(5))
      fix tid v d' bin j
      assume v: "db_get (bc_db s) (transaction_key tid) = Some v" "tx_record d' (word_of_nat i) bin j v"
      have "tid \<notin> set (block_tids base_hash b)"
        using s1(6) [of tid] v hi tx_record_same by fastforce
      with v show "db_get (bc_db s') (transaction_key tid) = Some v" by (auto simp: keys s1(5))
    qed
  qed
  ultimately show ?thesis using s3(3) s'_def u(2) by blast
qed


lemma undo_to_ok:
  "node_ok env s (C @ ys) \<Longrightarrow> C \<noteq> [] \<Longrightarrow>
     \<exists>u s'. undo_to env c (last C) undone undone_blocks s = Some (Inr (u, undone_blocks \<or> ys \<noteq> [], s')) \<and>
       node_ok env s' C \<and> same_tree s s' \<and> (if ys = [] then s' = s else medians_ok c s') \<and>
       om_keys u = om_keys undone \<union> \<Union> (hashes_of s ` set ys)"
proof (induction ys arbitrary: s undone undone_blocks rule: rev_induct)
  case Nil
  then have "bc_tip_bid s = last C" using chain_okD(8) [OF node_okD(1)] by fastforce
  with Nil show ?case by (simp add: undo_to.simps [of _ _ _ _ _ s])
next
  case (snoc y ys)
  have chain: "chain_ok s (C @ ys @ [y])" using node_okD(1) [OF snoc.prems(1)] .
  have tip: "bc_tip_bid s = y" using chain_okD(8) [OF chain] by simp
  have ne: "y \<noteq> last C" using chain_ok_distinct [OF chain] snoc.prems(2) by auto
  obtain u1 s1 where s1: "undo_tip env c undone s = Inr (u1, s1)" "node_ok env s1 (C @ ys)" "same_tree s s1" "medians_ok c s1"
    "om_keys u1 = om_keys undone \<union> hashes_of s y"
    using undo_tip_ok [of env s "C @ ys" y c undone] snoc.prems by auto
  obtain u s' where s': "undo_to env c (last C) u1 True s1 = Some (Inr (u, True \<or> ys \<noteq> [], s'))"
    "node_ok env s' C" "same_tree s1 s'" "if ys = [] then s' = s1 else medians_ok c s'"
    "om_keys u = om_keys u1 \<union> \<Union> (hashes_of s1 ` set ys)"
    using snoc.IH [OF s1(2) snoc.prems(2), of u1 True] by blast
  have "hashes_of s1 = hashes_of s" by (simp add: hashes_of_def same_treeD [OF s1(3)] fun_eq_iff)
  moreover have "undo_to env c (last C) undone undone_blocks s = undo_to env c (last C) u1 True s1"
    using tip ne s1(1) by (simp add: undo_to.simps [of _ _ _ _ _ s])
  ultimately show ?case using s' s1(4,5) same_tree_trans [OF s1(3) s'(3)] by (auto split: if_splits)
qed

section \<open>Up\<close>

lemma redo_indexed_block_False:
  "redo_indexed_block env c bhash d raw b info base_hash s = Inr (False, s') \<Longrightarrow> s' = s"
  by (auto simp: redo_indexed_block_def res_bind_eq_Inr Let_def split: if_splits dest: redo_block_frame(2))

lemma redo_step_ok:
  assumes ok: "node_ok env s C" and h: "header_of s x = Some h" "unat (hi_height h) = length C" "hi_previous_block_hash h = last C"
    and st: "stored s x d raw b" and base: "get_transaction_hash env (bt_base_transaction (blk_header b)) = Inr base_hash"
    and redo: "redo_indexed_block env c x d raw b h base_hash s = Inr (True, t)"
    and sound: "\<And>t. redo_block env c x b h s = Inr (True, t) \<Longrightarrow> block_sound (ledger_of (stored_block s) C) b"
    and c: "windows_ok c" and room: "length C + 1 < 2 ^ 32"
  shows "\<exists>s'. push_chain c h t = Inr s' \<and> node_ok env s' (C @ [x]) \<and> same_tree s s' \<and> medians_ok c s'"
proof -
  let ?L = "ledger_of (stored_block s) C" and ?h = "hi_height h"
  note chain = node_okD(1) [OF ok] and L = node_okD(4) [OF ok]
  obtain t0 where t0: "redo_block env c x b h s = Inr (True, t0)"
    using redo by (auto simp: redo_indexed_block_def res_bind_eq_Inr split: if_splits)
  have snd: "room (length (block_outputs b)) ?L" "valid_outputs (block_outputs b)" "fresh_spends (block_spends b) ?L"
    using sound [OF t0] by (simp_all add: block_sound_def)
  note R = redo_block_ok [OF L t0 snd(1,2) fresh_spends_in_range [OF snd(3)]]
  have wf0: "om_wf (bc_db t0)" using R ledger_okD(1) by blast
  have hh: "?h = word_of_nat (length C)" using h(2) [symmetric] by simp
  from node_okD(3) [OF ok h(1)] st have x: "pod32 x" "bh_timestamp (blk_header b) = hi_timestamp h"
    "length (bt_transaction_hashes (blk_header b)) = length (blk_transactions b)"
    by (auto simp: tree_block_def stored_def)
  have d: "length d < 2 ^ 32" "from_raw_block raw = (True, Some b)" using st by (simp_all add: stored_def)
  have wf: "om_wf (bc_db t')" if "redo_block env c x b h s = Inr (True, t')" for t' using that t0 wf0 by simp
  let ?tk = "timestamp_block_key (hi_timestamp h) ?h" and ?ids = "transaction_key ` set (block_tids base_hash b)"
  obtain coinbase where
    coinbase: "enc_transaction (bt_base_transaction (blk_header b)) = Inr coinbase" and
    t: "t = t0\<lparr>bc_db := bc_db t\<rparr>" "om_wf (bc_db t)" and
    tk: "db_get (bc_db t) ?tk = Some []" and
    rec: "\<And>i. i < length (block_tids base_hash b) \<Longrightarrow> db_get (bc_db t0) (transaction_key (block_tids base_hash b ! i)) = None \<and>
       (\<exists>v. db_get (bc_db t) (transaction_key (block_tids base_hash b ! i)) = Some v \<and>
         tx_record d ?h ((coinbase # rb_transactions raw) ! i) i v)" and
    others: "\<And>key. key \<noteq> ?tk \<Longrightarrow> key \<notin> ?ids \<Longrightarrow> db_get (bc_db t) key = db_get (bc_db t0) key"
    by (rule redo_indexed_block_records [OF redo wf d(1)]) (use t0 in auto)
  have t0_keys: "db_get (bc_db t0) k = db_get (bc_db s) k" if "\<not> ledger_key k" "k \<noteq> block_global_indices_key x" for k
    using R that by blast
  have new: "db_get (bc_db s) (transaction_key tid) = None" if "tid \<in> set (block_tids base_hash b)" for tid
    using rec that t0_keys by (auto simp: in_set_conv_nth)
  have same: "db_get (bc_db t) k = db_get (bc_db s) k"
    if "\<not> ledger_key k" "k \<noteq> block_global_indices_key x" "k \<noteq> ?tk" "k \<notin> ?ids" for k
    using that others t0_keys by simp
  have tip: "same_tip s t" using redo_block_frame(1) [OF t0] by (subst t(1)) (simp add: same_tip_def)
  have not_ids: "k \<notin> ?ids" if "\<And>tid. k \<noteq> transaction_key tid" for k using that by blast
  have "db_get (bc_db t) k = db_get (bc_db s) k" if "tree_key k" for k
    using that by (intro same tree_key_not_ledger) (auto dest: not_tree_key [THEN notE, rotated])
  then have trt: "same_tree s t" using tip by (simp add: same_tree_def same_tip_def)
  have chain_t: "chain_ok t C" by (rule chain_ok_same [OF chain tip trt t(2)]) (intro same; auto)
  obtain s' where s': "push_chain c h t = Inr s'" "chain_ok s' (C @ [x])" "header_of s' = header_of t" "medians_ok c s'"
    "db_put (bc_db t) (tip_chain_key (bc_tip_height t + 1)) x True = Inr (bc_db s')"
    "s' = t\<lparr>bc_db := bc_db s', bc_tip_bid := bc_tip_bid s', bc_tip_height := bc_tip_height s',
      bc_tip_cumulative_difficulty := bc_tip_cumulative_difficulty s', bc_header_cache := bc_header_cache s',
      bc_header_tip_window := bc_header_tip_window s', cs_next_median_size := cs_next_median_size s',
      cs_next_median_timestamp := cs_next_median_timestamp s'\<rparr>"
    using push_chain_ok [OF chain_t c room _ h(2,3) x(1)] same_treeD(1) [OF trt] h(1) by auto
  note get' = db_get_put [OF s'(5)]
  have g': "cs_next_gi_for_amount s' = cs_next_gi_for_amount t0" "bc_genesis_bid s' = bc_genesis_bid s"
    using tip by (subst s'(6), subst t(1), simp, subst s'(6), simp add: same_tip_def)
  have keys: "db_get (bc_db s') k = db_get (bc_db t) k" if "\<And>g. k \<noteq> tip_chain_key g" for k
    using that get' by simp
  have tr: "same_tree s s'"
    using trt g'(2) keys unfolding same_tree_def by (metis not_tree_key(1))
  have B: "stored_block s x = Some b" by (rule stored_block_eq [OF st])
  have "node_ok env s' (C @ [x])"
    unfolding node_ok_def same_treeD [OF tr]
  proof (intro conjI allI impI)
    show "chain_ok s' (C @ [x])" by (rule s'(2))
    show "index_ok s'" by (rule index_ok_same [OF node_okD(2) [OF ok] tr])
    show "tree_block env s bid h" if "header_of s bid = Some h" for bid h by (rule node_okD(3) [OF ok that])
    show "ledger_ok s' (ledger_of (stored_block s) (C @ [x]))"
    proof -
      have "ledger_ok t0 (ledger_of (stored_block s) (C @ [x]))" using R by (simp add: ledger_of_snoc B hh)
      then show ?thesis
      proof (rule ledger_ok_same)
        show "om_wf (bc_db s')" by (rule om_wf_put [OF t(2) s'(5)])
        show "db_get (bc_db s') k = db_get (bc_db t0) k" if "ledger_key k" for k
          using that keys others by (metis (no_types, lifting) imageE not_ledger_keys(1,2,5))
      qed (rule g'(1))
    qed
    show "chain_fresh (stored_block s) (C @ [x])"
      using R node_okD(5) [OF ok] snd(3) B
      by (auto simp: chain_fresh_snoc fresh_inputs_def block_inputs_spends simp flip: block_inputs_key_images)
    show "db_get (bc_db s') (block_global_indices_key bid) \<noteq> None \<longleftrightarrow> bid \<in> set (C @ [x])" for bid
    proof (cases "bid = x")
      case True
      have "db_get (bc_db t) (block_global_indices_key x) = db_get (bc_db t0) (block_global_indices_key x)"
        by (rule others) auto
      with True show ?thesis using R keys by simp
    next
      case False
      then have "db_get (bc_db t) (block_global_indices_key bid) = db_get (bc_db s) (block_global_indices_key bid)"
        by (intro same) auto
      then have "db_get (bc_db s') (block_global_indices_key bid) = db_get (bc_db s) (block_global_indices_key bid)"
        using keys by simp
      then show ?thesis using node_okD(6) [OF ok, of bid] False by simp
    qed
    fix i assume i: "i < length (C @ [x])"
    show "block_indexed env s' i ((C @ [x]) ! i)"
    proof (cases "i < length C")
      case True
      have "block_indexed env s i (C ! i)" by (rule node_okD(7) [OF ok True])
      then have "block_indexed env s' i (C ! i)"
      proof (rule block_indexed_frame)
        show "stored s' (C ! i) = stored s (C ! i)" by (simp add: same_treeD [OF tr])
        show "db_get (bc_db s') (timestamp_block_key ts (word_of_nat i)) \<noteq> None"
          if "db_get (bc_db s) (timestamp_block_key ts (word_of_nat i)) \<noteq> None" for ts
        proof -
          have "word_of_nat i \<noteq> ?h" using unat_height [OF chain True] True h(2) by auto
          then have "db_get (bc_db t) (timestamp_block_key ts (word_of_nat i)) = db_get (bc_db s) (timestamp_block_key ts (word_of_nat i))"
            by (intro same) auto
          then show ?thesis using that keys by simp
        qed
        show "db_get (bc_db s') (transaction_key tid) = Some v" if "db_get (bc_db s) (transaction_key tid) = Some v" for tid v
        proof -
          have "tid \<notin> set (block_tids base_hash b)" using new that by auto
          then have "db_get (bc_db t) (transaction_key tid) = db_get (bc_db s) (transaction_key tid)" by (intro same) auto
          then show ?thesis using that keys by simp
        qed
      qed
      then show ?thesis using True by (simp add: nth_append)
    next
      case False
      with i have "i = length C" by simp
      moreover have "block_indexed env s' (length C) x"
        unfolding block_indexed_def same_treeD [OF tr]
      proof (intro exI conjI allI impI)
        show "stored s x d raw b" "get_transaction_hash env (bt_base_transaction (blk_header b)) = Inr base_hash"
          "enc_transaction (bt_base_transaction (blk_header b)) = Inr coinbase"
          by (fact st base coinbase)+
        show "db_get (bc_db s') (timestamp_block_key (bh_timestamp (blk_header b)) (word_of_nat (length C))) \<noteq> None"
          using tk keys by (simp add: x(2) flip: hh)
        show "db_get (bc_db s') (transaction_key (block_tids base_hash b ! j)) = Some (the
            (db_get (bc_db t) (transaction_key (block_tids base_hash b ! j))))" if "j < length (block_tids base_hash b)" for j
          using rec [OF that] keys by auto
        show "tx_record d (word_of_nat (length C)) ((coinbase # rb_transactions raw) ! j) j (the
            (db_get (bc_db t) (transaction_key (block_tids base_hash b ! j))))" if "j < length (block_tids base_hash b)" for j
          using rec [OF that] hh by auto
      qed
      ultimately show ?thesis by simp
    qed
  qed
  with s'(1,4) tr show ?thesis by blast
qed

end
