(* ===== verification/Node_Switch.thy ===== *)
theory Node_Switch
  imports Node_Moves
begin

text \<open>
  Switching chains and accepting blocks keep the invariant of the node: whatever the outcome,
  the ledger, the index and the chain are those of the blocks the chain names afterwards.
\<close>

section \<open>What the checks are to guarantee\<close>

text \<open>
  A path of the tree from the genesis block; and the assumption on the blocks of the tree that
  the ledger needs: a block that can be applied on its path is sound, so that the signature
  checks never let one output be spent under two key images.
\<close>

definition is_path :: "(hash \<Rightarrow> header_info option) \<Rightarrow> hash list \<Rightarrow> bool" where
  "is_path H C \<longleftrightarrow> (\<forall>i < length C. \<exists>h. H (C ! i) = Some h \<and> unat (hi_height h) = i \<and>
     (i \<noteq> 0 \<longrightarrow> hi_previous_block_hash h = C ! (i - 1)))"

definition sound_tree :: "crypto_env \<Rightarrow> currency \<Rightarrow> (hash \<Rightarrow> header_info option) \<Rightarrow> (hash \<Rightarrow> block option) \<Rightarrow> bool" where
  "sound_tree env c H B \<longleftrightarrow> (\<forall>C x h b s t. is_path H (C @ [x]) \<and> H x = Some h \<and> B x = Some b \<and>
     ledger_ok s (ledger_of B C) \<and> redo_block env c x b h s = Inr (True, t) \<longrightarrow> block_sound (ledger_of B C) b)"

lemma chain_is_path: "chain_ok s C \<Longrightarrow> is_path (header_of s) C"
  by (auto simp: chain_ok_def is_path_def)

text \<open>The blocks \<open>ys\<close> lead up from \<open>b\<close>.\<close>

fun ascends :: "(hash \<Rightarrow> header_info option) \<Rightarrow> hash \<Rightarrow> hash list \<Rightarrow> bool" where
  "ascends H b [] \<longleftrightarrow> True"
| "ascends H b (y # ys) \<longleftrightarrow> (case H y of None \<Rightarrow> False
     | Some h \<Rightarrow> hi_height h \<noteq> 0 \<and> hi_previous_block_hash h = b \<and> ascends H y ys)"

lemma ascends_snoc:
  "ascends H b (ys @ [y]) \<longleftrightarrow> ascends H b ys \<and> (case H y of None \<Rightarrow> False
     | Some h \<Rightarrow> hi_height h \<noteq> 0 \<and> hi_previous_block_hash h = (if ys = [] then b else last ys))"
  by (induction ys arbitrary: b) (auto split: option.splits)

lemma descends_last: "descends H a xs b \<Longrightarrow> xs \<noteq> [] \<Longrightarrow> hd xs = a"
  by (cases xs) auto

lemma descends_ascends: "descends H a xs b \<Longrightarrow> ascends H b (rev xs)"
proof (induction xs arbitrary: a)
  case (Cons x xs)
  then obtain h where h: "x = a" "H a = Some h" "hi_height h \<noteq> 0" "descends H (hi_previous_block_hash h) xs b"
    by (auto split: option.splits)
  have "last (rev xs) = hi_previous_block_hash h" if "xs \<noteq> []" using descends_last [OF h(4) that] that by (simp add: last_rev)
  moreover have "hi_previous_block_hash h = b" if "xs = []" using h(4) that by simp
  ultimately show ?case using Cons.IH [OF h(4)] h(1-3) by (auto simp: ascends_snoc)
qed simp

text \<open>The height of the next block of a path.\<close>

lemma next_height:
  assumes "chain_ok s C" "header_of s y = Some h" "hi_height h \<noteq> 0" "hi_previous_block_hash h = last C"
  shows "unat (hi_height h) = length C"
proof -
  obtain p where p: "header_of s (last C) = Some p" "unat (hi_height h) = Suc (unat (hi_height p))"
    using tree_ok_parent [OF chain_okD(2) [OF assms(1)] assms(2,3)] unfolding assms(4) by blast
  have ne: "C \<noteq> []" by (rule chain_okD(3) [OF assms(1)])
  obtain q where "header_of s (C ! (length C - 1)) = Some q" "unat (hi_height q) = length C - 1"
    using chain_ok_header [OF assms(1), of "length C - 1"] ne by (metis diff_less length_greater_0_conv zero_less_one)
  with p ne show ?thesis by (simp add: last_conv_nth)
qed

text \<open>The tree and its blocks as the theorems below see them: unchanged while the tip moves.\<close>

lemma redo_path_ok:
  assumes ok: "node_ok env s C" and sound: "sound_tree env c (header_of s) (stored_block s)"
    and h: "header_of s x = Some h" "hi_height h \<noteq> 0" "hi_previous_block_hash h = last C"
    and st: "stored s x d raw b" and base: "get_transaction_hash env (bt_base_transaction (blk_header b)) = Inr base_hash"
    and redo: "redo_indexed_block env c x d raw b h base_hash s = Inr (True, t)"
    and c: "windows_ok c" and room: "length C + 1 < 2 ^ 32"
  shows "\<exists>s'. push_chain c h t = Inr s' \<and> node_ok env s' (C @ [x]) \<and> same_tree s s' \<and> medians_ok c s'"
proof -
  note chain = node_okD(1) [OF ok]
  have hh: "unat (hi_height h) = length C" by (rule next_height [OF chain h])
  have "is_path (header_of s) (C @ [x])"
    using chain_is_path [OF chain] h hh chain_okD(3) [OF chain]
    by (auto simp: is_path_def nth_append last_conv_nth less_Suc_eq)
  with sound have "block_sound (ledger_of (stored_block s) C) b" if "redo_block env c x b h s = Inr (True, t)" for t
    using that h(1) stored_block_eq [OF st] node_okD(4) [OF ok] unfolding sound_tree_def by blast
  then show ?thesis by (rule redo_step_ok [OF ok h(1) hh h(3) st base redo _ c room])
qed

section \<open>The other branch\<close>

lemma redo_stored_ok:
  assumes ok: "node_ok env s C" and sound: "sound_tree env c (header_of s) (stored_block s)"
    and h: "header_of s x = Some h" "hi_height h \<noteq> 0" "hi_previous_block_hash h = last C"
    and c: "windows_ok c" and room: "length C + 1 < 2 ^ 32"
    and r: "redo_stored env c x undone s = Inr (res, undone', s')"
  shows "same_tree s s' \<and> node_ok env s' (if res then C @ [x] else C) \<and>
    (if res then om_keys undone' \<subseteq> om_keys undone \<and> medians_ok c s' else undone' = undone)"
proof -
  from node_okD(3) [OF ok h(1)] obtain d raw b base_hash where st: "stored s x d raw b"
    "bh_previous_block_hash (blk_header b) = hi_previous_block_hash h"
    "get_transaction_hash env (bt_base_transaction (blk_header b)) = Inr base_hash"
    by (auto simp: tree_block_def)
  have raw: "from_raw_block raw = (True, Some b)" using st by (simp add: stored_def)
  obtain cache where g: "get_header c x 0 s = Inr (h, s\<lparr>bc_header_cache := cache\<rparr>)" "headers_ok (s\<lparr>bc_header_cache := cache\<rparr>)"
    using get_header_ok [OF chain_okD(1) [OF node_okD(1) [OF ok]] h(1)] by blast
  let ?s = "s\<lparr>bc_header_cache := cache\<rparr>"
  have ok1: "node_ok env ?s C" by (rule node_ok_cache [OF ok g(2)])
  have tr1: "same_tree s ?s" by (simp add: same_tree_def)
  have st1: "stored ?s x d raw b" using st(1) by (simp add: same_treeD [OF tr1])
  have sound1: "sound_tree env c (header_of ?s) (stored_block ?s)" using sound by (simp add: same_treeD [OF tr1])
  have h1: "header_of ?s x = Some h" using h(1) by simp
  have erase: "om_keys (erase_all tids m) \<subseteq> om_keys m" for tids m
    unfolding erase_all_def by (induction tids arbitrary: m) (use keys_om_erase_subset in \<open>auto, blast\<close>)
  from r obtain res0 t where t: "redo_indexed_block env c x d raw b h base_hash ?s = Inr (res0, t)"
    and rest: "(if \<not> res0 then Inr (False, undone, t)
       else res_bind (push_chain c h t) (\<lambda>s. Inr (True, erase_all (bt_transaction_hashes (blk_header b)) undone, s))) = Inr (res, undone', s')"
    by (auto simp: redo_stored_def stored_read [OF st(1)] raw res_bind_eq_Inr g(1) st(3) Let_def)
  show ?thesis
  proof (cases res0)
    case False
    with t have "redo_indexed_block env c x d raw b h base_hash ?s = Inr (False, t)" by simp
    then have "t = ?s" by (rule redo_indexed_block_False)
    with False rest ok1 tr1 show ?thesis by auto
  next
    case True
    with t have t': "redo_indexed_block env c x d raw b h base_hash ?s = Inr (True, t)" by simp
    obtain s2 where s2: "push_chain c h t = Inr s2" "node_ok env s2 (C @ [x])" "same_tree ?s s2" "medians_ok c s2"
      using redo_path_ok [OF ok1 sound1 h1 h(2,3) st1 st(3) t' c room] by blast
    with rest True same_tree_trans [OF tr1 s2(3)] erase show ?thesis by auto
  qed
qed

lemma redo_recent_ok:
  assumes ok: "node_ok env s C" and sound: "sound_tree env c (header_of s) (stored_block s)"
    and h: "header_of s (pp_bid pb) = Some info" "hi_height info \<noteq> 0" "hi_previous_block_hash info = last C"
    and st: "stored s (pp_bid pb) (pp_block_data pb) (pp_raw_block pb) (pp_block pb)"
      "get_transaction_hash env (bt_base_transaction (blk_header (pp_block pb))) = Inr (pp_base_transaction_hash pb)"
    and c: "windows_ok c" and room: "length C + 1 < 2 ^ 32"
    and r: "redo_recent env c pb info undone s = Inr (res, undone', s')"
  shows "same_tree s s' \<and> node_ok env s' (if res then C @ [pp_bid pb] else C) \<and>
    (if res then medians_ok c s' else undone' = undone)"
proof -
  from r obtain res0 t where t: "redo_indexed_block env c (pp_bid pb) (pp_block_data pb) (pp_raw_block pb) (pp_block pb) info
      (pp_base_transaction_hash pb) s = Inr (res0, t)"
    and rest: "(if \<not> res0 then Inr (False, undone, t)
       else res_bind (push_chain c info t) (\<lambda>s. Inr (True, erase_all (bt_transaction_hashes (blk_header (pp_block pb))) undone, s))) = Inr (res, undone', s')"
    by (auto simp: redo_recent_def res_bind_eq_Inr Let_def)
  show ?thesis
  proof (cases res0)
    case False
    with t have "redo_indexed_block env c (pp_bid pb) (pp_block_data pb) (pp_raw_block pb) (pp_block pb) info
      (pp_base_transaction_hash pb) s = Inr (False, t)" by simp
    then have "t = s" by (rule redo_indexed_block_False)
    with False rest ok show ?thesis by auto
  next
    case True
    with redo_path_ok [OF ok sound h st(1,2) _ c room] t rest show ?thesis by auto
  qed
qed


text \<open>The block that has just been received, in the tree with its bytes.\<close>

definition received :: "crypto_env \<Rightarrow> chain_state \<Rightarrow> prepared_block \<Rightarrow> header_info \<Rightarrow> bool" where
  "received env s pb info \<longleftrightarrow> header_of s (pp_bid pb) = Some info \<and>
     stored s (pp_bid pb) (pp_block_data pb) (pp_raw_block pb) (pp_block pb) \<and>
     get_transaction_hash env (bt_base_transaction (blk_header (pp_block pb))) = Inr (pp_base_transaction_hash pb)"

lemma received_same: "same_tree s s' \<Longrightarrow> received env s' pb info = received env s pb info"
  by (simp add: received_def same_treeD)

lemma redo_chain_ok:
  "node_ok env s C \<Longrightarrow> sound_tree env c (header_of s) (stored_block s) \<Longrightarrow> received env s pb info \<Longrightarrow> windows_ok c \<Longrightarrow>
     length C + length ys < 2 ^ 32 \<Longrightarrow> ascends (header_of s) (last C) ys \<Longrightarrow>
     redo_chain env c pb info ys undone s = Inr (res, undone', s') \<Longrightarrow>
   \<exists>zs ws. ys = zs @ ws \<and> same_tree s s' \<and> node_ok env s' (C @ zs) \<and> (res \<longrightarrow> ws = [])"
proof (induction ys arbitrary: C undone s)
  case Nil
  then show ?case by simp
next
  case (Cons y ys)
  from Cons.prems(6) obtain h where h: "header_of s y = Some h" "hi_height h \<noteq> 0" "hi_previous_block_hash h = last C"
    "ascends (header_of s) y ys" by (auto split: option.splits)
  from Cons.prems(7) obtain ok1 u1 s1 where
    r: "(if y = pp_bid pb then redo_recent env c pb info undone s else redo_stored env c y undone s) = Inr (ok1, u1, s1)"
    and rest: "(if \<not> ok1 then Inr (False, u1, s1) else redo_chain env c pb info ys u1 s1) = Inr (res, undone', s')"
    by (auto simp: res_bind_eq_Inr)
  have room: "length C + 1 < 2 ^ 32" using Cons.prems(5) by simp
  have step: "same_tree s s1 \<and> node_ok env s1 (if ok1 then C @ [y] else C)"
  proof (cases "y = pp_bid pb")
    case True
    with Cons.prems(3) h(1) have i: "info = h" by (simp add: received_def)
    with r True have "redo_recent env c pb h undone s = Inr (ok1, u1, s1)" by simp
    from redo_recent_ok [OF Cons.prems(1,2) _ h(2,3) _ _ Cons.prems(4) room this] Cons.prems(3) True h(1) show ?thesis
      by (auto simp: received_def split: if_splits)
  next
    case False
    with r have "redo_stored env c y undone s = Inr (ok1, u1, s1)" by simp
    from redo_stored_ok [OF Cons.prems(1,2) h(1-3) Cons.prems(4) room this] show ?thesis by blast
  qed
  show ?case
  proof (cases ok1)
    case False
    with rest step show ?thesis by (intro exI [of _ "[] :: hash list"] exI [of _ "y # ys"]) auto
  next
    case True
    with step have s1: "same_tree s s1" "node_ok env s1 (C @ [y])" by simp_all
    note T = same_treeD [OF s1(1)] received_same [OF s1(1)]
    obtain zs ws where z: "ys = zs @ ws" "same_tree s1 s'" "node_ok env s' ((C @ [y]) @ zs)" "res \<longrightarrow> ws = []"
      using Cons.IH [OF s1(2), of u1] Cons.prems(2,3,4,5) h(4) rest True unfolding T by auto
    then show ?thesis using same_tree_trans [OF s1(1)] by (intro exI [of _ "y # zs"] exI [of _ ws]) auto
  qed
qed

text \<open>From the tip down to a block below it.\<close>

lemma descends_snoc:
  "descends H a (xs @ [x]) b \<longleftrightarrow> descends H a xs x \<and> (case H x of None \<Rightarrow> False
     | Some h \<Rightarrow> hi_height h \<noteq> 0 \<and> hi_previous_block_hash h = b)"
proof (induction xs arbitrary: a)
  case (Cons y ys)
  then show ?case by (cases "H y") auto
qed (auto split: option.split)

lemma descends_chain:
  assumes "chain_ok s C" "descends (header_of s) (last C) xs b"
  shows "\<exists>D ys. C = D @ ys \<and> D \<noteq> [] \<and> last D = b"
  using assms(2)
proof (induction xs arbitrary: b rule: rev_induct)
  case Nil
  then show ?case using chain_okD(3) [OF assms(1)] by (intro exI [of _ C] exI [of _ "[] :: hash list"]) simp
next
  case (snoc x xs)
  from snoc.prems obtain h where y: "descends (header_of s) (last C) xs x" and h: "header_of s x = Some h" "hi_height h \<noteq> 0"
    "hi_previous_block_hash h = b"
    unfolding descends_snoc by (auto split: option.splits)
  obtain D ys where D: "C = D @ ys" "D \<noteq> []" "last D = x" using snoc.IH [OF y] by blast
  define i where "i = length D - 1"
  have i: "i < length C" "C ! i = x"
  proof -
    have "i < length D" using D(2) by (simp add: i_def)
    then show "i < length C" by (simp add: D(1))
    have "C ! i = D ! i" unfolding D(1) by (rule nth_append_left) (fact \<open>i < length D\<close>)
    then show "C ! i = x" using last_conv_nth [OF D(2)] D(3) by (simp add: i_def)
  qed
  obtain g where g: "header_of s (C ! i) = Some g" "unat (hi_height g) = i" "i \<noteq> 0 \<Longrightarrow> hi_previous_block_hash g = C ! (i - 1)"
    using chain_ok_header [OF assms(1) i(1)] by blast
  have gh: "g = h" using g(1) h(1) i(2) by simp
  have i0: "i \<noteq> 0"
  proof
    assume "i = 0"
    with g(2) gh have "hi_height h = 0" by (simp add: unat_eq_0)
    with h(2) show False by simp
  qed
  note gi = gh i0
  then have "b = C ! (i - 1)" using g(3) h(3) by simp
  moreover have "take i C \<noteq> []" using gi(2) i(1) by auto
  then have "last (take i C) = C ! (i - 1)" using gi(2) i(1) by (simp add: last_conv_nth min_def)
  ultimately have "last (take i C) = b" by simp
  then show ?case using gi(2) i(1) by (intro exI [of _ "take i C"] exI [of _ "drop i C"]) auto
qed

lemma ascends_height:
  "tree_ok s \<Longrightarrow> header_of s b = Some p \<Longrightarrow> ascends (header_of s) b ys \<Longrightarrow>
     header_of s (last (b # ys)) = Some h \<Longrightarrow> unat (hi_height h) = unat (hi_height p) + length ys"
proof (induction ys arbitrary: b p)
  case (Cons y ys)
  from Cons.prems(3) obtain g where g: "header_of s y = Some g" "hi_height g \<noteq> 0" "hi_previous_block_hash g = b"
    "ascends (header_of s) y ys" by (auto split: option.splits)
  obtain q where q: "header_of s b = Some q" "unat (hi_height g) = Suc (unat (hi_height q))"
    using tree_ok_parent [OF Cons.prems(1) g(1,2)] unfolding g(3) by blast
  have "unat (hi_height h) = unat (hi_height g) + length ys"
    using Cons.IH [OF Cons.prems(1) g(1,4)] Cons.prems(4) by simp
  with q Cons.prems(2) show ?case by simp
qed simp

lemma chain_ok_last:
  assumes "chain_ok s C"
  obtains h where "header_of s (last C) = Some h" "Suc (unat (hi_height h)) = length C"
proof -
  have ne: "C \<noteq> []" by (rule chain_okD(3) [OF assms])
  obtain q where "header_of s (C ! (length C - 1)) = Some q" "unat (hi_height q) = length C - 1"
    using chain_ok_header [OF assms, of "length C - 1"] ne by (metis diff_less length_greater_0_conv zero_less_one)
  with ne that show ?thesis by (simp add: last_conv_nth)
qed

lemma reorganize_blocks_ok:
  assumes ok: "node_ok env s C" and sound: "sound_tree env c (header_of s) (stored_block s)"
    and rc: "received env s pb info" and c: "windows_ok c" and room: "unat (hi_height info) + 2 < 2 ^ 32"
  shows "\<exists>r. reorganize_blocks env c (pp_bid pb) pb info s = Some r \<and>
    (\<forall>res s'. r = Inr (res, s') \<longrightarrow> same_tree s s' \<and>
      (\<exists>D ys zs. C = D @ ys \<and> D \<noteq> [] \<and> node_ok env s' (D @ zs) \<and> (res \<longrightarrow> last (D @ zs) = pp_bid pb)))"
proof -
  note chain = node_okD(1) [OF ok]
  have info: "header_of s (pp_bid pb) = Some info" using rc by (simp add: received_def)
  obtain tip where tip: "header_of s (last C) = Some tip" by (rule chain_ok_last [OF chain])
  have tip_bid: "bc_tip_bid s = last C" by (rule chain_okD(8) [OF chain])
  obtain b chain1 chain2 cache where com: "get_common_block c (last C) (pp_bid pb) s =
      Some (Inr (b, chain1, chain2, s\<lparr>bc_header_cache := cache\<rparr>))" "headers_ok (s\<lparr>bc_header_cache := cache\<rparr>)"
    "descends (header_of s) (last C) chain1 b" "descends (header_of s) (pp_bid pb) chain2 b"
    using get_common_block_ok [OF chain_okD(1,2) [OF chain] tip info] by blast
  let ?s = "s\<lparr>bc_header_cache := cache\<rparr>"
  have ok1: "node_ok env ?s C" by (rule node_ok_cache [OF ok com(2)])
  have tr1: "same_tree s ?s" by (simp add: same_tree_def)
  obtain D ys where D: "C = D @ ys" "D \<noteq> []" "last D = b" using descends_chain [OF chain com(3)] by blast
  obtain u s1 where u: "undo_to env c (last D) [] False ?s = Some (Inr (u, False \<or> ys \<noteq> [], s1))" "node_ok env s1 D" "same_tree ?s s1"
    using undo_to_ok [of env ?s D ys c "[]" False] ok1 D by blast
  have tr2: "same_tree s s1" by (rule same_tree_trans [OF tr1 u(3)])
  note T = same_treeD [OF tr2] received_same [OF tr2]
  show ?thesis
  proof (cases "list_all (\<lambda>bid. has_block bid ?s) chain2")
    case False
    have "reorganize_blocks env c (pp_bid pb) pb info s = Some (Inr (False, ?s))"
      using False by (simp add: reorganize_blocks_def tip_bid com(1))
    moreover have "C = C @ [] \<and> C \<noteq> [] \<and> node_ok env ?s (C @ [])" using ok1 chain_okD(3) [OF chain] by simp
    ultimately show ?thesis using tr1 by (intro exI [of _ "Inr (False, ?s)"]) blast
  next
    case True
    define r where "r = res_bind (redo_chain env c pb info (rev chain2) u s1) (\<lambda>(ok, undone, s).
      res_bind (on_reorganization env c undone (ys \<noteq> []) s) (\<lambda>s. Inr (ok, s)))"
    have run: "reorganize_blocks env c (pp_bid pb) pb info s = Some r"
      using True u(1) D(3) by (simp add: reorganize_blocks_def tip_bid com(1) r_def)
    have asc: "ascends (header_of s1) (last D) (rev chain2)" using descends_ascends [OF com(4)] D(3) by (simp add: T)
    have last: "last (D @ rev chain2) = pp_bid pb"
      using com(4) D(2,3) by (cases chain2) (auto simp: last_append)
    have short: "length D + length (rev chain2) < 2 ^ 32"
    proof -
      obtain g where g: "header_of s1 (last D) = Some g" "Suc (unat (hi_height g)) = length D"
        by (rule chain_ok_last [OF node_okD(1) [OF u(2)]])
      have "last (last D # rev chain2) = pp_bid pb" using last by (cases "chain2 = []") (auto simp: last_append)
      then have "unat (hi_height info) = unat (hi_height g) + length (rev chain2)"
        using ascends_height [OF chain_okD(2) [OF node_okD(1) [OF u(2)]] g(1) asc] info by (simp add: T)
      with g(2) room show ?thesis by simp
    qed
    have "same_tree s s' \<and> (\<exists>D ys zs. C = D @ ys \<and> D \<noteq> [] \<and> node_ok env s' (D @ zs) \<and> (res \<longrightarrow> last (D @ zs) = pp_bid pb))"
      if "r = Inr (res, s')" for res s'
    proof -
      from that obtain undone t where t: "redo_chain env c pb info (rev chain2) u s1 = Inr (res, undone, t)"
        "on_reorganization env c undone (ys \<noteq> []) t = Inr s'"
        by (auto simp: r_def res_bind_eq_Inr)
      obtain zs ws where z: "rev chain2 = zs @ ws" "same_tree s1 t" "node_ok env t (D @ zs)" "res \<longrightarrow> ws = []"
        using redo_chain_ok [OF u(2) _ _ c short asc t(1)] sound rc unfolding T by blast
      note frame = on_reorganization_frame [OF t(2)]
      have "same_tree t s'" using frame by (simp add: same_tree_def same_but_pool_def)
      then have "same_tree s s'" using tr2 z(2) same_tree_trans by blast
      moreover have "node_ok env s' (D @ zs)" by (rule node_ok_pool [OF z(3) frame])
      moreover have "res \<longrightarrow> last (D @ zs) = pp_bid pb" using z(1,4) last by auto
      ultimately show ?thesis using D(1,2) by blast
    qed
    with run show ?thesis by blast
  qed
qed

end
