(* ===== verification/Sample_Node.thy ===== *)
theory Sample_Node
  imports Node_Switch Sample_Tree
begin

text \<open>
  A small node for the examples: the genesis block alone, with its bytes, its header, its entry
  in the index of transactions and an empty ledger; and the same bytes once more as the next
  block, under the name the hash of the examples gives it.
\<close>

definition node_info :: header_info where
  "node_info = empty_header_info\<lparr>hi_timestamp := 7\<rparr>"

definition node_data :: bytes where
  "node_data = to_binary enc_raw_block sample_raw"

definition node_record :: bytes where
  "node_record = to_binary enc_transaction_pos \<lparr>tp_height = 0, tp_offset = 10, tp_size = 5, tp_index = 0\<rparr>"

definition node_db :: db where
  "node_db = om_set (header_key null_hash) (to_binary enc_header_info node_info)
     (om_set (block_key null_hash) node_data
     (om_set (tip_chain_key 0) null_hash
     (om_set (children_key null_hash) (to_binary enc_u32 0)
     (om_set (cd_tips_key 0 null_hash) []
     (om_set (transaction_key null_hash) node_record
     (om_set (timestamp_block_key 7 0) []
     (om_set (block_global_indices_key null_hash) [] [])))))))"

definition sample_node :: chain_state where
  "sample_node = sample_tree\<lparr>bc_db := node_db, bc_header_tip_window := [node_info]\<rparr>"

lemma node_info_sel [simp]:
  "hi_hash node_info = null_hash" "hi_height node_info = 0" "hi_cumulative_difficulty node_info = 0" "hi_timestamp node_info = 7"
  "hi_previous_block_hash node_info = null_hash" "valid_header_info node_info"
  by (simp_all add: node_info_def empty_header_info_def valid_header_info_def)

lemma node_db_get:
  "db_get node_db k =
     (if k = header_key null_hash then Some (to_binary enc_header_info node_info)
      else if k = block_key null_hash then Some node_data
      else if k = tip_chain_key 0 then Some null_hash
      else if k = children_key null_hash then Some (to_binary enc_u32 0)
      else if k = cd_tips_key 0 null_hash then Some []
      else if k = transaction_key null_hash then Some node_record
      else if k = timestamp_block_key 7 0 then Some []
      else if k = block_global_indices_key null_hash then Some [] else None)"
  by (simp add: node_db_def db_get_def om_find_Cons del: om_set.simps)

lemma sample_node_sel [simp]:
  "bc_db sample_node = node_db" "bc_genesis_bid sample_node = null_hash" "bc_tip_bid sample_node = null_hash"
  "bc_tip_height sample_node = 0" "bc_header_cache sample_node = []" "bc_header_tip_window sample_node = [node_info]"
  "bc_tip_cumulative_difficulty sample_node = 0" "cs_next_gi_for_amount sample_node = []"
  by (simp_all add: sample_node_def sample_tree_def)

lemma node_db_wf [simp]: "om_wf node_db"
  unfolding node_db_def by (intro om_wf_set om_wf_Nil)

lemma node_header_of: "header_of sample_node = [null_hash \<mapsto> node_info]"
  using header_info.from_to_binary [of node_info] by (auto simp: header_of_def node_db_get fun_eq_iff)

lemma node_data_eq: "node_data = 45 # rb_block sample_raw @ [0]"
  by (simp add: node_data_def to_binary_def enc_raw_block_def enc_bytes_def enc_vector_def sample_raw_def null_hash_def write_varint_small)

lemma node_data_facts: "length node_data = 47" "occurs_at node_data [0, 0, 0, 0, 0] 10"
  unfolding node_data_eq sample_raw_def null_hash_def by code_simp+

lemma node_raw: "from_binary dec_raw_block node_data = Inr sample_raw"
  unfolding node_data_def by (rule raw_block.from_to_binary) (simp add: sample_raw_def null_hash_def valid_raw_block_def valid_vector_def fits64_def)

lemma sample_hash_zeros: "cn_fast_hash sample_env [0, 0, 0, 0, 0] = null_hash"
  by code_simp

lemma node_coinbase:
  "enc_transaction (bt_base_transaction (blk_header sample_empty_block)) = Inr [0, 0, 0, 0, 0]"
  "get_transaction_hash sample_env (bt_base_transaction (blk_header sample_empty_block)) = Inr null_hash"
  "bh_previous_block_hash (blk_header sample_empty_block) = null_hash" "bh_timestamp (blk_header sample_empty_block) = 7"
  "bt_transaction_hashes (blk_header sample_empty_block) = []" "blk_transactions sample_empty_block = []"
  "tx_inputs (bt_base_transaction (blk_header sample_empty_block)) = []" "tx_outputs (bt_base_transaction (blk_header sample_empty_block)) = []"
  by (simp_all add: sample_defs enc_transaction_def get_transaction_hash_def sig_size_def is_base_def enc_prefix_def
    enc_vector_def enc_bytes_def enc_u8_def enc_u64_def write_varint_small sample_hash_zeros [unfolded null_hash_def])

lemma empty_block_ledger:
  "lg_block h sample_empty_block L = L" "block_outputs sample_empty_block = []" "block_inputs sample_empty_block = []"
  "block_spends sample_empty_block = []" "coinbase_block sample_empty_block"
  by (simp_all add: lg_block_def lg_tx_def block_outputs_def block_inputs_def block_spends_def tx_spends_def block_txs_def
    coinbase_block_def node_coinbase)

lemma empty_blocks_ledger:
  "(\<And>x b. B x = Some b \<Longrightarrow> b = sample_empty_block) \<Longrightarrow> ledger_of B C = empty_ledger"
proof (induction C rule: rev_induct)
  case (snoc x C)
  then show ?case by (cases "B x") (auto simp: ledger_of_snoc empty_block_ledger dest!: snoc.prems)
qed simp

lemma empty_blocks_sound:
  assumes "\<And>x b. B x = Some b \<Longrightarrow> b = sample_empty_block"
  shows "sound_tree env c H B"
  using assms empty_blocks_ledger [of B]
  by (auto simp: sound_tree_def block_sound_def empty_block_ledger room_def lg_count_def empty_ledger_def valid_outputs_def fresh_spends_def
    dest!: assms)

lemma node_stored: "stored sample_node null_hash node_data sample_raw sample_empty_block"
  by (simp add: stored_def node_db_get node_data_facts node_raw sample_block_read)

lemma node_stored_block: "stored_block sample_node = [null_hash \<mapsto> sample_empty_block]"
  using stored_block_eq [OF node_stored] by (auto simp: stored_block_def node_db_get fun_eq_iff)

lemma node_children: "children (header_of sample_node) x = {}"
  by (auto simp: children_def node_header_of split: if_splits)

lemma sample_node_ok: "node_ok sample_env sample_node [null_hash]"
  unfolding node_ok_def
proof (intro conjI allI impI)
  have hd: "headers_ok sample_node"
    using header_info.from_to_binary [of node_info] by (auto simp: headers_ok_def node_header_of node_db_get split: if_splits)
  have "db_get node_db (tip_chain_key h) = (if unat h < 1 then Some ([null_hash] ! unat h) else None)" for h
    by (auto simp: node_db_get unat_eq_0)
  then show "chain_ok sample_node [null_hash]"
    unfolding chain_ok_def using hd by (simp add: node_header_of tree_ok_def)
  have counter: "children_counter null_hash sample_node = Inr 0"
    by (rule counter_after) (simp add: node_db_get)
  show "index_ok sample_node"
    unfolding index_ok_def
  proof (intro conjI allI impI)
    show "children_counter x sample_node = Inr (word_of_nat (card (children (header_of sample_node) x)))"
      if "header_of sample_node x \<noteq> None" for x
      using that counter unfolding node_children by (auto simp: node_header_of split: if_splits)
    show "(db_get (bc_db sample_node) (cd_tips_key cd x) \<noteq> None) = is_leaf_entry (header_of sample_node) cd x" for cd x
      unfolding is_leaf_entry_def node_children by (auto simp: node_db_get node_header_of)
    show "\<exists>cd x. CD_TIPS_PREFIX @ r = cd_tips_key cd x" if "db_get (bc_db sample_node) (CD_TIPS_PREFIX @ r) \<noteq> None" for r
    proof (cases "CD_TIPS_PREFIX @ r = cd_tips_key 0 null_hash")
      case False
      moreover have "\<not> tree_key (tip_chain_key 0)" "\<not> tree_key (transaction_key null_hash)"
        "\<not> tree_key (timestamp_block_key 7 0)" "\<not> tree_key (block_global_indices_key null_hash)" by simp_all
      then have "CD_TIPS_PREFIX @ r \<noteq> tip_chain_key 0" "CD_TIPS_PREFIX @ r \<noteq> transaction_key null_hash"
        "CD_TIPS_PREFIX @ r \<noteq> timestamp_block_key 7 0" "CD_TIPS_PREFIX @ r \<noteq> block_global_indices_key null_hash"
        using tree_keyI(4) [of r] by metis+
      ultimately show ?thesis using that tips_prefix [of r] by (simp add: node_db_get)
    qed blast
  qed (auto simp: node_header_of node_db_get)
  show "tree_block sample_env sample_node x h" if "header_of sample_node x = Some h" for x h
  proof -
    have "x = null_hash \<and> h = node_info" using that by (simp add: node_header_of split: if_splits)
    then show ?thesis unfolding tree_block_def
      by (intro conjI exI [of _ node_data] exI [of _ sample_raw] exI [of _ sample_empty_block] exI [of _ null_hash])
        (simp_all add: node_stored node_coinbase)
  qed
  show "ledger_ok sample_node (ledger_of (stored_block sample_node) [null_hash])"
  proof -
    have "ledger_of (stored_block sample_node) [null_hash] = empty_ledger"
      by (rule empty_blocks_ledger) (simp add: node_stored_block split: if_splits)
    moreover have "db_get node_db k = None" if "ledger_key k" for k
      using that by (auto simp: node_db_get)
    moreover have "ledger_key (AMOUNT_OUTPUT_PREFIX @ r)" for r by (auto simp: ledger_key_def)
    ultimately show ?thesis by (simp add: ledger_ok_def empty_ledger_def lg_read_def lg_count_def)
  qed
  show "chain_fresh (stored_block sample_node) [null_hash]"
    by (simp add: chain_fresh_def node_stored_block empty_block_ledger fresh_inputs_def fresh_spends_def)
  show "(db_get (bc_db sample_node) (block_global_indices_key x) \<noteq> None) = (x \<in> set [null_hash])" for x
    by (auto simp: node_db_get)
  show "block_indexed sample_env sample_node i ([null_hash] ! i)" if "i < length [null_hash]" for i
  proof -
    have "tx_record node_data 0 [0, 0, 0, 0, 0] 0 node_record"
      using node_data_facts(2) by (auto simp: tx_record_def node_record_def intro!: exI [of _ 10])
    with that show ?thesis unfolding block_indexed_def
      by (intro exI [of _ node_data] exI [of _ sample_raw] exI [of _ sample_empty_block] exI [of _ null_hash] exI [of _ "[0, 0, 0, 0, 0]"])
        (simp add: node_stored node_coinbase node_db_get block_tids_def)
  qed
qed

lemma node_next_prepared:
  "\<exists>pb. prepare_block_data sample_env True node_data = Inr (Some pb) \<and> pp_raw_block pb = sample_raw \<and>
     pp_block pb = sample_empty_block \<and> pod32 (pp_bid pb) \<and> pp_bid pb \<noteq> null_hash"
proof -
  let ?ba = "[1, 0, 7] @ null_hash @ [112, 17, 1, 0] @ null_hash @ [1]"
  have t: "blk_header sample_empty_block = sample_template" "bt_transaction_hashes sample_template = []" "bh_major_version sample_template = 1"
    by (simp_all add: sample_defs)
  have "enc_block_header sample_template = Inr ([1, 0, 7] @ null_hash @ [112, 17, 1, 0])"
    by (simp add: sample_defs enc_block_header_def version_bounds enc_nonce_def enc_u8_def enc_u32_def enc_u64_def write_varint_small)
  then have ba: "get_block_hashing_binary_array sample_env sample_template = Inr ?ba"
    using node_coinbase(2)
    by (simp add: get_block_hashing_binary_array_def get_transaction_tree_hash_def t tree_hash_def write_varint_small)
  have pod: "pod32 (cn_fast_hash sample_env b)" for b by (simp add: sample_env_def pod32_def)
  have "to_binary enc_bytes ?ba = 72 # ?ba" by (simp add: to_binary_def enc_bytes_def write_varint_small null_hash_def)
  then have "hd (cn_fast_hash sample_env (to_binary enc_bytes ?ba)) = 72" by (simp add: sample_env_def)
  moreover have "hd null_hash = 0" by (simp add: null_hash_def)
  ultimately have "cn_fast_hash sample_env (to_binary enc_bytes ?ba) \<noteq> null_hash" by auto
  then show ?thesis
    using ba pod node_coinbase(1,2)
    by (simp add: prepare_block_data_def node_raw prepare_block_def sample_block_read Let_def t get_block_hash_def get_block_long_hash_def version_bounds)
qed

end
