(* ===== verification/Block_Accept.thy ===== *)
theory Block_Accept
  imports Sample_Node
begin

text \<open>
  \<open>BlockChain::add_block\<close> as a whole: whatever block arrives, the state it leaves is again one
  in which the ledger, the index of transactions and the block tree agree with the current chain.
\<close>

section \<open>What the check leaves alone\<close>

text \<open>The members of a header that name the block and its place in the tree.\<close>

definition same_origin :: "header_info \<Rightarrow> header_info \<Rightarrow> bool" where
  "same_origin h h' \<longleftrightarrow> hi_hash h' = hi_hash h \<and> hi_height h' = hi_height h \<and>
     hi_previous_block_hash h' = hi_previous_block_hash h \<and> hi_timestamp h' = hi_timestamp h"

lemma check_block_reward_origin:
  "check_block_reward env c pb info prev_info n m check_pow = Inr (e, info') \<Longrightarrow> same_origin info info'"
  by (auto simp: check_block_reward_def same_origin_def Let_def res_bind_eq_Inr split: option.splits prod.splits if_splits)

text \<open>A change of the cache that keeps it one.\<close>

definition cached :: "chain_state \<Rightarrow> chain_state \<Rightarrow> bool" where
  "cached s s' \<longleftrightarrow> (\<exists>cache. s' = s\<lparr>bc_header_cache := cache\<rparr> \<and> headers_ok s')"

lemma cached_refl: "headers_ok s \<Longrightarrow> cached s s"
  unfolding cached_def by (intro exI [of _ "bc_header_cache s"]) simp

lemma cached_trans: "cached s t \<Longrightarrow> cached t u \<Longrightarrow> cached s u"
  by (auto simp: cached_def)

lemma node_ok_cached: "node_ok env s C \<Longrightarrow> cached s s' \<Longrightarrow> node_ok env s' C"
  by (auto simp: cached_def intro: node_ok_cache)

lemma cached_keeps:
  assumes "cached s s'"
  shows "header_of s' = header_of s" "bc_db s' = bc_db s" "bc_genesis_bid s' = bc_genesis_bid s"
    "bc_tip_cumulative_difficulty s' = bc_tip_cumulative_difficulty s" "headers_ok s'" "same_tree s s'"
    "tree_ok s \<Longrightarrow> tree_ok s'"
  using assms by (auto simp: cached_def same_tree_def tree_ok_def)

lemma read_header_cached:
  assumes "headers_ok s"
  obtains s' where "read_header c bid hint s = Inr (header_of s bid, s')" "cached s s'"
  using read_header_ok [OF assms, of c bid hint] that unfolding cached_def by blast

lemma block_difficulty_cached:
  assumes "headers_ok s" "tree_ok s" "header_of s bid = Some h" "block_difficulty c h s = Inr (d, s')"
  shows "cached s s'"
proof -
  let ?n = "min (hi_height h) (get_difficulty_blocks_count c (bc_tip_height s + 1))"
  obtain cache where "get_tip_segment c h ?n False s =
      Inr (rev (trail (header_of s) False (unat ?n) h), s\<lparr>bc_header_cache := cache\<rparr>)" "headers_ok (s\<lparr>bc_header_cache := cache\<rparr>)"
    using get_tip_segment_ok [OF assms(1-3)] by blast
  with assms(4) show ?thesis by (auto simp: block_difficulty_def res_bind_eq_Inr Let_def cached_def)
qed

lemma check_sized_block_cached:
  assumes "headers_ok s" "tree_ok s" "header_of s bid = Some p"
    and r: "check_sized_block env c now pb info p n check_pow s = Inr (e, info', s')"
  shows "cached s s' \<and> same_origin info info'"
  using r cached_refl [OF assms(1)] block_difficulty_cached [OF assms(1-3)] unfolding check_sized_block_def Let_def
  by (auto simp: res_bind_eq_Inr same_origin_def split: if_splits sum.splits
    dest!: check_block_reward_origin [unfolded same_origin_def])

lemma check_standalone_cached:
  assumes "headers_ok s" "tree_ok s" "header_of s bid = Some p"
    and r: "check_standalone_consensus env c now pb info p check_pow s = Inr (e, info', s')"
  shows "cached s s' \<and> same_origin info info'"
proof -
  let ?header = "blk_header (pp_block pb)" and ?txs = "blk_transactions (pp_block pb)" and ?raws = "rb_transactions (pp_raw_block pb)"
  note refl = cached_refl [OF assms(1)]
  show ?thesis
  proof (cases "length ?txs \<noteq> length (bt_transaction_hashes ?header) \<or> length ?txs \<noteq> length ?raws")
    case True
    with r have "s' = s" "info' = info" by (simp_all add: check_standalone_consensus_def Let_def)
    with refl show ?thesis by (simp add: same_origin_def)
  next
    case len: False
    define info1 where "info1 sm tm = info\<lparr>hi_size_median := sm, hi_timestamp_median := tm,
      hi_effective_size_median := max sm (block_granted_full_reward_zone_by_block_version c (bh_major_version ?header))\<rparr>" for sm tm
    have i1: "same_origin info (info1 sm tm)" for sm tm by (simp add: info1_def same_origin_def)
    obtain sm tm s1 where med: "(if bc_tip_bid s \<noteq> hi_hash p then calculate_consensus_values c p s
        else Inr ((cs_next_median_size s, cs_next_median_timestamp s), s)) = Inr ((sm, tm), s1)"
      using r len by (auto simp: check_standalone_consensus_def Let_def res_bind_eq_Inr split: if_splits)
    have s1: "cached s s1"
      using med calculate_consensus_values_ok [OF assms(1-3), of c] refl by (auto simp: cached_def split: if_splits)
    have "res_bind (check_block_transactions env (max_transaction_allowed_size c (hi_effective_size_median (info1 sm tm)))
        ?raws ?txs (bt_transaction_hashes ?header) 0) (\<lambda>sizes. case sizes of Inl e \<Rightarrow> Inr (e, info1 sm tm, s1)
          | Inr n \<Rightarrow> check_sized_block env c now pb (info1 sm tm) p n check_pow s1) = Inr (e, info', s')"
      using r len unfolding check_standalone_consensus_def Let_def med info1_def by simp
    then obtain sizes where m: "(case sizes of Inl e \<Rightarrow> Inr (e, info1 sm tm, s1)
          | Inr n \<Rightarrow> check_sized_block env c now pb (info1 sm tm) p n check_pow s1) = Inr (e, info', s')"
      by (auto simp: res_bind_eq_Inr)
    show ?thesis
    proof (cases sizes)
      case (Inl e')
      with m have "s' = s1" "info' = info1 sm tm" by simp_all
      with s1 i1 show ?thesis by simp
    next
      case (Inr n)
      with m have 2: "check_sized_block env c now pb (info1 sm tm) p n check_pow s1 = Inr (e, info', s')" by simp
      note K = cached_keeps [OF s1]
      have "cached s1 s' \<and> same_origin (info1 sm tm) info'"
        by (rule check_sized_block_cached [OF K(5) K(7) [OF assms(2)] _ 2, of bid]) (simp add: K assms(3))
      with s1 i1 [of sm tm] show ?thesis by (auto simp: same_origin_def intro: cached_trans)
    qed
  qed
qed

lemma check_standalone_lengths:
  assumes "check_standalone_consensus env c now pb info p check_pow s = Inr ([], info', s')"
  shows "length (bt_transaction_hashes (blk_header (pp_block pb))) = length (blk_transactions (pp_block pb))"
  using assms by (auto simp: check_standalone_consensus_def Let_def split: if_splits)

section \<open>A new block in the tree\<close>

lemma node_ok_grow:
  assumes ok: "node_ok env s C" and new: "header_of s bid = None" and H: "header_of s' = (header_of s)(bid \<mapsto> info)"
    and hd: "headers_ok s'" and tree: "tree_ok s'" and ix: "index_ok s'" and tip: "same_tip s s'"
    and gi: "cs_next_gi_for_amount s' = cs_next_gi_for_amount s"
    and keys: "\<And>k. k \<noteq> header_key bid \<Longrightarrow> k \<noteq> block_key bid \<Longrightarrow> (\<And>x. k \<noteq> children_key x) \<Longrightarrow> (\<And>cd x. k \<noteq> cd_tips_key cd x) \<Longrightarrow>
      db_get (bc_db s') k = db_get (bc_db s) k"
    and blk: "tree_block env s' bid info"
  shows "node_ok env s' C"
proof -
  note chain = node_okD(1) [OF ok]
  have other: "db_get (bc_db s') k = db_get (bc_db s) k" if "\<not> tree_key k" for k
  proof (rule keys)
    show "k \<noteq> header_key bid" "k \<noteq> block_key bid" using that by auto
    show "k \<noteq> children_key x" for x using that by auto
    show "k \<noteq> cd_tips_key cd x" for x cd using that by auto
  qed
  have st: "stored s' x = stored s x" "stored_block s' x = stored_block s x" if "x \<noteq> bid" for x
  proof -
    have "db_get (bc_db s') (block_key x) = db_get (bc_db s) (block_key x)" by (rule keys) (use that in simp_all)
    then show "stored s' x = stored s x" "stored_block s' x = stored_block s x"
      by (simp_all add: stored_def stored_block_def fun_eq_iff)
  qed
  have inC: "\<exists>h. header_of s x = Some h" "x \<noteq> bid" if "x \<in> set C" for x
  proof -
    from that obtain i where i: "i < length C" "x = C ! i" by (auto simp: in_set_conv_nth)
    obtain h where "header_of s x = Some h" using chain_ok_header [OF chain i(1)] i(2) by blast
    with new show "\<exists>h. header_of s x = Some h" "x \<noteq> bid" by auto
  qed
  have T: "bc_tip_bid s' = bc_tip_bid s" "bc_tip_height s' = bc_tip_height s" "bc_header_tip_window s' = bc_header_tip_window s"
    "bc_tip_cumulative_difficulty s' = bc_tip_cumulative_difficulty s"
    using tip unfolding same_tip_def by blast+
  have H': "header_of s' x = header_of s x" if "x \<in> set C" for x using inC(2) [OF that] by (simp add: H)
  show ?thesis
    unfolding node_ok_def
  proof (intro conjI allI impI)
    have ne: "C \<noteq> []" by (rule chain_okD(3) [OF chain])
    have tk: "db_get (bc_db s') (tip_chain_key h) = db_get (bc_db s) (tip_chain_key h)" for h by (rule other) simp
    have Hi: "header_of s' (C ! i) = header_of s (C ! i)" if "i < length C" for i using that by (intro H') simp
    have "\<forall>i < length C. \<exists>h. header_of s' (C ! i) = Some h \<and> unat (hi_height h) = i \<and>
      (i \<noteq> 0 \<longrightarrow> hi_previous_block_hash h = C ! (i - 1))"
      using chain_ok_header [OF chain] Hi by metis
    moreover have "header_of s' (last C) = header_of s (last C)" using ne by (intro H') simp
    ultimately show "chain_ok s' C"
      using chain hd tree unfolding chain_ok_def T tk by simp
    show "index_ok s'" by (rule ix)
    show "tree_block env s' x h" if "header_of s' x = Some h" for x h
    proof (cases "x = bid")
      case True
      with that blk show ?thesis by (simp add: H)
    next
      case False
      with that have "tree_block env s x h" by (intro node_okD(3) [OF ok]) (simp add: H)
      with st(1) [OF False] show ?thesis by (simp add: tree_block_def)
    qed
    have B: "stored_block s' x = stored_block s x" if "x \<in> set C" for x by (rule st(2) [OF inC(2) [OF that]])
    have "ledger_ok s' (ledger_of (stored_block s) C)"
      by (rule ledger_ok_same [OF node_okD(4) [OF ok] headers_okD(1) [OF hd] _ gi]) (rule other, use tree_key_not_ledger in blast)
    then show "ledger_ok s' (ledger_of (stored_block s') C)" using ledger_of_cong [of C, OF B] by simp
    show "chain_fresh (stored_block s') C" using node_okD(5) [OF ok] chain_fresh_cong [of C, OF B] by simp
    show "db_get (bc_db s') (block_global_indices_key x) \<noteq> None \<longleftrightarrow> x \<in> set C" for x
      using node_okD(6) [OF ok, of x] other [of "block_global_indices_key x"] by simp
    fix i assume i: "i < length C"
    show "block_indexed env s' i (C ! i)"
    proof (rule block_indexed_frame [OF node_okD(7) [OF ok i]])
      show "stored s' (C ! i) = stored s (C ! i)" using i by (intro st(1) inC(2)) simp
      show "db_get (bc_db s') (timestamp_block_key ts (word_of_nat i)) \<noteq> None"
        if "db_get (bc_db s) (timestamp_block_key ts (word_of_nat i)) \<noteq> None" for ts
        using that other [of "timestamp_block_key ts (word_of_nat i)"] by simp
      show "db_get (bc_db s') (transaction_key tid) = Some v" if "db_get (bc_db s) (transaction_key tid) = Some v" for tid v
        using that other [of "transaction_key tid"] by simp
    qed
  qed
qed

text \<open>The block as \<open>prepare_block\<close> made it from bytes, and what was stored before under its name.\<close>

definition prepared :: "crypto_env \<Rightarrow> prepared_block \<Rightarrow> bool" where
  "prepared env pb \<longleftrightarrow> pod32 (pp_bid pb) \<and> length (pp_block_data pb) < 2 ^ 32 \<and>
     from_binary dec_raw_block (pp_block_data pb) = Inr (pp_raw_block pb) \<and>
     from_raw_block (pp_raw_block pb) = (True, Some (pp_block pb)) \<and>
     get_transaction_hash env (bt_base_transaction (blk_header (pp_block pb))) = Inr (pp_base_transaction_hash pb)"

lemma prepare_block_prepared:
  assumes "prepare_block_data env has_context block_data = Inr (Some pb)" "fst (from_raw_block (pp_raw_block pb))"
    and "length block_data < 2 ^ 32" "pod32 (pp_bid pb)"
  shows "prepared env pb" "pp_block_data pb = block_data"
proof -
  from assms(1) obtain raw where raw: "from_binary dec_raw_block block_data = Inr raw" "prepare_block env has_context raw = Inr (Some pb)"
    by (auto simp: prepare_block_data_def res_bind_eq_Inr)
  then have data: "block_data = to_binary enc_raw_block raw" by (simp add: raw_block.from_binary_iff)
  obtain ok b where b: "from_raw_block raw = (ok, Some b)" "pp_block pb = b" "pp_raw_block pb = raw"
    "pp_block_data pb = to_binary enc_raw_block raw"
    "get_transaction_hash env (bt_base_transaction (blk_header b)) = Inr (pp_base_transaction_hash pb)"
    using raw(2) by (auto simp: prepare_block_def res_bind_eq_Inr Let_def split: prod.splits option.splits)
  with assms data raw(1) show "prepared env pb" "pp_block_data pb = block_data" by (simp_all add: prepared_def)
qed

lemma store_block_keeps:
  assumes "headers_ok s" "tree_ok s" "index_ok s" and db: "db_put (bc_db s) (block_key bid) d True = Inr db"
  shows "header_of (s\<lparr>bc_db := db\<rparr>) = header_of s" "headers_ok (s\<lparr>bc_db := db\<rparr>)" "tree_ok (s\<lparr>bc_db := db\<rparr>)"
    "index_ok (s\<lparr>bc_db := db\<rparr>)"
proof -
  note get = db_get_put [OF db]
  show H: "header_of (s\<lparr>bc_db := db\<rparr>) = header_of s" by (simp add: header_of_def get fun_eq_iff)
  show "headers_ok (s\<lparr>bc_db := db\<rparr>)"
    using assms(1) om_wf_put [OF headers_okD(1) [OF assms(1)] db] by (simp add: headers_ok_def H get)
  show "tree_ok (s\<lparr>bc_db := db\<rparr>)" using tree_ok_same [OF assms(2) H] by simp
  have "children_counter x (s\<lparr>bc_db := db\<rparr>) = children_counter x s" for x by (rule counter_same) (simp add: get)
  moreover have "CD_TIPS_PREFIX @ r \<noteq> block_key bid" for r by (simp add: CD_TIPS_PREFIX_def block_key_def BLOCK_PREFIX_def)
  ultimately show "index_ok (s\<lparr>bc_db := db\<rparr>)" using assms(3) by (simp add: index_ok_def H get)
qed

lemma genesis_in_tree:
  assumes "chain_ok s C"
  shows "header_of s (bc_genesis_bid s) \<noteq> None"
proof -
  have "0 < length C" using chain_okD(3) [OF assms] by simp
  then obtain h where h: "header_of s (C ! 0) = Some h" "unat (hi_height h) = 0" by (rule chain_ok_header [OF assms])
  then have "C ! 0 = bc_genesis_bid s" using chain_okD(2) [OF assms] by (auto simp: tree_ok_def unat_eq_0)
  with h(1) show ?thesis by simp
qed

lemma enter_tree_ok:
  assumes ok: "node_ok env s C" and prep: "prepared env pb" and new: "header_of s (pp_bid pb) = None"
    and before: "\<And>d. db_get (bc_db s) (block_key (pp_bid pb)) = Some d \<Longrightarrow> d = pp_block_data pb"
    and p: "header_of s (hi_previous_block_hash info) = Some p" "hi_height info = hi_height p + 1" "hi_height info \<noteq> - 1"
    and info: "hi_hash info = pp_bid pb" "hi_previous_block_hash info = bh_previous_block_hash (blk_header (pp_block pb))"
      "hi_timestamp info = bh_timestamp (blk_header (pp_block pb))"
    and len: "length (bt_transaction_hashes (blk_header (pp_block pb))) = length (blk_transactions (pp_block pb))"
    and room: "card (dom (header_of s)) + 1 < 2 ^ 32"
  shows "\<exists>s'. enter_tree env c pb info p (has_block (pp_bid pb) s) s = Inr s' \<and> node_ok env s' C \<and> same_tip s s' \<and>
    header_of s' = (header_of s)(pp_bid pb \<mapsto> info) \<and> stored_block s' = (stored_block s)(pp_bid pb \<mapsto> pp_block pb) \<and>
    received env s' pb info"
proof -
  let ?bid = "pp_bid pb" and ?d = "pp_block_data pb"
  note chain = node_okD(1) [OF ok]
  note okd = chain_okD(1,2) [OF chain] node_okD(2) [OF ok]
  obtain s0 where store: "(if \<not> has_block ?bid s then store_block ?bid ?d s else Inr s) = Inr s0"
    and s0: "s0 = s\<lparr>bc_db := bc_db s0\<rparr>" "header_of s0 = header_of s" "headers_ok s0" "tree_ok s0" "index_ok s0"
    and get0: "\<And>k. db_get (bc_db s0) k = (if k = block_key ?bid then Some ?d else db_get (bc_db s) k)"
  proof (cases "has_block ?bid s")
    case True
    then obtain d where "db_get (bc_db s) (block_key ?bid) = Some d" by (auto simp: has_block_def)
    with before True okd that [of s] show ?thesis by auto
  next
    case False
    then obtain db where db: "db_put (bc_db s) (block_key ?bid) ?d True = Inr db" by (auto simp: has_block_def db_put_def)
    with False that [of "s\<lparr>bc_db := db\<rparr>"] store_block_keeps [OF okd db] db_get_put [OF db] show ?thesis
      by (simp add: store_block_def)
  qed
  have pod: "pod32 (hi_previous_block_hash info)" using node_okD(3) [OF ok p(1)] by (simp add: tree_block_def)
  have gen: "?bid \<noteq> bc_genesis_bid s" using genesis_in_tree [OF chain] new by auto
  have valid: "valid_header_info info" using pod prep by (simp add: valid_header_info_def info(1) prepared_def)
  obtain db where leaf: "add_leaf info (hi_cumulative_difficulty p) s0 = Inr (s0\<lparr>bc_db := db\<rparr>)"
    "header_of (s0\<lparr>bc_db := db\<rparr>) = (header_of s0)(?bid \<mapsto> info)"
    "headers_ok (s0\<lparr>bc_db := db\<rparr>)" "tree_ok (s0\<lparr>bc_db := db\<rparr>)" "index_ok (s0\<lparr>bc_db := db\<rparr>)"
    and keys: "\<And>key. key \<noteq> header_key ?bid \<Longrightarrow> (\<And>x. key \<noteq> children_key x) \<Longrightarrow> (\<And>cd x. key \<noteq> cd_tips_key cd x) \<Longrightarrow>
       db_get db key = db_get (bc_db s0) key"
    using add_leaf_ok [OF s0(3,4,5) info(1) _ valid refl _ p(2,3)] new p(1) room by (auto simp: s0(2))
  define s' where "s' = s0\<lparr>bc_db := db\<rparr>"
  have sel: "bc_genesis_bid s0 = bc_genesis_bid s" by (subst s0(1)) simp
  obtain d1 where d1: "db_put (bc_db s0) (header_key ?bid) (to_binary enc_header_info info) True = Inr d1"
    using leaf(1) by (auto simp: add_leaf_def store_header_def res_bind_eq_Inr Let_def info(1))
  have run: "enter_tree env c pb info p (has_block ?bid s) s = Inr s'"
    using leaf(1) gen unfolding enter_tree_def Let_def store
    by (simp add: add_leaf_def Let_def info(1,2) s'_def store_header_def sel d1)
  have H: "header_of s' = (header_of s)(?bid \<mapsto> info)" using leaf(2) by (simp add: s'_def s0(2))
  have tip: "same_tip s s'" "cs_next_gi_for_amount s' = cs_next_gi_for_amount s"
    unfolding s'_def by (subst s0(1), simp add: same_tip_def)+
  have blk: "db_get (bc_db s') (block_key x) = (if x = ?bid then Some ?d else db_get (bc_db s) (block_key x))" for x
    using keys [of "block_key x"] by (simp add: s'_def get0)
  have st: "stored s' ?bid ?d (pp_raw_block pb) (pp_block pb)" using prep by (simp add: stored_def blk prepared_def)
  have B: "stored_block s' = (stored_block s)(?bid \<mapsto> pp_block pb)"
  proof
    fix x
    show "stored_block s' x = ((stored_block s)(?bid \<mapsto> pp_block pb)) x"
      using stored_block_eq [OF st] by (cases "x = ?bid") (simp_all add: stored_block_def blk)
  qed
  have tb: "tree_block env s' ?bid info"
    using st prep info len by (auto simp: tree_block_def prepared_def)
  have "node_ok env s' C"
  proof (rule node_ok_grow [OF ok new H _ _ _ tip _ tb])
    show "headers_ok s'" "tree_ok s'" "index_ok s'" using leaf(3-5) by (simp_all add: s'_def)
    show "db_get (bc_db s') k = db_get (bc_db s) k" if "k \<noteq> header_key ?bid" "k \<noteq> block_key ?bid"
      "\<And>x. k \<noteq> children_key x" "\<And>cd x. k \<noteq> cd_tips_key cd x" for k
      using keys [OF that(1,3,4)] that(2) by (simp add: s'_def get0)
  qed
  moreover have "received env s' pb info" using st prep by (simp add: received_def H prepared_def)
  ultimately show ?thesis using run tip H B by blast
qed

section \<open>The tip\<close>

lemma move_tip_ok:
  assumes ok: "node_ok env s C" and sound: "sound_tree env c (header_of s) (stored_block s)"
    and rc: "received env s pb info" and c: "windows_ok c" and room: "unat (hi_height info) + 2 < 2 ^ 32"
    and info: "hi_previous_block_hash info = bh_previous_block_hash (blk_header (pp_block pb))" "hi_height info \<noteq> 0"
  shows "\<exists>r. move_tip env c pb info s = Some r \<and> (\<forall>refused s'. r = Inr (refused, s') \<longrightarrow> same_tree s s' \<and>
    (\<exists>C'. node_ok env s' C' \<and> (C' \<noteq> C \<longrightarrow> bc_tip_cumulative_difficulty s < hi_cumulative_difficulty info)))"
proof (cases "hi_cumulative_difficulty info > bc_tip_cumulative_difficulty s")
  case False
  with ok show ?thesis by (auto simp: move_tip_def)
next
  case work: True
  note chain = node_okD(1) [OF ok] and tip = chain_okD(8) [OF node_okD(1) [OF ok]]
  show ?thesis
  proof (cases "bc_tip_bid s = bh_previous_block_hash (blk_header (pp_block pb))")
    case False
    from reorganize_blocks_ok [OF ok sound rc c room] obtain r where r: "reorganize_blocks env c (pp_bid pb) pb info s = Some r"
      and R: "\<forall>res s'. r = Inr (res, s') \<longrightarrow> same_tree s s' \<and>
        (\<exists>D ys zs. C = D @ ys \<and> D \<noteq> [] \<and> node_ok env s' (D @ zs) \<and> (res \<longrightarrow> last (D @ zs) = pp_bid pb))"
      by (elim exE conjE)
    show ?thesis
    proof (cases r)
      case (Inl e)
      with r False work show ?thesis by (simp add: move_tip_def)
    next
      case (Inr x)
      obtain res s' where x: "x = (res, s')" by (cases x)
      with r Inr False work have "move_tip env c pb info s = Some (Inr (False, s'))" by (simp add: move_tip_def)
      moreover from R Inr x have "same_tree s s'" "\<exists>C'. node_ok env s' C'" by blast+
      ultimately show ?thesis using work by simp
    qed
  next
    case True
    have h: "header_of s (pp_bid pb) = Some info" "hi_previous_block_hash info = last C"
      using rc True by (simp_all add: received_def info(1) tip)
    have len: "length C + 1 < 2 ^ 32" using next_height [OF chain h(1) info(2) h(2)] room by simp
    have st: "stored s (pp_bid pb) (pp_block_data pb) (pp_raw_block pb) (pp_block pb)"
      "get_transaction_hash env (bt_base_transaction (blk_header (pp_block pb))) = Inr (pp_base_transaction_hash pb)"
      using rc by (simp_all add: received_def)
    let ?redo = "redo_indexed_block env c (pp_bid pb) (pp_block_data pb) (pp_raw_block pb) (pp_block pb) info (pp_base_transaction_hash pb) s"
    show ?thesis
    proof (cases ?redo)
      case (Inl e)
      with work True show ?thesis by (simp add: move_tip_def)
    next
      case (Inr rt)
      then obtain res t where t: "?redo = Inr (res, t)" by (cases rt) simp
      show ?thesis
      proof (cases res)
        case False
        with t have "?redo = Inr (False, t)" by simp
        then have "t = s" by (rule redo_indexed_block_False)
        with t work True False have "move_tip env c pb info s = Some (Inr (True, s))" by (simp add: move_tip_def)
        with ok show ?thesis by auto
      next
        case res: True
        with t have "?redo = Inr (True, t)" by simp
        from redo_path_ok [OF ok sound h(1) info(2) h(2) st this c len] obtain s' where
          "push_chain c info t = Inr s'" "node_ok env s' (C @ [pp_bid pb])" "same_tree s s'" by blast
        moreover from this t work True res have "move_tip env c pb info s = Some (Inr (False, s'))" by (simp add: move_tip_def)
        ultimately show ?thesis using work by auto
      qed
    qed
  qed
qed

section \<open>Accepting a block\<close>

lemma node_ok_db_commit: "node_ok env s C \<Longrightarrow> node_ok env (db_commit s) C"
proof -
  assume ok: "node_ok env s C"
  have "headers_ok (s\<lparr>bc_header_cache := []\<rparr>)"
    using chain_okD(1) [OF node_okD(1) [OF ok]] by (simp add: headers_ok_def header_of_def)
  then show ?thesis unfolding db_commit_def by (rule node_ok_cache [OF ok])
qed

lemma add_checked_block_ok:
  assumes ok: "node_ok env s C" and c: "windows_ok c" and prep: "prepared env pb" and new: "header_of s (pp_bid pb) = None"
    and before: "\<And>d. db_get (bc_db s) (block_key (pp_bid pb)) = Some d \<Longrightarrow> d = pp_block_data pb"
    and p: "header_of s (hi_previous_block_hash info) = Some p" "hi_height info = hi_height p + 1" "unat (hi_height p) + 3 < 2 ^ 32"
    and info: "hi_hash info = pp_bid pb" "hi_previous_block_hash info = bh_previous_block_hash (blk_header (pp_block pb))"
      "hi_timestamp info = bh_timestamp (blk_header (pp_block pb))"
    and len: "length (bt_transaction_hashes (blk_header (pp_block pb))) = length (blk_transactions (pp_block pb))"
    and room: "card (dom (header_of s)) + 1 < 2 ^ 32"
    and sound: "sound_tree env c ((header_of s)(pp_bid pb \<mapsto> info)) ((stored_block s)(pp_bid pb \<mapsto> pp_block pb))"
  shows "\<exists>r. add_checked_block env c pb info p (has_block (pp_bid pb) s) s = Some r \<and>
    (\<forall>a info' s'. r = Added a info' s' \<longrightarrow> info' = info \<and> header_of s' = (header_of s)(pp_bid pb \<mapsto> info) \<and>
      (\<exists>C'. node_ok env s' C' \<and> (C' \<noteq> C \<longrightarrow> bc_tip_cumulative_difficulty s < hi_cumulative_difficulty info) \<and>
        (a = BROADCAST_ALL \<longrightarrow> last C' = pp_bid pb)))"
proof -
  have hh: "unat (hi_height info) = unat (hi_height p) + 1" using p(2,3) by (simp add: unat_word_ariths)
  have "unat (- 1 :: height) = 2 ^ 32 - 1" by (simp add: unsigned_minus_1_eq_mask mask_eq_exp_minus_1)
  with hh p(3) have h: "hi_height info \<noteq> - 1" "hi_height info \<noteq> 0" "unat (hi_height info) + 2 < 2 ^ 32" by auto
  obtain s1 where s1: "enter_tree env c pb info p (has_block (pp_bid pb) s) s = Inr s1" "node_ok env s1 C" "same_tip s s1"
    "header_of s1 = (header_of s)(pp_bid pb \<mapsto> info)" "stored_block s1 = (stored_block s)(pp_bid pb \<mapsto> pp_block pb)"
    "received env s1 pb info"
    using enter_tree_ok [OF ok prep new before p(1,2) h(1) info len room, of c] by blast
  have sound1: "sound_tree env c (header_of s1) (stored_block s1)" using sound by (simp add: s1)
  obtain r where r: "move_tip env c pb info s1 = Some r" "\<And>refused s'. r = Inr (refused, s') \<Longrightarrow> same_tree s1 s' \<and>
    (\<exists>C'. node_ok env s' C' \<and> (C' \<noteq> C \<longrightarrow> bc_tip_cumulative_difficulty s1 < hi_cumulative_difficulty info))"
    using move_tip_ok [OF s1(2) sound1 s1(6) c h(3) info(2) h(2)] by blast
  have cd: "bc_tip_cumulative_difficulty s1 = bc_tip_cumulative_difficulty s" using s1(3) by (simp add: same_tip_def)
  show ?thesis
  proof (cases r)
    case (Inl e)
    with r(1) s1(1) show ?thesis by (simp add: add_checked_block_def)
  next
    case (Inr x)
    then obtain refused s2 where s2: "r = Inr (refused, s2)" by (cases x) simp
    from r(2) [OF this] obtain C' where C': "same_tree s1 s2" "node_ok env s2 C'"
      "C' \<noteq> C \<longrightarrow> bc_tip_cumulative_difficulty s < hi_cumulative_difficulty info" by (auto simp: cd)
    define s3 where "s3 = (if unat (bc_tip_height s2) mod COMMIT_EVERY_N_BLOCKS = COMMIT_EVERY_N_BLOCKS - 1 then db_commit s2 else s2)"
    have s3: "node_ok env s3 C'" "bc_tip_bid s3 = last C'" "header_of s3 = header_of s2"
      using node_ok_db_commit [OF C'(2)] C'(2) chain_okD(8) [OF node_okD(1) [OF C'(2)]]
      by (simp_all add: s3_def db_commit_def)
    have H: "header_of s2 = (header_of s)(pp_bid pb \<mapsto> info)" by (simp add: same_treeD(1) [OF C'(1)] s1(4))
    have "add_checked_block env c pb info p (has_block (pp_bid pb) s) s =
        Some (if refused then Added BAN info s2 else Added (if hi_hash info = bc_tip_bid s3 then BROADCAST_ALL else NOTHING) info s3)"
      using s1(1) r(1) s2 by (cases refused) (simp_all add: add_checked_block_def s3_def Let_def)
    moreover have "\<exists>C'. node_ok env s2 C' \<and> (C' \<noteq> C \<longrightarrow> bc_tip_cumulative_difficulty s < hi_cumulative_difficulty info)"
      "\<exists>C''. node_ok env s3 C'' \<and> (C'' \<noteq> C \<longrightarrow> bc_tip_cumulative_difficulty s < hi_cumulative_difficulty info) \<and>
        (hi_hash info = bc_tip_bid s3 \<longrightarrow> last C'' = pp_bid pb)"
      using C'(2,3) s3(1,2) info(1) by (blast, auto)
    ultimately show ?thesis using H s3(3) by (cases refused; cases "hi_hash info = bc_tip_bid s3") auto
  qed
qed



end
