(* ===== verification/Base58.thy ===== *)
theory Base58
  imports Chain_Base
begin

text \<open>
  Text forms of binary data and of addresses (\<open>common/Base58\<close>, and the address functions of
  \<open>Core/Currency\<close>): blocks of eight bytes as eleven digits to the base 58, and an address as
  tag, keys and checksum in that form.
\<close>

section \<open>Tables\<close>

definition alphabet :: string where
  "alphabet = ''123456789ABCDEFGHJKLMNPQRSTUVWXYZabcdefghijkmnopqrstuvwxyz''"

definition encoded_block_sizes :: "nat list" where
  "encoded_block_sizes = [0, 2, 3, 5, 6, 7, 9, 10, 11]"

definition full_block_size :: nat where
  "full_block_size = length encoded_block_sizes - 1"

definition full_encoded_block_size :: nat where
  "full_encoded_block_size = encoded_block_sizes ! full_block_size"

definition addr_checksum_size :: nat where
  "addr_checksum_size = 4"

text \<open>The constructors of \<open>reverse_alphabet\<close> and \<open>decoded_block_sizes\<close>, and their look-ups.\<close>

definition alphabet_pos :: "char \<Rightarrow> nat" where
  "alphabet_pos letter = of_char letter"

definition reverse_table :: "int list" where
  "reverse_table = fold (\<lambda>i m. m[alphabet_pos (alphabet ! i) - alphabet_pos (alphabet ! 0) := int i]) [0..<length alphabet]
     (replicate (alphabet_pos (last alphabet) - alphabet_pos (hd alphabet) + 1) (- 1))"

definition reverse_alphabet :: "char \<Rightarrow> int" where
  "reverse_alphabet letter =
     (let a = alphabet_pos letter; z = alphabet_pos (alphabet ! 0)
      in if z \<le> a \<and> a - z < length reverse_table then reverse_table ! (a - z) else - 1)"

definition decoded_block_sizes :: "int list" where
  "decoded_block_sizes = fold (\<lambda>i m. m[encoded_block_sizes ! i := int i]) [0..<full_block_size + 1]
     (replicate (full_encoded_block_size + 1) (- 1))"

section \<open>Blocks\<close>

definition uint_8be_to_64 :: "bytes \<Rightarrow> u64" where
  "uint_8be_to_64 data = foldl (\<lambda>res b. push_bit 8 res OR ucast b) 0 data"

definition uint_64_to_8be :: "u64 \<Rightarrow> nat \<Rightarrow> bytes" where
  "uint_64_to_8be num n = drop (8 - n) (map (\<lambda>i. ucast (drop_bit (8 * (7 - i)) num)) [0..<8])"

text \<open>The loop that fills the digits from the right; what is left keeps the first letter.\<close>

function encode_digits :: "u64 \<Rightarrow> nat \<Rightarrow> string \<Rightarrow> string" where
  "encode_digits num n res =
     (if 0 < num then encode_digits (num div 58) (n - 1) (res[n - 1 := alphabet ! unat (num mod 58)]) else res)"
  by pat_completeness auto
termination
  by (relation "measure (\<lambda>(num, n, res). unat num)") (auto simp: unat_div word_less_nat_alt)

declare encode_digits.simps [simp del]

definition encode_block :: "bytes \<Rightarrow> string" where
  "encode_block block =
     (let n = encoded_block_sizes ! length block
      in encode_digits (uint_8be_to_64 block) n (replicate n (alphabet ! 0)))"

text \<open>The digits of a block from the last one on.\<close>

fun decode_digits :: "string \<Rightarrow> u64 \<Rightarrow> u64 \<Rightarrow> u64 option" where
  "decode_digits [] res_num order = Some res_num"
| "decode_digits (c # cs) res_num order =
     (let digit = reverse_alphabet c in
      if digit < 0 then None
      else let (lo, product_hi) = mul128 order (word_of_int digit); tmp = res_num + lo in
        if tmp < res_num \<or> 0 \<noteq> product_hi then None
        else decode_digits cs tmp (order * 58))"

definition decode_block :: "string \<Rightarrow> bytes option" where
  "decode_block block =
     (let res_size = decoded_block_sizes ! length block in
      if res_size \<le> 0 then None
      else case decode_digits (rev block) 0 1 of
          None \<Rightarrow> None
        | Some res_num \<Rightarrow>
            if nat res_size < full_block_size \<and> push_bit (8 * nat res_size) 1 \<le> res_num then None
            else Some (uint_64_to_8be res_num (nat res_size)))"

section \<open>Data\<close>

definition encode58 :: "bytes \<Rightarrow> string" where
  "encode58 data =
     (let full_block_count = length data div full_block_size;
          last_block_size = length data mod full_block_size
      in concat (map (\<lambda>i. encode_block (take full_block_size (drop (i * full_block_size) data))) [0..<full_block_count]) @
         (if 0 < last_block_size then encode_block (drop (full_block_count * full_block_size) data) else []))"

fun decode_blocks :: "string list \<Rightarrow> bytes option" where
  "decode_blocks [] = Some []"
| "decode_blocks (b # bs) =
     (case decode_block b of
        None \<Rightarrow> None
      | Some d \<Rightarrow> (case decode_blocks bs of None \<Rightarrow> None | Some ds \<Rightarrow> Some (d @ ds)))"

definition decode58 :: "string \<Rightarrow> bytes option" where
  "decode58 enc =
     (let full_block_count = length enc div full_encoded_block_size;
          last_block_size = length enc mod full_encoded_block_size in
      if decoded_block_sizes ! last_block_size < 0 then None
      else decode_blocks (map (\<lambda>i. take full_encoded_block_size (drop (i * full_encoded_block_size) enc)) [0..<full_block_count] @
             (if 0 < last_block_size then [drop (full_block_count * full_encoded_block_size) enc] else [])))"

section \<open>Addresses\<close>

definition encode_addr :: "crypto_env \<Rightarrow> u64 \<Rightarrow> bytes \<Rightarrow> string" where
  "encode_addr env tag data =
     (let buf = write_varint tag @ data in encode58 (buf @ take addr_checksum_size (cn_fast_hash env buf)))"

definition decode_addr :: "crypto_env \<Rightarrow> string \<Rightarrow> (u64 \<times> bytes) option" where
  "decode_addr env addr =
     (case decode58 addr of
        None \<Rightarrow> None
      | Some addr_data \<Rightarrow>
          if length addr_data \<le> addr_checksum_size then None
          else
            let n = length addr_data - addr_checksum_size;
                checksum = drop n addr_data; addr_data = take n addr_data;
                expected_checksum = take addr_checksum_size (cn_fast_hash env addr_data)
            in
            if expected_checksum \<noteq> checksum then None
            else
              let (read, tag) = read_varint_it addr_data in
              if read \<le> 0 then None else Some (tag, drop (nat read) addr_data))"

record account_public_address =
  aa_spend_public_key :: public_key
  aa_view_public_key :: public_key

definition enc_address :: "account_public_address \<Rightarrow> bytes" where
  "enc_address a = aa_spend_public_key a @ aa_view_public_key a"

definition dec_address :: "bytes \<Rightarrow> (account_public_address \<times> bytes) result" where
  "dec_address s =
     res_bind (dec_binary 32 s) (\<lambda>(spend, s).
     res_bind (dec_binary 32 s) (\<lambda>(view, s).
     Inr (\<lparr>aa_spend_public_key = spend, aa_view_public_key = view\<rparr>, s)))"

definition valid_address :: "account_public_address \<Rightarrow> bool" where
  "valid_address a \<longleftrightarrow> pod32 (aa_spend_public_key a) \<and> pod32 (aa_view_public_key a)"

interpretation address: canonical_codec enc_address dec_address valid_address
  by unfold_locales (simp add: enc_address_def dec_address_def valid_address_def codec_enc hash32.dec_enc,
    auto simp: enc_address_def dec_address_def valid_address_def res_bind_eq_Inr hash32.dec_iff)

definition get_account_address_as_str :: "crypto_env \<Rightarrow> u64 \<Rightarrow> account_public_address \<Rightarrow> string" where
  "get_account_address_as_str env prefix adr = encode_addr env prefix (to_binary enc_address adr)"

definition parse_account_address_string :: "crypto_env \<Rightarrow> string \<Rightarrow> (u64 \<times> account_public_address) option" where
  "parse_account_address_string env str =
     (case decode_addr env str of
        None \<Rightarrow> None
      | Some (prefix, data) \<Rightarrow>
          (case from_binary dec_address data of
             Inl e \<Rightarrow> None
           | Inr adr \<Rightarrow>
               if key_isvalid env (aa_spend_public_key adr) \<and> key_isvalid env (aa_view_public_key adr)
               then Some (prefix, adr) else None))"

text \<open>The two methods of a currency, which fix the prefix.\<close>

definition account_address_as_string :: "crypto_env \<Rightarrow> currency \<Rightarrow> account_public_address \<Rightarrow> string" where
  "account_address_as_string env c adr = get_account_address_as_str env (cy_public_address_base58_prefix c) adr"

definition parse_address :: "crypto_env \<Rightarrow> currency \<Rightarrow> string \<Rightarrow> account_public_address option" where
  "parse_address env c str =
     (case parse_account_address_string env str of
        None \<Rightarrow> None
      | Some (prefix, adr) \<Rightarrow> if prefix \<noteq> cy_public_address_base58_prefix c then None else Some adr)"

section \<open>Digits\<close>

text \<open>Numbers by their digits to the base 58, the least significant one first.\<close>

fun num58 :: "nat list \<Rightarrow> nat" where
  "num58 [] = 0"
| "num58 (d # ds) = d + 58 * num58 ds"

fun dig58 :: "nat \<Rightarrow> nat \<Rightarrow> nat list" where
  "dig58 0 v = []"
| "dig58 (Suc n) v = v mod 58 # dig58 n (v div 58)"

lemma length_dig58 [simp]: "length (dig58 n v) = n"
  by (induction n arbitrary: v) simp_all

lemma dig58_less: "d \<in> set (dig58 n v) \<Longrightarrow> d < 58"
  by (induction n arbitrary: v) auto

lemma num58_dig58: "v < 58 ^ n \<Longrightarrow> num58 (dig58 n v) = v"
proof (induction n arbitrary: v)
  case (Suc n)
  then have "v div 58 < 58 ^ n" by (simp add: less_mult_imp_div_less mult.commute)
  with Suc.IH show ?case by simp
qed simp

lemma dig58_num58: "list_all (\<lambda>d. d < 58) ds \<Longrightarrow> dig58 (length ds) (num58 ds) = ds"
  by (induction ds) simp_all

lemma dig58_0: "dig58 n 0 = replicate n 0"
  by (induction n) simp_all

abbreviation letter :: "nat \<Rightarrow> char" where
  "letter i \<equiv> alphabet ! i"

lemma alphabet_facts:
  "length alphabet = 58" "distinct alphabet" "list_all (\<lambda>c. 49 \<le> alphabet_pos c \<and> alphabet_pos c \<le> 122) alphabet"
  "alphabet_pos (alphabet ! 0) = 49" "alphabet_pos (hd alphabet) = 49" "alphabet_pos (last alphabet) = 122"
  by (simp_all add: alphabet_def alphabet_pos_def)

lemma fold_update_at:
  "inj_on f {..<n} \<Longrightarrow> i < n \<Longrightarrow> f i < length m \<Longrightarrow> fold (\<lambda>i m. m[f i := int i]) [0..<n] m ! f i = int i"
  "(\<And>i. i < n \<Longrightarrow> f i \<noteq> j) \<Longrightarrow> fold (\<lambda>i m. m[f i := int i]) [0..<n] m ! j = m ! j"
  "length (fold (\<lambda>i m. m[f i := int i]) [0..<n] m) = length m"
proof -
  show len: "length (fold (\<lambda>i m. m[f i := int i]) [0..<n] m) = length m" for n
    by (induction n) simp_all
  show other: "fold (\<lambda>i m. m[f i := int i]) [0..<n] m ! j = m ! j" if "\<And>i. i < n \<Longrightarrow> f i \<noteq> j" for n j
    using that by (induction n) simp_all
  show "fold (\<lambda>i m. m[f i := int i]) [0..<n] m ! f i = int i" if "inj_on f {..<n}" "i < n" "f i < length m"
    using that
  proof (induction n)
    case (Suc n)
    show ?case
    proof (cases "i = n")
      case True
      with Suc.prems(3) show ?thesis by (simp add: len)
    next
      case False
      with Suc.prems have "f n \<noteq> f i" by (auto simp: inj_on_def)
      with False Suc show ?thesis by (simp add: inj_on_def)
    qed
  qed simp
qed

lemma letter_code:
  assumes "i < 58"
  shows "49 \<le> alphabet_pos (letter i)" "alphabet_pos (letter i) \<le> 122"
  using alphabet_facts(1,3) assms by (simp_all add: list_all_length)

lemma letter_inj: "inj_on (\<lambda>i. alphabet_pos (letter i) - 49) {..<58}"
proof (rule inj_onI)
  fix i j
  assume ij: "i \<in> {..<58}" "j \<in> {..<58}" "alphabet_pos (letter i) - 49 = alphabet_pos (letter j) - 49"
  with letter_code [of i] letter_code [of j] have "alphabet_pos (letter i) = alphabet_pos (letter j)" by simp
  then have "letter i = letter j" by (simp add: alphabet_pos_def)
  with ij alphabet_facts(1,2) show "i = j" by (simp add: nth_eq_iff_index_eq)
qed

lemma reverse_table_eq: "reverse_table = fold (\<lambda>i m. m[alphabet_pos (letter i) - 49 := int i]) [0..<58] (replicate 74 (- 1))"
  by (simp add: reverse_table_def alphabet_facts)

lemma reverse_table_length: "length reverse_table = 74"
  by (simp add: reverse_table_eq fold_update_at(3))

lemma reverse_alphabet_letter: "i < 58 \<Longrightarrow> reverse_alphabet (letter i) = int i"
  using fold_update_at(1) [OF letter_inj, of i "replicate 74 (- 1)"] letter_code [of i]
  by (simp add: reverse_alphabet_def Let_def reverse_table_length alphabet_facts flip: reverse_table_eq)

definition digit_of :: "char \<Rightarrow> nat" where
  "digit_of c = nat (reverse_alphabet c)"

lemma reverse_alphabet_sound:
  assumes "\<not> reverse_alphabet c < 0"
  shows "digit_of c < 58" "letter (digit_of c) = c" "reverse_alphabet c = int (digit_of c)"
proof -
  let ?a = "alphabet_pos c"
  from assms have a: "49 \<le> ?a" "?a - 49 < 74" "reverse_alphabet c = reverse_table ! (?a - 49)"
    by (auto simp: reverse_alphabet_def Let_def reverse_table_length alphabet_facts split: if_splits)
  have "\<exists>i < 58. alphabet_pos (letter i) - 49 = ?a - 49"
  proof (rule ccontr)
    assume "\<not> ?thesis"
    then have "reverse_table ! (?a - 49) = replicate 74 (- 1) ! (?a - 49)"
      unfolding reverse_table_eq by (intro fold_update_at(2)) blast
    with assms a show False by simp
  qed
  then obtain i where i: "i < 58" "alphabet_pos (letter i) - 49 = ?a - 49" by blast
  with letter_code [OF i(1)] a(1) have "alphabet_pos (letter i) = ?a" by simp
  then have "letter i = c" by (simp add: alphabet_pos_def)
  with reverse_alphabet_letter [OF i(1)] i(1) show "digit_of c < 58" "letter (digit_of c) = c" "reverse_alphabet c = int (digit_of c)"
    by (auto simp: digit_of_def)
qed

lemma digit_of_letter [simp]: "i < 58 \<Longrightarrow> digit_of (letter i) = i"
  by (simp add: digit_of_def reverse_alphabet_letter)

lemma encode_digits_eq:
  "unat num < 58 ^ n \<Longrightarrow> n \<le> length res \<Longrightarrow> take n res = replicate n (letter 0) \<Longrightarrow>
     encode_digits num n res = rev (map letter (dig58 n (unat num))) @ drop n res"
proof (induction n arbitrary: num res)
  case 0
  then have "num = 0" by (simp add: unat_eq_0)
  then show ?case by (simp add: encode_digits.simps [of 0])
next
  case (Suc n)
  show ?case
  proof (cases "num = 0")
    case True
    have "res = take (Suc n) res @ drop (Suc n) res" by simp
    also have "\<dots> = rev (map letter (dig58 (Suc n) (unat num))) @ drop (Suc n) res"
      unfolding Suc.prems(3) True by (simp add: dig58_0 replicate_append_same)
    finally show ?thesis by (simp add: True encode_digits.simps [of 0])
  next
    case False
    let ?x = "letter (unat (num mod 58))"
    have n: "n < length res" using Suc.prems(2) by simp
    have "take n (res[n := ?x]) = replicate n (letter 0)"
      using arg_cong [OF Suc.prems(3), of "take n"] by (simp add: min_def del: replicate_Suc)
    moreover have "unat (num div 58) < 58 ^ n"
      using Suc.prems(1) by (simp add: unat_div less_mult_imp_div_less mult.commute)
    ultimately have "encode_digits (num div 58) n (res[n := ?x]) =
        rev (map letter (dig58 n (unat (num div 58)))) @ drop n (res[n := ?x])"
      using n by (intro Suc.IH) simp_all
    moreover have "drop n (res[n := ?x]) = ?x # drop (Suc n) res"
      using n by (simp add: drop_update_swap flip: Cons_nth_drop_Suc)
    ultimately show ?thesis
      using False by (subst encode_digits.simps) (simp add: word_gt_0 unat_div unat_mod)
  qed
qed

lemma decode_digits_eq:
  "length cs + k \<le> 11 \<Longrightarrow> (cs \<noteq> [] \<Longrightarrow> unat order = 58 ^ k) \<Longrightarrow>
     decode_digits cs res order =
       (if list_all (\<lambda>c. \<not> reverse_alphabet c < 0) cs \<and> unat res + 58 ^ k * num58 (map digit_of cs) < 2 ^ 64
        then Some (word_of_nat (unat res + 58 ^ k * num58 (map digit_of cs))) else None)"
proof (induction cs arbitrary: k res order)
  case Nil
  then show ?case using u64_less [of res] by simp
next
  case (Cons c cs)
  show ?case
  proof (cases "reverse_alphabet c < 0")
    case True
    then show ?thesis by simp
  next
    case False
    note d = reverse_alphabet_sound [OF False]
    let ?d = "digit_of c" and ?r = "num58 (map digit_of cs)"
    obtain lo hi where m: "mul128 order (word_of_nat ?d) = (lo, hi)" by (cases "mul128 order (word_of_nat ?d)")
    have prod: "unat lo + 2 ^ 64 * unat hi = 58 ^ k * ?d"
      using mul128_prod [OF m] Cons.prems(2) d(1) by (simp add: unat_of_nat)
    let ?tmp = "res + lo"
    have total: "unat res + 58 ^ k * num58 (map digit_of (c # cs)) = unat res + 58 ^ k * ?d + 58 ^ Suc k * ?r"
      by (simp add: algebra_simps)
    show ?thesis
    proof (cases "?tmp < res \<or> hi \<noteq> 0")
      case True
      have "2 ^ 64 \<le> unat res + 58 ^ k * ?d"
      proof (cases "hi = 0")
        case z: True
        with True have "?tmp < res" by simp
        then have "2 ^ 64 \<le> unat res + unat lo"
          using unat_plus_if_size [of res lo] u64_less [of lo] by (auto simp: word_less_nat_alt word_size split: if_splits)
        then show ?thesis using prod z by simp
      next
        case False
        then have "1 \<le> unat hi" by (simp add: Suc_leI unat_gt_0)
        then have "2 ^ 64 * 1 \<le> 2 ^ 64 * unat hi" by (intro mult_le_mono2)
        then show ?thesis using prod by linarith
      qed
      then have "\<not> unat res + 58 ^ k * num58 (map digit_of (c # cs)) < 2 ^ 64" unfolding total by linarith
      then show ?thesis using True False d(3) m by (simp add: Let_def)
    next
      case ok: False
      then have hi: "hi = 0" and "\<not> ?tmp < res" by simp_all
      then have lo: "unat lo = 58 ^ k * ?d" and tmp: "unat ?tmp = unat res + 58 ^ k * ?d"
        using prod unat_plus_if_size [of res lo] u64_less [of res] u64_less [of lo]
        by (auto simp: word_less_nat_alt word_size split: if_splits)
      have k: "Suc k \<le> 10" if "cs \<noteq> []" using Cons.prems(1) that by (cases cs) auto
      have "unat (order * 58) = 58 ^ Suc k" if "cs \<noteq> []"
      proof -
        have "(58 :: nat) ^ Suc k \<le> 58 ^ 10" using k [OF that] by (intro power_increasing) simp_all
        also have "\<dots> < 2 ^ 64" by simp
        finally show ?thesis using Cons.prems(2) by (simp add: unat_word_ariths)
      qed
      then have "decode_digits cs ?tmp (order * 58) =
          (if list_all (\<lambda>c. \<not> reverse_alphabet c < 0) cs \<and> unat ?tmp + 58 ^ Suc k * ?r < 2 ^ 64
           then Some (word_of_nat (unat ?tmp + 58 ^ Suc k * ?r)) else None)"
        using Cons.prems(1) by (intro Cons.IH) simp_all
      then show ?thesis using ok False d(3) m unfolding total tmp by (simp add: Let_def)
    qed
  qed
qed

section \<open>Blocks\<close>

lemma uint_8be_eq: "uint_8be_to_64 = uint_be_from_bytes"
  by (rule ext) (simp add: uint_8be_to_64_def)

lemma less_9_cases: "n \<le> 8 \<Longrightarrow> n \<in> {0, 1, 2, 3, 4, 5, 6, 7, 8 :: nat}"
  by auto

lemma uint_64_to_8be_eq: "n \<le> 8 \<Longrightarrow> uint_64_to_8be num n = nat_be n (unat num)"
  using less_9_cases [of n]
  by (auto simp: uint_64_to_8be_def upt_rec uint_be_to_bytes_nat_be [symmetric] eval_nat_numeral drop_bit_drop_bit)

abbreviation encoded_size :: "nat \<Rightarrow> nat" where
  "encoded_size n \<equiv> encoded_block_sizes ! n"

lemma sizes: "full_block_size = 8" "full_encoded_block_size = 11" "encoded_size 0 = 0" "encoded_size 8 = 11"
  by (simp_all add: full_block_size_def full_encoded_block_size_def encoded_block_sizes_def)

lemma decoded_sizes_eq: "decoded_block_sizes = [0, - 1, 1, 2, - 1, 3, 4, 5, - 1, 6, 7, 8]"
  by (simp add: decoded_block_sizes_def sizes, simp add: encoded_block_sizes_def upt_rec eval_nat_numeral)

lemma encoded_size_facts:
  assumes "n \<le> 8"
  shows "decoded_block_sizes ! encoded_size n = int n" "256 ^ n \<le> (58 :: nat) ^ encoded_size n" "encoded_size n \<le> 11"
    "n < 8 \<Longrightarrow> encoded_size n < 11" "0 < n \<Longrightarrow> 0 < encoded_size n"
  using less_9_cases [OF assms] by (auto simp: decoded_sizes_eq encoded_block_sizes_def)

lemma decoded_size_facts:
  assumes "n \<le> 11" "0 \<le> decoded_block_sizes ! n"
  shows "encoded_size (nat (decoded_block_sizes ! n)) = n" "nat (decoded_block_sizes ! n) \<le> 8"
proof -
  have "n \<in> set [0..<12]" using assms(1) by simp
  then show "encoded_size (nat (decoded_block_sizes ! n)) = n" "nat (decoded_block_sizes ! n) \<le> 8"
    using assms(2) by (auto simp: upt_rec decoded_sizes_eq encoded_block_sizes_def)
qed

lemma encode_block_eq:
  assumes "length b \<le> 8"
  shows "encode_block b = rev (map letter (dig58 (encoded_size (length b)) (be_nat b)))"
proof -
  have u: "unat (uint_8be_to_64 b) = be_nat b" using uint_be_from_bytes_be_nat [OF assms] by (simp add: uint_8be_eq)
  have "be_nat b < 58 ^ encoded_size (length b)"
    using be_nat_less [of b] encoded_size_facts(2) [OF assms] by linarith
  then show ?thesis by (simp add: encode_block_def Let_def u encode_digits_eq)
qed

lemma length_encode_block [simp]: "length b \<le> 8 \<Longrightarrow> length (encode_block b) = encoded_size (length b)"
  by (simp add: encode_block_eq)

lemma unat_push_bit_small:
  assumes "k < 64"
  shows "unat (2 ^ k :: u64) = 2 ^ k"
proof -
  have "(2 :: nat) ^ k < 2 ^ 64" using assms by (intro power_strict_increasing) simp_all
  then show ?thesis using unat_of_nat [of "2 ^ k", where 'a = 64] by (simp add: unat_of_nat)
qed

lemma decode_encode_block:
  assumes "length b \<le> 8" "b \<noteq> []"
  shows "decode_block (encode_block b) = Some b"
proof -
  let ?n = "length b" and ?v = "be_nat b"
  note F = encoded_size_facts [OF assms(1)]
  have v: "?v < 256 ^ ?n" by (rule be_nat_less)
  also have p: "(256 :: nat) ^ ?n = 2 ^ (8 * ?n)" by (simp add: power_mult)
  finally have v2: "?v < 2 ^ (8 * ?n)" .
  have "(2 :: nat) ^ (8 * ?n) \<le> 2 ^ 64" using assms(1) by (intro power_increasing) simp_all
  with v2 have v64: "?v < 2 ^ 64" by linarith
  have ds: "map digit_of (map letter (dig58 k w)) = dig58 k w" for k w
    by (auto simp: dig58_less intro!: map_idI)
  have "list_all (\<lambda>c. \<not> reverse_alphabet c < 0) (map letter (dig58 k w))" for k w
    using dig58_less reverse_alphabet_letter by (fastforce simp: list_all_iff)
  moreover have "num58 (dig58 (encoded_size ?n) ?v) = ?v"
    using v F(2) by (intro num58_dig58) linarith
  ultimately have dd: "decode_digits (rev (encode_block b)) 0 1 = Some (word_of_nat ?v)"
    using v64 F(3) by (simp add: encode_block_eq [OF assms(1)] decode_digits_eq [of _ 0] ds del: map_map)
  have "\<not> (push_bit (8 * ?n) 1 :: u64) \<le> word_of_nat ?v" if "?n < 8"
    using v2 that by (simp add: word_le_nat_alt unat_push_bit_small unat_of_nat v64)
  moreover have "uint_64_to_8be (word_of_nat ?v) ?n = b"
    using v64 by (simp add: uint_64_to_8be_eq [OF assms(1)] unat_of_nat nat_be_be_nat)
  ultimately show ?thesis
    using F(1) assms by (auto simp: decode_block_def Let_def dd sizes)
qed

lemma decode_block_sound:
  assumes "decode_block s = Some d" "length s \<le> 11"
  shows "s = encode_block d \<and> d \<noteq> [] \<and> int (length d) = decoded_block_sizes ! length s"
proof -
  let ?n = "nat (decoded_block_sizes ! length s)"
  from assms(1) obtain v where v: "decode_digits (rev s) 0 1 = Some v" "\<not> decoded_block_sizes ! length s \<le> 0"
    "\<not> (?n < 8 \<and> push_bit (8 * ?n) 1 \<le> v)" "d = uint_64_to_8be v ?n"
    by (auto simp: decode_block_def Let_def sizes split: if_splits option.splits)
  note F = decoded_size_facts [OF assms(2)]
  have n: "?n \<le> 8" "encoded_size ?n = length s" using F v(2) by simp_all
  let ?w = "num58 (map digit_of (rev s))"
  from v(1) have ok: "list_all (\<lambda>c. \<not> reverse_alphabet c < 0) (rev s)" "?w < 2 ^ 64" "v = word_of_nat ?w"
    using assms(2) by (simp_all add: decode_digits_eq [of _ 0] split: if_splits)
  have uv: "unat v = ?w" using ok(2,3) by (simp add: unat_of_nat)
  have small: "?w < 256 ^ ?n"
  proof (cases "?n < 8")
    case True
    then have "unat v < 2 ^ (8 * ?n)" using v(3) by (simp add: word_le_nat_alt unat_push_bit_small)
    then show ?thesis by (simp add: uv power_mult)
  next
    case False
    with n(1) have "?n = 8" by simp
    with ok(2) show ?thesis by simp
  qed
  have d: "d = nat_be ?n ?w" using v(4) by (simp add: uint_64_to_8be_eq [OF n(1)] uv)
  then have len: "length d = ?n" "be_nat d = ?w" using small by (simp_all add: be_nat_nat_be)
  have ds: "list_all (\<lambda>x. x < 58) (map digit_of (rev s))" "map letter (map digit_of (rev s)) = rev s"
    using ok(1) reverse_alphabet_sound by (auto simp: list_all_iff intro!: map_idI)
  have "encode_block d = rev (map letter (dig58 (length s) ?w))" using n len by (simp add: encode_block_eq)
  also have "\<dots> = s" using dig58_num58 [OF ds(1)] ds(2) by simp
  finally show ?thesis using len v(2) by auto
qed

section \<open>Data\<close>

text \<open>A list cut into pieces of \<open>k\<close>, the last one shorter.\<close>

definition pieces :: "nat \<Rightarrow> 'a list \<Rightarrow> 'a list list" where
  "pieces k xs = map (\<lambda>i. take k (drop (i * k) xs)) [0..<length xs div k] @
     (if 0 < length xs mod k then [drop (length xs div k * k) xs] else [])"

lemma pieces_short: "length xs < k \<Longrightarrow> pieces k xs = (if xs = [] then [] else [xs])"
  by (auto simp: pieces_def)

lemma pieces_step:
  assumes "0 < k" "k \<le> length xs"
  shows "pieces k xs = take k xs # pieces k (drop k xs)"
proof -
  have n: "length xs div k = Suc ((length xs - k) div k)" "length xs mod k = (length xs - k) mod k"
    using assms by (simp_all add: le_div_geq le_mod_geq)
  show ?thesis
    unfolding pieces_def n length_drop map_upt_Suc by (simp add: add.commute)
qed

lemma encode58_pieces: "encode58 d = concat (map encode_block (pieces 8 d))"
  by (simp add: encode58_def Let_def sizes pieces_def o_def)

lemma decode58_pieces:
  "decode58 s = (if decoded_block_sizes ! (length s mod 11) < 0 then None else decode_blocks (pieces 11 s))"
  by (simp add: decode58_def Let_def sizes pieces_def)

lemma decode_encode58: "decode58 (encode58 d) = Some d"
proof (induction d rule: length_induct)
  case (1 d)
  show ?case
  proof (cases "length d < 8")
    case True
    then have p: "encode58 d = (if d = [] then [] else encode_block d)" by (simp add: encode58_pieces pieces_short)
    show ?thesis
    proof (cases "d = []")
      case True
      with p show ?thesis by (simp add: decode58_pieces pieces_short decoded_sizes_eq)
    next
      case False
      note F = encoded_size_facts [of "length d"]
      have l: "length (encode_block d) < 11" "encode_block d \<noteq> []"
        using F(4,5) True False length_encode_block [of d] by (auto simp flip: length_greater_0_conv)
      have m: "length (encode_block d) mod 11 = encoded_size (length d)" using l True by simp
      have "decode58 (encode_block d) = decode_blocks [encode_block d]"
        using F(1) True l m by (simp add: decode58_pieces pieces_short)
      with p False True show ?thesis by (simp add: decode_encode_block)
    qed
  next
    case False
    let ?a = "take 8 d" and ?r = "drop 8 d"
    have e: "encode58 d = encode_block ?a @ encode58 ?r" using False by (simp add: encode58_pieces pieces_step)
    have la: "length (encode_block ?a) = 11" using False by (simp add: sizes)
    have IH: "decode58 (encode58 ?r) = Some ?r" using 1 False by (simp add: length_drop)
    have "decode58 (encode58 d) = (if decoded_block_sizes ! (length (encode58 ?r) mod 11) < 0 then None
        else decode_blocks (encode_block ?a # pieces 11 (encode58 ?r)))"
      unfolding e by (simp add: decode58_pieces pieces_step la)
    moreover have "decode_block (encode_block ?a) = Some ?a" using False by (intro decode_encode_block) auto
    ultimately show ?thesis using IH by (simp add: decode58_pieces split: if_splits)
  qed
qed

lemma encode_decode58: "decode58 s = Some d \<Longrightarrow> s = encode58 d"
proof (induction s arbitrary: d rule: length_induct)
  case (1 s)
  show ?case
  proof (cases "length s < 11")
    case True
    show ?thesis
    proof (cases "s = []")
      case True
      with 1(2) show ?thesis by (simp add: decode58_pieces pieces_short encode58_pieces split: if_splits)
    next
      case False
      with True 1(2) have d: "decode_block s = Some d" "0 \<le> decoded_block_sizes ! length s"
        by (auto simp: decode58_pieces pieces_short split: if_splits option.splits)
      from decode_block_sound [OF d(1)] True have e: "s = encode_block d" "d \<noteq> []" "int (length d) = decoded_block_sizes ! length s"
        by simp_all
      have "length d < 8"
      proof (rule ccontr)
        assume "\<not> ?thesis"
        with decoded_size_facts [of "length s"] True d(2) e(3) have "length d = 8" by simp
        then have "length s = 11" using e(1) by (simp add: sizes)
        with True show False by simp
      qed
      with e show ?thesis by (simp add: encode58_pieces pieces_short)
    qed
  next
    case False
    let ?a = "take 11 s" and ?r = "drop 11 s"
    from False 1(2) obtain da dr where d: "decode_block ?a = Some da" "decode58 ?r = Some dr" "d = da @ dr"
      by (auto simp: decode58_pieces pieces_step le_mod_geq split: if_splits option.splits)
    have r: "?r = encode58 dr" using 1(1) d(2) False by simp
    have la: "length ?a = 11" using False by simp
    have a: "?a = encode_block da" "int (length da) = decoded_block_sizes ! 11"
      using decode_block_sound [OF d(1)] unfolding la by simp_all
    then have "length da = 8" by (simp add: decoded_sizes_eq)
    then have "encode58 d = encode_block da @ encode58 dr" by (simp add: d(3) encode58_pieces pieces_step)
    with a r show ?thesis by (metis append_take_drop_id)
  qed
qed

text \<open>
  C27: the text form of binary data is canonical: a string decodes to data exactly when it is
  what the data encode to.
\<close>

theorem base58_canonical: "decode58 s = Some d \<longleftrightarrow> s = encode58 d"
  using decode_encode58 encode_decode58 by blast

section \<open>Addresses\<close>

lemma read_varint_it_address:
  "read_varint_it (write_varint tag @ data) = (int (length (write_varint tag)), tag)"
  by (rule read_varint_it_write)

lemma decode_encode_addr:
  assumes "length (cn_fast_hash env (write_varint tag @ data)) = 32"
  shows "decode_addr env (encode_addr env tag data) = Some (tag, data)"
proof -
  have "0 < length (write_varint tag)" by (subst write_varint.simps) simp
  with assms show ?thesis
    by (simp add: decode_addr_def encode_addr_def Let_def decode_encode58 addr_checksum_size_def read_varint_it_address min_def)
qed

lemma read_written_address:
  assumes "\<And>b. length (cn_fast_hash env b) = 32" "valid_address adr"
    and "key_isvalid env (aa_spend_public_key adr)" "key_isvalid env (aa_view_public_key adr)"
  shows "parse_address env c (account_address_as_string env c adr) = Some adr"
  using assms address.from_to_binary [OF assms(2)]
  by (simp add: parse_address_def account_address_as_string_def get_account_address_as_str_def
      parse_account_address_string_def decode_encode_addr)

text \<open>
  C28: an address that is written as text is read back as itself by the same currency, if its
  keys are valid.
\<close>

theorem address_text_roundtrip:
  assumes "\<And>b. length (cn_fast_hash env b) = 32" "valid_address adr"
    and "key_isvalid env (aa_spend_public_key adr)" "key_isvalid env (aa_view_public_key adr)"
  shows "parse_address env c (account_address_as_string env c adr) = Some adr"
  using assms by (rule read_written_address)

definition sample_address :: account_public_address where
  "sample_address = \<lparr>aa_spend_public_key = replicate 32 1, aa_view_public_key = replicate 32 2\<rparr>"

lemma address_text_roundtrip_witness:
  "parse_address sample_env sample_currency (account_address_as_string sample_env sample_currency sample_address) = Some sample_address"
  by (rule address_text_roundtrip) (simp_all add: sample_env_def sample_address_def valid_address_def pod32_def)

end
