(* ===== verification/Mining.thy ===== *)
theory Mining
  imports Chain_Switch Base58 Sample_Tree
begin

text \<open>
  Mining on top of the current chain: the template of the next block with its coinbase
  (\<open>create_mining_block_template\<close> in \<open>Core/BlockChainState.cpp\<close>, \<open>construct_miner_tx\<close>
  in \<open>Core/Currency.cpp\<close>) and the block a miner hands in (\<open>add_mined_block\<close>).
\<close>

section \<open>The coinbase\<close>

text \<open>
  The functions of \<open>src/crypto\<close> that make the keys of the outputs; the random key pair is the
  one of the \<open>n\<close>-th call.
\<close>

record miner_env =
  random_keypair :: "nat \<Rightarrow> public_key \<times> bytes"
  generate_key_derivation :: "public_key \<Rightarrow> bytes \<Rightarrow> bytes option"
  derive_public_key :: "bytes \<Rightarrow> nat \<Rightarrow> public_key \<Rightarrow> public_key option"

text \<open>The loop that merges the last amounts until there are few enough.\<close>

function merge_outs :: "nat \<Rightarrow> amount list \<Rightarrow> amount list" where
  "merge_outs max_outs xs =
     (if length xs > max max_outs 1
      then merge_outs max_outs (butlast (xs[length xs - 2 := xs ! (length xs - 2) + last xs]))
      else xs)"
  by pat_completeness auto
termination
  by (relation "measure (\<lambda>(m, xs). length xs)") auto

declare merge_outs.simps [simp del]

fun miner_outputs ::
  "miner_env \<Rightarrow> account_public_address \<Rightarrow> bytes \<Rightarrow> nat \<Rightarrow> amount list \<Rightarrow> transaction_output list option" where
  "miner_outputs menv adr secret_key no [] = Some []"
| "miner_outputs menv adr secret_key no (a # as) =
     (case generate_key_derivation menv (aa_view_public_key adr) secret_key of
        None \<Rightarrow> None
      | Some derivation \<Rightarrow>
          (case derive_public_key menv derivation no (aa_spend_public_key adr) of
             None \<Rightarrow> None
           | Some key \<Rightarrow> map_option (Cons \<lparr>to_amount = a, to_target = KeyOutput key\<rparr>)
               (miner_outputs menv adr secret_key (no + 1) as)))"

text \<open>\<open>construct_miner_tx\<close>; what it leaves behind when it fails is not used by its callers.\<close>

definition construct_miner_tx ::
  "miner_env \<Rightarrow> currency \<Rightarrow> u8 \<Rightarrow> height \<Rightarrow> u64 \<Rightarrow> amount \<Rightarrow> u64 \<Rightarrow> amount \<Rightarrow> account_public_address \<Rightarrow> transaction \<Rightarrow>
     bytes \<Rightarrow> nat \<Rightarrow> nat \<Rightarrow> transaction option" where
  "construct_miner_tx menv c block_major_version height effective_median_size already_generated_coins
      current_block_size fee miner_address tx extra_nonce max_outs call =
     (let (public_key, secret_key) = random_keypair menv call;
          extra = add_transaction_public_key_to_extra [] public_key
      in case (if extra_nonce \<noteq> [] then add_extra_nonce_to_transaction_extra extra extra_nonce else Some extra) of
           None \<Rightarrow> None
         | Some extra \<Rightarrow>
             let (block_reward, emission_change) = get_block_reward c block_major_version effective_median_size
                   current_block_size already_generated_coins fee;
                 out_amounts = merge_outs max_outs (decompose_amount block_reward (cy_default_dust_threshold c))
             in case miner_outputs menv miner_address secret_key 0 out_amounts of
                  None \<Rightarrow> None
                | Some outs \<Rightarrow>
                    if sum_list out_amounts \<noteq> block_reward then None
                    else Some (tx\<lparr>tx_version := cy_current_transaction_version c,
                           tx_unlock_time := ucast (height + cy_mined_money_unlock_window c),
                           tx_inputs := [CoinbaseInput height], tx_outputs := outs, tx_extra := extra\<rparr>))"

section \<open>The template\<close>

definition template_difficulty :: "currency \<Rightarrow> chain_state \<Rightarrow> (difficulty \<times> chain_state) result" where
  "template_difficulty c s =
     (let height = bc_tip_height s + 1;
          blocks_count = min (bc_tip_height s) (get_difficulty_blocks_count c (bc_tip_height s + 1))
      in
      res_bind (get_tip s) (\<lambda>tip.
      res_bind (get_tip_segment c tip blocks_count False s) (\<lambda>(window, s).
      res_bind (next_difficulty c height (map hi_timestamp window) (map hi_cumulative_difficulty window)) (\<lambda>d.
      Inr (d, s)))))"

text \<open>The minor version, and the parent block of a merge-mined one.\<close>

definition template_versions :: "currency \<Rightarrow> block_template \<Rightarrow> block_template" where
  "template_versions c b =
     (if bh_major_version b = 1 then b\<lparr>bh_minor_version := (if cy_upgrade_height_v2 c = - 1 then 1 else 0)\<rparr>
      else if bh_major_version b \<ge> 2 then
        let p = bt_parent_block b; base = pb_base_transaction p in
        b\<lparr>bh_minor_version := (if cy_upgrade_height_v3 c = - 1 then if bh_major_version b = 2 then 1 else 0 else 0),
          bt_parent_block := p\<lparr>pb_major_version := 1, pb_minor_version := 0, pb_transaction_count := 1,
            pb_base_transaction := base\<lparr>tx_extra :=
              append_merge_mining_tag_to_extra (tx_extra base) \<lparr>mm_depth = 0, mm_merkle_root = null_hash\<rparr>\<rparr>\<rparr>\<rparr>
      else b)"

text \<open>The transactions of the pool by fee per byte, the best one first.\<close>

definition pool_hashes :: "chain_state \<Rightarrow> hash list" where
  "pool_hashes s = rev (concat (map (\<lambda>(_, txs). map fst txs) (cs_memory_state_fee_tx s)))"

text \<open>The loop over them: the size and the fee so far, the hashes taken, and the state.\<close>

fun select_transactions ::
  "crypto_env \<Rightarrow> currency \<Rightarrow> u32 \<Rightarrow> height \<Rightarrow> hash list \<Rightarrow> nat \<Rightarrow> amount \<Rightarrow> hash list \<Rightarrow> delta_state \<Rightarrow> chain_state \<Rightarrow>
     (nat \<times> amount \<times> hash list \<times> chain_state) result" where
  "select_transactions env c max_total_size height [] txs_size fee taken memory_state s = Inr (txs_size, fee, taken, s)"
| "select_transactions env c max_total_size height (h # hs) txs_size fee taken memory_state s =
     (case om_find h (cs_memory_state_tx s) of
        None \<Rightarrow> select_transactions env c max_total_size height hs txs_size fee taken memory_state s
      | Some t \<Rightarrow>
          let tx_size = length (pt_binary_tx t) in
          if txs_size + tx_size > unat max_total_size
          then select_transactions env c max_total_size height hs txs_size fee taken memory_state s
          else res_bind (redo_transaction_get_error env c (view_of chain_ops s) False (pt_tx t) memory_state [] True)
            (\<lambda>(e, memory_state, _, _).
               if e \<noteq> [] then select_transactions env c max_total_size height hs txs_size fee taken memory_state s
               else select_transactions env c max_total_size height hs (txs_size + tx_size) (fee + pt_fee t) (taken @ [h])
                 memory_state (s\<lparr>cs_mining_transactions :=
                   fst (om_insert h (pt_binary_tx t, height) (cs_mining_transactions s))\<rparr>)))"

text \<open>
  The tries for a coinbase whose size is the one its reward was computed with.  \<open>construct\<close> is
  \<open>construct_miner_tx\<close> with everything fixed but the size and the number of the call; the
  answer is the coinbase, \<open>None\<close> for giving up.
\<close>

definition binary_size :: "transaction \<Rightarrow> nat result" where
  "binary_size tx = res_bind (enc_transaction tx) (\<lambda>ba. Inr (length ba))"

definition TRIES_COUNT :: nat where "TRIES_COUNT = 10"

fun fit_coinbase ::
  "(nat \<Rightarrow> nat \<Rightarrow> transaction \<Rightarrow> transaction option) \<Rightarrow> nat \<Rightarrow> nat \<Rightarrow> nat \<Rightarrow> nat \<Rightarrow> transaction \<Rightarrow> transaction option result" where
  "fit_coinbase construct txs_size 0 call cumulative_size base = Inr None"
| "fit_coinbase construct txs_size (Suc tries) call cumulative_size base =
     (case construct cumulative_size call base of
        None \<Rightarrow> Inr None
      | Some tx \<Rightarrow>
          res_bind (binary_size tx) (\<lambda>coinbase_blob_size.
          if coinbase_blob_size > cumulative_size - txs_size
          then fit_coinbase construct txs_size tries (call + 1) (txs_size + coinbase_blob_size) tx
          else if coinbase_blob_size < cumulative_size - txs_size then
            let delta = cumulative_size - txs_size - coinbase_blob_size;
                tx1 = tx\<lparr>tx_extra := tx_extra tx @ replicate delta 0\<rparr>
            in res_bind (binary_size tx1) (\<lambda>size1.
               if cumulative_size \<noteq> txs_size + size1 then
                 (if cumulative_size + 1 \<noteq> txs_size + size1 then Inr None
                  else
                    let tx2 = tx1\<lparr>tx_extra := butlast (tx_extra tx1)\<rparr> in
                    res_bind (binary_size tx2) (\<lambda>size2.
                    if cumulative_size \<noteq> txs_size + size2
                    then fit_coinbase construct txs_size tries (call + 1) (cumulative_size + (delta - 1)) tx2
                    else Inr (Some tx2)))
               else Inr (Some tx1))
          else if cumulative_size \<noteq> txs_size + coinbase_blob_size then Inr None
          else Inr (Some tx)))"

text \<open>The answer, the template with its difficulty and height, and the state.\<close>

definition create_mining_block_template ::
  "crypto_env \<Rightarrow> miner_env \<Rightarrow> currency \<Rightarrow> timestamp \<Rightarrow> account_public_address \<Rightarrow> bytes \<Rightarrow> chain_state \<Rightarrow>
     (bool \<times> block_template \<times> difficulty \<times> height \<times> chain_state) result" where
  "create_mining_block_template env menv c now adr extra_nonce s =
     (let s = clear_mining_transactions s;
          height = bc_tip_height s + 1;
          b = empty_block_template\<lparr>bh_major_version := get_block_major_version_for_height c height\<rparr>
      in
      res_bind (template_difficulty c s) (\<lambda>(difficulty, s).
      if difficulty = 0 then Inr (False, b, difficulty, height, s)
      else
      let b = (template_versions c b)\<lparr>bh_previous_block_hash := bc_tip_bid s,
            bh_timestamp := max now (cs_next_median_timestamp s)\<rparr>;
          version = bh_major_version b;
          effective_size_median = max (cs_next_median_size s) (block_granted_full_reward_zone_by_block_version c version)
      in
      res_bind (get_tip s) (\<lambda>tip.
      let already_generated_coins = hi_already_generated_coins tip;
          max_total_size = min ((125 * effective_size_median) div 100) (max_block_cumulative_size c height) -
            cy_miner_tx_blob_reserved_size c
      in
      res_bind (select_transactions env c max_total_size height (pool_hashes s) 0 0 [] (new_delta height (bh_timestamp b)) s)
        (\<lambda>(txs_size, fee, taken, s).
      let b = b\<lparr>bt_transaction_hashes := taken\<rparr>;
          construct = (\<lambda>block_size call tx. construct_miner_tx menv c version height (ucast effective_size_median)
            already_generated_coins (word_of_nat block_size) fee adr tx extra_nonce 11 call)
      in case construct txs_size 0 (bt_base_transaction b) of
           None \<Rightarrow> Inr (False, b, difficulty, height, s)
         | Some tx \<Rightarrow>
             res_bind (binary_size tx) (\<lambda>coinbase_size.
             res_bind (fit_coinbase construct txs_size TRIES_COUNT 1 (txs_size + coinbase_size) tx) (\<lambda>r.
             case r of
               None \<Rightarrow> Inr (False, b, difficulty, height, s)
             | Some tx \<Rightarrow> Inr (True, b\<lparr>bt_base_transaction := tx\<rparr>, difficulty, height, s)))))))"

section \<open>A mined block\<close>

text \<open>
  \<open>add_mined_block\<close>: the template comes back as bytes; \<open>info\<close> is the caller's header, which
  stays as it is when a transaction is gone.
\<close>

definition add_mined_block ::
  "crypto_env \<Rightarrow> currency \<Rightarrow> timestamp \<Rightarrow> bytes \<Rightarrow> header_info \<Rightarrow> chain_state \<Rightarrow> add_block_result option" where
  "add_mined_block env c now raw_block_template info s =
     (case from_binary dec_block_template raw_block_template of
        Inl e \<Rightarrow> Some (Thrown e)
      | Inr block_template \<Rightarrow>
          (case mined_transactions (bt_transaction_hashes block_template) s of
             None \<Rightarrow> Some (Added NOTHING info s)
           | Some txs \<Rightarrow>
               (case prepare_block env False \<lparr>rb_block = raw_block_template, rb_transactions = txs\<rparr> of
                  Inl e \<Rightarrow> Some (Thrown e)
                | Inr None \<Rightarrow> Some (Thrown (Logic_error ''half filled header''))
                | Inr (Some pb) \<Rightarrow> add_block env c now pb s)))"

section \<open>What the coinbase pays\<close>

lemma merge_last_two:
  assumes "1 < length xs" "(\<Sum>x\<leftarrow>xs. unat x) < 2 ^ 64"
  shows "(\<Sum>x\<leftarrow>butlast (xs[length xs - 2 := xs ! (length xs - 2) + last xs]). unat x) = (\<Sum>x\<leftarrow>xs. unat (x :: u64))"
proof -
  obtain ys a b where xs: "xs = ys @ [a, b]"
  proof -
    from assms(1) obtain zs b where z: "xs = zs @ [b]" by (cases xs rule: rev_cases) auto
    with assms(1) obtain ys a where "zs = ys @ [a]" by (cases zs rule: rev_cases) auto
    with z that show thesis by simp
  qed
  with assms(2) have "unat (a + b) = unat a + unat b" by (subst unat_plus_if_size) (auto simp: word_size)
  moreover have "butlast (xs[length xs - 2 := xs ! (length xs - 2) + last xs]) = ys @ [a + b]"
    by (simp add: xs list_update_append nth_append butlast_append)
  ultimately show ?thesis by (simp add: xs)
qed

lemma merge_outs_sum: "(\<Sum>x\<leftarrow>xs. unat x) < 2 ^ 64 \<Longrightarrow> (\<Sum>x\<leftarrow>merge_outs m xs. unat x) = (\<Sum>x\<leftarrow>xs. unat x)"
proof (induction m xs rule: merge_outs.induct)
  case (1 m xs)
  then show ?case
    using merge_last_two [of xs] by (subst merge_outs.simps) (auto split: if_splits)
qed

lemma merge_outs_length: "length (merge_outs m xs) \<le> max m 1"
  by (induction m xs rule: merge_outs.induct) (subst merge_outs.simps, auto)

lemma miner_outputs_amounts:
  "miner_outputs menv adr sec no as = Some outs \<Longrightarrow> map to_amount outs = as"
  by (induction as arbitrary: no outs) (auto split: option.splits)

text \<open>The coinbase for a block of the size \<open>n\<close>.\<close>

definition pays :: "currency \<Rightarrow> u8 \<Rightarrow> height \<Rightarrow> u64 \<Rightarrow> amount \<Rightarrow> amount \<Rightarrow> nat \<Rightarrow> transaction \<Rightarrow> bool" where
  "pays c version height median already fee n tx \<longleftrightarrow>
     tx_inputs tx = [CoinbaseInput height] \<and> tx_unlock_time tx = ucast (height + cy_mined_money_unlock_window c) \<and>
     (\<Sum>out\<leftarrow>tx_outputs tx. unat (to_amount out)) =
       unat (fst (get_block_reward c version median (word_of_nat n) already fee))"

lemma construct_miner_tx_pays:
  assumes "construct_miner_tx menv c version height median already (word_of_nat n) fee adr tx nonce m call = Some tx'"
  shows "pays c version height median already fee n tx'"
proof -
  let ?r = "fst (get_block_reward c version median (word_of_nat n) already fee)"
  let ?d = "decompose_amount ?r (cy_default_dust_threshold c)"
  obtain sec outs where o: "miner_outputs menv adr sec 0 (merge_outs m ?d) = Some outs"
    and tx': "tx_outputs tx' = outs" "tx_inputs tx' = [CoinbaseInput height]"
      "tx_unlock_time tx' = ucast (height + cy_mined_money_unlock_window c)"
    using assms unfolding construct_miner_tx_def Let_def
    by (auto split: prod.splits option.splits if_splits)
  have d: "(\<Sum>x\<leftarrow>?d. unat x) = unat ?r"
    using decompose_digits_sum [of ?r 1 0 False] u64_less [of ?r] by (simp add: decompose_amount_def)
  have "(\<Sum>out\<leftarrow>outs. unat (to_amount out)) = (\<Sum>x\<leftarrow>map to_amount outs. unat x)" by (simp add: o_def)
  also have "\<dots> = unat ?r"
    using merge_outs_sum [of ?d m] d u64_less [of ?r] by (simp add: miner_outputs_amounts [OF o])
  finally show ?thesis by (simp add: pays_def tx')
qed

lemma pays_extra [simp]: "pays c version height median already fee n (tx\<lparr>tx_extra := e\<rparr>) = pays c version height median already fee n tx"
  by (simp add: pays_def)

lemma fit_coinbase_ok:
  assumes "\<And>n call b t. construct n call b = Some t \<Longrightarrow> P n t" "\<And>n t e. P n t \<Longrightarrow> P n (t\<lparr>tx_extra := e\<rparr>)"
  shows "fit_coinbase construct txs_size tries call cumulative base = Inr (Some tx) \<Longrightarrow> txs_size \<le> cumulative \<Longrightarrow>
    \<exists>ba. enc_transaction tx = Inr ba \<and> P (txs_size + length ba) tx"
proof (induction tries arbitrary: call cumulative base)
  case (Suc tries)
  from Suc.prems(1) obtain t where t: "construct cumulative call base = Some t" by (auto split: option.splits)
  note P = assms(1) [OF t]
  from Suc.prems(1) t obtain n where n: "binary_size t = Inr n" by (auto simp: res_bind_eq_Inr)
  have bin: "binary_size u = Inr k \<Longrightarrow> \<exists>ba. enc_transaction u = Inr ba \<and> length ba = k" for u k
    by (auto simp: binary_size_def res_bind_eq_Inr)
  consider (big) "n > cumulative - txs_size" | (small) "n < cumulative - txs_size" | (same) "n = cumulative - txs_size" by linarith
  then show ?case
  proof cases
    case big
    with Suc.prems t n have "fit_coinbase construct txs_size tries (call + 1) (txs_size + n) t = Inr (Some tx)" by simp
    then show ?thesis by (rule Suc.IH) simp
  next
    case same
    with Suc.prems t n have "tx = t" by (auto split: if_splits)
    with P bin [OF n] same Suc.prems(2) show ?thesis by auto
  next
    case small
    let ?delta = "cumulative - txs_size - n" and ?t1 = "t\<lparr>tx_extra := tx_extra t @ replicate (cumulative - txs_size - n) 0\<rparr>"
    let ?t2 = "?t1\<lparr>tx_extra := butlast (tx_extra ?t1)\<rparr>"
    from Suc.prems(1) t n small obtain n1 where n1: "binary_size ?t1 = Inr n1" by (auto simp: Let_def res_bind_eq_Inr)
    show ?thesis
    proof (cases "cumulative = txs_size + n1")
      case True
      with Suc.prems(1) t n small n1 have "tx = ?t1" by (simp add: Let_def)
      with bin [OF n1] True assms(2) [OF P] show ?thesis by auto
    next
      case False
      with Suc.prems(1) t n small n1 have c1: "cumulative + 1 = txs_size + n1" by (auto simp: Let_def split: if_splits)
      with Suc.prems(1) t n small n1 False obtain n2 where n2: "binary_size ?t2 = Inr n2"
        by (auto simp: Let_def res_bind_eq_Inr split: if_splits)
      have r2: "(if cumulative \<noteq> txs_size + n2
          then fit_coinbase construct txs_size tries (call + 1) (cumulative + (?delta - 1)) ?t2 else Inr (Some ?t2)) = Inr (Some tx)"
      proof -
        have s: "(cumulative - txs_size < n) = False" "(n < cumulative - txs_size) = True" using small by simp_all
        show ?thesis using Suc.prems(1) t n n1 n2 False c1 by (auto simp: Let_def s split: if_splits)
      qed
      show ?thesis
      proof (cases "cumulative = txs_size + n2")
        case True
        with r2 have "tx = ?t2" by simp
        moreover have "P cumulative ?t2" using assms(2) [OF P] by simp
        ultimately show ?thesis using bin [OF n2] True by auto
      next
        case False
        with r2 have "fit_coinbase construct txs_size tries (call + 1) (cumulative + (?delta - 1)) ?t2 = Inr (Some tx)" by simp
        then show ?thesis by (rule Suc.IH) (use Suc.prems(2) in simp)
      qed
    qed
  qed
qed simp

section \<open>The transactions of the template\<close>

definition pool_txs :: "chain_state \<Rightarrow> hash list \<Rightarrow> pool_transaction list" where
  "pool_txs s hs = map (\<lambda>h. the (om_find h (cs_memory_state_tx s))) hs"

definition in_pool :: "chain_state \<Rightarrow> hash list \<Rightarrow> bool" where
  "in_pool s hs \<longleftrightarrow> list_all (\<lambda>h. om_find h (cs_memory_state_tx s) \<noteq> None) hs"

lemma pool_mining [simp]:
  "in_pool (s\<lparr>cs_mining_transactions := m\<rparr>) hs = in_pool s hs" "pool_txs (s\<lparr>cs_mining_transactions := m\<rparr>) hs = pool_txs s hs"
  by (simp_all add: in_pool_def pool_txs_def)

lemma pool_Cons:
  "om_find h (cs_memory_state_tx s) = Some t \<Longrightarrow> pool_txs s (h # hs) = t # pool_txs s hs"
  "om_find h (cs_memory_state_tx s) = Some t \<Longrightarrow> in_pool s (h # hs) = in_pool s hs"
  by (simp_all add: in_pool_def pool_txs_def)

lemma select_transactions_ok:
  assumes "select_transactions env c max_size height hs n fee taken d s = Inr (n', fee', taken', s')"
  shows "\<exists>new. taken' = taken @ new \<and> in_pool s new \<and> n' = n + (\<Sum>t\<leftarrow>pool_txs s new. length (pt_binary_tx t)) \<and>
    fee' = fee + (\<Sum>t\<leftarrow>pool_txs s new. pt_fee t) \<and> (new \<noteq> [] \<longrightarrow> n' \<le> unat max_size) \<and>
    (\<exists>m. s' = s\<lparr>cs_mining_transactions := m\<rparr>)"
  using assms
proof (induction hs arbitrary: n fee taken d s)
  case Nil
  then show ?case by (auto simp: pool_txs_def in_pool_def intro: exI [of _ "cs_mining_transactions s"])
next
  case (Cons h hs)
  show ?case
  proof (cases "om_find h (cs_memory_state_tx s)")
    case None
    with Cons.prems have "select_transactions env c max_size height hs n fee taken d s = Inr (n', fee', taken', s')" by simp
    then show ?thesis by (rule Cons.IH)
  next
    case (Some t)
    show ?thesis
    proof (cases "n + length (pt_binary_tx t) > unat max_size")
      case True
      with Cons.prems Some have "select_transactions env c max_size height hs n fee taken d s = Inr (n', fee', taken', s')" by simp
      then show ?thesis by (rule Cons.IH)
    next
      case False
      with Cons.prems Some obtain e d' gi ch where
        r: "redo_transaction_get_error env c (view_of chain_ops s) False (pt_tx t) d [] True = Inr (e, d', gi, ch)"
        by (auto simp: Let_def res_bind_eq_Inr)
      show ?thesis
      proof (cases "e = []")
        case e: False
        with Cons.prems Some False r have "select_transactions env c max_size height hs n fee taken d' s = Inr (n', fee', taken', s')"
          by simp
        then show ?thesis by (rule Cons.IH)
      next
        case True
        let ?s = "s\<lparr>cs_mining_transactions := fst (om_insert h (pt_binary_tx t, height) (cs_mining_transactions s))\<rparr>"
        from True Cons.prems Some False r have "select_transactions env c max_size height hs (n + length (pt_binary_tx t))
            (fee + pt_fee t) (taken @ [h]) d' ?s = Inr (n', fee', taken', s')" by (simp add: Let_def)
        from Cons.IH [OF this] obtain new m where new: "taken' = (taken @ [h]) @ new" "in_pool s new"
          "n' = n + length (pt_binary_tx t) + (\<Sum>t\<leftarrow>pool_txs s new. length (pt_binary_tx t))"
          "fee' = fee + pt_fee t + (\<Sum>t\<leftarrow>pool_txs s new. pt_fee t)" "new \<noteq> [] \<longrightarrow> n' \<le> unat max_size"
          "s' = ?s\<lparr>cs_mining_transactions := m\<rparr>"
          unfolding pool_mining by (elim exE conjE)
        have "n' \<le> unat max_size"
        proof (cases "new = []")
          case True
          with new(3) False show ?thesis by (simp add: pool_txs_def)
        qed (use new(5) in simp)
        moreover have "s' = s\<lparr>cs_mining_transactions := m\<rparr>" by (simp add: new(6))
        ultimately show ?thesis
          by (intro exI [of _ "h # new"]) (simp add: new(1-4) pool_Cons [OF Some] add.assoc, blast)
      qed
    qed
  qed
qed

lemma mined_transactions_pool:
  "in_pool s hs \<Longrightarrow> mined_transactions hs s = Some (map pt_binary_tx (pool_txs s hs))"
  by (induction hs) (auto simp: in_pool_def pool_txs_def)

lemma template_versions_keeps [simp]:
  "bh_major_version (template_versions c b) = bh_major_version b" "bt_base_transaction (template_versions c b) = bt_base_transaction b"
  by (simp_all add: template_versions_def Let_def)

lemma template_difficulty_frame: "template_difficulty c s = Inr (d, s') \<Longrightarrow> same_but_cache s s'"
  by (auto simp: template_difficulty_def Let_def res_bind_eq_Inr dest: get_tip_segment_frame)

text \<open>
  C26: when a template is made, its coinbase, with the padding that may have been added, pays
  exactly the reward of a block of this size: of the transactions in it together with the
  coinbase itself, and with the fees of the transactions.  These are in the pool, and handing
  the template in finds their bytes.
\<close>

theorem template_pays_reward:
  assumes "create_mining_block_template env menv c now adr extra_nonce s = Inr (True, b, difficulty, height, s')"
  shows "let hs = bt_transaction_hashes b; tx = bt_base_transaction b; version = bh_major_version b;
      median = max (cs_next_median_size s) (block_granted_full_reward_zone_by_block_version c version) in
    height = bc_tip_height s + 1 \<and> version = get_block_major_version_for_height c height \<and>
    bh_previous_block_hash b = bc_tip_bid s \<and> cs_next_median_timestamp s \<le> bh_timestamp b \<and> difficulty \<noteq> 0 \<and>
    in_pool s hs \<and> mined_transactions hs s' = Some (map pt_binary_tx (pool_txs s hs)) \<and>
    tx_inputs tx = [CoinbaseInput height] \<and> tx_unlock_time tx = ucast (height + cy_mined_money_unlock_window c) \<and>
    (\<exists>tip ba. get_tip s = Inr tip \<and> enc_transaction tx = Inr ba \<and>
       (\<Sum>out\<leftarrow>tx_outputs tx. unat (to_amount out)) = unat (fst (get_block_reward c version (ucast median)
         (word_of_nat ((\<Sum>t\<leftarrow>pool_txs s hs. length (pt_binary_tx t)) + length ba)) (hi_already_generated_coins tip)
         (\<Sum>t\<leftarrow>pool_txs s hs. pt_fee t))))"
proof -
  let ?s = "clear_mining_transactions s"
  have cl: "bc_tip_height ?s = bc_tip_height s" "bc_tip_bid ?s = bc_tip_bid s" "cs_next_median_size ?s = cs_next_median_size s"
    "cs_next_median_timestamp ?s = cs_next_median_timestamp s" "get_tip ?s = get_tip s" "cs_memory_state_tx ?s = cs_memory_state_tx s"
    by (simp_all add: clear_mining_transactions_def get_tip_def)
  let ?b0 = "empty_block_template\<lparr>bh_major_version := get_block_major_version_for_height c (bc_tip_height s + 1)\<rparr>"
  from assms obtain d s1 where d: "template_difficulty c ?s = Inr (d, s1)"
    by (auto simp: create_mining_block_template_def Let_def res_bind_eq_Inr)
  obtain cache where s1: "s1 = ?s\<lparr>bc_header_cache := cache\<rparr>" using template_difficulty_frame [OF d] by (auto simp: same_but_cache_def)
  have g1: "get_tip s1 = get_tip s" by (simp add: s1 get_tip_def cl clear_mining_transactions_def)
  define b1 where "b1 = (template_versions c ?b0)\<lparr>bh_previous_block_hash := bc_tip_bid s, bh_timestamp := max now (cs_next_median_timestamp s)\<rparr>"
  define version where "version = get_block_major_version_for_height c (bc_tip_height s + 1)"
  define median where "median = max (cs_next_median_size s) (block_granted_full_reward_zone_by_block_version c version)"
  define max_size where "max_size = min ((125 * median) div 100) (max_block_cumulative_size c (bc_tip_height s + 1)) -
    cy_miner_tx_blob_reserved_size c"
  have b1: "bh_major_version b1 = version" "bh_previous_block_hash b1 = bc_tip_bid s"
    "bh_timestamp b1 = max now (cs_next_median_timestamp s)" "bt_base_transaction b1 = bt_base_transaction empty_block_template"
    by (simp_all add: b1_def version_def template_versions_def Let_def empty_block_template_def)
  from assms d obtain tip where tip: "get_tip s = Inr tip" and d0: "d \<noteq> 0"
    by (auto simp: create_mining_block_template_def Let_def res_bind_eq_Inr g1 split: if_splits)
  define construct where "construct = (\<lambda>fee n call tx. construct_miner_tx menv c version (bc_tip_height s + 1) (ucast median)
    (hi_already_generated_coins tip) (word_of_nat n) fee adr tx extra_nonce 11 call)"
  have run: "res_bind (select_transactions env c max_size (bc_tip_height s + 1) (pool_hashes s1) 0 0 []
      (new_delta (bc_tip_height s + 1) (bh_timestamp b1)) s1) (\<lambda>(txs_size, fee, taken, s).
      let b = b1\<lparr>bt_transaction_hashes := taken\<rparr> in
      case construct fee txs_size 0 (bt_base_transaction b) of
        None \<Rightarrow> Inr (False, b, d, bc_tip_height ?s + 1, s)
      | Some tx \<Rightarrow> res_bind (binary_size tx) (\<lambda>coinbase_size.
          res_bind (fit_coinbase (construct fee) txs_size TRIES_COUNT 1 (txs_size + coinbase_size) tx) (\<lambda>r. case r of
            None \<Rightarrow> Inr (False, b, d, bc_tip_height ?s + 1, s)
          | Some tx \<Rightarrow> Inr (True, b\<lparr>bt_base_transaction := tx\<rparr>, d, bc_tip_height ?s + 1, s)))) = Inr (True, b, difficulty, height, s')"
    using assms d d0 tip
    unfolding create_mining_block_template_def Let_def
    by (simp add: g1 [unfolded s1] cl s1 b1_def construct_def median_def max_size_def version_def cong del: option.case_cong_weak)
  obtain n fee taken s2 where sel: "select_transactions env c max_size (bc_tip_height s + 1) (pool_hashes s1) 0 0 []
      (new_delta (bc_tip_height s + 1) (bh_timestamp b1)) s1 = Inr (n, fee, taken, s2)"
    using run by (auto simp: res_bind_eq_Inr)
  let ?b = "b1\<lparr>bt_transaction_hashes := taken\<rparr>"
  from run sel obtain tx0 k tx where fit: "fit_coinbase (construct fee) n TRIES_COUNT 1 (n + k) tx0 = Inr (Some tx)"
    and res: "b = ?b\<lparr>bt_base_transaction := tx\<rparr>" "difficulty = d" "height = bc_tip_height s + 1" "s' = s2"
    by (auto simp: Let_def res_bind_eq_Inr cl split: option.splits)
  have pool: "in_pool s1 = in_pool s" "pool_txs s1 = pool_txs s"
    by (simp_all add: fun_eq_iff in_pool_def pool_txs_def s1 cl)
  obtain m where S: "in_pool s taken" "n = (\<Sum>t\<leftarrow>pool_txs s taken. length (pt_binary_tx t))"
    "fee = (\<Sum>t\<leftarrow>pool_txs s taken. pt_fee t)" "s2 = s1\<lparr>cs_mining_transactions := m\<rparr>"
    using select_transactions_ok [OF sel] by (auto simp: pool)
  have "\<exists>ba. enc_transaction tx = Inr ba \<and> pays c version (bc_tip_height s + 1) (ucast median) (hi_already_generated_coins tip) fee
      (n + length ba) tx"
    by (rule fit_coinbase_ok [OF _ _ fit]) (auto simp: construct_def intro: construct_miner_tx_pays)
  then obtain ba where ba: "enc_transaction tx = Inr ba"
    "pays c version (bc_tip_height s + 1) (ucast median) (hi_already_generated_coins tip) fee (n + length ba) tx" by blast
  have mt: "mined_transactions taken s2 = Some (map pt_binary_tx (pool_txs s taken))"
    using mined_transactions_pool [of s2 taken] S(1) by (simp add: S(4) pool)
  have sel_b: "bt_transaction_hashes b = taken" "bt_base_transaction b = tx" "bh_major_version b = version"
    "bh_previous_block_hash b = bc_tip_bid s" "bh_timestamp b = max now (cs_next_median_timestamp s)"
    by (simp_all add: res(1) b1)
  show ?thesis
    unfolding Let_def sel_b
    using ba tip d0 S(1) mt unfolding res(2-4) pays_def S(2,3)
    by (simp add: median_def [symmetric] version_def [symmetric])
qed

text \<open>A miner with fixed keys, and the first template on the small tree.\<close>

definition sample_miner :: miner_env where
  "sample_miner = \<lparr>random_keypair = (\<lambda>n. (replicate 32 4, replicate 32 5)),
     generate_key_derivation = (\<lambda>k sec. Some (replicate 32 6)), derive_public_key = (\<lambda>d i k. Some (replicate 32 7))\<rparr>"

definition sample_amounts :: "amount list" where
  "sample_amounts = [655, 710000, 6000000, 70000000, 900000000, 4000000000, 70000000000, 400000000000, 1000000000000,
     80000000000000, 200000000000000]"

definition sample_coinbase_tx :: transaction where
  "sample_coinbase_tx = with_signatures \<lparr>tx_version = 1, tx_unlock_time = 11, tx_inputs = [CoinbaseInput 1],
     tx_outputs = map (\<lambda>a. \<lparr>to_amount = a, to_target = KeyOutput (replicate 32 7)\<rparr>) sample_amounts, tx_extra = 1 # replicate 32 4\<rparr> []"

lemma sample_reward:
  "n \<in> {0, 458} \<Longrightarrow> get_block_reward sample_currency 2 (ucast (max (0 :: u32)
     (block_granted_full_reward_zone_by_block_version sample_currency 2))) (word_of_nat n) 0 0 = (281474976710655, 281474976710655)"
proof -
  have "get_block_reward sample_currency 2 (ucast (max (0 :: u32)
     (block_granted_full_reward_zone_by_block_version sample_currency 2))) 0 0 0 = (281474976710655, 281474976710655)"
   "get_block_reward sample_currency 2 (ucast (max (0 :: u32)
     (block_granted_full_reward_zone_by_block_version sample_currency 2))) 458 0 0 = (281474976710655, 281474976710655)"
    by code_simp+
  then show "n \<in> {0, 458} \<Longrightarrow> ?thesis" by auto
qed

lemma sample_amounts_eq: "merge_outs 11 (decompose_amount 281474976710655 1000000) = sample_amounts"
  by code_simp

lemma sample_coinbase_size: "binary_size sample_coinbase_tx = Inr 458"
  by code_simp


lemma sample_construct:
  assumes "n \<in> {0, 458}" "tx_signatures t = []"
  shows "construct_miner_tx sample_miner sample_currency 2 1 (ucast (max (0 :: u32)
     (block_granted_full_reward_zone_by_block_version sample_currency 2))) 0 (word_of_nat n) 0 sample_address t [] 11 call =
     Some sample_coinbase_tx"
proof -
  have outs: "miner_outputs sample_miner sample_address sec k as =
      Some (map (\<lambda>a. \<lparr>to_amount = a, to_target = KeyOutput (replicate 32 7)\<rparr>) as)" for sec k as
    by (induction as arbitrary: k) (simp_all add: sample_miner_def)
  have c: "cy_default_dust_threshold sample_currency = 1000000" "cy_mined_money_unlock_window sample_currency = 10"
    "cy_current_transaction_version sample_currency = 1"
    by (simp_all add: sample_currency_def make_currency_def)
  have kp: "random_keypair sample_miner call = (replicate 32 4, replicate 32 5)" by (simp add: sample_miner_def)
  have sum: "sum_list sample_amounts = 281474976710655" by (simp add: sample_amounts_def)
  show ?thesis
    using assms(2) unfolding construct_miner_tx_def Let_def sample_reward [OF assms(1)] c
    by (cases t) (simp add: outs sample_amounts_eq sum kp sample_coinbase_tx_def with_signatures_def
      transaction_prefix.defs transaction.defs add_transaction_public_key_to_extra_def)
qed

lemma sample_template_made:
  "\<exists>b d h s'. create_mining_block_template sample_env sample_miner sample_currency 0 sample_address [] sample_tree = Inr (True, b, d, h, s')"
proof -
  have clear: "clear_mining_transactions sample_tree = sample_tree"
    by (simp add: clear_mining_transactions_def sample_tree_def)
  have d: "template_difficulty sample_currency sample_tree = Inr (1, sample_tree)"
    by (simp add: template_difficulty_def get_tip_def get_tip_segment_def next_difficulty_def next_difficulty_v1_def Let_def
      sample_currency_def make_currency_def HARDFORK_V2_HEIGHT_def)
  have v: "get_block_major_version_for_height sample_currency 1 = 2" by code_simp
  have tip: "get_tip sample_tree = Inr sample_genesis_info" by code_simp
  have pool: "pool_hashes sample_tree = []" by (simp add: pool_hashes_def sample_tree_def)
  have base: "tx_signatures (bt_base_transaction empty_block_template) = []" "tx_signatures sample_coinbase_tx = []"
    by (simp_all add: empty_block_template_def sample_coinbase_tx_def with_signatures_def transaction.defs transaction_prefix.defs empty_prefix_def)
  have m: "cs_next_median_size sample_tree = 0" "hi_already_generated_coins sample_genesis_info = 0"
    by (simp_all add: sample_tree_def sample_genesis_info_def empty_header_info_def)
  have fit: "fit_coinbase f 0 TRIES_COUNT call n t = Inr (Some t')" if "f n call t = Some t'" "binary_size t' = Inr n" for f call n t t'
    using that fit_coinbase.simps(2) [of f 0 9 call n t] by (simp add: TRIES_COUNT_def)
  note C = sample_construct [of 0, simplified] sample_construct [of 458, simplified]
  show ?thesis
    unfolding create_mining_block_template_def Let_def clear
    by (simp add: d v tip pool m C base sample_coinbase_size fit cong del: option.case_cong_weak)
qed

lemma template_pays_reward_witness:
  "\<exists>b d h s'. create_mining_block_template sample_env sample_miner sample_currency 0 sample_address [] sample_tree = Inr (True, b, d, h, s') \<and>
   (let hs = bt_transaction_hashes b; tx = bt_base_transaction b; version = bh_major_version b;
      median = max (cs_next_median_size sample_tree) (block_granted_full_reward_zone_by_block_version sample_currency version) in
    h = bc_tip_height sample_tree + 1 \<and> version = get_block_major_version_for_height sample_currency h \<and>
    bh_previous_block_hash b = bc_tip_bid sample_tree \<and> cs_next_median_timestamp sample_tree \<le> bh_timestamp b \<and> d \<noteq> 0 \<and>
    in_pool sample_tree hs \<and> mined_transactions hs s' = Some (map pt_binary_tx (pool_txs sample_tree hs)) \<and>
    tx_inputs tx = [CoinbaseInput h] \<and> tx_unlock_time tx = ucast (h + cy_mined_money_unlock_window sample_currency) \<and>
    (\<exists>tip ba. get_tip sample_tree = Inr tip \<and> enc_transaction tx = Inr ba \<and>
       (\<Sum>out\<leftarrow>tx_outputs tx. unat (to_amount out)) = unat (fst (get_block_reward sample_currency version (ucast median)
         (word_of_nat ((\<Sum>t\<leftarrow>pool_txs sample_tree hs. length (pt_binary_tx t)) + length ba)) (hi_already_generated_coins tip)
         (\<Sum>t\<leftarrow>pool_txs sample_tree hs. pt_fee t)))))"
proof -
  obtain b d h s' where r: "create_mining_block_template sample_env sample_miner sample_currency 0 sample_address [] sample_tree =
      Inr (True, b, d, h, s')" using sample_template_made by blast
  with template_pays_reward [OF r] show ?thesis by blast
qed

section \<open>The difficulty of the template\<close>

text \<open>
  The check of a block computes its difficulty with the height of the parent, the template with
  that of the block itself.  This makes no difference except for the two blocks at which the
  algorithm changes.
\<close>

lemma word_Suc_le:
  assumes "(h :: height) \<noteq> - 1"
  shows "h + 1 \<le> x \<longleftrightarrow> h < x"
proof -
  have "unat (h + 1) = unat h + 1" by (rule no_wrap_succ [OF assms])
  then show ?thesis by (simp add: word_le_nat_alt word_less_nat_alt Suc_le_eq)
qed

lemma template_difficulty_agrees:
  assumes "get_tip s = Inr tip" "hi_height tip = bc_tip_height s" "bc_tip_height s \<noteq> - 1"
    and "bc_tip_height s \<noteq> cy_hardfork_v2_height c" "bc_tip_height s + 1 \<noteq> cy_hardfork_v1_height c"
  shows "template_difficulty c s = block_difficulty c tip s"
proof -
  let ?h = "bc_tip_height s"
  have v2: "?h + 1 \<le> cy_hardfork_v2_height c \<longleftrightarrow> ?h \<le> cy_hardfork_v2_height c"
    using word_Suc_le [OF assms(3), of "cy_hardfork_v2_height c"] assms(4) by auto
  have "cy_hardfork_v1_height c \<le> ?h + 1 \<longleftrightarrow> cy_hardfork_v1_height c \<le> ?h"
  proof -
    have "cy_hardfork_v1_height c \<le> ?h + 1 \<longleftrightarrow> cy_hardfork_v1_height c < ?h + 1" using assms(5) by auto
    also have "\<dots> \<longleftrightarrow> \<not> ?h + 1 \<le> cy_hardfork_v1_height c" by auto
    also have "\<dots> \<longleftrightarrow> cy_hardfork_v1_height c \<le> ?h" unfolding word_Suc_le [OF assms(3)] by auto
    finally show ?thesis .
  qed
  note v1 = this
  have "next_difficulty c (?h + 1) = next_difficulty c ?h"
    unfolding fun_eq_iff next_difficulty_def next_difficulty_v1_def v1 v2 by blast
  then show ?thesis by (simp add: template_difficulty_def block_difficulty_def assms(1,2) Let_def)
qed

lemma template_difficulty_fork:
  "let c = make_currency False empty_block_template null_hash; h = cy_hardfork_v1_height c in
   next_difficulty c h [0, 1000] [0, 1] = Inr 100 \<and> next_difficulty c (h - 1) [0, 1000] [0, 1] = Inr 1"
  by code_simp

end
