(* ===== verification/Amount_Text.thy ===== *)
theory Amount_Text
  imports Chain_Base
begin

text \<open>
  Amounts as text (\<open>format_amount\<close>, \<open>parse_amount\<close> and \<open>is_dust\<close> of
  \<open>Core/Currency.cpp\<close>).  The digits behind the point are grouped as eight decimal places
  would be; the coin is configured with ten, and then the text of some amounts is that of others.
\<close>

section \<open>Numbers as text\<close>

text \<open>\<open>std::to_string\<close> and reading digits from a stream, which fails beyond 64 bits.\<close>

definition digit_letter :: "nat \<Rightarrow> char" where
  "digit_letter d = char_of (48 + d)"

fun decimal :: "nat \<Rightarrow> string" where
  "decimal n = (if n < 10 then [digit_letter n] else decimal (n div 10) @ [digit_letter (n mod 10)])"

declare decimal.simps [simp del]

definition is_digit :: "char \<Rightarrow> bool" where
  "is_digit c \<longleftrightarrow> 48 \<le> (of_char c :: nat) \<and> (of_char c :: nat) \<le> 57"

definition digits_value :: "string \<Rightarrow> nat" where
  "digits_value s = foldl (\<lambda>n c. n * 10 + (of_char c - 48)) 0 s"

definition read_u64 :: "string \<Rightarrow> u64 option" where
  "read_u64 s = (if digits_value s < 2 ^ 64 then Some (word_of_nat (digits_value s)) else None)"

section \<open>Printing\<close>

definition DECIMAL_PLACES :: "amount list" where
  "DECIMAL_PLACES = [1, 10, 100, 1000, 10000, 100000, 1000000, 10000000, 100000000, 1000000000, 10000000000,
     100000000000, 1000000000000, 10000000000000, 100000000000000, 1000000000000000, 10000000000000000,
     100000000000000000, 1000000000000000000, 10000000000000000000]"

text \<open>\<open>DECIMAL_PLACES.at(n)\<close>; \<open>n\<close> may be the result of a subtraction that wraps around.\<close>

definition decimal_places_at :: "int \<Rightarrow> amount result" where
  "decimal_places_at n =
     (if 0 \<le> n \<and> nat n < length DECIMAL_PLACES then Inr (DECIMAL_PLACES ! nat n) else Inl (Out_of_range ''vector''))"

definition ffw :: "amount \<Rightarrow> nat \<Rightarrow> string" where
  "ffw am digs = (let result = decimal (unat am) in replicate (digs - length result) (CHR ''0'') @ result)"

function thousands :: "amount \<Rightarrow> string \<Rightarrow> string" where
  "thousands ia result =
     (if ia \<ge> 1000 then thousands (ia div 1000) (CHR 0x27 # ffw (ia mod 1000) 3 @ result)
      else decimal (unat ia) @ result)"
  by pat_completeness auto
termination
  by (relation "measure (\<lambda>(ia, r). unat ia)") (auto simp: unat_div word_le_nat_alt)

declare thousands.simps [simp del]

definition format_amount :: "nat \<Rightarrow> amount \<Rightarrow> string result" where
  "format_amount number_of_decimal_places amount =
     res_bind (decimal_places_at (int number_of_decimal_places)) (\<lambda>coin.
     let ia = amount div coin; fa = amount - ia * coin; result = thousands ia [] in
     res_bind (if fa \<noteq> 0 then res_bind (decimal_places_at (int number_of_decimal_places - 2)) (\<lambda>p.
         Inr (result @ ''.'' @ ffw (fa div p) 2, fa mod p)) else Inr (result, fa)) (\<lambda>(result, fa).
     let (result, fa) = (if fa \<noteq> 0 then (result @ CHR 0x27 # ffw (fa div 1000) 3, fa mod 1000) else (result, fa));
         result = (if fa \<noteq> 0 then result @ CHR 0x27 # ffw fa 3 else result)
     in Inr result))"

text \<open>The overload for signed amounts; \<open>abs\<close> of the least one is itself.\<close>

definition format_signed_amount :: "nat \<Rightarrow> 64 word \<Rightarrow> string result" where
  "format_signed_amount number_of_decimal_places amount =
     res_bind (format_amount number_of_decimal_places (if sint amount < 0 then - amount else amount)) (\<lambda>s.
     Inr (if sint amount < 0 then ''-'' @ s else s))"

section \<open>Parsing\<close>

definition is_space :: "char \<Rightarrow> bool" where
  "is_space c \<longleftrightarrow> of_char c \<in> {9 :: nat, 10, 11, 12, 13, 32}"

definition trim :: "string \<Rightarrow> string" where
  "trim s = rev (dropWhile is_space (rev (dropWhile is_space s)))"

text \<open>The loop that drops zeros at the end while there are too many decimals.\<close>

fun drop_zeros :: "nat \<Rightarrow> nat \<Rightarrow> string \<Rightarrow> nat \<times> string" where
  "drop_zeros places 0 s = (0, s)"
| "drop_zeros places (Suc fraction_size) s =
     (if places < Suc fraction_size \<and> s \<noteq> [] \<and> last s = CHR ''0'' then drop_zeros places fraction_size (butlast s)
      else (Suc fraction_size, s))"

definition parse_amount :: "nat \<Rightarrow> string \<Rightarrow> amount option" where
  "parse_amount number_of_decimal_places str =
     (let str_amount = filter (\<lambda>c. c \<noteq> CHR 0x27) (trim str);
          whole = takeWhile (\<lambda>c. c \<noteq> CHR ''.'') str_amount
      in
      case (if CHR ''.'' \<in> set str_amount then
              let (fraction_size, s) = drop_zeros number_of_decimal_places
                    (length str_amount - length whole - 1) str_amount
              in if number_of_decimal_places < fraction_size then None
                 else Some (fraction_size, take (length whole) s @ drop (length whole + 1) s)
            else Some (0, str_amount)) of
        None \<Rightarrow> None
      | Some (fraction_size, s) \<Rightarrow>
          if s = [] then None
          else if \<not> list_all is_digit s then None
          else read_u64 (if fraction_size < number_of_decimal_places
                 then s @ replicate (number_of_decimal_places - fraction_size) (CHR ''0'') else s))"

section \<open>Dust\<close>

definition PRETTY_AMOUNTS :: "amount list" where
  "PRETTY_AMOUNTS = [1, 2, 3, 4, 5, 6, 7, 8, 9, 10, 20, 30, 40, 50, 60, 70, 80, 90, 100, 200, 300, 400, 500, 600, 700, 800, 900,
     1000, 2000, 3000, 4000, 5000, 6000, 7000, 8000, 9000, 10000, 20000, 30000, 40000, 50000, 60000, 70000, 80000,
     90000, 100000, 200000, 300000, 400000, 500000, 600000, 700000, 800000, 900000, 1000000, 2000000, 3000000,
     4000000, 5000000, 6000000, 7000000, 8000000, 9000000, 10000000, 20000000, 30000000, 40000000, 50000000,
     60000000, 70000000, 80000000, 90000000, 100000000, 200000000, 300000000, 400000000, 500000000, 600000000,
     700000000, 800000000, 900000000, 1000000000, 2000000000, 3000000000, 4000000000, 5000000000, 6000000000,
     7000000000, 8000000000, 9000000000, 10000000000, 20000000000, 30000000000, 40000000000, 50000000000,
     60000000000, 70000000000, 80000000000, 90000000000, 100000000000, 200000000000, 300000000000, 400000000000,
     500000000000, 600000000000, 700000000000, 800000000000, 900000000000, 1000000000000, 2000000000000,
     3000000000000, 4000000000000, 5000000000000, 6000000000000, 7000000000000, 8000000000000, 9000000000000,
     10000000000000, 20000000000000, 30000000000000, 40000000000000, 50000000000000, 60000000000000,
     70000000000000, 80000000000000, 90000000000000, 100000000000000, 200000000000000, 300000000000000,
     400000000000000, 500000000000000, 600000000000000, 700000000000000, 800000000000000, 900000000000000,
     1000000000000000, 2000000000000000, 3000000000000000, 4000000000000000, 5000000000000000, 6000000000000000,
     7000000000000000, 8000000000000000, 9000000000000000, 10000000000000000, 20000000000000000,
     30000000000000000, 40000000000000000, 50000000000000000, 60000000000000000, 70000000000000000,
     80000000000000000, 90000000000000000, 100000000000000000, 200000000000000000, 300000000000000000,
     400000000000000000, 500000000000000000, 600000000000000000, 700000000000000000, 800000000000000000,
     900000000000000000, 1000000000000000000, 2000000000000000000, 3000000000000000000, 4000000000000000000,
     5000000000000000000, 6000000000000000000, 7000000000000000000, 8000000000000000000, 9000000000000000000,
     10000000000000000000]"

text \<open>\<open>std::lower_bound\<close> on the sorted table.\<close>

definition is_dust :: "amount \<Rightarrow> bool" where
  "is_dust amount =
     (case dropWhile (\<lambda>p. p < amount) PRETTY_AMOUNTS of
        [] \<Rightarrow> True
      | p # _ \<Rightarrow> p \<noteq> amount \<or> amount < 1000000)"

section \<open>Digits\<close>

lemma of_digit: "d < 10 \<Longrightarrow> of_char (digit_letter d) = 48 + d"
  by (simp add: digit_letter_def)

definition plain :: "string \<Rightarrow> bool" where
  "plain s \<longleftrightarrow> list_all (\<lambda>c. is_digit c) s"

lemma plain_simps [simp]: "plain []" "plain (a @ b) \<longleftrightarrow> plain a \<and> plain b" "plain (c # b) \<longleftrightarrow> is_digit c \<and> plain b"
  "plain (replicate n (CHR ''0''))"
  by (auto simp: plain_def list_all_iff is_digit_def)

lemma is_digit_digit [simp]: "d < 10 \<Longrightarrow> is_digit (digit_letter d)"
  by (simp add: is_digit_def of_digit)

lemma digit_char: "is_digit c \<Longrightarrow> c \<noteq> CHR 0x27 \<and> c \<noteq> CHR ''.'' \<and> \<not> is_space c"
  by (auto simp: is_digit_def is_space_def)

lemma plain_chars:
  assumes "plain s"
  shows "filter (\<lambda>c. c \<noteq> CHR 0x27) s = s" "CHR ''.'' \<notin> set s" "list_all (\<lambda>c. \<not> is_space c) s"
    "takeWhile (\<lambda>c. c \<noteq> CHR ''.'') (s @ CHR ''.'' # r) = s"
proof -
  have c: "c \<noteq> CHR 0x27 \<and> c \<noteq> CHR ''.'' \<and> \<not> is_space c" if "c \<in> set s" for c
    using that assms digit_char by (simp add: plain_def list_all_iff)
  show "filter (\<lambda>c. c \<noteq> CHR 0x27) s = s" using c by (simp add: filter_id_conv)
  show "CHR ''.'' \<notin> set s" "list_all (\<lambda>c. \<not> is_space c) s" using c by (auto simp: list_all_iff)
  show "takeWhile (\<lambda>c. c \<noteq> CHR ''.'') (s @ CHR ''.'' # r) = s"
    using c by (subst takeWhile_append2) simp_all
qed

lemma plain_decimal [simp]: "plain (decimal n)"
proof (induction n rule: decimal.induct)
  case (1 n)
  then show ?case by (subst decimal.simps) simp
qed

lemma decimal_nonempty [simp]: "decimal n \<noteq> []"
  by (subst decimal.simps) simp

lemma digits_value_snoc: "digits_value (a @ [c]) = digits_value a * 10 + (of_char c - 48)"
  by (simp add: digits_value_def)

lemma digits_value_append: "digits_value (a @ b) = digits_value a * 10 ^ length b + digits_value b"
proof (induction b rule: rev_induct)
  case Nil
  show ?case by (simp add: digits_value_def)
next
  case (snoc c b)
  have "digits_value (a @ b @ [c]) = digits_value (a @ b) * 10 + (of_char c - 48)"
    using digits_value_snoc [of "a @ b" c] by simp
  also have "\<dots> = (digits_value a * 10 ^ length b) * 10 + (digits_value b * 10 + (of_char c - 48))"
    by (simp only: snoc distrib_right add.assoc)
  finally show ?case by (simp add: digits_value_snoc)
qed

lemma digits_value_simps [simp]:
  "digits_value [] = 0" "d < 10 \<Longrightarrow> digits_value [digit_letter d] = d" "digits_value (replicate n (CHR ''0'')) = 0"
proof -
  show "digits_value [] = 0" by (simp add: digits_value_def)
  show "d < 10 \<Longrightarrow> digits_value [digit_letter d] = d" by (simp add: digits_value_def of_digit)
  show "digits_value (replicate n (CHR ''0'')) = 0"
  proof (induction n)
    case (Suc n)
    then show ?case using digits_value_append [of "[CHR ''0'']" "replicate n (CHR ''0'')"] by (simp add: digits_value_def)
  qed (simp add: digits_value_def)
qed

lemma digits_value_decimal [simp]: "digits_value (decimal n) = n"
proof (induction n rule: decimal.induct)
  case (1 n)
  then show ?case by (subst decimal.simps) (simp add: digits_value_append)
qed

lemma length_decimal: "n < 10 ^ k \<Longrightarrow> 0 < k \<Longrightarrow> length (decimal n) \<le> k"
proof (induction k arbitrary: n)
  case (Suc k)
  show ?case
  proof (cases "n < 10")
    case False
    with Suc.prems have "n div 10 < 10 ^ k" "0 < k" by (auto simp: less_mult_imp_div_less mult.commute intro: gr0I)
    with Suc.IH False show ?thesis by (subst decimal.simps) simp
  qed (subst decimal.simps, simp)
qed simp

text \<open>Equal texts of digits: same value and same length.\<close>

lemma digits_unique: "plain a \<Longrightarrow> plain b \<Longrightarrow> length a = length b \<Longrightarrow> digits_value a = digits_value b \<Longrightarrow> a = b"
proof (induction a arbitrary: b rule: rev_induct)
  case (snoc c a)
  then obtain b' d where b: "b = b' @ [d]" by (cases b rule: rev_cases) auto
  have dig: "digits_value [x] < 10" if "is_digit x" for x
    using that unfolding digits_value_def is_digit_def by (simp del: of_char_eq_iff) arith
  have v: "digits_value a * 10 + digits_value [c] = digits_value b' * 10 + digits_value [d]"
    using snoc.prems(4) by (simp add: b digits_value_append)
  moreover have "digits_value [c] < 10" "digits_value [d] < 10" using snoc.prems(1,2) dig by (simp_all add: b)
  ultimately have "digits_value a = digits_value b'" "digits_value [c] = digits_value [d]" by presburger+
  moreover have "c = d"
  proof -
    have "of_char c = (of_char d :: nat)"
      using calculation(2) snoc.prems(1,2) by (simp add: b digits_value_def is_digit_def del: of_char_eq_iff) arith
    then show ?thesis by (simp only: of_char_eq_iff)
  qed
  ultimately show ?case using snoc.IH [of b'] snoc.prems by (simp add: b)
qed simp

lemma ffw_facts:
  assumes "unat am < 10 ^ k" "0 < k"
  shows "plain (ffw am k)" "length (ffw am k) = k" "digits_value (ffw am k) = unat am"
  using length_decimal [OF assms] by (simp_all add: ffw_def Let_def digits_value_append)

lemma decimal_step: "10 \<le> n \<Longrightarrow> decimal n = decimal (n div 10) @ [digit_letter (n mod 10)]"
  by (subst decimal.simps) simp

lemma three_digits:
  assumes "a < 10" "b < 10" "c < 10" "unat am = a * 100 + b * 10 + c"
  shows "ffw am 3 = [digit_letter a, digit_letter b, digit_letter c]"
proof (rule digits_unique)
  show "digits_value (ffw am 3) = digits_value [digit_letter a, digit_letter b, digit_letter c]"
    using ffw_facts(3) [of am 3] assms digits_value_append [of "[digit_letter a]" "[digit_letter b, digit_letter c]"]
      digits_value_append [of "[digit_letter b]" "[digit_letter c]"] by simp
qed (use ffw_facts [of am 3] assms in simp_all)

lemma last_three: "(n::nat) mod 1000 = n div 100 mod 10 * 100 + n div 10 mod 10 * 10 + n mod 10"
  using mod_mult2_eq [of n 10 100] mod_mult2_eq [of "n div 10" 10 10] div_mult2_eq [of n 10 10] by simp

lemma decimal_split:
  assumes n: "1000 \<le> n" and am: "unat am = n mod 1000"
  shows "decimal n = decimal (n div 1000) @ ffw am 3"
proof -
  have e: "n div 10 div 10 = n div 100" "n div 100 div 10 = n div 1000" by (simp_all add: div_mult2_eq [symmetric])
  have "10 \<le> n" "10 \<le> n div 10" "10 \<le> n div 100" using n by linarith+
  note step = decimal_step [OF this(1)] decimal_step [OF this(2)] decimal_step [OF this(3)]
  have "ffw am 3 = [digit_letter (n div 100 mod 10), digit_letter (n div 10 mod 10), digit_letter (n mod 10)]"
    by (rule three_digits) (simp_all only: am last_three [of n] mod_less_divisor zero_less_numeral)
  then show ?thesis by (simp only: step e append_assoc append_Cons append_Nil)
qed

section \<open>What a text says\<close>

abbreviation unquoted :: "string \<Rightarrow> string" where
  "unquoted s \<equiv> filter (\<lambda>c. c \<noteq> CHR 0x27) s"

definition no_space :: "string \<Rightarrow> bool" where
  "no_space s \<longleftrightarrow> list_all (\<lambda>c. \<not> is_space c) s"

lemma no_space_simps [simp]: "no_space []" "no_space (a @ b) \<longleftrightarrow> no_space a \<and> no_space b"
  "no_space (c # b) \<longleftrightarrow> \<not> is_space c \<and> no_space b" "plain a \<Longrightarrow> no_space a"
  by (simp_all add: no_space_def plain_chars(3))

lemma separators [simp]: "\<not> is_space (CHR 0x27)" "\<not> is_space (CHR ''.'')"
  by (simp_all add: is_space_def)

lemma trim_no_space: "no_space s \<Longrightarrow> trim s = s"
proof -
  have "dropWhile is_space s = s" if "no_space s" for s
    using that by (cases s) simp_all
  moreover have "no_space (rev s) = no_space s" by (simp add: no_space_def list_all_iff)
  ultimately show "no_space s \<Longrightarrow> trim s = s" by (simp add: trim_def)
qed

lemma thousands_facts: "unquoted (thousands ia r) = decimal (unat ia) @ unquoted r \<and> (no_space r \<longrightarrow> no_space (thousands ia r))"
proof (induction ia r rule: thousands.induct)
  case (1 ia r)
  show ?case
  proof (cases "1000 \<le> ia")
    case True
    have m: "unat (ia mod 1000) = unat ia mod 1000" "unat (ia div 1000) = unat ia div 1000"
      by (simp_all add: unat_mod unat_div)
    have f: "plain (ffw (ia mod 1000) 3)" using ffw_facts(1) [of "ia mod 1000" 3] m by simp
    have "decimal (unat ia) = decimal (unat ia div 1000) @ ffw (ia mod 1000) 3"
      using decimal_split m True by (simp add: word_le_nat_alt)
    with 1 [OF True] True show ?thesis
      by (subst (1 2) thousands.simps) (simp add: m plain_chars(1) [OF f] f)
  next
    case False
    then show ?thesis by (subst (1 2) thousands.simps) (simp add: plain_chars(1))
  qed
qed

lemma parse_whole:
  assumes "no_space s" "unquoted s = w" "plain w" "w \<noteq> []"
  shows "parse_amount n s = read_u64 (w @ replicate n (CHR ''0''))"
  using assms plain_chars(2) [of w] by (simp add: parse_amount_def trim_no_space plain_def Let_def)

lemma parse_point:
  assumes "no_space s" "unquoted s = w @ CHR ''.'' # f" "plain w" "plain f" "w \<noteq> []" "length f \<le> n"
  shows "parse_amount n s = read_u64 (w @ f @ replicate (n - length f) (CHR ''0''))"
proof -
  have d: "drop_zeros n (length f) s = (length f, s)" for s using assms(6) by (cases "length f") simp_all
  show ?thesis using assms plain_chars(4) [OF assms(3)]
    by (auto simp: parse_amount_def trim_no_space plain_def Let_def d)
qed

text \<open>The digits that \<open>format_amount\<close> puts behind the point, for eight decimals.\<close>

definition cents :: "amount \<Rightarrow> string" where
  "cents fa = (let p = ffw (fa div 1000000) 2; fb = fa mod 1000000; fc = fb mod 1000 in
     if fb = 0 then p else p @ CHR 0x27 # ffw (fb div 1000) 3 @ (if fc = 0 then [] else CHR 0x27 # ffw fc 3))"

lemma format_eight: "format_amount 8 a =
    Inr (thousands (a div 100000000) [] @ (if a mod 100000000 = 0 then [] else CHR ''.'' # cents (a mod 100000000)))"
proof -
  have m: "a - a div 100000000 * 100000000 = a mod 100000000"
    by (metis add_diff_cancel_left' div_mult_mod_eq)
  have c: "decimal_places_at (int 8) = Inr 100000000" "decimal_places_at (int 8 - 2) = Inr 1000000"
    by (simp_all add: decimal_places_at_def DECIMAL_PLACES_def)
  show ?thesis
    by (simp only: format_amount_def c res_bind_Inr Let_def m) (simp add: cents_def Let_def)
qed

lemma cents_facts:
  assumes "unat fa < 100000000"
  shows "no_space (cents fa) \<and> plain (unquoted (cents fa)) \<and> length (unquoted (cents fa)) \<le> 8
    \<and> digits_value (unquoted (cents fa)) * 10 ^ (8 - length (unquoted (cents fa))) = unat fa"
proof -
  define p where "p = ffw (fa div 1000000) 2"
  define fb where "fb = fa mod 1000000"
  define q where "q = ffw (fb div 1000) 3"
  define r where "r = ffw (fb mod 1000) 3"
  have u: "unat (fa div 1000000) = unat fa div 1000000" "unat fb = unat fa mod 1000000"
    "unat (fb div 1000) = unat fb div 1000" "unat (fb mod 1000) = unat fb mod 1000"
    by (simp_all add: unat_div unat_mod fb_def)
  have P: "plain p" "length p = 2" "digits_value p = unat fa div 1000000"
    using ffw_facts [of "fa div 1000000" 2] assms by (simp_all add: p_def u)
  have Q: "plain q" "length q = 3" "digits_value q = unat fb div 1000"
    using ffw_facts [of "fb div 1000" 3] by (simp_all add: q_def u)
  have R: "plain r" "length r = 3" "digits_value r = unat fb mod 1000"
    using ffw_facts [of "fb mod 1000" 3] by (simp_all add: r_def u)
  have z: "unat fb = 0" if "fb = 0" using that by simp
  have z': "unat fb mod 1000 = 0" if "fb mod 1000 = 0" using that u(4) by simp
  have s1: "unat fa = unat fa div 1000000 * 1000000 + unat fb" using u(2) by simp
  have s2: "unat fb = unat fb div 1000 * 1000 + unat fb mod 1000" by simp
  have c: "cents fa = (if fb = 0 then p else p @ CHR 0x27 # q @ (if fb mod 1000 = 0 then [] else CHR 0x27 # r))"
    by (simp add: cents_def p_def fb_def q_def r_def Let_def)
  note pl = plain_chars(1) [OF P(1)] plain_chars(1) [OF Q(1)] plain_chars(1) [OF R(1)]
  consider "fb = 0" | "fb \<noteq> 0" "fb mod 1000 = 0" | "fb \<noteq> 0" "fb mod 1000 \<noteq> 0" by blast
  then show ?thesis
  proof cases
    case 1
    then show ?thesis using s1 z by (simp add: c pl P)
  next
    case 2
    then show ?thesis using s1 s2 z' by (simp add: c pl P Q digits_value_append)
  next
    case 3
    then show ?thesis using s1 s2 by (simp add: c pl P Q R digits_value_append)
  qed
qed

lemma amount_text_eight: "format_amount 8 a = Inr s \<Longrightarrow> parse_amount 8 s = Some a"
proof -
  assume f: "format_amount 8 a = Inr s"
  let ?ia = "a div 100000000" and ?fa = "a mod 100000000"
  have u: "unat ?ia = unat a div 100000000" "unat ?fa = unat a mod 100000000" by (simp_all add: unat_div unat_mod)
  have t: "unquoted (thousands ?ia []) = decimal (unat ?ia)" "no_space (thousands ?ia [])"
    using thousands_facts [of ?ia "[]"] by simp_all
  have v: "read_u64 x = Some a" if "digits_value x = unat a" for x
    using that unsigned_less [of a] by (simp add: read_u64_def)
  show ?thesis
  proof (cases "?fa = 0")
    case True
    then have "unat a mod 100000000 = 0" using u(2) by simp
    then have "read_u64 (decimal (unat ?ia) @ replicate 8 (CHR ''0'')) = Some a"
      by (intro v) (simp add: digits_value_append u mod_0_imp_dvd)
    moreover have "s = thousands ?ia []" using f True by (simp add: format_eight)
    ultimately show ?thesis using parse_whole [of s "decimal (unat ?ia)" 8] t by simp
  next
    case False
    have c: "no_space (cents ?fa)" "plain (unquoted (cents ?fa))" "length (unquoted (cents ?fa)) \<le> 8"
      "digits_value (unquoted (cents ?fa)) * 10 ^ (8 - length (unquoted (cents ?fa))) = unat ?fa"
      using cents_facts [of ?fa] u(2) by simp_all
    let ?f = "unquoted (cents ?fa)"
    have s: "s = thousands ?ia [] @ CHR ''.'' # cents ?fa" using f False by (simp add: format_eight)
    have "length ?f + (8 - length ?f) = 8" using c(3) by simp
    then have "digits_value (decimal (unat ?ia) @ ?f @ replicate (8 - length ?f) (CHR ''0'')) = unat a"
      using c(4) u by (simp add: digits_value_append)
    then show ?thesis using parse_point [of s "decimal (unat ?ia)" ?f 8] t c s v by simp
  qed
qed

lemma misprinted: "format_amount 10 1234567 = Inr (''0.00'' @ CHR 0x27 # ''1234'' @ CHR 0x27 # ''567'')"
proof -
  have c: "decimal_places_at (int 10) = Inr 10000000000" "decimal_places_at (int 10 - 2) = Inr 100000000"
    by (simp_all add: decimal_places_at_def DECIMAL_PLACES_def)
  have d: "digit_letter 0 = CHR ''0''" "digit_letter 1 = CHR ''1''" "digit_letter 2 = CHR ''2''" "digit_letter 3 = CHR ''3''" "digit_letter 4 = CHR ''4''"
    "digit_letter 5 = CHR ''5''" "digit_letter 6 = CHR ''6''" "digit_letter 7 = CHR ''7''"
    by (code_simp+)
  show ?thesis
    by (simp only: format_amount_def c res_bind_Inr Let_def)
      (simp add: thousands.simps decimal.simps ffw_def d d [simplified])
qed

lemma misread: "parse_amount 10 (''0.00'' @ CHR 0x27 # ''1234'' @ CHR 0x27 # ''567'') = Some 12345670"
proof -
  have p: "plain ''0''" "plain ''001234567''" by (simp_all add: is_digit_def)
  have "digits_value ''00012345670'' = 12345670" by (simp add: digits_value_def)
  then have "read_u64 ''00012345670'' = Some 12345670" by (simp add: read_u64_def)
  with p show ?thesis
    by (subst parse_point [of _ "''0''" "''001234567''"]) (simp_all add: is_space_def)
qed

text \<open>C29: Printing and reading an amount with eight decimals gives the amount back.  With ten decimals,
  what the coin is configured with, 1234567 units are printed as a text that reads as 12345670.\<close>

theorem amount_text:
  "(\<exists>s. format_amount 8 a = Inr s \<and> parse_amount 8 s = Some a)
   \<and> (\<exists>s. format_amount 10 1234567 = Inr s \<and> parse_amount 10 s = Some 12345670)"
  using format_eight amount_text_eight misprinted misread by blast

end
