(* ===== verification/Coin_Selection.thy ===== *)
theory Coin_Selection
  imports Tx_Rules Amount_Text Ordered_Map "HOL-Library.Multiset"
begin

text \<open>
  How the wallet chooses the coins that pay for a transaction (\<open>UnspentSelector\<close> of
  \<open>Core/TransactionBuilder.cpp\<close>).  Coins are stacked by their leading digit and its decimal
  place, dust by amount.  Reading the last element of an empty container is undefined in C++ and
  \<open>None\<close> here, as is a loop that does not end; the theorems show that neither happens.
\<close>

section \<open>State\<close>

text \<open>\<open>api::Output\<close>.\<close>

record api_output =
  ao_amount :: amount
  ao_public_key :: public_key
  ao_global_index :: u32
  ao_unlock_time :: unlock_moment
  ao_index_in_transaction :: u32
  ao_height :: height
  ao_key_image :: key_image
  ao_transaction_public_key :: public_key
  ao_address :: string
  ao_dust :: bool

type_synonym have_coins = "(nat, (nat, api_output list) omap) omap"
type_synonym dust_coins = "(amount, api_output list) omap"

text \<open>
  The members of \<open>UnspentSelector\<close>, and the two maps that \<open>select_optimal_outputs\<close> makes
  and hands to its helpers by pointer.
\<close>

record unspent_selector =
  us_unspents :: "api_output list"
  us_used_unspents :: "api_output list"
  us_optimization_unspents :: "api_output list"
  us_used_total :: amount
  us_inputs_count :: u64
  us_ra_amounts :: "amount list"
  us_have_coins :: have_coins
  us_dust_coins :: dust_coins

text \<open>\<open>reset\<close>, which is also what the constructor leaves behind.\<close>

definition reset_selector :: "api_output list \<Rightarrow> unspent_selector" where
  "reset_selector unspents =
     \<lparr>us_unspents = unspents, us_used_unspents = [], us_optimization_unspents = [], us_used_total = 0,
      us_inputs_count = 0, us_ra_amounts = [], us_have_coins = [], us_dust_coins = []\<rparr>"

definition fake_large :: amount where "fake_large = 1000000000000000000"
definition OPTIMIZATIONS_PER_TX :: nat where "OPTIMIZATIONS_PER_TX = 50"
definition OPTIMIZATIONS_PER_TX_AGGRESSIVE :: nat where "OPTIMIZATIONS_PER_TX_AGGRESSIVE = 200"
definition MEDIAN_PERCENT :: u64 where "MEDIAN_PERCENT = 12"
definition MEDIAN_PERCENT_AGGRESSIVE :: u64 where "MEDIAN_PERCENT_AGGRESSIVE = 30"
definition STACK_OPTIMIZATION_THRESHOLD :: nat where "STACK_OPTIMIZATION_THRESHOLD = 20"
definition TWO_THRESHOLD :: nat where "TWO_THRESHOLD = 10"

section \<open>Stacks\<close>

text \<open>The decimal place and the value of the leading digit.\<close>

function leading_digit :: "amount \<Rightarrow> nat \<times> nat" where
  "leading_digit am = (if am > 9 then (let (digit, d) = leading_digit (am div 10) in (digit + 1, d)) else (0, unat am))"
  by pat_completeness auto
termination
  by (relation "measure unat") (auto simp: unat_div word_less_nat_alt)

declare leading_digit.simps [simp del]

definition push_coin :: "api_output \<Rightarrow> have_coins \<Rightarrow> have_coins" where
  "push_coin un have_coins =
     (let (digit, am) = leading_digit (ao_amount un); dit = om_get_default [] digit have_coins
      in om_set digit (om_set am (om_get_default [] am dit @ [un]) dit) have_coins)"

definition push_dust :: "api_output \<Rightarrow> dust_coins \<Rightarrow> dust_coins" where
  "push_dust un dust_coins = om_set (ao_amount un) (om_get_default [] (ao_amount un) dust_coins @ [un]) dust_coins"

definition spendable :: "currency \<Rightarrow> height \<Rightarrow> timestamp \<Rightarrow> height \<Rightarrow> api_output \<Rightarrow> bool" where
  "spendable c block_height block_time confirmed_height un \<longleftrightarrow>
     ao_height un < confirmed_height \<and> is_transaction_spend_time_unlocked c (ao_unlock_time un) block_height block_time"

definition create_have_coin ::
  "currency \<Rightarrow> height \<Rightarrow> timestamp \<Rightarrow> height \<Rightarrow> have_coins \<times> dust_coins \<times> nat \<Rightarrow> api_output \<Rightarrow> have_coins \<times> dust_coins \<times> nat" where
  "create_have_coin c block_height block_time confirmed_height = (\<lambda>(have_coins, dust_coins, max_digit) un.
     if confirmed_height \<le> ao_height un then (have_coins, dust_coins, max_digit)
     else if \<not> is_transaction_spend_time_unlocked c (ao_unlock_time un) block_height block_time
     then (have_coins, dust_coins, max_digit)
     else if \<not> is_dust (ao_amount un)
     then (push_coin un have_coins, dust_coins, max max_digit (fst (leading_digit (ao_amount un))))
     else (have_coins, push_dust un dust_coins, max_digit))"

definition create_have_coins ::
  "currency \<Rightarrow> height \<Rightarrow> timestamp \<Rightarrow> height \<Rightarrow> unspent_selector \<Rightarrow> unspent_selector \<times> nat" where
  "create_have_coins c block_height block_time confirmed_height s =
     (let (have_coins, dust_coins, max_digit) =
        foldl (create_have_coin c block_height block_time confirmed_height) ([], [], 0) (rev (us_unspents s))
      in (s\<lparr>us_have_coins := have_coins, us_dust_coins := dust_coins\<rparr>, max_digit))"

definition combine_optimized_unspents :: "unspent_selector \<Rightarrow> unspent_selector" where
  "combine_optimized_unspents s =
     s\<lparr>us_ra_amounts := us_ra_amounts s @ map ao_amount (us_optimization_unspents s),
       us_used_unspents := us_used_unspents s @ us_optimization_unspents s, us_optimization_unspents := []\<rparr>"

text \<open>The loop of \<open>unoptimize_amounts\<close> gives one coin back.\<close>

definition give_back :: "unspent_selector \<Rightarrow> api_output \<Rightarrow> unspent_selector" where
  "give_back s un =
     (let s = s\<lparr>us_used_total := us_used_total s - ao_amount un, us_inputs_count := us_inputs_count s - 1\<rparr> in
      if \<not> ao_dust un then s\<lparr>us_have_coins := push_coin un (us_have_coins s)\<rparr>
      else s\<lparr>us_dust_coins := push_dust un (us_dust_coins s)\<rparr>)"

definition unoptimize_amounts :: "unspent_selector \<Rightarrow> unspent_selector" where
  "unoptimize_amounts s = (foldl give_back s (us_optimization_unspents s))\<lparr>us_optimization_unspents := []\<rparr>"

section \<open>Taking coins\<close>

text \<open>What every place does with the coin it has found.\<close>

definition use_coin :: "api_output \<Rightarrow> unspent_selector \<Rightarrow> unspent_selector" where
  "use_coin un s = s\<lparr>us_optimization_unspents := us_optimization_unspents s @ [un],
     us_used_total := us_used_total s + ao_amount un, us_inputs_count := us_inputs_count s + 1\<rparr>"

text \<open>The last coin of a stack; an empty stack is erased, and so is a digit without stacks.\<close>

definition take_coin :: "nat \<Rightarrow> nat \<Rightarrow> unspent_selector \<Rightarrow> unspent_selector option" where
  "take_coin digit v s =
     (case om_find digit (us_have_coins s) of
        None \<Rightarrow> None
      | Some dit \<Rightarrow>
          (case om_find v dit of
             None \<Rightarrow> None
           | Some uns \<Rightarrow>
               if uns = [] then None
               else
                 let dit = (if butlast uns = [] then om_erase v dit else om_set v (butlast uns) dit) in
                 Some ((use_coin (last uns) s)\<lparr>us_have_coins :=
                   (if dit = [] then om_erase digit (us_have_coins s) else om_set digit dit (us_have_coins s))\<rparr>)))"

definition take_dust :: "amount \<Rightarrow> unspent_selector \<Rightarrow> unspent_selector option" where
  "take_dust k s =
     (case om_find k (us_dust_coins s) of
        None \<Rightarrow> None
      | Some uns \<Rightarrow>
          if uns = [] then None
          else Some ((use_coin (last uns) s)\<lparr>us_dust_coins :=
            (if butlast uns = [] then om_erase k (us_dust_coins s) else om_set k (butlast uns) (us_dust_coins s))\<rparr>))"

text \<open>Many coins of one stack, which is not erased.\<close>

fun take_many :: "nat \<Rightarrow> nat \<Rightarrow> nat \<Rightarrow> unspent_selector \<Rightarrow> unspent_selector option" where
  "take_many 0 digit v s = Some s"
| "take_many (Suc i) digit v s =
     (case om_find digit (us_have_coins s) of
        None \<Rightarrow> None
      | Some dit \<Rightarrow>
          (case om_find v dit of
             None \<Rightarrow> None
           | Some uns \<Rightarrow>
               if uns = [] then None
               else take_many i digit v ((use_coin (last uns) s)\<lparr>us_have_coins :=
                 om_set digit (om_set v (butlast uns) dit) (us_have_coins s)\<rparr>)))"

section \<open>Optimizing\<close>

text \<open>The two nested loops over the stacks of a digit: the pair with the most coins, and how many.\<close>

definition better_pair ::
  "nat \<Rightarrow> (nat \<times> nat) \<times> nat \<Rightarrow> (nat \<times> api_output list) \<times> (nat \<times> api_output list) \<Rightarrow> (nat \<times> nat) \<times> nat" where
  "better_pair am = (\<lambda>(best, best_weight) ((a, as), (b, bs)).
     if (a + b + am) mod 10 = 0 \<and> (TWO_THRESHOLD \<le> length as \<or> TWO_THRESHOLD \<le> length bs)
       \<and> best_weight < length as + length bs
     then ((a, b), length as + length bs) else (best, best_weight))"

definition best_two :: "nat \<Rightarrow> (nat, api_output list) omap \<Rightarrow> (nat \<times> nat) \<times> nat" where
  "best_two am dit = foldl (better_pair am) ((0, 0), 0) (List.product dit dit)"

fun best_single :: "nat \<Rightarrow> (nat, api_output list) omap \<Rightarrow> nat \<Rightarrow> nat \<Rightarrow> nat" where
  "best_single am [] single best_weight = single"
| "best_single am ((a, as) # dit) single best_weight =
     (if (a + am) mod 10 = 0 then a
      else if 10 - am < a \<and> best_weight < length as then best_single am dit a (length as)
      else best_single am dit single best_weight)"

text \<open>The loop of \<open>optimize_amounts\<close> with the number of digits that are left.\<close>

fun optimize_digits :: "nat \<Rightarrow> nat \<Rightarrow> amount \<Rightarrow> amount \<Rightarrow> unspent_selector \<Rightarrow> unspent_selector option" where
  "optimize_digits 0 digit digit_amount total_amount s = Some s"
| "optimize_digits (Suc n) digit digit_amount total_amount s =
     (if total_amount \<le> us_used_total s \<and> us_used_total s < digit_amount then Some s
      else if digit_amount = 0 then None
      else
        let am = 10 - unat ((fake_large + total_amount + digit_amount - 1 - us_used_total s) div digit_amount mod 10) in
        case om_find digit (us_have_coins s) of
          None \<Rightarrow> optimize_digits n (digit + 1) (digit_amount * 10) total_amount s
        | Some dit \<Rightarrow>
            let ((a, b), best_weight) = best_two am dit in
            if best_weight \<noteq> 0 then
              Option.bind (take_coin digit a s) (\<lambda>s. Option.bind (take_coin digit b s)
                (optimize_digits n (digit + 1) (digit_amount * 10) total_amount))
            else if am = 10 then optimize_digits n (digit + 1) (digit_amount * 10) total_amount s
            else
              let single = best_single am dit 0 0 in
              if single \<noteq> 0
              then Option.bind (take_coin digit single s) (optimize_digits n (digit + 1) (digit_amount * 10) total_amount)
              else optimize_digits n (digit + 1) (digit_amount * 10) total_amount s)"

definition optimize_amounts :: "nat \<Rightarrow> amount \<Rightarrow> unspent_selector \<Rightarrow> unspent_selector option" where
  "optimize_amounts max_digit total_amount s = optimize_digits (max_digit + 1) 0 1 total_amount s"

section \<open>Selecting\<close>

text \<open>The single dust coin that is large enough, and the dust coins after it.\<close>

definition large_dust :: "amount \<Rightarrow> unspent_selector \<Rightarrow> unspent_selector option" where
  "large_dust total_amount s =
     (if us_used_total s < total_amount then
        (case om_from (total_amount - us_used_total s) (us_dust_coins s) of
           [] \<Rightarrow> Some s
         | (k, _) # _ \<Rightarrow> take_dust k s)
      else Some s)"

function dust_optimization :: "nat \<Rightarrow> amount \<Rightarrow> unspent_selector \<Rightarrow> (nat \<times> unspent_selector) option" where
  "dust_optimization optimization_count total_amount s =
     (if us_used_total s < total_amount \<and> us_dust_coins s \<noteq> [] \<and> 1 \<le> optimization_count
      then Option.bind (take_dust (fst (last (us_dust_coins s))) s) (dust_optimization (optimization_count - 1) total_amount)
      else Some (optimization_count, s))"
  by pat_completeness auto
termination
  by (relation "measure (\<lambda>(oc, _, _). oc)") auto

declare dust_optimization.simps [simp del]

definition better_stack ::
  "(nat \<times> nat) option \<times> nat \<Rightarrow> nat \<times> nat \<times> api_output list \<Rightarrow> (nat \<times> nat) option \<times> nat" where
  "better_stack = (\<lambda>(best, best_weight) (digit, v, uns).
     if best_weight < length uns then (Some (digit, v), length uns) else (best, best_weight))"

definition stacks_of :: "have_coins \<Rightarrow> (nat \<times> nat \<times> api_output list) list" where
  "stacks_of have_coins = concat (map (\<lambda>(digit, dit). map (\<lambda>(v, uns). (digit, v, uns)) dit) have_coins)"

definition best_stack :: "have_coins \<Rightarrow> (nat \<times> nat) option" where
  "best_stack have_coins = fst (foldl better_stack (None, STACK_OPTIMIZATION_THRESHOLD) (stacks_of have_coins))"

function stack_optimization :: "nat \<Rightarrow> unspent_selector \<Rightarrow> unspent_selector option" where
  "stack_optimization optimization_count s =
     (if 10 \<le> optimization_count then
        (case best_stack (us_have_coins s) of
           None \<Rightarrow> Some s
         | Some (digit, v) \<Rightarrow> Option.bind (take_many 10 digit v s) (stack_optimization (optimization_count - 10)))
      else Some s)"
  by pat_completeness auto
termination
  by (relation "measure fst") auto

declare stack_optimization.simps [simp del]

text \<open>The smallest coin that covers what is missing.\<close>

fun large_coin :: "nat \<Rightarrow> nat \<Rightarrow> amount \<Rightarrow> amount \<Rightarrow> unspent_selector \<Rightarrow> unspent_selector option" where
  "large_coin 0 digit digit_amount total_amount s = Some s"
| "large_coin (Suc n) digit digit_amount total_amount s =
     (case om_find digit (us_have_coins s) of
        None \<Rightarrow> large_coin n (digit + 1) (digit_amount * 10) total_amount s
      | Some dit \<Rightarrow>
          (case find (\<lambda>(a, uns). uns \<noteq> [] \<and> total_amount - us_used_total s \<le> word_of_nat a * digit_amount) dit of
             Some (a, _) \<Rightarrow> take_coin digit a s
           | None \<Rightarrow> large_coin n (digit + 1) (digit_amount * 10) total_amount s))"

text \<open>The coins the last loop looks at: the last one of the last stack of each map.\<close>

definition last_have :: "have_coins \<Rightarrow> (nat \<times> nat \<times> api_output list) option" where
  "last_have have_coins =
     (if have_coins = [] then None
      else let (digit, dit) = last have_coins in
        if dit = [] then None else let (v, uns) = last dit in if uns = [] then None else Some (digit, v, uns))"

partial_function (option) fill_amount :: "u64 \<Rightarrow> amount \<Rightarrow> unspent_selector \<Rightarrow> (bool \<times> unspent_selector) option" where
  "fill_amount anonymity total_amount s =
     (if us_used_total s < total_amount then
        if us_have_coins s = [] \<and> (anonymity \<noteq> 0 \<or> us_dust_coins s = []) then Some (False, s)
        else
          Option.bind (if us_have_coins s = [] then Some 0
             else map_option (\<lambda>(_, _, uns). ao_amount (last uns)) (last_have (us_have_coins s))) (\<lambda>ha_amount.
          Option.bind (if anonymity = 0 \<and> us_dust_coins s \<noteq> []
             then (let uns = snd (last (us_dust_coins s)) in if uns = [] then None else Some (ao_amount (last uns)))
             else Some 0) (\<lambda>du_amount.
          Option.bind (if du_amount < ha_amount
             then Option.bind (last_have (us_have_coins s)) (\<lambda>(digit, v, _). take_coin digit v s)
             else if us_dust_coins s = [] then None else take_dust (fst (last (us_dust_coins s))) s)
            (fill_amount anonymity total_amount)))
      else Some (True, s))"

definition select_outputs :: "nat \<Rightarrow> amount \<Rightarrow> u64 \<Rightarrow> nat \<Rightarrow> unspent_selector \<Rightarrow> (bool \<times> unspent_selector) option" where
  "select_outputs max_digit total_amount anonymity optimization_count s =
     Option.bind (if anonymity = 0
        then Option.bind (large_dust total_amount s) (dust_optimization optimization_count total_amount)
        else Some (optimization_count, s)) (\<lambda>(optimization_count, s).
     Option.bind (stack_optimization optimization_count s) (\<lambda>s.
     Option.bind (optimize_amounts max_digit total_amount s) (\<lambda>s.
     if total_amount \<le> us_used_total s then Some (True, s)
     else Option.bind (large_coin (max_digit + 1) 0 1 total_amount s) (\<lambda>s.
       if total_amount \<le> us_used_total s then Some (True, s)
       else Option.bind (fill_amount anonymity total_amount (unoptimize_amounts s)) (\<lambda>(found, s).
         if \<not> found then Some (False, s)
         else map_option (Pair True) (optimize_amounts max_digit total_amount s))))))"

text \<open>The loop that raises the fee until it covers the size of the transaction.\<close>

partial_function (option) select_loop ::
  "currency \<Rightarrow> nat \<Rightarrow> u64 \<Rightarrow> u64 \<Rightarrow> u64 \<Rightarrow> amount \<Rightarrow> u64 \<Rightarrow> amount \<Rightarrow> nat \<Rightarrow> amount \<Rightarrow> amount \<Rightarrow> unspent_selector \<Rightarrow>
     (string \<times> amount \<times> unspent_selector) option" where
  "select_loop c max_digits effective_median_size optimization_median anonymity total_amount total_outputs byte_fee
       optimizations fee change s =
     Option.bind (select_outputs max_digits (total_amount + fee) anonymity optimizations s) (\<lambda>(found, s).
     if \<not> found then Some (''NOT_ENOUGH_FUNDS'', change, s)
     else if cy_default_dust_threshold c = 0 then None
     else
       let change_dust_fee = (us_used_total s - total_amount - fee) mod cy_default_dust_threshold c;
           tx_size = get_maximum_tx_size (us_inputs_count s) (total_outputs + 8) anonymity
       in
       if optimization_median < tx_size \<and> 0 < optimizations then
         select_loop c max_digits effective_median_size optimization_median anonymity total_amount total_outputs byte_fee
           (if optimizations div 2 < 10 then 0 else optimizations div 2) fee change (unoptimize_amounts s)
       else if effective_median_size < tx_size then Some (''TRANSACTION_DOES_NOT_FIT_IN_BLOCK'', change, s)
       else
         let size_fee = byte_fee * tx_size in
         if size_fee \<le> fee + change_dust_fee then
           Some ('''', us_used_total s - total_amount - fee - change_dust_fee, combine_optimized_unspents s)
         else select_loop c max_digits effective_median_size optimization_median anonymity total_amount total_outputs byte_fee
           optimizations ((size_fee - change_dust_fee + cy_default_dust_threshold c - 1) div cy_default_dust_threshold c *
             cy_default_dust_threshold c) change (unoptimize_amounts s))"

definition select_optimal_outputs ::
  "currency \<Rightarrow> height \<Rightarrow> timestamp \<Rightarrow> height \<Rightarrow> u64 \<Rightarrow> u64 \<Rightarrow> amount \<Rightarrow> u64 \<Rightarrow> amount \<Rightarrow> string \<Rightarrow> amount \<Rightarrow> unspent_selector \<Rightarrow>
     (string \<times> amount \<times> unspent_selector) option" where
  "select_optimal_outputs c block_height block_time confirmed_height effective_median_size anonymity total_amount
       total_outputs byte_fee optimization_level change s =
     (let effective_median_size = (120 * effective_median_size) div 100;
          (s, max_digits) = create_have_coins c block_height block_time confirmed_height s;
          optimizations = (if optimization_level = ''aggressive'' then OPTIMIZATIONS_PER_TX_AGGRESSIVE
            else if optimization_level = ''minimal'' then 9 else OPTIMIZATIONS_PER_TX);
          optimization_median_percent = (if optimization_level = ''aggressive'' then MEDIAN_PERCENT_AGGRESSIVE else MEDIAN_PERCENT);
          optimization_median = effective_median_size * optimization_median_percent div 100
      in select_loop c max_digits effective_median_size optimization_median anonymity total_amount total_outputs byte_fee
           optimizations (cy_minimum_fee c) change s)"

declare fill_amount.simps [code] select_loop.simps [code]

section \<open>Sums over maps\<close>

definition om_sum :: "('v \<Rightarrow> 'b::comm_monoid_add) \<Rightarrow> ('k, 'v) omap \<Rightarrow> 'b" where
  "om_sum f m = (\<Sum>(k, v)\<leftarrow>m. f v)"

lemma om_sum_simps [simp]: "om_sum f [] = 0" "om_sum f ((k, v) # m) = f v + om_sum f m"
  by (simp_all add: om_sum_def)

lemma om_sum_erase: "om_find k m = Some v \<Longrightarrow> om_sum f m = f v + om_sum f (om_erase k m)"
  by (induction k m rule: om_erase.induct) (simp_all add: om_find_Cons add.left_commute split: if_splits)

lemma om_sum_set: "om_wf m \<Longrightarrow> om_sum f (om_set k v m) = f v + om_sum f (om_erase k m)"
proof -
  assume m: "om_wf m"
  have "om_erase k (om_set k v m) = om_erase k m" using m by (intro om_ext) auto
  then show ?thesis using om_sum_erase [of k "om_set k v m" v f] by simp
qed

section \<open>The invariant of a selection\<close>

definition fits :: "nat \<Rightarrow> nat \<Rightarrow> api_output \<Rightarrow> bool" where
  "fits digit v un \<longleftrightarrow> leading_digit (ao_amount un) = (digit, v) \<and> \<not> ao_dust un \<and> ao_amount un \<noteq> 0"

definition stacks_ok :: "('k::linorder \<Rightarrow> api_output \<Rightarrow> bool) \<Rightarrow> ('k, api_output list) omap \<Rightarrow> bool" where
  "stacks_ok P m \<longleftrightarrow> om_wf m \<and> (\<forall>k uns. om_find k m = Some uns \<longrightarrow> uns \<noteq> [] \<and> (\<forall>u \<in> set uns. P k u))"

definition have_ok :: "nat \<Rightarrow> have_coins \<Rightarrow> bool" where
  "have_ok max_digit h \<longleftrightarrow> om_wf h \<and>
     (\<forall>digit dit. om_find digit h = Some dit \<longrightarrow> dit \<noteq> [] \<and> digit \<le> max_digit \<and> stacks_ok (fits digit) dit)"

definition dust_ok :: "dust_coins \<Rightarrow> bool" where
  "dust_ok d \<longleftrightarrow> stacks_ok (\<lambda>k un. ao_amount un = k \<and> ao_dust un) d"

abbreviation stack_coins :: "('k, api_output list) omap \<Rightarrow> api_output multiset" where
  "stack_coins \<equiv> om_sum mset"

abbreviation all_coins :: "have_coins \<Rightarrow> api_output multiset" where
  "all_coins \<equiv> om_sum stack_coins"

text \<open>
  The coins \<open>A\<close> that may be spent are either still in the maps or chosen, and the counters are
  those of the chosen ones; without dust when there are other outputs to mix with.
\<close>

definition sel_ok :: "nat \<Rightarrow> api_output multiset \<Rightarrow> bool \<Rightarrow> unspent_selector \<Rightarrow> bool" where
  "sel_ok max_digit A mixed s \<longleftrightarrow> have_ok max_digit (us_have_coins s) \<and> dust_ok (us_dust_coins s)
     \<and> all_coins (us_have_coins s) + stack_coins (us_dust_coins s) + mset (us_optimization_unspents s) = A
     \<and> us_used_total s = sum_list (map ao_amount (us_optimization_unspents s))
     \<and> us_inputs_count s = word_of_nat (length (us_optimization_unspents s))
     \<and> us_used_unspents s = [] \<and> us_ra_amounts s = []
     \<and> (mixed \<longrightarrow> (\<forall>u \<in> set (us_optimization_unspents s). \<not> ao_dust u))"

definition extends :: "unspent_selector \<Rightarrow> unspent_selector \<Rightarrow> bool" where
  "extends s s' \<longleftrightarrow> (\<exists>us. us_optimization_unspents s' = us_optimization_unspents s @ us)"

lemma extends_refl [simp]: "extends s s"
  by (simp add: extends_def)

lemma extends_trans [trans]: "extends s t \<Longrightarrow> extends t u \<Longrightarrow> extends s u"
  by (auto simp: extends_def)

text \<open>The coins of one stack.\<close>

definition stack :: "have_coins \<Rightarrow> nat \<Rightarrow> nat \<Rightarrow> api_output list" where
  "stack h digit v = (case om_find digit h of None \<Rightarrow> [] | Some dit \<Rightarrow> om_get_default [] v dit)"

lemma stack_some:
  assumes "stack h digit v \<noteq> []"
  obtains dit where "om_find digit h = Some dit" "om_find v dit = Some (stack h digit v)"
  using assms by (auto simp: stack_def om_get_default_def split: option.splits)

lemma mset_butlast: "xs \<noteq> [] \<Longrightarrow> mset xs = add_mset (last xs) (mset (butlast xs))"
  by (metis append_butlast_last_id mset_append mset_single_iff_right union_mset_add_mset_right add.right_neutral mset.simps)

text \<open>One stack gets shorter.\<close>

lemma stacks_ok_pop:
  assumes "stacks_ok P m" "om_find k m = Some uns"
  defines "m' \<equiv> (if butlast uns = [] then om_erase k m else om_set k (butlast uns) m)"
  shows "stacks_ok P m'" "stack_coins m = add_mset (last uns) (stack_coins m')" "P k (last uns)" "uns \<noteq> []"
    "om_find k' m' = (if k' = k then (if butlast uns = [] then None else Some (butlast uns)) else om_find k' m)"
proof -
  have u: "uns \<noteq> []" "\<forall>u \<in> set uns. P k u" and wf: "om_wf m" using assms(1,2) by (auto simp: stacks_ok_def)
  then show "uns \<noteq> []" "P k (last uns)" by simp_all
  have f: "om_find k' m' = (if k' = k then (if butlast uns = [] then None else Some (butlast uns)) else om_find k' m)" for k'
    using wf by (simp add: m'_def)
  show "om_find k' m' = (if k' = k then (if butlast uns = [] then None else Some (butlast uns)) else om_find k' m)" by (rule f)
  show "stacks_ok P m'"
    unfolding stacks_ok_def f using assms(1,2) u wf by (auto simp: stacks_ok_def m'_def dest: in_set_butlastD split: if_splits)
  have "stack_coins m' = mset (butlast uns) + stack_coins (om_erase k m)"
    using wf by (simp add: m'_def om_sum_set)
  then show "stack_coins m = add_mset (last uns) (stack_coins m')"
    using om_sum_erase [OF assms(2), of mset] mset_butlast [OF u(1)] by simp
qed

lemma use_coin_simps [simp]:
  "us_have_coins (use_coin un s) = us_have_coins s" "us_dust_coins (use_coin un s) = us_dust_coins s"
  "us_optimization_unspents (use_coin un s) = us_optimization_unspents s @ [un]"
  "us_used_total (use_coin un s) = us_used_total s + ao_amount un" "us_inputs_count (use_coin un s) = us_inputs_count s + 1"
  "us_used_unspents (use_coin un s) = us_used_unspents s" "us_ra_amounts (use_coin un s) = us_ra_amounts s"
  by (simp_all add: use_coin_def)

lemma take_coin_ok:
  assumes ok: "sel_ok m A mixed s" and ne: "stack (us_have_coins s) digit v \<noteq> []"
  obtains s' where "take_coin digit v s = Some s'" "sel_ok m A mixed s'" "extends s s'"
    "us_dust_coins s' = us_dust_coins s"
    "stack (us_have_coins s') = (stack (us_have_coins s))(digit := (stack (us_have_coins s) digit)(v := butlast (stack (us_have_coins s) digit v)))"
    "us_optimization_unspents s' = us_optimization_unspents s @ [last (stack (us_have_coins s) digit v)]"
proof -
  let ?h = "us_have_coins s" and ?uns = "stack (us_have_coins s) digit v"
  from ne obtain dit where d: "om_find digit ?h = Some dit" and v: "om_find v dit = Some ?uns" by (rule stack_some)
  have h: "have_ok m ?h" using ok by (simp add: sel_ok_def)
  then have wf: "om_wf ?h" and st: "stacks_ok (fits digit) dit" "digit \<le> m" using d by (auto simp: have_ok_def)
  define dit' where "dit' = (if butlast ?uns = [] then om_erase v dit else om_set v (butlast ?uns) dit)"
  define h' where "h' = (if dit' = [] then om_erase digit ?h else om_set digit dit' ?h)"
  define s' where "s' = (use_coin (last ?uns) s)\<lparr>us_have_coins := h'\<rparr>"
  note pop = stacks_ok_pop [OF st(1) v, folded dit'_def]
  have t: "take_coin digit v s = Some s'"
    using d v ne by (simp add: take_coin_def s'_def h'_def dit'_def Let_def)
  have f: "om_find k h' = (if k = digit then (if dit' = [] then None else Some dit') else om_find k ?h)" for k
    using wf by (simp add: h'_def)
  have "have_ok m h'"
    unfolding have_ok_def f using h pop(1) st(2) wf by (auto simp: have_ok_def h'_def split: if_splits)
  moreover have "all_coins ?h = add_mset (last ?uns) (all_coins h')"
    using om_sum_erase [OF d, of stack_coins] pop(2) wf by (simp add: h'_def om_sum_set)
  moreover have "\<not> ao_dust (last ?uns)" using pop(3) by (simp add: fits_def)
  ultimately have "sel_ok m A mixed s'"
    using ok by (auto simp: sel_ok_def s'_def)
  moreover have "stack h' = (stack ?h)(digit := (stack ?h digit)(v := butlast ?uns))"
  proof (intro ext)
    fix d2 v2
    show "stack h' d2 v2 = ((stack ?h)(digit := (stack ?h digit)(v := butlast ?uns))) d2 v2"
    proof (cases "d2 = digit")
      case True
      have "stack h' digit v2 = (case om_find v2 dit' of None \<Rightarrow> [] | Some us \<Rightarrow> us)"
        by (simp add: stack_def f om_get_default_def)
      also have "\<dots> = (if v2 = v then butlast ?uns else (case om_find v2 dit of None \<Rightarrow> [] | Some us \<Rightarrow> us))"
        unfolding pop(5) [of v2] by simp
      finally show ?thesis using True d by (simp add: stack_def om_get_default_def)
    qed (simp add: stack_def f)
  qed
  ultimately show thesis
    by (intro that [OF t]) (simp_all add: s'_def extends_def)
qed

lemma take_dust_ok:
  assumes ok: "sel_ok m A False s" and k: "om_find k (us_dust_coins s) \<noteq> None"
  obtains s' where "take_dust k s = Some s'" "sel_ok m A False s'" "extends s s'"
    "length (us_optimization_unspents s') = length (us_optimization_unspents s) + 1"
proof -
  from k obtain uns where u: "om_find k (us_dust_coins s) = Some uns" by blast
  have d: "stacks_ok (\<lambda>k un. ao_amount un = k \<and> ao_dust un) (us_dust_coins s)" using ok by (simp add: sel_ok_def dust_ok_def)
  note pop = stacks_ok_pop [OF d u]
  define s' where "s' = (use_coin (last uns) s)\<lparr>us_dust_coins :=
    (if butlast uns = [] then om_erase k (us_dust_coins s) else om_set k (butlast uns) (us_dust_coins s))\<rparr>"
  have "take_dust k s = Some s'" using u pop(4) by (simp add: take_dust_def s'_def)
  moreover have "sel_ok m A False s'" using ok pop(1,2) by (auto simp: sel_ok_def s'_def dust_ok_def)
  ultimately show thesis by (rule that) (simp_all add: s'_def extends_def)
qed

text \<open>As long as a stack keeps a coin, taking many is taking one after the other.\<close>

lemma take_many_ok:
  assumes "sel_ok m A mixed s" "n < length (stack (us_have_coins s) digit v)"
  obtains s' where "take_many n digit v s = Some s'" "sel_ok m A mixed s'" "extends s s'"
  using assms
proof (induction n arbitrary: s thesis)
  case 0
  then show ?case by simp
next
  case (Suc n)
  let ?uns = "stack (us_have_coins s) digit v"
  have ne: "?uns \<noteq> []" "butlast ?uns \<noteq> []" using Suc.prems(3) by (auto simp flip: length_greater_0_conv)
  obtain s1 where s1: "take_coin digit v s = Some s1" "sel_ok m A mixed s1" "extends s s1"
    "stack (us_have_coins s1) = (stack (us_have_coins s))(digit := (stack (us_have_coins s) digit)(v := butlast ?uns))"
    by (rule take_coin_ok [OF Suc.prems(2) ne(1)])
  from ne(1) obtain dit where d: "om_find digit (us_have_coins s) = Some dit" "om_find v dit = Some ?uns" by (rule stack_some)
  have "om_set v (butlast ?uns) dit \<noteq> []" by (cases dit) (auto split: if_splits)
  then have "take_many (Suc n) digit v s = take_many n digit v s1"
    using s1(1) d ne by (simp add: take_coin_def Let_def)
  moreover have "n < length (stack (us_have_coins s1) digit v)" using Suc.prems(3) by (simp add: s1(4))
  ultimately show ?case
    using Suc.IH [OF _ s1(2)] Suc.prems(1) s1(3) extends_trans by metis
qed

section \<open>Finding coins\<close>

lemma have_stack:
  assumes "have_ok m h" "om_find digit h = Some dit" "(v, uns) \<in> set dit"
  shows "stack h digit v = uns" "uns \<noteq> []"
proof -
  have st: "stacks_ok (fits digit) dit" using assms(1,2) by (auto simp: have_ok_def)
  then have f: "om_find v dit = Some uns" using assms(3) by (simp add: om_find_iff stacks_ok_def)
  then show "stack h digit v = uns" using assms(2) by (simp add: stack_def om_get_default_def)
  show "uns \<noteq> []" using st f by (simp add: stacks_ok_def)
qed

lemma better_pair_found:
  "foldl (better_pair am) (p, w) xs = ((a, b), w') \<Longrightarrow> w' = w \<and> p = (a, b) \<or>
     (\<exists>as bs. ((a, as), (b, bs)) \<in> set xs \<and> (10 \<le> length as \<or> 10 \<le> length bs))"
proof (induction xs arbitrary: p w)
  case (Cons x xs)
  obtain c cs d ds where x: "x = ((c, cs), (d, ds))" by (metis surj_pair)
  show ?case
  proof (cases "better_pair am (p, w) x = (p, w)")
    case True
    then show ?thesis using Cons.IH [of p w] Cons.prems by auto
  next
    case False
    then have e: "better_pair am (p, w) x = ((c, d), length cs + length ds)" "10 \<le> length cs \<or> 10 \<le> length ds"
      by (auto simp: better_pair_def x TWO_THRESHOLD_def split: if_splits)
    then show ?thesis using Cons.IH [of "(c, d)" "length cs + length ds"] Cons.prems by (auto simp: x)
  qed
qed simp

lemma best_two_found:
  assumes "best_two am dit = ((a, b), w)" "w \<noteq> 0"
  obtains as bs where "(a, as) \<in> set dit" "(b, bs) \<in> set dit" "10 \<le> length as \<or> 10 \<le> length bs"
  using better_pair_found [OF assms(1) [unfolded best_two_def]] assms(2) by auto

lemma best_single_found: "best_single am dit single w \<noteq> single \<Longrightarrow> \<exists>uns. (best_single am dit single w, uns) \<in> set dit"
proof (induction am dit single w rule: best_single.induct)
  case (2 am a as dit single w)
  then show ?case by (cases "best_single am dit a (length as) = a") (auto split: if_splits)
qed simp

lemma better_stack_found:
  "foldl better_stack (p, w) xs = (Some (digit, v), w') \<Longrightarrow> p = Some (digit, v) \<and> w' = w \<or>
     (\<exists>uns. (digit, v, uns) \<in> set xs \<and> w < length uns)"
proof (induction xs arbitrary: p w)
  case (Cons x xs)
  obtain d u us where x: "x = (d, u, us)" by (metis surj_pair)
  show ?case
  proof (cases "w < length us")
    case True
    then show ?thesis using Cons.IH [of "Some (d, u)" "length us"] Cons.prems by (auto simp: better_stack_def x)
  qed (use Cons in \<open>auto simp: better_stack_def x\<close>)
qed simp

lemma best_stack_found:
  assumes "have_ok m h" "best_stack h = Some (digit, v)"
  shows "20 < length (stack h digit v)"
proof -
  obtain w' where "foldl better_stack (None, 20) (stacks_of h) = (Some (digit, v), w')"
    using assms(2) by (cases "foldl better_stack (None, 20) (stacks_of h)") (auto simp: best_stack_def STACK_OPTIMIZATION_THRESHOLD_def)
  from better_stack_found [OF this] obtain uns where "(digit, v, uns) \<in> set (stacks_of h)" "20 < length uns" by auto
  then obtain dit where "(digit, dit) \<in> set h" "(v, uns) \<in> set dit" "20 < length uns" by (auto simp: stacks_of_def)
  moreover have "om_wf h" using assms(1) by (simp add: have_ok_def)
  ultimately show ?thesis using have_stack(1) [OF assms(1), of digit dit v uns] by (simp add: om_find_iff)
qed

lemma last_have_found:
  assumes "have_ok m h" "h \<noteq> []"
  obtains digit v where "last_have h = Some (digit, v, stack h digit v)" "stack h digit v \<noteq> []"
    "fits digit v (last (stack h digit v))"
proof -
  obtain digit dit where l: "last h = (digit, dit)" by (metis surj_pair)
  have f: "om_find digit h = Some dit" using assms l last_in_set [of h] by (simp add: om_find_iff have_ok_def)
  then have d: "dit \<noteq> []" "stacks_ok (fits digit) dit" using assms(1) by (auto simp: have_ok_def)
  obtain v uns where v: "last dit = (v, uns)" by (metis surj_pair)
  have i: "(v, uns) \<in> set dit" using d(1) v last_in_set [of dit] by simp
  have "fits digit v (last uns)" using d(2) i have_stack(2) [OF assms(1) f i] by (simp add: stacks_ok_def om_find_iff)
  then show thesis
    using have_stack [OF assms(1) f i] assms(2) l d(1) v by (intro that [of digit v]) (simp_all add: last_have_def)
qed

section \<open>Every step keeps the invariant\<close>

text \<open>\<open>f\<close> answers a state that is a selection again.\<close>

definition selects :: "nat \<Rightarrow> api_output multiset \<Rightarrow> bool \<Rightarrow> unspent_selector \<Rightarrow> unspent_selector option \<Rightarrow> bool" where
  "selects m A mixed s r \<longleftrightarrow> (\<exists>s'. r = Some s' \<and> sel_ok m A mixed s' \<and> extends s s')"

lemma selects_Some [simp]: "sel_ok m A mixed s \<Longrightarrow> selects m A mixed s (Some s)"
  by (simp add: selects_def)

lemma selects_bind: "selects m A mixed s r \<Longrightarrow> (\<And>s'. sel_ok m A mixed s' \<Longrightarrow> extends s s' \<Longrightarrow> selects m A mixed s' (f s'))
    \<Longrightarrow> selects m A mixed s (Option.bind r f)"
  unfolding selects_def using extends_trans by fastforce

lemma selects_take: "sel_ok m A mixed s \<Longrightarrow> stack (us_have_coins s) digit v \<noteq> [] \<Longrightarrow> selects m A mixed s (take_coin digit v s)"
  by (rule take_coin_ok) (auto simp: selects_def)

lemma unat_power_ten: "k \<le> 19 \<Longrightarrow> unat ((10 :: u64) ^ k) = 10 ^ k"
proof -
  assume "k \<le> 19"
  then have "(10 :: nat) ^ k \<le> 10 ^ 19" by (rule power_increasing) simp
  then have "(10 :: nat) ^ k < 2 ^ 64" by simp
  then have "unat (word_of_nat (10 ^ k) :: u64) = 10 ^ k" by (simp add: unsigned_of_nat take_bit_nat_eq_self del: of_nat_power)
  then show ?thesis by simp
qed

lemma selects_optimize_digits:
  "sel_ok m A mixed s \<Longrightarrow> digit + n \<le> 20 \<Longrightarrow> selects m A mixed s (optimize_digits n digit (10 ^ digit) total_amount s)"
proof (induction n arbitrary: digit s)
  case (Suc n)
  let ?next = "optimize_digits n (digit + 1) (10 ^ digit * 10) total_amount"
  have rest: "selects m A mixed s' (?next s')" if "sel_ok m A mixed s'" for s'
    using Suc.IH [OF that, of "digit + 1"] Suc.prems(2) by (simp add: mult.commute)
  have nz: "(10 :: amount) ^ digit \<noteq> 0"
    using unat_power_ten [of digit] Suc.prems(2) by auto
  have h: "have_ok m (us_have_coins s)" using Suc.prems(1) by (simp add: sel_ok_def)
  have pair: "selects m A mixed s (Option.bind (take_coin digit a s) (\<lambda>s. Option.bind (take_coin digit b s) ?next))"
    if p: "best_two am dit = ((a, b), w)" "w \<noteq> 0" "om_find digit (us_have_coins s) = Some dit" for am dit a b w
  proof -
    obtain as bs where ab: "(a, as) \<in> set dit" "(b, bs) \<in> set dit" "10 \<le> length as \<or> 10 \<le> length bs"
      using best_two_found [OF p(1,2)] by blast
    note sa = have_stack [OF h p(3) ab(1)] and sb = have_stack [OF h p(3) ab(2)]
    have len: "a = b \<Longrightarrow> 2 \<le> length as" using sa(1) sb(1) ab(3) by auto
    obtain s1 where s1: "take_coin digit a s = Some s1" "sel_ok m A mixed s1" "extends s s1"
      "stack (us_have_coins s1) = (stack (us_have_coins s))(digit := (stack (us_have_coins s) digit)(a := butlast (stack (us_have_coins s) digit a)))"
      using take_coin_ok [OF Suc.prems(1), of digit a] sa by metis
    have "stack (us_have_coins s1) digit b \<noteq> []"
      using sa sb len by (cases "a = b") (auto simp: s1(4) simp flip: length_greater_0_conv)
    then have "selects m A mixed s1 (Option.bind (take_coin digit b s1) ?next)"
      using s1(2) rest by (intro selects_bind selects_take)
    then show ?thesis using s1(1,3) extends_trans unfolding selects_def by fastforce
  qed
  have single: "selects m A mixed s (Option.bind (take_coin digit (best_single am dit 0 0) s) ?next)"
    if s: "best_single am dit 0 0 \<noteq> 0" "om_find digit (us_have_coins s) = Some dit" for am dit
  proof -
    obtain uns where "(best_single am dit 0 0, uns) \<in> set dit" using best_single_found [OF s(1)] by blast
    then have "stack (us_have_coins s) digit (best_single am dit 0 0) \<noteq> []" using have_stack [OF h s(2)] by simp
    then show ?thesis using Suc.prems(1) rest by (intro selects_bind selects_take)
  qed
  show ?case
    using pair single rest [OF Suc.prems(1)] Suc.prems(1) nz
    by (auto simp: Let_def split: option.split prod.split)
qed simp

lemma selects_optimize: "sel_ok m A mixed s \<Longrightarrow> m \<le> 19 \<Longrightarrow> selects m A mixed s (optimize_amounts m total_amount s)"
  using selects_optimize_digits [of m A mixed s 0 "m + 1" total_amount] by (simp add: optimize_amounts_def)

lemma selects_take_dust: "sel_ok m A False s \<Longrightarrow> om_find k (us_dust_coins s) \<noteq> None \<Longrightarrow> selects m A False s (take_dust k s)"
  by (rule take_dust_ok) (auto simp: selects_def)

lemma dust_wf: "sel_ok m A mixed s \<Longrightarrow> om_wf (us_dust_coins s)"
  by (simp add: sel_ok_def dust_ok_def stacks_ok_def)

lemma last_dust: "sel_ok m A mixed s \<Longrightarrow> us_dust_coins s \<noteq> [] \<Longrightarrow> om_find (fst (last (us_dust_coins s))) (us_dust_coins s) = Some (snd (last (us_dust_coins s)))"
  using dust_wf last_in_set [of "us_dust_coins s"] by (simp add: om_find_iff)

lemma selects_large_dust: "sel_ok m A False s \<Longrightarrow> selects m A False s (large_dust total_amount s)"
proof -
  assume ok: "sel_ok m A False s"
  have "om_find k (us_dust_coins s) \<noteq> None"
    if "om_from x (us_dust_coins s) = (k, uns) # r" for x k uns r
  proof -
    have "(k, uns) \<in> set (us_dust_coins s)" using that unfolding om_from_def by (metis list.set_intros(1) set_dropWhileD)
    then show ?thesis using dust_wf [OF ok] by (simp add: om_find_iff [symmetric])
  qed
  then show ?thesis using ok selects_take_dust [OF ok] by (auto simp: large_dust_def split: list.split)
qed

lemma selects_dust_optimization:
  "sel_ok m A False s \<Longrightarrow> \<exists>oc' s'. dust_optimization oc total_amount s = Some (oc', s') \<and> sel_ok m A False s' \<and> extends s s'"
proof (induction oc total_amount s rule: dust_optimization.induct)
  case (1 oc total_amount s)
  show ?case
  proof (cases "us_used_total s < total_amount \<and> us_dust_coins s \<noteq> [] \<and> 1 \<le> oc")
    case True
    obtain s1 where s1: "take_dust (fst (last (us_dust_coins s))) s = Some s1" "sel_ok m A False s1" "extends s s1"
      using take_dust_ok [OF 1(2)] last_dust [OF 1(2)] True by (metis option.distinct(1))
    obtain oc' s' where "dust_optimization (oc - 1) total_amount s1 = Some (oc', s')" "sel_ok m A False s'" "extends s1 s'"
      using 1(1) [OF True s1(1,2)] by blast
    then show ?thesis using True s1 extends_trans by (subst dust_optimization.simps) auto
  qed (use 1 in \<open>subst dust_optimization.simps, auto\<close>)
qed

lemma selects_stack_optimization: "sel_ok m A mixed s \<Longrightarrow> selects m A mixed s (stack_optimization oc s)"
proof (induction oc s rule: stack_optimization.induct)
  case (1 oc s)
  have h: "have_ok m (us_have_coins s)" using 1(2) by (simp add: sel_ok_def)
  show ?case
  proof (cases "10 \<le> oc \<and> best_stack (us_have_coins s) \<noteq> None")
    case True
    then obtain digit v where b: "best_stack (us_have_coins s) = Some (digit, v)" by auto
    obtain s1 where s1: "take_many 10 digit v s = Some s1" "sel_ok m A mixed s1" "extends s s1"
      using take_many_ok [OF 1(2), of 10 digit v] best_stack_found [OF h b] by auto
    have "selects m A mixed s1 (stack_optimization (oc - 10) s1)" using 1(1) [OF _ b refl s1(1,2)] True by simp
    then show ?thesis using True b s1 extends_trans unfolding selects_def by (subst stack_optimization.simps) fastforce
  qed (use 1(2) in \<open>subst stack_optimization.simps, auto split: option.split\<close>)
qed

lemma selects_large_coin:
  "sel_ok m A mixed s \<Longrightarrow> selects m A mixed s (large_coin n digit digit_amount total_amount s)"
proof (induction n digit digit_amount total_amount s rule: large_coin.induct)
  case (2 n digit digit_amount total_amount s)
  have h: "have_ok m (us_have_coins s)" using 2(3) by (simp add: sel_ok_def)
  have "selects m A mixed s (take_coin digit a s)"
    if "om_find digit (us_have_coins s) = Some dit" "find P dit = Some (a, uns)" for dit P a uns
  proof -
    have "(a, uns) \<in> set dit" using that(2) by (auto simp: find_Some_iff)
    then show ?thesis using have_stack [OF h that(1)] by (intro selects_take 2(3)) auto
  qed
  then show ?case using 2 by (auto split: option.split)
qed simp

section \<open>Giving coins back\<close>

lemma om_get_default_find: "om_get_default [] k m = (case om_find k m of None \<Rightarrow> [] | Some x \<Rightarrow> x)"
  by (simp add: om_get_default_def)

lemma om_sum_push:
  assumes "om_wf m" "f d = (0 :: 'b::comm_monoid_add)"
  shows "om_sum f m = f (om_get_default d k m) + om_sum f (om_erase k m)"
proof (cases "om_find k m")
  case None
  then show ?thesis using assms by (simp add: om_get_default_def om_erase_absent)
next
  case (Some x)
  then show ?thesis using om_sum_erase [OF Some, of f] by (simp add: om_get_default_def)
qed

lemma stacks_ok_push:
  assumes "stacks_ok P m" "P k un"
  shows "stacks_ok P (om_set k (om_get_default [] k m @ [un]) m)"
    "stack_coins (om_set k (om_get_default [] k m @ [un]) m) = add_mset un (stack_coins m)"
proof -
  have wf: "om_wf m" using assms(1) by (simp add: stacks_ok_def)
  show "stacks_ok P (om_set k (om_get_default [] k m @ [un]) m)"
    using assms by (cases "om_find k m") (auto simp: stacks_ok_def om_get_default_def)
  show "stack_coins (om_set k (om_get_default [] k m @ [un]) m) = add_mset un (stack_coins m)"
    using om_sum_push [OF wf, of mset "[]" k] wf by (simp add: om_sum_set)
qed

lemma stacks_ok_Nil [simp]: "stacks_ok P []"
  by (simp add: stacks_ok_def)

lemma push_coin_ok:
  assumes "have_ok m h" "fits digit v un" "digit \<le> m"
  shows "have_ok m (push_coin un h)" "all_coins (push_coin un h) = add_mset un (all_coins h)"
proof -
  have wf: "om_wf h" using assms(1) by (simp add: have_ok_def)
  let ?dit = "om_get_default [] digit h"
  let ?new = "om_set v (om_get_default [] v ?dit @ [un]) ?dit"
  have st: "stacks_ok (fits digit) ?dit" using assms(1) by (auto simp: have_ok_def om_get_default_def split: option.split)
  have e: "push_coin un h = om_set digit ?new h" using assms(2) by (simp add: push_coin_def fits_def Let_def)
  have ne: "?new \<noteq> []" by (cases ?dit) (auto split: if_splits)
  show "have_ok m (push_coin un h)"
    unfolding e using assms(1,3) ne stacks_ok_push(1) [OF st assms(2)] by (simp add: have_ok_def)
  show "all_coins (push_coin un h) = add_mset un (all_coins h)"
    unfolding e using om_sum_push [OF wf, of stack_coins "[]" digit] stacks_ok_push(2) [OF st assms(2)] wf by (simp add: om_sum_set)
qed

definition coins_wf :: "nat \<Rightarrow> api_output multiset \<Rightarrow> bool" where
  "coins_wf m A \<longleftrightarrow> m \<le> 19 \<and>
     (\<forall>u \<in># A. \<not> ao_dust u \<longrightarrow> ao_amount u \<noteq> 0 \<and> fst (leading_digit (ao_amount u)) \<le> m)"

lemma give_back_all:
  assumes "\<forall>u \<in> set us. \<not> ao_dust u \<longrightarrow> ao_amount u \<noteq> 0 \<and> fst (leading_digit (ao_amount u)) \<le> m"
    and "have_ok m (us_have_coins s)" "dust_ok (us_dust_coins s)"
  defines "s' \<equiv> foldl give_back s us"
  shows "have_ok m (us_have_coins s') \<and> dust_ok (us_dust_coins s')
    \<and> all_coins (us_have_coins s') + stack_coins (us_dust_coins s') =
        all_coins (us_have_coins s) + stack_coins (us_dust_coins s) + mset us
    \<and> us_used_total s' = us_used_total s - sum_list (map ao_amount us)
    \<and> us_inputs_count s' = us_inputs_count s - word_of_nat (length us)
    \<and> us_used_unspents s' = us_used_unspents s \<and> us_ra_amounts s' = us_ra_amounts s"
  using assms(1-3) unfolding s'_def
proof (induction us arbitrary: s)
  case (Cons u us)
  let ?s = "give_back s u"
  have "have_ok m (us_have_coins ?s) \<and> dust_ok (us_dust_coins ?s) \<and>
      all_coins (us_have_coins ?s) + stack_coins (us_dust_coins ?s) =
        add_mset u (all_coins (us_have_coins s) + stack_coins (us_dust_coins s))"
  proof (cases "ao_dust u")
    case True
    then show ?thesis
      using Cons.prems stacks_ok_push [of "\<lambda>k un. ao_amount un = k \<and> ao_dust un" "us_dust_coins s" "ao_amount u" u]
      by (simp add: give_back_def Let_def dust_ok_def push_dust_def)
  next
    case False
    then have "fits (fst (leading_digit (ao_amount u))) (snd (leading_digit (ao_amount u))) u"
      using Cons.prems(1) by (simp add: fits_def)
    from push_coin_ok [OF Cons.prems(2) this] False Cons.prems show ?thesis
      by (simp add: give_back_def Let_def)
  qed
  moreover have "us_used_total ?s = us_used_total s - ao_amount u" "us_inputs_count ?s = us_inputs_count s - 1"
    "us_used_unspents ?s = us_used_unspents s" "us_ra_amounts ?s = us_ra_amounts s"
    by (simp_all add: give_back_def Let_def)
  ultimately show ?case using Cons.IH [of ?s] Cons.prems(1) by simp
qed simp

lemma unoptimize_ok:
  assumes "sel_ok m A mixed s" "coins_wf m A"
  shows "sel_ok m A mixed (unoptimize_amounts s)" "us_optimization_unspents (unoptimize_amounts s) = []"
proof -
  have "set (us_optimization_unspents s) \<subseteq> set_mset A" using assms(1) by (auto simp: sel_ok_def)
  then show "sel_ok m A mixed (unoptimize_amounts s)" "us_optimization_unspents (unoptimize_amounts s) = []"
    using give_back_all [of "us_optimization_unspents s" m s] assms by (auto simp: sel_ok_def coins_wf_def unoptimize_amounts_def)
qed

section \<open>Filling up\<close>

lemma fill_step:
  assumes ok: "sel_ok m A (anonymity \<noteq> 0) s" and less: "us_used_total s < total_amount"
    and more: "\<not> (us_have_coins s = [] \<and> (anonymity \<noteq> 0 \<or> us_dust_coins s = []))"
  obtains s1 where "fill_amount anonymity total_amount s = fill_amount anonymity total_amount s1"
    "sel_ok m A (anonymity \<noteq> 0) s1" "extends s s1"
    "length (us_optimization_unspents s1) = length (us_optimization_unspents s) + 1"
proof -
  note found = that
  let ?h = "us_have_coins s" and ?d = "us_dust_coins s"
  have h: "have_ok m ?h" using ok by (simp add: sel_ok_def)
  define ha where "ha = (if ?h = [] then Some 0 else map_option (\<lambda>(_, _, uns). ao_amount (last uns)) (last_have ?h))"
  define du where "du = (if anonymity = 0 \<and> ?d \<noteq> [] then (let uns = snd (last ?d) in if uns = [] then None else Some (ao_amount (last uns))) else Some 0)"
  have dust: "\<exists>x. du = Some x"
    using last_dust [OF ok] ok by (auto simp: du_def Let_def sel_ok_def dust_ok_def stacks_ok_def)
  then obtain x where x: "du = Some x" by blast
  have taken: thesis
    if t: "(if x < y then Option.bind (last_have ?h) (\<lambda>(digit, v, _). take_coin digit v s)
      else if ?d = [] then None else take_dust (fst (last ?d)) s) = Some s1" "ha = Some y"
      "sel_ok m A (anonymity \<noteq> 0) s1" "extends s s1"
      "length (us_optimization_unspents s1) = length (us_optimization_unspents s) + 1" for y s1
  proof (rule found)
    show "fill_amount anonymity total_amount s = fill_amount anonymity total_amount s1"
      using less more t(1,2) x unfolding ha_def du_def by (subst fill_amount.simps) (simp only: if_True if_False Option.bind.simps)
  qed (use t in auto)
  have use_dust: thesis if d: "?d \<noteq> []" "anonymity = 0" "ha = Some y" "\<not> x < y" for y
  proof -
    have "sel_ok m A False s" using ok d(2) by simp
    then obtain s1 where "take_dust (fst (last ?d)) s = Some s1" "sel_ok m A False s1" "extends s s1"
      "length (us_optimization_unspents s1) = length (us_optimization_unspents s) + 1"
      using take_dust_ok last_dust [OF ok d(1)] by (metis option.distinct(1))
    then show thesis using taken [of y s1] d by simp
  qed
  show thesis
  proof (cases "?h = []")
    case True
    then have "ha = Some 0" "?d \<noteq> []" "anonymity = 0" using more by (simp_all add: ha_def)
    then show thesis using use_dust by simp
  next
    case False
    obtain digit v where l: "last_have ?h = Some (digit, v, stack ?h digit v)" "stack ?h digit v \<noteq> []"
      "fits digit v (last (stack ?h digit v))"
      by (rule last_have_found [OF h False])
    define y where "y = ao_amount (last (stack ?h digit v))"
    have y: "ha = Some y" "y \<noteq> 0" using l False by (simp_all add: ha_def y_def fits_def)
    show thesis
    proof (cases "x < y")
      case True
      obtain s1 where "take_coin digit v s = Some s1" "sel_ok m A (anonymity \<noteq> 0) s1" "extends s s1"
        "us_optimization_unspents s1 = us_optimization_unspents s @ [last (stack ?h digit v)]"
        by (rule take_coin_ok [OF ok l(2)])
      then show thesis using taken [of y s1] True l(1) y(1) by simp
    next
      case False
      then have "?d \<noteq> [] \<and> anonymity = 0" using x y(2) by (auto simp: du_def word_neq_0_conv split: if_splits)
      then show thesis using use_dust False y(1) by blast
    qed
  qed
qed

lemma fill_amount_ok:
  assumes "sel_ok m A (anonymity \<noteq> 0) s"
  shows "\<exists>b s'. fill_amount anonymity total_amount s = Some (b, s') \<and> sel_ok m A (anonymity \<noteq> 0) s' \<and> extends s s' \<and>
    (if b then total_amount \<le> us_used_total s'
     else us_used_total s' < total_amount \<and> us_have_coins s' = [] \<and> (anonymity \<noteq> 0 \<or> us_dust_coins s' = []))"
  using assms
proof (induction "size A - length (us_optimization_unspents s)" arbitrary: s rule: less_induct)
  case less
  show ?case
  proof (cases "us_used_total s < total_amount \<and> \<not> (us_have_coins s = [] \<and> (anonymity \<noteq> 0 \<or> us_dust_coins s = []))")
    case True
    then obtain s1 where s1: "fill_amount anonymity total_amount s = fill_amount anonymity total_amount s1"
      "sel_ok m A (anonymity \<noteq> 0) s1" "extends s s1"
      "length (us_optimization_unspents s1) = length (us_optimization_unspents s) + 1"
      using fill_step [OF less.prems] by blast
    have "length (us_optimization_unspents s1) \<le> size A"
      using s1(2) by (auto simp: sel_ok_def)
    then have "size A - length (us_optimization_unspents s1) < size A - length (us_optimization_unspents s)" using s1(4) by simp
    from less.hyps [OF this s1(2)] obtain b s' where "fill_amount anonymity total_amount s1 = Some (b, s')"
      "sel_ok m A (anonymity \<noteq> 0) s'" "extends s1 s'"
      "if b then total_amount \<le> us_used_total s'
       else us_used_total s' < total_amount \<and> us_have_coins s' = [] \<and> (anonymity \<noteq> 0 \<or> us_dust_coins s' = [])"
      by (elim exE conjE)
    then show ?thesis using s1(1) extends_trans [OF s1(3)] by (intro exI [of _ b] exI [of _ s']) simp
  next
    case False
    then have "fill_amount anonymity total_amount s = Some (\<not> us_used_total s < total_amount, s)"
      by (subst fill_amount.simps) simp
    then show ?thesis using False less.prems by (auto simp: not_less)
  qed
qed

section \<open>What is chosen\<close>

text \<open>The money in a set of coins, and the coins that may be used.\<close>

definition funds :: "api_output multiset \<Rightarrow> nat" where
  "funds A = (\<Sum>u \<in># A. unat (ao_amount u))"

definition usable :: "bool \<Rightarrow> api_output multiset \<Rightarrow> api_output multiset" where
  "usable mixed A = (if mixed then filter_mset (\<lambda>u. \<not> ao_dust u) A else A)"

lemma funds_union [simp]: "funds (A + B) = funds A + funds B"
  by (simp add: funds_def)

lemma unat_sum_list: "(\<Sum>x\<leftarrow>xs. unat x) < 2 ^ LENGTH('a) \<Longrightarrow> unat (sum_list (xs :: 'a::len word list)) = (\<Sum>x\<leftarrow>xs. unat x)"
  by (induction xs) (simp_all add: unat_word_ariths)

lemma funds_list: "funds (mset us) = (\<Sum>u\<leftarrow>us. unat (ao_amount u))"
  by (induction us) (simp_all add: funds_def)

lemma used_value:
  assumes "sel_ok m A mixed s" "funds A < 2 ^ 64"
  shows "unat (us_used_total s) = funds (mset (us_optimization_unspents s))" "funds (mset (us_optimization_unspents s)) \<le> funds A"
proof -
  show le: "funds (mset (us_optimization_unspents s)) \<le> funds A"
    using assms(1) by (auto simp: sel_ok_def)
  then show "unat (us_used_total s) = funds (mset (us_optimization_unspents s))"
    using assms unat_sum_list [of "map ao_amount (us_optimization_unspents s)"]
    by (simp add: sel_ok_def funds_list o_def)
qed

lemma extends_used:
  assumes "sel_ok m A mixed s" "sel_ok m A mixed s'" "extends s s'" "funds A < 2 ^ 64"
  shows "us_used_total s \<le> us_used_total s'"
  using used_value [OF assms(1,4)] used_value [OF assms(2,4)] assms(3) by (auto simp: word_le_nat_alt extends_def)

lemma dust_coins_dust:
  assumes "dust_ok d"
  shows "\<forall>u \<in># stack_coins d. ao_dust u"
proof -
  have "om_wf d" using assms by (simp add: dust_ok_def stacks_ok_def)
  then have "\<forall>(k, us) \<in> set d. \<forall>u \<in> set us. ao_dust u"
    using assms by (auto simp: dust_ok_def stacks_ok_def om_find_iff)
  then show ?thesis by (induction d) auto
qed

lemma nothing_left:
  assumes "sel_ok m A mixed s" "us_have_coins s = []" "mixed \<or> us_dust_coins s = []"
  shows "mset (us_optimization_unspents s) = usable mixed A"
proof -
  let ?o = "mset (us_optimization_unspents s)"
  have A: "A = stack_coins (us_dust_coins s) + ?o" "dust_ok (us_dust_coins s)"
    using assms(1,2) by (auto simp: sel_ok_def)
  show ?thesis
  proof (cases mixed)
    case True
    then have "filter_mset (\<lambda>u. \<not> ao_dust u) ?o = ?o"
      using assms(1) by (simp add: sel_ok_def filter_mset_eq_conv)
    moreover have "filter_mset (\<lambda>u. \<not> ao_dust u) (stack_coins (us_dust_coins s)) = {#}"
      using dust_coins_dust [OF A(2)] by (simp add: filter_mset_eq_mempty_iff)
    ultimately show ?thesis using True A(1) by (simp add: usable_def)
  qed (use assms A in \<open>simp add: usable_def\<close>)
qed

lemma select_outputs_ok:
  assumes ok: "sel_ok m A (anonymity \<noteq> 0) s" and wf: "coins_wf m A" and small: "funds A < 2 ^ 64"
  shows "\<exists>found s'. select_outputs m total_amount anonymity oc s = Some (found, s') \<and> sel_ok m A (anonymity \<noteq> 0) s' \<and>
    (if found then total_amount \<le> us_used_total s' else funds (usable (anonymity \<noteq> 0) A) < unat total_amount)"
proof -
  have m: "m \<le> 19" using wf by (simp add: coins_wf_def)
  have "\<exists>oc1 s1. (if anonymity = 0 then Option.bind (large_dust total_amount s) (dust_optimization oc total_amount)
      else Some (oc, s)) = Some (oc1, s1) \<and> sel_ok m A (anonymity \<noteq> 0) s1"
  proof (cases "anonymity = 0")
    case True
    then obtain s0 where s0: "large_dust total_amount s = Some s0" "sel_ok m A False s0"
      using selects_large_dust [of m A s total_amount] ok by (auto simp: selects_def)
    from selects_dust_optimization [OF s0(2), of oc total_amount] s0(1) True show ?thesis by auto
  qed (use ok in simp)
  then obtain oc1 s1 where s1: "(if anonymity = 0 then Option.bind (large_dust total_amount s) (dust_optimization oc total_amount)
      else Some (oc, s)) = Some (oc1, s1)" "sel_ok m A (anonymity \<noteq> 0) s1" by blast
  obtain s2 where s2: "stack_optimization oc1 s1 = Some s2" "sel_ok m A (anonymity \<noteq> 0) s2"
    using selects_stack_optimization [OF s1(2)] by (auto simp: selects_def)
  obtain s3 where s3: "optimize_amounts m total_amount s2 = Some s3" "sel_ok m A (anonymity \<noteq> 0) s3"
    using selects_optimize [OF s2(2) m] by (auto simp: selects_def)
  obtain s4 where s4: "large_coin (m + 1) 0 1 total_amount s3 = Some s4" "sel_ok m A (anonymity \<noteq> 0) s4"
    using selects_large_coin [OF s3(2), of "m + 1" 0 1 total_amount] unfolding selects_def by blast
  obtain found s5 where s5: "fill_amount anonymity total_amount (unoptimize_amounts s4) = Some (found, s5)"
    "sel_ok m A (anonymity \<noteq> 0) s5"
    "if found then total_amount \<le> us_used_total s5
     else us_used_total s5 < total_amount \<and> us_have_coins s5 = [] \<and> (anonymity \<noteq> 0 \<or> us_dust_coins s5 = [])"
    using fill_amount_ok [OF unoptimize_ok(1) [OF s4(2) wf], of total_amount] by (elim exE conjE)
  obtain s6 where s6: "optimize_amounts m total_amount s5 = Some s6" "sel_ok m A (anonymity \<noteq> 0) s6" "extends s5 s6"
    using selects_optimize [OF s5(2) m] by (auto simp: selects_def)
  have eq: "select_outputs m total_amount anonymity oc s =
     (if total_amount \<le> us_used_total s3 then Some (True, s3)
      else if total_amount \<le> us_used_total s4 then Some (True, s4)
      else if \<not> found then Some (False, s5) else Some (True, s6))"
    unfolding select_outputs_def s1(1) by (simp add: s2(1) s3(1) s4(1) [simplified Suc_eq_plus1 [symmetric]] s5(1) s6(1) del: large_coin.simps)
  show ?thesis
  proof (cases "total_amount \<le> us_used_total s3 \<or> total_amount \<le> us_used_total s4 \<or> found")
    case True
    have "total_amount \<le> us_used_total s6" if found
      using that s5(3) extends_used [OF s5(2) s6(2,3) small] by simp
    then obtain s' where "select_outputs m total_amount anonymity oc s = Some (True, s')"
      "sel_ok m A (anonymity \<noteq> 0) s'" "total_amount \<le> us_used_total s'"
      using True s3(2) s4(2) s6(2) unfolding eq by metis
    then show ?thesis by (intro exI [of _ True] exI [of _ s']) simp
  next
    case False
    then have "funds (usable (anonymity \<noteq> 0) A) < unat total_amount"
      using s5(3) nothing_left [OF s5(2)] used_value(1) [OF s5(2) small] by (simp add: word_less_nat_alt)
    then show ?thesis using False s5(2) by (intro exI [of _ False] exI [of _ s5]) (simp add: eq)
  qed
qed

section \<open>The fee\<close>

text \<open>
  The chosen coins are coins that may be spent, each once, no dust if they are mixed, and pay the
  amount, a fee of at least \<open>fee\<close> that covers the size of the transaction, and the change, which
  has no dust.
\<close>

definition paid_for ::
  "currency \<Rightarrow> api_output multiset \<Rightarrow> u64 \<Rightarrow> u64 \<Rightarrow> amount \<Rightarrow> u64 \<Rightarrow> amount \<Rightarrow> amount \<Rightarrow> amount \<Rightarrow> unspent_selector \<Rightarrow> bool" where
  "paid_for c A effective_median_size anonymity total_amount total_outputs byte_fee fee change s \<longleftrightarrow>
     (let us = us_used_unspents s;
          tx_size = get_maximum_tx_size (word_of_nat (length us)) (total_outputs + 8) anonymity
      in mset us \<subseteq># usable (anonymity \<noteq> 0) A \<and> us_ra_amounts s = map ao_amount us \<and>
         unat (us_used_total s) = funds (mset us) \<and> tx_size \<le> effective_median_size \<and>
         unat (cy_default_dust_threshold c) dvd unat change \<and>
         (\<exists>paid_fee. funds (mset us) = unat total_amount + paid_fee + unat change \<and> unat fee \<le> paid_fee \<and>
            unat byte_fee * unat tx_size \<le> paid_fee))"

lemma sub_usable:
  assumes "sel_ok m A mixed s"
  shows "mset (us_optimization_unspents s) \<subseteq># usable mixed A"
proof -
  let ?o = "mset (us_optimization_unspents s)"
  have sub: "?o \<subseteq># A" using assms by (auto simp: sel_ok_def)
  show ?thesis
  proof (cases mixed)
    case True
    then have "filter_mset (\<lambda>u. \<not> ao_dust u) ?o = ?o" using assms by (simp add: sel_ok_def filter_mset_eq_conv)
    then show ?thesis using multiset_filter_mono [OF sub, of "\<lambda>u. \<not> ao_dust u"] True by (simp add: usable_def)
  qed (use sub in \<open>simp add: usable_def\<close>)
qed

text \<open>Rounding up to whole dust thresholds.\<close>

lemma round_up:
  fixes x t :: amount
  assumes "t \<noteq> 0" "unat x + unat t \<le> B" "B < 2 ^ 64"
  shows "unat x \<le> unat ((x + t - 1) div t * t)" "unat ((x + t - 1) div t * t) \<le> unat x + unat t"
proof -
  have t: "0 < unat t" using assms(1) by (simp add: unat_gt_0)
  have xt: "unat (x + t) = unat x + unat t" using assms by (intro unat_add_lem [THEN iffD1]) simp
  have "1 \<le> x + t" using xt t by (simp add: word_le_nat_alt)
  then have x1: "unat (x + t - 1) = unat x + unat t - 1" using xt by (simp add: unat_sub)
  let ?n = "unat x + unat t - 1"
  have le: "?n div unat t * unat t \<le> ?n" by simp
  have d: "unat ((x + t - 1) div t) = ?n div unat t" by (simp only: unat_div x1)
  have "unat ((x + t - 1) div t) * unat t < 2 ^ 64" using le assms(2,3) unfolding d by linarith
  then have v: "unat ((x + t - 1) div t * t) = ?n div unat t * unat t"
    using unat_mult_lem [of "(x + t - 1) div t" t] d by simp
  then show "unat ((x + t - 1) div t * t) \<le> unat x + unat t" using le by linarith
  have "?n < ?n div unat t * unat t + unat t"
    using mod_less_divisor [OF t, of ?n] div_mult_mod_eq [of ?n "unat t"] by linarith
  then show "unat x \<le> unat ((x + t - 1) div t * t)" unfolding v using t by linarith
qed

lemma select_loop_ok:
  fixes total_outputs anonymity :: u64
  defines "size_of \<equiv> \<lambda>s. get_maximum_tx_size (us_inputs_count s) (total_outputs + 8) anonymity"
  assumes "sel_ok m A (anonymity \<noteq> 0) s" and wf: "coins_wf m A" and small: "funds A < 2 ^ 64"
    and t: "cy_default_dust_threshold c \<noteq> 0"
    and B: "unat byte_fee * unat median + unat (cy_default_dust_threshold c) \<le> B" "unat total_amount + B < 2 ^ 64"
    and "unat fee \<le> B"
  shows "\<exists>answer change' s'.
     select_loop c m median optimization_median anonymity total_amount total_outputs byte_fee oc fee change s =
       Some (answer, change', s') \<and>
     (answer = '''' \<and> paid_for c A median anonymity total_amount total_outputs byte_fee fee change' s' \<or>
      answer = ''NOT_ENOUGH_FUNDS'' \<and> (\<exists>f \<le> B. funds (usable (anonymity \<noteq> 0) A) < unat total_amount + f) \<or>
      answer = ''TRANSACTION_DOES_NOT_FIT_IN_BLOCK'' \<and> median < size_of s')"
  using assms(2,8)
proof (induction "oc + (B - unat fee)" arbitrary: oc fee s rule: less_induct)
  case less
  let ?T = "cy_default_dust_threshold c"
  let ?loop = "select_loop c m median optimization_median anonymity total_amount total_outputs byte_fee"
  obtain found s1 where s1: "select_outputs m (total_amount + fee) anonymity oc s = Some (found, s1)"
    "sel_ok m A (anonymity \<noteq> 0) s1"
    "if found then total_amount + fee \<le> us_used_total s1 else funds (usable (anonymity \<noteq> 0) A) < unat (total_amount + fee)"
    using select_outputs_ok [OF less.prems(1) wf small, of "total_amount + fee" oc] by (elim exE conjE)
  have sum: "unat (total_amount + fee) = unat total_amount + unat fee"
    using less.prems(2) B(2) by (intro unat_add_lem [THEN iffD1]) simp
  show ?case
  proof (cases found)
    case False
    then have "?loop oc fee change s = Some (''NOT_ENOUGH_FUNDS'', change, s1)"
      by (subst select_loop.simps) (simp add: s1(1))
    then show ?thesis using s1(3) False less.prems(2) by (auto simp: sum)
  next
    case True
    define rest where "rest = us_used_total s1 - total_amount - fee"
    define cdf where "cdf = rest mod ?T"
    have le: "total_amount + fee \<le> us_used_total s1" using s1(3) True by simp
    have rest: "unat (us_used_total s1) = unat total_amount + unat fee + unat rest"
      using unat_sub [OF le] le sum by (simp add: rest_def diff_diff_add word_le_nat_alt)
    have cdf: "unat cdf = unat rest mod unat ?T" by (simp add: cdf_def unat_mod)
    have fc: "unat (fee + cdf) = unat fee + unat cdf"
    proof -
      have "unat fee + unat cdf \<le> unat (us_used_total s1)" using rest cdf by (simp add: le_add2 trans_le_add2)
      then show ?thesis using u64_less [of "us_used_total s1"] by (intro unat_add_lem [THEN iffD1]) simp
    qed
    have s2: "sel_ok m A (anonymity \<noteq> 0) (unoptimize_amounts s1)" by (rule unoptimize_ok [OF s1(2) wf])
    have step: "?loop oc fee change s =
      (if optimization_median < size_of s1 \<and> 0 < oc
       then ?loop (if oc div 2 < 10 then 0 else oc div 2) fee change (unoptimize_amounts s1)
       else if median < size_of s1 then Some (''TRANSACTION_DOES_NOT_FIT_IN_BLOCK'', change, s1)
       else if byte_fee * size_of s1 \<le> fee + cdf then Some ('''', rest - cdf, combine_optimized_unspents s1)
       else ?loop oc ((byte_fee * size_of s1 - cdf + ?T - 1) div ?T * ?T) change (unoptimize_amounts s1))"
      using True t by (subst select_loop.simps) (simp add: s1(1) Let_def size_of_def rest_def cdf_def)
    show ?thesis
    proof (cases "optimization_median < size_of s1 \<and> 0 < oc")
      case True
      have "(if oc div 2 < 10 then 0 else oc div 2) + (B - unat fee) < oc + (B - unat fee)" using True by auto
      from less.hyps [OF this s2 less.prems(2)] show ?thesis unfolding step if_P [OF True] .
    next
      case opt: False
      show ?thesis
      proof (cases "median < size_of s1")
        case True
        then show ?thesis unfolding step if_not_P [OF opt] by simp
      next
        case False
        then have fit: "unat byte_fee * unat (size_of s1) \<le> unat byte_fee * unat median"
          by (intro mult_left_mono) (simp_all add: word_le_nat_alt not_less)
        have "unat byte_fee * unat (size_of s1) < 2 ^ 64" using fit B by linarith
        then have sz: "unat (byte_fee * size_of s1) = unat byte_fee * unat (size_of s1)"
          using unat_mult_lem [of byte_fee "size_of s1"] by simp
        show ?thesis
        proof (cases "byte_fee * size_of s1 \<le> fee + cdf")
          case True
          have "paid_for c A median anonymity total_amount total_outputs byte_fee fee (rest - cdf) (combine_optimized_unspents s1)"
          proof -
            let ?us = "us_optimization_unspents s1"
            have used: "unat (us_used_total s1) = funds (mset ?us)" by (rule used_value(1) [OF s1(2) small])
            have inputs: "us_inputs_count s1 = word_of_nat (length ?us)" "us_used_unspents s1 = []" "us_ra_amounts s1 = []"
              using s1(2) by (simp_all add: sel_ok_def)
            have "cdf \<le> rest" using cdf by (simp add: word_le_nat_alt)
            then have ch: "unat (rest - cdf) = unat rest - unat rest mod unat ?T" by (simp add: unat_sub cdf)
            then have "unat ?T dvd unat (rest - cdf)" by (simp add: minus_mod_eq_mult_div)
            moreover have "funds (mset ?us) = unat total_amount + (unat fee + unat cdf) + unat (rest - cdf)"
              using rest used ch cdf by simp
            moreover have "unat byte_fee * unat (size_of s1) \<le> unat fee + unat cdf"
              using True sz fc by (simp add: word_le_nat_alt)
            ultimately show ?thesis
              using False sub_usable [OF s1(2)] used inputs
              by (auto simp: paid_for_def combine_optimized_unspents_def Let_def size_of_def not_less
                  intro!: exI [of _ "unat fee + unat cdf"])
          qed
          then show ?thesis unfolding step if_not_P [OF opt] if_not_P [OF False] if_P [OF True] by blast
        next
          case more: False
          define fee' where "fee' = (byte_fee * size_of s1 - cdf + ?T - 1) div ?T * ?T"
          have "unat fee < unat fee' \<and> unat fee' \<le> B"
          proof -
            have lt: "unat fee + unat cdf < unat (byte_fee * size_of s1)" using more fc by (simp add: word_le_nat_alt)
            then have "unat (byte_fee * size_of s1 - cdf) = unat (byte_fee * size_of s1) - unat cdf"
              by (intro unat_sub) (simp add: word_le_nat_alt)
            then show ?thesis
              using round_up [of ?T "byte_fee * size_of s1 - cdf" B] t lt fit sz B unfolding fee'_def by linarith
          qed
          then have smaller: "oc + (B - unat fee') < oc + (B - unat fee)" and below: "unat fee' \<le> B" and "fee \<le> fee'"
            by (auto simp: word_le_nat_alt)
          have weaken: "paid_for c A median anonymity total_amount total_outputs byte_fee fee ch s2"
            if "paid_for c A median anonymity total_amount total_outputs byte_fee fee' ch s2" for ch s2
            using that \<open>fee \<le> fee'\<close> unfolding paid_for_def Let_def word_le_nat_alt by (blast intro: le_trans)
          from less.hyps [OF smaller s2 below] weaken show ?thesis
            unfolding step if_not_P [OF opt] if_not_P [OF False] if_not_P [OF more] fee'_def [symmetric] by blast
        qed
      qed
    qed
  qed
qed

section \<open>Collecting the coins\<close>

lemma leading_digit_bound: "am \<noteq> 0 \<Longrightarrow> 10 ^ fst (leading_digit am) \<le> unat am"
proof (induction am rule: leading_digit.induct)
  case (1 am)
  show ?case
  proof (cases "9 < am")
    case True
    then have n: "9 < unat am" by (simp add: word_less_nat_alt)
    have d: "unat (am div 10) = unat am div 10" by (simp add: unat_div)
    then have "am div 10 \<noteq> 0" using n by (auto simp flip: unat_eq_0)
    with 1 True d n show ?thesis by (subst leading_digit.simps) (simp add: split_beta)
  next
    case False
    then show ?thesis using 1(2) by (subst leading_digit.simps) (simp add: Suc_le_eq unat_gt_0)
  qed
qed

lemma leading_digit_19: "am \<noteq> 0 \<Longrightarrow> fst (leading_digit am) \<le> 19"
proof (rule ccontr)
  assume "am \<noteq> 0" "\<not> fst (leading_digit am) \<le> 19"
  then have "(10 :: nat) ^ 20 \<le> 10 ^ fst (leading_digit am)" by (intro power_increasing) simp_all
  also have "\<dots> \<le> unat am" by (rule leading_digit_bound [OF \<open>am \<noteq> 0\<close>])
  finally show False using u64_less [of am] by simp
qed

lemma not_dust_nonzero: "\<not> is_dust a \<Longrightarrow> a \<noteq> 0"
  by (auto simp: is_dust_def split: list.splits)

lemma create_all:
  fixes c block_height block_time confirmed_height
  defines "f \<equiv> create_have_coin c block_height block_time confirmed_height"
    and "P \<equiv> spendable c block_height block_time confirmed_height"
  assumes "\<forall>u \<in> set us. ao_dust u \<longleftrightarrow> is_dust (ao_amount u)" "have_ok m h" "dust_ok d" "m \<le> 19"
    and "foldl f (h, d, m) us = (h', d', m')"
  shows "have_ok m' h' \<and> dust_ok d' \<and> all_coins h' + stack_coins d' = all_coins h + stack_coins d + mset (filter P us)
    \<and> m \<le> m' \<and> m' \<le> 19 \<and> (\<forall>u \<in> set (filter P us). \<not> ao_dust u \<longrightarrow> fst (leading_digit (ao_amount u)) \<le> m')"
  using assms(3-)
proof (induction us arbitrary: h d m)
  case (Cons u us)
  obtain h1 d1 m1 where s: "f (h, d, m) u = (h1, d1, m1)" by (metis surj_pair)
  have f: "f (h, d, m) u = (if \<not> P u then (h, d, m)
      else if is_dust (ao_amount u) then (h, push_dust u d, m)
      else (push_coin u h, d, max m (fst (leading_digit (ao_amount u)))))"
    by (auto simp: f_def create_have_coin_def P_def spendable_def not_less not_le)
  have step: "have_ok m1 h1 \<and> dust_ok d1 \<and> all_coins h1 + stack_coins d1 = all_coins h + stack_coins d + mset (filter P [u])
    \<and> m \<le> m1 \<and> m1 \<le> 19 \<and> (P u \<longrightarrow> \<not> ao_dust u \<longrightarrow> fst (leading_digit (ao_amount u)) \<le> m1)"
  proof (cases "P u")
    case False
    then show ?thesis using s Cons.prems by (simp add: f)
  next
    case p: True
    show ?thesis
    proof (cases "is_dust (ao_amount u)")
      case True
      then have e: "h1 = h" "d1 = push_dust u d" "m1 = m" using s p by (simp_all add: f)
      then show ?thesis
        using p True e Cons.prems stacks_ok_push [of "\<lambda>k un. ao_amount un = k \<and> ao_dust un" d "ao_amount u" u]
        by (simp add: dust_ok_def push_dust_def)
    next
      case False
      then have e: "h1 = push_coin u h" "d1 = d" "m1 = max m (fst (leading_digit (ao_amount u)))"
        using s p by (simp_all add: f)
      have nz: "ao_amount u \<noteq> 0" by (rule not_dust_nonzero [OF False])
      have "fits (fst (leading_digit (ao_amount u))) (snd (leading_digit (ao_amount u))) u"
        using nz False Cons.prems(1) by (simp add: fits_def)
      moreover have "have_ok m1 h" using Cons.prems(2) e(3) unfolding have_ok_def by fastforce
      ultimately have "have_ok m1 h1" "all_coins h1 = add_mset u (all_coins h)"
        using push_coin_ok [of m1 h] e by simp_all
      then show ?thesis using p e Cons.prems(3,4) leading_digit_19 [OF nz] by simp
    qed
  qed
  have "foldl f (h1, d1, m1) us = (h', d', m')" using Cons.prems(5) s by simp
  from Cons.IH [OF _ _ _ _ this] step Cons.prems(1) show ?case by auto
qed simp

lemma selection_pays:
  fixes unspents :: "api_output list" and anonymity effective_median_size :: u64 and byte_fee :: amount
    and c block_height block_time confirmed_height
  defines "A \<equiv> mset (filter (spendable c block_height block_time confirmed_height) unspents)"
    and "max_size \<equiv> (120 * effective_median_size) div 100"
    and "max_fee \<equiv> unat byte_fee * unat ((120 * effective_median_size) div 100) +
      unat (cy_default_dust_threshold c) + unat (cy_minimum_fee c)"
  assumes "\<forall>u \<in> set unspents. ao_dust u \<longleftrightarrow> is_dust (ao_amount u)"
    and "(\<Sum>u\<leftarrow>unspents. unat (ao_amount u)) < 2 ^ 64"
    and "cy_default_dust_threshold c \<noteq> 0"
    and "unat total_amount + max_fee < 2 ^ 64"
  shows "\<exists>answer change' s'.
     select_optimal_outputs c block_height block_time confirmed_height effective_median_size anonymity total_amount
       total_outputs byte_fee optimization_level change (reset_selector unspents) = Some (answer, change', s') \<and>
     (answer = '''' \<and> paid_for c A max_size anonymity total_amount total_outputs byte_fee (cy_minimum_fee c) change' s' \<or>
      answer = ''NOT_ENOUGH_FUNDS'' \<and> (\<exists>fee \<le> max_fee. funds (usable (anonymity \<noteq> 0) A) < unat total_amount + fee) \<or>
      answer = ''TRANSACTION_DOES_NOT_FIT_IN_BLOCK'' \<and>
        max_size < get_maximum_tx_size (us_inputs_count s') (total_outputs + 8) anonymity)"
proof -
  let ?f = "create_have_coin c block_height block_time confirmed_height"
  obtain h d m where f: "foldl ?f ([], [], 0) (rev unspents) = (h, d, m)" by (metis surj_pair)
  have "have_ok 0 []" "dust_ok []" by (simp_all add: have_ok_def dust_ok_def)
  note all = create_all [OF _ this _ f]
  define s0 where "s0 = (reset_selector unspents)\<lparr>us_have_coins := h, us_dust_coins := d\<rparr>"
  have c: "create_have_coins c block_height block_time confirmed_height (reset_selector unspents) = (s0, m)"
    by (simp add: create_have_coins_def s0_def f reset_selector_def)
  have A: "A = mset (filter (spendable c block_height block_time confirmed_height) (rev unspents))"
    by (simp add: A_def rev_filter [symmetric])
  have ok: "sel_ok m A (anonymity \<noteq> 0) s0"
    using all assms(4) by (simp add: A sel_ok_def s0_def reset_selector_def)
  have wf: "coins_wf m A"
    using all assms(4) not_dust_nonzero unfolding coins_wf_def A by (auto simp: rev_filter [symmetric])
  have "funds (filter_mset P (mset unspents)) \<le> funds (mset unspents)" for P
    using funds_union [of "filter_mset P (mset unspents)" "filter_mset (\<lambda>u. \<not> P u) (mset unspents)"]
    by (simp flip: multiset_partition)
  then have "funds A \<le> funds (mset unspents)" by (simp add: A_def mset_filter)
  then have small: "funds A < 2 ^ 64" using assms(5) by (simp add: funds_list)
  show ?thesis
    unfolding select_optimal_outputs_def Let_def c prod.case max_size_def
    by (rule select_loop_ok [OF ok wf small assms(6) _ assms(7)]) (simp_all add: max_fee_def)
qed

text \<open>
  C35: Choosing coins always ends, and never looks into an empty container.  If it succeeds, the
  coins are distinct ones of those that are confirmed and unlocked, without dust when they are to
  be mixed with others, and they pay exactly the amount, the change, which is a multiple of the
  dust threshold, and a fee that is at least the minimum and covers the size of the transaction.
  It gives up for lack of funds only if all coins together do not pay the amount and a fee within
  the bounds given by the size of a block.
\<close>

theorem select_optimal_outputs_pays:
  fixes unspents :: "api_output list" and anonymity effective_median_size :: u64 and byte_fee :: amount
    and c block_height block_time confirmed_height
  defines "A \<equiv> mset (filter (spendable c block_height block_time confirmed_height) unspents)"
    and "max_size \<equiv> (120 * effective_median_size) div 100"
    and "max_fee \<equiv> unat byte_fee * unat ((120 * effective_median_size) div 100) +
      unat (cy_default_dust_threshold c) + unat (cy_minimum_fee c)"
  assumes "\<forall>u \<in> set unspents. ao_dust u \<longleftrightarrow> is_dust (ao_amount u)"
    and "(\<Sum>u\<leftarrow>unspents. unat (ao_amount u)) < 2 ^ 64"
    and "cy_default_dust_threshold c \<noteq> 0"
    and "unat total_amount + max_fee < 2 ^ 64"
  shows "\<exists>answer change' s'.
     select_optimal_outputs c block_height block_time confirmed_height effective_median_size anonymity total_amount
       total_outputs byte_fee optimization_level change (reset_selector unspents) = Some (answer, change', s') \<and>
     (answer = '''' \<and> paid_for c A max_size anonymity total_amount total_outputs byte_fee (cy_minimum_fee c) change' s' \<or>
      answer = ''NOT_ENOUGH_FUNDS'' \<and> (\<exists>fee \<le> max_fee. funds (usable (anonymity \<noteq> 0) A) < unat total_amount + fee) \<or>
      answer = ''TRANSACTION_DOES_NOT_FIT_IN_BLOCK'' \<and>
        max_size < get_maximum_tx_size (us_inputs_count s') (total_outputs + 8) anonymity)"
  using selection_pays [OF assms(4-7) [unfolded max_fee_def]] unfolding A_def max_size_def max_fee_def .

definition sample_coin :: api_output where
  "sample_coin = \<lparr>ao_amount = 20000000, ao_public_key = [], ao_global_index = 0, ao_unlock_time = 0,
     ao_index_in_transaction = 0, ao_height = 5, ao_key_image = [], ao_transaction_public_key = [], ao_address = '''',
     ao_dust = False\<rparr>"

lemma sample_coin_clean: "\<not> is_dust 20000000"
  by (simp add: is_dust_def PRETTY_AMOUNTS_def)

lemma select_optimal_outputs_pays_witness:
  "\<exists>answer change' s'.
     select_optimal_outputs (make_currency False empty_block_template null_hash) 100 0 50 100000 0 2500000 2 100 ''normal'' 0
       (reset_selector [sample_coin]) = Some (answer, change', s')"
  using select_optimal_outputs_pays [of "[sample_coin]" "make_currency False empty_block_template null_hash" 2500000 100 100000 100 0 50 0 2 "''normal''" 0]
  by (auto simp: sample_coin_def sample_coin_clean make_currency_def)

end
