(* ===== verification/Tx_Builder.thy ===== *)
theory Tx_Builder
  imports Mining Coin_Selection "HOL-Library.Product_Lexorder"
begin

text \<open>
  How the wallet builds and signs a transaction (\<open>TransactionBuilder\<close> and
  \<open>UnspentSelector::add_mixed_inputs\<close> of \<open>Core/TransactionBuilder.cpp\<close>, and the part of
  \<open>WalletNode::on_create_transaction\<close> that puts them together).  The functions of the elliptic
  curve and the random engine are parameters.
\<close>

section \<open>State\<close>

record account_keys =
  ak_address :: account_public_address
  ak_spend_secret_key :: bytes
  ak_view_secret_key :: bytes

record input_desc =
  id_outputs :: "api_output list"
  id_real_output_index :: nat
  id_eph_keys :: "public_key \<times> bytes"
  id_input :: key_input

record output_desc =
  od_amount :: amount
  od_addr :: account_public_address

record tx_builder =
  tb_transaction :: transaction
  tb_input_descs :: "input_desc list"
  tb_output_descs :: "output_desc list"
  tb_extra :: "extra_field list"
  tb_outputs_amount :: amount
  tb_inputs_amount :: amount

text \<open>The functions of \<open>src/crypto\<close> the wallet calls, and what \<open>std::shuffle\<close> does.\<close>

record wallet_env = miner_env +
  derive_secret_key :: "bytes \<Rightarrow> nat \<Rightarrow> bytes \<Rightarrow> bytes"
  generate_key_image :: "public_key \<Rightarrow> bytes \<Rightarrow> key_image"
  hash_to_scalar :: "bytes \<Rightarrow> bytes"
  secret_key_to_public_key :: "bytes \<Rightarrow> public_key"
  generate_ring_signature :: "hash \<Rightarrow> key_image \<Rightarrow> public_key list \<Rightarrow> bytes \<Rightarrow> nat \<Rightarrow> signature list option"
  shuffle_outputs :: "output_desc list \<Rightarrow> output_desc list"
  shuffle_inputs :: "input_desc list \<Rightarrow> input_desc list"

section \<open>Building\<close>

definition new_builder :: "currency \<Rightarrow> unlock_moment \<Rightarrow> tx_builder" where
  "new_builder c unlock_time =
     \<lparr>tb_transaction = \<lparr>tx_version = cy_current_transaction_version c, tx_unlock_time = unlock_time, tx_inputs = [],
        tx_outputs = [], tx_extra = [], tx_signatures = []\<rparr>,
      tb_input_descs = [], tb_output_descs = [], tb_extra = [], tb_outputs_amount = 0, tb_inputs_amount = 0\<rparr>"

text \<open>\<open>TransactionExtra::set\<close>: the first field of the same type is replaced.\<close>

fun same_kind :: "extra_field \<Rightarrow> extra_field \<Rightarrow> bool" where
  "same_kind (Extra_Padding _) (Extra_Padding _) = True"
| "same_kind (Extra_Public_Key _) (Extra_Public_Key _) = True"
| "same_kind (Extra_Nonce _) (Extra_Nonce _) = True"
| "same_kind (Extra_Merge_Mining_Tag _) (Extra_Merge_Mining_Tag _) = True"
| "same_kind _ _ = False"

fun set_extra_field :: "extra_field \<Rightarrow> extra_field list \<Rightarrow> extra_field list" where
  "set_extra_field f [] = [f]"
| "set_extra_field f (g # gs) = (if same_kind f g then f # gs else g # set_extra_field f gs)"

definition serialize_extra :: "extra_field list \<Rightarrow> bytes" where
  "serialize_extra fs = snd (write_transaction_extra [] fs)"

definition set_extra_nonce :: "bytes \<Rightarrow> tx_builder \<Rightarrow> tx_builder" where
  "set_extra_nonce nonce b =
     (let extra = set_extra_field (Extra_Nonce nonce) (tb_extra b)
      in b\<lparr>tb_extra := extra, tb_transaction := (tb_transaction b)\<lparr>tx_extra := serialize_extra extra\<rparr>\<rparr>)"

definition set_payment_id :: "hash \<Rightarrow> tx_builder \<Rightarrow> tx_builder" where
  "set_payment_id h b = set_extra_nonce (set_payment_id_to_transaction_extra_nonce h) b"

definition add_output :: "amount \<Rightarrow> account_public_address \<Rightarrow> tx_builder \<Rightarrow> nat \<times> tx_builder" where
  "add_output am to b =
     (let descs = tb_output_descs b @ [\<lparr>od_amount = am, od_addr = to\<rparr>]
      in (length descs - 1, b\<lparr>tb_outputs_amount := tb_outputs_amount b + am, tb_output_descs := descs\<rparr>))"

definition derive_output_key :: "'a miner_env_scheme \<Rightarrow> account_public_address \<Rightarrow> bytes \<Rightarrow> nat \<Rightarrow> public_key option" where
  "derive_output_key wenv to tx_key output_index =
     (case generate_key_derivation wenv (aa_view_public_key to) tx_key of
        None \<Rightarrow> None
      | Some derivation \<Rightarrow> derive_public_key wenv derivation output_index (aa_spend_public_key to))"

text \<open>The one-time keys of an output the wallet owns, and its key image.\<close>

definition generate_key_image_helper ::
  "wallet_env \<Rightarrow> account_keys \<Rightarrow> public_key \<Rightarrow> nat \<Rightarrow> ((public_key \<times> bytes) \<times> key_image) option" where
  "generate_key_image_helper wenv ack tx_public_key real_output_index =
     (case generate_key_derivation wenv tx_public_key (ak_view_secret_key ack) of
        None \<Rightarrow> None
      | Some recv_derivation \<Rightarrow>
          (case derive_public_key wenv recv_derivation real_output_index (aa_spend_public_key (ak_address ack)) of
             None \<Rightarrow> None
           | Some pub \<Rightarrow>
               let sec = derive_secret_key wenv recv_derivation real_output_index (ak_spend_secret_key ack)
               in Some ((pub, sec), generate_key_image wenv pub sec)))"

fun differences :: "u32 \<Rightarrow> u32 list \<Rightarrow> u32 list" where
  "differences prev [] = []"
| "differences prev (x # xs) = (x - prev) # differences x xs"

definition absolute_output_offsets_to_relative :: "u32 list \<Rightarrow> u32 list" where
  "absolute_output_offsets_to_relative off = (case off of [] \<Rightarrow> [] | x # xs \<Rightarrow> x # differences x xs)"

definition add_input ::
  "wallet_env \<Rightarrow> account_keys \<Rightarrow> api_output \<Rightarrow> api_output list \<Rightarrow> tx_builder \<Rightarrow> (nat \<times> tx_builder) result" where
  "add_input wenv sender_keys real_output mix_outputs b =
     (let sorted = sort_key ao_global_index mix_outputs;
          real_index = length (takeWhile (\<lambda>x. ao_global_index x < ao_global_index real_output) sorted);
          outs = take real_index sorted @ real_output # drop real_index sorted
      in case generate_key_image_helper wenv sender_keys (ao_transaction_public_key real_output)
             (unat (ao_index_in_transaction real_output)) of
           None \<Rightarrow> Inl (Runtime_error ''generating key_image failed'')
         | Some (eph, ki) \<Rightarrow>
             if ki \<noteq> ao_key_image real_output then Inl (Runtime_error ''generated key_image does not match input'')
             else if \<exists>x \<in> set outs. ao_amount x \<noteq> ao_amount real_output
             then Inl (Runtime_error ''Mixin outputs with different amounts is not allowed'')
             else
               let d = \<lparr>id_outputs = outs, id_real_output_index = real_index, id_eph_keys = eph,
                     id_input = \<lparr>ki_amount = ao_amount real_output,
                       ki_output_indexes = absolute_output_offsets_to_relative (map ao_global_index outs),
                       ki_key_image = ki\<rparr>\<rparr>
               in Inr (length (tb_input_descs b),
                    b\<lparr>tb_inputs_amount := tb_inputs_amount b + ao_amount real_output,
                      tb_input_descs := tb_input_descs b @ [d]\<rparr>))"

section \<open>Signing\<close>

definition get_transaction_inputs_hash :: "crypto_env \<Rightarrow> 'a transaction_prefix_scheme \<Rightarrow> hash" where
  "get_transaction_inputs_hash env tx = cn_fast_hash env (to_binary (enc_vector enc_input) (tx_inputs tx))"

definition deterministic_keys_from_seed :: "wallet_env \<Rightarrow> hash \<Rightarrow> hash \<Rightarrow> public_key \<times> bytes" where
  "deterministic_keys_from_seed wenv tx_inputs_hash tx_derivation_seed =
     (let sec = hash_to_scalar wenv (tx_inputs_hash @ tx_derivation_seed)
      in (secret_key_to_public_key wenv sec, sec))"

text \<open>The loops over the outputs and over the inputs of \<open>sign\<close>.\<close>

fun sign_outputs :: "wallet_env \<Rightarrow> bytes \<Rightarrow> nat \<Rightarrow> output_desc list \<Rightarrow> transaction_output list result" where
  "sign_outputs wenv tx_key i [] = Inr []"
| "sign_outputs wenv tx_key i (d # ds) =
     (case derive_output_key wenv (od_addr d) tx_key i of
        None \<Rightarrow> Inl (Runtime_error ''output keys detected as corrupted during output key derivation'')
      | Some key \<Rightarrow> res_bind (sign_outputs wenv tx_key (i + 1) ds) (\<lambda>outs.
          Inr (\<lparr>to_amount = od_amount d, to_target = KeyOutput key\<rparr> # outs)))"

fun sign_inputs :: "wallet_env \<Rightarrow> hash \<Rightarrow> input_desc list \<Rightarrow> signature list list result" where
  "sign_inputs wenv h [] = Inr []"
| "sign_inputs wenv h (d # ds) =
     (case generate_ring_signature wenv h (ki_key_image (id_input d)) (map ao_public_key (id_outputs d))
            (snd (id_eph_keys d)) (id_real_output_index d) of
        None \<Rightarrow> Inl (Runtime_error ''output keys detected as corrupted during ring signing'')
      | Some sigs \<Rightarrow> res_bind (sign_inputs wenv h ds) (\<lambda>rest. Inr (sigs # rest)))"

text \<open>\<open>sign\<close>; the builder is used up by it.\<close>

definition sign :: "crypto_env \<Rightarrow> wallet_env \<Rightarrow> hash \<Rightarrow> tx_builder \<Rightarrow> transaction result" where
  "sign env wenv tx_derivation_seed b =
     (let output_descs = sort_key od_amount (shuffle_outputs wenv (tb_output_descs b));
          input_descs = sort_key (\<lambda>d. ki_amount (id_input d)) (shuffle_inputs wenv (tb_input_descs b));
          tx = (tb_transaction b)\<lparr>tx_inputs := map (\<lambda>d. KeyInput (id_input d)) input_descs\<rparr>;
          (public_key, secret_key) = deterministic_keys_from_seed wenv (get_transaction_inputs_hash env tx) tx_derivation_seed;
          tx = tx\<lparr>tx_extra := serialize_extra (set_extra_field (Extra_Public_Key public_key) (tb_extra b))\<rparr>
      in res_bind (sign_outputs wenv secret_key 0 output_descs) (\<lambda>outs.
         let tx = tx\<lparr>tx_outputs := outs\<rparr> in
         res_bind (sign_inputs wenv (get_transaction_prefix_hash env tx) input_descs) (\<lambda>sigs.
         Inr (tx\<lparr>tx_signatures := sigs\<rparr>))))"

section \<open>Mixing\<close>

fun pick_outputs :: "amount \<Rightarrow> nat \<Rightarrow> api_output list \<Rightarrow> api_output list \<Rightarrow> (api_output list \<times> api_output list) result" where
  "pick_outputs am 0 mix_outputs our_ra_outputs = Inr (mix_outputs, our_ra_outputs)"
| "pick_outputs am (Suc n) mix_outputs our_ra_outputs =
     (if our_ra_outputs = [] then Inl (Runtime_error (''Not enough anonymity for amount '' @ decimal (unat am)))
      else pick_outputs am n (mix_outputs @ [last our_ra_outputs]) (butlast our_ra_outputs))"

text \<open>\<open>std::unique\<close> by the global index.\<close>

fun unique_outputs :: "api_output list \<Rightarrow> api_output list" where
  "unique_outputs [] = []"
| "unique_outputs (x # xs) =
     (case unique_outputs xs of
        [] \<Rightarrow> [x]
      | y # ys \<Rightarrow> if ao_global_index x = ao_global_index y then x # ys else x # y # ys)"

text \<open>The position of the output whose index is closest to the real one, and the distance.\<close>

definition closer :: "u32 \<Rightarrow> (nat \<times> int) option \<Rightarrow> nat \<times> api_output \<Rightarrow> (nat \<times> int) option" where
  "closer g best = (\<lambda>(i, x). let distance = \<bar>sint g - sint (ao_global_index x)\<bar> in
     case best of None \<Rightarrow> Some (i, distance)
     | Some (_, best_distance) \<Rightarrow> if distance < best_distance then Some (i, distance) else best)"

definition closest :: "u32 \<Rightarrow> api_output list \<Rightarrow> nat option" where
  "closest g xs = map_option fst (foldl (closer g) None (enumerate 0 xs))"

definition mix_for :: "u32 \<Rightarrow> api_output \<Rightarrow> api_output list \<Rightarrow> (api_output list \<times> api_output list) result" where
  "mix_for anonymity uu our_ra_outputs =
     res_bind (pick_outputs (ao_amount uu) (unat (anonymity + 1)) [] our_ra_outputs) (\<lambda>(mix_outputs, our_ra_outputs).
     let mix_outputs = unique_outputs (sort_key ao_global_index mix_outputs) in
     case closest (ao_global_index uu) mix_outputs of
       None \<Rightarrow> Inl (Logic_error '''')
     | Some i \<Rightarrow> Inr (take i mix_outputs @ drop (i + 1) mix_outputs, our_ra_outputs))"

record wallet_record =
  wr_spend_public_key :: public_key
  wr_spend_secret_key :: bytes
  wr_creation_timestamp :: timestamp

fun add_mixed_inputs ::
  "crypto_env \<Rightarrow> wallet_env \<Rightarrow> currency \<Rightarrow> bytes \<Rightarrow> (public_key \<Rightarrow> wallet_record option) \<Rightarrow> u32 \<Rightarrow> api_output list \<Rightarrow>
     (amount, api_output list) omap \<Rightarrow> tx_builder \<Rightarrow> tx_builder result" where
  "add_mixed_inputs env wenv c view_secret_key wallet_records anonymity [] ra_outputs b = Inr b"
| "add_mixed_inputs env wenv c view_secret_key wallet_records anonymity (uu # uus) ra_outputs b =
     res_bind (mix_for anonymity uu (om_get_default [] (ao_amount uu) ra_outputs)) (\<lambda>(mix_outputs, our_ra_outputs).
     case parse_address env c (ao_address uu) of
       None \<Rightarrow> Inl (Runtime_error (''Could not parse address '' @ ao_address uu))
     | Some address \<Rightarrow>
         (case wallet_records (aa_spend_public_key address) of
            None \<Rightarrow> Inl (Runtime_error (''No keys in wallet for address '' @ ao_address uu))
          | Some r \<Rightarrow>
              if wr_spend_public_key r \<noteq> aa_spend_public_key address
              then Inl (Runtime_error (''No keys in wallet for address '' @ ao_address uu))
              else
                let sender_keys = \<lparr>ak_address = address, ak_spend_secret_key = wr_spend_secret_key r,
                      ak_view_secret_key = view_secret_key\<rparr> in
                res_bind (add_input wenv sender_keys uu mix_outputs b) (\<lambda>(_, b).
                add_mixed_inputs env wenv c view_secret_key wallet_records anonymity uus
                  (om_set (ao_amount uu) our_ra_outputs ra_outputs) b)))"

section \<open>From a request to a transaction\<close>

text \<open>
  The sums of the transfers by address; \<open>std::map\<close> orders addresses by view key and spend key.
\<close>

type_synonym outputs_map = "(public_key \<times> public_key, amount) omap"

definition address_key :: "account_public_address \<Rightarrow> public_key \<times> public_key" where
  "address_key a = (aa_view_public_key a, aa_spend_public_key a)"

definition add_amount :: "account_public_address \<Rightarrow> amount \<Rightarrow> outputs_map \<Rightarrow> outputs_map" where
  "add_amount a am m = om_set (address_key a) (om_get_default 0 (address_key a) m + am) m"

fun combine_transfers ::
  "crypto_env \<Rightarrow> currency \<Rightarrow> (amount \<times> string) list \<Rightarrow> outputs_map \<Rightarrow> amount \<Rightarrow> (outputs_map \<times> amount) result" where
  "combine_transfers env c [] combined_outputs sum_positive_transfers = Inr (combined_outputs, sum_positive_transfers)"
| "combine_transfers env c ((am, address) # trs) combined_outputs sum_positive_transfers =
     (if sint am \<le> 0 then Inl (Runtime_error ''Negative transfer amount'')
      else case parse_address env c address of
          None \<Rightarrow> Inl (Runtime_error (''Failed to parse address '' @ address))
        | Some addr \<Rightarrow> combine_transfers env c trs (add_amount addr am combined_outputs) (sum_positive_transfers + am))"

definition split_outputs :: "currency \<Rightarrow> outputs_map \<Rightarrow> (amount \<times> account_public_address) list" where
  "split_outputs c m = concat (map (\<lambda>((view, spend), am).
     map (\<lambda>da. (da, \<lparr>aa_spend_public_key = spend, aa_view_public_key = view\<rparr>)) (decompose_amount am (cy_default_dust_threshold c))) m)"

definition add_outputs :: "(amount \<times> account_public_address) list \<Rightarrow> tx_builder \<Rightarrow> tx_builder" where
  "add_outputs outs b = foldl (\<lambda>b (da, a). snd (add_output da a b)) b outs"

text \<open>
  What remains of a request when it has been checked; the random outputs come from the node.
\<close>

record tx_request =
  tr_unlock_time :: unlock_moment
  tr_payment_id :: hash
  tr_anonymity :: u32
  tr_transfers :: "(amount \<times> string) list"
  tr_change_address :: account_public_address
  tr_confirmed_height :: height
  tr_fee_per_byte :: amount
  tr_optimization :: string
  tr_tip_height :: height
  tr_tip_timestamp :: timestamp
  tr_median_size :: u64

definition finish_transaction ::
  "crypto_env \<Rightarrow> wallet_env \<Rightarrow> currency \<Rightarrow> tx_request \<Rightarrow> (public_key \<Rightarrow> wallet_record option) \<Rightarrow> bytes \<Rightarrow> hash \<Rightarrow>
     (amount list \<Rightarrow> (amount, api_output list) omap) \<Rightarrow> outputs_map \<Rightarrow> amount \<Rightarrow> unspent_selector \<Rightarrow> transaction result" where
  "finish_transaction env wenv c req records view_secret_key seed random_outputs combined_outputs change s =
     (let b = new_builder c (tr_unlock_time req);
          b = (if tr_payment_id req \<noteq> null_hash then set_payment_id (tr_payment_id req) b else b);
          combined_outputs = (if 0 < change then add_amount (tr_change_address req) change combined_outputs else combined_outputs);
          b = add_outputs (split_outputs c combined_outputs) b
      in res_bind (add_mixed_inputs env wenv c view_secret_key records (tr_anonymity req) (us_used_unspents s)
           (random_outputs (us_ra_amounts s)) b) (sign env wenv seed))"

definition make_transaction ::
  "crypto_env \<Rightarrow> wallet_env \<Rightarrow> currency \<Rightarrow> tx_request \<Rightarrow> (public_key \<Rightarrow> wallet_record option) \<Rightarrow> bytes \<Rightarrow> hash \<Rightarrow>
     (amount list \<Rightarrow> (amount, api_output list) omap) \<Rightarrow> api_output list \<Rightarrow> api_output list \<Rightarrow> transaction result option" where
  "make_transaction env wenv c req records view_secret_key seed random_outputs unspents all_unspents =
     (case combine_transfers env c (tr_transfers req) [] 0 of
        Inl e \<Rightarrow> Some (Inl e)
      | Inr (combined_outputs, sum_positive_transfers) \<Rightarrow>
          let total_outputs = word_of_nat (length (split_outputs c combined_outputs));
              optimization = (if tr_unlock_time req = 0 then tr_optimization req else ''minimal'');
              pick = (\<lambda>change us. select_optimal_outputs c (tr_tip_height req) (tr_tip_timestamp req) (tr_confirmed_height req)
                (tr_median_size req) (ucast (tr_anonymity req)) sum_positive_transfers total_outputs (tr_fee_per_byte req)
                optimization change (reset_selector us));
              finish = finish_transaction env wenv c req records view_secret_key seed random_outputs combined_outputs
          in
          if sum_positive_transfers = 0 then Some (Inl (Runtime_error ''Sum of amounts of all outgoing transfers cannot be 0''))
          else Option.bind (pick 0 unspents) (\<lambda>(answer, change, s).
            if answer = '''' then Some (finish change s)
            else Option.bind (pick change all_unspents) (\<lambda>(answer, change, s).
              if answer \<noteq> '''' then Some (Inl (Runtime_error (''Outputs cannot be selected for transaction '' @ answer)))
              else Some (finish change s))))"

section \<open>Rings\<close>

lemma running_sums_differences: "running_sums x (differences x xs) = xs"
  by (induction x xs rule: differences.induct) simp_all

lemma relative_absolute: "global_indexes (absolute_output_offsets_to_relative off) = off"
  by (simp add: absolute_output_offsets_to_relative_def global_indexes_def running_sums_differences split: list.split)

lemma differences_nonzero: "sorted_wrt (<) (x # xs) \<Longrightarrow> 0 \<notin> set (differences x xs)"
  by (induction x xs rule: differences.induct) auto

lemma relative_nonzero: "sorted_wrt (<) off \<Longrightarrow> 0 \<notin> set (tl (absolute_output_offsets_to_relative off))"
  using differences_nonzero by (auto simp: absolute_output_offsets_to_relative_def split: list.split)

lemma unique_outputs_sorted:
  "sorted (map ao_global_index xs) \<Longrightarrow> sorted_wrt (<) (map ao_global_index (unique_outputs xs)) \<and>
    set (unique_outputs xs) \<subseteq> set xs \<and> (xs \<noteq> [] \<longrightarrow> unique_outputs xs \<noteq> [] \<and>
      ao_global_index (hd (unique_outputs xs)) = ao_global_index (hd xs))"
proof (induction xs)
  case (Cons x xs)
  show ?case
  proof (cases "unique_outputs xs")
    case Nil
    then show ?thesis by simp
  next
    case (Cons y ys)
    then have "xs \<noteq> []" by auto
    then have le: "ao_global_index x \<le> ao_global_index y"
      using Cons.prems Cons Cons.IH by (cases xs) auto
    have ih: "\<forall>z \<in> set ys. ao_global_index y < ao_global_index z" "sorted_wrt (<) (map ao_global_index ys)"
      "set (y # ys) \<subseteq> set xs"
      using Cons.IH Cons.prems Cons by auto
    then have "\<forall>z \<in> set ys. ao_global_index x < ao_global_index z" using le by (blast intro: le_less_trans)
    then show ?thesis using le ih Cons by auto
  qed
qed simp

text \<open>The position that is answered has the least distance.\<close>

lemma closer_least:
  "case foldl (closer g) None (enumerate 0 xs) of
     None \<Rightarrow> xs = []
   | Some (i, d) \<Rightarrow> i < length xs \<and> d = \<bar>sint g - sint (ao_global_index (xs ! i))\<bar> \<and>
       (\<forall>x \<in> set xs. d \<le> \<bar>sint g - sint (ao_global_index x)\<bar>)"
proof (induction xs rule: rev_induct)
  case (snoc x xs)
  let ?r = "foldl (closer g) None (enumerate 0 xs)"
  have e: "foldl (closer g) None (enumerate 0 (xs @ [x])) = closer g ?r (length xs, x)"
    by (simp add: enumerate_append_eq)
  show ?case
  proof (cases ?r)
    case None
    then have "xs = []" using snoc by simp
    then show ?thesis unfolding e None by (simp add: closer_def)
  next
    case (Some p)
    obtain i d where p: "p = (i, d)" by (cases p)
    show ?thesis using snoc unfolding e Some p by (auto simp: closer_def Let_def nth_append)
  qed
qed simp

lemma closest_finds:
  assumes "closest g xs = Some i" "distinct (map ao_global_index xs)"
  shows "i < length xs" "\<forall>x \<in> set (take i xs @ drop (i + 1) xs). ao_global_index x \<noteq> g"
proof -
  obtain d where r: "foldl (closer g) None (enumerate 0 xs) = Some (i, d)" using assms(1) by (auto simp: closest_def)
  from closer_least [where g = g and xs = xs] r have least: "i < length xs"
    "\<forall>x \<in> set xs. \<bar>sint g - sint (ao_global_index (xs ! i))\<bar> \<le> \<bar>sint g - sint (ao_global_index x)\<bar>" by auto
  show "i < length xs" by (rule least(1))
  show "\<forall>x \<in> set (take i xs @ drop (i + 1) xs). ao_global_index x \<noteq> g"
  proof
    fix x
    assume x: "x \<in> set (take i xs @ drop (i + 1) xs)"
    then have "x \<in> set xs" by (auto dest: in_set_takeD in_set_dropD)
    show "ao_global_index x \<noteq> g"
    proof
      assume "ao_global_index x = g"
      then have "sint g = sint (ao_global_index (xs ! i))" using least(2) \<open>x \<in> set xs\<close> by fastforce
      then have same: "ao_global_index (xs ! i) = ao_global_index x" using \<open>ao_global_index x = g\<close> by (metis signed_word_eqI)
      have "xs = take i xs @ xs ! i # drop (i + 1) xs" using least(1) by (simp add: id_take_nth_drop)
      then have "distinct (map ao_global_index (take i xs @ xs ! i # drop (i + 1) xs))" using assms(2) by simp
      then have "ao_global_index (xs ! i) \<notin> ao_global_index ` set (take i xs @ drop (i + 1) xs)" by auto
      then show False using x same by auto
    qed
  qed
qed

lemma sorted_wrt_delete: "sorted_wrt P (map f xs) \<Longrightarrow> sorted_wrt P (map f (take i xs @ drop (i + 1) xs))"
proof -
  assume s: "sorted_wrt P (map f xs)"
  have "sorted_wrt P (map f (take i xs @ drop i xs))" using s by simp
  then have "sorted_wrt P (map f (take i xs)) \<and> sorted_wrt P (map f (drop i xs)) \<and>
    (\<forall>x \<in> set (take i xs). \<forall>y \<in> set (drop i xs). P (f x) (f y))"
    by (simp only: map_append sorted_wrt_append) auto
  moreover have "drop (i + 1) xs = tl (drop i xs)" by (simp add: tl_drop drop_Suc)
  ultimately show ?thesis
    by (cases "drop i xs") (auto simp: sorted_wrt_append)
qed

lemma mix_for_ok:
  assumes "mix_for anonymity uu pool = Inr (mix, pool')"
  shows "sorted_wrt (<) (map ao_global_index mix)" "\<forall>x \<in> set mix. ao_global_index x \<noteq> ao_global_index uu"
proof -
  obtain picked where "pick_outputs (ao_amount uu) (unat (anonymity + 1)) [] pool = Inr (picked, pool')"
    and m: "\<exists>i. closest (ao_global_index uu) (unique_outputs (sort_key ao_global_index picked)) = Some i \<and>
      mix = take i (unique_outputs (sort_key ao_global_index picked)) @ drop (i + 1) (unique_outputs (sort_key ao_global_index picked))"
    using assms by (auto simp: mix_for_def res_bind_eq_Inr Let_def split: option.splits)
  let ?u = "unique_outputs (sort_key ao_global_index picked)"
  have s: "sorted_wrt (<) (map ao_global_index ?u)" using unique_outputs_sorted [of "sort_key ao_global_index picked"] by simp
  obtain i where i: "closest (ao_global_index uu) ?u = Some i" "mix = take i ?u @ drop (i + 1) ?u" using m by blast
  show "sorted_wrt (<) (map ao_global_index mix)" unfolding i(2) by (rule sorted_wrt_delete [OF s])
  show "\<forall>x \<in> set mix. ao_global_index x \<noteq> ao_global_index uu"
    unfolding i(2) using closest_finds(2) [OF i(1)] s by (simp add: strict_sorted_iff)
qed

text \<open>An input whose ring has its indexes in order, with the real output at its place.\<close>

definition ring_ok :: "input_desc \<Rightarrow> api_output \<Rightarrow> bool" where
  "ring_ok d u \<longleftrightarrow> sorted_wrt (<) (map ao_global_index (id_outputs d)) \<and> id_real_output_index d < length (id_outputs d)
     \<and> id_outputs d ! id_real_output_index d = u \<and> (\<forall>x \<in> set (id_outputs d). ao_amount x = ao_amount u)
     \<and> id_input d = \<lparr>ki_amount = ao_amount u,
         ki_output_indexes = absolute_output_offsets_to_relative (map ao_global_index (id_outputs d)),
         ki_key_image = ao_key_image u\<rparr>"

lemma insert_sorted_output:
  "sorted_wrt (<) (map ao_global_index mix) \<Longrightarrow> \<forall>x \<in> set mix. ao_global_index x \<noteq> ao_global_index u \<Longrightarrow>
    sorted_wrt (<) (map ao_global_index
      (takeWhile (\<lambda>x. ao_global_index x < ao_global_index u) mix @ u # dropWhile (\<lambda>x. ao_global_index x < ao_global_index u) mix))"
proof (induction mix)
  case (Cons x xs)
  show ?case
  proof (cases "ao_global_index x < ao_global_index u")
    case True
    then show ?thesis using Cons by (auto dest: set_takeWhileD set_dropWhileD)
  next
    case False
    moreover have "ao_global_index x \<noteq> ao_global_index u" using Cons.prems(2) by simp
    ultimately have "ao_global_index u < ao_global_index x" by (simp add: not_less le_less)
    then show ?thesis using Cons.prems(1) by (auto intro: less_trans)
  qed
qed simp

lemma add_input_ok:
  assumes "sorted_wrt (<) (map ao_global_index mix)" "\<forall>x \<in> set mix. ao_global_index x \<noteq> ao_global_index u"
    and "add_input wenv keys u mix b = Inr (i, b')"
  obtains d where "b' = b\<lparr>tb_inputs_amount := tb_inputs_amount b + ao_amount u, tb_input_descs := tb_input_descs b @ [d]\<rparr>" "ring_ok d u"
proof -
  let ?P = "\<lambda>x. ao_global_index x < ao_global_index u"
  have s: "sort_key ao_global_index mix = mix"
    using assms(1) by (intro sort_key_id_if_sorted) (simp add: strict_sorted_iff)
  have t: "take (length (takeWhile ?P mix)) mix = takeWhile ?P mix" "drop (length (takeWhile ?P mix)) mix = dropWhile ?P mix"
    by (simp_all flip: takeWhile_eq_take dropWhile_eq_drop)
  let ?outs = "takeWhile ?P mix @ u # dropWhile ?P mix"
  obtain eph where g: "generate_key_image_helper wenv keys (ao_transaction_public_key u) (unat (ao_index_in_transaction u)) =
      Some (eph, ao_key_image u)" "\<forall>x \<in> set ?outs. ao_amount x = ao_amount u"
    using assms(3) unfolding add_input_def s Let_def t by (auto split: option.splits if_splits)
  have "add_input wenv keys u mix b = Inr (length (tb_input_descs b),
      b\<lparr>tb_inputs_amount := tb_inputs_amount b + ao_amount u, tb_input_descs := tb_input_descs b @
        [\<lparr>id_outputs = ?outs, id_real_output_index = length (takeWhile ?P mix), id_eph_keys = eph,
          id_input = \<lparr>ki_amount = ao_amount u, ki_output_indexes = absolute_output_offsets_to_relative (map ao_global_index ?outs),
            ki_key_image = ao_key_image u\<rparr>\<rparr>]\<rparr>)"
    unfolding add_input_def s Let_def t g(1) using g(2) by simp
  then have b': "b' = b\<lparr>tb_inputs_amount := tb_inputs_amount b + ao_amount u, tb_input_descs := tb_input_descs b @
        [\<lparr>id_outputs = ?outs, id_real_output_index = length (takeWhile ?P mix), id_eph_keys = eph,
          id_input = \<lparr>ki_amount = ao_amount u, ki_output_indexes = absolute_output_offsets_to_relative (map ao_global_index ?outs),
            ki_key_image = ao_key_image u\<rparr>\<rparr>]\<rparr>"
    using assms(3) by simp
  show thesis
    by (rule that [OF b']) (use insert_sorted_output [OF assms(1,2)] g(2) in \<open>simp add: ring_ok_def nth_append\<close>)
qed

lemma add_mixed_inputs_ok:
  assumes "add_mixed_inputs env wenv c vsk recs anonymity coins ra b = Inr b'"
  obtains ds where "tb_input_descs b' = tb_input_descs b @ ds" "list_all2 ring_ok ds coins"
    "tb_transaction b' = tb_transaction b" "tb_output_descs b' = tb_output_descs b" "tb_extra b' = tb_extra b"
  using assms
proof (induction coins arbitrary: ra b thesis)
  case (Cons u us)
  obtain mix pool where m: "mix_for anonymity u (om_get_default [] (ao_amount u) ra) = Inr (mix, pool)"
    using Cons.prems(2) by (auto simp: res_bind_eq_Inr)
  obtain address r where a: "parse_address env c (ao_address u) = Some address"
    "recs (aa_spend_public_key address) = Some r" "wr_spend_public_key r = aa_spend_public_key address"
    using Cons.prems(2) by (auto simp: m split: option.splits if_splits)
  obtain i b1 where i: "add_input wenv \<lparr>ak_address = address, ak_spend_secret_key = wr_spend_secret_key r,
      ak_view_secret_key = vsk\<rparr> u mix b = Inr (i, b1)"
    and rest: "add_mixed_inputs env wenv c vsk recs anonymity us (om_set (ao_amount u) pool ra) b1 = Inr b'"
    using Cons.prems(2) by (auto simp: m a res_bind_eq_Inr Let_def)
  obtain d where d: "b1 = b\<lparr>tb_inputs_amount := tb_inputs_amount b + ao_amount u, tb_input_descs := tb_input_descs b @ [d]\<rparr>"
    "ring_ok d u"
    by (rule add_input_ok [OF mix_for_ok [OF m] i])
  obtain ds where "tb_input_descs b' = tb_input_descs b1 @ ds" "list_all2 ring_ok ds us"
    "tb_transaction b' = tb_transaction b1" "tb_output_descs b' = tb_output_descs b1" "tb_extra b' = tb_extra b1"
    by (rule Cons.IH [OF _ rest])
  then show ?case using d by (intro Cons.prems(1) [of "d # ds"]) simp_all
qed simp

lemma ring_ok_parts:
  assumes "ring_ok d u"
  shows "ki_amount (id_input d) = ao_amount u" "ki_key_image (id_input d) = ao_key_image u"
    "ki_output_indexes (id_input d) = absolute_output_offsets_to_relative (map ao_global_index (id_outputs d))"
    "sorted_wrt (<) (map ao_global_index (id_outputs d))" "id_outputs d \<noteq> []"
proof -
  have i: "id_input d = \<lparr>ki_amount = ao_amount u,
      ki_output_indexes = absolute_output_offsets_to_relative (map ao_global_index (id_outputs d)), ki_key_image = ao_key_image u\<rparr>"
    and l: "id_real_output_index d < length (id_outputs d)"
    and s: "sorted_wrt (<) (map ao_global_index (id_outputs d))"
    using assms unfolding ring_ok_def by blast+
  show "sorted_wrt (<) (map ao_global_index (id_outputs d))" by (rule s)
  show "ki_amount (id_input d) = ao_amount u" "ki_key_image (id_input d) = ao_key_image u"
    "ki_output_indexes (id_input d) = absolute_output_offsets_to_relative (map ao_global_index (id_outputs d))"
    by (simp_all only: i key_input.simps)
  show "id_outputs d \<noteq> []" using l by (cases "id_outputs d") simp_all
qed

section \<open>The signed transaction\<close>

lemma sign_outputs_ok:
  "sign_outputs wenv key i ds = Inr outs \<Longrightarrow> map to_amount outs = map od_amount ds \<and>
    (\<forall>out \<in> set outs. \<exists>d s n k. derive_public_key wenv d n s = Some k \<and> to_target out = KeyOutput k)"
proof (induction wenv key i ds arbitrary: outs rule: sign_outputs.induct)
  case (2 wenv key i d ds)
  then show ?case
    by (auto simp: res_bind_eq_Inr derive_output_key_def split: option.splits) blast+
qed simp

lemma sign_inputs_ok:
  "sign_inputs wenv h ds = Inr sigs \<Longrightarrow> list_all2 (\<lambda>d s. generate_ring_signature wenv h (ki_key_image (id_input d))
     (map ao_public_key (id_outputs d)) (snd (id_eph_keys d)) (id_real_output_index d) = Some s) ds sigs"
  by (induction wenv h ds arbitrary: sigs rule: sign_inputs.induct) (auto simp: res_bind_eq_Inr split: option.splits)

lemma validate_outputs_pass:
  "unat s + (\<Sum>out\<leftarrow>outs. unat (to_amount out)) < 2 ^ 64 \<Longrightarrow> \<forall>out \<in> set outs. to_amount out \<noteq> 0 \<Longrightarrow>
    \<forall>out \<in> set outs. \<exists>k. to_target out = KeyOutput k \<and> key_isvalid env k \<Longrightarrow>
    \<exists>t. validate_outputs env ck outs s = Inr t \<and> unat t = unat s + (\<Sum>out\<leftarrow>outs. unat (to_amount out))"
proof (induction outs arbitrary: s)
  case (Cons out outs)
  obtain k where k: "to_target out = KeyOutput k" "key_isvalid env k" using Cons.prems(3) by auto
  have b: "unat s + unat (to_amount out) < 2 ^ 64" using Cons.prems(1) by simp
  then have "unat (s + to_amount out) = unat s + unat (to_amount out)" by (simp add: unat_word_ariths)
  then show ?case using Cons.IH [of "s + to_amount out"] Cons.prems k b by (auto simp: no_overflow)
qed simp

lemma validate_inputs_pass:
  "unat s + (\<Sum>k\<leftarrow>ks. unat (ki_amount k)) < 2 ^ 64 \<Longrightarrow> distinct (map ki_key_image ks) \<Longrightarrow>
    set seen \<inter> ki_key_image ` set ks = {} \<Longrightarrow>
    \<forall>k \<in> set ks. ki_output_indexes k \<noteq> [] \<and> 0 \<notin> set (tl (ki_output_indexes k)) \<Longrightarrow>
    \<exists>t. validate_inputs False (map KeyInput ks) seen s = Inr t \<and> unat t = unat s + (\<Sum>k\<leftarrow>ks. unat (ki_amount k))"
proof (induction ks arbitrary: s seen)
  case (Cons k ks)
  have b: "unat s + unat (ki_amount k) < 2 ^ 64" using Cons.prems(1) by simp
  then have "unat (s + ki_amount k) = unat s + unat (ki_amount k)" by (simp add: unat_word_ariths)
  then show ?case using Cons.IH [of "s + ki_amount k" "ki_key_image k # seen"] Cons.prems b by (auto simp: no_overflow)
qed simp

lemma mset_sum_list: "mset xs = mset ys \<Longrightarrow> (\<Sum>x\<leftarrow>xs. f x) = (\<Sum>x\<leftarrow>ys. (f x :: nat))"
  by (metis mset_map sum_mset_sum_list)

lemma list_all2_ring:
  "list_all2 ring_ok ds us \<Longrightarrow> map (\<lambda>d. ki_amount (id_input d)) ds = map ao_amount us \<and>
    map (\<lambda>d. ki_key_image (id_input d)) ds = map ao_key_image us \<and> (\<forall>d \<in> set ds. \<exists>u \<in> set us. ring_ok d u)"
  by (induction ds us rule: list_all2_induct) (auto simp: ring_ok_parts)

lemma ring_ok_input:
  assumes "ring_ok d u"
  shows "ki_output_indexes (id_input d) \<noteq> []" "0 \<notin> set (tl (ki_output_indexes (id_input d)))"
    "global_indexes (ki_output_indexes (id_input d)) = map ao_global_index (id_outputs d)"
proof -
  note p = ring_ok_parts [OF assms]
  show "global_indexes (ki_output_indexes (id_input d)) = map ao_global_index (id_outputs d)"
    unfolding p(3) by (rule relative_absolute)
  show "ki_output_indexes (id_input d) \<noteq> []"
    unfolding p(3) using p(5) by (cases "id_outputs d") (simp_all add: absolute_output_offsets_to_relative_def)
  show "0 \<notin> set (tl (ki_output_indexes (id_input d)))"
    unfolding p(3) by (rule relative_nonzero [OF p(4)])
qed

lemma prefix_hash_signatures:
  "get_transaction_prefix_hash env (t\<lparr>tx_signatures := s\<rparr>) = get_transaction_prefix_hash env t"
  by (simp add: get_transaction_prefix_hash_def to_binary_def enc_prefix_def)

lemma signed_ok:
  assumes "add_mixed_inputs env wenv c vsk recs anonymity us ra b = Inr b'" and sg: "sign env wenv seed b' = Inr tx"
    and "tb_input_descs b = []" and us: "us \<noteq> []" "distinct (map ao_key_image us)" "funds (mset us) < 2 ^ 64"
    and sh: "\<And>ds. mset (shuffle_outputs wenv ds) = mset ds" "\<And>ds. mset (shuffle_inputs wenv ds) = mset ds"
    and valid: "\<And>d n s k. derive_public_key wenv d n s = Some k \<Longrightarrow> key_isvalid env k"
    and outs: "\<forall>d \<in> set (tb_output_descs b). od_amount d \<noteq> 0" "(\<Sum>d\<leftarrow>tb_output_descs b. unat (od_amount d)) \<le> funds (mset us)"
  shows "\<exists>fee. validate_semantic env False tx True = Inr fee \<and> unat fee + (\<Sum>d\<leftarrow>tb_output_descs b. unat (od_amount d)) = funds (mset us)
    \<and> length (tx_inputs tx) = length us
    \<and> (\<Sum>out\<leftarrow>tx_outputs tx. unat (to_amount out)) = (\<Sum>d\<leftarrow>tb_output_descs b. unat (od_amount d))
    \<and> (\<forall>i < length us. \<exists>d u. u \<in> set us \<and> ring_ok d u \<and> tx_inputs tx ! i = KeyInput (id_input d)
        \<and> generate_ring_signature wenv (get_transaction_prefix_hash env tx) (ki_key_image (id_input d))
            (map ao_public_key (id_outputs d)) (snd (id_eph_keys d)) (id_real_output_index d) = Some (tx_signatures tx ! i))"
proof -
  obtain ds where ds: "tb_input_descs b' = ds" "list_all2 ring_ok ds us" "tb_output_descs b' = tb_output_descs b"
    using add_mixed_inputs_ok [OF assms(1)] assms(3) by (metis append_Nil)
  define ids where "ids = sort_key (\<lambda>d. ki_amount (id_input d)) (shuffle_inputs wenv ds)"
  define ods where "ods = sort_key od_amount (shuffle_outputs wenv (tb_output_descs b))"
  have mi: "mset ids = mset ds" by (simp add: ids_def sh)
  have mo: "mset ods = mset (tb_output_descs b)" by (simp add: ods_def sh)
  obtain key outs' sigs h where tx: "tx_inputs tx = map (\<lambda>d. KeyInput (id_input d)) ids" "tx_outputs tx = outs'" "tx_signatures tx = sigs"
    and so: "sign_outputs wenv key 0 ods = Inr outs'"
    and si: "sign_inputs wenv (get_transaction_prefix_hash env tx) ids = Inr sigs"
    using sg by (auto simp: sign_def Let_def res_bind_eq_Inr ds(1,3) ids_def [symmetric] ods_def [symmetric]
        prefix_hash_signatures split: prod.splits)
  note ring = list_all2_ring [OF ds(2)]
  have rings: "\<exists>u \<in> set us. ring_ok d u" if "d \<in> set ids" for d
    using ring that mset_eq_setD [OF mi] by blast
  let ?ks = "map id_input ids"
  have ins: "tx_inputs tx = map KeyInput ?ks" by (simp add: tx)
  have am: "(\<Sum>k\<leftarrow>?ks. unat (ki_amount k)) = funds (mset us)"
  proof -
    have "(\<Sum>k\<leftarrow>?ks. unat (ki_amount k)) = (\<Sum>a\<leftarrow>map (\<lambda>d. ki_amount (id_input d)) ds. unat a)"
      using mset_sum_list [OF mi, of "\<lambda>d. unat (ki_amount (id_input d))"] by (simp add: o_def)
    then show ?thesis using ring by (simp add: funds_list o_def)
  qed
  have di: "distinct (map ki_key_image ?ks)"
  proof -
    have "mset (map (\<lambda>d. ki_key_image (id_input d)) ids) = mset (map (\<lambda>d. ki_key_image (id_input d)) ds)"
      by (metis mi mset_map)
    then have "mset (map ki_key_image ?ks) = mset (map ao_key_image us)" using ring by (simp add: o_def)
    then show ?thesis using us(2) mset_eq_imp_distinct_iff by blast
  qed
  have "\<forall>k \<in> set ?ks. ki_output_indexes k \<noteq> [] \<and> 0 \<notin> set (tl (ki_output_indexes k))"
    using rings ring_ok_input by fastforce
  then obtain ti where ti: "validate_inputs False (tx_inputs tx) [] 0 = Inr ti" "unat ti = funds (mset us)"
    using validate_inputs_pass [of 0 ?ks "[]"] am di us(3) unfolding ins by auto
  note ok = sign_outputs_ok [OF so]
  have os: "(\<Sum>out\<leftarrow>outs'. unat (to_amount out)) = (\<Sum>d\<leftarrow>tb_output_descs b. unat (od_amount d))"
  proof -
    have "(\<Sum>out\<leftarrow>outs'. unat (to_amount out)) = (\<Sum>a\<leftarrow>map od_amount ods. unat a)" using ok by (metis (no_types) list.map_comp o_def map_eq_conv)
    then show ?thesis using mset_sum_list [OF mo, of "\<lambda>d. unat (od_amount d)"] by (simp add: o_def)
  qed
  have "to_amount ` set outs' = od_amount ` set (tb_output_descs b)"
    using ok mset_eq_setD [OF mo] by (metis list.set_map)
  then have "\<forall>out \<in> set outs'. to_amount out \<noteq> 0" using outs(1) by (metis imageE imageI)
  then obtain t where t: "validate_outputs env True outs' 0 = Inr t" "unat t = (\<Sum>d\<leftarrow>tb_output_descs b. unat (od_amount d))"
    using validate_outputs_pass [of 0 outs' env True] ok valid outs(2) us(3) os by fastforce
  have len: "length ids = length us" using mi ds(2) by (metis list_all2_lengthD size_mset)
  have sl: "length sigs = length ids" using sign_inputs_ok [OF si] by (simp add: list_all2_lengthD)
  have le: "t \<le> ti" using t(2) ti(2) outs(2) by (simp add: word_le_nat_alt)
  have "validate_semantic env False tx True = Inr (ti - t)"
    using t ti us(1) len sl leD [OF le] by (auto simp: validate_semantic_def tx ins)
  moreover have "unat (ti - t) + (\<Sum>d\<leftarrow>tb_output_descs b. unat (od_amount d)) = funds (mset us)"
    using t(2) ti(2) outs(2) by (simp add: unat_sub [OF le])
  moreover have "\<forall>i < length us. \<exists>d u. u \<in> set us \<and> ring_ok d u \<and> tx_inputs tx ! i = KeyInput (id_input d)
        \<and> generate_ring_signature wenv (get_transaction_prefix_hash env tx) (ki_key_image (id_input d))
            (map ao_public_key (id_outputs d)) (snd (id_eph_keys d)) (id_real_output_index d) = Some (tx_signatures tx ! i)"
  proof (intro allI impI)
    fix i
    assume i: "i < length us"
    obtain u where u: "u \<in> set us" "ring_ok (ids ! i) u" using rings [of "ids ! i"] i len by auto
    have "generate_ring_signature wenv (get_transaction_prefix_hash env tx) (ki_key_image (id_input (ids ! i)))
            (map ao_public_key (id_outputs (ids ! i))) (snd (id_eph_keys (ids ! i))) (id_real_output_index (ids ! i)) = Some (tx_signatures tx ! i)"
      using sign_inputs_ok [OF si] i len by (simp add: list_all2_conv_all_nth tx)
    then show "\<exists>d u. u \<in> set us \<and> ring_ok d u \<and> tx_inputs tx ! i = KeyInput (id_input d)
        \<and> generate_ring_signature wenv (get_transaction_prefix_hash env tx) (ki_key_image (id_input d))
            (map ao_public_key (id_outputs d)) (snd (id_eph_keys d)) (id_real_output_index d) = Some (tx_signatures tx ! i)"
      using u i len by (intro exI [of _ "ids ! i"] exI [of _ u]) (simp add: tx)
  qed
  ultimately show ?thesis using len os by (intro exI [of _ "ti - t"]) (simp add: tx)
qed

section \<open>A transaction the wallet makes\<close>

lemma om_sum_add_amount:
  assumes "om_wf m" "om_sum unat m + unat am < 2 ^ 64"
  shows "om_wf (add_amount a am m)" "om_sum unat (add_amount a am m) = om_sum unat m + unat am"
proof -
  let ?old = "om_get_default 0 (address_key a) m"
  have old: "om_sum unat m = unat ?old + om_sum unat (om_erase (address_key a) m)"
    using om_sum_push [OF assms(1), of unat 0] by simp
  then have "unat (?old + am) = unat ?old + unat am" using assms(2) by (simp add: unat_word_ariths)
  then show "om_sum unat (add_amount a am m) = om_sum unat m + unat am"
    using old assms(1) by (simp add: add_amount_def om_sum_set)
  show "om_wf (add_amount a am m)" using assms(1) by (simp add: add_amount_def)
qed

lemma combine_transfers_ok:
  "combine_transfers env c trs m s = Inr (m', s') \<Longrightarrow> om_wf m \<Longrightarrow> om_sum unat m = unat s \<Longrightarrow>
    unat s + (\<Sum>(am, a)\<leftarrow>trs. unat am) < 2 ^ 64 \<Longrightarrow>
    om_wf m' \<and> om_sum unat m' = unat s' \<and> unat s' = unat s + (\<Sum>(am, a)\<leftarrow>trs. unat am)"
proof (induction env c trs m s rule: combine_transfers.induct)
  case (2 env c am address trs m s)
  then obtain addr where a: "\<not> sint am \<le> 0" "parse_address env c address = Some addr"
    "combine_transfers env c trs (add_amount addr am m) (s + am) = Inr (m', s')"
    by (auto split: if_splits option.splits)
  have b: "unat s + unat am < 2 ^ 64" using 2(5) by simp
  then have "unat (s + am) = unat s + unat am" by (simp add: unat_word_ariths)
  then show ?case using 2(1) [OF a] om_sum_add_amount [OF 2(3), of am addr] 2(4,5) b by simp
qed simp

lemma split_outputs_ok:
  "(\<Sum>(da, a)\<leftarrow>split_outputs c m. unat da) = om_sum unat m" "\<forall>(da, a) \<in> set (split_outputs c m). da \<noteq> 0"
proof -
  have d: "(\<Sum>x\<leftarrow>decompose_amount am t. unat x) = unat am" "0 \<notin> set (decompose_amount am t)" for am t
    using decompose_amount_sum by blast+
  show "(\<Sum>(da, a)\<leftarrow>split_outputs c m. unat da) = om_sum unat m"
    by (induction m) (auto simp: split_outputs_def o_def d(1))
  show "\<forall>(da, a) \<in> set (split_outputs c m). da \<noteq> 0"
    using d(2) by (auto simp: split_outputs_def)
qed

lemma add_outputs_ok:
  "tb_output_descs (add_outputs outs b) = tb_output_descs b @ map (\<lambda>(da, a). \<lparr>od_amount = da, od_addr = a\<rparr>) outs
    \<and> tb_input_descs (add_outputs outs b) = tb_input_descs b"
  by (induction outs arbitrary: b) (auto simp: add_outputs_def add_output_def)

definition ring_signed :: "crypto_env \<Rightarrow> wallet_env \<Rightarrow> transaction \<Rightarrow> nat \<Rightarrow> bool" where
  "ring_signed env wenv tx i \<longleftrightarrow> (\<exists>k (ring :: api_output list) j secret. tx_inputs tx ! i = KeyInput k
     \<and> global_indexes (ki_output_indexes k) = map ao_global_index ring \<and> distinct (map ao_global_index ring)
     \<and> (\<forall>x \<in> set ring. ao_amount x = ki_amount k) \<and> j < length ring \<and> ao_key_image (ring ! j) = ki_key_image k
     \<and> generate_ring_signature wenv (get_transaction_prefix_hash env tx) (ki_key_image k) (map ao_public_key ring) secret j =
         Some (tx_signatures tx ! i))"

lemma ring_ok_signed:
  assumes "ring_ok d u" "tx_inputs tx ! i = KeyInput (id_input d)"
    and "generate_ring_signature wenv (get_transaction_prefix_hash env tx) (ki_key_image (id_input d))
      (map ao_public_key (id_outputs d)) (snd (id_eph_keys d)) (id_real_output_index d) = Some (tx_signatures tx ! i)"
  shows "ring_signed env wenv tx i"
proof -
  note p = ring_ok_parts [OF assms(1)] ring_ok_input [OF assms(1)]
  have q: "id_real_output_index d < length (id_outputs d)" "id_outputs d ! id_real_output_index d = u"
    "\<forall>x \<in> set (id_outputs d). ao_amount x = ao_amount u"
    using assms(1) unfolding ring_ok_def by blast+
  show ?thesis
    unfolding ring_signed_def
    by (intro exI [of _ "id_input d"] exI [of _ "id_outputs d"] exI [of _ "id_real_output_index d"] exI [of _ "snd (id_eph_keys d)"] conjI)
      (use assms(2,3) p q in \<open>simp_all add: strict_sorted_iff\<close>)
qed

text \<open>Keys and random choices of the wallet.\<close>

definition sound_wallet :: "crypto_env \<Rightarrow> wallet_env \<Rightarrow> bool" where
  "sound_wallet env wenv \<longleftrightarrow> (\<forall>ds. mset (shuffle_outputs wenv ds) = mset ds) \<and> (\<forall>ds. mset (shuffle_inputs wenv ds) = mset ds)
     \<and> (\<forall>d n s k. derive_public_key wenv d n s = Some k \<longrightarrow> key_isvalid env k)"

definition wallet_coins :: "api_output list \<Rightarrow> bool" where
  "wallet_coins us \<longleftrightarrow> (\<forall>u \<in> set us. ao_dust u \<longleftrightarrow> is_dust (ao_amount u)) \<and> distinct (map ao_key_image us)
     \<and> (\<Sum>u\<leftarrow>us. unat (ao_amount u)) < 2 ^ 64"

lemma usable_subset: "usable mixed A \<subseteq># A"
  by (simp add: usable_def)

lemma distinct_sub:
  assumes "mset us \<subseteq># mset vs" "distinct (map f vs)"
  shows "distinct (map f us)"
proof -
  obtain ws where "mset vs = mset (us @ ws)" using assms(1) by (metis ex_mset mset_append subset_mset.le_iff_add)
  then have "mset (map f vs) = mset (map f (us @ ws))" by (metis mset_map)
  then have "distinct (map f (us @ ws))" using assms(2) mset_eq_imp_distinct_iff by blast
  then show ?thesis by simp
qed

lemma finish_transaction_ok:
  assumes "finish_transaction env wenv c req recs vsk seed ra m change s = Inr tx" and m: "om_wf m" "om_sum unat m = unat total_amount" "total_amount \<noteq> 0"
    and paid: "paid_for c (mset (filter P us)) max_size (ucast (tr_anonymity req)) total_amount n rate fee change s"
    and coins: "wallet_coins us" and sound: "sound_wallet env wenv"
  shows "\<exists>fee'. validate_semantic env False tx True = Inr fee' \<and> fee \<le> fee' \<and>
    unat rate * unat (get_maximum_tx_size (word_of_nat (length (tx_inputs tx))) (n + 8) (ucast (tr_anonymity req))) \<le> unat fee' \<and>
    (\<Sum>out\<leftarrow>tx_outputs tx. unat (to_amount out)) = unat total_amount + unat change \<and> (\<forall>i < length (tx_inputs tx). ring_signed env wenv tx i)"
proof -
  let ?us = "us_used_unspents s"
  obtain paid_fee where sub: "mset ?us \<subseteq># mset us" and f: "funds (mset ?us) = unat total_amount + paid_fee + unat change" "unat fee \<le> paid_fee"
    "unat rate * unat (get_maximum_tx_size (word_of_nat (length ?us)) (n + 8) (ucast (tr_anonymity req))) \<le> paid_fee"
  proof -
    have "mset ?us \<subseteq># mset (filter P us)"
      using paid usable_subset subset_mset.order_trans unfolding paid_for_def Let_def by blast
    moreover have "mset (filter P us) \<subseteq># mset us" by simp
    ultimately show thesis using that paid subset_mset.order_trans unfolding paid_for_def Let_def by blast
  qed
  have le: "funds (mset ?us) \<le> funds (mset us)" using sub by (metis funds_union le_add1 subset_mset.le_iff_add)
  then have small: "funds (mset ?us) < 2 ^ 64" using coins by (simp add: wallet_coins_def funds_list)
  define m' where "m' = (if 0 < change then add_amount (tr_change_address req) change m else m)"
  have sum: "om_sum unat m' = unat total_amount + unat change"
    using om_sum_add_amount [OF m(1), of change "tr_change_address req"] f(1) small m(2)
    by (cases "0 < change") (auto simp: m'_def word_neq_0_conv [symmetric])
  define b0 where "b0 = new_builder c (tr_unlock_time req)"
  define b1 where "b1 = (if tr_payment_id req \<noteq> null_hash then set_payment_id (tr_payment_id req) b0 else b0)"
  define b where "b = add_outputs (split_outputs c m') b1"
  have b1: "tb_output_descs b1 = []" "tb_input_descs b1 = []"
    by (simp_all add: b1_def b0_def new_builder_def set_payment_id_def set_extra_nonce_def Let_def)
  have descs: "tb_output_descs b = map (\<lambda>(da, a). \<lparr>od_amount = da, od_addr = a\<rparr>) (split_outputs c m')" "tb_input_descs b = []"
    using add_outputs_ok [of "split_outputs c m'" b1] b1 by (simp_all add: b_def)
  obtain b' where am: "add_mixed_inputs env wenv c vsk recs (tr_anonymity req) ?us (ra (us_ra_amounts s)) b = Inr b'"
    and sg: "sign env wenv seed b' = Inr tx"
    using assms(1)
    unfolding finish_transaction_def Let_def b0_def [symmetric] b1_def [symmetric] m'_def [symmetric] b_def [symmetric]
    by (auto simp: res_bind_eq_Inr)
  have ne: "?us \<noteq> []" using f(1) m(3) by (auto simp: funds_def unat_eq_0)
  have di: "distinct (map ao_key_image ?us)" using distinct_sub [OF sub, of ao_key_image] coins by (simp add: wallet_coins_def)
  have out: "(\<Sum>d\<leftarrow>tb_output_descs b. unat (od_amount d)) = unat total_amount + unat change"
    using split_outputs_ok(1) [of c m'] sum by (simp add: descs o_def case_prod_beta')
  have nz: "\<forall>d \<in> set (tb_output_descs b). od_amount d \<noteq> 0"
    using split_outputs_ok(2) [of c m'] by (auto simp: descs)
  have "\<exists>fee'. validate_semantic env False tx True = Inr fee' \<and> unat fee' + (unat total_amount + unat change) = funds (mset ?us)
    \<and> length (tx_inputs tx) = length ?us \<and> (\<Sum>out\<leftarrow>tx_outputs tx. unat (to_amount out)) = unat total_amount + unat change
    \<and> (\<forall>i < length ?us. \<exists>d u. u \<in> set ?us \<and> ring_ok d u \<and> tx_inputs tx ! i = KeyInput (id_input d)
        \<and> generate_ring_signature wenv (get_transaction_prefix_hash env tx) (ki_key_image (id_input d))
            (map ao_public_key (id_outputs d)) (snd (id_eph_keys d)) (id_real_output_index d) = Some (tx_signatures tx ! i))"
    using signed_ok [OF am sg descs(2) ne di small _ _ _ nz] sound f(1) unfolding out sound_wallet_def by simp
  then obtain fee' where v: "validate_semantic env False tx True = Inr fee'" "unat fee' + (unat total_amount + unat change) = funds (mset ?us)"
    "length (tx_inputs tx) = length ?us" "(\<Sum>out\<leftarrow>tx_outputs tx. unat (to_amount out)) = unat total_amount + unat change"
    and r: "\<forall>i < length ?us. \<exists>d u. u \<in> set ?us \<and> ring_ok d u \<and> tx_inputs tx ! i = KeyInput (id_input d)
        \<and> generate_ring_signature wenv (get_transaction_prefix_hash env tx) (ki_key_image (id_input d))
            (map ao_public_key (id_outputs d)) (snd (id_eph_keys d)) (id_real_output_index d) = Some (tx_signatures tx ! i)"
    by blast
  have "\<forall>i < length (tx_inputs tx). ring_signed env wenv tx i" using r v(3) ring_ok_signed by metis
  then have "fee \<le> fee' \<and> unat rate * unat (get_maximum_tx_size (word_of_nat (length (tx_inputs tx))) (n + 8) (ucast (tr_anonymity req))) \<le> unat fee'
    \<and> (\<forall>i < length (tx_inputs tx). ring_signed env wenv tx i)"
    using f v(2,3) by (simp add: word_le_nat_alt)
  then show ?thesis using v(1,4) by blast
qed


section \<open>A sample wallet\<close>

definition sample_unspent :: api_output where
  "sample_unspent = \<lparr>ao_amount = 20000000, ao_public_key = replicate 32 1, ao_global_index = 0, ao_unlock_time = 0,
     ao_index_in_transaction = 0, ao_height = 5, ao_key_image = replicate 32 3, ao_transaction_public_key = replicate 32 4, 
     ao_address = account_address_as_string sample_env sample_currency sample_address,
     ao_dust = False\<rparr>"

definition sample_picked :: unspent_selector where
 "sample_picked = (reset_selector [sample_unspent])\<lparr>us_used_unspents := [sample_unspent], us_used_total := 20000000, us_inputs_count := 1, us_ra_amounts := [20000000]\<rparr>"

lemma sample_unspent_facts: "ao_amount sample_unspent = 20000000" "ao_unlock_time sample_unspent = 0" "ao_height sample_unspent = 5" "\<not> ao_dust sample_unspent"
  by (simp_all add: sample_unspent_def)

lemma sample_unlocked: "is_transaction_spend_time_unlocked sample_currency 0 100 0" by code_simp

lemma sample_selected: "select_optimal_outputs sample_currency 100 0 50 100000 0 19000000 2 0 ''normal'' 0
       (reset_selector [sample_unspent]) = Some ('''', 0, sample_picked)"
proof -
  have c: "create_have_coins sample_currency 100 0 50 (reset_selector [sample_unspent]) = ((reset_selector [sample_unspent])\<lparr>us_have_coins := [(7, [(2, [sample_unspent])])]\<rparr>, 7)"
    by (simp add: create_have_coins_def reset_selector_def create_have_coin_def sample_unspent_facts sample_coin_clean push_coin_def leading_digit.simps sample_unlocked om_get_default_def)
  have cs: "cy_default_dust_threshold sample_currency = 1000000" "cy_minimum_fee sample_currency = 1000000"
    by (simp_all add: sample_currency_def make_currency_def)
  have o: "select_outputs 7 20000000 0 50 ((reset_selector [sample_unspent])\<lparr>us_have_coins := [(7, [(2, [sample_unspent])])]\<rparr>) =
    Some (True, (use_coin sample_unspent (reset_selector [sample_unspent])))"
  proof -
    let ?s = "(reset_selector [sample_unspent])\<lparr>us_have_coins := [(7, [(2, [sample_unspent])])]\<rparr>"
    have 1: "large_dust 20000000 ?s = Some ?s" "dust_optimization 50 20000000 ?s = Some (50, ?s)" "stack_optimization 50 ?s = Some ?s"
      by (simp_all add: large_dust_def reset_selector_def om_from_def dust_optimization.simps stack_optimization.simps best_stack_def
        stacks_of_def better_stack_def STACK_OPTIMIZATION_THRESHOLD_def)
    have 2: "optimize_digits n d da 20000000 ?s = optimize_digits (n - 1) (d + 1) (da * 10) 20000000 ?s" if "0 < n" "d < 7" "da \<noteq> 0" for n d da
      using that by (cases n) (simp_all add: reset_selector_def om_find_Cons)
    have "optimize_amounts 7 20000000 ?s = optimize_digits 1 7 10000000 20000000 ?s"
      by (simp add: optimize_amounts_def 2 del: optimize_digits.simps) (simp only: numeral_nat)
    also have "\<dots> = Some (use_coin sample_unspent (reset_selector [sample_unspent]))"
      by (simp add: fake_large_def best_two_def better_pair_def TWO_THRESHOLD_def take_coin_def use_coin_def sample_unspent_facts reset_selector_def om_find_Cons)
    finally have 3: "optimize_amounts 7 20000000 ?s = Some (use_coin sample_unspent (reset_selector [sample_unspent]))" .
    have "us_used_total (use_coin sample_unspent (reset_selector [sample_unspent])) = 20000000" by (simp add: use_coin_def sample_unspent_facts reset_selector_def)
    then show ?thesis by (simp add: select_outputs_def 1 3)
  qed
  have used: "us_used_total (use_coin sample_unspent (reset_selector [sample_unspent])) = 20000000" "us_inputs_count (use_coin sample_unspent (reset_selector [sample_unspent])) = 1"
    by (simp_all add: use_coin_def sample_unspent_facts reset_selector_def)
  show ?thesis
    by (simp add: select_optimal_outputs_def Let_def c cs OPTIMIZATIONS_PER_TX_def MEDIAN_PERCENT_def, subst select_loop.simps)
      (simp add: o cs used, simp add: use_coin_def reset_selector_def sample_unspent_facts combine_optimized_unspents_def sample_picked_def get_maximum_tx_size_def)
qed

definition sample_wallet :: wallet_env where
  "sample_wallet = \<lparr>random_keypair = (\<lambda>n. (replicate 32 4, replicate 32 5)), generate_key_derivation = (\<lambda>k sec. Some (replicate 32 6)),
     derive_public_key = (\<lambda>d i k. Some (replicate 32 7)), derive_secret_key = (\<lambda>d i k. replicate 32 5),
     generate_key_image = (\<lambda>k sec. replicate 32 3), hash_to_scalar = (\<lambda>b. replicate 32 5),
     secret_key_to_public_key = (\<lambda>sec. replicate 32 4),
     generate_ring_signature = (\<lambda>h ki ks sec i. Some (map (\<lambda>k. replicate 64 0) ks)), shuffle_outputs = id, shuffle_inputs = id\<rparr>"

definition sample_request :: tx_request where
  "sample_request = \<lparr>tr_unlock_time = 0, tr_payment_id = null_hash, tr_anonymity = 0,
     tr_transfers = [(19000000, account_address_as_string sample_env sample_currency sample_address)],
     tr_change_address = sample_address, tr_confirmed_height = 50, tr_fee_per_byte = 0, tr_optimization = ''normal'',
     tr_tip_height = 100, tr_tip_timestamp = 0, tr_median_size = 100000\<rparr>"

lemma sample_address_read: "parse_address sample_env sample_currency (account_address_as_string sample_env sample_currency sample_address) = Some sample_address"
  by (rule read_written_address) (simp_all add: sample_env_def sample_address_def valid_address_def pod32_def)

lemma sample_keys: "aa_view_public_key sample_address = replicate 32 2" "aa_spend_public_key sample_address = replicate 32 1"
  by (simp_all add: sample_address_def)

lemma sample_combined: "combine_transfers sample_env sample_currency (tr_transfers sample_request) [] 0 = Inr ([((replicate 32 2, replicate 32 1), 19000000)], 19000000)"
  by (simp add: sample_request_def sample_address_read add_amount_def address_key_def sample_keys om_get_default_def)

lemma sample_split: "length (split_outputs sample_currency [((replicate 32 2, replicate 32 1), 19000000)]) = 2"
  by (simp add: split_outputs_def decompose_amount_def decompose_digits.simps sample_currency_def make_currency_def)

definition sample_records :: "public_key \<Rightarrow> wallet_record option" where
 "sample_records k = Some \<lparr>wr_spend_public_key = k, wr_spend_secret_key = replicate 32 5, wr_creation_timestamp = 0\<rparr>"

lemma res_bind_returns: "\<exists>x. r = Inr x \<Longrightarrow> (\<And>x. \<exists>y. f x = Inr y) \<Longrightarrow> \<exists>y. res_bind r f = Inr y"
  by auto

lemma sample_finished: "\<exists>tx. finish_transaction sample_env sample_wallet sample_currency sample_request sample_records (replicate 32 5) (replicate 32 9) (\<lambda>_. [(20000000, [sample_unspent])]) 
   [((replicate 32 2, replicate 32 1), 19000000)] 0 sample_picked = Inr tx"
proof -
  have "\<exists>b. add_mixed_inputs sample_env sample_wallet sample_currency (replicate 32 5) sample_records 0 [sample_unspent] [(20000000, [sample_unspent])] b0 = Inr b" for b0
    by (simp add: mix_for_def sample_unspent_facts om_get_default_def om_find_Cons closest_def closer_def)
      (simp add: sample_unspent_def sample_address_read sample_records_def add_input_def generate_key_image_helper_def sample_wallet_def)
  moreover have "\<exists>tx. sign sample_env sample_wallet seed b = Inr tx" for seed b
  proof -
    have "\<exists>outs. sign_outputs sample_wallet k i ds = Inr outs" for k i ds
      by (induction ds arbitrary: i) (simp_all add: derive_output_key_def sample_wallet_def, metis res_bind_Inr)
    moreover have "\<exists>sigs. sign_inputs sample_wallet h ds = Inr sigs" for h ds
      by (induction ds) (auto simp add: sample_wallet_def)
    ultimately show ?thesis unfolding sign_def Let_def split_beta by (intro res_bind_returns) simp_all
  qed
  moreover have "us_used_unspents sample_picked = [sample_unspent]" "tr_anonymity sample_request = 0" by (simp_all add: sample_picked_def sample_request_def)
  ultimately show ?thesis
    unfolding finish_transaction_def Let_def by (intro res_bind_returns) simp_all
qed

lemma sample_made: "\<exists>tx. make_transaction sample_env sample_wallet sample_currency sample_request sample_records (replicate 32 5) (replicate 32 9) (\<lambda>_. [(20000000, [sample_unspent])])
   [sample_unspent] [sample_unspent] = Some (Inr tx)"
proof -
  have r: "tr_unlock_time sample_request = 0" "tr_optimization sample_request = ''normal''" "tr_tip_height sample_request = 100" "tr_tip_timestamp sample_request = 0"
   "tr_confirmed_height sample_request = 50" "tr_median_size sample_request = 100000" "tr_anonymity sample_request = 0" "tr_fee_per_byte sample_request = 0"
    by (simp_all add: sample_request_def)
  show ?thesis using sample_finished by (auto simp add: make_transaction_def Let_def sample_combined sample_split r sample_selected)
qed


end
