(* ===== verification/Peer_DB.thy ===== *)
theory Peer_DB
  imports Amount_Text Binary_Seria Ordered_Map "HOL-Library.Product_Lexorder" "HOL-Library.Multiset"
begin

text \<open>
  The peers a node knows (\<open>p2p/PeerDB.cpp\<close>): a white list of peers that were seen, a gray
  list of peers that others told of, the exclusive nodes of the configuration, bans, the choice
  of the next peer to connect to, and the copy of the two lists in the database.  The random
  numbers are a parameter of the state, and so is what \<open>std::shuffle\<close> does.
\<close>

section \<open>Data\<close>

record network_address =
  na_ip :: u32
  na_port :: u32

record peerlist_entry =
  pl_adr :: network_address
  pl_id :: u64
  pl_last_seen :: u32
  pl_reserved :: u32

record peer_entry = peerlist_entry +
  pe_ban_until :: timestamp
  pe_next_connection_attempt :: timestamp
  pe_shuffle_random :: u64
  pe_error :: bytes

record peer_config =
  pc_exclusive_nodes :: "network_address list"
  pc_seed_nodes :: "network_address list"
  pc_priority_nodes :: "network_address list"
  pc_white_list_limit :: nat
  pc_gray_list_limit :: nat
  pc_whitelist_connections_percent :: nat

text \<open>\<open>pd_random n\<close> is the result of the \<open>n\<close>-th call of the random engine.\<close>

record peer_db =
  pd_exclusive :: "peer_entry list"
  pd_white :: "peer_entry list"
  pd_gray :: "peer_entry list"
  pd_db :: db
  pd_random :: "nat \<Rightarrow> u64"
  pd_draws :: nat

definition BAN_PERIOD :: timestamp where "BAN_PERIOD = 600"
definition RECONNECT_PERIOD :: timestamp where "RECONNECT_PERIOD = 300"
definition PRIORITY_RECONNECT_PERIOD :: timestamp where "PRIORITY_RECONNECT_PERIOD = 30"

definition GRAY_LIST :: string where "GRAY_LIST = ''graylist/''"
definition WHITE_LIST :: string where "WHITE_LIST = ''whitelist/''"

definition new_entry :: "network_address \<Rightarrow> u64 \<Rightarrow> peer_entry" where
  "new_entry addr r = \<lparr>pl_adr = addr, pl_id = 0, pl_last_seen = 0, pl_reserved = 0, pe_ban_until = 0,
     pe_next_connection_attempt = 0, pe_shuffle_random = r, pe_error = []\<rparr>"

definition draw :: "peer_db \<Rightarrow> u64 \<times> peer_db" where
  "draw s = (pd_random s (pd_draws s), s\<lparr>pd_draws := pd_draws s + 1\<rparr>)"

section \<open>The containers\<close>

text \<open>
  A \<open>multi_index_container\<close> is the list of its elements in the order of their insertion:
  an ordered index with equal keys keeps that order, and the unique index by address refuses a
  second element.  A composite key with \<open>std::greater\<close> on \<open>last_seen\<close> sorts by its
  complement.
\<close>

definition peers_find :: "network_address \<Rightarrow> peer_entry list \<Rightarrow> peer_entry option" where
  "peers_find addr list = find (\<lambda>e. pl_adr e = addr) list"

definition peers_erase :: "network_address \<Rightarrow> peer_entry list \<Rightarrow> peer_entry list" where
  "peers_erase addr list = filter (\<lambda>e. pl_adr e \<noteq> addr) list"

definition peers_insert :: "peer_entry \<Rightarrow> peer_entry list \<Rightarrow> peer_entry list" where
  "peers_insert e list = (if peers_find (pl_adr e) list = None then list @ [e] else list)"

definition time_key :: "timestamp \<Rightarrow> timestamp \<Rightarrow> u64 \<Rightarrow> timestamp \<times> timestamp \<times> u64" where
  "time_key t seen r = (t, NOT seen, r)"

definition ban_key :: "peer_entry \<Rightarrow> timestamp \<times> timestamp \<times> u64" where
  "ban_key e = time_key (pe_ban_until e) (pl_last_seen e) (pe_shuffle_random e)"

definition next_key :: "peer_entry \<Rightarrow> timestamp \<times> timestamp \<times> u64" where
  "next_key e = time_key (pe_next_connection_attempt e) (pl_last_seen e) (pe_shuffle_random e)"

definition by_ban_until :: "peer_entry list \<Rightarrow> peer_entry list" where
  "by_ban_until list = sort_key ban_key list"

definition by_next_connection_attempt :: "peer_entry list \<Rightarrow> peer_entry list" where
  "by_next_connection_attempt list = sort_key next_key list"

section \<open>The copy in the database\<close>

definition text_bytes :: "string \<Rightarrow> bytes" where
  "text_bytes str = map of_char str"

definition address_text :: "network_address \<Rightarrow> string" where
  "address_text addr = decimal (unat (na_ip addr)) @ '':'' @ decimal (unat (na_port addr))"

definition peer_key :: "string \<Rightarrow> network_address \<Rightarrow> bytes" where
  "peer_key prefix addr = text_bytes (prefix @ address_text addr)"

definition enc_network_address :: "network_address \<Rightarrow> bytes" where
  "enc_network_address a = enc_u32 (na_ip a) @ enc_u32 (na_port a)"

definition dec_network_address :: "bytes \<Rightarrow> (network_address \<times> bytes) result" where
  "dec_network_address s =
     res_bind (dec_u32 s) (\<lambda>(ip, s). res_bind (dec_u32 s) (\<lambda>(port, s). Inr (\<lparr>na_ip = ip, na_port = port\<rparr>, s)))"

definition enc_peer_entry :: "peer_entry \<Rightarrow> bytes" where
  "enc_peer_entry e = enc_network_address (pl_adr e) @ enc_u64 (pl_id e) @ enc_u32 (pl_last_seen e) @
     enc_u32 (pe_ban_until e) @ enc_u64 (pe_shuffle_random e) @ enc_u32 (pe_next_connection_attempt e) @ enc_bytes (pe_error e)"

definition dec_peer_entry :: "bytes \<Rightarrow> (peer_entry \<times> bytes) result" where
  "dec_peer_entry s =
     res_bind (dec_network_address s) (\<lambda>(adr, s).
     res_bind (dec_u64 s) (\<lambda>(id, s).
     res_bind (dec_u32 s) (\<lambda>(last_seen, s).
     res_bind (dec_u32 s) (\<lambda>(ban_until, s).
     res_bind (dec_u64 s) (\<lambda>(shuffle_random, s).
     res_bind (dec_u32 s) (\<lambda>(next_connection_attempt, s).
     res_bind (dec_bytes s) (\<lambda>(error, s).
     Inr (\<lparr>pl_adr = adr, pl_id = id, pl_last_seen = last_seen, pl_reserved = 0, pe_ban_until = ban_until,
       pe_next_connection_attempt = next_connection_attempt, pe_shuffle_random = shuffle_random, pe_error = error\<rparr>, s))))))))"

text \<open>A put that may overwrite and a delete that need not find its key always succeed.\<close>

definition update_db :: "string \<Rightarrow> peer_entry \<Rightarrow> db \<Rightarrow> db" where
  "update_db prefix e d = om_set (peer_key prefix (pl_adr e)) (to_binary enc_peer_entry e) d"

definition del_db :: "string \<Rightarrow> network_address \<Rightarrow> db \<Rightarrow> db" where
  "del_db prefix addr d = om_erase (peer_key prefix addr) d"

text \<open>Entries that do not parse are skipped.\<close>

definition read_db :: "string \<Rightarrow> db \<Rightarrow> peer_entry list" where
  "read_db prefix d = foldl (\<lambda>list (suffix, value). case from_binary dec_peer_entry value of
     Inl _ \<Rightarrow> list | Inr peer \<Rightarrow> peers_insert peer list) [] (db_begin d (text_bytes prefix) [])"

section \<open>Operations\<close>

definition is_priority :: "peer_config \<Rightarrow> network_address \<Rightarrow> bool" where
  "is_priority c addr \<longleftrightarrow> addr \<in> set (pc_priority_nodes c)"

definition is_seed :: "peer_config \<Rightarrow> network_address \<Rightarrow> bool" where
  "is_seed c addr \<longleftrightarrow> addr \<in> set (pc_seed_nodes c)"

definition add_exclusive :: "peer_db \<Rightarrow> network_address \<Rightarrow> peer_db" where
  "add_exclusive s addr = (let (r, s) = draw s in s\<lparr>pd_exclusive := peers_insert (new_entry addr r) (pd_exclusive s)\<rparr>)"

definition add_seed :: "peer_db \<Rightarrow> network_address \<Rightarrow> peer_db" where
  "add_seed s addr =
     (if peers_find addr (pd_white s) \<noteq> None then s
      else let (r, s) = draw s in s\<lparr>pd_white := peers_insert (new_entry addr r) (pd_white s)\<rparr>)"

definition open_peer_db :: "peer_config \<Rightarrow> (nat \<Rightarrow> u64) \<Rightarrow> db \<Rightarrow> peer_db" where
  "open_peer_db c rnd d =
     foldl add_seed (foldl add_exclusive
       \<lparr>pd_exclusive = [], pd_white = read_db WHITE_LIST d, pd_gray = read_db GRAY_LIST d, pd_db = d, pd_random = rnd, pd_draws = 0\<rparr>
       (pc_exclusive_nodes c)) (pc_seed_nodes c)"

function trim_list :: "string \<Rightarrow> nat \<Rightarrow> peer_entry list \<Rightarrow> db \<Rightarrow> peer_entry list \<times> db" where
  "trim_list prefix limit list d =
     (if limit < length list
      then let e = last (by_ban_until list) in trim_list prefix limit (remove1 e list) (del_db prefix (pl_adr e) d)
      else (list, d))"
  by pat_completeness auto
termination
proof (relation "measure (\<lambda>(_, _, list, _). length list)")
  fix prefix :: string and limit :: nat and list d and e
  assume c: "limit < length list" and e: "e = last (by_ban_until list)"
  have "by_ban_until list \<noteq> []" using c by (metis by_ban_until_def length_sort list.size(3) not_less0)
  then have "e \<in> set list" using e by (metis by_ban_until_def last_in_set set_sort)
  then show "((prefix, limit, remove1 e list, del_db prefix (pl_adr e) d), prefix, limit, list, d)
      \<in> measure (\<lambda>(_, _, list, _). length list)"
    using c by (simp add: length_remove1)
qed simp

declare trim_list.simps [simp del]

definition trim_lists :: "peer_config \<Rightarrow> peer_db \<Rightarrow> peer_db" where
  "trim_lists c s =
     (let (gray, d) = trim_list GRAY_LIST (pc_gray_list_limit c) (pd_gray s) (pd_db s);
          (white, d) = trim_list WHITE_LIST (pc_white_list_limit c) (pd_white s) d
      in s\<lparr>pd_gray := gray, pd_white := white, pd_db := d\<rparr>)"

text \<open>The entries whose ban is over: the half-open range between two lower bounds.\<close>

definition ban_over :: "timestamp \<Rightarrow> peer_entry \<Rightarrow> bool" where
  "ban_over now e \<longleftrightarrow> \<not> ban_key e < time_key 1 0 0 \<and> ban_key e < time_key now 0 0"

definition lift_ban :: "peer_entry \<Rightarrow> peer_entry" where
  "lift_ban e = e\<lparr>pe_ban_until := 0, pe_next_connection_attempt := 0\<rparr>"

definition unban_list :: "string \<Rightarrow> timestamp \<Rightarrow> peer_entry list \<Rightarrow> db \<Rightarrow> peer_entry list \<times> db" where
  "unban_list prefix now list d =
     (let unbanned = map lift_ban (filter (ban_over now) (by_ban_until list))
      in (foldl (\<lambda>list e. peers_insert e list) (filter (\<lambda>e. \<not> ban_over now e) list) unbanned,
          foldl (\<lambda>d e. update_db prefix e d) d unbanned))"

definition unban :: "timestamp \<Rightarrow> peer_db \<Rightarrow> peer_db" where
  "unban now s =
     (let (gray, d) = unban_list GRAY_LIST now (pd_gray s) (pd_db s);
          (white, d) = unban_list WHITE_LIST now (pd_white s) d
      in s\<lparr>pd_gray := gray, pd_white := white, pd_db := d\<rparr>)"

definition get_private_network_prefix :: "u32 \<Rightarrow> nat" where
  "get_private_network_prefix ip =
     (let b0 = unat (ip AND 0xFF); b1 = unat (drop_bit 8 ip AND 0xFF) in
      if b0 = 127 then 127
      else if b0 = 10 then 10
      else if b0 = 192 \<and> b1 = 168 then 192
      else if b0 = 172 \<and> b1 div 16 = 1 then 172
      else 0)"

text \<open>The loop stops after it has taken an entry, so that it takes at least one.\<close>

fun collect_peers :: "nat \<Rightarrow> nat \<Rightarrow> peer_entry list \<Rightarrow> peerlist_entry list \<Rightarrow> peerlist_entry list" where
  "collect_peers network depth [] bs_head = bs_head"
| "collect_peers network depth (e # es) bs_head =
     (let id = get_private_network_prefix (na_ip (pl_adr e)) in
      if network \<noteq> id \<and> id \<noteq> 0 then collect_peers network depth es bs_head
      else
        let bs_head = bs_head @ [(peerlist_entry.truncate e)\<lparr>pl_last_seen := 0\<rparr>] in
        if depth \<le> length bs_head then bs_head else collect_peers network depth es bs_head)"

definition get_peerlist_to_p2p ::
  "(peerlist_entry list \<Rightarrow> peerlist_entry list) \<Rightarrow> network_address \<Rightarrow> timestamp \<Rightarrow> nat \<Rightarrow> peer_db \<Rightarrow> peerlist_entry list \<times> peer_db" where
  "get_peerlist_to_p2p shuffle for_addr now depth s =
     (let s = unban now s;
          peers = takeWhile (\<lambda>e. ban_key e < time_key 1 0 0) (by_ban_until (pd_white s))
      in (shuffle (collect_peers (get_private_network_prefix (na_ip for_addr)) depth peers []), s))"

definition add_incoming_peer_impl :: "network_address \<Rightarrow> u64 \<Rightarrow> peer_db \<Rightarrow> peer_db" where
  "add_incoming_peer_impl addr peer_id s =
     (if na_port addr = 0 then s
      else if peers_find addr (pd_white s) \<noteq> None then s
      else if peers_find addr (pd_gray s) \<noteq> None then s
      else
        let (r, s) = draw s; e = (new_entry addr r)\<lparr>pl_id := peer_id\<rparr>
        in s\<lparr>pd_gray := peers_insert e (pd_gray s), pd_db := update_db GRAY_LIST e (pd_db s)\<rparr>)"

definition merge_peerlist_from_p2p :: "peer_config \<Rightarrow> peerlist_entry list \<Rightarrow> timestamp \<Rightarrow> peer_db \<Rightarrow> peer_db" where
  "merge_peerlist_from_p2p c outer_bs now s =
     trim_lists c (foldl (\<lambda>s pp. add_incoming_peer_impl (pl_adr pp) (pl_id pp) s) (unban now s) outer_bs)"

definition add_incoming_peer :: "peer_config \<Rightarrow> network_address \<Rightarrow> u64 \<Rightarrow> timestamp \<Rightarrow> peer_db \<Rightarrow> peer_db" where
  "add_incoming_peer c addr peer_id now s = trim_lists c (add_incoming_peer_impl addr peer_id (unban now s))"

definition set_peer_just_seen :: "peer_config \<Rightarrow> u64 \<Rightarrow> network_address \<Rightarrow> timestamp \<Rightarrow> bool \<Rightarrow> peer_db \<Rightarrow> peer_db" where
  "set_peer_just_seen c peer_id addr now reset_next_connection_attempt s =
     (let s = (if peers_find addr (pd_gray s) \<noteq> None
            then s\<lparr>pd_gray := peers_erase addr (pd_gray s), pd_db := del_db GRAY_LIST addr (pd_db s)\<rparr> else s);
          (r, s) = draw s;
          e = (case peers_find addr (pd_white s) of None \<Rightarrow> new_entry addr r | Some e \<Rightarrow> e);
          e = e\<lparr>pl_id := peer_id, pe_ban_until := 0\<rparr>;
          e = (if reset_next_connection_attempt \<and> \<not> is_seed c addr then e\<lparr>pe_next_connection_attempt := 0\<rparr> else e);
          e = e\<lparr>pl_last_seen := now\<rparr>
      in s\<lparr>pd_white := peers_insert e (peers_erase addr (pd_white s)), pd_db := update_db WHITE_LIST e (pd_db s)\<rparr>)"

definition delay_connection_attempt :: "peer_config \<Rightarrow> network_address \<Rightarrow> timestamp \<Rightarrow> peer_db \<Rightarrow> peer_db" where
  "delay_connection_attempt c addr now s =
     (case peers_find addr (pd_white s) of
        None \<Rightarrow> s
      | Some e \<Rightarrow>
          let e = e\<lparr>pe_next_connection_attempt := now + (if \<not> is_priority c addr then BAN_PERIOD else PRIORITY_RECONNECT_PERIOD)\<rparr>
          in s\<lparr>pd_white := peers_insert e (peers_erase addr (pd_white s)), pd_db := update_db WHITE_LIST e (pd_db s)\<rparr>)"

definition ban_entry :: "bytes \<Rightarrow> timestamp \<Rightarrow> peer_entry \<Rightarrow> peer_entry" where
  "ban_entry error until e = e\<lparr>pe_error := error, pe_ban_until := until, pe_next_connection_attempt := until\<rparr>"

definition set_peer_banned :: "peer_config \<Rightarrow> network_address \<Rightarrow> bytes \<Rightarrow> timestamp \<Rightarrow> peer_db \<Rightarrow> peer_db" where
  "set_peer_banned c addr error now s =
     (case peers_find addr (pd_exclusive s) of
        Some e \<Rightarrow> s\<lparr>pd_exclusive :=
          peers_insert (ban_entry error (now + PRIORITY_RECONNECT_PERIOD) e) (peers_erase addr (pd_exclusive s))\<rparr>
      | None \<Rightarrow>
          let s = (case peers_find addr (pd_gray s) of
                None \<Rightarrow> s
              | Some e \<Rightarrow>
                  let e = ban_entry error (now + (if is_priority c addr then PRIORITY_RECONNECT_PERIOD else BAN_PERIOD)) e
                  in s\<lparr>pd_gray := peers_insert e (peers_erase addr (pd_gray s)), pd_db := update_db GRAY_LIST e (pd_db s)\<rparr>)
          in case peers_find addr (pd_white s) of
               None \<Rightarrow> s
             | Some e \<Rightarrow>
                 let e = ban_entry error (now + (if is_seed c addr then PRIORITY_RECONNECT_PERIOD
                       else if is_priority c addr then PRIORITY_RECONNECT_PERIOD else BAN_PERIOD)) e
                 in s\<lparr>pd_white := peers_insert e (peers_erase addr (pd_white s)), pd_db := update_db WHITE_LIST e (pd_db s)\<rparr>)"

definition is_peer_banned :: "network_address \<Rightarrow> timestamp \<Rightarrow> peer_db \<Rightarrow> bool" where
  "is_peer_banned addr now s \<longleftrightarrow>
     (case peers_find addr (pd_gray s) of Some e \<Rightarrow> now < pe_ban_until e | None \<Rightarrow> False) \<or>
     (case peers_find addr (pd_white s) of Some e \<Rightarrow> now < pe_ban_until e | None \<Rightarrow> False)"

text \<open>The first entry before the end of the range that is not skipped.\<close>

definition candidate :: "(peer_entry \<Rightarrow> bool) \<Rightarrow> timestamp \<Rightarrow> peer_entry list \<Rightarrow> peer_entry option" where
  "candidate skip now list = find (\<lambda>e. \<not> skip e) (takeWhile (\<lambda>e. next_key e < time_key now 0 0) (by_next_connection_attempt list))"

definition get_peer_to_connect ::
  "peer_config \<Rightarrow> network_address set \<Rightarrow> timestamp \<Rightarrow> peer_db \<Rightarrow> network_address option \<times> peer_db" where
  "get_peer_to_connect c connected now s =
     (if pd_exclusive s \<noteq> [] then
        (case candidate (\<lambda>e. pl_adr e \<in> connected) now (pd_exclusive s) of
           None \<Rightarrow> (None, s)
         | Some e \<Rightarrow>
             let list = remove1 e (pd_exclusive s); e = e\<lparr>pe_next_connection_attempt := now + PRIORITY_RECONNECT_PERIOD\<rparr>
             in (Some (pl_adr e), s\<lparr>pd_exclusive := peers_insert e list\<rparr>))
      else
        let s = unban now s;
            connected_seeds = filter (\<lambda>cc. cc \<in> connected) (pc_seed_nodes c);
            enough_connected_seeds = 2 \<le> length connected_seeds;
            skip = (\<lambda>e. pl_adr e \<in> connected \<or> enough_connected_seeds \<and> is_seed c (pl_adr e));
            later = (\<lambda>e. e\<lparr>pe_next_connection_attempt :=
              now + (if is_priority c (pl_adr e) then PRIORITY_RECONNECT_PERIOD else RECONNECT_PERIOD)\<rparr>);
            white = candidate skip now (pd_white s);
            gray = candidate skip now (pd_gray s);
            (r, s) = draw s;
            use_white = (unat ((ucast r :: u32) mod 100) < pc_whitelist_connections_percent c);
            ready = (\<lambda>found. case found of None \<Rightarrow> None | Some e \<Rightarrow> if pe_next_connection_attempt e \<le> now then Some e else None)
        in case ready (if use_white then white else None) of
             Some e \<Rightarrow> (Some (pl_adr e), s\<lparr>pd_white := peers_insert (later e) (remove1 e (pd_white s)),
               pd_db := update_db WHITE_LIST (later e) (pd_db s)\<rparr>)
           | None \<Rightarrow>
               (case ready gray of
                  Some e \<Rightarrow> (Some (pl_adr e), s\<lparr>pd_gray := peers_insert (later e) (remove1 e (pd_gray s)),
                    pd_db := update_db GRAY_LIST (later e) (pd_db s)\<rparr>)
                | None \<Rightarrow> (None, s)))"

section \<open>The containers as sets\<close>

lemma peers_find_iff: "distinct (map pl_adr list) \<Longrightarrow> peers_find a list = Some e \<longleftrightarrow> e \<in> set list \<and> pl_adr e = a"
  by (induction list) (auto simp: peers_find_def)

lemma peers_find_None: "peers_find a list = None \<longleftrightarrow> a \<notin> pl_adr ` set list"
  by (auto simp: peers_find_def find_None_iff)

lemma peers_erase_facts:
  "set (peers_erase a list) = {e \<in> set list. pl_adr e \<noteq> a}"
  "distinct (map pl_adr list) \<Longrightarrow> distinct (map pl_adr (peers_erase a list))"
  by (auto simp: peers_erase_def distinct_map_filter)

lemma peers_insert_facts:
  "set (peers_insert e list) = (if pl_adr e \<in> pl_adr ` set list then set list else insert e (set list))"
  "distinct (map pl_adr list) \<Longrightarrow> distinct (map pl_adr (peers_insert e list))"
  by (auto simp: peers_insert_def peers_find_None)

lemma peers_remove1: "distinct (map pl_adr list) \<Longrightarrow> e \<in> set list \<Longrightarrow> remove1 e list = peers_erase (pl_adr e) list"
proof (induction list)
  case (Cons x list)
  show ?case
  proof (cases "e = x")
    case True
    with Cons.prems have "\<forall>y \<in> set list. pl_adr y \<noteq> pl_adr e" by (metis distinct.simps(2) image_eqI list.simps(9) set_map)
    with True show ?thesis by (simp add: peers_erase_def filter_id_conv)
  next
    case False
    with Cons.prems have e: "e \<in> set list" by simp
    then have "pl_adr e \<in> pl_adr ` set list" by blast
    with Cons.prems have "pl_adr e \<noteq> pl_adr x" by auto
    with False e Cons show ?thesis by (simp add: peers_erase_def)
  qed
qed simp

text \<open>An element replaced by one with the same address.\<close>

definition peers_put :: "peer_entry \<Rightarrow> peer_entry set \<Rightarrow> peer_entry set" where
  "peers_put e E = insert e {x \<in> E. pl_adr x \<noteq> pl_adr e}"

lemma peers_put_list:
  "set (peers_insert e (peers_erase (pl_adr e) list)) = peers_put e (set list)"
  "distinct (map pl_adr list) \<Longrightarrow> distinct (map pl_adr (peers_insert e (peers_erase (pl_adr e) list)))"
  by (auto simp: peers_insert_facts peers_erase_facts peers_put_def)

lemma peers_erase_absent: "peers_find a list = None \<Longrightarrow> peers_erase a list = list"
  by (metis (mono_tags, lifting) filter_id_conv image_eqI peers_erase_def peers_find_None)

lemma peers_add_list: "peers_find (pl_adr e) list = None \<Longrightarrow> set (peers_insert e list) = peers_put e (set list)"
  using peers_put_list(1) [of e list] by (simp add: peers_erase_absent)

section \<open>Keys\<close>

lemma plain_no_colon: "plain str \<Longrightarrow> CHR '':'' \<notin> set str"
  by (auto simp: plain_def list_all_iff is_digit_def)

lemma decimal_inj: "decimal m = decimal n \<longleftrightarrow> m = n"
  by (metis digits_value_decimal)

lemma address_text_inj: "address_text a = address_text b \<longleftrightarrow> a = b"
proof
  assume eq: "address_text a = address_text b"
  have "takeWhile (\<lambda>c. c \<noteq> CHR '':'') (address_text x) = decimal (unat (na_ip x))" for x
    unfolding address_text_def using plain_no_colon [OF plain_decimal] by (subst takeWhile_append2) auto
  then have "na_ip a = na_ip b" using eq by (metis decimal_inj word_unat_eq_iff)
  moreover from this eq have "na_port a = na_port b" by (simp add: address_text_def decimal_inj word_unat_eq_iff)
  ultimately show "a = b" by simp
qed simp


lemma text_bytes_inj: "text_bytes a = text_bytes b \<longleftrightarrow> a = b"
proof -
  have "inj (of_char :: char \<Rightarrow> u8)"
  proof (rule injI)
    fix c d :: char
    assume "(of_char c :: u8) = of_char d"
    then have "unat (of_nat (of_char c) :: u8) = unat (of_nat (of_char d) :: u8)" by (simp only: of_nat_of_char)
    then have "of_char c = (of_char d :: nat)"
      using nat_of_char_less_256 [of c] nat_of_char_less_256 [of d] by (simp add: unat_of_nat del: of_char_eq_iff)
    then show "c = d" by simp
  qed
  then show ?thesis by (simp add: text_bytes_def inj_map_eq_map)
qed

lemma peer_key_inj: "peer_key p a = peer_key p b \<longleftrightarrow> a = b"
  by (simp add: peer_key_def text_bytes_inj address_text_inj)

text \<open>The keys of one list never have the prefix of the other.\<close>

definition other_list :: "string \<Rightarrow> string \<Rightarrow> bool" where
  "other_list p q \<longleftrightarrow> p = WHITE_LIST \<and> q = GRAY_LIST \<or> p = GRAY_LIST \<and> q = WHITE_LIST"

lemma other_list_key: "other_list p q \<Longrightarrow> peer_key q a \<noteq> text_bytes p @ k"
  by (auto simp: other_list_def peer_key_def text_bytes_def WHITE_LIST_def GRAY_LIST_def)

lemma other_lists: "other_list WHITE_LIST GRAY_LIST" "other_list GRAY_LIST WHITE_LIST"
  by (simp_all add: other_list_def)

lemma peer_key_prefix: "peer_key p a = text_bytes p @ text_bytes (address_text a)"
  by (simp add: peer_key_def text_bytes_def)

definition valid_peer_entry :: "peer_entry \<Rightarrow> bool" where
  "valid_peer_entry e \<longleftrightarrow> pl_reserved e = 0 \<and> fits64 (pe_error e)"

interpretation peer_entry: codec enc_peer_entry dec_peer_entry valid_peer_entry
  by unfold_locales
    (simp add: enc_peer_entry_def dec_peer_entry_def enc_network_address_def dec_network_address_def valid_peer_entry_def codec_enc
      u32.dec_enc u64.dec_enc byte_array.dec_enc)

section \<open>The database holds the lists\<close>

text \<open>
  \<open>saved prefix allow E d\<close>: below \<open>prefix\<close> the database has the entries of \<open>E\<close> and
  nothing else; only entries that \<open>allow\<close> admits may be missing.
\<close>

definition saved :: "string \<Rightarrow> (peer_entry \<Rightarrow> bool) \<Rightarrow> peer_entry set \<Rightarrow> db \<Rightarrow> bool" where
  "saved prefix allow E d \<longleftrightarrow> om_wf d \<and>
     (\<forall>e \<in> E. db_get d (peer_key prefix (pl_adr e)) = Some (to_binary enc_peer_entry e) \<or>
        db_get d (peer_key prefix (pl_adr e)) = None \<and> allow e) \<and>
     (\<forall>k v. db_get d (text_bytes prefix @ k) = Some v \<longrightarrow>
        (\<exists>e \<in> E. text_bytes prefix @ k = peer_key prefix (pl_adr e) \<and> v = to_binary enc_peer_entry e))"

lemma db_get_update_db: "db_get (update_db prefix e d) k = (if k = peer_key prefix (pl_adr e) then Some (to_binary enc_peer_entry e) else db_get d k)"
  by (simp add: update_db_def db_get_def)

lemma db_get_del_db: "om_wf d \<Longrightarrow> db_get (del_db prefix a d) k = (if k = peer_key prefix a then None else db_get d k)"
  by (simp add: del_db_def db_get_def)

lemma saved_put: "saved prefix allow E d \<Longrightarrow> saved prefix allow (peers_put e E) (update_db prefix e d)"
  unfolding saved_def peers_put_def
  by (auto simp: db_get_update_db peer_key_inj) (auto simp: update_db_def, metis)

lemma saved_del: "saved prefix allow E d \<Longrightarrow> saved prefix allow {x \<in> E. pl_adr x \<noteq> a} (del_db prefix a d)"
  unfolding saved_def
  by (auto simp: db_get_del_db peer_key_inj split: if_splits) (auto simp: del_db_def, metis)

lemma saved_other:
  assumes "other_list p q" "saved p allow E d"
  shows "saved p allow E (update_db q e d)" "saved p allow E (del_db q a d)"
proof -
  have k: "peer_key q b \<noteq> peer_key p x" "peer_key q b \<noteq> text_bytes p @ r" for b x r
    using other_list_key [OF assms(1)] by (simp_all add: peer_key_prefix [of p])
  show "saved p allow E (update_db q e d)"
    using assms(2) unfolding saved_def by (simp add: db_get_update_db k [symmetric]) (simp add: update_db_def)
  show "saved p allow E (del_db q a d)"
    using assms(2) unfolding saved_def by (simp add: db_get_del_db k [symmetric]) (simp add: del_db_def)
qed

section \<open>The invariant\<close>

definition period :: "peer_config \<Rightarrow> network_address \<Rightarrow> nat" where
  "period c addr = unat (if is_priority c addr then PRIORITY_RECONNECT_PERIOD else BAN_PERIOD)"

text \<open>No connection is tried before the end of a ban, and a ban lasts at most one period.\<close>

definition entry_ok :: "peer_config \<Rightarrow> nat \<Rightarrow> peer_entry \<Rightarrow> bool" where
  "entry_ok c t e \<longleftrightarrow> pe_ban_until e \<le> pe_next_connection_attempt e \<and>
     unat (pe_ban_until e) \<le> t + period c (pl_adr e) \<and> valid_peer_entry e"

text \<open>A seed node that was added when the lists were opened need not be in the database.\<close>

definition fresh_seed :: "peer_config \<Rightarrow> peer_entry \<Rightarrow> bool" where
  "fresh_seed c e \<longleftrightarrow> is_seed c (pl_adr e) \<and> (\<exists>r. e = new_entry (pl_adr e) r)"

definition list_ok :: "peer_config \<Rightarrow> string \<Rightarrow> (peer_entry \<Rightarrow> bool) \<Rightarrow> nat \<Rightarrow> peer_entry list \<Rightarrow> db \<Rightarrow> bool" where
  "list_ok c prefix allow t list d \<longleftrightarrow> distinct (map pl_adr list) \<and> (\<forall>e \<in> set list. entry_ok c t e) \<and> saved prefix allow (set list) d"

text \<open>Only a seed node can be in both lists.\<close>

definition peers_ok :: "peer_config \<Rightarrow> nat \<Rightarrow> peer_db \<Rightarrow> bool" where
  "peers_ok c t s \<longleftrightarrow>
     list_ok c WHITE_LIST (fresh_seed c) t (pd_white s) (pd_db s) \<and>
     list_ok c GRAY_LIST (\<lambda>e. False) t (pd_gray s) (pd_db s) \<and>
     (\<forall>a. a \<in> pl_adr ` set (pd_white s) \<longrightarrow> a \<in> pl_adr ` set (pd_gray s) \<longrightarrow> is_seed c a) \<and>
     distinct (map pl_adr (pd_exclusive s)) \<and> (\<forall>e \<in> set (pd_exclusive s). pe_ban_until e \<le> pe_next_connection_attempt e)"

lemma list_ok_put:
  assumes "list_ok c p allow t list d" "entry_ok c t e"
  shows "list_ok c p allow t (peers_insert e (peers_erase (pl_adr e) list)) (update_db p e d)"
  using assms saved_put [of p allow "set list" d e] peers_put_list(1) [of e list] peers_put_list(2) [of list e]
  by (auto simp: list_ok_def) (auto simp: peers_put_def)

lemma list_ok_add:
  assumes "list_ok c p allow t list d" "entry_ok c t e" "peers_find (pl_adr e) list = None"
  shows "list_ok c p allow t (peers_insert e list) (update_db p e d)"
  using list_ok_put [OF assms(1,2)] assms(3) by (simp add: peers_erase_absent)

lemma list_ok_erase:
  assumes "list_ok c p allow t list d"
  shows "list_ok c p allow t (peers_erase a list) (del_db p a d)"
  using assms saved_del [of p allow "set list" d a] by (auto simp: list_ok_def peers_erase_facts)

lemma list_ok_other:
  assumes "other_list p q" "list_ok c p allow t list d"
  shows "list_ok c p allow t list (update_db q e d)" "list_ok c p allow t list (del_db q a d)"
  using assms saved_other [OF assms(1)] by (auto simp: list_ok_def)

lemma list_ok_mono: "list_ok c p allow t list d \<Longrightarrow> t \<le> t' \<Longrightarrow> list_ok c p allow t' list d"
  by (auto simp: list_ok_def entry_ok_def intro: order_trans)

lemma list_ok_same:
  "list_ok c p allow t list d \<Longrightarrow> set list' = set list \<Longrightarrow> distinct (map pl_adr list') \<Longrightarrow> list_ok c p allow t list' d"
  by (simp add: list_ok_def)

text \<open>Trimming.\<close>

lemma trim_list_ok:
  assumes "list_ok c p allow t list d"
  shows "list_ok c p allow t (fst (trim_list p n list d)) (snd (trim_list p n list d)) \<and>
    set (fst (trim_list p n list d)) \<subseteq> set list \<and> length (fst (trim_list p n list d)) \<le> n \<and>
    (other_list q p \<longrightarrow> list_ok c q allow' t list' d \<longrightarrow> list_ok c q allow' t list' (snd (trim_list p n list d)))"
  using assms
proof (induction p n list d rule: trim_list.induct)
  case (1 p n list d)
  show ?case
  proof (cases "n < length list")
    case True
    define e where "e = last (by_ban_until list)"
    have "by_ban_until list \<noteq> []" using True by (metis by_ban_until_def length_sort list.size(3) not_less0)
    then have e: "e \<in> set list" by (metis e_def by_ban_until_def last_in_set set_sort)
    have "remove1 e list = peers_erase (pl_adr e) list" using 1(2) e by (intro peers_remove1) (simp_all add: list_ok_def)
    then have ok: "list_ok c p allow t (remove1 e list) (del_db p (pl_adr e) d)" using list_ok_erase [OF 1(2)] by simp
    have step: "trim_list p n list d = trim_list p n (remove1 e list) (del_db p (pl_adr e) d)"
      using True by (subst trim_list.simps) (simp add: e_def Let_def)
    have "set (remove1 e list) \<subseteq> set list" by (rule set_remove1_subset)
    then show ?thesis using 1(1) [OF True e_def ok] list_ok_other(2) [of q p] unfolding step by blast
  next
    case False
    with 1(2) show ?thesis by (subst (1 2 3 4 5) trim_list.simps) auto
  qed
qed

lemma trim_ok:
  assumes "peers_ok c t s"
  shows "peers_ok c t (trim_lists c s)" "length (pd_white (trim_lists c s)) \<le> pc_white_list_limit c" "length (pd_gray (trim_lists c s)) \<le> pc_gray_list_limit c"
proof -
  obtain g d where g: "trim_list GRAY_LIST (pc_gray_list_limit c) (pd_gray s) (pd_db s) = (g, d)" by fastforce
  obtain w d' where w: "trim_list WHITE_LIST (pc_white_list_limit c) (pd_white s) d = (w, d')" by fastforce
  have 1: "list_ok c GRAY_LIST (\<lambda>e. False) t g d" "set g \<subseteq> set (pd_gray s)" "length g \<le> pc_gray_list_limit c"
    "list_ok c WHITE_LIST (fresh_seed c) t (pd_white s) d"
    using trim_list_ok [of c GRAY_LIST "\<lambda>e. False" t "pd_gray s" "pd_db s" "pc_gray_list_limit c" WHITE_LIST "fresh_seed c" "pd_white s"]
      assms other_lists by (simp_all add: g peers_ok_def)
  have 2: "list_ok c WHITE_LIST (fresh_seed c) t w d'" "set w \<subseteq> set (pd_white s)" "length w \<le> pc_white_list_limit c"
    "list_ok c GRAY_LIST (\<lambda>e. False) t g d'"
    using trim_list_ok [OF 1(4), of "pc_white_list_limit c" GRAY_LIST "\<lambda>e. False" g] 1(1) other_lists by (simp_all add: w)
  have "trim_lists c s = s\<lparr>pd_gray := g, pd_white := w, pd_db := d'\<rparr>" by (simp add: trim_lists_def g w)
  then show "peers_ok c t (trim_lists c s)" "length (pd_white (trim_lists c s)) \<le> pc_white_list_limit c" "length (pd_gray (trim_lists c s)) \<le> pc_gray_list_limit c"
    using assms 1 2 unfolding peers_ok_def by (simp_all, blast)
qed

text \<open>Bans that are over.\<close>

lemma lift_ban_facts [simp]:
  "pl_adr (lift_ban e) = pl_adr e" "pe_ban_until (lift_ban e) = 0" "pe_next_connection_attempt (lift_ban e) = 0"
  "pe_error (lift_ban e) = pe_error e" "pl_reserved (lift_ban e) = pl_reserved e"
  by (simp_all add: lift_ban_def)

lemma lift_image: "pl_adr ` ({e \<in> E. \<not> P e} \<union> lift_ban ` {e \<in> E. P e}) = pl_adr ` E"
  by (auto simp: image_Un image_image)

lemma lift_ban_ok: "entry_ok c t e \<Longrightarrow> entry_ok c t (lift_ban e)"
  by (simp add: entry_ok_def valid_peer_entry_def)

lemma lift_bans_ok:
  assumes "list_ok c p allow t list d" "set us \<subseteq> set list" "distinct (map pl_adr us)"
  shows "list_ok c p allow t (foldl (\<lambda>list u. peers_insert (lift_ban u) (peers_erase (pl_adr u) list)) list us)
      (foldl (\<lambda>d u. update_db p (lift_ban u) d) d us) \<and>
    set (foldl (\<lambda>list u. peers_insert (lift_ban u) (peers_erase (pl_adr u) list)) list us) = (set list - set us) \<union> lift_ban ` set us"
  using assms
proof (induction us arbitrary: list d)
  case (Cons u us)
  let ?l = "peers_insert (lift_ban u) (peers_erase (pl_adr u) list)" and ?d = "update_db p (lift_ban u) d"
  have u: "u \<in> set list" "distinct (map pl_adr list)" "entry_ok c t u" using Cons.prems by (auto simp: list_ok_def)
  have same: "x = u" if "x \<in> set list" "pl_adr x = pl_adr u" for x
    using u that by (metis distinct_map inj_onD)
  have ok: "list_ok c p allow t ?l ?d" using list_ok_put [OF Cons.prems(1) lift_ban_ok [OF u(3)]] by simp
  have l: "set ?l = insert (lift_ban u) (set list - {u})"
    using peers_put_list(1) [of "lift_ban u" list] same by (auto simp: peers_put_def)
  have out: "pl_adr x \<noteq> pl_adr u" if "x \<in> set us" for x
    using Cons.prems(3) that by (metis distinct.simps(2) image_eqI list.simps(9) set_map)
  have "set us \<subseteq> set ?l" using Cons.prems(2) out l by auto
  from Cons.IH [OF ok this] Cons.prems(3) show ?case
    using out by (auto simp: l) (metis lift_ban_facts(1))+
qed simp

lemma foldl_peers_insert:
  assumes "distinct (map pl_adr list)" "distinct (map pl_adr es)" "pl_adr ` set list \<inter> pl_adr ` set es = {}"
  shows "set (foldl (\<lambda>list e. peers_insert e list) list es) = set list \<union> set es \<and> distinct (map pl_adr (foldl (\<lambda>list e. peers_insert e list) list es))"
  using assms
proof (induction es arbitrary: list)
  case (Cons e es)
  have "set (peers_insert e list) = insert e (set list)" "distinct (map pl_adr (peers_insert e list))"
    using Cons.prems peers_insert_facts by auto
  moreover from this Cons.prems have "pl_adr ` set (peers_insert e list) \<inter> pl_adr ` set es = {}" by auto
  ultimately show ?case using Cons.IH [of "peers_insert e list"] Cons.prems(2) by auto
qed simp

lemma unban_list_ok:
  assumes "list_ok c p allow t list d"
  shows "list_ok c p allow t (fst (unban_list p now list d)) (snd (unban_list p now list d))"
    "set (fst (unban_list p now list d)) = {e \<in> set list. \<not> ban_over now e} \<union> lift_ban ` {e \<in> set list. ban_over now e}"
    "other_list q p \<Longrightarrow> list_ok c q allow' t list' d \<Longrightarrow> list_ok c q allow' t list' (snd (unban_list p now list d))"
proof -
  define us where "us = filter (ban_over now) (by_ban_until list)"
  have d: "distinct (map pl_adr list)" using assms by (simp add: list_ok_def)
  have us: "set us = {e \<in> set list. ban_over now e}" by (simp add: us_def by_ban_until_def)
  have "mset (map pl_adr (by_ban_until list)) = mset (map pl_adr list)" by (simp add: by_ban_until_def)
  then have "distinct (map pl_adr (by_ban_until list))" using d by (metis mset_eq_imp_distinct_iff)
  then have du: "distinct (map pl_adr us)" by (simp add: us_def distinct_map_filter)
  have snd_eq: "snd (unban_list p now list d) = foldl (\<lambda>d u. update_db p (lift_ban u) d) d us"
    by (simp add: unban_list_def us_def [symmetric] foldl_map Let_def)
  have fst_eq: "fst (unban_list p now list d) = foldl (\<lambda>list e. peers_insert e list) (filter (\<lambda>e. \<not> ban_over now e) list) (map lift_ban us)"
    by (simp add: unban_list_def us_def [symmetric] Let_def)
  have df: "distinct (map pl_adr (filter (\<lambda>e. \<not> ban_over now e) list))" using d by (rule distinct_map_filter)
  have "map pl_adr (map lift_ban us) = map pl_adr us" by simp
  with du have dl: "distinct (map pl_adr (map lift_ban us))" by (simp only:)
  have dis: "pl_adr ` set (filter (\<lambda>e. \<not> ban_over now e) list) \<inter> pl_adr ` set (map lift_ban us) = {}"
  proof (rule equals0I)
    fix a
    assume a: "a \<in> pl_adr ` set (filter (\<lambda>e. \<not> ban_over now e) list) \<inter> pl_adr ` set (map lift_ban us)"
    then obtain x where x: "x \<in> set list" "\<not> ban_over now x" "pl_adr x = a" by auto
    from a obtain u where u: "u \<in> set us" "pl_adr u = a" by auto
    then have "u \<in> set list" "ban_over now u" by (simp_all add: us)
    moreover have "x = u" using d x u(2) calculation(1) by (metis distinct_map inj_onD)
    ultimately show False using x(2) by simp
  qed
  have l: "set (fst (unban_list p now list d)) = set (filter (\<lambda>e. \<not> ban_over now e) list) \<union> set (map lift_ban us)"
    "distinct (map pl_adr (fst (unban_list p now list d)))"
    using foldl_peers_insert [OF df dl dis] by (simp_all only: fst_eq)
  then show set: "set (fst (unban_list p now list d)) = {e \<in> set list. \<not> ban_over now e} \<union> lift_ban ` {e \<in> set list. ban_over now e}"
    by (simp add: us)
  have "set list - set us = {e \<in> set list. \<not> ban_over now e}" by (auto simp: us)
  then show "list_ok c p allow t (fst (unban_list p now list d)) (snd (unban_list p now list d))"
    using lift_bans_ok [OF assms _ du] us set l(2) unfolding snd_eq by (auto elim!: list_ok_same)
  show "list_ok c q allow' t list' (snd (unban_list p now list d))" if "other_list q p" "list_ok c q allow' t list' d"
    using that(2) unfolding snd_eq by (induction us arbitrary: d) (simp_all add: list_ok_other [OF that(1)])
qed

lemma unban_ok:
  assumes "peers_ok c t s"
  shows "peers_ok c t (unban now s)"
    "set (pd_white (unban now s)) = {e \<in> set (pd_white s). \<not> ban_over now e} \<union> lift_ban ` {e \<in> set (pd_white s). ban_over now e}"
    "set (pd_gray (unban now s)) = {e \<in> set (pd_gray s). \<not> ban_over now e} \<union> lift_ban ` {e \<in> set (pd_gray s). ban_over now e}"
    "pd_exclusive (unban now s) = pd_exclusive s"
proof -
  obtain g d where g: "unban_list GRAY_LIST now (pd_gray s) (pd_db s) = (g, d)" by fastforce
  obtain w d' where w: "unban_list WHITE_LIST now (pd_white s) d = (w, d')" by fastforce
  have G: "list_ok c GRAY_LIST (\<lambda>e. False) t (pd_gray s) (pd_db s)" and W: "list_ok c WHITE_LIST (fresh_seed c) t (pd_white s) (pd_db s)"
    using assms by (simp_all add: peers_ok_def)
  note 1 = unban_list_ok [OF G, where now = now, unfolded g fst_conv snd_conv]
  note 2 = unban_list_ok [OF 1(3) [OF other_lists(1) W], where now = now, unfolded w fst_conv snd_conv]
  have u: "unban now s = s\<lparr>pd_gray := g, pd_white := w, pd_db := d'\<rparr>" by (simp add: unban_def g w)
  show "set (pd_white (unban now s)) = {e \<in> set (pd_white s). \<not> ban_over now e} \<union> lift_ban ` {e \<in> set (pd_white s). ban_over now e}"
    "set (pd_gray (unban now s)) = {e \<in> set (pd_gray s). \<not> ban_over now e} \<union> lift_ban ` {e \<in> set (pd_gray s). ban_over now e}"
    "pd_exclusive (unban now s) = pd_exclusive s"
    using 1(2) 2(2) by (simp_all add: u)
  then have "pl_adr ` set (pd_white (unban now s)) = pl_adr ` set (pd_white s)" "pl_adr ` set (pd_gray (unban now s)) = pl_adr ` set (pd_gray s)"
    by (simp_all only: lift_image)
  then show "peers_ok c t (unban now s)"
    using assms 2(1) 2(3) [OF other_lists(2) 1(1)] unfolding peers_ok_def by (simp add: u)
qed

section \<open>The operations keep the invariant\<close>

lemma peers_ok_mono: "peers_ok c t s \<Longrightarrow> t \<le> t' \<Longrightarrow> peers_ok c t' s"
  by (auto simp: peers_ok_def intro: list_ok_mono)

lemma peers_ok_draws [simp]: "peers_ok c t (s\<lparr>pd_draws := n\<rparr>) \<longleftrightarrow> peers_ok c t s"
  by (simp add: peers_ok_def)

lemma white_put_ok:
  assumes "peers_ok c t s" "entry_ok c t e" "pl_adr e \<in> pl_adr ` set (pd_gray s) \<Longrightarrow> is_seed c (pl_adr e)"
  shows "peers_ok c t (s\<lparr>pd_white := peers_insert e (peers_erase (pl_adr e) (pd_white s)), pd_db := update_db WHITE_LIST e (pd_db s)\<rparr>)"
  using assms list_ok_put [of c WHITE_LIST "fresh_seed c" t "pd_white s" "pd_db s" e]
    list_ok_other(1) [OF other_lists(2), of c "\<lambda>e. False" t "pd_gray s" "pd_db s" e]
  by (auto simp: peers_ok_def peers_put_list(1)) (auto simp: peers_put_def)

lemma gray_put_ok:
  assumes "peers_ok c t s" "entry_ok c t e" "pl_adr e \<in> pl_adr ` set (pd_white s) \<Longrightarrow> is_seed c (pl_adr e)"
  shows "peers_ok c t (s\<lparr>pd_gray := peers_insert e (peers_erase (pl_adr e) (pd_gray s)), pd_db := update_db GRAY_LIST e (pd_db s)\<rparr>)"
  using assms list_ok_put [of c GRAY_LIST "\<lambda>e. False" t "pd_gray s" "pd_db s" e]
    list_ok_other(1) [OF other_lists(1), of c "fresh_seed c" t "pd_white s" "pd_db s" e]
  by (auto simp: peers_ok_def peers_put_list(1)) (auto simp: peers_put_def, metis image_eqI)

lemma gray_erase_ok:
  assumes "peers_ok c t s"
  shows "peers_ok c t (s\<lparr>pd_gray := peers_erase a (pd_gray s), pd_db := del_db GRAY_LIST a (pd_db s)\<rparr>)"
  using assms list_ok_erase [of c GRAY_LIST "\<lambda>e. False" t "pd_gray s" "pd_db s" a]
    list_ok_other(2) [OF other_lists(1), of c "fresh_seed c" t "pd_white s" "pd_db s" a]
  by (auto simp: peers_ok_def peers_erase_facts)

lemma new_entry_facts [simp]:
  "pl_adr (new_entry a r) = a" "pe_ban_until (new_entry a r) = 0" "pe_error (new_entry a r) = []" "pl_reserved (new_entry a r) = 0"
  by (simp_all add: new_entry_def)

lemma fits64_Nil [simp]: "fits64 []"
  by (simp add: fits64_def)

lemma entry_no_ban: "pe_ban_until e = 0 \<Longrightarrow> valid_peer_entry e \<Longrightarrow> entry_ok c t e"
  by (simp add: entry_ok_def)

lemma peers_ok_found:
  assumes "peers_ok c t s"
  shows "peers_find a (pd_white s) = Some e \<Longrightarrow> pl_adr e = a \<and> entry_ok c t e \<and> e \<in> set (pd_white s) \<and> (a \<in> pl_adr ` set (pd_gray s) \<longrightarrow> is_seed c a)"
    "peers_find a (pd_gray s) = Some e \<Longrightarrow> pl_adr e = a \<and> entry_ok c t e \<and> e \<in> set (pd_gray s) \<and> (a \<in> pl_adr ` set (pd_white s) \<longrightarrow> is_seed c a)"
  using assms by (auto simp: peers_ok_def list_ok_def peers_find_iff)

lemma add_incoming_peer_impl_ok:
  assumes "peers_ok c t s"
  shows "peers_ok c t (add_incoming_peer_impl addr peer_id s)"
proof (cases "na_port addr = 0 \<or> peers_find addr (pd_white s) \<noteq> None \<or> peers_find addr (pd_gray s) \<noteq> None")
  case True
  with assms show ?thesis by (auto simp: add_incoming_peer_impl_def)
next
  case False
  define e where "e = (new_entry addr (pd_random s (pd_draws s)))\<lparr>pl_id := peer_id\<rparr>"
  have e: "pl_adr e = addr" "entry_ok c t e" by (simp_all add: e_def entry_ok_def valid_peer_entry_def)
  have s1: "peers_ok c t (s\<lparr>pd_draws := pd_draws s + 1\<rparr>)" using assms by simp
  have "peers_ok c t (s\<lparr>pd_draws := pd_draws s + 1,
      pd_gray := peers_insert e (peers_erase (pl_adr e) (pd_gray s)), pd_db := update_db GRAY_LIST e (pd_db s)\<rparr>)"
    using gray_put_ok [OF s1 e(2)] False e(1) by (simp add: peers_find_None)
  with False e(1) show ?thesis
    by (simp add: add_incoming_peer_impl_def draw_def Let_def e_def [symmetric] peers_erase_absent)
qed

lemma add_incoming_peer_ok: "peers_ok c t s \<Longrightarrow> peers_ok c t (add_incoming_peer c addr peer_id now s)"
  by (simp add: add_incoming_peer_def trim_ok(1) add_incoming_peer_impl_ok unban_ok(1))

lemma merge_peerlist_from_p2p_ok: 
  assumes "peers_ok c t s"
  shows "peers_ok c t (foldl (\<lambda>s pp. add_incoming_peer_impl (pl_adr pp) (pl_id pp) s) (unban now s) outer_bs)"
    "peers_ok c t (merge_peerlist_from_p2p c outer_bs now s)"
proof -
  have "peers_ok c t (foldl (\<lambda>s pp. add_incoming_peer_impl (pl_adr pp) (pl_id pp) s) s' outer_bs)" if "peers_ok c t s'" for s'
    using that by (induction outer_bs arbitrary: s') (simp_all add: add_incoming_peer_impl_ok)
  from this [OF unban_ok(1) [OF assms]]
  show "peers_ok c t (foldl (\<lambda>s pp. add_incoming_peer_impl (pl_adr pp) (pl_id pp) s) (unban now s) outer_bs)" .
  then show "peers_ok c t (merge_peerlist_from_p2p c outer_bs now s)"
    by (simp add: merge_peerlist_from_p2p_def trim_ok(1))
qed

lemma set_peer_just_seen_ok:
  assumes "peers_ok c t s"
  shows "peers_ok c t (set_peer_just_seen c peer_id addr now reset s)"
proof -
  define s1 where "s1 = (if peers_find addr (pd_gray s) \<noteq> None
    then s\<lparr>pd_gray := peers_erase addr (pd_gray s), pd_db := del_db GRAY_LIST addr (pd_db s)\<rparr> else s)"
  define s2 where "s2 = snd (draw s1)"
  define e0 where "e0 = (case peers_find addr (pd_white s2) of None \<Rightarrow> new_entry addr (fst (draw s1)) | Some e \<Rightarrow> e)"
  define e1 where "e1 = e0\<lparr>pl_id := peer_id, pe_ban_until := 0\<rparr>"
  define e where "e = (if reset \<and> \<not> is_seed c addr then e1\<lparr>pe_next_connection_attempt := 0\<rparr> else e1)\<lparr>pl_last_seen := now\<rparr>"
  have "peers_ok c t s1" using assms gray_erase_ok by (simp add: s1_def)
  then have s2: "peers_ok c t s2" by (simp add: s2_def draw_def)
  have g: "addr \<notin> pl_adr ` set (pd_gray s2)"
    by (auto simp: s2_def s1_def draw_def peers_erase_facts peers_find_None split: if_splits)
  have "pl_adr e0 = addr" "valid_peer_entry e0"
    using peers_ok_found(1) [OF s2] by (auto simp: e0_def entry_ok_def valid_peer_entry_def split: option.splits)
  then have e: "pl_adr e = addr" "entry_ok c t e"
    by (simp_all add: e_def e1_def entry_no_ban valid_peer_entry_def)
  have "set_peer_just_seen c peer_id addr now reset s =
      s2\<lparr>pd_white := peers_insert e (peers_erase addr (pd_white s2)), pd_db := update_db WHITE_LIST e (pd_db s2)\<rparr>"
    unfolding set_peer_just_seen_def Let_def s1_def [symmetric] split_beta s2_def [symmetric] e0_def [symmetric] e1_def [symmetric] e_def [symmetric] ..
  with white_put_ok [OF s2 e(2)] e(1) g show ?thesis by simp
qed

text \<open>Times before the year 2106.\<close>

definition time_ok :: "nat \<Rightarrow> timestamp \<Rightarrow> bool" where
  "time_ok t now \<longleftrightarrow> t \<le> unat now \<and> unat now + 600 < 2 ^ 32"

lemmas periods = BAN_PERIOD_def RECONNECT_PERIOD_def PRIORITY_RECONNECT_PERIOD_def

lemma unat_later: "time_ok t now \<Longrightarrow> unat p \<le> 600 \<Longrightarrow> unat (now + p) = unat now + unat p"
  by (rule unat_add_lem [THEN iffD1]) (simp add: time_ok_def)

lemma period_le: "period c a \<le> 600" "period c a = (if is_priority c a then 30 else 600)"
  by (simp_all add: period_def periods)

lemma delay_connection_attempt_ok:
  assumes "peers_ok c t s" "time_ok t now"
  shows "peers_ok c t (delay_connection_attempt c addr now s)"
proof (cases "peers_find addr (pd_white s)")
  case (Some e)
  define e' where "e' = e\<lparr>pe_next_connection_attempt := now + (if \<not> is_priority c addr then BAN_PERIOD else PRIORITY_RECONNECT_PERIOD)\<rparr>"
  from peers_ok_found(1) [OF assms(1) Some] have e: "pl_adr e = addr" "entry_ok c t e" "addr \<in> pl_adr ` set (pd_gray s) \<Longrightarrow> is_seed c addr" by simp_all
  have "pe_ban_until e \<le> now + (if \<not> is_priority c addr then BAN_PERIOD else PRIORITY_RECONNECT_PERIOD)"
    using e(1,2) assms(2) unat_later [OF assms(2), of BAN_PERIOD] unat_later [OF assms(2), of PRIORITY_RECONNECT_PERIOD]
    by (auto simp: entry_ok_def word_le_nat_alt period_le time_ok_def periods)
  with e have "entry_ok c t e'" "pl_adr e' = addr" by (simp_all add: e'_def entry_ok_def valid_peer_entry_def)
  with white_put_ok [OF assms(1), of e'] e(3) Some show ?thesis
    by (simp add: delay_connection_attempt_def e'_def [symmetric] Let_def)
qed (simp add: assms(1) delay_connection_attempt_def)

lemma ban_entry_ok:
  assumes "entry_ok c t e" "time_ok t now" "fits64 error" "unat p = period c (pl_adr e)"
  shows "entry_ok c (unat now) (ban_entry error (now + p) e)"
  using assms unat_later [OF assms(2), of p] period_le(1) [of c "pl_adr e"]
  by (simp add: entry_ok_def ban_entry_def valid_peer_entry_def)

lemma exclusive_put_ok:
  assumes "peers_ok c t s" "pe_ban_until e \<le> pe_next_connection_attempt e"
  shows "peers_ok c t (s\<lparr>pd_exclusive := peers_insert e (peers_erase (pl_adr e) (pd_exclusive s))\<rparr>)"
  using assms peers_put_list(2) [of "pd_exclusive s" e]
  by (auto simp: peers_ok_def peers_put_list(1) peers_put_def)

lemma set_peer_banned_ok:
  assumes "peers_ok c t s" "time_ok t now" "fits64 error"
  shows "peers_ok c (unat now) (set_peer_banned c addr error now s)"
proof (cases "peers_find addr (pd_exclusive s)")
  case (Some e)
  have "distinct (map pl_adr (pd_exclusive s))" using assms(1) by (simp add: peers_ok_def)
  with Some have "pl_adr e = addr" by (simp add: peers_find_iff)
  with exclusive_put_ok [OF assms(1), of "ban_entry error (now + PRIORITY_RECONNECT_PERIOD) e"] Some assms(2) show ?thesis
    by (auto simp: set_peer_banned_def Let_def ban_entry_def time_ok_def intro: peers_ok_mono)
next
  case None
  define p where "p = (if is_priority c addr then PRIORITY_RECONNECT_PERIOD else BAN_PERIOD)"
  define s1 where "s1 = (case peers_find addr (pd_gray s) of None \<Rightarrow> s
    | Some e \<Rightarrow> s\<lparr>pd_gray := peers_insert (ban_entry error (now + p) e) (peers_erase addr (pd_gray s)),
        pd_db := update_db GRAY_LIST (ban_entry error (now + p) e) (pd_db s)\<rparr>)"
  have s: "peers_ok c (unat now) s" using assms(1,2) by (auto simp: time_ok_def intro: peers_ok_mono)
  have t: "time_ok (unat now) now" using assms(2) by (simp add: time_ok_def)
  have adr: "pl_adr (ban_entry error u e) = pl_adr e" for u e by (simp add: ban_entry_def)
  have s1: "peers_ok c (unat now) s1"
  proof (cases "peers_find addr (pd_gray s)")
    case (Some e)
    from peers_ok_found(2) [OF s Some] have e: "pl_adr e = addr" "entry_ok c (unat now) e" "addr \<in> pl_adr ` set (pd_white s) \<Longrightarrow> is_seed c addr" by simp_all
    have "entry_ok c (unat now) (ban_entry error (now + p) e)"
      by (rule ban_entry_ok [OF e(2) t assms(3)]) (simp add: p_def period_def e(1))
    with gray_put_ok [OF s this] e Some show ?thesis by (simp add: s1_def adr)
  qed (simp add: s1_def s)
  define q where "q = (if is_seed c addr then PRIORITY_RECONNECT_PERIOD else p)"
  have eq: "set_peer_banned c addr error now s = (case peers_find addr (pd_white s1) of None \<Rightarrow> s1
    | Some e \<Rightarrow> s1\<lparr>pd_white := peers_insert (ban_entry error (now + q) e) (peers_erase addr (pd_white s1)),
        pd_db := update_db WHITE_LIST (ban_entry error (now + q) e) (pd_db s1)\<rparr>)"
    unfolding set_peer_banned_def None option.case Let_def p_def [symmetric] s1_def [symmetric] q_def [symmetric] ..
  show ?thesis
  proof (cases "peers_find addr (pd_white s1)")
    case (Some e)
    from peers_ok_found(1) [OF s1 Some] have e: "pl_adr e = addr" "entry_ok c (unat now) e" "addr \<in> pl_adr ` set (pd_gray s1) \<Longrightarrow> is_seed c addr" by simp_all
    have q: "unat q \<le> period c addr" "unat q \<le> 600" by (simp_all add: q_def p_def period_le(2) periods)
    have "entry_ok c (unat now) (ban_entry error (now + q) e)"
      using q e unat_later [OF t q(2)] assms(3) by (simp add: entry_ok_def ban_entry_def valid_peer_entry_def)
    from white_put_ok [OF s1 this] e Some show ?thesis by (simp add: eq adr)
  qed (simp add: eq s1)
qed

section \<open>The next peer\<close>

text \<open>
  A peer is due when the time of its next attempt has passed, or is now and the peer was seen before;
  \<open>earliest\<close> is the one to try first.
\<close>

definition due :: "timestamp \<Rightarrow> peer_entry \<Rightarrow> bool" where
  "due now e \<longleftrightarrow> pe_next_connection_attempt e < now \<or> pe_next_connection_attempt e = now \<and> pl_last_seen e \<noteq> 0"

definition usable :: "(peer_entry \<Rightarrow> bool) \<Rightarrow> timestamp \<Rightarrow> peer_entry list \<Rightarrow> peer_entry \<Rightarrow> bool" where
  "usable skip now list e \<longleftrightarrow> e \<in> set list \<and> \<not> skip e \<and> due now e"

definition earliest :: "(peer_entry \<Rightarrow> bool) \<Rightarrow> timestamp \<Rightarrow> peer_entry list \<Rightarrow> peer_entry \<Rightarrow> bool" where
  "earliest skip now list e \<longleftrightarrow> usable skip now list e \<and> (\<forall>x. usable skip now list x \<longrightarrow> next_key e \<le> next_key x)"

lemma not_less_max: "NOT x < (- 1 :: u32) \<longleftrightarrow> x \<noteq> 0"
proof -
  have "NOT x = - 1 \<longleftrightarrow> x = 0" using bit.compl_eq_compl_iff [of x 0] by simp
  then show ?thesis using word_order.not_eq_extremum [of "NOT x"] by simp
qed

lemma next_key_less: "next_key e < time_key now 0 0 \<longleftrightarrow> due now e"
  using not_less_max [of "pl_last_seen e"] by (auto simp: next_key_def time_key_def less_prod_def due_def)

lemma takeWhile_sort_key:
  assumes "e \<in> set list" "f e < k"
  shows "e \<in> set (takeWhile (\<lambda>e. f e < (k :: 'k::linorder)) (sort_key f list))"
proof -
  have s: "sorted (map f (sort_key f list))" by simp
  have "\<not> f x < k" if x: "x \<in> set (dropWhile (\<lambda>e. f e < k) (sort_key f list))" for x
  proof -
    have "dropWhile (\<lambda>e. f e < k) (sort_key f list) \<noteq> []" using x by (metis emptyE set_empty)
    then obtain y ys where y: "dropWhile (\<lambda>e. f e < k) (sort_key f list) = y # ys" by (cases "dropWhile (\<lambda>e. f e < k) (sort_key f list)") auto
    then have "\<not> f y < k" by (metis dropWhile_eq_Cons_conv)
    moreover have "sorted (map f (y # ys))" using s by (metis y map_append sorted_append takeWhile_dropWhile_id)
    ultimately show ?thesis using x y by (auto simp: not_less intro: order_trans)
  qed
  moreover have "e \<in> set (sort_key f list)" using assms(1) by simp
  ultimately show ?thesis using assms(2) by (metis Un_iff set_append takeWhile_dropWhile_id)
qed

lemma usable_iff: "usable skip now list e \<longleftrightarrow>
    e \<in> set (takeWhile (\<lambda>e. next_key e < time_key now 0 0) (by_next_connection_attempt list)) \<and> \<not> skip e"
  using takeWhile_sort_key [of e list next_key "time_key now 0 0"] set_takeWhileD [of e _ "by_next_connection_attempt list"]
  by (fastforce simp: usable_def next_key_less by_next_connection_attempt_def)

lemma candidate_None: "candidate skip now list = None \<Longrightarrow> \<not> usable skip now list e"
  unfolding usable_iff by (auto simp: candidate_def find_None_iff)

lemma find_least:
  assumes "find P xs = Some x" "sorted (map f xs)" "y \<in> set xs" "P y"
  shows "f x \<le> f y"
  using assms by (induction xs) (auto split: if_splits)

lemma candidate_Some:
  assumes "candidate skip now list = Some e"
  shows "earliest skip now list e"
proof -
  let ?due = "takeWhile (\<lambda>e. next_key e < time_key now 0 0) (by_next_connection_attempt list)"
  have "usable skip now list e" using assms unfolding usable_iff by (auto simp: candidate_def find_Some_iff)
  moreover have "sorted (map next_key ?due)"
    by (metis by_next_connection_attempt_def map_append sorted_append sorted_sort_key takeWhile_dropWhile_id)
  then have "next_key e \<le> next_key x" if "usable skip now list x" for x
    using find_least [OF assms [unfolded candidate_def], of next_key x] that unfolding usable_iff by blast
  ultimately show ?thesis by (simp add: earliest_def)
qed

lemma earliestD:
  assumes "earliest skip now list e"
  shows "usable skip now list e" "e \<in> set list" "\<not> skip e" "due now e" "pe_next_connection_attempt e \<le> now"
  using assms by (auto simp: earliest_def usable_def due_def)

lemma later_ok:
  assumes "entry_ok c t e" "pe_next_connection_attempt e \<le> now" "time_ok t now" "unat p \<le> 600"
  shows "entry_ok c t (e\<lparr>pe_next_connection_attempt := now + p\<rparr>)"
proof -
  have "pe_ban_until e \<le> now" using assms(1,2) by (auto simp: entry_ok_def)
  then have "pe_ban_until e \<le> now + p" using unat_later [OF assms(3,4)] by (simp add: word_le_nat_alt)
  with assms(1) show ?thesis by (simp add: entry_ok_def valid_peer_entry_def)
qed

lemma remove1_white:
  assumes "peers_ok c t s"
  shows "e \<in> set (pd_white s) \<Longrightarrow> remove1 e (pd_white s) = peers_erase (pl_adr e) (pd_white s)"
    "e \<in> set (pd_gray s) \<Longrightarrow> remove1 e (pd_gray s) = peers_erase (pl_adr e) (pd_gray s)"
    "e \<in> set (pd_exclusive s) \<Longrightarrow> remove1 e (pd_exclusive s) = peers_erase (pl_adr e) (pd_exclusive s)"
  using assms by (auto simp: peers_ok_def list_ok_def intro: peers_remove1)

text \<open>What the search of the lists comes to.\<close>

definition skipped :: "peer_config \<Rightarrow> network_address set \<Rightarrow> network_address \<Rightarrow> bool" where
  "skipped c connected a \<longleftrightarrow> a \<in> connected \<or> 2 \<le> length (filter (\<lambda>cc. cc \<in> connected) (pc_seed_nodes c)) \<and> is_seed c a"

definition delayed :: "peer_config \<Rightarrow> timestamp \<Rightarrow> peer_entry \<Rightarrow> peer_entry" where
  "delayed c now e = e\<lparr>pe_next_connection_attempt :=
     now + (if is_priority c (pl_adr e) then PRIORITY_RECONNECT_PERIOD else RECONNECT_PERIOD)\<rparr>"

text \<open>Whether the draw of \<open>get_peer_to_connect\<close> admits the white list.\<close>

definition draws_white :: "peer_config \<Rightarrow> peer_db \<Rightarrow> bool" where
  "draws_white c s \<longleftrightarrow> unat ((ucast (pd_random s (pd_draws s)) :: u32) mod 100) < pc_whitelist_connections_percent c"

lemma unban_draws [simp]: "pd_random (unban now s) = pd_random s" "pd_draws (unban now s) = pd_draws s"
  by (simp_all add: unban_def split_beta)

lemma get_peer_cases:
  assumes "pd_exclusive s = []" "get_peer_to_connect c connected now s = (r, s')"
  defines "skip \<equiv> \<lambda>e. skipped c connected (pl_adr e)"
  defines "try_white \<equiv> draws_white c s \<and> (\<exists>e. usable skip now (pd_white (unban now s)) e)"
  obtains (white) e n where try_white "earliest skip now (pd_white (unban now s)) e"
      "r = Some (pl_adr e)" "s' = (unban now s)\<lparr>pd_draws := n, pd_white := peers_insert (delayed c now e) (remove1 e (pd_white (unban now s))),
        pd_db := update_db WHITE_LIST (delayed c now e) (pd_db (unban now s))\<rparr>"
  | (gray) e n where "\<not> try_white" "earliest skip now (pd_gray (unban now s)) e"
      "r = Some (pl_adr e)" "s' = (unban now s)\<lparr>pd_draws := n, pd_gray := peers_insert (delayed c now e) (remove1 e (pd_gray (unban now s))),
        pd_db := update_db GRAY_LIST (delayed c now e) (pd_db (unban now s))\<rparr>"
  | (none) n where "\<not> try_white" "r = None" "s' = (unban now s)\<lparr>pd_draws := n\<rparr>" "\<And>e. \<not> usable skip now (pd_gray (unban now s)) e"
proof -
  define u where "u = unban now s"
  define w where "w = candidate skip now (pd_white u)"
  define g where "g = candidate skip now (pd_gray u)"
  have due: "w = Some e \<Longrightarrow> pe_next_connection_attempt e \<le> now" "g = Some e \<Longrightarrow> pe_next_connection_attempt e \<le> now" for e
    using earliestD(5) [OF candidate_Some] by (simp_all add: w_def g_def)
  have use: "draws_white c s \<longleftrightarrow> unat ((ucast (fst (draw u)) :: u32) mod 100) < pc_whitelist_connections_percent c"
    by (simp add: draws_white_def draw_def u_def)
  have eq: "get_peer_to_connect c connected now s =
      (case (if draws_white c s then w else None) of
         Some e \<Rightarrow> (Some (pl_adr e), u\<lparr>pd_draws := pd_draws u + 1, pd_white := peers_insert (delayed c now e) (remove1 e (pd_white u)),
               pd_db := update_db WHITE_LIST (delayed c now e) (pd_db u)\<rparr>)
       | None \<Rightarrow> (case g of
            Some e \<Rightarrow> (Some (pl_adr e), u\<lparr>pd_draws := pd_draws u + 1, pd_gray := peers_insert (delayed c now e) (remove1 e (pd_gray u)),
                    pd_db := update_db GRAY_LIST (delayed c now e) (pd_db u)\<rparr>)
          | None \<Rightarrow> (None, u\<lparr>pd_draws := pd_draws u + 1\<rparr>)))"
    using due by (cases w; cases g) (simp_all add: get_peer_to_connect_def assms(1) Let_def u_def [symmetric] skipped_def [symmetric]
        skip_def [symmetric] w_def [symmetric] g_def [symmetric] use draw_def delayed_def)
  have w: "\<exists>e. w = Some e \<and> earliest skip now (pd_white u) e" if try_white
    using that candidate_None [of skip now "pd_white u"] candidate_Some [of skip now "pd_white u"]
    unfolding try_white_def u_def [symmetric] w_def [symmetric] by (cases w) auto
  show thesis
  proof (cases try_white)
    case True
    obtain e where e: "w = Some e" "earliest skip now (pd_white u) e" using w [OF True] by blast
    have "draws_white c s" using True by (simp add: try_white_def)
    with e show thesis using assms(2) True by (intro white [folded u_def, of e "pd_draws u + 1"]) (auto simp: eq)
  next
    case False
    then have n: "(if draws_white c s then w else None) = None"
      using candidate_Some [of skip now "pd_white u", THEN earliestD(1)] unfolding try_white_def u_def [symmetric] w_def [symmetric]
      by (cases w) auto
    show thesis
    proof (cases g)
      case (Some e)
      from candidate_Some [OF this [unfolded g_def]] show thesis
        using assms(2) Some n False by (intro gray [folded u_def, of e "pd_draws u + 1"]) (auto simp: eq)
    next
      case N: None
      from candidate_None [OF this [unfolded g_def]] show thesis
        using assms(2) N n False by (intro none [folded u_def, of "pd_draws u + 1"]) (auto simp: eq)
    qed
  qed
qed

lemma get_peer_exclusive:
  assumes "pd_exclusive s \<noteq> []" "get_peer_to_connect c connected now s = (r, s')"
  obtains (some) e where "earliest (\<lambda>e. pl_adr e \<in> connected) now (pd_exclusive s) e" "r = Some (pl_adr e)"
      "s' = s\<lparr>pd_exclusive := peers_insert (e\<lparr>pe_next_connection_attempt := now + PRIORITY_RECONNECT_PERIOD\<rparr>) (remove1 e (pd_exclusive s))\<rparr>"
  | (none) "r = None" "s' = s" "\<And>e. \<not> usable (\<lambda>e. pl_adr e \<in> connected) now (pd_exclusive s) e"
proof (cases "candidate (\<lambda>e. pl_adr e \<in> connected) now (pd_exclusive s)")
  case None
  with candidate_None [OF this] assms show thesis by (intro none) (simp_all add: get_peer_to_connect_def)
next
  case (Some e)
  with candidate_Some [OF this] assms show thesis
    by (intro some [of e]) (auto simp: get_peer_to_connect_def Let_def)
qed

lemma delayed_ok:
  assumes "entry_ok c t e" "pe_next_connection_attempt e \<le> now" "time_ok t now"
  shows "entry_ok c t (delayed c now e)" "pl_adr (delayed c now e) = pl_adr e"
    "unat now + 30 \<le> unat (pe_next_connection_attempt (delayed c now e))"
  using later_ok [OF assms, of "if is_priority c (pl_adr e) then PRIORITY_RECONNECT_PERIOD else RECONNECT_PERIOD"]
    unat_later [OF assms(3), of "if is_priority c (pl_adr e) then PRIORITY_RECONNECT_PERIOD else RECONNECT_PERIOD"]
  by (simp_all add: delayed_def periods)

lemma peers_ok_entries:
  assumes "peers_ok c t s"
  shows "e \<in> set (pd_white s) \<Longrightarrow> entry_ok c t e" "e \<in> set (pd_gray s) \<Longrightarrow> entry_ok c t e"
    "a \<in> pl_adr ` set (pd_white s) \<Longrightarrow> a \<in> pl_adr ` set (pd_gray s) \<Longrightarrow> is_seed c a"
    "e \<in> set (pd_exclusive s) \<Longrightarrow> pe_ban_until e \<le> pe_next_connection_attempt e"
  using assms unfolding peers_ok_def list_ok_def by blast+

lemma get_peer_to_connect_ok:
  assumes "peers_ok c t s" "time_ok t now" "get_peer_to_connect c connected now s = (r, s')"
  shows "peers_ok c t s'"
proof (cases "pd_exclusive s = []")
  case True
  have u: "peers_ok c t (unban now s)" by (rule unban_ok(1) [OF assms(1)])
  note ok = peers_ok_entries [OF u]
  from True assms(3) show ?thesis
  proof (cases rule: get_peer_cases)
    case (white e n)
    note e = earliestD [OF white(2)]
    note d = delayed_ok [OF ok(1) [OF e(2)] e(5) assms(2)]
    have "pl_adr e \<in> pl_adr ` set (pd_white (unban now s))" using e(2) by blast
    from white_put_ok [of c t "unban now s\<lparr>pd_draws := n\<rparr>" "delayed c now e"] ok(3) [OF this] u d white(4) remove1_white(1) [OF u e(2)]
    show ?thesis by simp
  next
    case (gray e n)
    note e = earliestD [OF gray(2)]
    note d = delayed_ok [OF ok(2) [OF e(2)] e(5) assms(2)]
    have "pl_adr e \<in> pl_adr ` set (pd_gray (unban now s))" using e(2) by blast
    from gray_put_ok [of c t "unban now s\<lparr>pd_draws := n\<rparr>" "delayed c now e"] ok(3) [OF _ this] u d gray(4) remove1_white(2) [OF u e(2)]
    show ?thesis by simp
  next
    case (none n)
    with u show ?thesis by simp
  qed
next
  case False
  then show ?thesis using assms(3)
  proof (cases rule: get_peer_exclusive)
    case (some e)
    note e = earliestD [OF some(1)]
    have "pe_ban_until e \<le> now" using peers_ok_entries(4) [OF assms(1) e(2)] e(5) by simp
    then have "pe_ban_until e \<le> now + PRIORITY_RECONNECT_PERIOD"
      using unat_later [OF assms(2), of PRIORITY_RECONNECT_PERIOD] by (simp add: word_le_nat_alt periods)
    with exclusive_put_ok [OF assms(1), of "e\<lparr>pe_next_connection_attempt := now + PRIORITY_RECONNECT_PERIOD\<rparr>"]
      remove1_white(3) [OF assms(1) e(2)] show ?thesis by (simp add: some(3))
  next
    case none
    with assms(1) show ?thesis by simp
  qed
qed

text \<open>An entry that may be tried again is not banned, before or after its ban was lifted.\<close>

lemma due_not_banned:
  assumes "pe_next_connection_attempt e' \<le> now" "e \<in> E" "inj_on pl_adr E" "pl_adr e' = pl_adr e" "\<forall>x \<in> E. entry_ok c t x"
    and "e' \<in> {e \<in> E. \<not> ban_over now e} \<union> lift_ban ` {e \<in> E. ban_over now e}"
  shows "pe_ban_until e \<le> now"
proof (cases "ban_over now e")
  case True
  then show ?thesis by (auto simp: ban_over_def ban_key_def time_key_def less_prod_def)
next
  case False
  from assms(4,6) obtain x where x: "x \<in> E" "pl_adr x = pl_adr e" "e' = (if ban_over now x then lift_ban x else x)" by auto
  then have "x = e" using inj_onD [OF assms(3)] assms(2) by blast
  with x False assms(1,2,5) show ?thesis by (auto simp: entry_ok_def)
qed

text \<open>An address that is in one list only is not banned if it may be tried again there.\<close>

lemma not_banned:
  assumes ok: "peers_ok c t s" and one: "peers_find (pl_adr e) (pd_white s) = None \<or> peers_find (pl_adr e) (pd_gray s) = None"
    and e: "e \<in> set (pd_white (unban now s)) \<or> e \<in> set (pd_gray (unban now s))" "pe_next_connection_attempt e \<le> now"
  shows "\<not> is_peer_banned (pl_adr e) now s"
proof -
  have W: "inj_on pl_adr (set (pd_white s))" "\<forall>x \<in> set (pd_white s). entry_ok c t x" "distinct (map pl_adr (pd_white s))"
    and G: "inj_on pl_adr (set (pd_gray s))" "\<forall>x \<in> set (pd_gray s). entry_ok c t x" "distinct (map pl_adr (pd_gray s))"
    using ok by (simp_all add: peers_ok_def list_ok_def distinct_map)
  have known: "e \<in> set (pd_white (unban now s)) \<Longrightarrow> pl_adr e \<in> pl_adr ` set (pd_white s)"
    "e \<in> set (pd_gray (unban now s)) \<Longrightarrow> pl_adr e \<in> pl_adr ` set (pd_gray s)"
    using unban_ok(2,3) [OF ok, of now] by auto
  have "pe_ban_until x \<le> now" if x: "peers_find (pl_adr e) (pd_white s) = Some x" for x
  proof -
    have "e \<in> set (pd_white (unban now s))" using e(1) known(2) one x by (auto simp: peers_find_None)
    with due_not_banned [OF e(2) _ W(1) _ W(2), of x] x unban_ok(2) [OF ok, of now] show ?thesis
      by (simp add: peers_find_iff [OF W(3)])
  qed
  moreover have "pe_ban_until x \<le> now" if x: "peers_find (pl_adr e) (pd_gray s) = Some x" for x
  proof -
    have "e \<in> set (pd_gray (unban now s))" using e(1) known(1) one x by (auto simp: peers_find_None)
    with due_not_banned [OF e(2) _ G(1) _ G(2), of x] x unban_ok(3) [OF ok, of now] show ?thesis
      by (simp add: peers_find_iff [OF G(3)])
  qed
  ultimately show ?thesis by (auto simp: is_peer_banned_def not_less split: option.splits)
qed

text \<open>After the choice the peer is put off.\<close>

definition put_off :: "timestamp \<Rightarrow> network_address \<Rightarrow> peer_entry list \<Rightarrow> bool" where
  "put_off now a list \<longleftrightarrow> (\<exists>e \<in> set list. pl_adr e = a \<and> unat now + 30 \<le> unat (pe_next_connection_attempt e))"

lemma put_offI:
  assumes "remove1 e list = peers_erase (pl_adr e) list" "pl_adr e' = pl_adr e" "unat now + 30 \<le> unat (pe_next_connection_attempt e')"
  shows "put_off now (pl_adr e) (peers_insert e' (remove1 e list))"
proof -
  have "set (peers_insert e' (remove1 e list)) = peers_put e' (set list)"
    using peers_put_list(1) [of e' list] unfolding assms(1,2) .
  with assms(2,3) show ?thesis by (auto simp: put_off_def peers_put_def)
qed

section \<open>Opening the lists\<close>

lemma foldl_read:
  assumes "\<forall>kv \<in> set kvs. from_binary dec_peer_entry (snd kv) = Inr (f (snd kv))"
  shows "foldl (\<lambda>list (suffix, value). case from_binary dec_peer_entry value of
     Inl _ \<Rightarrow> list | Inr peer \<Rightarrow> peers_insert peer list) list kvs = foldl (\<lambda>list e. peers_insert e list) list (map (f \<circ> snd) kvs)"
  using assms by (induction kvs arbitrary: list) (auto simp: case_prod_beta')

lemma read_db_saved:
  assumes "saved p allow E d" "inj_on pl_adr E" "\<forall>e \<in> E. valid_peer_entry e"
  shows "set (read_db p d) = {e \<in> E. db_get d (peer_key p (pl_adr e)) \<noteq> None}" "distinct (map pl_adr (read_db p d))"
proof -
  define kvs where "kvs = db_begin d (text_bytes p) []"
  define f where "f = (\<lambda>v. case from_binary dec_peer_entry v of Inr e \<Rightarrow> e | Inl _ \<Rightarrow> undefined)"
  have wf: "om_wf d" using assms(1) by (simp add: saved_def)
  have bin: "from_binary dec_peer_entry (to_binary enc_peer_entry e) = Inr e" if "e \<in> E" for e
    using assms(3) that by (intro peer_entry.from_to_binary) blast
  have kv: "\<exists>e \<in> E. text_bytes p @ k = peer_key p (pl_adr e) \<and> v = to_binary enc_peer_entry e" if "(k, v) \<in> set kvs" for k v
    using that assms(1) by (auto simp: kvs_def set_db_begin [OF wf] saved_def)
  have f: "f v = e" if "e \<in> E" "v = to_binary enc_peer_entry e" for e v using bin [OF that(1)] that(2) by (simp add: f_def)
  have "\<forall>kv \<in> set kvs. from_binary dec_peer_entry (snd kv) = Inr (f (snd kv))"
    using kv bin f by fastforce
  from foldl_read [OF this] have r: "read_db p d = foldl (\<lambda>list e. peers_insert e list) [] (map (f \<circ> snd) kvs)"
    unfolding read_db_def kvs_def by simp
  have "sorted_wrt (\<lambda>x y. fst x < fst y) kvs" unfolding kvs_def by (rule sorted_db_begin [OF wf])
  then have "distinct (map pl_adr (map (f \<circ> snd) kvs))" using kv
  proof (induction kvs)
    case (Cons x kvs)
    obtain k v where x: "x = (k, v)" by fastforce
    obtain e where e: "e \<in> E" "text_bytes p @ k = peer_key p (pl_adr e)" "v = to_binary enc_peer_entry e"
      using Cons.prems(2) [of k v] x by auto
    have out: "pl_adr (f w) \<noteq> pl_adr (f v)" if kw: "(k', w) \<in> set kvs" for k' w
    proof -
      obtain e' where e': "e' \<in> E" "text_bytes p @ k' = peer_key p (pl_adr e')" "w = to_binary enc_peer_entry e'"
        using Cons.prems(2) [of k' w] kw by auto
      have "k < k'" using Cons.prems(1) kw by (auto simp: x)
      then have "peer_key p (pl_adr e) \<noteq> peer_key p (pl_adr e')" using e(2) e'(2) by (metis less_irrefl same_append_eq)
      then show ?thesis using f [OF e(1,3)] f [OF e'(1,3)] by auto
    qed
    have "pl_adr (f v) \<notin> set (map pl_adr (map (f \<circ> snd) kvs))"
    proof
      assume "pl_adr (f v) \<in> set (map pl_adr (map (f \<circ> snd) kvs))"
      then obtain k' w where "(k', w) \<in> set kvs" "pl_adr (f v) = pl_adr (f w)" by auto
      with out show False by metis
    qed
    moreover have "distinct (map pl_adr (map (f \<circ> snd) kvs))"
      by (rule Cons.IH) (use Cons.prems in auto)
    ultimately show ?case by (simp add: x comp_def)
  qed simp
  from foldl_peers_insert [OF _ this, of "[]"] r have "set (read_db p d) = f ` snd ` set kvs" "distinct (map pl_adr (read_db p d))"
    by (simp_all add: image_comp)
  moreover have "f ` snd ` set kvs = {e \<in> E. db_get d (peer_key p (pl_adr e)) \<noteq> None}"
  proof (intro equalityI subsetI)
    fix x
    assume "x \<in> f ` snd ` set kvs"
    then obtain k v where k: "(k, v) \<in> set kvs" "x = f v" by auto
    from kv [OF k(1)] obtain e where "e \<in> E" "text_bytes p @ k = peer_key p (pl_adr e)" "v = to_binary enc_peer_entry e" by blast
    moreover have "db_get d (text_bytes p @ k) = Some v" using k(1) by (simp add: kvs_def set_db_begin [OF wf])
    ultimately show "x \<in> {e \<in> E. db_get d (peer_key p (pl_adr e)) \<noteq> None}" using f k(2) by simp
  next
    fix x
    assume x: "x \<in> {e \<in> E. db_get d (peer_key p (pl_adr e)) \<noteq> None}"
    then have "db_get d (peer_key p (pl_adr x)) = Some (to_binary enc_peer_entry x)" using assms(1) by (auto simp: saved_def)
    then have "(text_bytes (address_text (pl_adr x)), to_binary enc_peer_entry x) \<in> set kvs"
      by (simp add: kvs_def set_db_begin [OF wf] peer_key_prefix)
    then show "x \<in> f ` snd ` set kvs" using f [of x] x by force
  qed
  ultimately show "set (read_db p d) = {e \<in> E. db_get d (peer_key p (pl_adr e)) \<noteq> None}" "distinct (map pl_adr (read_db p d))"
    by simp_all
qed

lemma saved_present:
  assumes "saved p allow E d"
  shows "saved p allow' {e \<in> E. db_get d (peer_key p (pl_adr e)) \<noteq> None} d"
  using assms unfolding saved_def by (auto) (metis option.distinct(1))+

lemma fresh_seed_entry: "is_seed c a \<Longrightarrow> fresh_seed c (new_entry a r)"
  by (auto simp: fresh_seed_def)

lemma add_seed_ok:
  assumes "peers_ok c t s" "is_seed c a"
  shows "peers_ok c t (add_seed s a)"
proof (cases "peers_find a (pd_white s)")
  case None
  let ?e = "new_entry a (pd_random s (pd_draws s))"
  have n: "a \<notin> pl_adr ` set (pd_white s)" using None by (simp add: peers_find_None)
  have W: "list_ok c WHITE_LIST (fresh_seed c) t (pd_white s) (pd_db s)" using assms(1) by (simp add: peers_ok_def)
  have "db_get (pd_db s) (peer_key WHITE_LIST a) = None"
  proof (rule ccontr)
    assume "\<not> ?thesis"
    then obtain v where "db_get (pd_db s) (text_bytes WHITE_LIST @ text_bytes (address_text a)) = Some v" by (auto simp: peer_key_prefix)
    with W obtain e where "e \<in> set (pd_white s)" "peer_key WHITE_LIST a = peer_key WHITE_LIST (pl_adr e)"
      unfolding list_ok_def saved_def by (metis peer_key_prefix)
    with n show False by (auto simp: peer_key_inj)
  qed
  then have "list_ok c WHITE_LIST (fresh_seed c) t (peers_insert ?e (pd_white s)) (pd_db s)"
    using W n assms(2) peers_insert_facts [where e = ?e and list = "pd_white s"]
    by (auto simp: list_ok_def saved_def entry_ok_def valid_peer_entry_def fresh_seed_entry)
  with assms None show ?thesis
    using peers_insert_facts(1) [of ?e "pd_white s"] by (auto simp: add_seed_def draw_def peers_ok_def)
qed (simp add: add_seed_def assms(1))

lemma add_exclusive_ok: "peers_ok c t s \<Longrightarrow> peers_ok c t (add_exclusive s a)"
  using peers_insert_facts [where e = "new_entry a (pd_random s (pd_draws s))" and list = "pd_exclusive s"]
  by (auto simp: add_exclusive_def draw_def peers_ok_def)

lemma add_exclusive_same [simp]: "pd_white (add_exclusive s a) = pd_white s" "pd_gray (add_exclusive s a) = pd_gray s" "pd_db (add_exclusive s a) = pd_db s"
  by (simp_all add: add_exclusive_def draw_def)

lemma add_seed_same [simp]: "pd_gray (add_seed s a) = pd_gray s"
  by (simp add: add_seed_def draw_def)

lemma add_seed_white: "set (pd_white s) \<subseteq> set (pd_white (add_seed s a))"
  "e \<in> set (pd_white (add_seed s a)) \<Longrightarrow> e \<in> set (pd_white s) \<or> (\<exists>r. e = new_entry a r)"
  using peers_insert_facts(1) [of "new_entry a (pd_random s (pd_draws s))" "pd_white s"]
  by (auto simp: add_seed_def draw_def split: if_splits)

lemma add_seed_addresses: "pl_adr ` set (pd_white (add_seed s a)) = insert a (pl_adr ` set (pd_white s))"
  using peers_insert_facts(1) [of "new_entry a (pd_random s (pd_draws s))" "pd_white s"]
  by (cases "a \<in> pl_adr ` set (pd_white s)") (auto simp: add_seed_def draw_def peers_find_None)

lemma open_peer_db_ok:
  assumes "peers_ok c t s"
  shows "peers_ok c t (open_peer_db c rnd (pd_db s))"
    "set (pd_gray (open_peer_db c rnd (pd_db s))) = set (pd_gray s)"
    "{e \<in> set (pd_white s). \<not> fresh_seed c e} \<subseteq> set (pd_white (open_peer_db c rnd (pd_db s)))"
    "{e \<in> set (pd_white (open_peer_db c rnd (pd_db s))). \<not> fresh_seed c e} \<subseteq> set (pd_white s)"
    "pl_adr ` set (pd_white (open_peer_db c rnd (pd_db s))) = pl_adr ` set (pd_white s) \<union> set (pc_seed_nodes c)"
    "length (pd_gray (open_peer_db c rnd (pd_db s))) = length (pd_gray s)"
proof -
  define d where "d = pd_db s"
  define s0 where "s0 = \<lparr>pd_exclusive = [], pd_white = read_db WHITE_LIST d, pd_gray = read_db GRAY_LIST d, pd_db = d, pd_random = rnd, pd_draws = 0\<rparr>"
  have W: "saved WHITE_LIST (fresh_seed c) (set (pd_white s)) d" "inj_on pl_adr (set (pd_white s))" "\<forall>e \<in> set (pd_white s). entry_ok c t e"
    and G: "saved GRAY_LIST (\<lambda>e. False) (set (pd_gray s)) d" "inj_on pl_adr (set (pd_gray s))" "\<forall>e \<in> set (pd_gray s). entry_ok c t e"
    and D: "\<forall>a. a \<in> pl_adr ` set (pd_white s) \<longrightarrow> a \<in> pl_adr ` set (pd_gray s) \<longrightarrow> is_seed c a"
    and dg: "distinct (map pl_adr (pd_gray s))"
    using assms by (simp_all add: peers_ok_def list_ok_def d_def distinct_map)
  have w: "set (read_db WHITE_LIST d) = {e \<in> set (pd_white s). db_get d (peer_key WHITE_LIST (pl_adr e)) \<noteq> None}" "distinct (map pl_adr (read_db WHITE_LIST d))"
    using read_db_saved [OF W(1,2)] W(3) by (simp_all add: entry_ok_def)
  have g: "set (read_db GRAY_LIST d) = {e \<in> set (pd_gray s). db_get d (peer_key GRAY_LIST (pl_adr e)) \<noteq> None}" "distinct (map pl_adr (read_db GRAY_LIST d))"
    using read_db_saved [OF G(1,2)] G(3) by (simp_all add: entry_ok_def)
  have g': "{e \<in> set (pd_gray s). db_get d (peer_key GRAY_LIST (pl_adr e)) \<noteq> None} = set (pd_gray s)" using G(1) by (auto simp: saved_def)
  have s0: "peers_ok c t s0"
    unfolding peers_ok_def s0_def list_ok_def
    using saved_present [OF W(1)] w saved_present [OF G(1)] g W(3) G(3) D by (auto simp: list_ok_def) 
  have ex: "peers_ok c t (foldl add_exclusive x as) \<and> pd_white (foldl add_exclusive x as) = pd_white x \<and> pd_gray (foldl add_exclusive x as) = pd_gray x"
    if "peers_ok c t x" for x as using that by (induction as arbitrary: x) (simp_all add: add_exclusive_ok)
  have seeds: "peers_ok c t (foldl add_seed x as) \<and> pd_gray (foldl add_seed x as) = pd_gray x \<and> set (pd_white x) \<subseteq> set (pd_white (foldl add_seed x as))
      \<and> (\<forall>e \<in> set (pd_white (foldl add_seed x as)). e \<in> set (pd_white x) \<or> fresh_seed c e)
      \<and> pl_adr ` set (pd_white (foldl add_seed x as)) = pl_adr ` set (pd_white x) \<union> set as"
    if "peers_ok c t x" "\<forall>a \<in> set as. is_seed c a" for x as
    using that
  proof (induction as arbitrary: x)
    case (Cons a as)
    have "peers_ok c t (add_seed x a)" using Cons.prems by (intro add_seed_ok) simp_all
    note IH = Cons.IH [OF this]
    have new: "e \<in> set (pd_white x) \<or> fresh_seed c e" if "e \<in> set (pd_white (add_seed x a))" for e
      using add_seed_white(2) [OF that] fresh_seed_entry [of c a] Cons.prems(2) by auto
    show ?case
      using IH Cons.prems(2) add_seed_white(1) [of x a] new unfolding foldl_Cons add_seed_same add_seed_addresses list.set
      by (intro conjI) (blast, simp, blast, blast, blast)
  qed simp
  have o: "open_peer_db c rnd d = foldl add_seed (foldl add_exclusive s0 (pc_exclusive_nodes c)) (pc_seed_nodes c)"
    by (simp add: open_peer_db_def s0_def)
  have gray: "set (pd_gray s0) = set (pd_gray s)" using g(1) unfolding g' by (simp add: s0_def)
  have R: "peers_ok c t (open_peer_db c rnd d)" "pd_gray (open_peer_db c rnd d) = pd_gray s0" "set (pd_white s0) \<subseteq> set (pd_white (open_peer_db c rnd d))"
      "\<forall>e \<in> set (pd_white (open_peer_db c rnd d)). e \<in> set (pd_white s0) \<or> fresh_seed c e"
      "pl_adr ` set (pd_white (open_peer_db c rnd d)) = pl_adr ` set (pd_white s0) \<union> set (pc_seed_nodes c)"
    unfolding o using seeds [of "foldl add_exclusive s0 (pc_exclusive_nodes c)" "pc_seed_nodes c"] ex [OF s0, of "pc_exclusive_nodes c"]
    by (simp_all add: is_seed_def)
  show "peers_ok c t (open_peer_db c rnd (pd_db s))" "set (pd_gray (open_peer_db c rnd (pd_db s))) = set (pd_gray s)"
    using R gray by (simp_all add: d_def)
  have "distinct (map pl_adr (pd_gray s0))" using g(2) by (simp add: s0_def)
  then show "length (pd_gray (open_peer_db c rnd (pd_db s))) = length (pd_gray s)"
    using R(2) gray dg unfolding d_def [symmetric] by (metis distinct_card distinct_map)
  have kept: "e \<in> set (pd_white s0)" if "e \<in> set (pd_white s)" "\<not> fresh_seed c e" for e
    using that W(1) by (auto simp: s0_def w saved_def)
  then show "{e \<in> set (pd_white s). \<not> fresh_seed c e} \<subseteq> set (pd_white (open_peer_db c rnd (pd_db s)))"
    unfolding d_def [symmetric] using R(3) by auto
  have less: "set (pd_white s0) \<subseteq> set (pd_white s)" by (auto simp: s0_def w)
  then show "{e \<in> set (pd_white (open_peer_db c rnd (pd_db s))). \<not> fresh_seed c e} \<subseteq> set (pd_white s)"
    unfolding d_def [symmetric] using R(4) by blast
  have "pl_adr e \<in> set (pc_seed_nodes c)" if "fresh_seed c e" for e using that by (simp add: fresh_seed_def is_seed_def)
  with kept less show "pl_adr ` set (pd_white (open_peer_db c rnd (pd_db s))) = pl_adr ` set (pd_white s) \<union> set (pc_seed_nodes c)"
    unfolding d_def [symmetric] R(5) by blast
qed

section \<open>Reachable states\<close>

text \<open>
  The states that the lists go through from an empty database, with the time of the last
  operation: operations at times that do not go back, and new starts from what the database holds.
\<close>

inductive reach :: "peer_config \<Rightarrow> nat \<Rightarrow> peer_db \<Rightarrow> bool" for c where
  first_start: "reach c 0 (open_peer_db c rnd [])"
| restart: "reach c t s \<Longrightarrow> reach c t (open_peer_db c rnd (pd_db s))"
| merge: "reach c t s \<Longrightarrow> time_ok t now \<Longrightarrow> reach c (unat now) (merge_peerlist_from_p2p c outer_bs now s)"
| incoming: "reach c t s \<Longrightarrow> time_ok t now \<Longrightarrow> reach c (unat now) (add_incoming_peer c addr peer_id now s)"
| peerlist: "reach c t s \<Longrightarrow> time_ok t now \<Longrightarrow> reach c (unat now) (snd (get_peerlist_to_p2p shuffle for_addr now depth s))"
| seen: "reach c t s \<Longrightarrow> time_ok t now \<Longrightarrow> reach c (unat now) (set_peer_just_seen c peer_id addr now reset s)"
| delay: "reach c t s \<Longrightarrow> time_ok t now \<Longrightarrow> reach c (unat now) (delay_connection_attempt c addr now s)"
| banned: "reach c t s \<Longrightarrow> time_ok t now \<Longrightarrow> fits64 error \<Longrightarrow> reach c (unat now) (set_peer_banned c addr error now s)"
| connect: "reach c t s \<Longrightarrow> time_ok t now \<Longrightarrow> reach c (unat now) (snd (get_peer_to_connect c connected now s))"

lemma peers_ok_empty: "peers_ok c 0 \<lparr>pd_exclusive = [], pd_white = [], pd_gray = [], pd_db = [], pd_random = rnd, pd_draws = 0\<rparr>"
  by (simp add: peers_ok_def list_ok_def saved_def db_get_def om_wf_def om_find_def)

lemma get_peerlist_to_p2p_ok: "peers_ok c t s \<Longrightarrow> peers_ok c t (snd (get_peerlist_to_p2p shuffle for_addr now depth s))"
  by (simp add: get_peerlist_to_p2p_def Let_def unban_ok(1))

lemma reach_ok: "reach c t s \<Longrightarrow> peers_ok c t s"
proof (induction rule: reach.induct)
  case (first_start rnd)
  from open_peer_db_ok(1) [OF peers_ok_empty] show ?case by simp
next
  case (restart t s rnd)
  then show ?case by (intro open_peer_db_ok(1))
next
  case (merge t s now outer_bs)
  then show ?case by (auto simp: time_ok_def intro: merge_peerlist_from_p2p_ok(2) peers_ok_mono)
next
  case (incoming t s now addr peer_id)
  then show ?case by (auto simp: time_ok_def intro: add_incoming_peer_ok peers_ok_mono)
next
  case (peerlist t s now shuffle for_addr depth)
  then show ?case by (auto simp: time_ok_def intro: get_peerlist_to_p2p_ok peers_ok_mono)
next
  case (seen t s now peer_id addr reset)
  then show ?case by (auto simp: time_ok_def intro: set_peer_just_seen_ok peers_ok_mono)
next
  case (delay t s now addr)
  then have "peers_ok c t (delay_connection_attempt c addr now s)" by (intro delay_connection_attempt_ok)
  with delay(2) show ?case by (auto simp: time_ok_def intro: peers_ok_mono)
next
  case (banned t s now error addr)
  then show ?case by (intro set_peer_banned_ok)
next
  case (connect t s now connected)
  obtain r s' where r: "get_peer_to_connect c connected now s = (r, s')" by fastforce
  from get_peer_to_connect_ok [OF connect(3,2) r] connect(2) show ?case by (auto simp: r time_ok_def intro: peers_ok_mono)
qed

text \<open>The gray list grows only where it is trimmed.\<close>

definition gray_addresses :: "peer_db \<Rightarrow> network_address set" where
  "gray_addresses s = pl_adr ` set (pd_gray s)"

lemma gray_length: "peers_ok c t s \<Longrightarrow> length (pd_gray s) = card (gray_addresses s)"
  by (metis distinct_card gray_addresses_def length_map list_ok_def peers_ok_def set_map)

lemma gray_grows:
  assumes "peers_ok c t s" "peers_ok c t' s'" "gray_addresses s' \<subseteq> gray_addresses s" "length (pd_gray s) \<le> n"
  shows "length (pd_gray s') \<le> n"
proof -
  have "card (gray_addresses s') \<le> card (gray_addresses s)" by (rule card_mono) (simp_all add: gray_addresses_def assms(3) [unfolded gray_addresses_def])
  then show ?thesis using assms(4) gray_length [OF assms(1)] gray_length [OF assms(2)] by simp
qed

lemma gray_put_addresses:
  "a \<in> pl_adr ` set list \<Longrightarrow> pl_adr e = a \<Longrightarrow> pl_adr ` set (peers_insert e (peers_erase a list)) = pl_adr ` set list"
  using peers_put_list(1) [of e list] by (auto simp: peers_put_def)

lemma gray_unban: "peers_ok c t s \<Longrightarrow> gray_addresses (unban now s) = gray_addresses s"
  unfolding gray_addresses_def unban_ok(3) by (rule lift_image)

lemma gray_seen: "gray_addresses (set_peer_just_seen c peer_id addr now reset s) \<subseteq> gray_addresses s"
  by (auto simp: gray_addresses_def set_peer_just_seen_def Let_def draw_def peers_erase_facts split: if_splits)

lemma gray_delay: "gray_addresses (delay_connection_attempt c addr now s) = gray_addresses s"
  by (auto simp: gray_addresses_def delay_connection_attempt_def Let_def split: option.splits)

lemma gray_banned:
  assumes "peers_ok c t s"
  shows "gray_addresses (set_peer_banned c addr error now s) = gray_addresses s"
proof -
  have "pl_adr ` set (peers_insert (ban_entry error u e) (peers_erase addr (pd_gray s))) = pl_adr ` set (pd_gray s)"
    if "peers_find addr (pd_gray s) = Some e" for u e
    using peers_ok_found(2) [OF assms that] by (intro gray_put_addresses) (auto simp: ban_entry_def)
  then show ?thesis
    by (auto simp: gray_addresses_def set_peer_banned_def Let_def split: option.split)
qed

lemma gray_connect:
  assumes "peers_ok c t s" "get_peer_to_connect c connected now s = (r, s')"
  shows "gray_addresses s' = gray_addresses s"
proof (cases "pd_exclusive s = []")
  case True
  note u = unban_ok(1) [OF assms(1), of now] and same = gray_unban [OF assms(1), of now]
  from True assms(2) show ?thesis
  proof (cases rule: get_peer_cases)
    case (gray e n)
    note e = earliestD(2) [OF gray(2)]
    have "pl_adr ` set (peers_insert (delayed c now e) (remove1 e (pd_gray (unban now s)))) = pl_adr ` set (pd_gray (unban now s))"
      unfolding remove1_white(2) [OF u e] by (intro gray_put_addresses) (use e in \<open>auto simp: delayed_def\<close>)
    then show ?thesis using same by (simp add: gray_addresses_def gray(4))
  qed (use same in \<open>simp_all add: gray_addresses_def\<close>)
next
  case False
  then show ?thesis using assms(2) by (cases rule: get_peer_exclusive) (simp_all add: gray_addresses_def)
qed

lemma reach_gray: "reach c t s \<Longrightarrow> length (pd_gray s) \<le> pc_gray_list_limit c"
proof (induction rule: reach.induct)
  case (first_start rnd)
  from open_peer_db_ok(6) [OF peers_ok_empty, of c rnd] show ?case by simp
next
  case (restart t s rnd)
  then show ?case using open_peer_db_ok(6) [OF reach_ok [OF restart(1)]] by simp
next
  case (merge t s now outer_bs)
  from trim_ok(3) [OF merge_peerlist_from_p2p_ok(1) [OF reach_ok [OF merge(1)]]] show ?case by (simp add: merge_peerlist_from_p2p_def)
next
  case (incoming t s now addr peer_id)
  from trim_ok(3) [OF add_incoming_peer_impl_ok [OF unban_ok(1) [OF reach_ok [OF incoming(1)]]]] show ?case by (simp add: add_incoming_peer_def)
next
  case (peerlist t s now shuffle for_addr depth)
  note ok = reach_ok [OF peerlist(1)]
  have "gray_addresses (snd (get_peerlist_to_p2p shuffle for_addr now depth s)) = gray_addresses s"
    using gray_unban [OF ok, of now] by (simp add: get_peerlist_to_p2p_def Let_def)
  then show ?case by (intro gray_grows [OF ok reach_ok [OF reach.peerlist [OF peerlist(1,2)]] _ peerlist(3)]) simp
next
  case (seen t s now peer_id addr reset)
  then show ?case by (intro gray_grows [OF reach_ok reach_ok [OF reach.seen] gray_seen])
next
  case (delay t s now addr)
  then show ?case by (intro gray_grows [OF reach_ok reach_ok [OF reach.delay] eq_refl [OF gray_delay]])
next
  case (banned t s now error addr)
  then show ?case by (intro gray_grows [OF reach_ok reach_ok [OF reach.banned] eq_refl [OF gray_banned [OF reach_ok]]])
next
  case (connect t s now connected)
  obtain r s' where r: "get_peer_to_connect c connected now s = (r, s')" by fastforce
  have "peers_ok c (unat now) s'" using reach_ok [OF reach.connect [OF connect(1,2), of connected]] by (simp add: r)
  from gray_grows [OF reach_ok [OF connect(1)] this eq_refl [OF gray_connect [OF reach_ok [OF connect(1)] r]] connect(3)]
  show ?case by (simp add: r)
qed


text \<open>A sample: a node with one seed node hears of a peer and sees another one.\<close>

definition sample_peer_config :: peer_config where
  "sample_peer_config = \<lparr>pc_exclusive_nodes = [], pc_seed_nodes = [\<lparr>na_ip = 5, na_port = 80\<rparr>], pc_priority_nodes = [],
     pc_white_list_limit = 1000, pc_gray_list_limit = 5000, pc_whitelist_connections_percent = 70\<rparr>"

definition sample_first :: peer_db where
  "sample_first = open_peer_db sample_peer_config (\<lambda>n. 7) []"

definition sample_peers :: peer_db where
  "sample_peers = set_peer_just_seen sample_peer_config 9 \<lparr>na_ip = 6, na_port = 80\<rparr> 1000 True
     (add_incoming_peer sample_peer_config \<lparr>na_ip = 7, na_port = 80\<rparr> 8 900 sample_first)"

lemma sample_first_eq: "sample_first =
    \<lparr>pd_exclusive = [], pd_white = [new_entry \<lparr>na_ip = 5, na_port = 80\<rparr> 7], pd_gray = [], pd_db = [], pd_random = (\<lambda>n. 7), pd_draws = 1\<rparr>"
  by (simp add: sample_first_def open_peer_db_def sample_peer_config_def read_db_def db_begin_def om_from_def add_seed_def peers_find_def
      draw_def peers_insert_def)

lemma sample_peers_lists:
  "pd_white sample_peers = [new_entry \<lparr>na_ip = 5, na_port = 80\<rparr> 7, (new_entry \<lparr>na_ip = 6, na_port = 80\<rparr> 7)\<lparr>pl_id := 9, pl_last_seen := 1000\<rparr>]"
  "pd_gray sample_peers = [(new_entry \<lparr>na_ip = 7, na_port = 80\<rparr> 7)\<lparr>pl_id := 8\<rparr>]"
  by (simp_all add: sample_peers_def sample_first_eq add_incoming_peer_def add_incoming_peer_impl_def unban_def unban_list_def by_ban_until_def
      ban_over_def ban_key_def time_key_def less_prod_def trim_lists_def trim_list.simps sample_peer_config_def set_peer_just_seen_def
      peers_find_def peers_insert_def peers_erase_def draw_def new_entry_def is_seed_def Let_def)

lemma sample_peers_reached: "reach sample_peer_config 1000 sample_peers"
proof -
  have t: "unat (900 :: u32) = 900" "unat (1000 :: u32) = 1000" by simp_all
  have "reach sample_peer_config (unat (900 :: u32)) (add_incoming_peer sample_peer_config \<lparr>na_ip = 7, na_port = 80\<rparr> 8 900 sample_first)"
    unfolding sample_first_def by (rule reach.incoming [OF reach.first_start]) (simp add: time_ok_def)
  from reach.seen [OF this, of 1000] show ?thesis unfolding sample_peers_def t by (simp add: time_ok_def)
qed






text \<open>A seed node that is in the gray list of the database comes into both lists at a start.\<close>

lemma seed_in_both_lists:
  assumes "is_seed c a" "peers_find a (read_db GRAY_LIST d) \<noteq> None"
  shows "peers_find a (pd_white (open_peer_db c rnd d)) \<noteq> None \<and> peers_find a (pd_gray (open_peer_db c rnd d)) \<noteq> None"
proof -
  have "peers_find a (pd_white (add_seed s b)) \<noteq> None" if "peers_find a (pd_white s) \<noteq> None" for s b
    using that add_seed_white(1) [of s b] unfolding peers_find_None by blast
  then have stay: "peers_find a (pd_white s) \<noteq> None \<Longrightarrow> peers_find a (pd_white (foldl add_seed s as)) \<noteq> None" for s as
    by (induction as arbitrary: s) simp_all
  have new: "peers_find b (pd_white (add_seed s b)) \<noteq> None" for s b
    by (auto simp: add_seed_def draw_def peers_find_None peers_insert_facts)
  have gray: "pd_gray (foldl add_seed s as) = pd_gray s" for s as by (induction as arbitrary: s) simp_all
  have gray': "pd_gray (foldl add_exclusive s as) = pd_gray s" for s as by (induction as arbitrary: s) simp_all
  from assms(1) obtain xs ys where "pc_seed_nodes c = xs @ a # ys" by (auto simp: is_seed_def in_set_conv_decomp)
  with assms(2) show ?thesis by (simp add: open_peer_db_def gray gray' stay new)
qed

end
