(* ===== verification/Http_Parser.thy ===== *)
theory Http_Parser
  imports Amount_Text
begin

text \<open>
  The HTTP front end of the node: requests and responses as text (\<open>http/types.cpp\<close>) and the
  incremental parser of requests (\<open>http/RequestParser.cpp\<close>), which is fed with whatever part of
  a request has arrived.  \<open>boost::lexical_cast\<close> to \<open>size_t\<close> is a parameter.
\<close>

section \<open>Data\<close>

record header =
  hd_name :: string
  hd_value :: string

record request =
  rq_method :: string
  rq_uri :: string
  rq_http_version_major :: u32
  rq_http_version_minor :: u32
  rq_headers :: "header list"
  rq_basic_authorization :: string
  rq_host :: string
  rq_keep_alive :: bool
  rq_content_length :: u64

definition new_request :: request where
  "new_request = \<lparr>rq_method = '''', rq_uri = '''', rq_http_version_major = 0, rq_http_version_minor = 0, rq_headers = [],
     rq_basic_authorization = '''', rq_host = '''', rq_keep_alive = True, rq_content_length = - 1\<rparr>"

definition has_content_length :: "request \<Rightarrow> bool" where
  "has_content_length r \<longleftrightarrow> rq_content_length r \<noteq> - 1"

section \<open>Characters\<close>

text \<open>\<open>char\<close> is signed.\<close>

definition char_value :: "char \<Rightarrow> int" where
  "char_value c = (let n = int (of_char c) in if n < 128 then n else n - 256)"

definition is_char :: "char \<Rightarrow> bool" where
  "is_char c \<longleftrightarrow> 0 \<le> char_value c \<and> char_value c \<le> 127"

definition is_ctl :: "char \<Rightarrow> bool" where
  "is_ctl c \<longleftrightarrow> (0 \<le> char_value c \<and> char_value c \<le> 31) \<or> char_value c = 127"

definition is_tspecial :: "char \<Rightarrow> bool" where
  "is_tspecial c \<longleftrightarrow> c \<in> set ''()<>@,;:/[]?={} '' \<or> of_char c \<in> {9 :: nat, 34, 92}"

definition is_http_digit :: "char \<Rightarrow> bool" where
  "is_http_digit c \<longleftrightarrow> 48 \<le> char_value c \<and> char_value c \<le> 57"

definition to_lower :: "char \<Rightarrow> char" where
  "to_lower c = (let n = of_char c :: nat in if 65 \<le> n \<and> n \<le> 90 then char_of (n + 32) else c)"

definition cr :: char where "cr = char_of (13 :: nat)"
definition lf :: char where "lf = char_of (10 :: nat)"
definition tab :: char where "tab = char_of (9 :: nat)"

definition crlf :: string where "crlf = [cr, lf]"

section \<open>Printing\<close>

definition int_text :: "u32 \<Rightarrow> string" where
  "int_text v = (if sint v < 0 then CHR ''-'' # decimal (nat (- sint v)) else decimal (nat (sint v)))"

definition header_line :: "header \<Rightarrow> string" where
  "header_line h = hd_name h @ '': '' @ hd_value h @ crlf"

definition request_to_string :: "request \<Rightarrow> string" where
  "request_to_string r =
     rq_method r @ '' '' @ rq_uri r @ '' '' @ ''HTTP/'' @ int_text (rq_http_version_major r) @ ''.'' @ int_text (rq_http_version_minor r) @ crlf @
     (if rq_host r \<noteq> '''' then ''Host: '' @ rq_host r @ crlf else '''') @
     concat (map header_line (rq_headers r)) @
     (if rq_basic_authorization r \<noteq> '''' then ''Authorization: Basic '' @ rq_basic_authorization r @ crlf else '''') @
     (if rq_http_version_major r = 1 \<and> rq_http_version_minor r = 0 \<and> rq_keep_alive r then ''Connection: keep-alive'' @ crlf else '''') @
     (if has_content_length r then ''Content-Length: '' @ decimal (unat (rq_content_length r)) @ crlf @ crlf else crlf)"

section \<open>Parsing\<close>

datatype request_state =
    Method_start | Method | Uri | Http_version_h | Http_version_t_1 | Http_version_t_2 | Http_version_p | Http_version_slash
  | Http_version_major_start | Http_version_major | Http_version_minor_start | Http_version_minor | Expecting_newline_1
  | Header_line_start | Header_lws | Header_name | Space_before_header_value | Header_value | Expecting_newline_2
  | Expecting_newline_3 | Good | Bad

text \<open>The parser and the request it fills.\<close>

record request_parser =
  rp_state :: request_state
  rp_lowcase :: header
  rp_request :: request

definition no_header :: header where
  "no_header = \<lparr>hd_name = '''', hd_value = ''''\<rparr>"

definition new_request_parser :: "request \<Rightarrow> request_parser" where
  "new_request_parser req = \<lparr>rp_state = Method_start, rp_lowcase = no_header, rp_request = req\<rparr>"

text \<open>\<open>req.headers.back()\<close> is undefined, here \<open>None\<close>, when there is no header.\<close>

definition change_last_header :: "(header \<Rightarrow> header) \<Rightarrow> request \<Rightarrow> request option" where
  "change_last_header f req =
     (if rq_headers req = [] then None
      else Some (req\<lparr>rq_headers := butlast (rq_headers req) @ [f (last (rq_headers req))]\<rparr>))"

definition pop_header :: "request \<Rightarrow> request option" where
  "pop_header req = (if rq_headers req = [] then None else Some (req\<lparr>rq_headers := butlast (rq_headers req)\<rparr>))"

definition is_blank :: "char \<Rightarrow> bool" where
  "is_blank c \<longleftrightarrow> c = CHR '' '' \<or> c = tab"

text \<open>The two loops of the authorization header: blanks at both ends are dropped.\<close>

definition strip_blanks :: "string \<Rightarrow> string" where
  "strip_blanks v = rev (dropWhile is_blank (rev (dropWhile is_blank v)))"

definition process_ready_header :: "(string \<Rightarrow> u64 option) \<Rightarrow> header \<Rightarrow> request \<Rightarrow> (bool \<times> request) option" where
  "process_ready_header lexical_cast lowcase req =
     (if hd_name lowcase = ''content-length'' then
        (case lexical_cast (hd_value lowcase) of
           None \<Rightarrow> Some (False, req)
         | Some n \<Rightarrow> map_option (Pair True) (pop_header (req\<lparr>rq_content_length := n\<rparr>)))
      else if hd_name lowcase = ''host'' then map_option (Pair True) (pop_header (req\<lparr>rq_host := hd_value lowcase\<rparr>))
      else if hd_name lowcase = ''connection'' then
        (if hd_value lowcase = ''close'' then map_option (Pair True) (pop_header (req\<lparr>rq_keep_alive := False\<rparr>))
         else if hd_value lowcase = ''keep-alive'' then map_option (Pair True) (pop_header (req\<lparr>rq_keep_alive := True\<rparr>))
         else Some (False, req))
      else if hd_name lowcase = ''authorization'' then
        (if take 5 (hd_value lowcase) \<noteq> ''basic'' then Some (True, req)
         else if rq_headers req = [] then None
         else map_option (Pair True) (pop_header (req\<lparr>rq_basic_authorization := strip_blanks (drop 5 (hd_value (last (rq_headers req))))\<rparr>)))
      else Some (True, req))"

text \<open>One digit of a version number; the arithmetic is that of \<open>int\<close>.\<close>

definition add_digit :: "u32 \<Rightarrow> char \<Rightarrow> u32" where
  "add_digit v c = v * 10 + word_of_int (char_value c) - 48"

definition expect :: "char \<Rightarrow> request_state \<Rightarrow> request_parser \<Rightarrow> char \<Rightarrow> request_parser option" where
  "expect c next_state p input = Some (p\<lparr>rp_state := (if input = c then next_state else Bad)\<rparr>)"

definition name_char :: "header \<Rightarrow> char \<Rightarrow> header" where
  "name_char h c = h\<lparr>hd_name := hd_name h @ [c]\<rparr>"

definition value_char :: "header \<Rightarrow> char \<Rightarrow> header" where
  "value_char h c = h\<lparr>hd_value := hd_value h @ [c]\<rparr>"

definition token_char :: "char \<Rightarrow> bool" where
  "token_char c \<longleftrightarrow> is_char c \<and> \<not> is_ctl c \<and> \<not> is_tspecial c"

text \<open>A character of the name or of the value of the last header.\<close>

definition consume_name :: "request_parser \<Rightarrow> char \<Rightarrow> request_parser option" where
  "consume_name p input =
     map_option (\<lambda>req. p\<lparr>rp_state := Header_name, rp_lowcase := name_char (rp_lowcase p) (to_lower input), rp_request := req\<rparr>)
       (change_last_header (\<lambda>h. name_char h input) (rp_request p))"

definition consume_value :: "request_parser \<Rightarrow> char \<Rightarrow> request_parser option" where
  "consume_value p input =
     map_option (\<lambda>req. p\<lparr>rp_state := Header_value, rp_lowcase := value_char (rp_lowcase p) (to_lower input), rp_request := req\<rparr>)
       (change_last_header (\<lambda>h. value_char h input) (rp_request p))"

definition bad :: "request_parser \<Rightarrow> request_parser option" where
  "bad p = Some (p\<lparr>rp_state := Bad\<rparr>)"

fun consume_in :: "(string \<Rightarrow> u64 option) \<Rightarrow> request_state \<Rightarrow> request_parser \<Rightarrow> char \<Rightarrow> request_parser option" where
  "consume_in lexical_cast Method_start p input =
     (if \<not> token_char input then bad p
      else Some (p\<lparr>rp_state := Method, rp_request := (rp_request p)\<lparr>rq_method := rq_method (rp_request p) @ [input]\<rparr>\<rparr>))"
| "consume_in lexical_cast Method p input =
     (if input = CHR '' '' then Some (p\<lparr>rp_state := Uri\<rparr>)
      else if \<not> token_char input then bad p
      else Some (p\<lparr>rp_state := Method, rp_request := (rp_request p)\<lparr>rq_method := rq_method (rp_request p) @ [input]\<rparr>\<rparr>))"
| "consume_in lexical_cast Uri p input =
     (if input = CHR '' '' then Some (p\<lparr>rp_state := Http_version_h\<rparr>)
      else if is_ctl input then bad p
      else Some (p\<lparr>rp_state := Uri, rp_request := (rp_request p)\<lparr>rq_uri := rq_uri (rp_request p) @ [input]\<rparr>\<rparr>))"
| "consume_in lexical_cast Http_version_h p input = expect (CHR ''H'') Http_version_t_1 p input"
| "consume_in lexical_cast Http_version_t_1 p input = expect (CHR ''T'') Http_version_t_2 p input"
| "consume_in lexical_cast Http_version_t_2 p input = expect (CHR ''T'') Http_version_p p input"
| "consume_in lexical_cast Http_version_p p input = expect (CHR ''P'') Http_version_slash p input"
| "consume_in lexical_cast Http_version_slash p input = expect (CHR ''/'') Http_version_major_start p input"
| "consume_in lexical_cast Http_version_major_start p input =
     (if is_http_digit input
      then Some (p\<lparr>rp_state := Http_version_major, rp_request := (rp_request p)\<lparr>rq_http_version_major :=
        add_digit (rq_http_version_major (rp_request p)) input\<rparr>\<rparr>)
      else bad p)"
| "consume_in lexical_cast Http_version_major p input =
     (if input = CHR ''.'' then Some (p\<lparr>rp_state := Http_version_minor_start\<rparr>)
      else if is_http_digit input
      then Some (p\<lparr>rp_state := Http_version_major, rp_request := (rp_request p)\<lparr>rq_http_version_major :=
        add_digit (rq_http_version_major (rp_request p)) input\<rparr>\<rparr>)
      else bad p)"
| "consume_in lexical_cast Http_version_minor_start p input =
     (if is_http_digit input
      then Some (p\<lparr>rp_state := Http_version_minor, rp_request := (rp_request p)\<lparr>rq_http_version_minor :=
        add_digit (rq_http_version_minor (rp_request p)) input\<rparr>\<rparr>)
      else bad p)"
| "consume_in lexical_cast Http_version_minor p input =
     (if input = cr
      then Some (p\<lparr>rp_state := Expecting_newline_1, rp_request := (rp_request p)\<lparr>rq_keep_alive :=
        rq_http_version_major (rp_request p) = 1 \<and> rq_http_version_minor (rp_request p) = 1\<rparr>\<rparr>)
      else if is_http_digit input
      then Some (p\<lparr>rp_state := Http_version_minor, rp_request := (rp_request p)\<lparr>rq_http_version_minor :=
        add_digit (rq_http_version_minor (rp_request p)) input\<rparr>\<rparr>)
      else bad p)"
| "consume_in lexical_cast Expecting_newline_1 p input = expect lf Header_line_start p input"
| "consume_in lexical_cast Header_line_start p input =
     (if input = cr then Some (p\<lparr>rp_state := Expecting_newline_3\<rparr>)
      else if rq_headers (rp_request p) \<noteq> [] \<and> is_blank input then Some (p\<lparr>rp_state := Header_lws\<rparr>)
      else if \<not> token_char input then bad p
      else consume_name (p\<lparr>rp_request := (rp_request p)\<lparr>rq_headers := rq_headers (rp_request p) @ [no_header]\<rparr>\<rparr>) input)"
| "consume_in lexical_cast Header_lws p input =
     (if input = cr then Some (p\<lparr>rp_state := Expecting_newline_2\<rparr>)
      else if is_blank input then Some (p\<lparr>rp_state := Header_lws\<rparr>)
      else if is_ctl input then bad p
      else consume_value p input)"
| "consume_in lexical_cast Header_name p input =
     (if input = CHR '':'' then Some (p\<lparr>rp_state := Space_before_header_value\<rparr>)
      else if \<not> token_char input then bad p
      else consume_name p input)"
| "consume_in lexical_cast Space_before_header_value p input = expect (CHR '' '') Header_value p input"
| "consume_in lexical_cast Header_value p input =
     (if input = cr
      then map_option (\<lambda>(ok, req). if \<not> ok then p\<lparr>rp_state := Bad, rp_request := req\<rparr>
             else p\<lparr>rp_state := Expecting_newline_2, rp_lowcase := no_header, rp_request := req\<rparr>)
           (process_ready_header lexical_cast (rp_lowcase p) (rp_request p))
      else if is_ctl input then bad p
      else consume_value p input)"
| "consume_in lexical_cast Expecting_newline_2 p input = expect lf Header_line_start p input"
| "consume_in lexical_cast Expecting_newline_3 p input = expect lf Good p input"
| "consume_in lexical_cast Good p input = bad p"
| "consume_in lexical_cast Bad p input = bad p"

definition consume :: "(string \<Rightarrow> u64 option) \<Rightarrow> request_parser \<Rightarrow> char \<Rightarrow> request_parser option" where
  "consume lexical_cast p input = consume_in lexical_cast (rp_state p) p input"

text \<open>The rest of the input is what follows the request.\<close>

fun parse_request :: "(string \<Rightarrow> u64 option) \<Rightarrow> request_parser \<Rightarrow> string \<Rightarrow> (request_parser \<times> string) option" where
  "parse_request lexical_cast p [] = Some (p, [])"
| "parse_request lexical_cast p (c # cs) =
     (if rp_state p \<noteq> Good \<and> rp_state p \<noteq> Bad
      then Option.bind (consume lexical_cast p c) (\<lambda>p. parse_request lexical_cast p cs)
      else Some (p, c # cs))"

section \<open>No access to a missing header\<close>

definition parser_ok :: "request_parser \<Rightarrow> bool" where
  "parser_ok p \<longleftrightarrow> (rp_state p \<in> {Header_lws, Header_name, Space_before_header_value, Header_value} \<longrightarrow> rq_headers (rp_request p) \<noteq> [])"

lemma consume_char_ok:
  assumes "rq_headers (rp_request p) \<noteq> []"
  shows "\<exists>p'. consume_name p c = Some p' \<and> parser_ok p'" "\<exists>p'. consume_value p c = Some p' \<and> parser_ok p'"
  using assms by (simp_all add: consume_name_def consume_value_def change_last_header_def parser_ok_def)

lemma process_ready_header_ok: "rq_headers req \<noteq> [] \<Longrightarrow> process_ready_header lexical_cast lowcase req \<noteq> None"
  by (cases "lexical_cast (hd_value lowcase)") (simp_all add: process_ready_header_def pop_header_def del: not_None_eq)

lemma parser_okD: "parser_ok p \<Longrightarrow> rp_state p \<in> {Header_lws, Header_name, Space_before_header_value, Header_value} \<Longrightarrow> rq_headers (rp_request p) \<noteq> []"
  unfolding parser_ok_def by blast

lemma parser_okI: "rp_state p \<notin> {Header_lws, Header_name, Space_before_header_value, Header_value} \<Longrightarrow> parser_ok p"
  by (simp add: parser_ok_def)

lemma consume_ok: "parser_ok p \<Longrightarrow> \<exists>p'. consume lexical_cast p c = Some p' \<and> parser_ok p'"
proof (cases "rp_state p")
  case Header_value
  moreover assume "parser_ok p"
  ultimately have h: "rq_headers (rp_request p) \<noteq> []" by (simp add: parser_ok_def)
  obtain ok req where "process_ready_header lexical_cast (rp_lowcase p) (rp_request p) = Some (ok, req)"
    using process_ready_header_ok [OF h, of lexical_cast "rp_lowcase p"] by auto
  then show ?thesis using consume_char_ok(2) [OF h, of c] Header_value by (simp add: consume_def bad_def parser_okI)
next
  case Header_line_start
  then show ?thesis
    using consume_char_ok(1) [of "p\<lparr>rp_request := (rp_request p)\<lparr>rq_headers := rq_headers (rp_request p) @ [no_header]\<rparr>\<rparr>" c]
    by (cases "rq_headers (rp_request p) = []") (simp_all add: consume_def bad_def parser_okI, simp add: parser_ok_def)
next
  case Header_lws
  moreover assume "parser_ok p"
  ultimately show ?thesis
    using consume_char_ok(2) [of p c] parser_okD [of p] by (simp add: consume_def bad_def parser_okI) (simp add: parser_ok_def)
next
  case Header_name
  moreover assume "parser_ok p"
  ultimately show ?thesis
    using consume_char_ok(1) [of p c] parser_okD [of p] by (simp add: consume_def bad_def parser_okI) (simp add: parser_ok_def)
qed (auto simp: consume_def bad_def expect_def parser_ok_def)

lemma parse_request_ok: "parser_ok p \<Longrightarrow> \<exists>p' rest. parse_request lexical_cast p input = Some (p', rest) \<and> parser_ok p' \<and> (\<exists>used. input = used @ rest)
    \<and> (rest \<noteq> [] \<longrightarrow> rp_state p' \<in> {Good, Bad})"
proof (induction input arbitrary: p)
  case (Cons c cs)
  show ?case
  proof (cases "rp_state p \<noteq> Good \<and> rp_state p \<noteq> Bad")
    case True
    obtain p1 where p1: "consume lexical_cast p c = Some p1" "parser_ok p1" using consume_ok [OF Cons.prems] by blast
    from Cons.IH [OF this(2)] obtain p' rest used where "parse_request lexical_cast p1 cs = Some (p', rest)" "parser_ok p'" "cs = used @ rest"
      "rest \<noteq> [] \<longrightarrow> rp_state p' \<in> {Good, Bad}" by blast
    moreover from this have "c # cs = (c # used) @ rest" by simp
    ultimately show ?thesis using True p1(1) by (metis bind.bind_lunit parse_request.simps(2))
  qed (use Cons.prems in auto)
qed simp

lemma parse_request_append:
  "parse_request lexical_cast p (a @ b) = Option.bind (parse_request lexical_cast p a)
     (\<lambda>(p', rest). if rest = [] then parse_request lexical_cast p' b else Some (p', rest @ b))"
proof (induction a arbitrary: p)
  case (Cons c a)
  show ?case
  proof (cases "consume lexical_cast p c")
    case (Some q)
    with Cons.IH [of q] show ?thesis by simp
  qed simp
qed simp

section \<open>Reading back what is printed\<close>

text \<open>\<open>runs p a q\<close>: the parser takes all of \<open>a\<close> and goes from \<open>p\<close> to \<open>q\<close>.\<close>

definition runs :: "(string \<Rightarrow> u64 option) \<Rightarrow> request_parser \<Rightarrow> string \<Rightarrow> request_parser \<Rightarrow> bool" where
  "runs lexical_cast p a q \<longleftrightarrow> parse_request lexical_cast p a = Some (q, [])"

lemma runs_Nil: "runs lexical_cast p [] p"
  by (simp add: runs_def)

lemma runs_append: "runs lexical_cast p a q \<Longrightarrow> runs lexical_cast q b r \<Longrightarrow> runs lexical_cast p (a @ b) r"
  by (simp add: runs_def parse_request_append)

lemma runs_Cons:
  "rp_state p \<noteq> Good \<Longrightarrow> rp_state p \<noteq> Bad \<Longrightarrow> consume lexical_cast p c = Some q \<Longrightarrow> runs lexical_cast q a r \<Longrightarrow> runs lexical_cast p (c # a) r"
  by (simp add: runs_def)

lemma runs_char: "rp_state p \<noteq> Good \<Longrightarrow> rp_state p \<noteq> Bad \<Longrightarrow> consume lexical_cast p c = Some q \<Longrightarrow> runs lexical_cast p [c] q"
  by (simp add: runs_def)

definition parser :: "request_state \<Rightarrow> header \<Rightarrow> request \<Rightarrow> request_parser" where
  "parser st low req = \<lparr>rp_state = st, rp_lowcase = low, rp_request = req\<rparr>"

lemma parser_simps [simp]:
  "rp_state (parser st low req) = st" "rp_lowcase (parser st low req) = low" "rp_request (parser st low req) = req"
  "(parser st low req)\<lparr>rp_state := st'\<rparr> = parser st' low req" "(parser st low req)\<lparr>rp_lowcase := low'\<rparr> = parser st low' req"
  "(parser st low req)\<lparr>rp_request := req'\<rparr> = parser st low req'"
  by (simp_all add: parser_def)

lemma blank_not_token: "\<not> token_char (CHR '' '')" "\<not> token_char cr" "\<not> token_char tab" "\<not> token_char (CHR '':'')"
  "is_ctl cr" "\<not> is_ctl (CHR '' '')" "is_blank (CHR '' '')" "\<not> is_blank cr" "is_ctl tab"
  by code_simp+

lemma token_not: "token_char c \<Longrightarrow> c \<noteq> CHR '' '' \<and> c \<noteq> cr \<and> c \<noteq> CHR '':'' \<and> \<not> is_blank c"
  using blank_not_token by (auto simp: is_blank_def)

lemma runs_method:
  "list_all token_char m \<Longrightarrow> runs lexical_cast (parser Method low req) m (parser Method low (req\<lparr>rq_method := rq_method req @ m\<rparr>))"
proof (induction m arbitrary: req)
  case Nil
  show ?case using runs_Nil [of lexical_cast "parser Method low req"] by simp
next
  case (Cons c m)
  show ?case
    by (rule runs_Cons [OF _ _ _ Cons.IH [of "req\<lparr>rq_method := rq_method req @ [c]\<rparr>", simplified]])
      (use Cons.prems token_not in \<open>simp_all add: consume_def\<close>)
qed

lemma runs_uri:
  "list_all (\<lambda>c. \<not> is_ctl c \<and> c \<noteq> CHR '' '') u \<Longrightarrow> runs lexical_cast (parser Uri low req) u (parser Uri low (req\<lparr>rq_uri := rq_uri req @ u\<rparr>))"
proof (induction u arbitrary: req)
  case Nil
  show ?case using runs_Nil [of lexical_cast "parser Uri low req"] by simp
next
  case (Cons c u)
  show ?case
    by (rule runs_Cons [OF _ _ _ Cons.IH [of "req\<lparr>rq_uri := rq_uri req @ [c]\<rparr>", simplified]])
      (use Cons.prems in \<open>simp_all add: consume_def\<close>)
qed

text \<open>Numbers.\<close>

lemma digit_facts: "is_digit c \<Longrightarrow> is_http_digit c \<and> c \<noteq> cr \<and> c \<noteq> CHR ''.'' \<and> add_digit v c = v * 10 + word_of_nat (of_char c - 48) \<and> to_lower c = c \<and> \<not> is_ctl c"
proof -
  assume d: "is_digit c"
  then have n: "48 \<le> (of_char c :: nat)" "(of_char c :: nat) \<le> 57" by (simp_all add: is_digit_def)
  have cv: "char_value c = int (of_char c)" using n by (simp add: char_value_def Let_def)
  have "word_of_nat (of_char c - 48) = (word_of_int (char_value c) - 48 :: u32)"
    using n by (simp add: cv of_nat_diff del: of_nat_of_char)
  moreover have "of_char cr = (13 :: nat)" "of_char (CHR ''.'') = (46 :: nat)" by (simp_all add: cr_def)
  ultimately show ?thesis using n cv
    by (auto simp: is_http_digit_def add_digit_def to_lower_def Let_def is_ctl_def simp del: of_nat_of_char)
qed

lemma foldl_add_digit: "plain w \<Longrightarrow> foldl add_digit v w = v * 10 ^ length w + word_of_nat (digits_value w)"
proof (induction w rule: rev_induct)
  case (snoc c w)
  then have "plain w" "is_digit c" by simp_all
  with snoc.IH show ?case by (simp add: digits_value_snoc digit_facts algebra_simps)
qed simp

lemma runs_major:
  "plain w \<Longrightarrow> runs lexical_cast (parser Http_version_major low req) w
     (parser Http_version_major low (req\<lparr>rq_http_version_major := foldl add_digit (rq_http_version_major req) w\<rparr>))"
proof (induction w arbitrary: req)
  case Nil
  show ?case using runs_Nil [of lexical_cast "parser Http_version_major low req"] by simp
next
  case (Cons c w)
  then have c: "is_digit c" "plain w" by simp_all
  show ?case
    by (simp only: foldl_Cons, rule runs_Cons [OF _ _ _ Cons.IH [OF c(2), of "req\<lparr>rq_http_version_major := add_digit (rq_http_version_major req) c\<rparr>", simplified]])
      (use digit_facts [OF c(1)] in \<open>simp_all add: consume_def\<close>)
qed

lemma runs_minor:
  "plain w \<Longrightarrow> runs lexical_cast (parser Http_version_minor low req) w
     (parser Http_version_minor low (req\<lparr>rq_http_version_minor := foldl add_digit (rq_http_version_minor req) w\<rparr>))"
proof (induction w arbitrary: req)
  case Nil
  show ?case using runs_Nil [of lexical_cast "parser Http_version_minor low req"] by simp
next
  case (Cons c w)
  then have c: "is_digit c" "plain w" by simp_all
  show ?case
    by (simp only: foldl_Cons, rule runs_Cons [OF _ _ _ Cons.IH [OF c(2), of "req\<lparr>rq_http_version_minor := add_digit (rq_http_version_minor req) c\<rparr>", simplified]])
      (use digit_facts [OF c(1)] in \<open>simp_all add: consume_def\<close>)
qed

lemma runs_number:
  assumes "plain w" "w \<noteq> []"
  shows "runs lexical_cast (parser Http_version_major_start low req) w
      (parser Http_version_major low (req\<lparr>rq_http_version_major := foldl add_digit (rq_http_version_major req) w\<rparr>))"
    "runs lexical_cast (parser Http_version_minor_start low req) w
      (parser Http_version_minor low (req\<lparr>rq_http_version_minor := foldl add_digit (rq_http_version_minor req) w\<rparr>))"
proof -
  obtain c v where w: "w = c # v" using assms(2) by (cases w) auto
  then have c: "is_digit c" "plain v" using assms(1) by simp_all
  show "runs lexical_cast (parser Http_version_major_start low req) w
      (parser Http_version_major low (req\<lparr>rq_http_version_major := foldl add_digit (rq_http_version_major req) w\<rparr>))"
    unfolding w foldl_Cons
    by (rule runs_Cons [OF _ _ _ runs_major [OF c(2), of _ _ "req\<lparr>rq_http_version_major := add_digit (rq_http_version_major req) c\<rparr>", simplified]])
      (use digit_facts [OF c(1)] in \<open>simp_all add: consume_def\<close>)
  show "runs lexical_cast (parser Http_version_minor_start low req) w
      (parser Http_version_minor low (req\<lparr>rq_http_version_minor := foldl add_digit (rq_http_version_minor req) w\<rparr>))"
    unfolding w foldl_Cons
    by (rule runs_Cons [OF _ _ _ runs_minor [OF c(2), of _ _ "req\<lparr>rq_http_version_minor := add_digit (rq_http_version_minor req) c\<rparr>", simplified]])
      (use digit_facts [OF c(1)] in \<open>simp_all add: consume_def\<close>)
qed

lemma runs_http: "runs lexical_cast (parser Http_version_h low req) ''HTTP/'' (parser Http_version_major_start low req)"
  by (simp add: runs_def consume_def expect_def)

lemma runs_crlf: "runs lexical_cast (parser Header_line_start low req) crlf (parser Good low req)"
  by (simp add: runs_def crlf_def consume_def expect_def)

lemma runs_first_line:
  assumes "m \<noteq> []" "list_all token_char m" "list_all (\<lambda>c. \<not> is_ctl c \<and> c \<noteq> CHR '' '') u"
  shows "runs lexical_cast (parser Method_start low new_request) (m @ '' '' @ u @ '' '' @ ''HTTP/'' @ decimal a @ ''.'' @ decimal b @ crlf)
    (parser Header_line_start low (new_request\<lparr>rq_method := m, rq_uri := u, rq_http_version_major := word_of_nat a,
       rq_http_version_minor := word_of_nat b, rq_keep_alive := (word_of_nat a :: u32) = 1 \<and> (word_of_nat b :: u32) = 1\<rparr>))"
proof -
  let ?r1 = "new_request\<lparr>rq_method := m\<rparr>"
  let ?r2 = "?r1\<lparr>rq_uri := u\<rparr>"
  let ?r3 = "?r2\<lparr>rq_http_version_major := word_of_nat a\<rparr>"
  let ?r4 = "?r3\<lparr>rq_http_version_minor := word_of_nat b\<rparr>"
  let ?r5 = "?r4\<lparr>rq_keep_alive := (word_of_nat a :: u32) = 1 \<and> (word_of_nat b :: u32) = 1\<rparr>"
  obtain c w where m: "m = c # w" using assms(1) by (cases m) auto
  then have c: "token_char c" "list_all token_char w" using assms(2) by simp_all
  have "runs lexical_cast (parser Method_start low new_request) m (parser Method low ?r1)"
    unfolding m by (rule runs_Cons [OF _ _ _ runs_method [OF c(2), of _ _ "new_request\<lparr>rq_method := [c]\<rparr>", simplified]])
      (use c(1) in \<open>simp_all add: consume_def new_request_def\<close>)
  moreover have "runs lexical_cast (parser Method low ?r1) '' '' (parser Uri low ?r1)"
    by (rule runs_char) (simp_all add: consume_def)
  moreover have "runs lexical_cast (parser Uri low ?r1) u (parser Uri low ?r2)"
    using runs_uri [OF assms(3), of lexical_cast low ?r1] by (simp add: new_request_def)
  moreover have "runs lexical_cast (parser Uri low ?r2) '' '' (parser Http_version_h low ?r2)"
    by (rule runs_char) (simp_all add: consume_def)
  moreover have "runs lexical_cast (parser Http_version_h low ?r2) ''HTTP/'' (parser Http_version_major_start low ?r2)"
    by (rule runs_http)
  moreover have "runs lexical_cast (parser Http_version_major_start low ?r2) (decimal a) (parser Http_version_major low ?r3)"
    using runs_number(1) [OF plain_decimal decimal_nonempty, of lexical_cast low ?r2 a] by (simp add: foldl_add_digit new_request_def)
  moreover have "runs lexical_cast (parser Http_version_major low ?r3) ''.'' (parser Http_version_minor_start low ?r3)"
    by (rule runs_char) (simp_all add: consume_def)
  moreover have "runs lexical_cast (parser Http_version_minor_start low ?r3) (decimal b) (parser Http_version_minor low ?r4)"
    using runs_number(2) [OF plain_decimal decimal_nonempty, of lexical_cast low ?r3 b] by (simp add: foldl_add_digit new_request_def)
  moreover have "runs lexical_cast (parser Http_version_minor low ?r4) crlf (parser Header_line_start low ?r5)"
    unfolding crlf_def by (rule runs_Cons [where q = "parser Expecting_newline_1 low ?r5"], simp, simp, simp add: consume_def)
      (rule runs_char, simp_all add: consume_def expect_def)
  ultimately show ?thesis by (intro runs_append)
qed

text \<open>Header lines.\<close>

definition with_headers :: "request \<Rightarrow> header list \<Rightarrow> request" where
  "with_headers req hs = req\<lparr>rq_headers := hs\<rparr>"

lemma runs_name:
  "list_all token_char w \<Longrightarrow> runs lexical_cast (parser Header_name low (with_headers req (hs @ [h]))) w
     (parser Header_name (low\<lparr>hd_name := hd_name low @ map to_lower w\<rparr>) (with_headers req (hs @ [h\<lparr>hd_name := hd_name h @ w\<rparr>])))"
proof (induction w arbitrary: low h)
  case Nil
  show ?case using runs_Nil by simp
next
  case (Cons c w)
  then have "list_all token_char w" "token_char c" by simp_all
  from Cons.IH [OF this(1), of "name_char low (to_lower c)" "name_char h c"] show ?case
    by (intro runs_Cons) (use token_not [OF \<open>token_char c\<close>] \<open>token_char c\<close> in
      \<open>simp_all add: consume_def consume_name_def change_last_header_def name_char_def with_headers_def\<close>)
qed

lemma runs_value:
  "list_all (\<lambda>c. \<not> is_ctl c) w \<Longrightarrow> runs lexical_cast (parser Header_value low (with_headers req (hs @ [h]))) w
     (parser Header_value (low\<lparr>hd_value := hd_value low @ map to_lower w\<rparr>) (with_headers req (hs @ [h\<lparr>hd_value := hd_value h @ w\<rparr>])))"
proof (induction w arbitrary: low h)
  case Nil
  show ?case using runs_Nil by simp
next
  case (Cons c w)
  then have "list_all (\<lambda>c. \<not> is_ctl c) w" "\<not> is_ctl c" by simp_all
  from Cons.IH [OF this(1), of "value_char low (to_lower c)" "value_char h c"] show ?case
    by (intro runs_Cons) (use \<open>\<not> is_ctl c\<close> blank_not_token(5) in
      \<open>auto simp: consume_def consume_value_def change_last_header_def value_char_def with_headers_def\<close>)
qed

definition lower_header :: "header \<Rightarrow> header" where
  "lower_header h = \<lparr>hd_name = map to_lower (hd_name h), hd_value = map to_lower (hd_value h)\<rparr>"

definition valid_header :: "header \<Rightarrow> bool" where
  "valid_header h \<longleftrightarrow> hd_name h \<noteq> [] \<and> list_all token_char (hd_name h) \<and> list_all (\<lambda>c. \<not> is_ctl c) (hd_value h)"

lemma runs_header:
  assumes "valid_header h"
    and "process_ready_header lexical_cast (lower_header h) (with_headers req (hs @ [h])) = Some (True, req')"
  shows "runs lexical_cast (parser Header_line_start no_header (with_headers req hs)) (header_line h) (parser Header_line_start no_header req')"
proof -
  obtain c w where n: "hd_name h = c # w" using assms(1) by (cases "hd_name h") (auto simp: valid_header_def)
  then have c: "token_char c" "list_all token_char w" and v: "list_all (\<lambda>c. \<not> is_ctl c) (hd_value h)"
    using assms(1) by (simp_all add: valid_header_def)
  have eta: "\<lparr>hd_name = hd_name h, hd_value = hd_value h\<rparr> = h" by simp
  let ?low = "\<lparr>hd_name = map to_lower (hd_name h), hd_value = ''''\<rparr>" and ?h = "\<lparr>hd_name = hd_name h, hd_value = ''''\<rparr>"
  have "runs lexical_cast (parser Header_line_start no_header (with_headers req hs)) (hd_name h) (parser Header_name ?low (with_headers req (hs @ [?h])))"
    unfolding n list.map
    by (rule runs_Cons [OF _ _ _ runs_name [OF c(2), of _ "\<lparr>hd_name = [to_lower c], hd_value = ''''\<rparr>" req hs "\<lparr>hd_name = [c], hd_value = ''''\<rparr>", simplified]])
      (use c(1) token_not [OF c(1)] in
        \<open>simp_all add: consume_def consume_name_def change_last_header_def name_char_def with_headers_def no_header_def\<close>)
  moreover have "runs lexical_cast (parser Header_name ?low (with_headers req (hs @ [?h]))) '': '' (parser Header_value ?low (with_headers req (hs @ [?h])))"
    by (simp add: runs_def consume_def expect_def)
  moreover have "runs lexical_cast (parser Header_value ?low (with_headers req (hs @ [?h]))) (hd_value h)
      (parser Header_value (lower_header h) (with_headers req (hs @ [h])))"
    using runs_value [OF v, of lexical_cast ?low req hs ?h] by (simp add: lower_header_def eta)
  moreover have "runs lexical_cast (parser Header_value (lower_header h) (with_headers req (hs @ [h]))) crlf (parser Header_line_start no_header req')"
    unfolding crlf_def by (rule runs_Cons [where q = "parser Expecting_newline_2 no_header req'"], simp, simp, simp add: consume_def assms(2))
      (rule runs_char, simp_all add: consume_def expect_def)
  ultimately show ?thesis unfolding header_line_def by (intro runs_append)
qed

text \<open>Headers the parser keeps for itself.\<close>

definition special_names :: "string set" where
  "special_names = {''content-length'', ''host'', ''connection'', ''authorization''}"

definition valid_request :: "request \<Rightarrow> bool" where
  "valid_request r \<longleftrightarrow> rq_method r \<noteq> [] \<and> list_all token_char (rq_method r) \<and> list_all (\<lambda>c. \<not> is_ctl c \<and> c \<noteq> CHR '' '') (rq_uri r) \<and>
     0 \<le> sint (rq_http_version_major r) \<and> 0 \<le> sint (rq_http_version_minor r) \<and>
     list_all (\<lambda>c. \<not> is_ctl c) (rq_host r) \<and> map to_lower (rq_host r) = rq_host r \<and>
     (\<forall>h \<in> set (rq_headers r). valid_header h \<and> map to_lower (hd_name h) \<notin> special_names) \<and>
     list_all (\<lambda>c. \<not> is_ctl c) (rq_basic_authorization r) \<and> strip_blanks (rq_basic_authorization r) = rq_basic_authorization r \<and>
     (rq_keep_alive r \<longrightarrow> rq_http_version_major r = 1 \<and> rq_http_version_minor r \<in> {0, 1}) \<and>
     (rq_http_version_major r = 1 \<and> rq_http_version_minor r = 1 \<longrightarrow> rq_keep_alive r)"

lemma int_text_eq: "0 \<le> sint v \<Longrightarrow> int_text v = decimal (unat v) \<and> word_of_nat (unat v) = v"
proof -
  assume "0 \<le> sint v"
  moreover have "sint v < 2 ^ 32" using sint_less [of v] by simp
  ultimately have "sint v = uint v" by (simp add: uint_sint take_bit_int_eq_self)
  then show ?thesis by (simp add: int_text_def nat_uint_eq)
qed

lemma with_headers_simps [simp]:
  "rq_headers (with_headers req hs) = hs" "(with_headers req hs)\<lparr>rq_headers := hs'\<rparr> = with_headers req hs'"
  "(with_headers req hs)\<lparr>rq_content_length := n\<rparr> = with_headers (req\<lparr>rq_content_length := n\<rparr>) hs"
  "(with_headers req hs)\<lparr>rq_host := a\<rparr> = with_headers (req\<lparr>rq_host := a\<rparr>) hs"
  "(with_headers req hs)\<lparr>rq_keep_alive := b\<rparr> = with_headers (req\<lparr>rq_keep_alive := b\<rparr>) hs"
  "(with_headers req hs)\<lparr>rq_basic_authorization := a\<rparr> = with_headers (req\<lparr>rq_basic_authorization := a\<rparr>) hs"
  by (simp_all add: with_headers_def)

lemma to_lower_words:
  "map to_lower ''Host'' = ''host''" "map to_lower ''Authorization'' = ''authorization''" "map to_lower ''Connection'' = ''connection''"
  "map to_lower ''Content-Length'' = ''content-length''" "map to_lower ''keep-alive'' = ''keep-alive''" "map to_lower ''Basic '' = ''basic ''"
  by code_simp+

lemma valid_words:
  "list_all token_char ''Host''" "list_all token_char ''Authorization''" "list_all token_char ''Connection''" "list_all token_char ''Content-Length''"
  "list_all (\<lambda>c. \<not> is_ctl c) ''keep-alive''" "list_all (\<lambda>c. \<not> is_ctl c) ''Basic ''"
  by code_simp+

lemma runs_headers:
  "\<forall>h \<in> set hs'. valid_header h \<and> map to_lower (hd_name h) \<notin> special_names \<Longrightarrow>
   runs lexical_cast (parser Header_line_start no_header (with_headers req hs)) (concat (map header_line hs'))
     (parser Header_line_start no_header (with_headers req (hs @ hs')))"
proof (induction hs' arbitrary: hs)
  case Nil
  show ?case using runs_Nil by simp
next
  case (Cons h hs')
  have "process_ready_header lexical_cast (lower_header h) (with_headers req (hs @ [h])) = Some (True, with_headers req (hs @ [h]))"
    using Cons.prems by (simp add: process_ready_header_def lower_header_def special_names_def)
  then have "runs lexical_cast (parser Header_line_start no_header (with_headers req hs)) (header_line h)
      (parser Header_line_start no_header (with_headers req (hs @ [h])))"
    using Cons.prems by (intro runs_header) simp_all
  from runs_append [OF this Cons.IH [of "hs @ [h]"]] Cons.prems show ?case by simp
qed

lemma runs_host:
  assumes "list_all (\<lambda>c. \<not> is_ctl c) a" "map to_lower a = a"
  shows "runs lexical_cast (parser Header_line_start no_header (with_headers req hs)) (''Host: '' @ a @ crlf)
    (parser Header_line_start no_header (with_headers (req\<lparr>rq_host := a\<rparr>) hs))"
proof -
  have "runs lexical_cast (parser Header_line_start no_header (with_headers req hs)) (header_line \<lparr>hd_name = ''Host'', hd_value = a\<rparr>)
    (parser Header_line_start no_header (with_headers (req\<lparr>rq_host := a\<rparr>) hs))"
    by (rule runs_header)
      (use assms valid_words in \<open>simp_all only: valid_header_def lower_header_def process_ready_header_def header.simps to_lower_words pop_header_def, simp_all\<close>)
  then show ?thesis by (simp add: header_line_def)
qed

lemma runs_connection:
  "runs lexical_cast (parser Header_line_start no_header (with_headers req hs)) (''Connection: keep-alive'' @ crlf)
    (parser Header_line_start no_header (with_headers (req\<lparr>rq_keep_alive := True\<rparr>) hs))"
proof -
  have "runs lexical_cast (parser Header_line_start no_header (with_headers req hs)) (header_line \<lparr>hd_name = ''Connection'', hd_value = ''keep-alive''\<rparr>)
    (parser Header_line_start no_header (with_headers (req\<lparr>rq_keep_alive := True\<rparr>) hs))"
    by (rule runs_header)
      (use valid_words in \<open>simp_all only: valid_header_def lower_header_def process_ready_header_def header.simps to_lower_words pop_header_def, simp_all\<close>)
  then show ?thesis by (simp add: header_line_def)
qed

lemma plain_lower: "plain w \<Longrightarrow> map to_lower w = w \<and> list_all (\<lambda>c. \<not> is_ctl c) w"
  by (induction w) (simp_all add: digit_facts)

lemma runs_content_length:
  assumes "lexical_cast (decimal (unat n)) = Some n"
  shows "runs lexical_cast (parser Header_line_start no_header (with_headers req hs)) (''Content-Length: '' @ decimal (unat n) @ crlf)
    (parser Header_line_start no_header (with_headers (req\<lparr>rq_content_length := n\<rparr>) hs))"
proof -
  have d: "map to_lower (decimal (unat n)) = decimal (unat n)" "list_all (\<lambda>c. \<not> is_ctl c) (decimal (unat n))"
    using plain_lower [OF plain_decimal] by simp_all
  have "runs lexical_cast (parser Header_line_start no_header (with_headers req hs)) (header_line \<lparr>hd_name = ''Content-Length'', hd_value = decimal (unat n)\<rparr>)
    (parser Header_line_start no_header (with_headers (req\<lparr>rq_content_length := n\<rparr>) hs))"
    by (rule runs_header)
      (use valid_words d assms in \<open>simp_all only: valid_header_def lower_header_def process_ready_header_def header.simps to_lower_words pop_header_def, simp_all\<close>)
  then show ?thesis by (simp add: header_line_def)
qed

lemma runs_authorization:
  assumes "list_all (\<lambda>c. \<not> is_ctl c) a" "strip_blanks a = a"
  shows "runs lexical_cast (parser Header_line_start no_header (with_headers req hs)) (''Authorization: Basic '' @ a @ crlf)
    (parser Header_line_start no_header (with_headers (req\<lparr>rq_basic_authorization := a\<rparr>) hs))"
proof -
  have s: "strip_blanks (drop 5 (''Basic '' @ a)) = a"
    using assms(2) by (simp add: strip_blanks_def blank_not_token)
  have l: "map to_lower (''Basic '' @ a) = ''basic '' @ map to_lower a" by (simp only: map_append to_lower_words)
  have "runs lexical_cast (parser Header_line_start no_header (with_headers req hs)) (header_line \<lparr>hd_name = ''Authorization'', hd_value = ''Basic '' @ a\<rparr>)
    (parser Header_line_start no_header (with_headers (req\<lparr>rq_basic_authorization := a\<rparr>) hs))"
  proof (rule runs_header)
    show "valid_header \<lparr>hd_name = ''Authorization'', hd_value = ''Basic '' @ a\<rparr>"
      using assms(1) valid_words by (simp add: valid_header_def)
    show "process_ready_header lexical_cast (lower_header \<lparr>hd_name = ''Authorization'', hd_value = ''Basic '' @ a\<rparr>)
        (with_headers req (hs @ [\<lparr>hd_name = ''Authorization'', hd_value = ''Basic '' @ a\<rparr>])) =
      Some (True, with_headers (req\<lparr>rq_basic_authorization := a\<rparr>) hs)"
      unfolding lower_header_def header.simps l to_lower_words process_ready_header_def with_headers_simps last_snoc s
      by (simp add: pop_header_def)
  qed
  then show ?thesis by (simp add: header_line_def)
qed

lemma runs_if:
  "(P \<Longrightarrow> runs lexical_cast p a q) \<Longrightarrow> (\<not> P \<Longrightarrow> q = p) \<Longrightarrow> runs lexical_cast p (if P then a else '''') q"
  using runs_Nil by simp

section \<open>Properties\<close>

text \<open>
  C39: The parser never looks at a header that is not there, whatever request object it is given and
  however the input is cut into pieces: it always answers, it uses the input from the front and
  leaves some only after a verdict, and feeding it in two pieces comes to the same.
\<close>

theorem request_parser_safe:
  "(\<exists>p rest. parse_request lexical_cast (new_request_parser req) input = Some (p, rest) \<and> parser_ok p \<and> (\<exists>used. input = used @ rest) \<and>
      (rest = [] \<or> rp_state p = Good \<or> rp_state p = Bad)) \<and>
   parse_request lexical_cast (new_request_parser req) (input @ input2) =
     Option.bind (parse_request lexical_cast (new_request_parser req) input)
       (\<lambda>(p, rest). if rest = [] then parse_request lexical_cast p input2 else Some (p, rest @ input2))"
proof -
  have "parser_ok (new_request_parser req)" by (simp add: parser_ok_def new_request_parser_def)
  from parse_request_ok [OF this, of lexical_cast input] show ?thesis by (auto simp: parse_request_append)
qed

text \<open>
  C40: A request that is printed is read back as itself, and what follows it is left, if its words
  have no characters that delimit them, its host is in lower case, the headers the parser keeps
  for itself are not in the list, and keeping the connection is what its version implies; a number
  is printed so that \<open>lexical_cast\<close> reads it back.
\<close>

theorem request_text_roundtrip:
  assumes "valid_request r" "\<And>n :: u64. lexical_cast (decimal (unat n)) = Some n"
  shows "parse_request lexical_cast (new_request_parser new_request) (request_to_string r @ rest) = Some (parser Good no_header r, rest)"
proof -
  let ?M = "rq_http_version_major r" and ?m = "rq_http_version_minor r"
  have v: "list_all (\<lambda>c. \<not> is_ctl c) (rq_host r)" "map to_lower (rq_host r) = rq_host r"
    "list_all (\<lambda>c. \<not> is_ctl c) (rq_basic_authorization r)" "strip_blanks (rq_basic_authorization r) = rq_basic_authorization r"
    and hs: "\<forall>h \<in> set (rq_headers r). valid_header h \<and> map to_lower (hd_name h) \<notin> special_names"
    and keep: "rq_keep_alive r \<longleftrightarrow> ?M = 1 \<and> ?m = 1 \<or> ?M = 1 \<and> ?m = 0 \<and> rq_keep_alive r"
    using assms(1) by (auto simp: valid_request_def)
  have n: "int_text ?M = decimal (unat ?M)" "int_text ?m = decimal (unat ?m)"
    using assms(1) int_text_eq by (simp_all add: valid_request_def)
  let ?q0 = "new_request\<lparr>rq_method := rq_method r, rq_uri := rq_uri r, rq_http_version_major := ?M, rq_http_version_minor := ?m,
    rq_keep_alive := ?M = 1 \<and> ?m = 1\<rparr>"
  let ?q1 = "?q0\<lparr>rq_host := rq_host r\<rparr>"
  let ?q2 = "?q1\<lparr>rq_basic_authorization := rq_basic_authorization r\<rparr>"
  let ?q3 = "?q2\<lparr>rq_keep_alive := rq_keep_alive r\<rparr>"
  let ?q4 = "?q3\<lparr>rq_content_length := rq_content_length r\<rparr>"
  let ?S = "\<lambda>q hs. parser Header_line_start no_header (with_headers q hs)"
  have q0: "with_headers ?q0 [] = ?q0" by (simp add: with_headers_def new_request_def)
  have r1: "runs lexical_cast (parser Method_start no_header new_request) (rq_method r @ '' '' @ rq_uri r @ '' '' @ ''HTTP/'' @ int_text ?M @ ''.'' @ int_text ?m @ crlf) (?S ?q0 [])"
    using assms(1) runs_first_line [of "rq_method r" "rq_uri r" lexical_cast no_header "unat ?M" "unat ?m"]
    unfolding n q0 valid_request_def by simp
  have r2: "runs lexical_cast (?S ?q0 []) (if rq_host r \<noteq> '''' then ''Host: '' @ rq_host r @ crlf else '''') (?S ?q1 [])"
    by (rule runs_if [OF runs_host [OF v(1,2)]]) (simp add: new_request_def)
  have r3: "runs lexical_cast (?S ?q1 []) (concat (map header_line (rq_headers r))) (?S ?q1 (rq_headers r))"
    using runs_headers [OF hs, of lexical_cast ?q1 "[]"] by simp
  have r4: "runs lexical_cast (?S ?q1 (rq_headers r))
      (if rq_basic_authorization r \<noteq> '''' then ''Authorization: Basic '' @ rq_basic_authorization r @ crlf else '''') (?S ?q2 (rq_headers r))"
    by (rule runs_if [OF runs_authorization [OF v(3,4)]]) (simp add: new_request_def)
  have r5: "runs lexical_cast (?S ?q2 (rq_headers r))
      (if ?M = 1 \<and> ?m = 0 \<and> rq_keep_alive r then ''Connection: keep-alive'' @ crlf else '''') (?S ?q3 (rq_headers r))"
  proof (rule runs_if)
    assume "?M = 1 \<and> ?m = 0 \<and> rq_keep_alive r"
    then show "runs lexical_cast (?S ?q2 (rq_headers r)) (''Connection: keep-alive'' @ crlf) (?S ?q3 (rq_headers r))"
      using runs_connection [of lexical_cast ?q2 "rq_headers r"] by simp
  next
    assume "\<not> (?M = 1 \<and> ?m = 0 \<and> rq_keep_alive r)"
    then have "(?M = 1 \<and> ?m = 1) = rq_keep_alive r" using keep by blast
    then show "?S ?q3 (rq_headers r) = ?S ?q2 (rq_headers r)" by (simp add: new_request_def)
  qed
  have r: "with_headers ?q4 (rq_headers r) = r" by (simp add: with_headers_def new_request_def)
  have q: "\<not> has_content_length r \<Longrightarrow> ?q4 = ?q3" by (simp add: has_content_length_def new_request_def)
  have c: "runs lexical_cast (?S ?q4 (rq_headers r)) crlf (parser Good no_header r)" using runs_crlf by (simp only: r)
  have "runs lexical_cast (?S ?q3 (rq_headers r)) (''Content-Length: '' @ decimal (unat (rq_content_length r)) @ crlf) (?S ?q4 (rq_headers r))"
    by (rule runs_content_length) (rule assms(2))
  from runs_append [OF this c] c q have r6: "runs lexical_cast (?S ?q3 (rq_headers r))
      (if has_content_length r then ''Content-Length: '' @ decimal (unat (rq_content_length r)) @ crlf @ crlf else crlf) (parser Good no_header r)"
    by (cases "has_content_length r") (simp_all only: append_assoc if_True if_False simp_thms)
  have "runs lexical_cast (parser Method_start no_header new_request) (request_to_string r) (parser Good no_header r)"
    using runs_append [OF r1 runs_append [OF r2 runs_append [OF r3 runs_append [OF r4 runs_append [OF r5 r6]]]]]
    unfolding request_to_string_def by (simp only: append_assoc)
  then have p: "parse_request lexical_cast (new_request_parser new_request) (request_to_string r) = Some (parser Good no_header r, [])"
    by (simp add: runs_def new_request_parser_def parser_def)
  have "parse_request lexical_cast (parser Good no_header r) rest = Some (parser Good no_header r, rest)"
    by (cases rest) simp_all
  with p show ?thesis by (simp add: parse_request_append)
qed

definition sample_request_text :: request where
  "sample_request_text = \<lparr>rq_method = ''POST'', rq_uri = ''/json_rpc'', rq_http_version_major = 1, rq_http_version_minor = 1,
     rq_headers = [\<lparr>hd_name = ''Accept'', hd_value = ''*''\<rparr>], rq_basic_authorization = ''dTpw'', rq_host = ''localhost'',
     rq_keep_alive = True, rq_content_length = 12\<rparr>"

lemma request_text_roundtrip_witness:
  "parse_request (\<lambda>s. Some (word_of_nat (digits_value s))) (new_request_parser new_request) (request_to_string sample_request_text @ ''{}'') =
     Some (parser Good no_header sample_request_text, ''{}'')"
  by (rule request_text_roundtrip) (code_simp, simp)

text \<open>The header that ends a connection of version 1.1 is not printed.\<close>

lemma keep_alive_not_printed:
  "\<not> (rq_http_version_major r = 1 \<and> rq_http_version_minor r = 0) \<Longrightarrow>
   request_to_string (r\<lparr>rq_keep_alive := False\<rparr>) = request_to_string (r\<lparr>rq_keep_alive := True\<rparr>)"
  by (auto simp: request_to_string_def has_content_length_def)

end
